(* ===== verification/Prelude.thy ===== *)
theory Prelude
  imports Main "HOL-Library.Word"
begin

text \<open>
  What the components of the xv6 model share: the widths of the C integer types, the result
  of a kernel function (return, \<open>panic()\<close>, or switching to the scheduler), sequencing and its
  weakest-precondition rules, counted loops, first-fit searches of fixed-size tables, and the
  allocator interface that several components provide.
\<close>

unbundle bit_operations_syntax

named_theorems wp_simps \<open>weakest-precondition rules of the kernel's operations\<close>
named_theorems frame_simps \<open>what an operation leaves unchanged\<close>
named_theorems byte_simps \<open>encodings of C data in bytes\<close>

section \<open>C types\<close>

type_synonym u8 = "8 word"
type_synonym u16 = "16 word"
type_synonym u32 = "32 word"
type_synonym u64 = "64 word"

section \<open>Results of kernel code\<close>

text \<open>
  A wait channel is the address of some kernel object. The objects that the code sleeps on
  are named symbolically.
\<close>

datatype chan =
    ChBuf nat | ChInode nat | ChLog | ChProc nat | ChTicks | ChCons | ChTx | ChDisk
  | ChBufDisk nat | ChPipeR u64 | ChPipeW u64

text \<open>The kernel's spin locks, named by the object they protect.\<close>

datatype lockid =
    LKmem | LBcache | LLog | LItable | LFtable | LPid | LWait | LTicks | LCons | LTx | LPr
  | LVdisk | LProc nat | LPipe u64 | LBuf nat | LInode nat

text \<open>
  A kernel function returns (\<open>Ok\<close>), calls \<open>panic()\<close> with a message, or gives up the processor
  in \<open>sched()\<close>: \<open>Block s\<close>, with the state \<open>s\<close> in which it switches to the scheduler.
\<close>

datatype ('a, 's) kres = Ok 'a 's | Panic string | Block 's

definition kbind :: "('a, 's) kres \<Rightarrow> ('a \<Rightarrow> 's \<Rightarrow> ('b, 's) kres) \<Rightarrow> ('b, 's) kres" where
  "kbind m f = (case m of Ok a s \<Rightarrow> f a s | Panic e \<Rightarrow> Panic e | Block s \<Rightarrow> Block s)"

lemma kbind_simps [simp]:
  "kbind (Ok a s) f = f a s"
  "kbind (Panic e) f = Panic e"
  "kbind (Block s) f = Block s"
  by (simp_all add: kbind_def)

lemma kbind_assoc: "kbind (kbind m f) g = kbind m (\<lambda>a s. kbind (f a s) g)"
  by (cases m) simp_all

lemma kbind_cong [fundef_cong]:
  "m = m' \<Longrightarrow> (\<And>a s. m' = Ok a s \<Longrightarrow> f a s = g a s) \<Longrightarrow> kbind m f = kbind m' g"
  by (cases m') simp_all

lemma kbind_Ok_right [simp]: "kbind m Ok = m"
  by (cases m) simp_all

lemma kbind_eq_Ok: "kbind m f = Ok b t \<longleftrightarrow> (\<exists>a s. m = Ok a s \<and> f a s = Ok b t)"
  by (cases m) auto

text \<open>
  \<open>wp m Q\<close>: the code returns and \<open>Q\<close> holds of its result (total correctness: no panic and
  no sleep). \<open>pwp m Q\<close>: \<open>Q\<close> holds if it returns.
\<close>

definition wp :: "('a, 's) kres \<Rightarrow> ('a \<Rightarrow> 's \<Rightarrow> bool) \<Rightarrow> bool" where
  "wp m Q = (case m of Ok a s \<Rightarrow> Q a s | Panic e \<Rightarrow> False | Block s \<Rightarrow> False)"

definition pwp :: "('a, 's) kres \<Rightarrow> ('a \<Rightarrow> 's \<Rightarrow> bool) \<Rightarrow> bool" where
  "pwp m Q = (case m of Ok a s \<Rightarrow> Q a s | Panic e \<Rightarrow> True | Block s \<Rightarrow> True)"

lemma wp_basic [wp_simps]:
  "wp (Ok a s) Q = Q a s"
  "wp (Panic e) Q = False"
  "wp (Block s) Q = False"
  by (simp_all add: wp_def)

lemma wp_kbind [wp_simps]: "wp (kbind m f) Q = wp m (\<lambda>a s. wp (f a s) Q)"
  by (cases m) (simp_all add: wp_def)

lemma pwp_basic [wp_simps]:
  "pwp (Ok a s) Q = Q a s"
  "pwp (Panic e) Q"
  "pwp (Block s) Q"
  by (simp_all add: pwp_def)

lemma pwp_kbind [wp_simps]: "pwp (kbind m f) Q = pwp m (\<lambda>a s. pwp (f a s) Q)"
  by (cases m) (simp_all add: pwp_def)

lemma wp_if [wp_simps]: "wp (if b then m else n) Q = (if b then wp m Q else wp n Q)"
  by simp

lemma pwp_if [wp_simps]: "pwp (if b then m else n) Q = (if b then pwp m Q else pwp n Q)"
  by simp

lemma wp_mono: "wp m P \<Longrightarrow> (\<And>a s. P a s \<Longrightarrow> Q a s) \<Longrightarrow> wp m Q"
  by (cases m) (simp_all add: wp_def)

lemma pwp_mono: "pwp m P \<Longrightarrow> (\<And>a s. P a s \<Longrightarrow> Q a s) \<Longrightarrow> pwp m Q"
  by (cases m) (simp_all add: pwp_def)

lemma wp_conjI: "wp m P \<Longrightarrow> wp m Q \<Longrightarrow> wp m (\<lambda>a s. P a s \<and> Q a s)"
  by (cases m) (simp_all add: wp_def)

lemma wp_pwp: "wp m P \<Longrightarrow> pwp m Q \<Longrightarrow> wp m (\<lambda>a s. P a s \<and> Q a s)"
  by (cases m) (simp_all add: wp_def pwp_def)

lemma wp_iff: "wp m Q \<longleftrightarrow> (\<exists>a s. m = Ok a s \<and> Q a s)"
  by (cases m) (auto simp: wp_def)

lemma wpE:
  assumes "wp m Q"
  obtains a s where "m = Ok a s" and "Q a s"
  using assms by (auto simp: wp_iff)

lemma pwpD: "pwp m Q \<Longrightarrow> m = Ok a s \<Longrightarrow> Q a s"
  by (simp add: pwp_def)

lemma pwpI: "(\<And>a s. m = Ok a s \<Longrightarrow> Q a s) \<Longrightarrow> pwp m Q"
  by (cases m) (simp_all add: pwp_def)

subsection \<open>Counted loops\<close>

text \<open>\<open>for (i = ...) body\<close> with no early exit, over the list of the values of \<open>i\<close>.\<close>

fun foreach :: "('i \<Rightarrow> 's \<Rightarrow> (unit, 's) kres) \<Rightarrow> 'i list \<Rightarrow> 's \<Rightarrow> (unit, 's) kres" where
  "foreach body [] s = Ok () s"
| "foreach body (i # is) s = kbind (body i s) (\<lambda>_ s. foreach body is s)"

lemma foreach_append: "foreach f (xs @ ys) s = kbind (foreach f xs s) (\<lambda>_ s. foreach f ys s)"
  by (induction xs arbitrary: s) (simp_all add: kbind_assoc fun_eq_iff cong: kbind_cong)

text \<open>The loop rule: an invariant indexed by the values already processed.\<close>

lemma wp_foreach:
  assumes "I [] s"
    and "\<And>ys i zs s. xs = ys @ i # zs \<Longrightarrow> I ys s \<Longrightarrow> wp (body i s) (\<lambda>_ s'. I (ys @ [i]) s')"
  shows "wp (foreach body xs s) (\<lambda>_ s'. I xs s')"
proof -
  have "wp (foreach body zs s) (\<lambda>_ s'. I xs s')" if "xs = ys @ zs" "I ys s" for ys zs s
    using that
  proof (induction zs arbitrary: ys s)
    case Nil
    then show ?case by (simp add: wp_simps)
  next
    case (Cons i zs)
    have "wp (body i s) (\<lambda>_ s'. I (ys @ [i]) s')"
      using Cons.prems by (rule assms(2))
    then show ?case
      using Cons.IH [of "ys @ [i]"] Cons.prems(1) by (auto simp: wp_simps elim!: wp_mono)
  qed
  from this [of "[]" xs] assms(1) show ?thesis by simp
qed

lemma pwp_foreach:
  assumes "I s" and "\<And>i s. i \<in> set xs \<Longrightarrow> I s \<Longrightarrow> pwp (body i s) (\<lambda>_ s'. I s')"
  shows "pwp (foreach body xs s) (\<lambda>_ s'. I s')"
  using assms
proof (induction xs arbitrary: s)
  case Nil
  then show ?case by (simp add: wp_simps)
next
  case (Cons i xs)
  have "pwp (body i s) (\<lambda>_ s'. I s')"
    using Cons.prems by simp
  then have "pwp (body i s) (\<lambda>_ s'. pwp (foreach body xs s') (\<lambda>_ s'. I s'))"
    by (rule pwp_mono) (simp add: Cons)
  then show ?case by (simp add: wp_simps)
qed

text \<open>A loop that ends early: the body returns \<open>Some\<close> value to leave the loop with it.\<close>

fun kscan :: "('i \<Rightarrow> 's \<Rightarrow> ('a option, 's) kres) \<Rightarrow> 'i list \<Rightarrow> 's \<Rightarrow> ('a option, 's) kres" where
  "kscan body [] s = Ok None s"
| "kscan body (i # is) s =
    kbind (body i s) (\<lambda>r s. case r of Some a \<Rightarrow> Ok (Some a) s | None \<Rightarrow> kscan body is s)"

lemma pwp_kscan:
  assumes "I s" and "\<And>i s. i \<in> set xs \<Longrightarrow> I s \<Longrightarrow> pwp (body i s) (\<lambda>r s'. case r of None \<Rightarrow> I s' | Some a \<Rightarrow> Q a s')"
  shows "pwp (kscan body xs s) (\<lambda>r s'. case r of None \<Rightarrow> I s' | Some a \<Rightarrow> Q a s')"
  using assms
proof (induction xs arbitrary: s)
  case Nil
  then show ?case by (simp add: wp_simps)
next
  case (Cons i xs)
  have "pwp (body i s) (\<lambda>r s'. case r of None \<Rightarrow> I s' | Some a \<Rightarrow> Q a s')"
    using Cons.prems by simp
  then have "pwp (body i s) (\<lambda>r s'. pwp (case r of Some a \<Rightarrow> Ok (Some a) s' | None \<Rightarrow> kscan body xs s')
      (\<lambda>r s'. case r of None \<Rightarrow> I s' | Some a \<Rightarrow> Q a s'))"
  proof (rule pwp_mono)
    fix r s' assume r: "case r of None \<Rightarrow> I s' | Some a \<Rightarrow> Q a s'"
    show "pwp (case r of Some a \<Rightarrow> Ok (Some a) s' | None \<Rightarrow> kscan body xs s')
      (\<lambda>r s'. case r of None \<Rightarrow> I s' | Some a \<Rightarrow> Q a s')"
      using r Cons.IH [of s'] Cons.prems(2) by (cases r) (simp_all add: wp_simps)
  qed
  then show ?case by (simp add: wp_simps)
qed

text \<open>The loop rule for a loop that returns: \<open>I\<close> indexed by the values already processed.\<close>

lemma wp_kscan:
  assumes "I [] s"
    and "\<And>ys i zs s. xs = ys @ i # zs \<Longrightarrow> I ys s \<Longrightarrow>
      wp (body i s) (\<lambda>r s'. case r of None \<Rightarrow> I (ys @ [i]) s' | Some a \<Rightarrow> Q a s')"
  shows "wp (kscan body xs s) (\<lambda>r s'. case r of None \<Rightarrow> I xs s' | Some a \<Rightarrow> Q a s')"
proof -
  have "wp (kscan body zs s) (\<lambda>r s'. case r of None \<Rightarrow> I xs s' | Some a \<Rightarrow> Q a s')" if "xs = ys @ zs" "I ys s" for ys zs s
    using that
  proof (induction zs arbitrary: ys s)
    case Nil
    then show ?case by (simp add: wp_simps)
  next
    case (Cons i zs)
    have b: "wp (body i s) (\<lambda>r s'. case r of None \<Rightarrow> I (ys @ [i]) s' | Some a \<Rightarrow> Q a s')"
      using Cons.prems by (rule assms(2))
    have "wp (body i s) (\<lambda>r s'. wp (case r of Some a \<Rightarrow> Ok (Some a) s' | None \<Rightarrow> kscan body zs s')
        (\<lambda>r s'. case r of None \<Rightarrow> I xs s' | Some a \<Rightarrow> Q a s'))"
    proof (rule wp_mono [OF b])
      fix r s' assume r: "case r of None \<Rightarrow> I (ys @ [i]) s' | Some a \<Rightarrow> Q a s'"
      show "wp (case r of Some a \<Rightarrow> Ok (Some a) s' | None \<Rightarrow> kscan body zs s')
        (\<lambda>r s'. case r of None \<Rightarrow> I xs s' | Some a \<Rightarrow> Q a s')"
        using r Cons.IH [of "ys @ [i]" s'] Cons.prems(1) by (cases r) (simp_all add: wp_simps)
    qed
    then show ?case by (simp add: wp_simps)
  qed
  from this [of "[]" xs] assms(1) show ?thesis by simp
qed

section \<open>First-fit search of a table\<close>

text \<open>
  \<open>for (i = 0; i < n; i++) if (P(i)) ...\<close>: the least index with \<open>P\<close>, if there is one.
  \<open>scan_from P k i\<close> looks at the \<open>k\<close> entries from \<open>i\<close> on.
\<close>

fun scan_from :: "(nat \<Rightarrow> bool) \<Rightarrow> nat \<Rightarrow> nat \<Rightarrow> nat option" where
  "scan_from P 0 i = None"
| "scan_from P (Suc k) i = (if P i then Some i else scan_from P k (Suc i))"

definition scan :: "(nat \<Rightarrow> bool) \<Rightarrow> nat \<Rightarrow> nat option" where
  "scan P n = scan_from P n 0"

lemma scan_from_Some:
  "scan_from P k i = Some j \<longleftrightarrow> i \<le> j \<and> j < i + k \<and> P j \<and> (\<forall>m. i \<le> m \<and> m < j \<longrightarrow> \<not> P m)"
proof (induction k arbitrary: i)
  case 0
  then show ?case by auto
next
  case (Suc k)
  then show ?case
    by (auto simp: Suc_le_eq) (metis le_neq_implies_less linorder_not_le le_eq_less_or_eq)+
qed

lemma scan_from_None: "scan_from P k i = None \<longleftrightarrow> (\<forall>m. i \<le> m \<and> m < i + k \<longrightarrow> \<not> P m)"
proof (induction k arbitrary: i)
  case 0
  then show ?case by auto
next
  case (Suc k)
  have "(\<forall>m. i \<le> m \<and> m < i + Suc k \<longrightarrow> \<not> P m) \<longleftrightarrow>
      \<not> P i \<and> (\<forall>m. Suc i \<le> m \<and> m < Suc i + k \<longrightarrow> \<not> P m)"
    by (auto simp: Suc_le_eq) (metis le_neq_implies_less)
  then show ?case by (simp add: Suc.IH)
qed

lemma scan_Some: "scan P n = Some j \<longleftrightarrow> j < n \<and> P j \<and> (\<forall>m<j. \<not> P m)"
  by (auto simp: scan_def scan_from_Some)

lemma scan_None: "scan P n = None \<longleftrightarrow> (\<forall>m<n. \<not> P m)"
  by (auto simp: scan_def scan_from_None)


section \<open>The locks a kernel thread holds\<close>

text \<open>
  The specification of the spin locks that the rest of the kernel is modelled over: the set of
  locks held by the running hart. Acquiring a lock that is already held and releasing one that
  is not are the two panics of \<^verbatim>\<open>kernel/spinlock.c\<close>. The theory \<open>Spinlock\<close> has the code itself and
  shows that it implements this specification.
\<close>

record klocks =
  held :: "lockid set"

definition acquire :: "lockid \<Rightarrow> 'z klocks_scheme \<Rightarrow> (unit, 'z klocks_scheme) kres" where
  "acquire l s = (if l \<in> held s then Panic ''acquire'' else Ok () (s\<lparr>held := insert l (held s)\<rparr>))"

definition release :: "lockid \<Rightarrow> 'z klocks_scheme \<Rightarrow> (unit, 'z klocks_scheme) kres" where
  "release l s = (if l \<notin> held s then Panic ''release'' else Ok () (s\<lparr>held := held s - {l}\<rparr>))"

lemma wp_acquire [wp_simps]:
  "wp (acquire l s) Q \<longleftrightarrow> l \<notin> held s \<and> Q () (s\<lparr>held := insert l (held s)\<rparr>)"
  by (simp add: acquire_def wp_simps)

lemma wp_release [wp_simps]:
  "wp (release l s) Q \<longleftrightarrow> l \<in> held s \<and> Q () (s\<lparr>held := held s - {l}\<rparr>)"
  by (simp add: release_def wp_simps)

lemma pwp_acquire [wp_simps]:
  "pwp (acquire l s) Q \<longleftrightarrow> (l \<notin> held s \<longrightarrow> Q () (s\<lparr>held := insert l (held s)\<rparr>))"
  by (simp add: acquire_def wp_simps)

lemma pwp_release [wp_simps]:
  "pwp (release l s) Q \<longleftrightarrow> (l \<in> held s \<longrightarrow> Q () (s\<lparr>held := held s - {l}\<rparr>))"
  by (simp add: release_def wp_simps)

lemma held_insert_remove [simp]: "l \<notin> H \<Longrightarrow> insert l H - {l} = H"
  by simp

lemma held_upd_id: "held s = H \<Longrightarrow> s\<lparr>held := H\<rparr> = s"
  by (cases s) simp

text \<open>A critical section whose body does not look at the set of held locks.\<close>

lemma critical_section:
  assumes "l \<notin> held s" "\<And>h. f (s\<lparr>held := h\<rparr>) = (f s)\<lparr>held := h\<rparr>" "held (f s) = held s"
  shows "kbind (acquire l s) (\<lambda>_ s. release l (f s)) = Ok () (f s)"
  using assms by (simp add: acquire_def release_def held_upd_id)

lemma acquire_free: "l \<notin> held s \<Longrightarrow> acquire l s = Ok () (s\<lparr>held := insert l (held s)\<rparr>)"
  by (simp add: acquire_def)

lemma release_held: "l \<in> held s \<Longrightarrow> release l s = Ok () (s\<lparr>held := held s - {l}\<rparr>)"
  by (simp add: release_def)


section \<open>Interface: allocation of distinct resources\<close>

text \<open>
  What a client of a page allocator, a descriptor table or a file table relies on: a resource
  that is handed out was available and no longer is, the others stay as they are, and the
  allocator fails only when nothing is left. \<open>allocs n\<close> is a client that allocates \<open>n\<close> times.
\<close>

locale allocator =
  fixes alloc :: "'s \<Rightarrow> 'r option \<times> 's"
    and avail :: "'s \<Rightarrow> 'r set"
    and inv :: "'s \<Rightarrow> bool"
  assumes alloc_Some: "inv s \<Longrightarrow> alloc s = (Some r, t) \<Longrightarrow> r \<in> avail s \<and> avail t = avail s - {r} \<and> inv t"
    and alloc_None: "inv s \<Longrightarrow> alloc s = (None, t) \<Longrightarrow> avail s = {}"
begin

primrec allocs :: "nat \<Rightarrow> 's \<Rightarrow> 'r list option \<times> 's" where
  "allocs 0 s = (Some [], s)"
| "allocs (Suc n) s =
    (case alloc s of (None, t) \<Rightarrow> (None, t)
     | (Some r, t) \<Rightarrow> (case allocs n t of (None, u) \<Rightarrow> (None, u) | (Some rs, u) \<Rightarrow> (Some (r # rs), u)))"

lemma allocs_distinct:
  assumes "inv s" "allocs n s = (Some rs, t)"
  shows "distinct rs \<and> set rs \<subseteq> avail s \<and> avail t = avail s - set rs \<and> length rs = n \<and> inv t"
  using assms
proof (induction n arbitrary: s rs t)
  case 0
  then show ?case by simp
next
  case (Suc n)
  from Suc.prems(2) obtain r u rs' where r: "alloc s = (Some r, u)"
    and rs': "allocs n u = (Some rs', t)" "rs = r # rs'"
    by (auto split: prod.splits option.splits)
  from alloc_Some [OF Suc.prems(1) r] have u: "r \<in> avail s" "avail u = avail s - {r}" "inv u"
    by auto
  from Suc.IH [OF u(3) rs'(1)] u rs'(2) show ?case by auto
qed

lemma allocs_enough:
  assumes "inv s" "finite (avail s)" "n \<le> card (avail s)"
  shows "\<exists>rs t. allocs n s = (Some rs, t)"
  using assms
proof (induction n arbitrary: s)
  case 0
  then show ?case by simp
next
  case (Suc n)
  have "avail s \<noteq> {}" using Suc.prems by auto
  then obtain r u where r: "alloc s = (Some r, u)"
    using alloc_None [OF Suc.prems(1)] by (metis option.exhaust prod.exhaust)
  from alloc_Some [OF Suc.prems(1) r] have u: "r \<in> avail s" "avail u = avail s - {r}" "inv u"
    by auto
  have "n \<le> card (avail u)" using Suc.prems u by simp
  then obtain rs t where "allocs n u = (Some rs, t)"
    using Suc.IH [of u] u Suc.prems(2) by auto
  with r show ?case by simp
qed

end

text \<open>An allocator that also takes resources back.\<close>

locale reusable_allocator = allocator +
  fixes free :: "'b \<Rightarrow> 'a \<Rightarrow> 'a"
    and owned :: "'a \<Rightarrow> 'b set"
  assumes free: "inv s \<Longrightarrow> r \<in> owned s \<Longrightarrow> inv (free r s) \<and> avail (free r s) = insert r (avail s)"
begin

lemma alloc_after_free:
  assumes "inv s" "r \<in> owned s"
  shows "\<exists>q t. alloc (free r s) = (Some q, t) \<and> q \<in> insert r (avail s)"
proof -
  from free [OF assms] have i: "inv (free r s)" "avail (free r s) = insert r (avail s)" by auto
  obtain x t where xt: "alloc (free r s) = (x, t)" by fastforce
  show ?thesis
  proof (cases x)
    case None
    with xt alloc_None [OF i(1)] i(2) show ?thesis by auto
  next
    case (Some q)
    with xt alloc_Some [OF i(1), of q t] i(2) show ?thesis by auto
  qed
qed

end

end
