(* ===== verification/Cstring.thy ===== *)
theory Cstring
  imports Prelude
begin

text \<open>
  The byte and string routines of \<^verbatim>\<open>kernel/string.c\<close>.

  Memory is a function from 64-bit addresses to bytes. Routines that only read through their
  pointers take views: the view of a pointer \<open>p\<close> is the function giving the byte at
  \<open>p + i\<close>, and \<open>adv\<close> is \<open>p + 1\<close>. A routine that fills an array takes the array's view and
  returns it updated. \<open>strlen\<close> runs past the end of a string that has no terminator, so its
  loop is an option. Each loop is shown equal to a closed form that does not iterate.
\<close>

type_synonym mem = "u64 \<Rightarrow> u8"
type_synonym bytes = "nat \<Rightarrow> u8"

definition view :: "mem \<Rightarrow> u64 \<Rightarrow> bytes" where
  "view m p = (\<lambda>i. m (p + of_nat i))"

definition adv :: "bytes \<Rightarrow> bytes" where
  "adv s = (\<lambda>i. s (Suc i))"

lemma adv_apply: "adv s i = s (Suc i)"
  by (simp add: adv_def)

section \<open>memset, memcmp, memmove\<close>

fun memset_loop :: "mem \<Rightarrow> u64 \<Rightarrow> u8 \<Rightarrow> nat \<Rightarrow> nat \<Rightarrow> mem" where
  "memset_loop m dst c i 0 = m"
| "memset_loop m dst c i (Suc k) = memset_loop (m(dst + of_nat i := c)) dst c (Suc i) k"

definition memset :: "mem \<Rightarrow> u64 \<Rightarrow> u8 \<Rightarrow> nat \<Rightarrow> mem" where
  "memset m dst c n = memset_loop m dst c 0 n"

fun memcmp :: "bytes \<Rightarrow> bytes \<Rightarrow> nat \<Rightarrow> int" where
  "memcmp s1 s2 0 = 0"
| "memcmp s1 s2 (Suc n) =
     (if s1 0 \<noteq> s2 0 then int (unat (s1 0)) - int (unat (s2 0)) else memcmp (adv s1) (adv s2) n)"

fun move_up :: "mem \<Rightarrow> u64 \<Rightarrow> u64 \<Rightarrow> nat \<Rightarrow> mem" where
  "move_up m d s 0 = m"
| "move_up m d s (Suc n) = move_up (m(d := m s)) (d + 1) (s + 1) n"

fun move_down :: "mem \<Rightarrow> u64 \<Rightarrow> u64 \<Rightarrow> nat \<Rightarrow> mem" where
  "move_down m d s 0 = m"
| "move_down m d s (Suc n) = move_down (m(d - 1 := m (s - 1))) (d - 1) (s - 1) n"

definition memmove :: "mem \<Rightarrow> u64 \<Rightarrow> u64 \<Rightarrow> nat \<Rightarrow> mem" where
  "memmove m dst src n =
     (if n = 0 then m
      else if src < dst \<and> src + of_nat n > dst
      then move_down m (dst + of_nat n) (src + of_nat n) n
      else move_up m dst src n)"

definition memcpy :: "mem \<Rightarrow> u64 \<Rightarrow> u64 \<Rightarrow> nat \<Rightarrow> mem" where
  "memcpy m dst src n = memmove m dst src n"

text \<open>\<open>in_range dst n a\<close>: the address \<open>a\<close> is one of the \<open>n\<close> bytes from \<open>dst\<close> on.\<close>

definition in_range :: "u64 \<Rightarrow> nat \<Rightarrow> u64 \<Rightarrow> bool" where
  "in_range dst n a \<longleftrightarrow> unat (a - dst) < n"

lemma unat_lt2p64: "unat (a :: u64) < 2 ^ 64"
  using unsigned_less [of a] by simp

lemma in_range_0 [simp]: "\<not> in_range dst 0 a"
  by (simp add: in_range_def)

lemma in_range_iff:
  assumes "unat dst + n \<le> 2 ^ 64"
  shows "in_range dst n a \<longleftrightarrow> unat dst \<le> unat a \<and> unat a < unat dst + n"
proof (cases "dst \<le> a")
  case True
  then have "unat (a - dst) = unat a - unat dst" by (simp add: unat_sub)
  then show ?thesis using True by (auto simp: in_range_def word_le_nat_alt)
next
  case False
  then have lt: "unat a < unat dst" by (simp add: word_le_nat_alt)
  have "unat (a - dst) = 2 ^ 64 + unat a - unat dst"
    using lt by (simp add: unat_sub_if' unat_of_nat word_le_nat_alt)
  then show ?thesis using lt assms by (simp add: in_range_def)
qed

lemma memset_loop_eq:
  assumes "i + k \<le> 2 ^ 64"
  shows "memset_loop m dst c i k =
    (\<lambda>a. if i \<le> unat (a - dst) \<and> unat (a - dst) < i + k then c else m a)"
  using assms
proof (induction k arbitrary: m i)
  case 0
  then show ?case by (auto simp: fun_eq_iff)
next
  case (Suc k)
  have key: "a = dst + of_nat i \<longleftrightarrow> unat (a - dst) = i" for a
  proof
    assume "a = dst + of_nat i"
    then show "unat (a - dst) = i"
      using Suc.prems by (simp add: unat_of_nat)
  next
    assume "unat (a - dst) = i"
    then have "of_nat i = a - dst" by auto
    then show "a = dst + of_nat i" by simp
  qed
  have IH: "memset_loop (m(dst + of_nat i := c)) dst c (Suc i) k =
    (\<lambda>a. if Suc i \<le> unat (a - dst) \<and> unat (a - dst) < Suc i + k then c
         else (m(dst + of_nat i := c)) a)"
    using Suc.prems by (intro Suc.IH) simp
  show ?case
    unfolding memset_loop.simps IH by (rule ext) (auto simp: key)
qed

text \<open>\<open>memset\<close> sets exactly the \<open>n\<close> bytes from \<open>dst\<close> on.\<close>

lemma memset_eq: "n \<le> 2 ^ 64 \<Longrightarrow> memset m dst c n = (\<lambda>a. if in_range dst n a then c else m a)"
  by (simp add: memset_def memset_loop_eq in_range_def)

lemma memcmp_zero: "memcmp s1 s2 n = 0 \<longleftrightarrow> (\<forall>i<n. s1 i = s2 i)"
proof (induction s1 s2 n rule: memcmp.induct)
  case (2 s1 s2 n)
  have "(\<forall>i<Suc n. s1 i = s2 i) \<longleftrightarrow> s1 0 = s2 0 \<and> (\<forall>i<n. s1 (Suc i) = s2 (Suc i))"
    by (metis Suc_less_eq gr0_conv_Suc not_less_eq zero_less_Suc not0_implies_Suc)
  moreover have "s1 0 = s2 0 \<Longrightarrow> memcmp (adv s1) (adv s2) n = 0 \<longleftrightarrow> (\<forall>i<n. s1 (Suc i) = s2 (Suc i))"
    using 2 by (simp add: adv_def)
  ultimately show ?case by (simp add: word_uint_eq_iff)
qed simp

text \<open>The forward and backward copies, each from its own precondition on the overlap.\<close>

lemma move_up_eq:
  assumes "unat d + n \<le> 2 ^ 64" "unat s + n \<le> 2 ^ 64" "d \<le> s \<or> unat s + n \<le> unat d"
  shows "move_up m d s n = (\<lambda>a. if in_range d n a then m (s + (a - d)) else m a)"
  using assms
proof (induction n arbitrary: m d s)
  case 0
  then show ?case by auto
next
  case (Suc n)
  have d1: "unat (d + 1) = unat d + 1" if "n > 0"
    using Suc.prems(1) that by (simp add: unat_word_ariths)
  have s1: "unat (s + 1) = unat s + 1" if "n > 0"
    using Suc.prems(2) that by (simp add: unat_word_ariths)
  show ?case
  proof (cases "n = 0")
    case True
    have "in_range d 1 a \<longleftrightarrow> a = d" for a
      by (auto simp: in_range_def unat_eq_zero)
    then show ?thesis using True by auto
  next
    case False
    have IH: "move_up (m(d := m s)) (d + 1) (s + 1) n =
        (\<lambda>a. if in_range (d + 1) n a then (m(d := m s)) (s + 1 + (a - (d + 1))) else (m(d := m s)) a)"
      using Suc.prems d1 s1 False by (intro Suc.IH) (auto simp: word_le_nat_alt)
    have r: "in_range (d + 1) n a \<longleftrightarrow> in_range d (Suc n) a \<and> a \<noteq> d" for a
      using Suc.prems d1 False by (auto simp: in_range_iff le_less word_unat_eq_iff)
    have ne: "s + (a - d) \<noteq> d" if "in_range d (Suc n) a" "a \<noteq> d" for a
    proof
      assume "s + (a - d) = d"
      then have e: "a - d = d - s" by (simp add: algebra_simps)
      have "unat (a - d) < Suc n" using that by (simp add: in_range_def)
      then have l: "unat (d - s) < Suc n" using e by simp
      show False
      proof (cases "unat s + Suc n \<le> unat d")
        case True
        then have "s \<le> d" by (simp add: word_le_nat_alt)
        then show False using l True by (simp add: unat_sub)
      next
        case f: False
        then have "d \<le> s" using Suc.prems by auto
        show False
        proof (cases "d = s")
          case True
          then show False using e that by simp
        next
          case False
          then have lt: "unat d < unat s"
            using \<open>d \<le> s\<close> by (simp add: word_le_nat_alt le_less word_unat_eq_iff)
          have "unat (d - s) = 2 ^ 64 + unat d - unat s"
            using lt by (simp add: unat_sub_if' word_le_nat_alt)
          then show False using l Suc.prems(2) by simp
        qed
      qed
    qed
    have sh: "s + 1 + (a - (d + 1)) = s + (a - d)" for a
      by (simp add: algebra_simps)
    have d0: "in_range d (Suc n) d"
      by (simp add: in_range_def)
    have "move_up m d s (Suc n) a =
        (if in_range d (Suc n) a then m (s + (a - d)) else m a)" for a
      using ne [of a] d0 by (cases "a = d") (simp_all add: IH r sh)
    then show ?thesis by blast
  qed
qed

lemma move_down_eq:
  assumes "unat d + n \<le> 2 ^ 64" "unat s + n \<le> 2 ^ 64" "s \<le> d"
  shows "move_down m (d + of_nat n) (s + of_nat n) n =
    (\<lambda>a. if in_range d n a then m (s + (a - d)) else m a)"
  using assms
proof (induction n arbitrary: m)
  case 0
  then show ?case by (auto simp: fun_eq_iff)
next
  case (Suc n)
  define m' where "m' = m(d + of_nat n := m (s + of_nat n))"
  have IH: "move_down m' (d + of_nat n) (s + of_nat n) n =
      (\<lambda>a. if in_range d n a then m' (s + (a - d)) else m' a)"
    using Suc.prems by (intro Suc.IH) auto
  have un: "unat (of_nat n :: u64) = n"
    using Suc.prems(1) by (simp add: unat_of_nat)
  have r: "in_range d (Suc n) a \<longleftrightarrow> in_range d n a \<or> a = d + of_nat n" for a
  proof -
    have "unat (a - d) = n \<longleftrightarrow> a = d + of_nat n"
    proof
      assume "unat (a - d) = n"
      then have "of_nat n = a - d" by auto
      then show "a = d + of_nat n" by simp
    qed (simp add: un)
    then show ?thesis by (auto simp: in_range_def)
  qed
  have ne: "s + (a - d) \<noteq> d + of_nat n" if "in_range d n a" for a
  proof -
    have k: "unat (a - d) < n" using that by (simp add: in_range_def)
    have "unat (s + (a - d)) = unat s + unat (a - d)"
      using k Suc.prems(2) by (simp add: unat_word_ariths)
    moreover have "unat (d + of_nat n) = unat d + n"
      using Suc.prems(1) by (simp add: unat_word_ariths un)
    moreover have "unat s \<le> unat d" using Suc.prems(3) by (simp add: word_le_nat_alt)
    ultimately have "unat (s + (a - d)) < unat (d + of_nat n)"
      using k by linarith
    then show ?thesis by (metis less_irrefl)
  qed
  have "move_down m (d + of_nat (Suc n)) (s + of_nat (Suc n)) (Suc n) =
      move_down m' (d + of_nat n) (s + of_nat n) n"
    by (simp add: m'_def)
  also have "\<dots> = (\<lambda>a. if in_range d (Suc n) a then m (s + (a - d)) else m a)"
    unfolding IH using ne by (rule_tac ext) (auto simp: r m'_def)
  finally show ?case .
qed

text \<open>
  \<open>memmove\<close> copies as if through a buffer, whether or not the two areas overlap.
\<close>

lemma memmove_eq:
  assumes "unat dst + n \<le> 2 ^ 64" "unat src + n < 2 ^ 64"
  shows "memmove m dst src n = (\<lambda>a. if in_range dst n a then m (src + (a - dst)) else m a)"
proof (cases "n = 0")
  case True
  then show ?thesis by (auto simp: memmove_def fun_eq_iff)
next
  case n0: False
  show ?thesis
  proof (cases "src < dst \<and> src + of_nat n > dst")
    case True
    then have "src \<le> dst" by auto
    with True show ?thesis using n0 unfolding memmove_def
      by (simp add: move_down_eq [OF assms(1) less_imp_le [OF assms(2)]])
  next
    case False
    have "dst \<le> src \<or> unat src + n \<le> unat dst"
    proof (rule ccontr)
      assume c: "\<not> (dst \<le> src \<or> unat src + n \<le> unat dst)"
      then have l: "src < dst" by auto
      then have o: "src + of_nat n \<le> dst" using False by auto
      have "unat (src + of_nat n) = unat src + n"
        using assms(2) by (simp add: unat_word_ariths unat_of_nat)
      then show False using o c by (simp add: word_le_nat_alt)
    qed
    moreover have "memmove m dst src n = move_up m dst src n"
      unfolding memmove_def using n0 False by (auto split: if_splits)
    ultimately show ?thesis by (simp add: move_up_eq [OF assms(1) less_imp_le [OF assms(2)]])
  qed
qed

section \<open>Strings\<close>

fun strncmp :: "bytes \<Rightarrow> bytes \<Rightarrow> nat \<Rightarrow> int" where
  "strncmp p q 0 = 0"
| "strncmp p q (Suc n) =
     (if p 0 \<noteq> 0 \<and> p 0 = q 0 then strncmp (adv p) (adv q) n
      else int (unat (p 0)) - int (unat (q 0)))"

fun strncpy_pad :: "bytes \<Rightarrow> nat \<Rightarrow> nat \<Rightarrow> bytes" where
  "strncpy_pad s i 0 = s"
| "strncpy_pad s i (Suc n) = strncpy_pad (s(i := 0)) (Suc i) n"

fun strncpy_copy :: "bytes \<Rightarrow> bytes \<Rightarrow> nat \<Rightarrow> nat \<Rightarrow> bytes" where
  "strncpy_copy s t i 0 = s"
| "strncpy_copy s t i (Suc n) =
     (if t i \<noteq> 0 then strncpy_copy (s(i := t i)) t (Suc i) n
      else strncpy_pad (s(i := t i)) (Suc i) n)"

definition strncpy :: "bytes \<Rightarrow> bytes \<Rightarrow> nat \<Rightarrow> bytes" where
  "strncpy s t n = strncpy_copy s t 0 n"

text \<open>
  In \<open>safestrcpy\<close> the copy loop runs at most \<open>n - 1\<close> times (\<open>k\<close> is what is left); after a
  terminator has been copied the pointer is already past it, and one more zero is stored.
\<close>

fun safestrcpy_loop :: "bytes \<Rightarrow> bytes \<Rightarrow> nat \<Rightarrow> nat \<Rightarrow> bytes" where
  "safestrcpy_loop s t i 0 = s(i := 0)"
| "safestrcpy_loop s t i (Suc k) =
     (if t i \<noteq> 0 then safestrcpy_loop (s(i := t i)) t (Suc i) k
      else (s(i := t i))(Suc i := 0))"

definition safestrcpy :: "bytes \<Rightarrow> bytes \<Rightarrow> int \<Rightarrow> bytes" where
  "safestrcpy s t n = (if n \<le> 0 then s else safestrcpy_loop s t 0 (nat (n - 1)))"

partial_function (option) strlen_from :: "bytes \<Rightarrow> nat \<Rightarrow> nat option" where
  "strlen_from s n = (if s n = 0 then Some n else strlen_from s (Suc n))"

definition strlen :: "bytes \<Rightarrow> nat option" where
  "strlen s = strlen_from s 0"

text \<open>
  \<open>cstr n s\<close> is the string held by an array of \<open>n\<close> bytes: up to its terminator, or all of it.
\<close>

fun cstr :: "nat \<Rightarrow> bytes \<Rightarrow> u8 list" where
  "cstr 0 s = []"
| "cstr (Suc n) s = (if s 0 = 0 then [] else s 0 # cstr n (adv s))"

text \<open>The bytes of a list, terminated by zeros.\<close>

definition str :: "u8 list \<Rightarrow> bytes" where
  "str xs = (\<lambda>i. if i < length xs then xs ! i else 0)"

lemma str_Nil [simp]: "str [] i = 0"
  by (simp add: str_def)

lemma str_Cons [simp]: "str (x # xs) 0 = x" "adv (str (x # xs)) = str xs"
  by (auto simp: str_def adv_def)

lemma cstr_str: "0 \<notin> set xs \<Longrightarrow> cstr n (str xs) = take n xs"
proof (induction n arbitrary: xs)
  case 0
  then show ?case by simp
next
  case (Suc n)
  then show ?case by (cases xs) auto
qed

lemma cstr_nonzero: "0 \<notin> set (cstr n s)"
  by (induction n arbitrary: s) auto

lemma length_cstr: "length (cstr n s) \<le> n"
  by (induction n arbitrary: s) auto

text \<open>\<open>strncmp\<close> decides equality of the strings in the first \<open>n\<close> bytes.\<close>

lemma strncmp_zero: "strncmp p q n = 0 \<longleftrightarrow> cstr n p = cstr n q"
proof (induction p q n rule: strncmp.induct)
  case (2 p q n)
  then show ?case by (cases "p 0 = q 0") (simp_all add: word_uint_eq_iff)
qed simp

lemma strncmp_sym: "strncmp p q n = 0 \<longleftrightarrow> strncmp q p n = 0"
  by (auto simp: strncmp_zero)

lemma strncpy_pad_eq: "strncpy_pad s i n j = (if i \<le> j \<and> j < i + n then 0 else s j)"
  by (induction n arbitrary: s i) auto

lemma strncpy_copy_eq:
  "strncpy_copy s t i n j =
    (if i \<le> j \<and> j < i + n then (if \<forall>k. i \<le> k \<and> k \<le> j \<longrightarrow> t k \<noteq> 0 then t j else 0) else s j)"
proof (induction n arbitrary: s i)
  case 0
  then show ?case by auto
next
  case (Suc n)
  show ?case
  proof (cases "t i = 0")
    case True
    then show ?thesis by (auto simp: strncpy_pad_eq)
  next
    case False
    have "(\<forall>k. i \<le> k \<and> k \<le> j \<longrightarrow> t k \<noteq> 0) \<longleftrightarrow> (\<forall>k. Suc i \<le> k \<and> k \<le> j \<longrightarrow> t k \<noteq> 0)" if "i \<le> j"
      using False that by (metis Suc_leD le_antisym not_less_eq_eq)
    moreover have "strncpy_copy s t i (Suc n) j =
      (if Suc i \<le> j \<and> j < Suc i + n then (if \<forall>k. Suc i \<le> k \<and> k \<le> j \<longrightarrow> t k \<noteq> 0 then t j else 0)
       else (s(i := t i)) j)"
      using False Suc.IH by simp
    ultimately show ?thesis using False by auto
  qed
qed

text \<open>
  \<open>strncpy\<close> copies up to the terminator and fills what is left of the \<open>n\<close> bytes with zeros;
  it writes no terminator when the source has none in its first \<open>n\<close> bytes.
\<close>

lemma strncpy_eq:
  "strncpy s t n j = (if j < n then (if \<forall>k\<le>j. t k \<noteq> 0 then t j else 0) else s j)"
  by (simp add: strncpy_def strncpy_copy_eq)


lemma safestrcpy_loop_outside:
  "j < i \<or> i + k < j \<Longrightarrow> safestrcpy_loop s t i k j = s j"
  by (induction k arbitrary: s i) auto

lemma safestrcpy_loop_cstr:
  "cstr (Suc k) (\<lambda>j. safestrcpy_loop s t i k (i + j)) = cstr k (\<lambda>j. t (i + j))"
proof (induction k arbitrary: s i)
  case 0
  then show ?case by simp
next
  case (Suc k)
  show ?case
  proof (cases "t i = 0")
    case True
    then show ?thesis by simp
  next
    case False
    let ?r = "safestrcpy_loop (s(i := t i)) t (Suc i) k"
    have "?r i = t i" by (subst safestrcpy_loop_outside) auto
    moreover have "adv (\<lambda>j. ?r (i + j)) = (\<lambda>j. ?r (Suc i + j))"
      and "adv (\<lambda>j. t (i + j)) = (\<lambda>j. t (Suc i + j))"
      by (simp_all add: adv_def)
    ultimately show ?thesis
      using False Suc.IH [of "s(i := t i)" "Suc i"] by (simp del: fun_upd_apply)
  qed
qed

lemma safestrcpy_loop_nul: "\<exists>j. i \<le> j \<and> j \<le> i + k \<and> safestrcpy_loop s t i k j = 0"
proof (induction k arbitrary: s i)
  case (Suc k)
  show ?case
  proof (cases "t i = 0")
    case False
    then show ?thesis using Suc.IH [of "Suc i" "s(i := t i)"]
      by (auto simp del: fun_upd_apply) (metis Suc_leD)
  qed auto
qed auto

text \<open>
  \<open>safestrcpy\<close> leaves the longest prefix that fits, always terminated inside the \<open>n\<close> bytes,
  and writes nothing outside them.
\<close>

lemma safestrcpy_cstr:
  assumes "0 < n"
  shows "cstr n (safestrcpy s t (int n)) = cstr (n - 1) t"
    and "\<exists>j<n. safestrcpy s t (int n) j = 0"
    and "n \<le> j \<Longrightarrow> safestrcpy s t (int n) j = s j"
proof -
  obtain k where n: "n = Suc k" using assms by (cases n) auto
  have e: "safestrcpy s t (int n) = safestrcpy_loop s t 0 k"
    by (simp add: safestrcpy_def n)
  show "cstr n (safestrcpy s t (int n)) = cstr (n - 1) t"
    using safestrcpy_loop_cstr [of k s t 0] unfolding e by (simp add: n)
  show "\<exists>j<n. safestrcpy s t (int n) j = 0"
    using safestrcpy_loop_nul [of 0 k s t] unfolding e by (auto simp: n less_Suc_eq_le)
  show "n \<le> j \<Longrightarrow> safestrcpy s t (int n) j = s j"
    unfolding e by (simp add: n safestrcpy_loop_outside)
qed

text \<open>\<open>strlen\<close> returns exactly when there is a terminator, and then its index.\<close>

lemma strlen_from_Some:
  assumes "i \<le> n" "s n = 0" "\<forall>j. i \<le> j \<and> j < n \<longrightarrow> s j \<noteq> 0"
  shows "strlen_from s i = Some n"
  using assms
proof (induction "n - i" arbitrary: i)
  case 0
  then show ?case by (simp add: strlen_from.simps)
next
  case (Suc k)
  then have "s i \<noteq> 0" by auto
  moreover have "strlen_from s (Suc i) = Some n"
    using Suc by (intro Suc.hyps(1)) auto
  ultimately show ?case by (simp add: strlen_from.simps)
qed

lemma strlen_str: "0 \<notin> set xs \<Longrightarrow> strlen (str xs) = Some (length xs)"
  unfolding strlen_def by (rule strlen_from_Some) (auto simp: str_def in_set_conv_nth)

end
