(* ===== verification/Ringbuf.thy ===== *)
theory Ringbuf
  imports Cstring
begin

text \<open>
  Bounded first-in first-out buffers: the interface that the pipe and the console's input buffer
  implement, and the circular array with free-running 32-bit indices that both are built on.
\<close>

section \<open>The interface\<close>

text \<open>
  What the users of a buffer rely on: an element stored in a buffer that is not full is behind all
  the others, and the one that is taken from a buffer that is not empty is the first of them.
  \<open>runs\<close> is a sequence of operations, each done when it is possible, and yields the elements taken.
\<close>

locale fifo =
  fixes put :: "'a \<Rightarrow> 'q \<Rightarrow> 'q"
    and get :: "'q \<Rightarrow> 'a \<times> 'q"
    and contents :: "'q \<Rightarrow> 'a list"
    and capacity :: nat
    and inv :: "'q \<Rightarrow> bool"
  assumes put: "inv q \<Longrightarrow> length (contents q) < capacity \<Longrightarrow>
      inv (put x q) \<and> contents (put x q) = contents q @ [x]"
    and get: "inv q \<Longrightarrow> contents q \<noteq> [] \<Longrightarrow>
      inv (snd (get q)) \<and> contents q = fst (get q) # contents (snd (get q))"
    and bounded: "inv q \<Longrightarrow> length (contents q) \<le> capacity"
begin

fun runs :: "'a option list \<Rightarrow> 'q \<Rightarrow> 'a list \<times> 'a list \<times> 'q" where
  "runs [] q = ([], [], q)"
| "runs (Some x # ops) q =
    (if length (contents q) < capacity
     then (case runs ops (put x q) of (ins, outs, q') \<Rightarrow> (x # ins, outs, q'))
     else runs ops q)"
| "runs (None # ops) q =
    (if contents q \<noteq> []
     then (case runs ops (snd (get q)) of (ins, outs, q') \<Rightarrow> (ins, fst (get q) # outs, q'))
     else runs ops q)"

lemma put_list:
  "inv q \<Longrightarrow> length (contents q) + length xs \<le> capacity \<Longrightarrow>
    inv (fold put xs q) \<and> contents (fold put xs q) = contents q @ xs"
proof (induction xs arbitrary: q)
  case (Cons x xs)
  have "length (contents q) < capacity" using Cons.prems(2) by simp
  then show ?case using put [OF Cons.prems(1), of x] Cons.IH [of "put x q"] Cons.prems(2) by simp
qed simp

text \<open>Nothing is lost, duplicated or reordered by any interleaving of the operations.\<close>

lemma runs_stream:
  "inv q \<Longrightarrow> runs ops q = (ins, outs, q') \<Longrightarrow>
    inv q' \<and> contents q @ ins = outs @ contents q' \<and> length (contents q') \<le> capacity"
proof (induction ops q arbitrary: ins outs rule: runs.induct)
  case (1 q)
  then show ?case using bounded by auto
next
  case (2 x ops q)
  show ?case
  proof (cases "length (contents q) < capacity")
    case True
    then obtain i where r: "runs ops (put x q) = (i, outs, q')" "ins = x # i"
      using "2.prems"(2) by (auto split: prod.splits)
    show ?thesis using "2.IH"(1) [OF True _ r(1)] put [OF "2.prems"(1) True, of x] r(2) by simp
  next
    case False
    then show ?thesis using "2.IH"(2) "2.prems" by simp
  qed
next
  case (3 ops q)
  show ?case
  proof (cases "contents q \<noteq> []")
    case True
    then obtain os where r: "runs ops (snd (get q)) = (ins, os, q')" "outs = fst (get q) # os"
      using "3.prems"(2) by (auto split: prod.splits)
    show ?thesis using "3.IH"(1) [OF True _ r(1)] get [OF "3.prems"(1) True] r(2) by auto
  next
    case False
    then show ?thesis using "3.IH"(2) "3.prems" by simp
  qed
qed

end

section \<open>Circular arrays\<close>

text \<open>The \<open>len\<close> elements of an array of size \<open>N\<close> from the position \<open>r\<close> on.\<close>

definition ring_view :: "nat \<Rightarrow> (nat \<Rightarrow> 'a) \<Rightarrow> nat \<Rightarrow> nat \<Rightarrow> 'a list" where
  "ring_view N buf r len = map (\<lambda>k. buf ((r + k) mod N)) [0..<len]"

lemma ring_view_length [simp]: "length (ring_view N buf r len) = len"
  by (simp add: ring_view_def)

lemma ring_view_0 [simp]: "ring_view N buf r 0 = []"
  by (simp add: ring_view_def)

lemma ring_slots_distinct:
  fixes r :: nat
  assumes "i < j" "j - i < N"
  shows "(r + i) mod N \<noteq> (r + j) mod N"
proof
  assume "(r + i) mod N = (r + j) mod N"
  then have "N dvd (r + j) - (r + i)" using assms(1) by (metis mod_eq_dvd_iff_nat add_le_cancel_left less_imp_le)
  then have "N dvd j - i" by simp
  then show False using assms by (simp add: nat_dvd_not_less)
qed

lemma ring_view_put:
  assumes "len < N"
  shows "ring_view N (buf((r + len) mod N := x)) r (Suc len) = ring_view N buf r len @ [x]"
proof -
  have "(r + k) mod N \<noteq> (r + len) mod N" if "k < len" for k
    by (rule ring_slots_distinct) (use that assms in auto)
  then have "map (\<lambda>k. (buf((r + len) mod N := x)) ((r + k) mod N)) [0..<len] = ring_view N buf r len"
    unfolding ring_view_def by (intro map_cong) auto
  then show ?thesis by (simp add: ring_view_def)
qed

lemma ring_view_get:
  "ring_view N buf r (Suc len) = buf (r mod N) # ring_view N buf (Suc r) len"
  by (simp add: ring_view_def upt_conv_Cons map_Suc_upt [symmetric] del: upt_Suc)

lemma ring_view_mod: "r mod N = r' mod N \<Longrightarrow> ring_view N buf r len = ring_view N buf r' len"
  unfolding ring_view_def by (intro map_cong refl) (metis mod_add_left_eq)

section \<open>Free-running indices\<close>

text \<open>
  An array whose size divides \<open>2\<^sup>32\<close>, indexed by the remainders of two counters of type \<open>uint\<close>:
  the wrap-around of the counters does no harm.
\<close>

lemma unat_plus_dvd:
  assumes "N dvd 2 ^ 32"
  shows "unat (a + of_nat k :: u32) mod N = (unat a + k) mod N"
proof -
  have "unat (a + of_nat k) = (unat a + k) mod 2 ^ 32"
    by (simp add: unat_word_ariths unat_of_nat take_bit_eq_mod mod_add_right_eq)
  then show ?thesis using mod_mod_cancel [OF assms] by simp
qed

definition ring_inv :: "nat \<Rightarrow> u32 \<Rightarrow> u32 \<Rightarrow> bool" where
  "ring_inv N r w \<longleftrightarrow> unat (w - r) \<le> N"

definition ring_contents :: "nat \<Rightarrow> (nat \<Rightarrow> 'a) \<Rightarrow> u32 \<Rightarrow> u32 \<Rightarrow> 'a list" where
  "ring_contents N buf r w = ring_view N buf (unat r) (unat (w - r))"

lemma ring_contents_length [simp]: "length (ring_contents N buf r w) = unat (w - r)"
  by (simp add: ring_contents_def)

lemma unat_Suc: "unat (x :: u32) < N \<Longrightarrow> N < 2 ^ 32 \<Longrightarrow> unat (x + 1) = Suc (unat x)"
  by (simp add: unat_word_ariths)

lemma ring_put:
  assumes "N dvd 2 ^ 32" "N < 2 ^ 32" "unat (w - r) < N"
  shows "ring_inv N r (w + 1) \<and>
    ring_contents N (buf(unat w mod N := x)) r (w + 1) = ring_contents N buf r w @ [x]"
proof -
  have e: "w + 1 - r = (w - r) + 1" by simp
  have s: "unat (w + 1 - r) = Suc (unat (w - r))" unfolding e by (rule unat_Suc [OF assms(3,2)])
  have "w = r + of_nat (unat (w - r))" by simp
  then have "unat w mod N = (unat r + unat (w - r)) mod N"
    using unat_plus_dvd [OF assms(1), of r "unat (w - r)"] by simp
  then show ?thesis
    using ring_view_put [OF assms(3), of buf "unat r" x] assms(3)
    by (simp only: ring_inv_def ring_contents_def s) simp
qed

lemma ring_get:
  assumes "N dvd 2 ^ 32" "ring_inv N r w" "r \<noteq> w"
  shows "ring_inv N (r + 1) w \<and>
    ring_contents N buf r w = buf (unat r mod N) # ring_contents N buf (r + 1) w"
proof -
  have n: "w - r \<noteq> 0" using assms(3) by simp
  then have p: "0 < unat (w - r)" by (simp add: unat_gt_0)
  have e: "w - (r + 1) = (w - r) - 1" by simp
  have "1 \<le> w - r" using p by (simp add: word_le_nat_alt)
  then have s: "unat (w - (r + 1)) = unat (w - r) - 1" unfolding e by (simp add: unat_sub)
  have m: "unat (r + 1) mod N = Suc (unat r) mod N"
    using unat_plus_dvd [OF assms(1), of r 1] by simp
  obtain k where k: "unat (w - r) = Suc k" using p gr0_implies_Suc by blast
  have "ring_view N buf (unat r) (unat (w - r)) = buf (unat r mod N) # ring_view N buf (Suc (unat r)) k"
    unfolding k by (rule ring_view_get)
  also have "ring_view N buf (Suc (unat r)) k = ring_view N buf (unat (r + 1)) k"
    by (rule ring_view_mod) (simp add: m)
  finally show ?thesis
    using assms(2) k by (simp only: ring_inv_def ring_contents_def s) simp
qed

lemma ring_empty: "ring_contents N buf r w = [] \<longleftrightarrow> r = w"
proof -
  have "ring_contents N buf r w = [] \<longleftrightarrow> unat (w - r) = 0"
    by (metis ring_contents_length length_0_conv)
  then show ?thesis by (auto simp: unat_eq_0)
qed

end
