(* ===== verification/Spinlock.thy ===== *)
theory Spinlock
  imports Prelude
begin

text \<open>
  \<^verbatim>\<open>kernel/spinlock.c\<close>: spin locks, and the nesting of interrupt-disabled sections.

  The state holds, for every lock, its word and the CPU recorded in it; for every hart, its
  \<open>struct cpu\<close> bookkeeping and its interrupt-enable bit (\<open>sstatus.SIE\<close>). The functions take the
  hart they run on (\<open>r_tp()\<close>). \<open>spin_acquire\<close> and \<open>spin_release\<close> are the whole functions; the
  spinning loop of a lock that another hart holds does not end while nothing else runs, so
  \<open>spin_acquire\<close> is partial. For concurrency the functions are cut at their atomic memory
  operations and interleaved by \<open>lock_step\<close>. The main results: mutual exclusion in every
  reachable state, \<open>holding()\<close> never errs, interrupts are off while a lock is owned, and the
  functions refine the specification of locks in \<open>Prelude\<close>.
\<close>

section \<open>State\<close>

record spinlock =
  locked :: u32
  lk_cpu :: "nat option"

record cpu =
  noff :: int
  intena :: bool

record harts =
  sie :: "nat \<Rightarrow> bool"
  cpus :: "nat \<Rightarrow> cpu"
  lks :: "lockid \<Rightarrow> spinlock"

definition initlock :: "lockid \<Rightarrow> harts \<Rightarrow> harts" where
  "initlock l s = s\<lparr>lks := (lks s)(l := \<lparr>locked = 0, lk_cpu = None\<rparr>)\<rparr>"

definition intr_get :: "nat \<Rightarrow> harts \<Rightarrow> bool" where
  "intr_get c s = sie s c"

definition intr_on :: "nat \<Rightarrow> harts \<Rightarrow> harts" where
  "intr_on c s = s\<lparr>sie := (sie s)(c := True)\<rparr>"

definition intr_off :: "nat \<Rightarrow> harts \<Rightarrow> harts" where
  "intr_off c s = s\<lparr>sie := (sie s)(c := False)\<rparr>"

definition mycpu :: "nat \<Rightarrow> harts \<Rightarrow> cpu" where
  "mycpu c s = cpus s c"

definition set_cpu :: "nat \<Rightarrow> cpu \<Rightarrow> harts \<Rightarrow> harts" where
  "set_cpu c k s = s\<lparr>cpus := (cpus s)(c := k)\<rparr>"

section \<open>The functions\<close>

definition push_off :: "nat \<Rightarrow> harts \<Rightarrow> harts" where
  "push_off c s =
    (let old = intr_get c s;
         s = intr_off c s;
         s = (if noff (mycpu c s) = 0 then set_cpu c ((mycpu c s)\<lparr>intena := old\<rparr>) s else s)
     in set_cpu c ((mycpu c s)\<lparr>noff := noff (mycpu c s) + 1\<rparr>) s)"

definition pop_off :: "nat \<Rightarrow> harts \<Rightarrow> (unit, harts) kres" where
  "pop_off c s =
    (if intr_get c s then Panic ''pop_off - interruptible''
     else if noff (mycpu c s) < 1 then Panic ''pop_off''
     else
       let s = set_cpu c ((mycpu c s)\<lparr>noff := noff (mycpu c s) - 1\<rparr>) s
       in if noff (mycpu c s) = 0 \<and> intena (mycpu c s) then Ok () (intr_on c s) else Ok () s)"

definition holding :: "lockid \<Rightarrow> nat \<Rightarrow> harts \<Rightarrow> bool" where
  "holding l c s \<longleftrightarrow> locked (lks s l) \<noteq> 0 \<and> lk_cpu (lks s l) = Some c"

text \<open>\<open>__sync_lock_test_and_set(&lk->locked, 1)\<close>: the old value, and the new state.\<close>

definition test_and_set :: "lockid \<Rightarrow> harts \<Rightarrow> u32 \<times> harts" where
  "test_and_set l s =
    (locked (lks s l), s\<lparr>lks := (lks s)(l := (lks s l)\<lparr>locked := 1\<rparr>)\<rparr>)"

partial_function (option) spin_loop :: "lockid \<Rightarrow> harts \<Rightarrow> harts option" where
  "spin_loop l s =
    (let (old, s') = test_and_set l s in if old \<noteq> 0 then spin_loop l s' else Some s')"

definition record_cpu :: "lockid \<Rightarrow> nat \<Rightarrow> harts \<Rightarrow> harts" where
  "record_cpu l c s = s\<lparr>lks := (lks s)(l := (lks s l)\<lparr>lk_cpu := Some c\<rparr>)\<rparr>"

definition spin_acquire :: "lockid \<Rightarrow> nat \<Rightarrow> harts \<Rightarrow> (unit, harts) kres option" where
  "spin_acquire l c s =
    (let s = push_off c s in
     if holding l c s then Some (Panic ''acquire'')
     else case spin_loop l s of None \<Rightarrow> None | Some s \<Rightarrow> Some (Ok () (record_cpu l c s)))"

definition clear_cpu :: "lockid \<Rightarrow> harts \<Rightarrow> harts" where
  "clear_cpu l s = s\<lparr>lks := (lks s)(l := (lks s l)\<lparr>lk_cpu := None\<rparr>)\<rparr>"

definition store_unlocked :: "lockid \<Rightarrow> harts \<Rightarrow> harts" where
  "store_unlocked l s = s\<lparr>lks := (lks s)(l := (lks s l)\<lparr>locked := 0\<rparr>)\<rparr>"

definition spin_release :: "lockid \<Rightarrow> nat \<Rightarrow> harts \<Rightarrow> (unit, harts) kres" where
  "spin_release l c s =
    (if \<not> holding l c s then Panic ''release''
     else pop_off c (store_unlocked l (clear_cpu l s)))"

lemmas spin_defs =
  push_off_def pop_off_def intr_get_def intr_on_def intr_off_def mycpu_def set_cpu_def
  holding_def test_and_set_def record_cpu_def clear_cpu_def store_unlocked_def Let_def

section \<open>One hart alone\<close>

lemma spin_loop_free: "locked (lks s l) = 0 \<Longrightarrow> spin_loop l s = Some (snd (test_and_set l s))"
  by (simp add: spin_loop.simps test_and_set_def)

lemma push_off_effect [simp]:
  "lks (push_off c s) = lks s"
  "sie (push_off c s) = (sie s)(c := False)"
  "noff (cpus (push_off c s) d) = (if d = c then noff (cpus s d) + 1 else noff (cpus s d))"
  by (simp_all add: spin_defs)

lemma pop_off_effect:
  assumes "pop_off c s = Ok () t"
  shows "lks t = lks s"
    and "\<not> sie s c" and "1 \<le> noff (cpus s c)"
    and "noff (cpus t d) = (if d = c then noff (cpus s d) - 1 else noff (cpus s d))"
    and "d \<noteq> c \<Longrightarrow> sie t d = sie s d"
    and "sie t c \<Longrightarrow> noff (cpus t c) = 0"
  using assms by (auto simp: spin_defs split: if_splits)

text \<open>
  A matched \<open>pop_off\<close> undoes \<open>push_off\<close>: interrupts come back as they were, and only the
  remembered flag may differ.
\<close>

lemma push_pop_off:
  assumes "0 \<le> noff (cpus s c)" and "sie s c \<Longrightarrow> noff (cpus s c) = 0"
  shows "\<exists>t. pop_off c (push_off c s) = Ok () t \<and> sie t = sie s \<and> lks t = lks s \<and>
    noff (cpus t c) = noff (cpus s c) \<and> (\<forall>d. d \<noteq> c \<longrightarrow> cpus t d = cpus s d)"
  using assms by (auto simp: spin_defs fun_eq_iff)

section \<open>Harts interleaved\<close>

text \<open>
  Where a hart is: outside the lock functions, spinning for a lock, past the swap but before
  recording itself in the lock, or in \<open>release\<close> after clearing the record but before the
  releasing store. \<open>owns\<close> is the set of locks between a hart's successful swap and its
  releasing store, and \<open>pushes\<close> counts the \<open>push_off\<close>s made outside \<open>acquire\<close>.
\<close>

datatype pc = Run | Spin lockid | Rec lockid | Rel lockid

record sys =
  hst :: harts
  pcs :: "nat \<Rightarrow> pc"
  owns :: "nat \<Rightarrow> lockid set"
  pushes :: "nat \<Rightarrow> nat"

definition init_sys :: sys where
  "init_sys = \<lparr>hst = \<lparr>sie = (\<lambda>_. False), cpus = (\<lambda>_. \<lparr>noff = 0, intena = False\<rparr>),
      lks = (\<lambda>_. \<lparr>locked = 0, lk_cpu = None\<rparr>)\<rparr>,
    pcs = (\<lambda>_. Run), owns = (\<lambda>_. {}), pushes = (\<lambda>_. 0)\<rparr>"

inductive lock_step :: "sys \<Rightarrow> sys \<Rightarrow> bool" where
  at_enter: "pcs y c = Run \<Longrightarrow> \<not> holding l c (push_off c (hst y)) \<Longrightarrow>
    lock_step y (y\<lparr>hst := push_off c (hst y), pcs := (pcs y)(c := Spin l)\<rparr>)"
| at_spin: "pcs y c = Spin l \<Longrightarrow> fst (test_and_set l (hst y)) \<noteq> 0 \<Longrightarrow>
    lock_step y (y\<lparr>hst := snd (test_and_set l (hst y))\<rparr>)"
| at_swap: "pcs y c = Spin l \<Longrightarrow> fst (test_and_set l (hst y)) = 0 \<Longrightarrow>
    lock_step y (y\<lparr>hst := snd (test_and_set l (hst y)), pcs := (pcs y)(c := Rec l),
      owns := (owns y)(c := insert l (owns y c))\<rparr>)"
| at_record: "pcs y c = Rec l \<Longrightarrow>
    lock_step y (y\<lparr>hst := record_cpu l c (hst y), pcs := (pcs y)(c := Run)\<rparr>)"
| at_clear: "pcs y c = Run \<Longrightarrow> holding l c (hst y) \<Longrightarrow>
    lock_step y (y\<lparr>hst := clear_cpu l (hst y), pcs := (pcs y)(c := Rel l)\<rparr>)"
| at_store: "pcs y c = Rel l \<Longrightarrow> pop_off c (store_unlocked l (hst y)) = Ok () h \<Longrightarrow>
    lock_step y (y\<lparr>hst := h, pcs := (pcs y)(c := Run), owns := (owns y)(c := owns y c - {l})\<rparr>)"
| at_push: "pcs y c = Run \<Longrightarrow>
    lock_step y (y\<lparr>hst := push_off c (hst y), pushes := (pushes y)(c := Suc (pushes y c))\<rparr>)"
| at_pop: "pcs y c = Run \<Longrightarrow> pushes y c = Suc k \<Longrightarrow> pop_off c (hst y) = Ok () h \<Longrightarrow>
    lock_step y (y\<lparr>hst := h, pushes := (pushes y)(c := k)\<rparr>)"
| at_on: "pcs y c = Run \<Longrightarrow> noff (cpus (hst y) c) = 0 \<Longrightarrow>
    lock_step y (y\<lparr>hst := intr_on c (hst y)\<rparr>)"
| at_off: "pcs y c = Run \<Longrightarrow> lock_step y (y\<lparr>hst := intr_off c (hst y)\<rparr>)"

inductive lock_reach :: "sys \<Rightarrow> bool" where
  start: "lock_reach init_sys"
| step: "lock_reach y \<Longrightarrow> lock_step y z \<Longrightarrow> lock_reach z"

text \<open>
  The invariant: a lock's word is 1 exactly when some hart owns it, at most one hart owns it,
  the recorded CPU is an owner that is not in the middle of recording or clearing, and the
  nesting count is what the owned locks and the open \<open>push_off\<close>s add up to.
\<close>

fun mid :: "pc \<Rightarrow> lockid set" where
  "mid Run = {}"
| "mid (Spin l) = {}"
| "mid (Rec l) = {l}"
| "mid (Rel l) = {l}"

fun spinning :: "pc \<Rightarrow> int" where
  "spinning (Spin l) = 1"
| "spinning _ = 0"

definition lock_inv :: "sys \<Rightarrow> bool" where
  "lock_inv y \<longleftrightarrow>
    (\<forall>l. locked (lks (hst y) l) \<noteq> 0 \<longleftrightarrow> (\<exists>c. l \<in> owns y c)) \<and>
    (\<forall>c d l. l \<in> owns y c \<longrightarrow> l \<in> owns y d \<longrightarrow> c = d) \<and>
    (\<forall>c l. lk_cpu (lks (hst y) l) = Some c \<longleftrightarrow> l \<in> owns y c \<and> l \<notin> mid (pcs y c)) \<and>
    (\<forall>c. mid (pcs y c) \<subseteq> owns y c) \<and>
    (\<forall>c. finite (owns y c)) \<and>
    (\<forall>c. noff (cpus (hst y) c) = int (card (owns y c)) + spinning (pcs y c) + int (pushes y c)) \<and>
    (\<forall>c. 0 < noff (cpus (hst y) c) \<longrightarrow> \<not> sie (hst y) c)"

lemma lock_inv_init: "lock_inv init_sys"
  by (simp add: lock_inv_def init_sys_def)


text \<open>The invariant, named part by part.\<close>

lemma lock_invD:
  assumes "lock_inv y"
  shows "locked (lks (hst y) l) \<noteq> 0 \<longleftrightarrow> (\<exists>c. l \<in> owns y c)"
    and "l \<in> owns y c \<Longrightarrow> l \<in> owns y d \<Longrightarrow> c = d"
    and "lk_cpu (lks (hst y) l) = Some c \<longleftrightarrow> l \<in> owns y c \<and> l \<notin> mid (pcs y c)"
    and "mid (pcs y c) \<subseteq> owns y c"
    and "finite (owns y c)"
    and "noff (cpus (hst y) c) = int (card (owns y c)) + spinning (pcs y c) + int (pushes y c)"
    and "0 < noff (cpus (hst y) c) \<Longrightarrow> \<not> sie (hst y) c"
  using assms unfolding lock_inv_def by blast+

text \<open>\<open>holding()\<close> is right although it reads words that other harts write.\<close>

lemma lock_inv_holding:
  "lock_inv y \<Longrightarrow> holding l c (hst y) \<longleftrightarrow> l \<in> owns y c \<and> l \<notin> mid (pcs y c)"
  unfolding holding_def using lock_invD(1) [of y l] lock_invD(3) [of y l c] by blast

lemma spinning_nonneg [simp]: "0 \<le> spinning p"
  by (cases p) simp_all

lemma card_insert_owned: "finite X \<Longrightarrow> l \<notin> X \<Longrightarrow> int (card (insert l X)) = int (card X) + 1"
  by simp

lemma card_remove_owned: "finite X \<Longrightarrow> l \<in> X \<Longrightarrow> int (card (X - {l})) = int (card X) - 1"
  using card_Suc_Diff1 [of X l] by linarith

lemma lock_step_inv:
  assumes "lock_step y z" "lock_inv y"
  shows "lock_inv z"
  using assms
proof (cases rule: lock_step.cases)
  case (at_enter c l)
  then show ?thesis using assms(2) unfolding lock_inv_def by auto
next
  case (at_spin c l)
  then show ?thesis using assms(2) unfolding lock_inv_def
    by (auto simp: test_and_set_def)
next
  case (at_swap c l)
  have free: "\<forall>d. l \<notin> owns y d"
    using at_swap assms(2) unfolding lock_inv_def by (auto simp: test_and_set_def)
  then have "int (card (insert l (owns y c))) = int (card (owns y c)) + 1"
    using assms(2) unfolding lock_inv_def by (intro card_insert_owned) auto
  then show ?thesis using at_swap assms(2) free unfolding lock_inv_def
    by (auto simp: test_and_set_def)
next
  case (at_record c l)
  then have "l \<in> owns y c" using assms(2) unfolding lock_inv_def by force
  then show ?thesis using at_record assms(2) unfolding lock_inv_def
    by (auto simp: record_cpu_def)
next
  case (at_clear c l)
  then have "l \<in> owns y c" using assms(2) lock_inv_holding by blast
  then show ?thesis using at_clear assms(2) unfolding lock_inv_def
    by (auto simp: clear_cpu_def)
next
  case (at_store c l h)
  have own: "l \<in> owns y c" using at_store assms(2) unfolding lock_inv_def by force
  then have "int (card (owns y c - {l})) = int (card (owns y c)) - 1"
    using assms(2) unfolding lock_inv_def by (intro card_remove_owned) auto
  then show ?thesis
    using at_store assms(2) own pop_off_effect [OF at_store(3)] unfolding lock_inv_def
    by (auto simp: store_unlocked_def) (rename_tac la ca, rule_tac x = ca in exI, auto)
next
  case (at_push c)
  then show ?thesis using assms(2) unfolding lock_inv_def by auto
next
  case (at_pop c k h)
  then show ?thesis using assms(2) pop_off_effect [OF at_pop(4)] unfolding lock_inv_def
    by auto
next
  case (at_on c)
  then show ?thesis using assms(2) unfolding lock_inv_def
    by (auto simp: intr_on_def)
next
  case (at_off c)
  then show ?thesis using assms(2) unfolding lock_inv_def
    by (auto simp: intr_off_def)
qed


lemma lock_reach_inv: "lock_reach y \<Longrightarrow> lock_inv y"
  by (induction rule: lock_reach.induct) (auto intro: lock_inv_init lock_step_inv)

text \<open>No interleaving makes a releasing hart panic in \<open>pop_off\<close>.\<close>

lemma release_no_panic:
  assumes "lock_inv y" "pcs y c = Rel l"
  shows "\<exists>h. pop_off c (store_unlocked l (hst y)) = Ok () h"
proof -
  have own: "l \<in> owns y c" using assms lock_invD(4) [of y c] by simp
  then have "0 < card (owns y c)" using lock_invD(5) [OF assms(1), of c] by (auto simp: card_gt_0_iff)
  then have n: "0 < noff (cpus (hst y) c)" using lock_invD(6) [OF assms(1), of c] assms(2) by simp
  then have "\<not> sie (hst y) c" using lock_invD(7) [OF assms(1)] by simp
  with n show ?thesis by (auto simp: spin_defs)
qed

section \<open>The specification of locks is implemented\<close>

definition lock_abs :: "nat \<Rightarrow> harts \<Rightarrow> klocks" where
  "lock_abs c s = \<lparr>held = {l. holding l c s}\<rparr>"

fun kmap :: "('s \<Rightarrow> 't) \<Rightarrow> ('a, 's) kres \<Rightarrow> ('a, 't) kres" where
  "kmap f (Ok a s) = Ok a (f s)"
| "kmap f (Panic e) = Panic e"
| "kmap f (Block s) = Block (f s)"

lemma spin_loop_Some:
  assumes "spin_loop l s = Some t"
  shows "locked (lks s l) = 0 \<and> t = snd (test_and_set l s)"
proof (rule spin_loop.raw_induct
    [where P = "\<lambda>l s t. locked (lks s l) = 0 \<and> t = snd (test_and_set l s)", OF _ assms])
  fix f :: "lockid \<Rightarrow> harts \<Rightarrow> harts option" and l s t
  assume IH: "\<And>l s t. f l s = Some t \<Longrightarrow> locked (lks s l) = 0 \<and> t = snd (test_and_set l s)"
    and eq: "(let (old, s') = test_and_set l s in if old \<noteq> 0 then f l s' else Some s') = Some t"
  show "locked (lks s l) = 0 \<and> t = snd (test_and_set l s)"
  proof (cases "locked (lks s l) = 0")
    case True
    with eq show ?thesis by (simp add: test_and_set_def)
  next
    case False
    with eq have "f l (snd (test_and_set l s)) = Some t" by (simp add: test_and_set_def)
    then have "locked (lks (snd (test_and_set l s)) l) = 0" using IH by blast
    then show ?thesis by (simp add: test_and_set_def)
  qed
qed

lemma holding_push_off [simp]: "holding l d (push_off c s) = holding l d s"
  by (simp add: holding_def)

lemma spin_acquire_refines:
  "case spin_acquire l c s of
     Some r \<Rightarrow> kmap (lock_abs c) r = acquire l (lock_abs c s)
   | None \<Rightarrow> locked (lks s l) \<noteq> 0 \<and> lk_cpu (lks s l) \<noteq> Some c"
proof (cases "holding l c s")
  case True
  then show ?thesis by (simp add: spin_acquire_def acquire_def lock_abs_def)
next
  case False
  show ?thesis
  proof (cases "locked (lks s l) = 0")
    case True
    have "lock_abs c (record_cpu l c (snd (test_and_set l (push_off c s)))) =
        (lock_abs c s)\<lparr>held := insert l (held (lock_abs c s))\<rparr>"
      by (auto simp: lock_abs_def holding_def record_cpu_def test_and_set_def split: if_splits)
    then show ?thesis using False True
      by (simp add: spin_acquire_def acquire_def spin_loop_free) (simp add: lock_abs_def)
  next
    case locked: False
    then have "spin_loop l (push_off c s) = None"
      using spin_loop_Some [of l "push_off c s"] by (cases "spin_loop l (push_off c s)") auto
    with locked False show ?thesis by (simp add: spin_acquire_def holding_def)
  qed
qed

lemma spin_release_refines:
  assumes "holding l c s \<Longrightarrow> 1 \<le> noff (cpus s c) \<and> \<not> sie s c"
  shows "kmap (lock_abs c) (spin_release l c s) = release l (lock_abs c s)"
proof (cases "holding l c s")
  case False
  then show ?thesis by (simp add: spin_release_def release_def lock_abs_def)
next
  case True
  then have "\<exists>t. pop_off c (store_unlocked l (clear_cpu l s)) = Ok () t"
    using assms by (auto simp: spin_defs)
  then obtain t where t: "pop_off c (store_unlocked l (clear_cpu l s)) = Ok () t" by blast
  from pop_off_effect(1) [OF t] have "lock_abs c t = (lock_abs c s)\<lparr>held := held (lock_abs c s) - {l}\<rparr>"
    by (auto simp: lock_abs_def holding_def store_unlocked_def clear_cpu_def)
  with t True show ?thesis
    by (simp add: spin_release_def release_def) (simp add: lock_abs_def)
qed

section \<open>Properties\<close>

text \<open>
  C1: in every state that any interleaving of the harts' lock operations reaches, at most one
  hart is between the atomic swap that took a lock and the store that releases it; on that hart
  interrupts are off, and \<open>holding()\<close>, which reads the lock without synchronisation, answers
  yes exactly for it except in the two windows inside \<open>acquire\<close> and \<open>release\<close> where the record
  is not written yet or already cleared.
\<close>

theorem lock_mutual_exclusion:
  assumes "lock_reach y" "l \<in> owns y c"
  shows "(l \<in> owns y d \<longleftrightarrow> d = c) \<and> locked (lks (hst y) l) \<noteq> 0 \<and>
    \<not> sie (hst y) c \<and> 0 < noff (cpus (hst y) c) \<and>
    (holding l d (hst y) \<longleftrightarrow> d = c \<and> l \<notin> mid (pcs y c))"
proof -
  note i = lock_reach_inv [OF assms(1)]
  have own: "l \<in> owns y d \<longleftrightarrow> d = c" for d using lock_invD(2) [OF i] assms(2) by blast
  have "0 < card (owns y c)" using lock_invD(5) [OF i, of c] assms(2) by (auto simp: card_gt_0_iff)
  then have n: "0 < noff (cpus (hst y) c)"
    using lock_invD(6) [OF i, of c] spinning_nonneg [of "pcs y c"] by linarith
  then show ?thesis
    using lock_invD(1) [OF i, of l] lock_invD(7) [OF i n] lock_inv_holding [OF i, of l d] own [of d] assms(2)
    by (cases "d = c") auto
qed

text \<open>Two harts contend for \<open>kmem.lock\<close>: hart 0 has it, hart 1 spins.\<close>

lemma lock_mutual_exclusion_witness:
  "\<exists>y. lock_reach y \<and> pcs y 1 = Spin LKmem \<and> LKmem \<in> owns y 0 \<and> LKmem \<notin> owns y 1 \<and>
    \<not> sie (hst y) 0 \<and> holding LKmem 0 (hst y)"
proof -
  define y1 where "y1 = init_sys\<lparr>hst := push_off 0 (hst init_sys), pcs := (pcs init_sys)(0 := Spin LKmem)\<rparr>"
  define y2 where "y2 = y1\<lparr>hst := push_off 1 (hst y1), pcs := (pcs y1)(1 := Spin LKmem)\<rparr>"
  define y3 where "y3 = y2\<lparr>hst := snd (test_and_set LKmem (hst y2)), pcs := (pcs y2)(0 := Rec LKmem),
    owns := (owns y2)(0 := insert LKmem (owns y2 0))\<rparr>"
  define y4 where "y4 = y3\<lparr>hst := record_cpu LKmem 0 (hst y3), pcs := (pcs y3)(0 := Run)\<rparr>"
  note defs = y1_def y2_def y3_def y4_def init_sys_def
  have "lock_reach y1" unfolding y1_def
    by (rule step [OF start at_enter]) (simp_all add: init_sys_def holding_def)
  then have "lock_reach y2" unfolding y2_def
    by (rule step [OF _ at_enter]) (simp_all add: y1_def init_sys_def holding_def)
  then have "lock_reach y3" unfolding y3_def
    by (rule step [OF _ at_swap]) (simp_all add: y2_def y1_def init_sys_def test_and_set_def)
  then have r: "lock_reach y4" unfolding y4_def
    by (rule step [OF _ at_record]) (simp add: y3_def)
  have o: "LKmem \<in> owns y4 0" and m: "pcs y4 0 = Run" "pcs y4 1 = Spin LKmem"
    by (simp_all add: defs)
  show ?thesis
    using r m o lock_mutual_exclusion [OF r o, of 1] lock_mutual_exclusion [OF r o, of 0]
    by (intro exI [of _ y4]) auto
qed

text \<open>
  C2: run alone, \<open>acquire\<close> and \<open>release\<close> implement the specification of locks that the rest of
  the kernel is verified over: a hart that already holds the lock panics, a free lock is taken,
  a lock that another hart holds is waited for, and releasing a lock that the hart does not
  hold panics.
\<close>

theorem spin_refines_spec:
  assumes "holding l c s \<Longrightarrow> 1 \<le> noff (cpus s c) \<and> \<not> sie s c"
  shows "(case spin_acquire l c s of
     Some r \<Rightarrow> kmap (lock_abs c) r = acquire l (lock_abs c s)
   | None \<Rightarrow> locked (lks s l) \<noteq> 0 \<and> lk_cpu (lks s l) \<noteq> Some c) \<and>
    kmap (lock_abs c) (spin_release l c s) = release l (lock_abs c s)"
  using spin_acquire_refines spin_release_refines [OF assms] by blast

lemma spin_refines_spec_witness:
  "let s = \<lparr>sie = (\<lambda>_. False), cpus = (\<lambda>_. \<lparr>noff = 1, intena = True\<rparr>),
      lks = (\<lambda>_. \<lparr>locked = 1, lk_cpu = Some 0\<rparr>)\<rparr>
   in kmap (lock_abs 0) (spin_release LKmem 0 s) = release LKmem (lock_abs 0 s)"
  unfolding Let_def by (rule spin_refines_spec [THEN conjunct2]) simp

end
