(* ===== verification/Kalloc.thy ===== *)
theory Kalloc
  imports Prelude Cstring
begin

text \<open>
  Physical memory and the page allocator of \<^verbatim>\<open>kernel/kalloc.c\<close>.

  Physical memory is a function from addresses to bytes; C's multi-byte loads and stores are
  little-endian. A free page holds, in its first 8 bytes, the address of the next free page
  (\<open>struct run\<close>), and \<open>freelist\<close> is the head of that list. \<open>kend\<close> is the linker's symbol \<open>end\<close>.
  The invariant \<open>kmem_inv s ps\<close> says that the list in memory is the list of pages \<open>ps\<close>, all
  different and all allocatable. \<open>kalloc\<close>, \<open>kfree\<close> and \<open>freerange\<close> are shown to pop, push and
  collect pages of it, to touch no other page, and to be an allocator in the sense of the
  interface in \<open>Prelude\<close>.
\<close>

section \<open>Multi-byte loads and stores\<close>

fun le_get :: "nat \<Rightarrow> bytes \<Rightarrow> nat" where
  "le_get 0 b = 0"
| "le_get (Suc k) b = unat (b 0) + 256 * le_get k (adv b)"

definition le_byte :: "nat \<Rightarrow> nat \<Rightarrow> u8" where
  "le_byte x i = of_nat (x div 256 ^ i)"

lemma le_get_cong: "(\<And>i. i < k \<Longrightarrow> b i = c i) \<Longrightarrow> le_get k b = le_get k c"
proof (induction k arbitrary: b c)
  case (Suc k)
  then have "le_get k (adv b) = le_get k (adv c)" by (intro Suc.IH) (simp add: adv_apply)
  with Suc.prems [of 0] show ?case by simp
qed simp

lemma le_byte_0 [simp]: "le_byte x 0 = of_nat x"
  by (simp add: le_byte_def)

lemma le_get_byte: "le_get k (le_byte x) = x mod 256 ^ k"
proof (induction k arbitrary: x)
  case (Suc k)
  have "adv (le_byte x) = le_byte (x div 256)"
    by (simp add: adv_def le_byte_def div_mult2_eq fun_eq_iff)
  then have "le_get (Suc k) (le_byte x) = x mod 256 + 256 * ((x div 256) mod 256 ^ k)"
    using Suc.IH by (simp add: unat_of_nat)
  also have "\<dots> = x mod 256 ^ Suc k"
    by (simp add: mod_mult2_eq)
  finally show ?case .
qed simp

lemma le_get_lt: "le_get k b < 256 ^ k"
proof (induction k arbitrary: b)
  case (Suc k)
  have "unat (b 0) < 256" using unsigned_less [of "b 0"] by simp
  with Suc [of "adv b"] show ?case by simp
qed simp

definition read64 :: "mem \<Rightarrow> u64 \<Rightarrow> u64" where
  "read64 m a = of_nat (le_get 8 (view m a))"

definition write64 :: "mem \<Rightarrow> u64 \<Rightarrow> u64 \<Rightarrow> mem" where
  "write64 m a v = (\<lambda>b. if in_range a 8 b then le_byte (unat v) (unat (b - a)) else m b)"

lemma in_range_shift: "i < n \<Longrightarrow> n \<le> 2 ^ 64 \<Longrightarrow> in_range a n (a + of_nat i)"
  by (simp add: in_range_def unat_of_nat)

lemma read64_write64 [simp]: "read64 (write64 m a v) a = v"
proof -
  have "le_get 8 (view (write64 m a v) a) = le_get 8 (le_byte (unat v))"
    by (rule le_get_cong) (simp add: view_def write64_def in_range_shift unat_of_nat)
  then show ?thesis using unat_lt2p64 [of v] by (simp add: read64_def le_get_byte)
qed

lemma read64_cong: "(\<And>b. in_range a 8 b \<Longrightarrow> m b = m' b) \<Longrightarrow> read64 m a = read64 m' a"
  unfolding read64_def by (auto intro!: le_get_cong arg_cong [where f = of_nat] simp: view_def in_range_shift)

lemma read64_zero: "(\<And>b. in_range a 8 b \<Longrightarrow> m b = 0) \<Longrightarrow> read64 m a = 0"
proof -
  assume z: "\<And>b. in_range a 8 b \<Longrightarrow> m b = 0"
  have "le_get 8 (view m a) = le_get 8 (le_byte 0)"
    by (rule le_get_cong) (simp add: view_def le_byte_def z in_range_shift)
  then show ?thesis by (simp add: read64_def le_get_byte)
qed

section \<open>Pages\<close>

definition PGSIZE :: u64 where "PGSIZE = 4096"
definition KERNBASE :: u64 where "KERNBASE = 0x80000000"
definition PHYSTOP :: u64 where "PHYSTOP = KERNBASE + 128 * 1024 * 1024"

definition PGROUNDUP :: "u64 \<Rightarrow> u64" where
  "PGROUNDUP sz = (sz + PGSIZE - 1) AND NOT (PGSIZE - 1)"

definition PGROUNDDOWN :: "u64 \<Rightarrow> u64" where
  "PGROUNDDOWN a = a AND NOT (PGSIZE - 1)"

record kmach = klocks +
  pmem :: mem
  freelist :: u64
  kend :: u64

definition in_page :: "u64 \<Rightarrow> u64 \<Rightarrow> bool" where
  "in_page p a \<longleftrightarrow> in_range p 4096 a"

lemma PGROUNDDOWN_shift: "PGROUNDDOWN a = push_bit 12 (drop_bit 12 a)"
proof (rule bit_word_eqI)
  fix n assume n: "n < LENGTH(64)"
  have "PGROUNDDOWN a = a AND NOT (mask 12)"
    by (simp add: PGROUNDDOWN_def PGSIZE_def mask_eq_exp_minus_1)
  then show "bit (PGROUNDDOWN a) n = bit (push_bit 12 (drop_bit 12 a)) n"
    using n by (auto simp: bit_and_iff bit_not_iff bit_mask_iff bit_push_bit_iff bit_drop_bit_eq not_less
        simp del: mask_numeral)
qed

lemma unat_PGROUNDDOWN: "unat (PGROUNDDOWN a) = 4096 * (unat a div 4096)"
proof -
  have "unat (drop_bit 12 a) = unat a div 4096"
    using take_bit_nat_eq_self [OF unat_lt2p64 [of a]]
    unfolding unsigned_drop_bit_eq by (simp add: drop_bit_eq_div)
  moreover have "4096 * (unat a div 4096) < 2 ^ 64"
    using unat_lt2p64 [of a] mult_div_mod_eq [of 4096 "unat a"] by linarith
  ultimately show ?thesis
    unfolding PGROUNDDOWN_shift unsigned_push_bit_eq
    by (simp add: push_bit_eq_mult take_bit_nat_eq_self mult.commute)
qed

lemma unat_PGROUNDUP:
  assumes "unat a + 4095 < 2 ^ 64"
  shows "unat (PGROUNDUP a) = 4096 * ((unat a + 4095) div 4096)"
proof -
  have "PGROUNDUP a = PGROUNDDOWN (a + 4095)"
    by (simp add: PGROUNDUP_def PGROUNDDOWN_def PGSIZE_def add_diff_eq [symmetric])
  moreover have "unat (a + 4095) = unat a + 4095"
    using assms by (simp add: unat_word_ariths)
  ultimately show ?thesis by (simp add: unat_PGROUNDDOWN)
qed

lemma round_up_nat: "n \<le> 4096 * ((n + 4095) div 4096)" "4096 * ((n + 4095) div 4096) \<le> n + 4095" for n :: nat
proof -
  have "4096 * ((n + 4095) div 4096) + (n + 4095) mod 4096 = n + 4095" by (rule mult_div_mod_eq)
  moreover have "(n + 4095) mod 4096 < 4096" by simp
  ultimately show "n \<le> 4096 * ((n + 4095) div 4096)" "4096 * ((n + 4095) div 4096) \<le> n + 4095"
    by linarith+
qed

section \<open>The allocator\<close>

definition kfree :: "u64 \<Rightarrow> 'z kmach_scheme \<Rightarrow> (unit, 'z kmach_scheme) kres" where
  "kfree pa s =
    (if pa mod PGSIZE \<noteq> 0 \<or> pa < kend s \<or> PHYSTOP \<le> pa then Panic ''kfree''
     else
       let s = s\<lparr>pmem := memset (pmem s) pa 1 4096\<rparr>;
           r = pa
       in kbind (acquire LKmem s) (\<lambda>_ s.
          let s = s\<lparr>pmem := write64 (pmem s) r (freelist s)\<rparr>;
              s = s\<lparr>freelist := r\<rparr>
          in release LKmem s))"

definition kalloc :: "'z kmach_scheme \<Rightarrow> (u64, 'z kmach_scheme) kres" where
  "kalloc s =
    kbind (acquire LKmem s) (\<lambda>_ s.
    let r = freelist s;
        s = (if r \<noteq> 0 then s\<lparr>freelist := read64 (pmem s) r\<rparr> else s)
    in kbind (release LKmem s) (\<lambda>_ s.
       if r \<noteq> 0 then Ok r (s\<lparr>pmem := memset (pmem s) r 5 4096\<rparr>) else Ok r s))"

text \<open>
  The loop \<open>for(; p + PGSIZE <= pa_end; p += PGSIZE) kfree(p)\<close>. It ends because \<open>kfree\<close> only
  returns for addresses below \<open>PHYSTOP\<close>, where \<open>p + PGSIZE\<close> does not wrap.
\<close>

lemma kfree_Ok_below: "kfree p s = Ok u t \<Longrightarrow> p < PHYSTOP"
  by (auto simp: kfree_def split: if_splits)

function freerange_loop :: "u64 \<Rightarrow> u64 \<Rightarrow> 'z kmach_scheme \<Rightarrow> (unit, 'z kmach_scheme) kres" where
  "freerange_loop p pa_end s =
    (if p + PGSIZE \<le> pa_end
     then kbind (kfree p s) (\<lambda>_ s. freerange_loop (p + PGSIZE) pa_end s)
     else Ok () s)"
  by pat_completeness auto
termination
proof (relation "measure (\<lambda>(p, q, s). unat q - unat p)")
  fix p q :: u64 and s u :: "'z kmach_scheme" and x :: unit
  assume "p + PGSIZE \<le> q" and "kfree p s = Ok x u"
  moreover have "unat (p + PGSIZE) = unat p + 4096"
    using kfree_Ok_below [OF calculation(2)]
    by (simp add: PGSIZE_def PHYSTOP_def KERNBASE_def unat_word_ariths word_less_nat_alt)
  ultimately show "((p + PGSIZE, q, u), (p, q, s)) \<in> measure (\<lambda>(p, q, s). unat q - unat p)"
    by (simp add: word_le_nat_alt)
qed simp

declare freerange_loop.simps [simp del]

definition freerange :: "u64 \<Rightarrow> u64 \<Rightarrow> 'z kmach_scheme \<Rightarrow> (unit, 'z kmach_scheme) kres" where
  "freerange pa_start pa_end s = freerange_loop (PGROUNDUP pa_start) pa_end s"

definition kinit :: "'z kmach_scheme \<Rightarrow> (unit, 'z kmach_scheme) kres" where
  "kinit s = freerange (kend s) PHYSTOP (s\<lparr>held := held s - {LKmem}\<rparr>)"

section \<open>The free list\<close>

definition page_ok :: "'z kmach_scheme \<Rightarrow> u64 \<Rightarrow> bool" where
  "page_ok s p \<longleftrightarrow> p mod PGSIZE = 0 \<and> kend s \<le> p \<and> p < PHYSTOP \<and> p \<noteq> 0"

fun chain :: "mem \<Rightarrow> u64 \<Rightarrow> u64 list \<Rightarrow> bool" where
  "chain m p [] \<longleftrightarrow> p = 0"
| "chain m p (q # qs) \<longleftrightarrow> p = q \<and> chain m (read64 m p) qs"

definition kmem_inv :: "'z kmach_scheme \<Rightarrow> u64 list \<Rightarrow> bool" where
  "kmem_inv s ps \<longleftrightarrow>
    chain (pmem s) (freelist s) ps \<and> distinct ps \<and> (\<forall>p\<in>set ps. page_ok s p) \<and> LKmem \<notin> held s"

lemma unat_page: "p < PHYSTOP \<Longrightarrow> unat p + 4096 < 2 ^ 64"
  by (simp add: PHYSTOP_def KERNBASE_def word_less_nat_alt)

lemma aligned_iff: "p mod PGSIZE = 0 \<longleftrightarrow> unat p mod 4096 = 0"
proof -
  have "p mod PGSIZE = 0 \<longleftrightarrow> unat (p mod PGSIZE) = 0" by (simp add: unat_eq_0)
  then show ?thesis by (simp add: unat_mod PGSIZE_def)
qed

lemma page_base:
  fixes x a :: nat
  assumes "x mod 4096 = 0" "x \<le> a" "a < x + 4096"
  shows "x = 4096 * (a div 4096)"
proof -
  obtain k where k: "x = 4096 * k" using assms(1) by (metis mod_0_imp_dvd dvdE)
  have "a div 4096 = k" by (rule div_nat_eqI) (use assms k in auto)
  with k show ?thesis by simp
qed

lemma page_disjoint:
  assumes "p mod PGSIZE = 0" "q mod PGSIZE = 0" "p < PHYSTOP" "q < PHYSTOP" "in_page p a" "in_page q a"
  shows "p = q"
proof -
  have p: "unat p mod 4096 = 0" "unat q mod 4096 = 0"
    using assms(1,2) by (simp_all add: aligned_iff)
  have b: "unat p + 4096 \<le> 2 ^ 64" "unat q + 4096 \<le> 2 ^ 64"
    using unat_page [OF assms(3)] unat_page [OF assms(4)] by simp_all
  have "unat p \<le> unat a" "unat a < unat p + 4096" "unat q \<le> unat a" "unat a < unat q + 4096"
    using assms(5,6) unfolding in_page_def in_range_iff [OF b(1)] in_range_iff [OF b(2)]
    by blast+
  with p have "unat p = unat q" using page_base [of "unat p" "unat a"] page_base [of "unat q" "unat a"]
    by simp
  then show ?thesis by (simp add: word_unat_eq_iff)
qed

lemma in_range_mono: "in_range a n b \<Longrightarrow> n \<le> k \<Longrightarrow> in_range a k b"
  by (simp add: in_range_def)

lemma chain_cong:
  assumes "chain m p ps" "\<And>q b. q \<in> set ps \<Longrightarrow> in_range q 8 b \<Longrightarrow> m b = m' b"
  shows "chain m' p ps"
  using assms
proof (induction ps arbitrary: p)
  case (Cons q qs)
  have "read64 m q = read64 m' q"
    by (rule read64_cong) (rule Cons.prems(2), simp_all)
  moreover have "chain m' (read64 m q) qs"
    by (rule Cons.IH) (use Cons.prems in \<open>auto\<close>)
  ultimately show ?case using Cons.prems(1) by simp
qed simp

lemma chain_det: "chain m p ps \<Longrightarrow> chain m p qs \<Longrightarrow> 0 \<notin> set ps \<Longrightarrow> 0 \<notin> set qs \<Longrightarrow> ps = qs"
proof (induction ps arbitrary: p qs)
  case Nil
  then show ?case by (cases qs) auto
next
  case (Cons x ps)
  then show ?case by (cases qs) auto
qed


lemma page_ok_disjoint:
  "page_ok s p \<Longrightarrow> page_ok s q \<Longrightarrow> in_page p a \<Longrightarrow> in_page q a \<Longrightarrow> p = q"
  using page_disjoint by (auto simp: page_ok_def)

lemma page_ok_simps [simp]:
  "page_ok (s\<lparr>held := h\<rparr>) p = page_ok s p"
  "page_ok (s\<lparr>pmem := m\<rparr>) p = page_ok s p"
  "page_ok (s\<lparr>freelist := f\<rparr>) p = page_ok s p"
  by (simp_all add: page_ok_def)

lemma memset_page:
  "page_ok s p \<Longrightarrow> memset m p c 4096 = (\<lambda>a. if in_page p a then c else m a)"
  by (simp add: memset_eq in_page_def)

text \<open>Changes inside an allocatable page that is not on the free list do not affect the list.\<close>

lemma chain_outside:
  assumes "chain m f ps" "\<forall>q\<in>set ps. page_ok s q" "page_ok s p" "p \<notin> set ps"
    and "\<And>a. \<not> in_page p a \<Longrightarrow> m' a = m a"
  shows "chain m' f ps"
proof (rule chain_cong [OF assms(1)])
  fix q b assume q: "q \<in> set ps" and b: "in_range q 8 b"
  have "\<not> in_page p b"
  proof
    assume "in_page p b"
    moreover have "in_page q b" using b by (simp add: in_page_def in_range_def)
    ultimately have "p = q" using page_ok_disjoint [of s p q b] assms(2,3) q by simp
    with q assms(4) show False by simp
  qed
  then show "m b = m' b" using assms(5) by simp
qed

definition kfree_mem :: "mem \<Rightarrow> u64 \<Rightarrow> u64 \<Rightarrow> mem" where
  "kfree_mem m p f = write64 (\<lambda>a. if in_page p a then 1 else m a) p f"

lemma kfree_mem_outside: "\<not> in_page p a \<Longrightarrow> kfree_mem m p f a = m a"
  by (simp add: kfree_mem_def write64_def in_page_def in_range_def)

lemma kfree_eq:
  assumes "page_ok s p" "LKmem \<notin> held s"
  shows "kfree p s = Ok () (s\<lparr>pmem := kfree_mem (pmem s) p (freelist s), freelist := p\<rparr>)"
proof -
  have "p mod PGSIZE = 0" "\<not> p < kend s" "\<not> PHYSTOP \<le> p" using assms(1) by (auto simp: page_ok_def)
  then show ?thesis using assms(2)
    by (simp add: kfree_def acquire_free release_held Let_def memset_page [OF assms(1)] kfree_mem_def)
qed

lemma kalloc_eq:
  assumes "LKmem \<notin> held s"
  shows "kalloc s =
    (if freelist s = 0 then Ok 0 s
     else Ok (freelist s) (s\<lparr>freelist := read64 (pmem s) (freelist s),
       pmem := memset (pmem s) (freelist s) 5 4096\<rparr>))"
  using assms by (simp add: kalloc_def acquire_free release_held Let_def)

lemma kmem_inv_kfree:
  assumes "kmem_inv s ps" "page_ok s p" "p \<notin> set ps"
  shows "kmem_inv (s\<lparr>pmem := kfree_mem (pmem s) p (freelist s), freelist := p\<rparr>) (p # ps)"
proof -
  have "chain (kfree_mem (pmem s) p (freelist s)) (freelist s) ps"
    by (rule chain_outside [of "pmem s" _ _ s p])
       (use assms in \<open>auto simp: kmem_inv_def kfree_mem_outside\<close>)
  moreover have "read64 (kfree_mem (pmem s) p (freelist s)) p = freelist s"
    by (simp add: kfree_mem_def)
  ultimately show ?thesis using assms by (simp add: kmem_inv_def)
qed

text \<open>
  \<open>kfree\<close> of an allocatable page that is not free pushes it, and only writes into it;
  it panics on anything that is not an allocatable page.
\<close>

lemma kfree_spec [wp_simps]:
  assumes "kmem_inv s ps" "page_ok s p" "p \<notin> set ps"
  shows "wp (kfree p s) (\<lambda>_ t. kmem_inv t (p # ps) \<and> held t = held s \<and>
    (\<forall>a. \<not> in_page p a \<longrightarrow> pmem t a = pmem s a) \<and> kmach.more t = kmach.more s \<and> kend t = kend s)"
  using assms kmem_inv_kfree [OF assms]
  by (simp add: kfree_eq kmem_inv_def wp_simps kfree_mem_outside)

lemma kfree_panics:
  assumes "p mod PGSIZE \<noteq> 0 \<or> p < kend s \<or> PHYSTOP \<le> p"
  shows "kfree p s = Panic ''kfree''"
  using assms by (simp add: kfree_def)

lemma kalloc_spec:
  assumes "kmem_inv s ps"
  shows "wp (kalloc s) (\<lambda>r t.
    (case ps of [] \<Rightarrow> r = 0 \<and> t = s
     | p # qs \<Rightarrow> r = p \<and> p \<noteq> 0 \<and> kmem_inv t qs \<and> held t = held s \<and> kend t = kend s \<and>
         kmach.more t = kmach.more s \<and>
         (\<forall>a. pmem t a = (if in_page p a then 5 else pmem s a))))"
proof (cases ps)
  case Nil
  then show ?thesis using assms by (simp add: kalloc_eq kmem_inv_def wp_simps)
next
  case (Cons p qs)
  have p: "page_ok s p" "freelist s = p" "p \<notin> set qs" "LKmem \<notin> held s"
    using assms Cons by (auto simp: kmem_inv_def)
  have "chain (memset (pmem s) p 5 4096) (read64 (pmem s) p) qs"
    by (rule chain_outside [of "pmem s" _ _ s p])
       (use assms Cons p in \<open>auto simp: kmem_inv_def memset_page [OF p(1)]\<close>)
  then show ?thesis using assms p Cons
    by (simp add: kalloc_eq kmem_inv_def wp_simps memset_page [OF p(1)]) (simp add: page_ok_def)
qed


text \<open>\<open>freerange\<close> hands every whole page between its bounds to the allocator.\<close>

definition whole_pages :: "u64 \<Rightarrow> u64 \<Rightarrow> u64 set" where
  "whole_pages p q = {x. x mod PGSIZE = 0 \<and> p \<le> x \<and> unat x + 4096 \<le> unat q}"

lemma whole_pages_empty:
  "\<not> unat p + 4096 \<le> unat q \<Longrightarrow> whole_pages p q = {}"
  by (auto simp: whole_pages_def word_le_nat_alt)

lemma whole_pages_step:
  assumes "p mod PGSIZE = 0" "unat p + 4096 \<le> unat q"
  shows "whole_pages p q = insert p (whole_pages (p + PGSIZE) q)"
    and "p \<notin> whole_pages (p + PGSIZE) q" and "(p + PGSIZE) mod PGSIZE = 0"
    and "unat (p + PGSIZE) = unat p + 4096"
proof -
  show u: "unat (p + PGSIZE) = unat p + 4096"
    using assms(2) unat_lt2p64 [of q] by (simp add: PGSIZE_def unat_word_ariths)
  show "(p + PGSIZE) mod PGSIZE = 0" using assms(1) by (simp add: aligned_iff u)
  show "p \<notin> whole_pages (p + PGSIZE) q" by (simp add: whole_pages_def word_le_nat_alt u)
  have "unat p + 4096 \<le> unat x" if "unat x mod 4096 = 0" "unat p \<le> unat x" "x \<noteq> p" for x
  proof (rule ccontr)
    assume "\<not> unat p + 4096 \<le> unat x"
    then have "unat p = 4096 * (unat x div 4096)"
      using that assms(1) by (intro page_base) (auto simp: aligned_iff)
    with that(1) have "unat p = unat x" using mult_div_mod_eq [of 4096 "unat x"] by simp
    with that(3) show False by (simp add: word_unat_eq_iff)
  qed
  then show "whole_pages p q = insert p (whole_pages (p + PGSIZE) q)"
    using assms by (auto simp: whole_pages_def word_le_nat_alt u aligned_iff)
qed

lemma freerange_loop_spec:
  fixes s :: "'z kmach_scheme"
  assumes "kmem_inv s ps" "p mod PGSIZE = 0" "kend s \<le> p" "p \<noteq> 0" "q \<le> PHYSTOP"
    and "p \<le> PHYSTOP" and "set ps \<inter> whole_pages p q = {}"
  shows "wp (freerange_loop p q s) (\<lambda>_ t. \<exists>qs. kmem_inv t (qs @ ps) \<and>
    set qs = whole_pages p q \<and> held t = held s \<and> kend t = kend s)"
  using assms
proof (induction p q s arbitrary: ps rule: freerange_loop.induct)
  case (1 p q s)
  have g: "p + PGSIZE \<le> q \<longleftrightarrow> unat p + 4096 \<le> unat q"
    using "1.prems"(6)
    by (simp add: PGSIZE_def PHYSTOP_def KERNBASE_def unat_word_ariths word_le_nat_alt)
  show ?case
  proof (cases "unat p + 4096 \<le> unat q")
    case False
    then show ?thesis using "1.prems" by (subst freerange_loop.simps) (auto simp: g wp_simps whole_pages_empty)
  next
    case True
    note st = whole_pages_step [OF "1.prems"(2) True]
    have "p < PHYSTOP" using True "1.prems"(5) by (simp add: word_le_nat_alt word_less_nat_alt)
    then have ok: "page_ok s p" using "1.prems" by (simp add: page_ok_def)
    have np: "p \<notin> set ps" using "1.prems"(7) st(1) by auto
    have le: "p \<le> p + PGSIZE" by (simp add: word_le_nat_alt st(4))
    have nz: "p + PGSIZE \<noteq> 0" using st(4) by (metis unat_0 add_is_0 zero_neq_numeral)
    have "wp (freerange_loop (p + PGSIZE) q t) (\<lambda>_ u. \<exists>qs. kmem_inv u (qs @ ps) \<and>
        set qs = whole_pages p q \<and> held u = held s \<and> kend u = kend s)"
      if t: "kmem_inv t (p # ps)" "held t = held s" "kend t = kend s"
        and k: "kfree p s = Ok () t" for t :: "'z kmach_scheme"
    proof (rule wp_mono [OF "1.IH" [OF _ _ t(1) st(3)]])
      show "p + PGSIZE \<le> q" using True g by simp
      show "kfree p s = Ok () t" by (rule k)
      show "p + PGSIZE \<le> PHYSTOP" using True "1.prems"(5) by (simp add: word_le_nat_alt st(4))
      show "kend t \<le> p + PGSIZE" using "1.prems"(3) le t(3) by simp
      show "p + PGSIZE \<noteq> 0" by (rule nz)
      show "q \<le> PHYSTOP" by (rule "1.prems"(5))
      show "set (p # ps) \<inter> whole_pages (p + PGSIZE) q = {}" using "1.prems"(7) st(1,2) by auto
      fix u assume "\<exists>qs. kmem_inv u (qs @ p # ps) \<and> set qs = whole_pages (p + PGSIZE) q \<and>
          held u = held t \<and> kend u = kend t"
      then obtain qs where "kmem_inv u (qs @ p # ps)" "set qs = whole_pages (p + PGSIZE) q"
          "held u = held t" "kend u = kend t" by blast
      then show "\<exists>qs. kmem_inv u (qs @ ps) \<and> set qs = whole_pages p q \<and> held u = held s \<and> kend u = kend s"
        using st(1) t by (intro exI [of _ "qs @ [p]"]) auto
    qed
    moreover obtain t where "kfree p s = Ok () t" "kmem_inv t (p # ps)" "held t = held s" "kend t = kend s"
      using kfree_spec [OF "1.prems"(1) ok np] by (auto simp: wp_iff)
    ultimately show ?thesis using True
      by (subst freerange_loop.simps) (simp add: g wp_simps)
  qed
qed

section \<open>The allocator interface\<close>

definition kalloc_opt :: "'z kmach_scheme \<Rightarrow> u64 option \<times> 'z kmach_scheme" where
  "kalloc_opt s =
    (case kalloc s of Ok r t \<Rightarrow> (if r = 0 then None else Some r, t)
     | Panic e \<Rightarrow> (None, s) | Block t \<Rightarrow> (None, s))"

definition kfree_tot :: "u64 \<Rightarrow> 'z kmach_scheme \<Rightarrow> 'z kmach_scheme" where
  "kfree_tot p s = (case kfree p s of Ok r t \<Rightarrow> t | Panic e \<Rightarrow> s | Block t \<Rightarrow> s)"

definition free_pages :: "'z kmach_scheme \<Rightarrow> u64 set" where
  "free_pages s = {p. \<exists>ps. kmem_inv s ps \<and> p \<in> set ps}"

lemma kmem_inv_det: "kmem_inv s ps \<Longrightarrow> kmem_inv s qs \<Longrightarrow> ps = qs"
  unfolding kmem_inv_def by (rule chain_det) (auto simp: page_ok_def)

lemma free_pages_eq: "kmem_inv s ps \<Longrightarrow> free_pages s = set ps"
  unfolding free_pages_def using kmem_inv_det by blast

definition used_pages :: "'z kmach_scheme \<Rightarrow> u64 set" where
  "used_pages s = {p. page_ok s p} - free_pages s"

interpretation pages: reusable_allocator
  kalloc_opt free_pages "\<lambda>s. \<exists>ps. kmem_inv s ps" kfree_tot used_pages
proof unfold_locales
  fix s t :: "'z kmach_scheme" and r
  assume i: "\<exists>ps. kmem_inv s ps" and a: "kalloc_opt s = (Some r, t)"
  from i obtain ps where ps: "kmem_inv s ps" by blast
  from kalloc_spec [OF ps] a obtain qs where "ps = r # qs" "kmem_inv t qs"
    by (auto simp: kalloc_opt_def wp_iff split: kres.splits if_splits list.splits)
  moreover have "r \<notin> set qs" using calculation ps by (simp add: kmem_inv_def)
  ultimately show "r \<in> free_pages s \<and> free_pages t = free_pages s - {r} \<and> (\<exists>ps. kmem_inv t ps)"
    using free_pages_eq [OF ps] free_pages_eq [of t qs] by auto
next
  fix s t :: "'z kmach_scheme"
  assume i: "\<exists>ps. kmem_inv s ps" and a: "kalloc_opt s = (None, t)"
  from i obtain ps where ps: "kmem_inv s ps" by blast
  from kalloc_spec [OF ps] a have "ps = []"
    by (auto simp: kalloc_opt_def wp_iff split: kres.splits if_splits list.splits)
  with ps show "free_pages s = {}" by (simp add: free_pages_eq)
next
  fix s :: "'z kmach_scheme" and r
  assume i: "\<exists>ps. kmem_inv s ps" and r: "r \<in> used_pages s"
  from i obtain ps where ps: "kmem_inv s ps" by blast
  from r have ok: "page_ok s r" "r \<notin> set ps" by (auto simp: used_pages_def free_pages_eq [OF ps])
  from kfree_spec [OF ps ok] have k: "kmem_inv (kfree_tot r s) (r # ps)"
    by (auto simp: kfree_tot_def wp_iff)
  then show "(\<exists>ps. kmem_inv (kfree_tot r s) ps) \<and> free_pages (kfree_tot r s) = insert r (free_pages s)"
    using free_pages_eq [OF ps] free_pages_eq [OF k] by auto
qed

section \<open>Properties\<close>

text \<open>
  C3: booting: on a machine with an empty free list, \<open>kinit\<close> returns and leaves exactly the whole
  pages between the end of the kernel image and the top of RAM on the free list, each once.
\<close>

theorem kinit_frees_all:
  fixes s :: "'z kmach_scheme"
  assumes "freelist s = 0" "kend s \<noteq> 0" "unat (kend s) + 4095 \<le> unat PHYSTOP"
  shows "wp (kinit s) (\<lambda>_ t. \<exists>ps. kmem_inv t ps \<and> distinct ps \<and>
    set ps = {p. p mod PGSIZE = 0 \<and> kend s \<le> p \<and> unat p + 4096 \<le> unat PHYSTOP})"
proof -
  let ?a = "PGROUNDUP (kend s)"
  have "unat PHYSTOP < 2 ^ 63" by (simp add: PHYSTOP_def KERNBASE_def)
  then have ua: "unat ?a = 4096 * ((unat (kend s) + 4095) div 4096)"
    using assms(3) by (intro unat_PGROUNDUP) simp
  have lo: "kend s \<le> ?a" unfolding word_le_nat_alt ua by (rule round_up_nat)
  have hi: "?a \<le> PHYSTOP" unfolding word_le_nat_alt ua
    by (rule le_trans [OF round_up_nat(2) assms(3)])
  have al: "?a mod PGSIZE = 0" by (simp add: aligned_iff ua)
  have nz: "?a \<noteq> 0" using lo assms(2) by (auto simp: word_le_nat_alt unat_eq_0)
  have w: "whole_pages ?a PHYSTOP = {p. p mod PGSIZE = 0 \<and> kend s \<le> p \<and> unat p + 4096 \<le> unat PHYSTOP}"
  proof -
    have "?a \<le> x" if "x mod PGSIZE = 0" "kend s \<le> x" for x
    proof -
      have "unat x mod 4096 = 0" "unat (kend s) \<le> unat x"
        using that by (simp_all add: aligned_iff word_le_nat_alt)
      then obtain k where "unat x = 4096 * k" "unat (kend s) \<le> 4096 * k" by auto
      moreover have "(unat (kend s) + 4095) div 4096 \<le> k"
        using \<open>unat (kend s) \<le> 4096 * k\<close> by (intro less_Suc_eq_le [THEN iffD1] div_less_iff_less_mult [THEN iffD2]) auto
      ultimately show ?thesis by (simp add: word_le_nat_alt ua)
    qed
    moreover have "kend s \<le> x" if "?a \<le> x" for x using lo that by (rule order_trans)
    ultimately show ?thesis unfolding whole_pages_def by (intro Collect_cong conj_cong refl iffI)
  qed
  let ?s = "s\<lparr>held := held s - {LKmem}\<rparr>"
  have i: "kmem_inv ?s []" using assms(1) by (simp add: kmem_inv_def)
  have "wp (freerange_loop ?a PHYSTOP ?s) (\<lambda>_ t. \<exists>qs. kmem_inv t (qs @ []) \<and>
      set qs = whole_pages ?a PHYSTOP \<and> held t = held ?s \<and> kend t = kend ?s)"
    by (rule freerange_loop_spec [OF i al _ nz _ hi]) (use lo in simp_all)
  then show ?thesis
    by (auto simp: kinit_def freerange_def w [symmetric] kmem_inv_def elim!: wp_mono)
qed

definition boot_machine :: kmach where
  "boot_machine = \<lparr>held = {}, pmem = (\<lambda>_. 0), freelist = 0, kend = 0x80022000\<rparr>"

lemma kinit_frees_all_witness:
  "wp (kinit boot_machine) (\<lambda>_ t. \<exists>ps. kmem_inv t ps \<and> distinct ps \<and>
    set ps = {p. p mod PGSIZE = 0 \<and> 0x80022000 \<le> p \<and> unat p + 4096 \<le> unat PHYSTOP})"
  using kinit_frees_all [of boot_machine]
  by (simp add: boot_machine_def PHYSTOP_def KERNBASE_def)

text \<open>
  C4: \<open>kalloc\<close> takes the first page off a non-empty free list, fills it with junk and writes
  nothing outside it; freeing that page again succeeds, puts it back and again writes only into
  it; with an empty list \<open>kalloc\<close> returns 0 and changes nothing; and \<open>kfree\<close> panics on anything
  that is not a page between the end of the kernel and the top of RAM.
\<close>

theorem kalloc_kfree:
  fixes s :: "'z kmach_scheme"
  assumes "kmem_inv s ps"
  shows "(case ps of [] \<Rightarrow> kalloc s = Ok 0 s
    | p # qs \<Rightarrow> \<exists>t u. kalloc s = Ok p t \<and> kmem_inv t qs \<and>
        (\<forall>a. pmem t a = (if in_page p a then 5 else pmem s a)) \<and>
        kfree p t = Ok () u \<and> kmem_inv u (p # qs) \<and>
        (\<forall>a. \<not> in_page p a \<longrightarrow> pmem u a = pmem s a) \<and> held u = held s) \<and>
    (\<forall>p. p mod PGSIZE \<noteq> 0 \<or> p < kend s \<or> PHYSTOP \<le> p \<longrightarrow> kfree p s = Panic ''kfree'')"
proof (cases ps)
  case Nil
  with kalloc_spec [OF assms] show ?thesis by (auto simp: wp_iff kfree_panics)
next
  case (Cons p qs)
  from kalloc_spec [OF assms] Cons obtain t where t: "kalloc s = Ok p t" "kmem_inv t qs"
    "held t = held s" "kend t = kend s" "\<forall>a. pmem t a = (if in_page p a then 5 else pmem s a)"
    by (auto simp: wp_iff)
  have p: "page_ok t p" "p \<notin> set qs" using assms Cons t(4) by (auto simp: kmem_inv_def page_ok_def)
  from kfree_spec [OF t(2) p] obtain u where "kfree p t = Ok () u" "kmem_inv u (p # qs)"
    "held u = held t" "\<forall>a. \<not> in_page p a \<longrightarrow> pmem u a = pmem t a"
    by (auto simp: wp_iff)
  with Cons t kfree_panics [of _ s] show ?thesis by (auto intro!: exI [of _ t] exI [of _ u])
qed

lemma kalloc_kfree_witness:
  "let s = boot_machine\<lparr>freelist := 0x80022000\<rparr>
   in \<exists>t u. kalloc s = Ok 0x80022000 t \<and> kmem_inv t [] \<and>
        kfree 0x80022000 t = Ok () u \<and> kmem_inv u [0x80022000] \<and>
        kfree 0x80022001 s = Panic ''kfree''"
proof -
  let ?s = "boot_machine\<lparr>freelist := 0x80022000\<rparr>"
  have "kmem_inv ?s [0x80022000]"
    by (simp add: kmem_inv_def boot_machine_def page_ok_def PGSIZE_def PHYSTOP_def KERNBASE_def read64_zero)
  from kalloc_kfree [OF this] show ?thesis by (auto simp: PGSIZE_def)
qed

text \<open>
  A client that allocates \<open>n\<close> pages gets \<open>n\<close> different pages, all of them free before and
  none of them free after, and it gets them whenever \<open>n\<close> pages are free.
\<close>

theorem kalloc_distinct_pages:
  assumes "kmem_inv s ps" "n \<le> length ps"
  shows "\<exists>rs t. pages.allocs n s = (Some rs, t) \<and> length rs = n \<and> distinct rs \<and>
    set rs \<subseteq> free_pages s \<and> free_pages t = free_pages s - set rs"
proof -
  have i: "\<exists>ps. kmem_inv s ps" using assms(1) by blast
  have c: "free_pages s = set ps" by (rule free_pages_eq [OF assms(1)])
  moreover have "card (set ps) = length ps" using assms(1) by (simp add: kmem_inv_def distinct_card)
  ultimately obtain rs t where rs: "pages.allocs n s = (Some rs, t)"
    using pages.allocs_enough [OF i, of n] assms(2) by auto
  with pages.allocs_distinct [OF i rs] show ?thesis by auto
qed

lemma kalloc_distinct_pages_witness:
  "let s = boot_machine\<lparr>freelist := 0x80022000\<rparr>
   in \<exists>rs t. pages.allocs 1 s = (Some rs, t) \<and> length rs = 1 \<and> set rs \<subseteq> free_pages s"
proof -
  let ?s = "boot_machine\<lparr>freelist := 0x80022000\<rparr>"
  have "kmem_inv ?s [0x80022000]"
    by (simp add: kmem_inv_def boot_machine_def page_ok_def PGSIZE_def PHYSTOP_def KERNBASE_def read64_zero)
  from kalloc_distinct_pages [OF this, of 1] show ?thesis by auto
qed

end
