(* ===== verification/Procdata.thy ===== *)
theory Procdata
  imports Kalloc
begin

text \<open>
  The data of \<^verbatim>\<open>kernel/proc.h\<close> and the constants of \<^verbatim>\<open>kernel/param.h\<close> and
  \<^verbatim>\<open>kernel/memlayout.h\<close>: the process table as the components above the page allocator see it.

  A process refers to open files and inodes by their index in the system's tables and to its
  page table and trapframe by physical address (0 for a null pointer). The trapframe is a page
  of physical memory; its fields are loads and stores at the offsets of \<open>struct trapframe\<close>.
  \<open>myproc\<close> is the process the hart is running; dereferencing its null pointer is a fault in
  kernel code, which ends in the panic of \<open>kerneltrap\<close>.
\<close>

section \<open>Limits and layout\<close>

definition NPROC :: nat where "NPROC = 64"
definition NOFILE :: nat where "NOFILE = 16"
definition NFILE :: nat where "NFILE = 100"
definition NINODE :: nat where "NINODE = 50"
definition NDEV :: int where "NDEV = 10"
definition ROOTDEV :: u32 where "ROOTDEV = 1"
definition MAXARG :: nat where "MAXARG = 32"
definition MAXOPBLOCKS :: nat where "MAXOPBLOCKS = 10"
definition LOGBLOCKS :: nat where "LOGBLOCKS = MAXOPBLOCKS * 3"
definition NBUF :: nat where "NBUF = MAXOPBLOCKS * 3"
definition FSSIZE :: nat where "FSSIZE = 2000"
definition MAXPATH :: nat where "MAXPATH = 128"
definition USERSTACK :: u64 where "USERSTACK = 2"

definition MAXVA :: u64 where "MAXVA = push_bit (9 + 9 + 9 + 12 - 1) 1"
definition TRAMPOLINE :: u64 where "TRAMPOLINE = MAXVA - PGSIZE"
definition TRAPFRAME :: u64 where "TRAPFRAME = TRAMPOLINE - PGSIZE"
definition KSTACK :: "nat \<Rightarrow> u64" where "KSTACK p = TRAMPOLINE - of_nat (p + 1) * 2 * PGSIZE"
definition UART0 :: u64 where "UART0 = 0x10000000"
definition VIRTIO0 :: u64 where "VIRTIO0 = 0x10001000"
definition PLIC :: u64 where "PLIC = 0x0c000000"
definition UART0_IRQ :: int where "UART0_IRQ = 10"
definition VIRTIO0_IRQ :: int where "VIRTIO0_IRQ = 1"

section \<open>Trapframe\<close>

definition tf_kernel_satp :: u64 where "tf_kernel_satp = 0"
definition tf_kernel_sp :: u64 where "tf_kernel_sp = 8"
definition tf_kernel_trap :: u64 where "tf_kernel_trap = 16"
definition tf_epc :: u64 where "tf_epc = 24"
definition tf_kernel_hartid :: u64 where "tf_kernel_hartid = 32"
definition tf_sp :: u64 where "tf_sp = 48"

text \<open>The argument registers \<open>a0\<close> to \<open>a7\<close> are consecutive.\<close>

definition tf_a :: "nat \<Rightarrow> u64" where "tf_a i = 112 + 8 * of_nat i"

definition tf_size :: nat where "tf_size = 288"

section \<open>Processes\<close>

datatype procstate = UNUSED | USED | SLEEPING | RUNNABLE | RUNNING | ZOMBIE

record ctxt =
  ctx_ra :: u64
  ctx_sp :: u64
  ctx_s :: "nat \<Rightarrow> u64"

record proc =
  p_state :: procstate
  p_chan :: "chan option"
  p_killed :: int
  p_xstate :: int
  p_pid :: int
  p_parent :: "nat option"
  p_kstack :: u64
  p_sz :: u64
  p_pagetable :: u64
  p_trapframe :: u64
  p_context :: ctxt
  p_ofile :: "nat \<Rightarrow> nat option"
  p_cwd :: "nat option"
  p_name :: bytes

record kprocs = kmach +
  procs :: "nat \<Rightarrow> proc"
  curproc :: "nat option"
  nextpid :: int
  initproc :: "nat option"
  kernel_pagetable :: u64
  satp :: u64
  etext :: u64
  trampoline :: u64
  forkret_addr :: u64

definition myproc :: "'z kprocs_scheme \<Rightarrow> (nat, 'z kprocs_scheme) kres" where
  "myproc s = (case curproc s of None \<Rightarrow> Panic ''kerneltrap'' | Some p \<Rightarrow> Ok p s)"

definition proc_upd :: "nat \<Rightarrow> (proc \<Rightarrow> proc) \<Rightarrow> 'z kprocs_scheme \<Rightarrow> 'z kprocs_scheme" where
  "proc_upd i f s = s\<lparr>procs := (procs s)(i := f (procs s i))\<rparr>"

definition tf_read :: "nat \<Rightarrow> u64 \<Rightarrow> 'z kprocs_scheme \<Rightarrow> u64" where
  "tf_read i off s = read64 (pmem s) (p_trapframe (procs s i) + off)"

definition tf_write :: "nat \<Rightarrow> u64 \<Rightarrow> u64 \<Rightarrow> 'z kprocs_scheme \<Rightarrow> 'z kprocs_scheme" where
  "tf_write i off v s = s\<lparr>pmem := write64 (pmem s) (p_trapframe (procs s i) + off) v\<rparr>"

lemma myproc_Some: "curproc s = Some p \<Longrightarrow> myproc s = Ok p s"
  by (simp add: myproc_def)

lemma wp_myproc [wp_simps]: "wp (myproc s) Q \<longleftrightarrow> (\<exists>p. curproc s = Some p \<and> Q p s)"
  by (simp add: myproc_def wp_simps split: option.splits)

lemma pwp_myproc [wp_simps]: "pwp (myproc s) Q \<longleftrightarrow> (\<forall>p. curproc s = Some p \<longrightarrow> Q p s)"
  by (simp add: myproc_def wp_simps split: option.splits)

end
