(* ===== verification/Vm.thy ===== *)
theory Vm
  imports Procdata
begin

text \<open>
  Page tables and user memory: \<^verbatim>\<open>kernel/vm.c\<close>.

  A page table is a page of 512 little-endian 64-bit entries in physical memory; the kernel
  reaches it by its physical address, as the kernel's direct map allows. \<open>walk\<close> returns the
  address of an entry, 0 for the null pointer. Addresses and sizes are 64-bit words and wrap.
\<close>

section \<open>Page-table entries\<close>

definition PTE_V :: u64 where "PTE_V = 1"
definition PTE_R :: u64 where "PTE_R = 2"
definition PTE_W :: u64 where "PTE_W = 4"
definition PTE_X :: u64 where "PTE_X = 8"
definition PTE_U :: u64 where "PTE_U = 16"

definition PA2PTE :: "u64 \<Rightarrow> u64" where "PA2PTE pa = push_bit 10 (drop_bit 12 pa)"
definition PTE2PA :: "u64 \<Rightarrow> u64" where "PTE2PA pte = push_bit 12 (drop_bit 10 pte)"
definition PTE_FLAGS :: "u64 \<Rightarrow> u64" where "PTE_FLAGS pte = pte AND 0x3FF"
definition PX :: "nat \<Rightarrow> u64 \<Rightarrow> u64" where "PX level va = drop_bit (12 + 9 * level) va AND 0x1FF"

text \<open>The address of entry \<open>i\<close> of the table at \<open>pt\<close>: \<open>&pagetable[i]\<close>.\<close>

definition pte_addr :: "u64 \<Rightarrow> u64 \<Rightarrow> u64" where "pte_addr pt i = pt + 8 * i"

definition pte_at :: "'z kmach_scheme \<Rightarrow> u64 \<Rightarrow> u64" where "pte_at s a = read64 (pmem s) a"

definition set_pte :: "u64 \<Rightarrow> u64 \<Rightarrow> 'z kmach_scheme \<Rightarrow> 'z kmach_scheme" where
  "set_pte a v s = s\<lparr>pmem := write64 (pmem s) a v\<rparr>"

definition memset_page_k :: "u64 \<Rightarrow> u8 \<Rightarrow> 'z kmach_scheme \<Rightarrow> 'z kmach_scheme" where
  "memset_page_k p c s = s\<lparr>pmem := memset (pmem s) p c 4096\<rparr>"

section \<open>Walking and mapping\<close>

text \<open>The loop \<open>for(level = 2; level > 0; level--)\<close>; \<open>levels\<close> counts what is left of it.\<close>

fun walk_levels :: "nat \<Rightarrow> u64 \<Rightarrow> u64 \<Rightarrow> bool \<Rightarrow> 'z kmach_scheme \<Rightarrow> (u64, 'z kmach_scheme) kres" where
  "walk_levels 0 pagetable va alloc s = Ok (pte_addr pagetable (PX 0 va)) s"
| "walk_levels (Suc l) pagetable va alloc s =
    (let pte = pte_addr pagetable (PX (Suc l) va) in
     if pte_at s pte AND PTE_V \<noteq> 0 then walk_levels l (PTE2PA (pte_at s pte)) va alloc s
     else if \<not> alloc then Ok 0 s
     else kbind (kalloc s) (\<lambda>pagetable s.
       if pagetable = 0 then Ok 0 s
       else
         let s = memset_page_k pagetable 0 s;
             s = set_pte pte (PA2PTE pagetable OR PTE_V) s
         in walk_levels l pagetable va alloc s))"

definition walk :: "u64 \<Rightarrow> u64 \<Rightarrow> bool \<Rightarrow> 'z kmach_scheme \<Rightarrow> (u64, 'z kmach_scheme) kres" where
  "walk pagetable va alloc s =
    (if MAXVA \<le> va then Panic ''walk'' else walk_levels 2 pagetable va alloc s)"

definition walkaddr :: "u64 \<Rightarrow> u64 \<Rightarrow> 'z kmach_scheme \<Rightarrow> (u64, 'z kmach_scheme) kres" where
  "walkaddr pagetable va s =
    (if MAXVA \<le> va then Ok 0 s
     else kbind (walk pagetable va False s) (\<lambda>pte s.
       if pte = 0 then Ok 0 s
       else if pte_at s pte AND PTE_V = 0 then Ok 0 s
       else if pte_at s pte AND PTE_U = 0 then Ok 0 s
       else Ok (PTE2PA (pte_at s pte)) s))"

text \<open>
  The loop of \<open>mappages\<close> runs until \<open>a\<close> reaches \<open>last\<close> (here \<open>lst\<close>), which for aligned arguments is after
  \<open>size / PGSIZE\<close> rounds: \<open>n\<close> counts them.
\<close>

fun mappages_loop ::
  "nat \<Rightarrow> u64 \<Rightarrow> u64 \<Rightarrow> u64 \<Rightarrow> u64 \<Rightarrow> u64 \<Rightarrow> 'z kmach_scheme \<Rightarrow> (int, 'z kmach_scheme) kres" where
  "mappages_loop 0 pagetable a lst pa perm s = Ok 0 s"
| "mappages_loop (Suc n) pagetable a lst pa perm s =
    kbind (walk pagetable a True s) (\<lambda>pte s.
      if pte = 0 then Ok (-1) s
      else if pte_at s pte AND PTE_V \<noteq> 0 then Panic ''mappages: remap''
      else
        let s = set_pte pte (PA2PTE pa OR perm OR PTE_V) s
        in if a = lst then Ok 0 s
           else mappages_loop n pagetable (a + PGSIZE) lst (pa + PGSIZE) perm s)"

definition mappages ::
  "u64 \<Rightarrow> u64 \<Rightarrow> u64 \<Rightarrow> u64 \<Rightarrow> u64 \<Rightarrow> 'z kmach_scheme \<Rightarrow> (int, 'z kmach_scheme) kres" where
  "mappages pagetable va sz pa perm s =
    (if va mod PGSIZE \<noteq> 0 then Panic ''mappages: va not aligned''
     else if sz mod PGSIZE \<noteq> 0 then Panic ''mappages: size not aligned''
     else if sz = 0 then Panic ''mappages: size''
     else mappages_loop (unat (sz div PGSIZE)) pagetable va (va + sz - PGSIZE) pa perm s)"

definition kvmmap ::
  "u64 \<Rightarrow> u64 \<Rightarrow> u64 \<Rightarrow> u64 \<Rightarrow> u64 \<Rightarrow> 'z kmach_scheme \<Rightarrow> (unit, 'z kmach_scheme) kres" where
  "kvmmap kpgtbl va pa sz perm s =
    kbind (mappages kpgtbl va sz pa perm s) (\<lambda>r s. if r \<noteq> 0 then Panic ''kvmmap'' else Ok () s)"

definition uvmcreate :: "'z kmach_scheme \<Rightarrow> (u64, 'z kmach_scheme) kres" where
  "uvmcreate s =
    kbind (kalloc s) (\<lambda>pagetable s.
      if pagetable = 0 then Ok 0 s else Ok pagetable (memset_page_k pagetable 0 s))"

section \<open>Unmapping and freeing\<close>

lemma walk_Ok_below: "walk pt a al s = Ok p t \<Longrightarrow> a < MAXVA"
  by (auto simp: walk_def split: if_splits)

text \<open>
  The loop over \<open>[va, va + npages*PGSIZE)\<close> ends because \<open>walk\<close> only returns below \<open>MAXVA\<close>.
\<close>

lemma step_below_MAXVA:
  assumes "a < MAXVA" "a < stop"
  shows "unat stop - unat (a + PGSIZE) < unat stop - unat a"
proof -
  have "unat (a + PGSIZE) = unat a + 4096"
    using assms(1) by (simp add: PGSIZE_def MAXVA_def unat_word_ariths word_less_nat_alt)
  with assms(2) show ?thesis by (simp add: word_less_nat_alt)
qed

lemma walk_step:
  "walk pt a al s = Ok p t \<Longrightarrow> a < stop \<Longrightarrow> unat stop - unat (a + PGSIZE) < unat stop - unat a"
  by (rule step_below_MAXVA) (auto dest: walk_Ok_below)

function uvmunmap_loop :: "u64 \<Rightarrow> u64 \<Rightarrow> u64 \<Rightarrow> bool \<Rightarrow> 'z kmach_scheme \<Rightarrow> (unit, 'z kmach_scheme) kres" where
  "uvmunmap_loop pagetable a stop do_free s =
    (if a < stop then
       kbind (walk pagetable a False s) (\<lambda>pte s.
         if pte = 0 then uvmunmap_loop pagetable (a + PGSIZE) stop do_free s
         else if pte_at s pte AND PTE_V = 0 then uvmunmap_loop pagetable (a + PGSIZE) stop do_free s
         else
           kbind (if do_free then kfree (PTE2PA (pte_at s pte)) s else Ok () s) (\<lambda>_ s.
           let s = set_pte pte 0 s
           in uvmunmap_loop pagetable (a + PGSIZE) stop do_free s))
     else Ok () s)"
  by pat_completeness auto
termination
  by (relation "measure (\<lambda>(pt, a, stop, d, s). unat stop - unat a)")
     (auto intro: walk_step)

declare uvmunmap_loop.simps [simp del]

definition uvmunmap :: "u64 \<Rightarrow> u64 \<Rightarrow> u64 \<Rightarrow> bool \<Rightarrow> 'z kmach_scheme \<Rightarrow> (unit, 'z kmach_scheme) kres" where
  "uvmunmap pagetable va npages do_free s =
    (if va mod PGSIZE \<noteq> 0 then Panic ''uvmunmap: not aligned''
     else uvmunmap_loop pagetable va (va + npages * PGSIZE) do_free s)"

definition uvmdealloc :: "u64 \<Rightarrow> u64 \<Rightarrow> u64 \<Rightarrow> 'z kmach_scheme \<Rightarrow> (u64, 'z kmach_scheme) kres" where
  "uvmdealloc pagetable oldsz newsz s =
    (if oldsz \<le> newsz then Ok oldsz s
     else if PGROUNDUP newsz < PGROUNDUP oldsz then
       (let npages = scast (ucast ((PGROUNDUP oldsz - PGROUNDUP newsz) div PGSIZE) :: u32)
        in kbind (uvmunmap pagetable (PGROUNDUP newsz) npages True s) (\<lambda>_ s. Ok newsz s))
     else Ok newsz s)"

text \<open>
  \<open>freewalk\<close> recurses into the tables a table points to. \<open>lev\<close> bounds the depth of the
  recursion; a table of the three-level scheme is freed with depth 3.
\<close>

fun freewalk_entries ::
  "(u64 \<Rightarrow> 'z kmach_scheme \<Rightarrow> (unit, 'z kmach_scheme) kres) \<Rightarrow> u64 \<Rightarrow> nat list \<Rightarrow>
    'z kmach_scheme \<Rightarrow> (unit, 'z kmach_scheme) kres" where
  "freewalk_entries rec pagetable [] s = Ok () s"
| "freewalk_entries rec pagetable (i # is) s =
    (let pte = pte_at s (pte_addr pagetable (of_nat i)) in
     if pte AND PTE_V \<noteq> 0 \<and> pte AND (PTE_R OR PTE_W OR PTE_X) = 0 then
       kbind (rec (PTE2PA pte) s) (\<lambda>_ s.
         freewalk_entries rec pagetable is (set_pte (pte_addr pagetable (of_nat i)) 0 s))
     else if pte AND PTE_V \<noteq> 0 then Panic ''freewalk: leaf''
     else freewalk_entries rec pagetable is s)"

fun freewalk :: "nat \<Rightarrow> u64 \<Rightarrow> 'z kmach_scheme \<Rightarrow> (unit, 'z kmach_scheme) kres" where
  "freewalk 0 pagetable s = Panic ''freewalk: depth''"
| "freewalk (Suc lev) pagetable s =
    kbind (freewalk_entries (freewalk lev) pagetable [0..<512] s) (\<lambda>_ s. kfree pagetable s)"

definition uvmfree :: "u64 \<Rightarrow> u64 \<Rightarrow> 'z kmach_scheme \<Rightarrow> (unit, 'z kmach_scheme) kres" where
  "uvmfree pagetable sz s =
    kbind (if 0 < sz then uvmunmap pagetable 0 (PGROUNDUP sz div PGSIZE) True s else Ok () s)
      (\<lambda>_ s. freewalk 3 pagetable s)"

section \<open>Growing and copying\<close>

lemma mappages_Ok_below: "mappages pt a PGSIZE pa perm s = Ok r t \<Longrightarrow> a < MAXVA"
proof -
  assume m: "mappages pt a PGSIZE pa perm s = Ok r t"
  have "unat (PGSIZE div PGSIZE) = Suc 0" by (simp add: PGSIZE_def)
  with m show ?thesis
    by (auto simp: mappages_def kbind_eq_Ok split: if_splits dest: walk_Ok_below)
qed

lemma mappages_step:
  "mappages pt a PGSIZE pa perm s = Ok r t \<Longrightarrow> a < stop \<Longrightarrow>
    unat stop - unat (a + PGSIZE) < unat stop - unat a"
  by (rule step_below_MAXVA) (auto dest: mappages_Ok_below)

function uvmalloc_loop ::
  "u64 \<Rightarrow> u64 \<Rightarrow> u64 \<Rightarrow> u64 \<Rightarrow> u64 \<Rightarrow> 'z kmach_scheme \<Rightarrow> (u64, 'z kmach_scheme) kres" where
  "uvmalloc_loop pagetable oldsz a newsz xperm s =
    (if a < newsz then
       kbind (kalloc s) (\<lambda>mem s.
         if mem = 0 then kbind (uvmdealloc pagetable a oldsz s) (\<lambda>_ s. Ok 0 s)
         else
           let s = memset_page_k mem 0 s
           in kbind (mappages pagetable a PGSIZE mem (PTE_R OR PTE_U OR xperm) s) (\<lambda>r s.
                if r \<noteq> 0 then
                  kbind (kfree mem s) (\<lambda>_ s.
                  kbind (uvmdealloc pagetable a oldsz s) (\<lambda>_ s. Ok 0 s))
                else uvmalloc_loop pagetable oldsz (a + PGSIZE) newsz xperm s))
     else Ok newsz s)"
  by pat_completeness auto
termination
  by (relation "measure (\<lambda>(pt, oldsz, a, newsz, x, s). unat newsz - unat a)")
     (auto intro: mappages_step)

declare uvmalloc_loop.simps [simp del]

definition uvmalloc ::
  "u64 \<Rightarrow> u64 \<Rightarrow> u64 \<Rightarrow> u64 \<Rightarrow> 'z kmach_scheme \<Rightarrow> (u64, 'z kmach_scheme) kres" where
  "uvmalloc pagetable oldsz newsz xperm s =
    (if newsz < oldsz then Ok oldsz s
     else let oldsz = PGROUNDUP oldsz in uvmalloc_loop pagetable oldsz oldsz newsz xperm s)"

definition uvmcopy_err :: "u64 \<Rightarrow> u64 \<Rightarrow> 'z kmach_scheme \<Rightarrow> (int, 'z kmach_scheme) kres" where
  "uvmcopy_err new i s = kbind (uvmunmap new 0 (i div PGSIZE) True s) (\<lambda>_ s. Ok (-1) s)"

function uvmcopy_loop :: "u64 \<Rightarrow> u64 \<Rightarrow> u64 \<Rightarrow> u64 \<Rightarrow> 'z kmach_scheme \<Rightarrow> (int, 'z kmach_scheme) kres" where
  "uvmcopy_loop old new i sz s =
    (if i < sz then
       kbind (walk old i False s) (\<lambda>pte s.
         if pte = 0 then uvmcopy_loop old new (i + PGSIZE) sz s
         else if pte_at s pte AND PTE_V = 0 then uvmcopy_loop old new (i + PGSIZE) sz s
         else
           let pa = PTE2PA (pte_at s pte); flags = PTE_FLAGS (pte_at s pte)
           in kbind (kalloc s) (\<lambda>mem s.
              if mem = 0 then uvmcopy_err new i s
              else
                let s = s\<lparr>pmem := memmove (pmem s) mem pa 4096\<rparr>
                in kbind (mappages new i PGSIZE mem flags s) (\<lambda>r s.
                   if r \<noteq> 0 then kbind (kfree mem s) (\<lambda>_ s. uvmcopy_err new i s)
                   else uvmcopy_loop old new (i + PGSIZE) sz s)))
     else Ok 0 s)"
  by pat_completeness auto
termination
  by (relation "measure (\<lambda>(old, new, i, sz, s). unat sz - unat i)")
     (auto intro: walk_step mappages_step)

declare uvmcopy_loop.simps [simp del]

definition uvmcopy :: "u64 \<Rightarrow> u64 \<Rightarrow> u64 \<Rightarrow> 'z kmach_scheme \<Rightarrow> (int, 'z kmach_scheme) kres" where
  "uvmcopy old new sz s = uvmcopy_loop old new 0 sz s"

definition uvmclear :: "u64 \<Rightarrow> u64 \<Rightarrow> 'z kmach_scheme \<Rightarrow> (unit, 'z kmach_scheme) kres" where
  "uvmclear pagetable va s =
    kbind (walk pagetable va False s) (\<lambda>pte s.
      if pte = 0 then Panic ''uvmclear''
      else Ok () (set_pte pte (pte_at s pte AND NOT PTE_U) s))"

end
