(* ===== verification/Ptable.thy ===== *)
theory Ptable
  imports Vm
begin

text \<open>
  The page-table trees that \<^verbatim>\<open>kernel/vm.c\<close> builds.

  \<open>pset l m pt\<close> is the set of pages that make up the table of level \<open>l\<close> at \<open>pt\<close>; \<open>pt_wf\<close> says
  that it is a tree: the tables below different entries share no page. \<open>leaf_table\<close> follows a
  virtual address to its level-0 table and \<open>leaf_pte\<close> to its entry (0 when a table on the way is
  missing). On such trees, storing one leaf entry changes the translation of exactly one
  virtual page, and \<open>walk\<close> with allocation grows the tree by free pages and changes no
  translation at all.
\<close>

section \<open>Entries of one table\<close>

definition page_frame :: "u64 \<Rightarrow> bool" where
  "page_frame p \<longleftrightarrow> p mod PGSIZE = 0 \<and> p < PHYSTOP \<and> p \<noteq> 0"

definition entry :: "mem \<Rightarrow> u64 \<Rightarrow> nat \<Rightarrow> u64" where
  "entry m pt i = read64 m (pte_addr pt (of_nat i))"

definition present :: "u64 \<Rightarrow> bool" where
  "present e \<longleftrightarrow> e AND PTE_V \<noteq> 0"

definition px :: "nat \<Rightarrow> u64 \<Rightarrow> nat" where
  "px l va = unat (PX l va)"

lemma px_lt [simp]: "px l va < 512"
proof -
  have "PX l va \<le> 0x1FF" unfolding PX_def by (rule word_and_le1)
  then show ?thesis by (simp add: px_def word_le_nat_alt)
qed

lemma of_nat_px [simp]: "of_nat (px l va) = PX l va"
  by (simp add: px_def)

lemma page_ok_frame: "page_ok s p \<Longrightarrow> page_frame p"
  by (simp add: page_ok_def page_frame_def)

lemma page_frame_disjoint:
  "page_frame p \<Longrightarrow> page_frame q \<Longrightarrow> in_page p b \<Longrightarrow> in_page q b \<Longrightarrow> p = q"
  using page_disjoint by (auto simp: page_frame_def)

lemma page_frame_range:
  "page_frame p \<Longrightarrow> in_page p b \<longleftrightarrow> unat p \<le> unat b \<and> unat b < unat p + 4096"
  unfolding in_page_def by (intro in_range_iff less_imp_le) (rule unat_page, simp add: page_frame_def)

lemma unat_pte_addr:
  assumes "page_frame pt" "i < 512"
  shows "unat (pte_addr pt (of_nat i)) = unat pt + 8 * i"
proof -
  have b: "unat pt + 4096 < 2 ^ 64"
    using assms(1) by (intro unat_page) (simp add: page_frame_def)
  have "unat (8 * of_nat i :: u64) = 8 * i"
    using assms(2) by (simp add: unat_word_ariths unat_of_nat)
  then show ?thesis using b assms(2) by (simp add: pte_addr_def unat_word_ariths)
qed

lemma pte_range:
  assumes "page_frame pt" "i < 512"
  shows "in_range (pte_addr pt (of_nat i)) 8 b \<longleftrightarrow>
    unat pt + 8 * i \<le> unat b \<and> unat b < unat pt + 8 * i + 8"
proof -
  have "unat pt + 4096 < 2 ^ 64"
    using assms(1) by (intro unat_page) (simp add: page_frame_def)
  then have "unat (pte_addr pt (of_nat i)) + 8 \<le> 2 ^ 64"
    using assms by (simp add: unat_pte_addr)
  then show ?thesis using assms by (simp add: in_range_iff unat_pte_addr)
qed

lemma pte_in_page:
  "page_frame pt \<Longrightarrow> i < 512 \<Longrightarrow> in_range (pte_addr pt (of_nat i)) 8 b \<Longrightarrow> in_page pt b"
  by (simp add: pte_range page_frame_range)

lemma entry_frame:
  assumes "page_frame pt" "i < 512" "\<And>b. in_page pt b \<Longrightarrow> m' b = m b"
  shows "entry m' pt i = entry m pt i"
  unfolding entry_def by (rule read64_cong) (use assms pte_in_page in blast)

lemma entry_write:
  assumes "page_frame pt" "i < 512" "j < 512"
  shows "entry (write64 m (pte_addr pt (of_nat i)) v) pt j = (if i = j then v else entry m pt j)"
proof (cases "i = j")
  case False
  have "entry (write64 m (pte_addr pt (of_nat i)) v) pt j = entry m pt j"
    unfolding entry_def
  proof (rule read64_cong)
    fix b assume "in_range (pte_addr pt (word_of_nat j)) 8 b"
    then have "\<not> in_range (pte_addr pt (of_nat i)) 8 b"
      using False assms by (auto simp: pte_range)
    then show "write64 m (pte_addr pt (of_nat i)) v b = m b"
      by (simp add: write64_def)
  qed
  with False show ?thesis by simp
qed (simp add: entry_def)

lemma write_pte_outside:
  "page_frame pt \<Longrightarrow> i < 512 \<Longrightarrow> \<not> in_page pt b \<Longrightarrow>
    write64 m (pte_addr pt (of_nat i)) v b = m b"
  using pte_in_page by (auto simp: write64_def)

lemma entry_zero_page:
  assumes "page_frame pt" "i < 512" "\<And>b. in_page pt b \<Longrightarrow> m b = 0"
  shows "entry m pt i = 0"
  unfolding entry_def by (rule read64_zero) (use assms pte_in_page in blast)

lemma not_present_0 [simp]: "\<not> present 0"
  by (simp add: present_def)

section \<open>Trees\<close>

fun pset :: "nat \<Rightarrow> mem \<Rightarrow> u64 \<Rightarrow> u64 set" where
  "pset 0 m pt = {pt}"
| "pset (Suc l) m pt =
    insert pt (\<Union>i\<in>{i. i < 512 \<and> present (entry m pt i)}. pset l m (PTE2PA (entry m pt i)))"

fun pt_wf :: "nat \<Rightarrow> mem \<Rightarrow> u64 \<Rightarrow> bool" where
  "pt_wf 0 m pt \<longleftrightarrow> page_frame pt"
| "pt_wf (Suc l) m pt \<longleftrightarrow> page_frame pt \<and>
    (\<forall>i<512. present (entry m pt i) \<longrightarrow>
      pt_wf l m (PTE2PA (entry m pt i)) \<and> pt \<notin> pset l m (PTE2PA (entry m pt i))) \<and>
    (\<forall>i<512. \<forall>j<512. i \<noteq> j \<longrightarrow> present (entry m pt i) \<longrightarrow> present (entry m pt j) \<longrightarrow>
      pset l m (PTE2PA (entry m pt i)) \<inter> pset l m (PTE2PA (entry m pt j)) = {})"

fun leaf_table :: "nat \<Rightarrow> mem \<Rightarrow> u64 \<Rightarrow> u64 \<Rightarrow> u64 option" where
  "leaf_table 0 m pt va = Some pt"
| "leaf_table (Suc l) m pt va =
    (if present (entry m pt (px (Suc l) va))
     then leaf_table l m (PTE2PA (entry m pt (px (Suc l) va))) va else None)"

definition leaf_pte :: "nat \<Rightarrow> mem \<Rightarrow> u64 \<Rightarrow> u64 \<Rightarrow> u64" where
  "leaf_pte l m pt va =
    (case leaf_table l m pt va of None \<Rightarrow> 0 | Some q \<Rightarrow> entry m q (px 0 va))"

lemma leaf_pte_Suc:
  "leaf_pte (Suc l) m pt va =
    (if present (entry m pt (px (Suc l) va))
     then leaf_pte l m (PTE2PA (entry m pt (px (Suc l) va))) va else 0)"
  by (simp add: leaf_pte_def)

lemma root_in_pset [simp]: "pt \<in> pset l m pt"
  by (cases l) simp_all

lemma pt_wf_frames: "pt_wf l m pt \<Longrightarrow> p \<in> pset l m pt \<Longrightarrow> page_frame p"
  by (induction l arbitrary: pt) auto

lemma pt_wf_root: "pt_wf l m pt \<Longrightarrow> page_frame pt"
  by (cases l) auto

lemma leaf_table_in: "leaf_table l m pt va = Some q \<Longrightarrow> q \<in> pset l m pt"
proof (induction l arbitrary: pt)
  case (Suc l)
  then have "present (entry m pt (px (Suc l) va))"
    and "q \<in> pset l m (PTE2PA (entry m pt (px (Suc l) va)))"
    by (auto split: if_splits)
  then show ?case using px_lt [of "Suc l" va] by auto
qed simp

text \<open>The tree depends only on the pages it is made of.\<close>

lemma pt_frame:
  assumes "pt_wf l m pt" "\<And>p b. p \<in> pset l m pt \<Longrightarrow> in_page p b \<Longrightarrow> m' b = m b"
  shows "pset l m' pt = pset l m pt \<and> pt_wf l m' pt \<and>
    (\<forall>va. leaf_table l m' pt va = leaf_table l m pt va)"
  using assms
proof (induction l arbitrary: pt)
  case 0
  then show ?case by simp
next
  case (Suc l)
  have e: "entry m' pt i = entry m pt i" if "i < 512" for i
    by (rule entry_frame) (use Suc.prems that in auto)
  have c: "pset l m' (PTE2PA (entry m pt i)) = pset l m (PTE2PA (entry m pt i)) \<and>
      pt_wf l m' (PTE2PA (entry m pt i)) \<and>
      (\<forall>va. leaf_table l m' (PTE2PA (entry m pt i)) va = leaf_table l m (PTE2PA (entry m pt i)) va)"
    if "i < 512" "present (entry m pt i)" for i
    by (rule Suc.IH) (use Suc.prems that in auto)
  have "pset (Suc l) m' pt = pset (Suc l) m pt"
    by (simp add: e c cong: conj_cong)
  moreover have "pt_wf (Suc l) m' pt"
    using Suc.prems(1) by (simp add: e c cong: conj_cong imp_cong)
  moreover have "leaf_table (Suc l) m' pt va = leaf_table (Suc l) m pt va" for va
    using c [of "px (Suc l) va"] by (simp add: e)
  ultimately show ?case by blast
qed

lemma leaf_pte_frame:
  assumes "pt_wf l m pt" "\<And>p b. p \<in> pset l m pt \<Longrightarrow> in_page p b \<Longrightarrow> m' b = m b"
  shows "leaf_pte l m' pt va = leaf_pte l m pt va"
proof -
  have "leaf_table l m' pt va = leaf_table l m pt va"
    using pt_frame [OF assms(1), of m'] assms(2) by blast
  moreover have "entry m' q (px 0 va) = entry m q (px 0 va)" if "leaf_table l m pt va = Some q" for q
    using assms leaf_table_in [OF that] by (intro entry_frame) (auto intro: pt_wf_frames)
  ultimately show ?thesis by (auto simp: leaf_pte_def split: option.splits)
qed

text \<open>Two addresses with the same level-0 table agree in all their upper indices.\<close>

lemma leaf_table_inj:
  assumes "pt_wf l m pt" "leaf_table l m pt va = Some q" "leaf_table l m pt va' = Some q"
  shows "\<forall>k. 1 \<le> k \<and> k \<le> l \<longrightarrow> px k va = px k va'"
  using assms
proof (induction l arbitrary: pt)
  case (Suc l)
  let ?i = "px (Suc l) va" and ?j = "px (Suc l) va'"
  from Suc.prems have p: "present (entry m pt ?i)" "present (entry m pt ?j)"
    and t: "leaf_table l m (PTE2PA (entry m pt ?i)) va = Some q"
      "leaf_table l m (PTE2PA (entry m pt ?j)) va' = Some q"
    by (auto split: if_splits)
  have ij: "?i = ?j"
  proof (rule ccontr)
    assume "?i \<noteq> ?j"
    with Suc.prems(1) p have "pset l m (PTE2PA (entry m pt ?i)) \<inter> pset l m (PTE2PA (entry m pt ?j)) = {}"
      by simp
    with leaf_table_in [OF t(1)] leaf_table_in [OF t(2)] show False by blast
  qed
  have "\<forall>k. 1 \<le> k \<and> k \<le> l \<longrightarrow> px k va = px k va'"
    using Suc.IH [of "PTE2PA (entry m pt ?i)"] Suc.prems(1) p t ij by simp
  with ij show ?case by (auto simp: le_Suc_eq)
qed auto

text \<open>A store into a level-0 table leaves the tree as it is.\<close>

lemma leaf_write_tree:
  assumes "pt_wf l m pt" "leaf_table l m pt va = Some q" "i < 512"
    and m': "m' = write64 m (pte_addr q (of_nat i)) v"
  shows "pset l m' pt = pset l m pt \<and> pt_wf l m' pt \<and>
    (\<forall>va'. leaf_table l m' pt va' = leaf_table l m pt va')"
  using assms(1,2)
proof (induction l arbitrary: pt)
  case 0
  then show ?case by simp
next
  case (Suc l)
  let ?j = "px (Suc l) va"
  from Suc.prems have pj: "present (entry m pt ?j)"
    and tj: "leaf_table l m (PTE2PA (entry m pt ?j)) va = Some q"
    by (auto split: if_splits)
  have q: "q \<in> pset l m (PTE2PA (entry m pt ?j))" by (rule leaf_table_in [OF tj])
  have "pt_wf l m (PTE2PA (entry m pt ?j))" using Suc.prems(1) pj by simp
  then have fq: "page_frame q" by (rule pt_wf_frames [OF _ q])
  have npt: "q \<noteq> pt" using Suc.prems(1) pj q by auto
  have out: "m' b = m b" if "\<not> in_page q b" for b
    unfolding m' by (rule write_pte_outside [OF fq assms(3) that])
  have e: "entry m' pt k = entry m pt k" if "k < 512" for k
    using Suc.prems(1) that npt fq page_frame_disjoint
    by (intro entry_frame out) auto
  have c: "pset l m' (PTE2PA (entry m pt k)) = pset l m (PTE2PA (entry m pt k)) \<and>
      pt_wf l m' (PTE2PA (entry m pt k)) \<and>
      (\<forall>va'. leaf_table l m' (PTE2PA (entry m pt k)) va' = leaf_table l m (PTE2PA (entry m pt k)) va')"
    if k: "k < 512" "present (entry m pt k)" for k
  proof (cases "k = ?j")
    case True
    show ?thesis unfolding True
      by (rule Suc.IH) (use Suc.prems(1) pj tj in auto)
  next
    case False
    have "pset l m (PTE2PA (entry m pt k)) \<inter> pset l m (PTE2PA (entry m pt ?j)) = {}"
      using Suc.prems(1) k pj False px_lt [of "Suc l" va] by simp
    then have nq: "q \<notin> pset l m (PTE2PA (entry m pt k))" using q by blast
    have w: "pt_wf l m (PTE2PA (entry m pt k))" using Suc.prems(1) k by simp
    show ?thesis
    proof (rule pt_frame [OF w], rule out)
      fix p b assume "p \<in> pset l m (PTE2PA (entry m pt k))" "in_page p b"
      with nq fq page_frame_disjoint [of p q b] pt_wf_frames [OF w] show "\<not> in_page q b" by blast
    qed
  qed
  have "pset (Suc l) m' pt = pset (Suc l) m pt"
    by (simp add: e c cong: conj_cong)
  moreover have "pt_wf (Suc l) m' pt"
    using Suc.prems(1) by (simp add: e c cong: conj_cong imp_cong)
  moreover have "leaf_table (Suc l) m' pt va' = leaf_table (Suc l) m pt va'" for va'
    using c [of "px (Suc l) va'"] by (simp add: e)
  ultimately show ?case by blast
qed

text \<open>... and changes the entry of exactly the addresses that share all indices.\<close>

definition same_page :: "nat \<Rightarrow> u64 \<Rightarrow> u64 \<Rightarrow> bool" where
  "same_page l va va' \<longleftrightarrow> (\<forall>k\<le>l. px k va = px k va')"

lemma leaf_table_same: "same_page l va va' \<Longrightarrow> leaf_table l m pt va = leaf_table l m pt va'"
proof (induction l arbitrary: pt)
  case (Suc l)
  then have "same_page l va va'" "px (Suc l) va = px (Suc l) va'" by (auto simp: same_page_def)
  with Suc.IH show ?case by simp
qed simp

lemma leaf_write_pte:
  assumes "pt_wf l m pt" "leaf_table l m pt va = Some q"
    and m': "m' = write64 m (pte_addr q (PX 0 va)) v"
  shows "leaf_pte l m' pt va' = (if same_page l va va' then v else leaf_pte l m pt va')"
proof -
  have m2: "m' = write64 m (pte_addr q (of_nat (px 0 va))) v" by (simp add: m')
  have tree: "leaf_table l m' pt va' = leaf_table l m pt va'"
    using leaf_write_tree [OF assms(1,2) px_lt m2] by blast
  have fq: "page_frame q" by (rule pt_wf_frames [OF assms(1) leaf_table_in [OF assms(2)]])
  show ?thesis
  proof (cases "leaf_table l m pt va'")
    case None
    then have "\<not> same_page l va va'" using leaf_table_same [of l va va' m pt] assms(2) by auto
    then show ?thesis using tree None by (simp add: leaf_pte_def)
  next
    case (Some r)
    have fr: "page_frame r" by (rule pt_wf_frames [OF assms(1) leaf_table_in [OF Some]])
    show ?thesis
    proof (cases "r = q")
      case True
      have "same_page l va va' \<longleftrightarrow> px 0 va = px 0 va'"
        using leaf_table_inj [OF assms(1,2)] Some True unfolding same_page_def
        by (metis One_nat_def Suc_leI le0 neq0_conv)
      moreover have "entry m' q (px 0 va') = (if px 0 va = px 0 va' then v else entry m q (px 0 va'))"
        unfolding m2 by (rule entry_write [OF fq]) simp_all
      ultimately show ?thesis using tree Some True by (simp add: leaf_pte_def)
    next
      case False
      then have "\<not> same_page l va va'"
        using leaf_table_same [of l va va' m pt] assms(2) Some by auto
      moreover have "entry m' r (px 0 va') = entry m r (px 0 va')"
        unfolding m2 using fq fr False page_frame_disjoint
        by (intro entry_frame write_pte_outside) auto
      ultimately show ?thesis using tree Some by (simp add: leaf_pte_def)
    qed
  qed
qed

section \<open>Growing a tree\<close>

text \<open>An entry made by \<open>PA2PTE(pa) | flags\<close> leads back to \<open>pa\<close>.\<close>

lemma PTE2PA_make:
  assumes "page_frame pa" "f < 1024"
  shows "PTE2PA (PA2PTE pa OR f) = pa"
proof -
  have f: "f = take_bit 10 f"
    using assms(2) by (simp add: word_unat_eq_iff unsigned_take_bit_eq take_bit_nat_eq_self word_less_nat_alt)
  have al: "take_bit 12 pa = 0"
    using assms(1) by (simp add: page_frame_def PGSIZE_def take_bit_eq_mod)
  have u: "unat pa < 2 ^ 54"
    using assms(1) by (simp add: page_frame_def PHYSTOP_def KERNBASE_def word_less_nat_alt)
  then have hi: "take_bit 54 pa = pa"
    by (simp add: word_unat_eq_iff unsigned_take_bit_eq take_bit_nat_eq_self)
  show ?thesis
  proof (rule bit_word_eqI)
    fix n assume n: "n < LENGTH(64)"
    have 1: "bit pa n = (bit pa n \<and> n < 54)"
      using bit_take_bit_iff [of 54 pa n] by (auto simp: hi)
    have 2: "\<not> bit pa n" if "n < 12"
    proof -
      have "bit (take_bit 12 pa) n = bit pa n" using that by (simp add: bit_take_bit_iff)
      then show ?thesis using al by simp
    qed
    have 3: "\<not> bit f k" if "10 \<le> k" for k
      by (subst f) (use that in \<open>simp add: bit_take_bit_iff\<close>)
    show "bit (PTE2PA (PA2PTE pa OR f)) n = bit pa n"
      using n 1 2 3
      by (cases "n < 12") (auto simp: PTE2PA_def PA2PTE_def bit_push_bit_iff bit_drop_bit_eq bit_or_iff)
  qed
qed

lemma present_make [simp]: "present (e OR PTE_V)"
proof -
  have "bit ((e OR PTE_V) AND PTE_V) 0" by (simp add: PTE_V_def bit_simps)
  then show ?thesis unfolding present_def by (metis bit_0_eq bot_apply bot_bool_def)
qed

text \<open>
  \<open>grows l pt ps s t qs\<close>: from \<open>s\<close> with free pages \<open>ps\<close> to \<open>t\<close> with free pages \<open>qs\<close>, the tree
  at \<open>pt\<close> took pages from the free list, kept every translation, and nothing else changed.
\<close>

definition tree_ok :: "nat \<Rightarrow> u64 \<Rightarrow> 'z kmach_scheme \<Rightarrow> u64 list \<Rightarrow> bool" where
  "tree_ok l pt s ps \<longleftrightarrow> kmem_inv s ps \<and> pt_wf l (pmem s) pt \<and> pset l (pmem s) pt \<inter> set ps = {}"

definition grows :: "nat \<Rightarrow> u64 \<Rightarrow> u64 list \<Rightarrow> 'z kmach_scheme \<Rightarrow> 'z kmach_scheme \<Rightarrow> u64 list \<Rightarrow> bool" where
  "grows l pt ps s t qs \<longleftrightarrow>
    tree_ok l pt t qs \<and> set qs \<subseteq> set ps \<and>
    pset l (pmem s) pt \<subseteq> pset l (pmem t) pt \<and>
    pset l (pmem t) pt \<subseteq> pset l (pmem s) pt \<union> (set ps - set qs) \<and>
    (\<forall>va. leaf_pte l (pmem t) pt va = leaf_pte l (pmem s) pt va) \<and>
    (\<forall>b. (\<forall>p\<in>pset l (pmem s) pt \<union> set ps. \<not> in_page p b) \<longrightarrow> pmem t b = pmem s b) \<and>
    held t = held s \<and> kend t = kend s \<and> kmach.more t = kmach.more s"

lemma grows_refl: "tree_ok l pt s ps \<Longrightarrow> grows l pt ps s s ps"
  by (simp add: grows_def)

lemma grows_trans:
  assumes "grows l pt ps s t qs" "grows l pt qs t u rs"
  shows "grows l pt ps s u rs"
proof -
  have "pmem u b = pmem s b" if "\<forall>p\<in>pset l (pmem s) pt \<union> set ps. \<not> in_page p b" for b
  proof -
    have "\<forall>p\<in>pset l (pmem t) pt \<union> set qs. \<not> in_page p b"
      using that assms(1) unfolding grows_def by blast
    then have "pmem u b = pmem t b" using assms(2) by (simp add: grows_def)
    moreover have "pmem t b = pmem s b" using that assms(1) by (simp add: grows_def)
    ultimately show ?thesis by simp
  qed
  moreover have s: "set rs \<subseteq> set qs" "set qs \<subseteq> set ps"
    and p: "pset l (pmem s) pt \<subseteq> pset l (pmem t) pt" "pset l (pmem t) pt \<subseteq> pset l (pmem u) pt"
    and q: "pset l (pmem t) pt \<subseteq> pset l (pmem s) pt \<union> (set ps - set qs)"
      "pset l (pmem u) pt \<subseteq> pset l (pmem t) pt \<union> (set qs - set rs)"
    using assms by (simp_all add: grows_def)
  moreover have "set rs \<subseteq> set ps" using s by (rule subset_trans)
  moreover have "pset l (pmem s) pt \<subseteq> pset l (pmem u) pt" using p by (rule subset_trans)
  moreover have "pset l (pmem u) pt \<subseteq> pset l (pmem s) pt \<union> (set ps - set rs)"
  proof
    fix x assume "x \<in> pset l (pmem u) pt"
    then show "x \<in> pset l (pmem s) pt \<union> (set ps - set rs)" using q s by auto
  qed
  moreover have "tree_ok l pt u rs" "held u = held s \<and> kend u = kend s \<and> kmach.more u = kmach.more s"
    "\<forall>va. leaf_pte l (pmem u) pt va = leaf_pte l (pmem s) pt va"
    using assms by (simp_all add: grows_def)
  ultimately show ?thesis unfolding grows_def by blast
qed

text \<open>A subtree that grows makes its tree grow.\<close>

lemma grows_subtree:
  assumes ok: "tree_ok (Suc l) pt s ps" and i: "i < 512" and pr: "present (entry (pmem s) pt i)"
    and g: "grows l (PTE2PA (entry (pmem s) pt i)) ps s t qs"
  shows "grows (Suc l) pt ps s t qs" and "entry (pmem t) pt i = entry (pmem s) pt i"
proof -
  let ?m = "pmem s" and ?c = "PTE2PA (entry (pmem s) pt i)"
  have wf: "pt_wf (Suc l) ?m pt" and km: "kmem_inv s ps" and dj: "pset (Suc l) ?m pt \<inter> set ps = {}"
    using ok by (auto simp: tree_ok_def)
  have okf: "page_frame p" if "p \<in> set ps" for p
    using km that by (auto simp: kmem_inv_def intro: page_ok_frame)
  have wc: "pt_wf l ?m ?c" and ptc: "pt \<notin> pset l ?m ?c" using wf i pr by auto
  have fpt: "page_frame pt" using wf by simp
  have frame: "pmem t b = ?m b" if "\<forall>p\<in>pset l ?m ?c \<union> set ps. \<not> in_page p b" for b
    using g that by (simp add: grows_def)
  have ptps: "pt \<notin> set ps" using dj by auto
  have e: "entry (pmem t) pt k = entry ?m pt k" if "k < 512" for k
  proof (rule entry_frame [OF fpt that], rule frame, rule ballI, rule notI)
    fix b p assume b: "in_page pt b" "p \<in> pset l ?m ?c \<union> set ps" "in_page p b"
    then have "page_frame p" using okf pt_wf_frames [OF wc] by auto
    then have "p = pt" using page_frame_disjoint [OF fpt] b by blast
    with b(2) ptc ptps show False by auto
  qed
  show "entry (pmem t) pt i = entry ?m pt i" by (rule e [OF i])
  have sib: "pset l (pmem t) (PTE2PA (entry ?m pt k)) = pset l ?m (PTE2PA (entry ?m pt k)) \<and>
      pt_wf l (pmem t) (PTE2PA (entry ?m pt k)) \<and>
      (\<forall>va. leaf_pte l (pmem t) (PTE2PA (entry ?m pt k)) va = leaf_pte l ?m (PTE2PA (entry ?m pt k)) va)"
    if k: "k < 512" "present (entry ?m pt k)" "k \<noteq> i" for k
  proof -
    let ?d = "PTE2PA (entry ?m pt k)"
    have wd: "pt_wf l ?m ?d" using wf k by simp
    have dd: "pset l ?m ?d \<inter> pset l ?m ?c = {}" using wf k i pr by (simp add: Int_commute)
    have dp: "pset l ?m ?d \<inter> set ps = {}" using dj k by auto
    have out: "pmem t b = ?m b" if pb: "p \<in> pset l ?m ?d" "in_page p b" for p b
    proof (rule frame, rule ballI, rule notI)
      fix q assume q: "q \<in> pset l ?m ?c \<union> set ps" "in_page q b"
      have "page_frame q" using q(1) okf pt_wf_frames [OF wc] by auto
      then have "p = q" using page_frame_disjoint pt_wf_frames [OF wd pb(1)] pb(2) q(2) by blast
      with pb(1) q(1) dd dp show False by auto
    qed
    have "\<forall>va. leaf_pte l (pmem t) ?d va = leaf_pte l ?m ?d va"
      using leaf_pte_frame [OF wd] out by blast
    with pt_frame [OF wd, of "pmem t"] out show ?thesis by blast
  qed
  have cw: "pt_wf l (pmem t) ?c" and cs: "pset l ?m ?c \<subseteq> pset l (pmem t) ?c"
    "pset l (pmem t) ?c \<subseteq> pset l ?m ?c \<union> (set ps - set qs)"
    and cl: "\<forall>va. leaf_pte l (pmem t) ?c va = leaf_pte l ?m ?c va"
    and qs: "kmem_inv t qs" "set qs \<subseteq> set ps" "pset l (pmem t) ?c \<inter> set qs = {}"
    and rest: "held t = held s" "kend t = kend s" "kmach.more t = kmach.more s"
    using g by (simp_all add: grows_def tree_ok_def)
  have child: "pset l (pmem t) (PTE2PA (entry ?m pt k)) =
      (if k = i then pset l (pmem t) ?c else pset l ?m (PTE2PA (entry ?m pt k)))"
    if "k < 512" "present (entry ?m pt k)" for k
    using sib [OF that] by auto
  have ps': "pset (Suc l) (pmem t) pt =
      insert pt (\<Union>k\<in>{k. k < 512 \<and> present (entry ?m pt k)}.
        if k = i then pset l (pmem t) ?c else pset l ?m (PTE2PA (entry ?m pt k)))"
    by (simp add: e child cong: conj_cong)
  have sub: "pset (Suc l) ?m pt \<subseteq> pset (Suc l) (pmem t) pt"
    unfolding ps' using cs(1) by auto
  have sup: "pset (Suc l) (pmem t) pt \<subseteq> pset (Suc l) ?m pt \<union> (set ps - set qs)"
    unfolding ps' using cs(2) i pr by (auto split: if_splits)
  have w: "pt_wf (Suc l) (pmem t) pt"
    unfolding pt_wf.simps
  proof (intro conjI allI impI)
    show "page_frame pt" by (rule fpt)
  next
    fix k assume k: "k < 512" "present (entry (pmem t) pt k)"
    show "pt_wf l (pmem t) (PTE2PA (entry (pmem t) pt k))"
      using k sib [of k] cw by (cases "k = i") (simp_all add: e)
    show "pt \<notin> pset l (pmem t) (PTE2PA (entry (pmem t) pt k))"
    proof (cases "k = i")
      case True
      then show ?thesis using k ptps cs(2) ptc by (simp add: e) blast
    next
      case False
      then show ?thesis using k wf by (simp add: e child)
    qed
  next
    fix j k assume jk: "j < 512" "k < 512" "j \<noteq> k"
      "present (entry (pmem t) pt j)" "present (entry (pmem t) pt k)"
    have o: "pset l ?m (PTE2PA (entry ?m pt n)) \<inter> pset l (pmem t) ?c = {}"
      if "n < 512" "present (entry ?m pt n)" "n \<noteq> i" for n
    proof -
      have "pset l ?m (PTE2PA (entry ?m pt n)) \<inter> pset l ?m ?c = {}" using wf that i pr by simp
      moreover have "pset l ?m (PTE2PA (entry ?m pt n)) \<inter> set ps = {}" using dj that by auto
      ultimately show ?thesis using cs(2) by blast
    qed
    show "pset l (pmem t) (PTE2PA (entry (pmem t) pt j)) \<inter> pset l (pmem t) (PTE2PA (entry (pmem t) pt k)) = {}"
      using jk o [of j] o [of k] wf by (auto simp: e child)
  qed
  have lf: "leaf_pte (Suc l) (pmem t) pt va = leaf_pte (Suc l) ?m pt va" for va
    using sib [of "px (Suc l) va"] cl by (cases "px (Suc l) va = i") (auto simp: leaf_pte_Suc e)
  have fr: "pmem t b = ?m b" if "\<forall>p\<in>pset (Suc l) ?m pt \<union> set ps. \<not> in_page p b" for b
  proof (rule frame)
    show "\<forall>p\<in>pset l ?m ?c \<union> set ps. \<not> in_page p b" using that i pr by auto
  qed
  have "pset (Suc l) (pmem t) pt \<inter> set qs = {}" using sup dj qs(2) by blast
  with w qs sub sup lf fr rest show "grows (Suc l) pt ps s t qs"
    unfolding grows_def tree_ok_def by blast
qed

end
