(* ===== verification/Walk.thy ===== *)
theory Walk
  imports Ptable
begin

text \<open>
  \<open>walk\<close>, \<open>mappages\<close>, \<open>walkaddr\<close> and \<open>uvmunmap\<close> of \<^verbatim>\<open>kernel/vm.c\<close> on page-table trees: what they
  return, which translations they change, and which memory they touch.
\<close>

section \<open>A new table\<close>

lemma zero_tree:
  assumes "page_frame p" "\<And>b. in_page p b \<Longrightarrow> m b = 0"
  shows "pset l m p = {p}" and "pt_wf l m p" and "leaf_pte l m p va = 0"
proof -
  have e: "entry m p i = 0" if "i < 512" for i by (rule entry_zero_page [OF assms(1) that assms(2)])
  show "pset l m p = {p}" by (cases l) (auto simp: e cong: conj_cong)
  show "pt_wf l m p" by (cases l) (auto simp: e assms(1) cong: conj_cong)
  show "leaf_pte l m p va = 0" by (cases l) (simp_all add: leaf_pte_def e)
qed

text \<open>What \<open>walk\<close> does to a missing entry: a zeroed page from the free list becomes its table.\<close>

lemma grows_new_child:
  assumes ok: "tree_ok (Suc l) pt s (p # qs)" and i: "i < 512" and np: "\<not> present (entry (pmem s) pt i)"
    and t: "kmem_inv t qs" "held t = held s" "kend t = kend s" "kmach.more t = kmach.more s"
    and m: "\<And>b. \<not> in_page p b \<Longrightarrow> pmem u b = write64 (pmem s) (pte_addr pt (of_nat i)) (PA2PTE p OR PTE_V) b"
    and z: "\<And>b. in_page p b \<Longrightarrow> pmem u b = 0"
    and u: "kmem_inv u qs" "held u = held s" "kend u = kend s" "kmach.more u = kmach.more s"
  shows "grows (Suc l) pt (p # qs) s u qs" and "entry (pmem u) pt i = PA2PTE p OR PTE_V"
proof -
  let ?m = "pmem s" and ?m' = "pmem u" and ?e = "PA2PTE p OR PTE_V"
  have wf: "pt_wf (Suc l) ?m pt" and dj: "pset (Suc l) ?m pt \<inter> set (p # qs) = {}"
    and km: "kmem_inv s (p # qs)"
    using ok by (auto simp: tree_ok_def)
  have fpt: "page_frame pt" using wf by simp
  have fp: "page_frame p" using km by (auto simp: kmem_inv_def intro: page_ok_frame)
  have pq: "p \<notin> set qs" using km by (simp add: kmem_inv_def)
  have ptp: "pt \<noteq> p" and ptq: "pt \<notin> set qs" using dj by auto
  have ptm: "?m' b = write64 ?m (pte_addr pt (of_nat i)) ?e b" if "in_page pt b" for b
    using m page_frame_disjoint [OF fpt fp that] ptp by blast
  have e: "entry ?m' pt k = (if k = i then ?e else entry ?m pt k)" if "k < 512" for k
  proof -
    have "entry ?m' pt k = entry (write64 ?m (pte_addr pt (of_nat i)) ?e) pt k"
      by (rule entry_frame [OF fpt that ptm])
    then show ?thesis using entry_write [OF fpt i that] by auto
  qed
  show "entry ?m' pt i = ?e" by (simp add: e i)
  have c: "PTE2PA ?e = p" by (rule PTE2PA_make [OF fp]) (simp add: PTE_V_def)
  have zt: "pset l ?m' p = {p}" "pt_wf l ?m' p" "leaf_pte l ?m' p va = 0" for va
    by (rule zero_tree [OF fp z], assumption)+
  have sib: "pset l ?m' (PTE2PA (entry ?m pt k)) = pset l ?m (PTE2PA (entry ?m pt k)) \<and>
      pt_wf l ?m' (PTE2PA (entry ?m pt k)) \<and>
      (\<forall>va. leaf_pte l ?m' (PTE2PA (entry ?m pt k)) va = leaf_pte l ?m (PTE2PA (entry ?m pt k)) va)"
    if k: "k < 512" "present (entry ?m pt k)" for k
  proof -
    let ?d = "PTE2PA (entry ?m pt k)"
    have wd: "pt_wf l ?m ?d" and ptd: "pt \<notin> pset l ?m ?d" using wf k by auto
    have pd: "p \<notin> pset l ?m ?d" using dj k by auto
    have out: "?m' b = ?m b" if pb: "q \<in> pset l ?m ?d" "in_page q b" for q b
    proof -
      have fq: "page_frame q" by (rule pt_wf_frames [OF wd pb(1)])
      have "\<not> in_page p b" using page_frame_disjoint [OF fq fp pb(2)] pb(1) pd by auto
      moreover have "\<not> in_page pt b" using page_frame_disjoint [OF fq fpt pb(2)] pb(1) ptd by auto
      ultimately show ?thesis using m write_pte_outside [OF fpt i] by simp
    qed
    have "\<forall>va. leaf_pte l ?m' ?d va = leaf_pte l ?m ?d va"
      using leaf_pte_frame [OF wd] out by blast
    with pt_frame [OF wd, of ?m'] out show ?thesis by blast
  qed
  have ki: "present (entry ?m pt k) \<Longrightarrow> k \<noteq> i" for k using np by auto
  have new: "pset (Suc l) ?m' pt = insert p (pset (Suc l) ?m pt)"
  proof -
    have "(\<Union>k\<in>{k. k < 512 \<and> present (entry ?m' pt k)}. pset l ?m' (PTE2PA (entry ?m' pt k))) =
        insert p (\<Union>k\<in>{k. k < 512 \<and> present (entry ?m pt k)}. pset l ?m (PTE2PA (entry ?m pt k)))"
    proof (rule set_eqI, rule iffI)
      fix x assume "x \<in> (\<Union>k\<in>{k. k < 512 \<and> present (entry ?m' pt k)}. pset l ?m' (PTE2PA (entry ?m' pt k)))"
      then obtain k where "k < 512" "present (entry ?m' pt k)" "x \<in> pset l ?m' (PTE2PA (entry ?m' pt k))" by auto
      then show "x \<in> insert p (\<Union>k\<in>{k. k < 512 \<and> present (entry ?m pt k)}. pset l ?m (PTE2PA (entry ?m pt k)))"
        using sib [of k] c zt(1) by (cases "k = i") (auto simp: e)
    next
      fix x assume "x \<in> insert p (\<Union>k\<in>{k. k < 512 \<and> present (entry ?m pt k)}. pset l ?m (PTE2PA (entry ?m pt k)))"
      then consider "x = p" | k where "k < 512" "present (entry ?m pt k)" "x \<in> pset l ?m (PTE2PA (entry ?m pt k))"
        by auto
      then show "x \<in> (\<Union>k\<in>{k. k < 512 \<and> present (entry ?m' pt k)}. pset l ?m' (PTE2PA (entry ?m' pt k)))"
      proof cases
        case 1
        then show ?thesis using i c zt(1) by (intro UN_I [of i]) (simp_all add: e)
      next
        case 2
        then show ?thesis using sib [of k] ki by (intro UN_I [of k]) (auto simp: e)
      qed
    qed
    then show ?thesis by (simp only: pset.simps insert_commute)
  qed
  have w: "pt_wf (Suc l) ?m' pt"
    unfolding pt_wf.simps
  proof (intro conjI allI impI)
    show "page_frame pt" by (rule fpt)
  next
    fix k assume k: "k < 512" "present (entry ?m' pt k)"
    show "pt_wf l ?m' (PTE2PA (entry ?m' pt k))"
      using k sib [of k] c zt(2) by (cases "k = i") (auto simp: e)
    show "pt \<notin> pset l ?m' (PTE2PA (entry ?m' pt k))"
      using k sib [of k] c zt(1) ptp wf by (cases "k = i") (auto simp: e)
  next
    fix j k assume jk: "j < 512" "k < 512" "j \<noteq> k" "present (entry ?m' pt j)" "present (entry ?m' pt k)"
    have o: "p \<notin> pset l ?m (PTE2PA (entry ?m pt n))" if "n < 512" "present (entry ?m pt n)" for n
      using dj that by auto
    show "pset l ?m' (PTE2PA (entry ?m' pt j)) \<inter> pset l ?m' (PTE2PA (entry ?m' pt k)) = {}"
    proof (cases "j = i \<or> k = i")
      case True
      then show ?thesis using jk sib [of j] sib [of k] o [of j] o [of k] c zt(1) by (auto simp: e)
    next
      case False
      then show ?thesis using jk sib [of j] sib [of k] wf by (simp add: e)
    qed
  qed
  have lf: "leaf_pte (Suc l) ?m' pt va = leaf_pte (Suc l) ?m pt va" for va
    using sib [of "px (Suc l) va"] c zt(3) np by (cases "px (Suc l) va = i") (auto simp: leaf_pte_Suc e)
  have fr: "?m' b = ?m b" if o: "\<forall>q\<in>pset (Suc l) ?m pt \<union> set (p # qs). \<not> in_page q b" for b
    using o m write_pte_outside [OF fpt i] by auto
  have "pset (Suc l) ?m' pt \<inter> set qs = {}" using new dj pq by auto
  with u(1) w have ok': "tree_ok (Suc l) pt u qs" by (simp add: tree_ok_def)
  show "grows (Suc l) pt (p # qs) s u qs"
    unfolding grows_def
    using ok' lf fr u(2-4) new pq by (auto simp del: pset.simps)
qed

lemma pset_child:
  "i < 512 \<Longrightarrow> present (entry m pt i) \<Longrightarrow> pset l m (PTE2PA (entry m pt i)) \<subseteq> pset (Suc l) m pt"
  by auto

section \<open>walk\<close>

text \<open>The address of a PTE is never 0.\<close>

lemma pte_addr_nonzero: "page_frame pt \<Longrightarrow> pte_addr pt (PX l va) \<noteq> 0"
proof -
  assume f: "page_frame pt"
  then have "unat (pte_addr pt (PX l va)) = unat pt + 8 * px l va"
    using unat_pte_addr [OF f, of "px l va"] by simp
  moreover have "0 < unat pt" using f by (simp add: page_frame_def unat_gt_0)
  ultimately show ?thesis by auto
qed

lemma pte_at_entry: "pte_at s (pte_addr pt (PX l va)) = entry (pmem s) pt (px l va)"
  by (simp add: pte_at_def entry_def)

text \<open>Without allocation \<open>walk\<close> finds the level-0 table, or reports that there is none.\<close>

lemma walk_levels_noalloc:
  "walk_levels l pt va False s =
    Ok (case leaf_table l (pmem s) pt va of None \<Rightarrow> 0 | Some q \<Rightarrow> pte_addr q (PX 0 va)) s"
proof (induction l arbitrary: pt)
  case (Suc l)
  then show ?case by (simp add: Let_def pte_at_entry present_def)
qed simp

lemma walk_noalloc:
  "va < MAXVA \<Longrightarrow> walk pt va False s =
    Ok (case leaf_table 2 (pmem s) pt va of None \<Rightarrow> 0 | Some q \<Rightarrow> pte_addr q (PX 0 va)) s"
  by (simp add: walk_def walk_levels_noalloc)

lemma kmem_inv_outside:
  assumes "kmem_inv s ps" "\<And>p b. p \<in> set ps \<Longrightarrow> in_page p b \<Longrightarrow> m b = pmem s b"
  shows "kmem_inv (s\<lparr>pmem := m\<rparr>) ps"
proof -
  have "chain m (freelist s) ps"
  proof (rule chain_cong)
    show "chain (pmem s) (freelist s) ps" using assms(1) by (simp add: kmem_inv_def)
    fix q b assume "q \<in> set ps" "in_range q 8 b"
    then show "pmem s b = m b"
      using assms(2) [of q b] in_range_mono [of q 8 b 4096] by (simp add: in_page_def)
  qed
  with assms(1) show ?thesis by (simp add: kmem_inv_def)
qed

text \<open>
  With allocation the tree grows as needed: \<open>walk\<close> returns the entry of the address in the grown
  tree, or 0 when it ran out of pages; either way no translation has changed.
\<close>

lemma walk_levels_alloc:
  fixes s :: "'z kmach_scheme"
  assumes "tree_ok l pt s ps"
  shows "wp (walk_levels l pt va True s) (\<lambda>r t. \<exists>qs. grows l pt ps s t qs \<and>
    (if r = 0 then qs = []
     else \<exists>q. leaf_table l (pmem t) pt va = Some q \<and> r = pte_addr q (PX 0 va)))"
  using assms
proof (induction l arbitrary: pt s ps)
  case 0
  then have "page_frame pt" by (simp add: tree_ok_def)
  with 0 show ?case
    by (auto simp: wp_simps pte_addr_nonzero intro!: exI [of _ ps] grows_refl)
next
  case (Suc l)
  let ?i = "px (Suc l) va"
  have present_case: "wp (walk_levels (Suc l) pt va True s) (\<lambda>r t. \<exists>qs. grows (Suc l) pt ps s t qs \<and>
    (if r = 0 then qs = []
     else \<exists>q. leaf_table (Suc l) (pmem t) pt va = Some q \<and> r = pte_addr q (PX 0 va)))"
    if ok: "tree_ok (Suc l) pt s ps" and pr: "present (entry (pmem s) pt ?i)"
    for s :: "'z kmach_scheme" and ps
  proof -
    let ?c = "PTE2PA (entry (pmem s) pt ?i)"
    have wf: "pt_wf (Suc l) (pmem s) pt" and dj: "pset (Suc l) (pmem s) pt \<inter> set ps = {}"
      and km: "kmem_inv s ps"
      using ok by (simp_all add: tree_ok_def del: pset.simps pt_wf.simps)
    have "pt_wf l (pmem s) ?c" using wf pr by (simp del: pset.simps)
    moreover have "pset l (pmem s) ?c \<inter> set ps = {}" using dj pset_child [OF px_lt pr, of l] by blast
    ultimately have "tree_ok l ?c s ps" using km by (simp add: tree_ok_def)
    then have IH: "wp (walk_levels l ?c va True s) (\<lambda>r t. \<exists>qs. grows l ?c ps s t qs \<and>
      (if r = 0 then qs = []
       else \<exists>q. leaf_table l (pmem t) ?c va = Some q \<and> r = pte_addr q (PX 0 va)))"
      by (rule Suc.IH)
    have "walk_levels (Suc l) pt va True s = walk_levels l ?c va True s"
      using pr by (simp add: pte_at_entry present_def)
    moreover have "wp (walk_levels l ?c va True s) (\<lambda>r t. \<exists>qs. grows (Suc l) pt ps s t qs \<and>
      (if r = 0 then qs = []
       else \<exists>q. leaf_table (Suc l) (pmem t) pt va = Some q \<and> r = pte_addr q (PX 0 va)))"
    proof (rule wp_mono [OF IH])
      fix r and t :: "'z kmach_scheme"
      assume "\<exists>qs. grows l ?c ps s t qs \<and> (if r = 0 then qs = []
          else \<exists>q. leaf_table l (pmem t) ?c va = Some q \<and> r = pte_addr q (PX 0 va))"
      then obtain qs where g: "grows l ?c ps s t qs" and r: "if r = 0 then qs = []
          else \<exists>q. leaf_table l (pmem t) ?c va = Some q \<and> r = pte_addr q (PX 0 va)" by blast
      note gs = grows_subtree [OF ok px_lt pr g]
      show "\<exists>qs. grows (Suc l) pt ps s t qs \<and> (if r = 0 then qs = []
          else \<exists>q. leaf_table (Suc l) (pmem t) pt va = Some q \<and> r = pte_addr q (PX 0 va))"
        using gs r pr by (intro exI [of _ qs]) auto
    qed
    ultimately show ?thesis by simp
  qed
  show ?case
  proof (cases "present (entry (pmem s) pt ?i)")
    case True
    then show ?thesis by (rule present_case [OF Suc.prems])
  next
    case False
    have km: "kmem_inv s ps" using Suc.prems by (simp add: tree_ok_def)
    show ?thesis
    proof (cases ps)
      case Nil
      then have "walk_levels (Suc l) pt va True s = Ok 0 s"
        using km False by (simp add: pte_at_entry present_def kalloc_eq kmem_inv_def Let_def)
      then show ?thesis using Nil grows_refl [OF Suc.prems] by (auto simp: wp_simps)
    next
      case (Cons p qs)
      obtain t where t: "kalloc s = Ok p t" "p \<noteq> 0" "kmem_inv t qs" "held t = held s" "kend t = kend s"
        "kmach.more t = kmach.more s" "\<And>b. pmem t b = (if in_page p b then 5 else pmem s b)"
        using kalloc_spec [OF km] Cons by (auto simp: wp_iff)
      let ?e = "PA2PTE p OR PTE_V" and ?a = "pte_addr pt (PX (Suc l) va)"
      define u where "u = set_pte ?a ?e (memset_page_k p 0 t)"
      have step: "walk_levels (Suc l) pt va True s = walk_levels l p va True u"
        using False t(1,2) by (simp add: pte_at_entry present_def Let_def u_def)
      have fp: "page_frame p" and okps: "\<And>q. q \<in> set ps \<Longrightarrow> page_frame q"
        using km Cons by (auto simp: kmem_inv_def intro: page_ok_frame)
      have okp: "page_ok t p" using km Cons t(5) by (simp add: kmem_inv_def page_ok_def)
      have fpt: "page_frame pt" and ptps: "pt \<notin> set ps"
        using Suc.prems by (auto simp: tree_ok_def)
      have um: "pmem u b = (if in_range ?a 8 b then le_byte (unat ?e) (unat (b - ?a))
          else if in_page p b then 0 else pmem s b)" for b
        by (simp add: u_def set_pte_def memset_page_k_def write64_def memset_page [OF okp] t(7))
      have ap: "in_page pt b" if "in_range ?a 8 b" for b
        using pte_in_page [OF fpt px_lt [of "Suc l" va]] that by simp
      have z: "pmem u b = 0" if "in_page p b" for b
      proof -
        have "\<not> in_range ?a 8 b"
          using ap page_frame_disjoint [OF fpt fp _ that] ptps Cons by auto
        then show ?thesis using that by (simp add: um)
      qed
      have m: "pmem u b = write64 (pmem s) (pte_addr pt (of_nat ?i)) ?e b" if "\<not> in_page p b" for b
        using that by (simp add: um write64_def)
      have "kmem_inv (t\<lparr>pmem := pmem u\<rparr>) qs"
      proof (rule kmem_inv_outside [OF t(3)])
        fix q b assume q: "q \<in> set qs" "in_page q b"
        have "\<not> in_page p b"
          using page_frame_disjoint [OF fp okps _ q(2)] q(1) Cons km by (auto simp: kmem_inv_def)
        moreover have "\<not> in_range ?a 8 b"
          using ap page_frame_disjoint [OF fpt okps _ q(2)] q(1) Cons ptps by auto
        ultimately show "pmem u b = pmem t b" by (simp add: um t(7))
      qed
      moreover have "u = t\<lparr>pmem := pmem u\<rparr>" by (simp add: u_def set_pte_def memset_page_k_def)
      ultimately have ku: "kmem_inv u qs" by metis
      have r: "held u = held s" "kend u = kend s" "kmach.more u = kmach.more s"
        using t by (simp_all add: u_def set_pte_def memset_page_k_def)
      note g = grows_new_child [OF Suc.prems [unfolded Cons] px_lt False t(3-6) m z ku r]
      have oku: "tree_ok (Suc l) pt u qs" using g(1) by (simp add: grows_def)
      have pru: "present (entry (pmem u) pt ?i)" using g(2) by simp
      have "walk_levels (Suc l) pt va True u = walk_levels l p va True u"
        using pru PTE2PA_make [OF fp, of PTE_V] by (simp add: pte_at_entry present_def g(2) PTE_V_def)
      then have eq: "walk_levels (Suc l) pt va True s = walk_levels (Suc l) pt va True u" by (simp only: step)
      show ?thesis unfolding eq
      proof (rule wp_mono [OF present_case [OF oku pru]])
        fix r' and w :: "'z kmach_scheme"
        assume "\<exists>rs. grows (Suc l) pt qs u w rs \<and> (if r' = 0 then rs = []
          else \<exists>q. leaf_table (Suc l) (pmem w) pt va = Some q \<and> r' = pte_addr q (PX 0 va))"
        then show "\<exists>rs. grows (Suc l) pt ps s w rs \<and> (if r' = 0 then rs = []
          else \<exists>q. leaf_table (Suc l) (pmem w) pt va = Some q \<and> r' = pte_addr q (PX 0 va))"
          using grows_trans [OF g(1)] unfolding Cons by blast
      qed
    qed
  qed
qed

section \<open>Leaf entries\<close>

text \<open>Storing a leaf entry: exactly the addresses of its page change translation.\<close>

lemma set_leaf_pte:
  assumes ok: "tree_ok l pt s ps" and q: "leaf_table l (pmem s) pt va = Some q"
    and t: "t = set_pte (pte_addr q (PX 0 va)) v s"
  shows "tree_ok l pt t ps" and "pset l (pmem t) pt = pset l (pmem s) pt"
    and "leaf_pte l (pmem t) pt va' = (if same_page l va va' then v else leaf_pte l (pmem s) pt va')"
    and "(\<And>p. p \<in> pset l (pmem s) pt \<Longrightarrow> \<not> in_page p b) \<Longrightarrow> pmem t b = pmem s b"
    and "held t = held s" "kend t = kend s" "kmach.more t = kmach.more s"
proof -
  have wf: "pt_wf l (pmem s) pt" and km: "kmem_inv s ps" and dj: "pset l (pmem s) pt \<inter> set ps = {}"
    using ok by (auto simp: tree_ok_def)
  have m: "pmem t = write64 (pmem s) (pte_addr q (of_nat (px 0 va))) v" by (simp add: t set_pte_def)
  have qin: "q \<in> pset l (pmem s) pt" by (rule leaf_table_in [OF q])
  have fq: "page_frame q" by (rule pt_wf_frames [OF wf qin])
  note tree = leaf_write_tree [OF wf q px_lt m]
  show p: "pset l (pmem t) pt = pset l (pmem s) pt" using tree by simp
  have out: "pmem t b = pmem s b" if "\<not> in_page q b" for b
    unfolding m by (rule write_pte_outside [OF fq px_lt that])
  have "kmem_inv (s\<lparr>pmem := pmem t\<rparr>) ps"
  proof (rule kmem_inv_outside [OF km])
    fix p b assume p: "p \<in> set ps" "in_page p b"
    have "page_frame p" using km p(1) by (auto simp: kmem_inv_def intro: page_ok_frame)
    then have "\<not> in_page q b" using page_frame_disjoint [OF fq _ _ p(2)] p(1) dj qin by auto
    then show "pmem t b = pmem s b" by (rule out)
  qed
  moreover have "t = s\<lparr>pmem := pmem t\<rparr>" by (simp add: t set_pte_def)
  ultimately have "kmem_inv t ps" by metis
  then show "tree_ok l pt t ps" using tree dj p by (simp add: tree_ok_def)
  show "leaf_pte l (pmem t) pt va' = (if same_page l va va' then v else leaf_pte l (pmem s) pt va')"
    by (rule leaf_write_pte [OF wf q]) (simp add: t set_pte_def)
  show "pmem t b = pmem s b" if "\<And>p. p \<in> pset l (pmem s) pt \<Longrightarrow> \<not> in_page p b"
    using out that qin by blast
  show "held t = held s" "kend t = kend s" "kmach.more t = kmach.more s"
    by (simp_all add: t set_pte_def)
qed

definition tree_mem :: "nat \<Rightarrow> u64 \<Rightarrow> 'z kmach_scheme \<Rightarrow> u64 list \<Rightarrow> u64 set" where
  "tree_mem l pt s ps = {b. \<exists>p\<in>pset l (pmem s) pt \<union> set ps. in_page p b}"

lemma leaf_pte_Some: "leaf_table l m pt va = Some q \<Longrightarrow> leaf_pte l m pt va = entry m q (px 0 va)"
  by (simp add: leaf_pte_def)

text \<open>
  \<open>mappages\<close> of one page that is not mapped: on success exactly that page translates to the
  given physical page and permissions; on failure (out of memory) nothing translates
  differently. Only page-table pages and formerly free pages are written.
\<close>

lemma mappages_page:
  assumes ok: "tree_ok 2 pt s ps" and va: "va < MAXVA" "va mod PGSIZE = 0"
    and unmapped: "\<not> present (leaf_pte 2 (pmem s) pt va)"
  shows "wp (mappages pt va PGSIZE pa perm s) (\<lambda>r t. \<exists>qs.
    tree_ok 2 pt t qs \<and> set qs \<subseteq> set ps \<and>
    pset 2 (pmem t) pt \<subseteq> pset 2 (pmem s) pt \<union> (set ps - set qs) \<and>
    (\<forall>va'. leaf_pte 2 (pmem t) pt va' =
      (if r = 0 \<and> same_page 2 va va' then PA2PTE pa OR perm OR PTE_V else leaf_pte 2 (pmem s) pt va')) \<and>
    (\<forall>b. b \<notin> tree_mem 2 pt s ps \<longrightarrow> pmem t b = pmem s b) \<and>
    held t = held s \<and> kend t = kend s \<and> kmach.more t = kmach.more s \<and>
    (r = 0 \<or> r = -1 \<and> qs = []))"
proof -
  have n: "unat (PGSIZE div PGSIZE) = Suc 0" by (simp add: PGSIZE_def)
  have step: "mappages pt va PGSIZE pa perm s =
    kbind (walk_levels 2 pt va True s) (\<lambda>pte s.
      if pte = 0 then Ok (-1) s
      else if pte_at s pte AND PTE_V \<noteq> 0 then Panic ''mappages: remap''
      else Ok 0 (set_pte pte (PA2PTE pa OR perm OR PTE_V) s))"
    using va by (simp add: mappages_def n walk_def Let_def not_le [symmetric] cong: if_cong)
      (simp add: PGSIZE_def not_le)
  show ?thesis unfolding step wp_kbind
  proof (rule wp_mono [OF walk_levels_alloc [OF ok]])
    fix r t
    assume "\<exists>qs. grows 2 pt ps s t qs \<and>
      (if r = 0 then qs = [] else \<exists>q. leaf_table 2 (pmem t) pt va = Some q \<and> r = pte_addr q (PX 0 va))"
    then obtain qs where g: "grows 2 pt ps s t qs"
      and r: "if r = 0 then qs = [] else \<exists>q. leaf_table 2 (pmem t) pt va = Some q \<and> r = pte_addr q (PX 0 va)"
      by blast
    have lf: "leaf_pte 2 (pmem t) pt va' = leaf_pte 2 (pmem s) pt va'" for va'
      using g by (simp add: grows_def)
    have gm: "pmem t b = pmem s b" if "b \<notin> tree_mem 2 pt s ps" for b
      using g that by (simp add: grows_def tree_mem_def)
    have gs: "tree_ok 2 pt t qs" "set qs \<subseteq> set ps" "pset 2 (pmem t) pt \<subseteq> pset 2 (pmem s) pt \<union> (set ps - set qs)"
      "held t = held s" "kend t = kend s" "kmach.more t = kmach.more s"
      using g by (simp_all add: grows_def)
    show "wp (if r = 0 then Ok (-1 :: int) t
        else if pte_at t r AND PTE_V \<noteq> 0 then Panic ''mappages: remap''
        else Ok 0 (set_pte r (PA2PTE pa OR perm OR PTE_V) t)) (\<lambda>r t. \<exists>qs.
      tree_ok 2 pt t qs \<and> set qs \<subseteq> set ps \<and>
      pset 2 (pmem t) pt \<subseteq> pset 2 (pmem s) pt \<union> (set ps - set qs) \<and>
      (\<forall>va'. leaf_pte 2 (pmem t) pt va' =
        (if r = 0 \<and> same_page 2 va va' then PA2PTE pa OR perm OR PTE_V else leaf_pte 2 (pmem s) pt va')) \<and>
      (\<forall>b. b \<notin> tree_mem 2 pt s ps \<longrightarrow> pmem t b = pmem s b) \<and>
      held t = held s \<and> kend t = kend s \<and> kmach.more t = kmach.more s \<and>
      (r = 0 \<or> r = -1 \<and> qs = []))"
    proof (cases "r = 0")
      case True
      then show ?thesis using r gs lf gm by (auto simp: wp_simps intro!: exI [of _ "[]"])
    next
      case False
      then obtain q where q: "leaf_table 2 (pmem t) pt va = Some q" "r = pte_addr q (PX 0 va)"
        using r by auto
      have "\<not> present (pte_at t r)"
        using unmapped lf [of va] leaf_pte_Some [OF q(1)] by (simp add: q(2) pte_at_entry)
      note w = set_leaf_pte [OF gs(1) q(1), of "set_pte (pte_addr q (PX 0 va)) (PA2PTE pa OR perm OR PTE_V) t"
        "PA2PTE pa OR perm OR PTE_V", OF refl]
      have out: "pmem (set_pte r (PA2PTE pa OR perm OR PTE_V) t) b = pmem s b" if b: "b \<notin> tree_mem 2 pt s ps" for b
      proof -
        have "\<not> in_page p b" if "p \<in> pset 2 (pmem t) pt" for p
          using that b gs(3) by (auto simp: tree_mem_def)
        then show ?thesis using w(4) gm [OF b] by (simp add: q(2))
      qed
      show ?thesis
        using False \<open>\<not> present (pte_at t r)\<close> w(1,2,3,5-7) gs lf out
        by (auto simp: wp_simps present_def q(2) intro!: exI [of _ qs])
    qed
  qed
qed

text \<open>A mapped page is a remap panic.\<close>

lemma mappages_remap:
  assumes ok: "tree_ok 2 pt s ps" and va: "va < MAXVA" "va mod PGSIZE = 0"
    and mapped: "leaf_table 2 (pmem s) pt va = Some q" "present (entry (pmem s) q (px 0 va))"
  shows "mappages pt va PGSIZE pa perm s = Panic ''mappages: remap''"
proof -
  have n: "unat (PGSIZE div PGSIZE) = Suc 0" by (simp add: PGSIZE_def)
  have "walk_levels l pt' va True s = Ok (pte_addr q (PX 0 va)) s"
    if "leaf_table l (pmem s) pt' va = Some q" for l pt'
    using that
  proof (induction l arbitrary: pt')
    case (Suc l)
    then show ?case by (auto simp: Let_def pte_at_entry present_def split: if_splits)
  qed simp
  from this [OF mapped(1)] have w: "walk pt va True s = Ok (pte_addr q (PX 0 va)) s"
    using va by (simp add: walk_def)
  have "page_frame q"
    using ok leaf_table_in [OF mapped(1)] pt_wf_frames by (auto simp: tree_ok_def)
  with w mapped(2) va show ?thesis
    by (simp add: mappages_def n pte_addr_nonzero pte_at_entry present_def) (simp add: PGSIZE_def)
qed

section \<open>Translation\<close>

definition upage :: "mem \<Rightarrow> u64 \<Rightarrow> u64 \<Rightarrow> u64 option" where
  "upage m pt va =
    (let e = leaf_pte 2 m pt va in
     if va < MAXVA \<and> present e \<and> e AND PTE_U \<noteq> 0 then Some (PTE2PA e) else None)"

lemma walkaddr_eq:
  assumes "pt_wf 2 (pmem s) pt"
  shows "walkaddr pt va s = Ok (case upage (pmem s) pt va of None \<Rightarrow> 0 | Some pa \<Rightarrow> pa) s"
proof (cases "MAXVA \<le> va")
  case True
  then show ?thesis by (simp add: walkaddr_def upage_def not_le [symmetric])
next
  case False
  then have va: "va < MAXVA" by simp
  show ?thesis
  proof (cases "leaf_table 2 (pmem s) pt va")
    case None
    then show ?thesis using va by (simp add: walkaddr_def walk_noalloc upage_def leaf_pte_def Let_def)
  next
    case (Some q)
    have "page_frame q" by (rule pt_wf_frames [OF assms leaf_table_in [OF Some]])
    then show ?thesis using va Some not_le [of MAXVA va]
      by (simp add: walkaddr_def walk_noalloc pte_addr_nonzero pte_at_entry upage_def leaf_pte_Some
          Let_def present_def)
  qed
qed

text \<open>One round of \<open>uvmunmap\<close>, when the pages it unmaps are not freed.\<close>

lemma uvmunmap_step:
  assumes ok: "tree_ok 2 pt s ps" and va: "va < MAXVA" "va < stop"
  shows "uvmunmap_loop pt va stop False s = uvmunmap_loop pt (va + PGSIZE) stop False
    (case leaf_table 2 (pmem s) pt va of None \<Rightarrow> s
     | Some q \<Rightarrow> if present (entry (pmem s) q (px 0 va)) then set_pte (pte_addr q (PX 0 va)) 0 s else s)"
proof (cases "leaf_table 2 (pmem s) pt va")
  case None
  then show ?thesis using va by (subst uvmunmap_loop.simps) (simp add: walk_noalloc)
next
  case (Some q)
  have "page_frame q" using ok leaf_table_in [OF Some] pt_wf_frames by (auto simp: tree_ok_def)
  then show ?thesis using va Some
    by (subst uvmunmap_loop.simps) (simp add: walk_noalloc pte_addr_nonzero pte_at_entry present_def Let_def)
qed

lemma uvmunmap_keep_loop:
  fixes s :: "'z kmach_scheme"
  assumes "tree_ok 2 pt s ps" "stop \<le> MAXVA" "va \<le> stop \<or> stop \<le> va"
  shows "wp (uvmunmap_loop pt va stop False s) (\<lambda>_ t. tree_ok 2 pt t ps \<and>
    pset 2 (pmem t) pt = pset 2 (pmem s) pt \<and>
    (\<forall>a. present (leaf_pte 2 (pmem t) pt a) \<longrightarrow> leaf_pte 2 (pmem t) pt a = leaf_pte 2 (pmem s) pt a) \<and>
    (\<forall>k. unat va + 4096 * k < unat stop \<longrightarrow> \<not> present (leaf_pte 2 (pmem t) pt (va + of_nat (4096 * k)))) \<and>
    (\<forall>b. (\<forall>p\<in>pset 2 (pmem s) pt. \<not> in_page p b) \<longrightarrow> pmem t b = pmem s b) \<and>
    held t = held s \<and> kend t = kend s \<and> kmach.more t = kmach.more s)"
  using assms
proof (induction "unat stop - unat va" arbitrary: va s rule: less_induct)
  case less
  show ?case
  proof (cases "va < stop")
    case False
    then have "\<not> unat va + 4096 * k < unat stop" for k by (simp add: word_less_nat_alt)
    with False less.prems show ?thesis
      by (subst uvmunmap_loop.simps) (simp add: wp_simps)
  next
    case True
    then have va: "va < MAXVA" using less.prems(2) by simp
    have nat_step: "unat (va + PGSIZE) = unat va + 4096"
      using va by (simp add: PGSIZE_def MAXVA_def unat_word_ariths word_less_nat_alt)
    define u where "u = (case leaf_table 2 (pmem s) pt va of None \<Rightarrow> s
     | Some q \<Rightarrow> if present (entry (pmem s) q (px 0 va)) then set_pte (pte_addr q (PX 0 va)) 0 s else s)"
    have u: "tree_ok 2 pt u ps \<and> pset 2 (pmem u) pt = pset 2 (pmem s) pt \<and>
      (\<forall>a. leaf_pte 2 (pmem u) pt a = leaf_pte 2 (pmem s) pt a \<or> leaf_pte 2 (pmem u) pt a = 0) \<and>
      \<not> present (leaf_pte 2 (pmem u) pt va) \<and>
      (\<forall>b. (\<forall>p\<in>pset 2 (pmem s) pt. \<not> in_page p b) \<longrightarrow> pmem u b = pmem s b) \<and>
      held u = held s \<and> kend u = kend s \<and> kmach.more u = kmach.more s"
    proof (cases "leaf_table 2 (pmem s) pt va")
      case None
      then show ?thesis using less.prems(1) by (simp add: u_def leaf_pte_def)
    next
      case (Some q)
      show ?thesis
      proof (cases "present (entry (pmem s) q (px 0 va))")
        case False
        then show ?thesis using less.prems(1) Some by (simp add: u_def leaf_pte_Some)
      next
        case True
        then have "u = set_pte (pte_addr q (PX 0 va)) 0 s" by (simp add: u_def Some)
        note w = set_leaf_pte [OF less.prems(1) Some this]
        have "\<not> present (leaf_pte 2 (pmem u) pt va)" using w(3) [of va] by (simp add: same_page_def)
        then show ?thesis using w by simp
      qed
    qed
    have eq: "uvmunmap_loop pt va stop False s = uvmunmap_loop pt (va + PGSIZE) stop False u"
      unfolding u_def by (rule uvmunmap_step [OF less.prems(1) va True])
    have m: "unat stop - unat (va + PGSIZE) < unat stop - unat va"
      using True by (simp add: nat_step word_less_nat_alt)
    have or: "va + PGSIZE \<le> stop \<or> stop \<le> va + PGSIZE" by auto
    show ?thesis unfolding eq
    proof (rule wp_mono [OF less.hyps [OF m u [THEN conjunct1] less.prems(2) or]])
      fix x and t :: "'z kmach_scheme"
      assume IH: "tree_ok 2 pt t ps \<and> pset 2 (pmem t) pt = pset 2 (pmem u) pt \<and>
        (\<forall>a. present (leaf_pte 2 (pmem t) pt a) \<longrightarrow> leaf_pte 2 (pmem t) pt a = leaf_pte 2 (pmem u) pt a) \<and>
        (\<forall>k. unat (va + PGSIZE) + 4096 * k < unat stop \<longrightarrow>
          \<not> present (leaf_pte 2 (pmem t) pt (va + PGSIZE + of_nat (4096 * k)))) \<and>
        (\<forall>b. (\<forall>p\<in>pset 2 (pmem u) pt. \<not> in_page p b) \<longrightarrow> pmem t b = pmem u b) \<and>
        held t = held u \<and> kend t = kend u \<and> kmach.more t = kmach.more u"
      have keep: "leaf_pte 2 (pmem t) pt a = leaf_pte 2 (pmem s) pt a"
        if "present (leaf_pte 2 (pmem t) pt a)" for a
        using that IH u not_present_0 by metis
      have gone: "\<not> present (leaf_pte 2 (pmem t) pt (va + of_nat (4096 * k)))"
        if k: "unat va + 4096 * k < unat stop" for k
      proof (cases k)
        case 0
        then show ?thesis using IH u by auto
      next
        case (Suc j)
        have "va + PGSIZE + of_nat (4096 * j) = va + of_nat (4096 * k)"
          by (simp add: Suc PGSIZE_def algebra_simps)
        moreover have "unat (va + PGSIZE) + 4096 * j < unat stop" using k Suc by (simp add: nat_step)
        ultimately show ?thesis using IH by metis
      qed
      show "tree_ok 2 pt t ps \<and> pset 2 (pmem t) pt = pset 2 (pmem s) pt \<and>
        (\<forall>a. present (leaf_pte 2 (pmem t) pt a) \<longrightarrow> leaf_pte 2 (pmem t) pt a = leaf_pte 2 (pmem s) pt a) \<and>
        (\<forall>k. unat va + 4096 * k < unat stop \<longrightarrow>
          \<not> present (leaf_pte 2 (pmem t) pt (va + of_nat (4096 * k)))) \<and>
        (\<forall>b. (\<forall>p\<in>pset 2 (pmem s) pt. \<not> in_page p b) \<longrightarrow> pmem t b = pmem s b) \<and>
        held t = held s \<and> kend t = kend s \<and> kmach.more t = kmach.more s"
        using IH u keep gone by simp
    qed
  qed
qed

end
