(* ===== verification/Uvm.thy ===== *)
theory Uvm
  imports Walk
begin

text \<open>
  The kernel's own page table, and copying between kernel and user memory: the rest of
  \<^verbatim>\<open>kernel/vm.c\<close>, with \<open>proc_mapstacks\<close> of \<^verbatim>\<open>kernel/proc.c\<close>.

  Kernel buffers are views (functions from offsets to bytes): \<open>copyout\<close> reads one, \<open>copyin\<close> and
  \<open>copyinstr\<close> take one and return it updated. \<open>uread\<close> is the user memory that a page table
  gives. On mapped memory \<open>copyin\<close> reads it, \<open>copyinstr\<close> reads a string of it, and \<open>copyout\<close>
  updates exactly the bytes of its range in it.
\<close>

section \<open>The kernel page table\<close>

text \<open>\<open>proc_mapstacks\<close>: a page for each process's kernel stack.\<close>

definition mapstack :: "u64 \<Rightarrow> nat \<Rightarrow> 'z kmach_scheme \<Rightarrow> (unit, 'z kmach_scheme) kres" where
  "mapstack kpgtbl i s =
    kbind (kalloc s) (\<lambda>pa s.
      if pa = 0 then Panic ''kalloc''
      else kvmmap kpgtbl (KSTACK i) pa PGSIZE (PTE_R OR PTE_W) s)"

definition proc_mapstacks :: "u64 \<Rightarrow> 'z kmach_scheme \<Rightarrow> (unit, 'z kmach_scheme) kres" where
  "proc_mapstacks kpgtbl s = foreach (mapstack kpgtbl) [0..<NPROC] s"

definition kvmmake :: "'z kprocs_scheme \<Rightarrow> (u64, 'z kprocs_scheme) kres" where
  "kvmmake s =
    kbind (kalloc s) (\<lambda>kpgtbl s.
    let s = memset_page_k kpgtbl 0 s in
    kbind (kvmmap kpgtbl UART0 UART0 PGSIZE (PTE_R OR PTE_W) s) (\<lambda>_ s.
    kbind (kvmmap kpgtbl VIRTIO0 VIRTIO0 PGSIZE (PTE_R OR PTE_W) s) (\<lambda>_ s.
    kbind (kvmmap kpgtbl PLIC PLIC 0x4000000 (PTE_R OR PTE_W) s) (\<lambda>_ s.
    kbind (kvmmap kpgtbl KERNBASE KERNBASE (etext s - KERNBASE) (PTE_R OR PTE_X) s) (\<lambda>_ s.
    kbind (kvmmap kpgtbl (etext s) (etext s) (PHYSTOP - etext s) (PTE_R OR PTE_W) s) (\<lambda>_ s.
    kbind (kvmmap kpgtbl TRAMPOLINE (trampoline s) PGSIZE (PTE_R OR PTE_X) s) (\<lambda>_ s.
    kbind (proc_mapstacks kpgtbl s) (\<lambda>_ s. Ok kpgtbl s))))))))"

definition kvminit :: "'z kprocs_scheme \<Rightarrow> (unit, 'z kprocs_scheme) kres" where
  "kvminit s = kbind (kvmmake s) (\<lambda>pt s. Ok () (s\<lparr>kernel_pagetable := pt\<rparr>))"

definition MAKE_SATP :: "u64 \<Rightarrow> u64" where
  "MAKE_SATP pagetable = push_bit 60 8 OR drop_bit 12 pagetable"

definition kvminithart :: "'z kprocs_scheme \<Rightarrow> 'z kprocs_scheme" where
  "kvminithart s = s\<lparr>satp := MAKE_SATP (kernel_pagetable s)\<rparr>"

section \<open>Lazily allocated pages\<close>

definition ismapped :: "u64 \<Rightarrow> u64 \<Rightarrow> 'z kmach_scheme \<Rightarrow> (bool, 'z kmach_scheme) kres" where
  "ismapped pagetable va s =
    kbind (walk pagetable va False s) (\<lambda>pte s.
      if pte = 0 then Ok False s
      else if pte_at s pte AND PTE_V \<noteq> 0 then Ok True s
      else Ok False s)"

definition vmfault :: "u64 \<Rightarrow> u64 \<Rightarrow> 'z kprocs_scheme \<Rightarrow> (u64, 'z kprocs_scheme) kres" where
  "vmfault pagetable va s =
    kbind (myproc s) (\<lambda>p s.
      if p_sz (procs s p) \<le> va then Ok 0 s
      else
        let va = PGROUNDDOWN va
        in kbind (ismapped pagetable va s) (\<lambda>mapped s.
           if mapped then Ok 0 s
           else kbind (kalloc s) (\<lambda>mem s.
             if mem = 0 then Ok 0 s
             else
               let s = memset_page_k mem 0 s
               in kbind (mappages (p_pagetable (procs s p)) va PGSIZE mem (PTE_W OR PTE_U OR PTE_R) s) (\<lambda>r s.
                  if r \<noteq> 0 then kbind (kfree mem s) (\<lambda>_ s. Ok 0 s)
                  else Ok mem s))))"

section \<open>Addresses within pages\<close>

lemma PGROUNDDOWN_le: "PGROUNDDOWN a \<le> a"
  by (simp add: word_le_nat_alt unat_PGROUNDDOWN)

lemma page_off: "unat (a - PGROUNDDOWN a) = unat a mod 4096"
proof -
  have "unat (a - PGROUNDDOWN a) = unat a - 4096 * (unat a div 4096)"
    using PGROUNDDOWN_le [of a] by (simp add: unat_sub unat_PGROUNDDOWN)
  then show ?thesis by (simp add: minus_mult_div_eq_mod)
qed

lemma unat_chunk: "unat (PGSIZE - (a - PGROUNDDOWN a)) = 4096 - unat a mod 4096"
proof -
  have "a - PGROUNDDOWN a \<le> PGSIZE"
    by (simp add: word_le_nat_alt page_off) (simp add: PGSIZE_def less_imp_le)
  then show ?thesis by (simp add: unat_sub page_off) (simp add: PGSIZE_def)
qed

text \<open>How much of \<open>len\<close> bytes at \<open>a\<close> lies in the page of \<open>a\<close>.\<close>

definition chunk :: "u64 \<Rightarrow> u64 \<Rightarrow> u64" where
  "chunk a len = (let n = PGSIZE - (a - PGROUNDDOWN a) in if n > len then len else n)"

lemma unat_chunk_min: "unat (chunk a len) = min (4096 - unat a mod 4096) (unat len)"
  by (auto simp: chunk_def Let_def word_less_nat_alt unat_chunk min_def)

lemma chunk_decreases: "0 < len \<Longrightarrow> unat (len - chunk a len) < unat len"
proof -
  assume "0 < len"
  moreover have "chunk a len \<le> len" by (simp add: word_le_nat_alt unat_chunk_min)
  moreover have "unat a mod 4096 < 4096" by simp
  ultimately show ?thesis
    by (simp add: unat_sub unat_chunk_min word_less_nat_alt)
qed

section \<open>Copying\<close>

text \<open>Storing \<open>n\<close> bytes of a kernel buffer: \<open>memmove\<close> from an object outside the pages.\<close>

definition store_bytes :: "mem \<Rightarrow> u64 \<Rightarrow> bytes \<Rightarrow> nat \<Rightarrow> mem" where
  "store_bytes m a src n = (\<lambda>b. if in_range a n b then src (unat (b - a)) else m b)"

definition load_bytes :: "mem \<Rightarrow> u64 \<Rightarrow> bytes \<Rightarrow> nat \<Rightarrow> nat \<Rightarrow> bytes" where
  "load_bytes m a dst off n = (\<lambda>i. if off \<le> i \<and> i < off + n then m (a + of_nat (i - off)) else dst i)"

function copyout :: "u64 \<Rightarrow> u64 \<Rightarrow> bytes \<Rightarrow> u64 \<Rightarrow> 'z kprocs_scheme \<Rightarrow> (int, 'z kprocs_scheme) kres" where
  "copyout pagetable dstva src len s =
    (if 0 < len then
       let va0 = PGROUNDDOWN dstva in
       if MAXVA \<le> va0 then Ok (-1) s
       else kbind (walkaddr pagetable va0 s) (\<lambda>pa0 s.
         kbind (if pa0 = 0 then vmfault pagetable va0 s else Ok pa0 s) (\<lambda>pa0 s.
         if pa0 = 0 then Ok (-1) s
         else kbind (walk pagetable va0 False s) (\<lambda>pte s.
           if pte = 0 then Panic ''kerneltrap''
           else if pte_at s pte AND PTE_W = 0 then Ok (-1) s
           else
             let n = chunk dstva len;
                 s = s\<lparr>pmem := store_bytes (pmem s) (pa0 + (dstva - va0)) src (unat n)\<rparr>
             in copyout pagetable (va0 + PGSIZE) (\<lambda>i. src (i + unat n)) (len - n) s)))
     else Ok 0 s)"
  by pat_completeness auto
termination
  by (relation "measure (\<lambda>(pt, a, src, len, s). unat len)") (auto intro: chunk_decreases)

declare copyout.simps [simp del]

text \<open>\<open>copyin\<close> fills the buffer \<open>dst\<close> from offset \<open>off\<close> on.\<close>

function copyin_from ::
  "u64 \<Rightarrow> bytes \<Rightarrow> nat \<Rightarrow> u64 \<Rightarrow> u64 \<Rightarrow> 'z kprocs_scheme \<Rightarrow> (int \<times> bytes, 'z kprocs_scheme) kres" where
  "copyin_from pagetable dst off srcva len s =
    (if 0 < len then
       let va0 = PGROUNDDOWN srcva in
       kbind (walkaddr pagetable va0 s) (\<lambda>pa0 s.
         kbind (if pa0 = 0 then vmfault pagetable va0 s else Ok pa0 s) (\<lambda>pa0 s.
         if pa0 = 0 then Ok (-1, dst) s
         else
           let n = chunk srcva len;
               dst = load_bytes (pmem s) (pa0 + (srcva - va0)) dst off (unat n)
           in copyin_from pagetable dst (off + unat n) (va0 + PGSIZE) (len - n) s))
     else Ok (0, dst) s)"
  by pat_completeness auto
termination
  by (relation "measure (\<lambda>(pt, dst, off, a, len, s). unat len)") (auto intro: chunk_decreases)

declare copyin_from.simps [simp del]

definition copyin :: "u64 \<Rightarrow> bytes \<Rightarrow> u64 \<Rightarrow> u64 \<Rightarrow> 'z kprocs_scheme \<Rightarrow> (int \<times> bytes, 'z kprocs_scheme) kres" where
  "copyin pagetable dst srcva len s = copyin_from pagetable dst 0 srcva len s"

text \<open>The inner loop of \<open>copyinstr\<close>: whether it saw the terminator, and the buffer.\<close>

fun copystr_page :: "bytes \<Rightarrow> nat \<Rightarrow> bytes \<Rightarrow> nat \<Rightarrow> bool \<times> bytes" where
  "copystr_page p 0 dst off = (False, dst)"
| "copystr_page p (Suc n) dst off =
    (if p 0 = 0 then (True, dst(off := 0)) else copystr_page (adv p) n (dst(off := p 0)) (Suc off))"

function copyinstr_from ::
  "u64 \<Rightarrow> bytes \<Rightarrow> nat \<Rightarrow> u64 \<Rightarrow> u64 \<Rightarrow> 'z kmach_scheme \<Rightarrow> (int \<times> bytes, 'z kmach_scheme) kres" where
  "copyinstr_from pagetable dst off srcva mx s =
    (if 0 < mx then
       let va0 = PGROUNDDOWN srcva in
       kbind (walkaddr pagetable va0 s) (\<lambda>pa0 s.
         if pa0 = 0 then Ok (-1, dst) s
         else
           let n = chunk srcva mx;
               (got_null, dst) = copystr_page (view (pmem s) (pa0 + (srcva - va0))) (unat n) dst off
           in if got_null then Ok (0, dst) s
              else copyinstr_from pagetable dst (off + unat n) (va0 + PGSIZE) (mx - n) s)
     else Ok (-1, dst) s)"
  by pat_completeness auto
termination
  by (relation "measure (\<lambda>(pt, dst, off, a, mx, s). unat mx)") (auto intro: chunk_decreases)

declare copyinstr_from.simps [simp del]

definition copyinstr ::
  "u64 \<Rightarrow> bytes \<Rightarrow> u64 \<Rightarrow> u64 \<Rightarrow> 'z kmach_scheme \<Rightarrow> (int \<times> bytes, 'z kmach_scheme) kres" where
  "copyinstr pagetable dst srcva mx s = copyinstr_from pagetable dst 0 srcva mx s"

section \<open>User memory\<close>

definition uread :: "mem \<Rightarrow> u64 \<Rightarrow> u64 \<Rightarrow> u8 option" where
  "uread m pt a =
    (case upage m pt (PGROUNDDOWN a) of None \<Rightarrow> None
     | Some pa \<Rightarrow> Some (m (pa + (a - PGROUNDDOWN a))))"

text \<open>\<open>umapped m pt a n\<close>: the \<open>n\<close> bytes from \<open>a\<close> on are mapped for the user, none at page 0 of RAM.\<close>

definition umapped :: "mem \<Rightarrow> u64 \<Rightarrow> u64 \<Rightarrow> nat \<Rightarrow> bool" where
  "umapped m pt a n \<longleftrightarrow> unat a + n \<le> unat MAXVA \<and>
    (\<forall>i<n. \<exists>pa. upage m pt (PGROUNDDOWN (a + of_nat i)) = Some pa \<and> pa \<noteq> 0)"

lemma MAXVA_small: "unat MAXVA = 2 ^ 38"
  by (simp add: MAXVA_def)

lemma unat_plus_small:
  assumes "unat a + i < 2 ^ 64"
  shows "unat (a + of_nat i :: u64) = unat a + i"
  using assms by (simp add: unat_word_ariths unat_of_nat)

lemma div_same_page:
  fixes a i :: nat
  assumes "a mod 4096 + i < 4096"
  shows "(a + i) div 4096 = a div 4096" "(a + i) mod 4096 = a mod 4096 + i"
proof -
  have e: "a + i = 4096 * (a div 4096) + (a mod 4096 + i)"
    using mult_div_mod_eq [of 4096 a] by simp
  have "x div 4096 = q \<and> x mod 4096 = y" if "x = 4096 * q + y" "y < 4096" for x q y :: nat
    using that by simp
  from this [OF e assms] show "(a + i) div 4096 = a div 4096" "(a + i) mod 4096 = a mod 4096 + i"
    by simp_all
qed

lemma PGROUNDDOWN_same:
  assumes "unat a + i < 2 ^ 64" "unat a mod 4096 + i < 4096"
  shows "PGROUNDDOWN (a + of_nat i) = PGROUNDDOWN a"
  using unat_plus_small [OF assms(1)] div_same_page [OF assms(2)]
  by (simp add: word_unat_eq_iff unat_PGROUNDDOWN del: unsigned_of_nat)

text \<open>The next page, when there is more to copy.\<close>

lemma next_page:
  assumes "n = 4096 - unat a mod 4096" "unat a + n < 2 ^ 64"
  shows "PGROUNDDOWN a + PGSIZE = a + of_nat n"
proof -
  have "unat (PGROUNDDOWN a) + 4096 = unat a + n"
    unfolding unat_PGROUNDDOWN assms(1)
    using mult_div_mod_eq [of 4096 "unat a"] mod_less_divisor [of 4096 "unat a"] by linarith
  moreover have "unat (PGROUNDDOWN a + PGSIZE) = unat (PGROUNDDOWN a) + 4096"
    using calculation assms(2) by (simp add: PGSIZE_def unat_word_ariths)
  ultimately show ?thesis
    using unat_plus_small [OF assms(2)] by (simp add: word_unat_eq_iff)
qed

lemma uread_same:
  assumes "unat a + i < 2 ^ 64" "unat a mod 4096 + i < 4096" "upage m pt (PGROUNDDOWN a) = Some pa"
  shows "uread m pt (a + of_nat i) = Some (m (pa + (a - PGROUNDDOWN a) + of_nat i))"
  using assms by (simp add: uread_def PGROUNDDOWN_same algebra_simps)

text \<open>Reading: the chunks that \<open>copyin\<close> copies are the bytes of the user's memory.\<close>

lemma copyin_from_mapped:
  assumes "pt_wf 2 (pmem s) pt" "umapped (pmem s) pt srcva (unat len)"
  shows "copyin_from pt dst off srcva len s =
    Ok (0, \<lambda>i. if off \<le> i \<and> i < off + unat len
      then the (uread (pmem s) pt (srcva + of_nat (i - off))) else dst i) s"
  using assms
proof (induction "unat len" arbitrary: dst off srcva len rule: less_induct)
  case less
  show ?case
  proof (cases "0 < len")
    case False
    then have "len = 0" by (simp add: word_gt_0)
    then show ?thesis by (subst copyin_from.simps) (auto simp: fun_eq_iff)
  next
    case True
    let ?n = "chunk srcva len" and ?va0 = "PGROUNDDOWN srcva" and ?m = "pmem s"
    have small: "unat srcva + unat len \<le> 2 ^ 38"
      using less.prems(2) by (simp add: umapped_def MAXVA_small)
    have n: "unat ?n = min (4096 - unat srcva mod 4096) (unat len)" by (rule unat_chunk_min)
    have len0: "0 < unat len" using True by (simp add: word_less_nat_alt)
    obtain pa where pa: "upage ?m pt ?va0 = Some pa" "pa \<noteq> 0"
      using less.prems(2) len0 unfolding umapped_def by (auto dest!: spec [of _ 0])
    have le: "?n \<le> len" by (simp add: word_le_nat_alt n)
    have dec: "unat (len - ?n) < unat len" by (rule chunk_decreases [OF True])
    have sub: "unat (len - ?n) = unat len - unat ?n" using le by (simp add: unat_sub)
    let ?dst = "load_bytes ?m (pa + (srcva - ?va0)) dst off (unat ?n)"
    have step: "copyin_from pt dst off srcva len s =
        copyin_from pt ?dst (off + unat ?n) (?va0 + PGSIZE) (len - ?n) s"
      using True pa by (subst copyin_from.simps) (simp add: walkaddr_eq [OF less.prems(1)] Let_def)
    have byte: "?m (pa + (srcva - ?va0) + of_nat i) = the (uread ?m pt (srcva + of_nat i))"
      if "i < unat ?n" for i
    proof -
      have "unat srcva + i < 2 ^ 64" "unat srcva mod 4096 + i < 4096"
        using that small n mod_less_divisor [of 4096 "unat srcva"] by (simp_all add: less_diff_conv add.commute)
      from uread_same [OF this pa(1)] show ?thesis by simp
    qed
    show ?thesis
    proof (cases "unat len \<le> 4096 - unat srcva mod 4096")
      case True
      then have "len - ?n = 0" using n by (simp add: unat_eq_0 [symmetric] sub)
      then show ?thesis unfolding step using True n byte
        by (subst copyin_from.simps) (auto simp: load_bytes_def fun_eq_iff simp del: of_nat_diff)
    next
      case False
      then have nn: "unat ?n = 4096 - unat srcva mod 4096" "unat ?n < unat len" using n by simp_all
      have nx: "?va0 + PGSIZE = srcva + of_nat (unat ?n)"
        by (rule next_page [OF nn(1)]) (use nn small in simp)
      have mp: "umapped ?m pt (?va0 + PGSIZE) (unat (len - ?n))"
        unfolding umapped_def
      proof (intro conjI allI impI)
        have u: "unat (?va0 + PGSIZE) = unat srcva + unat ?n"
          unfolding nx by (rule unat_plus_small) (use nn small in simp)
        show "unat (?va0 + PGSIZE) + unat (len - ?n) \<le> unat MAXVA"
          using small nn by (simp add: u sub MAXVA_small)
        fix i assume "i < unat (len - ?n)"
        then have "unat ?n + i < unat len" by (simp add: sub)
        then show "\<exists>pa. upage ?m pt (PGROUNDDOWN (?va0 + PGSIZE + of_nat i)) = Some pa \<and> pa \<noteq> 0"
          using less.prems(2) unfolding umapped_def nx by (auto simp: add.assoc dest!: spec [of _ "unat ?n + i"])
      qed
      have "(\<lambda>i. if off + unat ?n \<le> i \<and> i < off + unat ?n + unat (len - ?n)
            then the (uread ?m pt (?va0 + PGSIZE + of_nat (i - (off + unat ?n)))) else ?dst i) =
          (\<lambda>i. if off \<le> i \<and> i < off + unat len then the (uread ?m pt (srcva + of_nat (i - off))) else dst i)"
      proof
        fix i
        have "of_nat (unat ?n) + of_nat (i - (off + unat ?n)) = (of_nat (i - off) :: u64)"
          if "off + unat ?n \<le> i"
        proof -
          have "i - off = unat ?n + (i - (off + unat ?n))" using that by simp
          then show ?thesis by (metis of_nat_add)
        qed
        then show "(if off + unat ?n \<le> i \<and> i < off + unat ?n + unat (len - ?n)
            then the (uread ?m pt (?va0 + PGSIZE + of_nat (i - (off + unat ?n)))) else ?dst i) =
          (if off \<le> i \<and> i < off + unat len then the (uread ?m pt (srcva + of_nat (i - off))) else dst i)"
          using nn(2) byte by (auto simp: nx sub load_bytes_def add.assoc simp del: of_nat_diff)
      qed
      then show ?thesis unfolding step using less.hyps [OF dec less.prems(1) mp] by simp
    qed
  qed
qed

text \<open>\<open>copyin\<close> of mapped memory succeeds, reads it, and changes nothing.\<close>

lemma copyin_mapped:
  "pt_wf 2 (pmem s) pt \<Longrightarrow> umapped (pmem s) pt srcva (unat len) \<Longrightarrow>
    copyin pt dst srcva len s =
      Ok (0, \<lambda>i. if i < unat len then the (uread (pmem s) pt (srcva + of_nat i)) else dst i) s"
  by (simp add: copyin_def copyin_from_mapped cong: if_cong)

text \<open>The three indices of an address determine its page.\<close>

lemma px_nat: "px k a = unat a div 2 ^ (12 + 9 * k) mod 512"
proof -
  have m: "(0x1FF :: u64) = mask 9" by (simp add: mask_eq_exp_minus_1)
  have "unat (drop_bit (12 + 9 * k) a) = unat a div 2 ^ (12 + 9 * k)"
    using take_bit_nat_eq_self [OF unat_lt2p64 [of a]]
    unfolding unsigned_drop_bit_eq by (simp add: drop_bit_eq_div)
  moreover have "px k a = unat (drop_bit (12 + 9 * k) a) mod 2 ^ 9"
    unfolding px_def PX_def m take_bit_eq_mask [symmetric] unsigned_take_bit_eq
    by (simp only: take_bit_eq_mod)
  ultimately show ?thesis by simp
qed

lemma same_page_PGROUNDDOWN:
  assumes "same_page 2 a b" "a < MAXVA" "b < MAXVA"
  shows "PGROUNDDOWN a = PGROUNDDOWN b"
proof -
  let ?v = "\<lambda>x :: u64. unat x div 4096"
  have e: "?v x = px 0 x + 512 * (px 1 x + 512 * px 2 x)" if "x < MAXVA" for x
  proof -
    have "unat x < 2 ^ 38" using that by (simp add: word_less_nat_alt MAXVA_small)
    then have "unat x div 4096 < 512 * 512 * 512" by (simp add: less_mult_imp_div_less)
    then have "?v x div 512 div 512 < 512" by (simp add: less_mult_imp_div_less)
    moreover have "px 1 x = ?v x div 512 mod 512" "px 2 x = ?v x div 512 div 512 mod 512"
      "px 0 x = ?v x mod 512"
      by (simp_all add: px_nat div_mult2_eq [symmetric])
    ultimately show ?thesis
      using mult_div_mod_eq [of 512 "?v x div 512"] mult_div_mod_eq [of 512 "?v x"] by simp
  qed
  have "px 0 a = px 0 b" "px 1 a = px 1 b" "px 2 a = px 2 b"
    using assms(1) by (simp_all add: same_page_def)
  then have "?v a = ?v b" using e [OF assms(2)] e [OF assms(3)] by simp
  then show ?thesis by (simp add: word_unat_eq_iff unat_PGROUNDDOWN)
qed

text \<open>
  A user address space: different pages of it are different page frames, none of them a page
  of the table.
\<close>

definition uspace :: "mem \<Rightarrow> u64 \<Rightarrow> bool" where
  "uspace m pt \<longleftrightarrow> pt_wf 2 m pt \<and>
    (\<forall>va pa. upage m pt va = Some pa \<longrightarrow> page_frame pa \<and> pa \<notin> pset 2 m pt) \<and>
    (\<forall>va va' pa. upage m pt va = Some pa \<longrightarrow> upage m pt va' = Some pa \<longrightarrow> same_page 2 va va')"

lemma uspace_page_write:
  assumes sp: "uspace m pt" and pa: "upage m pt va = Some pa"
    and m': "\<And>b. \<not> in_page pa b \<Longrightarrow> m' b = m b"
  shows "pset 2 m' pt = pset 2 m pt" "leaf_pte 2 m' pt a = leaf_pte 2 m pt a"
    "upage m' pt a = upage m pt a" "uspace m' pt"
proof -
  have wf: "pt_wf 2 m pt" and fp: "page_frame pa" and np: "pa \<notin> pset 2 m pt"
    using sp pa by (auto simp: uspace_def)
  have out: "m' b = m b" if "p \<in> pset 2 m pt" "in_page p b" for p b
    using m' page_frame_disjoint [OF fp pt_wf_frames [OF wf that(1)] _ that(2)] np that(1) by blast
  have f: "pset 2 m' pt = pset 2 m pt \<and> pt_wf 2 m' pt \<and>
    (\<forall>va. leaf_table 2 m' pt va = leaf_table 2 m pt va)"
    by (rule pt_frame [OF wf out])
  show p: "pset 2 m' pt = pset 2 m pt" using f by simp
  have l: "leaf_pte 2 m' pt a = leaf_pte 2 m pt a" for a by (rule leaf_pte_frame [OF wf out])
  then show "leaf_pte 2 m' pt a = leaf_pte 2 m pt a" .
  have u: "upage m' pt a = upage m pt a" for a by (simp add: upage_def l)
  then show "upage m' pt a = upage m pt a" .
  show "uspace m' pt" using sp f by (simp add: uspace_def u)
qed

lemma page_offset_nat:
  assumes "page_frame pa" "k < 4096"
  shows "unat (pa + of_nat k) = unat pa + k"
  using unat_page [of pa] assms by (intro unat_plus_small) (simp add: page_frame_def)

lemma off_word: "a - PGROUNDDOWN a = of_nat (unat a mod 4096)"
  unfolding page_off [symmetric] by simp

lemma page_offset_range:
  assumes "page_frame pa" "k + n \<le> 4096" "k < 4096" "j < 4096"
  shows "in_range (pa + of_nat k) n (pa + of_nat j) \<longleftrightarrow> k \<le> j \<and> j < k + n"
proof -
  have k: "unat (pa + of_nat k) = unat pa + k" and j: "unat (pa + of_nat j) = unat pa + j"
    using page_offset_nat [OF assms(1)] assms(3,4) by blast+
  have "unat pa + 4096 < 2 ^ 64" using assms(1) by (intro unat_page) (simp add: page_frame_def)
  then have "unat (pa + of_nat k) + n \<le> 2 ^ 64" using assms(2) unfolding k by linarith
  from in_range_iff [OF this, of "pa + of_nat j"] show ?thesis unfolding k j by auto
qed

text \<open>One chunk of \<open>copyout\<close>.\<close>

lemma uread_store:
  assumes sp: "uspace m pt" and pa: "upage m pt (PGROUNDDOWN d) = Some pa"
    and n: "n \<le> 4096 - unat d mod 4096" and a: "a < MAXVA" and dM: "d < MAXVA"
    and m': "m' = store_bytes m (pa + (d - PGROUNDDOWN d)) src n"
  shows "uread m' pt a = (if unat d \<le> unat a \<and> unat a < unat d + n
    then Some (src (unat a - unat d)) else uread m pt a)"
    and "uspace m' pt" and "leaf_pte 2 m' pt va = leaf_pte 2 m pt va"
    and "\<not> in_page pa b \<Longrightarrow> m' b = m b"
proof -
  have fp: "page_frame pa" using sp pa by (auto simp: uspace_def)
  let ?k = "unat d mod 4096"
  have k: "?k < 4096" "?k + n \<le> 4096" using n mod_less_divisor [of 4096 "unat d"] by auto
  have out: "m' b = m b" if "\<not> in_page pa b" for b
  proof -
    have e: "unat (pa + of_nat ?k) = unat pa + ?k" by (rule page_offset_nat [OF fp k(1)])
    have "unat pa + 4096 < 2 ^ 64" using fp by (intro unat_page) (simp add: page_frame_def)
    then have "unat (pa + of_nat ?k) + n \<le> 2 ^ 64" using k(2) unfolding e by linarith
    from in_range_iff [OF this, of b] have "\<not> in_range (pa + of_nat ?k) n b"
      using that k(2) unfolding page_frame_range [OF fp] e by linarith
    then show ?thesis by (simp add: m' store_bytes_def off_word)
  qed
  then show "m' b = m b" if "\<not> in_page pa b" using that by simp
  note w = uspace_page_write [OF sp pa out]
  show "uspace m' pt" "leaf_pte 2 m' pt va = leaf_pte 2 m pt va" using w(4) w(2) by blast+
  let ?j = "unat a mod 4096"
  have ea: "unat a = 4096 * (unat a div 4096) + ?j" and ed: "unat d = 4096 * (unat d div 4096) + ?k"
    by simp_all
  show "uread m' pt a = (if unat d \<le> unat a \<and> unat a < unat d + n
    then Some (src (unat a - unat d)) else uread m pt a)"
  proof (cases "unat a div 4096 = unat d div 4096")
    case True
    then have pg: "PGROUNDDOWN a = PGROUNDDOWN d" by (simp add: word_unat_eq_iff unat_PGROUNDDOWN)
    have r: "unat d \<le> unat a \<and> unat a < unat d + n \<longleftrightarrow> ?k \<le> ?j \<and> ?j < ?k + n"
      using ea ed True by linarith
    have s: "unat a - unat d = ?j - ?k" if "?k \<le> ?j" using ea ed True that by linarith
    have sub: "unat (pa + of_nat ?j - (pa + of_nat ?k)) = ?j - ?k" if "?k \<le> ?j"
    proof -
      have "pa + of_nat ?j - (pa + of_nat ?k) = of_nat (?j - ?k)" using that by (simp add: of_nat_diff)
      moreover have "?j - ?k < 2 ^ 64" by (rule le_less_trans [of _ 4096]) (simp_all add: less_imp_le diff_le_self le_trans [OF diff_le_self])
      ultimately show ?thesis by (simp only: unat_of_nat) simp
    qed
    have "uread m' pt a = Some (m' (pa + of_nat ?j))"
      using pa pg w(3) by (simp add: uread_def off_word [symmetric])
    moreover have "uread m pt a = Some (m (pa + of_nat ?j))"
      using pa pg by (simp add: uread_def off_word [symmetric])
    moreover have "m' (pa + of_nat ?j) =
        (if ?k \<le> ?j \<and> ?j < ?k + n then src (?j - ?k) else m (pa + of_nat ?j))"
      using page_offset_range [OF fp k(2) k(1), of ?j] sub
      by (simp add: m' store_bytes_def off_word del: of_nat_diff)
    ultimately show ?thesis using r s by simp
  next
    case False
    have nr: "\<not> (unat d \<le> unat a \<and> unat a < unat d + n)"
    proof
      assume h: "unat d \<le> unat a \<and> unat a < unat d + n"
      then obtain i where i: "unat a = unat d + i" by (metis le_Suc_ex)
      with h k(2) have "?k + i < 4096" by simp
      from div_same_page(1) [OF this] have "unat a div 4096 = unat d div 4096" by (simp only: i)
      with False show False by simp
    qed
    have "uread m' pt a = uread m pt a"
    proof (cases "upage m pt (PGROUNDDOWN a)")
      case None
      then show ?thesis using w(3) by (simp add: uread_def)
    next
      case (Some pb)
      have fb: "page_frame pb" using sp Some by (auto simp: uspace_def)
      have "pb \<noteq> pa"
      proof
        assume "pb = pa"
        then have "same_page 2 (PGROUNDDOWN a) (PGROUNDDOWN d)"
          using sp Some pa unfolding uspace_def by blast
        moreover have "PGROUNDDOWN a < MAXVA" "PGROUNDDOWN d < MAXVA"
          using a dM PGROUNDDOWN_le le_less_trans by blast+
        ultimately have "PGROUNDDOWN (PGROUNDDOWN a) = PGROUNDDOWN (PGROUNDDOWN d)"
          by (rule same_page_PGROUNDDOWN)
        with False show False by (simp add: word_unat_eq_iff unat_PGROUNDDOWN)
      qed
      moreover have "in_page pb (pb + of_nat ?j)"
        using page_frame_range [OF fb] page_offset_nat [OF fb, of ?j] by simp
      ultimately have "\<not> in_page pa (pb + of_nat ?j)"
        using page_frame_disjoint [OF fp fb] by blast
      then have "m' (pb + of_nat ?j) = m (pb + of_nat ?j)" by (rule out)
      then show ?thesis using Some w(3) by (simp add: uread_def off_word)
    qed
    with nr show ?thesis by (simp only: if_False)
  qed
qed

text \<open>Writable pages.\<close>

definition uwritable :: "mem \<Rightarrow> u64 \<Rightarrow> u64 \<Rightarrow> nat \<Rightarrow> bool" where
  "uwritable m pt a n \<longleftrightarrow> umapped m pt a n \<and>
    (\<forall>i<n. leaf_pte 2 m pt (PGROUNDDOWN (a + of_nat i)) AND PTE_W \<noteq> 0)"

lemma uwritable_cong:
  assumes "\<And>va. leaf_pte 2 m' pt va = leaf_pte 2 m pt va"
  shows "uwritable m' pt a n = uwritable m pt a n"
  by (simp add: uwritable_def umapped_def upage_def assms)

lemma uwritable_rest:
  assumes "uwritable m pt a n" "k \<le> n"
  shows "uwritable m pt (a + of_nat k) (n - k)"
proof -
  have u: "unat (a + of_nat k) = unat a + k"
    using assms by (intro unat_plus_small) (simp add: uwritable_def umapped_def MAXVA_small)
  have e: "\<forall>i<n - k. P (a + of_nat k + of_nat i)" if "\<forall>i<n. P (a + of_nat i)" for P
  proof (intro allI impI)
    fix i assume "i < n - k"
    then have "P (a + of_nat (k + i))" using that by (intro that [rule_format]) simp
    then show "P (a + of_nat k + of_nat i)" by (simp add: add.assoc)
  qed
  show ?thesis
    using assms(1) e [of "\<lambda>x. \<exists>pa. upage m pt (PGROUNDDOWN x) = Some pa \<and> pa \<noteq> 0"]
      e [of "\<lambda>x. leaf_pte 2 m pt (PGROUNDDOWN x) AND PTE_W \<noteq> 0"] assms(2)
    unfolding uwritable_def umapped_def u by simp
qed

text \<open>The writable and mapped entry that one round of \<open>copyout\<close> finds.\<close>

lemma copyout_step:
  assumes wf: "pt_wf 2 (pmem s) pt" and len: "0 < len" and d: "PGROUNDDOWN dstva < MAXVA"
    and pa: "upage (pmem s) pt (PGROUNDDOWN dstva) = Some pa" "pa \<noteq> 0"
    and w: "leaf_pte 2 (pmem s) pt (PGROUNDDOWN dstva) AND PTE_W \<noteq> 0"
  shows "copyout pt dstva src len s =
    copyout pt (PGROUNDDOWN dstva + PGSIZE) (\<lambda>i. src (i + unat (chunk dstva len))) (len - chunk dstva len)
      (s\<lparr>pmem := store_bytes (pmem s) (pa + (dstva - PGROUNDDOWN dstva)) src (unat (chunk dstva len))\<rparr>)"
proof -
  have "leaf_table 2 (pmem s) pt (PGROUNDDOWN dstva) \<noteq> None"
    using pa by (auto simp: upage_def leaf_pte_def Let_def split: if_splits option.splits)
  then obtain q where q: "leaf_table 2 (pmem s) pt (PGROUNDDOWN dstva) = Some q" by blast
  have "page_frame q" by (rule pt_wf_frames [OF wf leaf_table_in [OF q]])
  then show ?thesis
    using len d pa w
    by (subst copyout.simps)
       (simp add: walkaddr_eq [OF wf] walk_noalloc q pte_addr_nonzero pte_at_entry leaf_pte_Some [OF q, symmetric]
         Let_def not_le [symmetric])
qed

text \<open>
  \<open>copyout\<close> to writable memory succeeds. Afterwards the user reads the copied bytes in the
  range and what was there before everywhere else; the page table is as it was.
\<close>

lemma copyout_mapped:
  fixes s :: "'z kprocs_scheme"
  assumes "uspace (pmem s) pt" "uwritable (pmem s) pt dstva (unat len)"
  shows "wp (copyout pt dstva src len s) (\<lambda>r t. r = 0 \<and> t = s\<lparr>pmem := pmem t\<rparr> \<and> uspace (pmem t) pt \<and>
    (\<forall>va. leaf_pte 2 (pmem t) pt va = leaf_pte 2 (pmem s) pt va) \<and>
    (\<forall>a<MAXVA. uread (pmem t) pt a =
      (if unat dstva \<le> unat a \<and> unat a < unat dstva + unat len
       then Some (src (unat a - unat dstva)) else uread (pmem s) pt a)) \<and>
    (\<forall>b. (\<forall>va pa. upage (pmem s) pt va = Some pa \<longrightarrow> \<not> in_page pa b) \<longrightarrow> pmem t b = pmem s b))"
  using assms
proof (induction "unat len" arbitrary: dstva src len s rule: less_induct)
  case less
  show ?case
  proof (cases "0 < len")
    case False
    then have "len = 0" by (simp add: word_gt_0)
    then show ?thesis using less.prems by (subst copyout.simps) (auto simp: wp_simps)
  next
    case True
    let ?n = "chunk dstva len" and ?va0 = "PGROUNDDOWN dstva" and ?m = "pmem s"
    have len0: "0 < unat len" using True by (simp add: word_less_nat_alt)
    have small: "unat dstva + unat len \<le> 2 ^ 38"
      using less.prems(2) by (simp add: uwritable_def umapped_def MAXVA_small)
    have dM: "dstva < MAXVA" using small len0 by (simp add: word_less_nat_alt MAXVA_small)
    have n: "unat ?n = min (4096 - unat dstva mod 4096) (unat len)" by (rule unat_chunk_min)
    obtain pa where pa: "upage ?m pt ?va0 = Some pa" "pa \<noteq> 0"
      using less.prems(2) len0 unfolding uwritable_def umapped_def by (auto dest!: spec [of _ 0])
    have w: "leaf_pte 2 ?m pt ?va0 AND PTE_W \<noteq> 0"
      using less.prems(2) len0 unfolding uwritable_def by (auto dest!: spec [of _ 0])
    have le: "?n \<le> len" by (simp add: word_le_nat_alt n)
    have dec: "unat (len - ?n) < unat len" by (rule chunk_decreases [OF True])
    have sub: "unat (len - ?n) = unat len - unat ?n" using le by (simp add: unat_sub)
    have wf: "pt_wf 2 ?m pt" using less.prems(1) by (simp add: uspace_def)
    define u where "u = s\<lparr>pmem := store_bytes ?m (pa + (dstva - ?va0)) src (unat ?n)\<rparr>"
    have step: "copyout pt dstva src len s = copyout pt (?va0 + PGSIZE) (\<lambda>i. src (i + unat ?n)) (len - ?n) u"
      unfolding u_def using PGROUNDDOWN_le dM
      by (intro copyout_step [OF wf True _ pa w]) (rule le_less_trans)
    have nb: "unat ?n \<le> 4096 - unat dstva mod 4096" using n by simp
    note st = uread_store [OF less.prems(1) pa(1) nb _ dM refl]
    have um: "pmem u = store_bytes ?m (pa + (dstva - ?va0)) src (unat ?n)" by (simp add: u_def)
    have usp: "uspace (pmem u) pt" unfolding um by (rule st(2) [of 0]) (simp add: MAXVA_def)
    have ulf: "leaf_pte 2 (pmem u) pt va = leaf_pte 2 ?m pt va" for va
      unfolding um by (rule st(3) [of 0]) (simp add: MAXVA_def)
    have uup: "upage (pmem u) pt va = upage ?m pt va" for va by (simp add: upage_def ulf)
    have uout: "pmem u b = ?m b" if "\<not> in_page pa b" for b
      unfolding um by (rule st(4) [of 0]) (use that in \<open>simp_all add: MAXVA_def\<close>)
    have urd: "uread (pmem u) pt a = (if unat dstva \<le> unat a \<and> unat a < unat dstva + unat ?n
        then Some (src (unat a - unat dstva)) else uread ?m pt a)" if "a < MAXVA" for a
      unfolding um by (rule st(1) [OF that])
    show ?thesis
    proof (cases "unat len \<le> 4096 - unat dstva mod 4096")
      case True
      then have l0: "len - ?n = 0" and nl: "unat ?n = unat len" using n by (simp_all add: unat_eq_0 [symmetric] sub)
      have "copyout pt dstva src len s = Ok 0 u" unfolding step l0 by (subst copyout.simps) simp
      then show ?thesis using usp ulf urd uout pa nl by (auto simp: wp_simps u_def)
    next
      case False
      then have nn: "unat ?n = 4096 - unat dstva mod 4096" "unat ?n < unat len" using n by simp_all
      have nx: "?va0 + PGSIZE = dstva + of_nat (unat ?n)"
        by (rule next_page [OF nn(1)]) (use nn small in simp)
      have un: "unat (?va0 + PGSIZE) = unat dstva + unat ?n"
        unfolding nx by (rule unat_plus_small) (use nn small in simp)
      have mp: "uwritable (pmem u) pt (?va0 + PGSIZE) (unat (len - ?n))"
        unfolding uwritable_cong [OF ulf] nx sub
        by (rule uwritable_rest [OF less.prems(2)]) (use nn in simp)
      show ?thesis unfolding step
      proof (rule wp_mono [OF less.hyps [OF dec usp mp]])
        fix r and t :: "'z kprocs_scheme"
        assume IH: "r = 0 \<and> t = u\<lparr>pmem := pmem t\<rparr> \<and> uspace (pmem t) pt \<and>
          (\<forall>va. leaf_pte 2 (pmem t) pt va = leaf_pte 2 (pmem u) pt va) \<and>
          (\<forall>a<MAXVA. uread (pmem t) pt a =
            (if unat (?va0 + PGSIZE) \<le> unat a \<and> unat a < unat (?va0 + PGSIZE) + unat (len - ?n)
             then Some (src (unat a - unat (?va0 + PGSIZE) + unat ?n)) else uread (pmem u) pt a)) \<and>
          (\<forall>b. (\<forall>va pa. upage (pmem u) pt va = Some pa \<longrightarrow> \<not> in_page pa b) \<longrightarrow> pmem t b = pmem u b)"
        have rd: "uread (pmem t) pt a =
            (if unat dstva \<le> unat a \<and> unat a < unat dstva + unat len
             then Some (src (unat a - unat dstva)) else uread ?m pt a)" if a: "a < MAXVA" for a
          using IH a urd [OF a] nn(2) unfolding un sub by auto
        have ou: "pmem t b = ?m b" if "\<forall>va pa. upage ?m pt va = Some pa \<longrightarrow> \<not> in_page pa b" for b
          using that IH uout pa unfolding uup by metis
        have "t = s\<lparr>pmem := pmem t\<rparr>" using IH unfolding u_def by (metis kmach.surjective kmach.update_convs(1))
        then show "r = 0 \<and> t = s\<lparr>pmem := pmem t\<rparr> \<and> uspace (pmem t) pt \<and>
          (\<forall>va. leaf_pte 2 (pmem t) pt va = leaf_pte 2 ?m pt va) \<and>
          (\<forall>a<MAXVA. uread (pmem t) pt a =
            (if unat dstva \<le> unat a \<and> unat a < unat dstva + unat len
             then Some (src (unat a - unat dstva)) else uread ?m pt a)) \<and>
          (\<forall>b. (\<forall>va pa. upage ?m pt va = Some pa \<longrightarrow> \<not> in_page pa b) \<longrightarrow> pmem t b = ?m b)"
          using IH rd ou ulf by simp
      qed
    qed
  qed
qed

section \<open>Properties\<close>

text \<open>
  A small concrete machine for the examples: three tables in a row, the last of which maps
  page 0 to a writable user page.
\<close>

definition demo_mem :: mem where
  "demo_mem =
    write64 (write64 (write64 (\<lambda>_. 0)
      (pte_addr 0x87000000 0) (PA2PTE 0x87001000 OR PTE_V))
      (pte_addr 0x87001000 0) (PA2PTE 0x87002000 OR PTE_V))
      (pte_addr 0x87002000 0) (PA2PTE 0x87003000 OR 0x17)"

definition demo_proc :: proc where
  "demo_proc = \<lparr>p_state = RUNNING, p_chan = None, p_killed = 0, p_xstate = 0, p_pid = 1,
    p_parent = None, p_kstack = 0, p_sz = 4096, p_pagetable = 0x87000000, p_trapframe = 0x87004000,
    p_context = \<lparr>ctx_ra = 0, ctx_sp = 0, ctx_s = (\<lambda>_. 0)\<rparr>, p_ofile = (\<lambda>_. None), p_cwd = None,
    p_name = (\<lambda>_. 0)\<rparr>"

definition demo_kernel :: kprocs where
  "demo_kernel = \<lparr>held = {}, pmem = demo_mem, freelist = 0, kend = 0x80022000,
    procs = (\<lambda>_. demo_proc), curproc = Some 0, nextpid = 2, initproc = Some 0,
    kernel_pagetable = 0, satp = 0, etext = 0x80008000, trampoline = 0x80007000, forkret_addr = 0x80001000\<rparr>"

lemma demo_frames:
  "page_frame 0x87000000" "page_frame 0x87001000" "page_frame 0x87002000" "page_frame 0x87003000"
  by (simp_all add: page_frame_def PGSIZE_def PHYSTOP_def KERNBASE_def)

lemma demo_entries:
  assumes "i < 512"
  shows "entry demo_mem 0x87000000 i = (if i = 0 then PA2PTE 0x87001000 OR PTE_V else 0)"
    "entry demo_mem 0x87001000 i = (if i = 0 then PA2PTE 0x87002000 OR PTE_V else 0)"
    "entry demo_mem 0x87002000 i = (if i = 0 then PA2PTE 0x87003000 OR 0x17 else 0)"
proof -
  let ?z = "\<lambda>_ :: u64. 0 :: u8"
  let ?m1 = "write64 ?z (pte_addr 0x87000000 (of_nat 0)) (PA2PTE 0x87001000 OR PTE_V)"
  let ?m2 = "write64 ?m1 (pte_addr 0x87001000 (of_nat 0)) (PA2PTE 0x87002000 OR PTE_V)"
  let ?m3 = "write64 ?m2 (pte_addr 0x87002000 (of_nat 0)) (PA2PTE 0x87003000 OR 0x17)"
  have d: "demo_mem = ?m3" by (simp add: demo_mem_def)
  have other: "entry (write64 m (pte_addr q (of_nat 0)) v) p j = entry m p j"
    if "page_frame p" "page_frame q" "p \<noteq> q" "j < 512" for m v p q j
    by (rule entry_frame [OF that(1,4)], rule write_pte_outside [OF that(2)])
       (use page_frame_disjoint [OF that(1,2)] that(3) in auto)
  have z: "entry ?z p j = 0" for p j by (simp add: entry_def read64_zero)
  have w: "entry (write64 m (pte_addr p 0) v) p j = (if j = 0 then v else entry m p j)"
    if "page_frame p" "j < 512" for m p v j
    using entry_write [OF that(1) _ that(2), of 0 m v] by auto
  show "entry demo_mem 0x87000000 i = (if i = 0 then PA2PTE 0x87001000 OR PTE_V else 0)"
    unfolding d using assms demo_frames
    by (auto simp: other [where j = i, simplified] w z)
  show "entry demo_mem 0x87001000 i = (if i = 0 then PA2PTE 0x87002000 OR PTE_V else 0)"
    unfolding d using assms demo_frames
    by (auto simp: other [where j = i, simplified] w z)
  show "entry demo_mem 0x87002000 i = (if i = 0 then PA2PTE 0x87003000 OR 0x17 else 0)"
    unfolding d using assms demo_frames by (auto simp: other [where j = i, simplified] w z)
qed

lemma demo_PTE2PA [simp]:
  "PTE2PA (PA2PTE 0x87001000 OR PTE_V) = 0x87001000"
  "PTE2PA (PA2PTE 0x87002000 OR PTE_V) = 0x87002000"
  "PTE2PA (PA2PTE 0x87003000 OR 0x17) = 0x87003000"
  by (rule PTE2PA_make, rule demo_frames, simp add: PTE_V_def)+

lemma demo_pset: "pset 2 demo_mem 0x87000000 = {0x87000000, 0x87001000, 0x87002000}"
proof -
  have "{i. i < 512 \<and> present (entry demo_mem 0x87000000 i)} = {0}"
    "{i. i < 512 \<and> present (entry demo_mem 0x87001000 i)} = {0}"
    by (auto simp: demo_entries cong: conj_cong)
  then show ?thesis unfolding numeral_2_eq_2 by (simp add: demo_entries)
qed

lemma demo_wf: "pt_wf 2 demo_mem 0x87000000"
proof -
  have p: "i < 512 \<Longrightarrow> present (entry demo_mem 0x87001000 i) \<longleftrightarrow> i = 0"
    "i < 512 \<Longrightarrow> present (entry demo_mem 0x87000000 i) \<longleftrightarrow> i = 0" for i
    by (simp_all add: demo_entries)
  have e: "PTE2PA (entry demo_mem 0x87000000 0) = 0x87001000" "PTE2PA (entry demo_mem 0x87001000 0) = 0x87002000"
    by (simp_all add: demo_entries)
  have "{i. i < 512 \<and> present (entry demo_mem 0x87001000 i)} = {0}"
    by (auto simp: p cong: conj_cong)
  then have s: "pset (Suc 0) demo_mem 0x87001000 = {0x87001000, 0x87002000}"
    by (simp add: e)
  have w: "pt_wf (Suc 0) demo_mem 0x87001000"
    using p(1) demo_frames by (auto simp: e)
  show ?thesis
    unfolding numeral_2_eq_2 pt_wf.simps(2) [of "Suc 0"] using p(2) demo_frames(1) w s by (auto simp only: e) simp_all
qed

lemma demo_leaf:
  "leaf_pte 2 demo_mem 0x87000000 va =
    (if px 2 va = 0 \<and> px 1 va = 0 \<and> px 0 va = 0 then PA2PTE 0x87003000 OR 0x17 else 0)"
  unfolding numeral_2_eq_2 by (simp add: leaf_pte_def demo_entries split: option.splits)

lemma demo_leaf_bits:
  "present (PA2PTE 0x87003000 OR 0x17)" "(PA2PTE 0x87003000 OR 0x17) AND PTE_U \<noteq> 0"
  "(PA2PTE 0x87003000 OR 0x17) AND PTE_W \<noteq> 0"
  by (simp_all add: present_def PA2PTE_def PTE_V_def PTE_U_def PTE_W_def)

lemma demo_upage:
  "upage demo_mem 0x87000000 va =
    (if va < MAXVA \<and> px 2 va = 0 \<and> px 1 va = 0 \<and> px 0 va = 0 then Some 0x87003000 else None)"
  by (simp add: upage_def demo_leaf demo_leaf_bits)

lemma demo_uspace: "uspace demo_mem 0x87000000"
proof -
  have "same_page 2 va va'" if "px 2 va = 0" "px 1 va = 0" "px 0 va = 0"
    "px 2 va' = 0" "px 1 va' = 0" "px 0 va' = 0" for va va'
    using that by (auto simp: same_page_def le_Suc_eq numeral_2_eq_2)
  then show ?thesis
    by (auto simp: uspace_def demo_wf demo_upage demo_frames demo_pset split: if_splits)
qed

lemma demo_writable: "n \<le> 4096 \<Longrightarrow> uwritable demo_mem 0x87000000 0 n"
proof -
  assume n: "n \<le> 4096"
  have "PGROUNDDOWN (of_nat i) = 0" if "i < n" for i
  proof -
    have "unat (of_nat i :: u64) = i" using that n by (simp add: unat_of_nat)
    then show ?thesis using that n by (simp add: word_unat_eq_iff unat_PGROUNDDOWN)
  qed
  moreover have "px k 0 = 0" for k by (simp add: px_nat)
  ultimately show ?thesis using n
    by (simp add: uwritable_def umapped_def demo_upage demo_leaf demo_leaf_bits MAXVA_small MAXVA_def)
qed

text \<open>
  C5: \<open>copyout\<close> to memory that the user may write returns 0 and is exactly the update of the
  user's memory: the range reads as the source, every other user address reads as before, no
  translation changes, and no byte outside the user's own pages is written.
\<close>

theorem copyout_correct:
  fixes s :: "'z kprocs_scheme"
  assumes "uspace (pmem s) pt" "uwritable (pmem s) pt dstva (unat len)"
  shows "\<exists>t. copyout pt dstva src len s = Ok 0 t \<and> t = s\<lparr>pmem := pmem t\<rparr> \<and> uspace (pmem t) pt \<and>
    (\<forall>va. upage (pmem t) pt va = upage (pmem s) pt va) \<and>
    (\<forall>a<MAXVA. uread (pmem t) pt a =
      (if unat dstva \<le> unat a \<and> unat a < unat dstva + unat len
       then Some (src (unat a - unat dstva)) else uread (pmem s) pt a)) \<and>
    (\<forall>b. (\<forall>va pa. upage (pmem s) pt va = Some pa \<longrightarrow> \<not> in_page pa b) \<longrightarrow> pmem t b = pmem s b)"
proof -
  from copyout_mapped [OF assms, of src] obtain t where
    "copyout pt dstva src len s = Ok 0 t" "t = s\<lparr>pmem := pmem t\<rparr>" "uspace (pmem t) pt"
    "\<forall>va. leaf_pte 2 (pmem t) pt va = leaf_pte 2 (pmem s) pt va"
    "\<forall>a<MAXVA. uread (pmem t) pt a =
      (if unat dstva \<le> unat a \<and> unat a < unat dstva + unat len
       then Some (src (unat a - unat dstva)) else uread (pmem s) pt a)"
    "\<forall>b. (\<forall>va pa. upage (pmem s) pt va = Some pa \<longrightarrow> \<not> in_page pa b) \<longrightarrow> pmem t b = pmem s b"
    unfolding wp_iff by blast
  then show ?thesis by (intro exI [of _ t]) (simp add: upage_def)
qed

lemma copyout_correct_witness:
  "\<exists>t. copyout 0x87000000 0 (\<lambda>i. of_nat i) 100 demo_kernel = Ok 0 t \<and>
    uread (pmem t) 0x87000000 7 = Some 7"
proof -
  have "uspace (pmem demo_kernel) 0x87000000" "uwritable (pmem demo_kernel) 0x87000000 0 (unat (100 :: u64))"
    using demo_uspace demo_writable [of 100] by (simp_all add: demo_kernel_def)
  from copyout_correct [OF this, of "\<lambda>i. of_nat i"] show ?thesis by (auto simp: MAXVA_def)
qed

text \<open>
  C6: what \<open>copyout\<close> wrote, \<open>copyin\<close> reads back: both succeed on memory the user may write, and
  the bytes that come back are the bytes that were sent.
\<close>

theorem copyout_copyin:
  fixes s :: "'z kprocs_scheme"
  assumes "uspace (pmem s) pt" "uwritable (pmem s) pt va (unat len)"
  shows "\<exists>t. copyout pt va src len s = Ok 0 t \<and>
    copyin pt dst va len t = Ok (0, \<lambda>i. if i < unat len then src i else dst i) t"
proof -
  from copyout_mapped [OF assms, of src] obtain t where
    t: "copyout pt va src len s = Ok 0 t" "uspace (pmem t) pt"
    "\<And>va. leaf_pte 2 (pmem t) pt va = leaf_pte 2 (pmem s) pt va"
    "\<And>a. a < MAXVA \<Longrightarrow> uread (pmem t) pt a =
      (if unat va \<le> unat a \<and> unat a < unat va + unat len
       then Some (src (unat a - unat va)) else uread (pmem s) pt a)"
    unfolding wp_iff by blast
  have m: "umapped (pmem t) pt va (unat len)" "unat va + unat len \<le> 2 ^ 38"
    using assms(2) by (simp_all add: uwritable_def umapped_def upage_def t(3) MAXVA_small)
  have wf: "pt_wf 2 (pmem t) pt" using t(2) by (simp add: uspace_def)
  have "uread (pmem t) pt (va + of_nat i) = Some (src i)" if "i < unat len" for i
  proof -
    have u: "unat (va + of_nat i) = unat va + i" by (rule unat_plus_small) (use that m(2) in simp)
    have "va + of_nat i < MAXVA" unfolding word_less_nat_alt u MAXVA_small using that m(2) by simp
    from t(4) [OF this] show ?thesis using that by (simp add: u del: unsigned_of_nat)
  qed
  then show ?thesis using t(1) copyin_mapped [OF wf m(1)] by (auto simp: fun_eq_iff)
qed

lemma copyout_copyin_witness:
  "\<exists>t. copyout 0x87000000 10 (\<lambda>i. of_nat (i * i)) 5 (demo_kernel) = Ok 0 t \<and>
    copyin 0x87000000 (\<lambda>_. 0) 10 5 t = Ok (0, \<lambda>i. if i < 5 then of_nat (i * i) else 0) t"
proof -
  have "uwritable demo_mem 0x87000000 (0 + of_nat 10) (15 - 10)"
    by (rule uwritable_rest [OF demo_writable]) simp_all
  then have "uspace (pmem demo_kernel) 0x87000000" "uwritable (pmem demo_kernel) 0x87000000 10 (unat (5 :: u64))"
    using demo_uspace by (simp_all add: demo_kernel_def)
  from copyout_copyin [OF this, of "\<lambda>i. of_nat (i * i)" "\<lambda>_. 0"] show ?thesis by simp
qed

text \<open>
  C7: mapping one unmapped page into a page-table tree: the tree stays a tree and takes only free
  pages. If \<open>mappages\<close> returns 0, the entry of exactly the addresses of that page becomes the
  given frame and permissions; if it returns -1, the allocator is empty and every translation is
  as before. Nothing outside the tree's own pages and the formerly free pages is written.
\<close>

theorem mappages_correct:
  fixes s :: "'z kmach_scheme"
  assumes "tree_ok 2 pt s ps" "va < MAXVA" "va mod PGSIZE = 0" "\<not> present (leaf_pte 2 (pmem s) pt va)"
  shows "\<exists>r t qs. mappages pt va PGSIZE pa perm s = Ok r t \<and> tree_ok 2 pt t qs \<and> set qs \<subseteq> set ps \<and>
    (r = 0 \<or> r = -1 \<and> qs = []) \<and>
    (\<forall>a. leaf_pte 2 (pmem t) pt a =
      (if r = 0 \<and> same_page 2 va a then PA2PTE pa OR perm OR PTE_V else leaf_pte 2 (pmem s) pt a)) \<and>
    (\<forall>b. (\<forall>p\<in>pset 2 (pmem s) pt \<union> set ps. \<not> in_page p b) \<longrightarrow> pmem t b = pmem s b)"
  using mappages_page [OF assms, of pa perm] unfolding wp_iff tree_mem_def by blast

lemma mappages_correct_witness:
  "\<exists>r t. mappages 0x87000000 0x1000 PGSIZE 0x87005000 PTE_R demo_kernel = Ok r t \<and>
    leaf_pte 2 (pmem t) 0x87000000 0 = leaf_pte 2 demo_mem 0x87000000 0"
proof -
  have ok: "tree_ok 2 0x87000000 demo_kernel []"
    by (simp add: tree_ok_def demo_kernel_def demo_wf kmem_inv_def)
  have un: "\<not> present (leaf_pte 2 (pmem demo_kernel) 0x87000000 0x1000)"
    by (simp add: demo_kernel_def demo_leaf px_nat)
  have "\<not> same_page 2 0x1000 0" by (auto simp: same_page_def px_nat)
  with mappages_correct [OF ok _ _ un, of "0x87005000" PTE_R] show ?thesis
    by (simp add: MAXVA_def PGSIZE_def) (force simp: demo_kernel_def)
qed

end
