(* ===== verification/Sched.thy ===== *)
theory Sched
  imports Procdata
begin

text \<open>
  Sleeping, waking up and killing: \<open>sched\<close>, \<open>sleep\<close>, \<open>wakeup\<close>, \<open>kkill\<close> of \<^verbatim>\<open>kernel/proc.c\<close>, on which the sleep
  locks, the log, pipes and the console rest, and \<^verbatim>\<open>kernel/sleeplock.c\<close> itself.

  \<open>sched\<close> ends the run of the process in \<open>Block\<close>. The nesting depth \<open>noff\<close> is the number of locks
  held, and interrupts are off when a lock is held, so \<open>sched\<close> does not test \<open>intr_get\<close> again.
  \<open>sleep\<close> is the code up to the switch; \<open>sleep_return\<close> is the rest, which runs when the scheduler
  switches back. The callers of \<open>sleep\<close> test their condition in a loop: after \<open>sleep_return\<close> they
  are at the head of the loop again.

  A sleep lock is a field of a buffer or an inode: the functions take its spin lock, the channel
  that stands for its address, and how to read and update it.
\<close>

section \<open>sleep and wakeup\<close>

definition sched :: "'z kprocs_scheme \<Rightarrow> ('a, 'z kprocs_scheme) kres" where
  "sched s =
    kbind (myproc s) (\<lambda>p s.
      if LProc p \<notin> held s then Panic ''sched p->lock''
      else if held s \<noteq> {LProc p} then Panic ''sched locks''
      else if p_state (procs s p) = RUNNING then Panic ''sched RUNNING''
      else Block s)"

text \<open>
  The steps of \<open>sleep\<close> and \<open>wakeup\<close> that another hart can come between: a lock taken or given up, or a
  field of the process table changed. \<open>sleep_code\<close> is what \<open>sleep\<close> does up to the call of \<open>sched\<close>,
  \<open>sleep_return_code\<close> what it does after it, and \<open>wakeup_code\<close> what \<open>wakeup\<close> does for one process of the
  table, each in the order of the code. Here they run without interruption; theory Wakeup runs
  the same lists interleaved.
\<close>

datatype lstep =
    Acquire lockid | Release lockid | SetChan nat "chan option" | SetState nat procstate | Wake nat chan

fun step_procs :: "lstep \<Rightarrow> (nat \<Rightarrow> proc) \<Rightarrow> nat \<Rightarrow> proc" where
  "step_procs (SetChan p ch) ps = ps(p := (ps p)\<lparr>p_chan := ch\<rparr>)"
| "step_procs (SetState p st) ps = ps(p := (ps p)\<lparr>p_state := st\<rparr>)"
| "step_procs (Wake p ch) ps =
    (if p_state (ps p) = SLEEPING \<and> p_chan (ps p) = Some ch then ps(p := (ps p)\<lparr>p_state := RUNNABLE\<rparr>) else ps)"
| "step_procs (Acquire l) ps = ps"
| "step_procs (Release l) ps = ps"

fun run_step :: "lstep \<Rightarrow> 'z kprocs_scheme \<Rightarrow> (unit, 'z kprocs_scheme) kres" where
  "run_step (Acquire l) s = acquire l s"
| "run_step (Release l) s = release l s"
| "run_step x s = Ok () (s\<lparr>procs := step_procs x (procs s)\<rparr>)"

definition sleep_code :: "nat \<Rightarrow> chan \<Rightarrow> lockid \<Rightarrow> lstep list" where
  "sleep_code p ch lk = [Acquire (LProc p), Release lk, SetChan p (Some ch), SetState p SLEEPING]"

definition sleep_return_code :: "nat \<Rightarrow> lockid \<Rightarrow> lstep list" where
  "sleep_return_code p lk = [SetChan p None, Release (LProc p), Acquire lk]"

definition wakeup_code :: "nat \<Rightarrow> chan \<Rightarrow> lstep list" where
  "wakeup_code i ch = [Acquire (LProc i), Wake i ch, Release (LProc i)]"

definition sleep :: "chan \<Rightarrow> lockid \<Rightarrow> 'z kprocs_scheme \<Rightarrow> ('a, 'z kprocs_scheme) kres" where
  "sleep ch lk s =
    kbind (myproc s) (\<lambda>p s.
    kbind (foreach run_step (sleep_code p ch lk) s) (\<lambda>_ s.
    sched s))"

definition sleep_return :: "lockid \<Rightarrow> 'z kprocs_scheme \<Rightarrow> (unit, 'z kprocs_scheme) kres" where
  "sleep_return lk s =
    kbind (myproc s) (\<lambda>p s.
    foreach run_step (sleep_return_code p lk) s)"

lemma sleep_eq:
  assumes "curproc s = Some p" "held s = {lk}" "lk \<noteq> LProc p"
  shows "sleep ch lk s = Block (s\<lparr>held := {LProc p},
    procs := (procs s)(p := (procs s p)\<lparr>p_chan := Some ch, p_state := SLEEPING\<rparr>)\<rparr>)"
  using assms
  by (simp add: sleep_def sleep_code_def sched_def myproc_def acquire_free release_held insert_Diff_if)

text \<open>Neither of them returns.\<close>

lemma pwp_sched [wp_simps]: "pwp (sched s) Q"
  and wp_sched [wp_simps]: "\<not> wp (sched s) Q"
  by (simp_all add: sched_def wp_simps)

lemma pwp_sleep [wp_simps]: "pwp (sleep ch lk s) Q"
  and wp_sleep [wp_simps]: "\<not> wp (sleep ch lk s) Q"
  by (simp_all add: sleep_def sleep_code_def wp_simps)

definition wakeup_one :: "chan \<Rightarrow> nat \<Rightarrow> 'z kprocs_scheme \<Rightarrow> (unit, 'z kprocs_scheme) kres" where
  "wakeup_one ch i s = (if curproc s \<noteq> Some i then foreach run_step (wakeup_code i ch) s else Ok () s)"

definition wakeup :: "chan \<Rightarrow> 'z kprocs_scheme \<Rightarrow> (unit, 'z kprocs_scheme) kres" where
  "wakeup ch s = foreach (wakeup_one ch) [0..<NPROC] s"

definition woken :: "chan \<Rightarrow> nat option \<Rightarrow> (nat \<Rightarrow> proc) \<Rightarrow> nat \<Rightarrow> proc" where
  "woken ch cur ps = (\<lambda>i.
    if i < NPROC \<and> cur \<noteq> Some i \<and> p_state (ps i) = SLEEPING \<and> p_chan (ps i) = Some ch
    then (ps i)\<lparr>p_state := RUNNABLE\<rparr> else ps i)"

text \<open>Every other process sleeping on the channel becomes runnable, and nothing else changes.\<close>

lemma wakeup_eq:
  fixes s :: "'z kprocs_scheme"
  assumes "\<And>i. LProc i \<notin> held s"
  shows "wakeup ch s = Ok () (s\<lparr>procs := woken ch (curproc s) (procs s)\<rparr>)"
proof -
  define P where "P k t \<longleftrightarrow> t = s\<lparr>procs := (\<lambda>i. if i < k then woken ch (curproc s) (procs s) i else procs s i)\<rparr>"
    for k and t :: "'z kprocs_scheme"
  have step: "wakeup_one ch k t = Ok () (s\<lparr>procs := (\<lambda>i. if i < Suc k then woken ch (curproc s) (procs s) i
      else procs s i)\<rparr>)" if "k < NPROC" "P k t" for k and t :: "'z kprocs_scheme"
    using that assms
    by (auto simp: P_def wakeup_one_def wakeup_code_def acquire_free release_held woken_def proc_upd_def Let_def
        fun_eq_iff less_Suc_eq intro!: kprocs.fold_congs)
  have "wp (wakeup ch s) (\<lambda>_ t. P (length [0..<NPROC]) t)"
    unfolding wakeup_def
  proof (rule wp_foreach [where I = "\<lambda>ys t. P (length ys) t"])
    show "P (length []) s" by (simp add: P_def)
    fix ys i zs t
    assume x: "[0..<NPROC] = ys @ i # zs" and p: "P (length ys) t"
    have l: "length ys < NPROC" using arg_cong [OF x, of length] by simp
    have "[0..<NPROC] ! length ys = i" unfolding x by simp
    then have "i = length ys" using l by simp
    then show "wp (wakeup_one ch i t) (\<lambda>_ s'. P (length (ys @ [i])) s')"
      using step [OF l p] by (simp add: wp_simps) (simp add: P_def)
  qed
  then obtain t where t: "wakeup ch s = Ok () t" "P NPROC t" by (auto simp: wp_iff)
  moreover have "(\<lambda>i. if i < NPROC then woken ch (curproc s) (procs s) i else procs s i)
      = woken ch (curproc s) (procs s)" by (auto simp: woken_def)
  ultimately show ?thesis by (simp add: P_def)
qed

lemma woken_fields [simp]:
  "p_pid (woken ch cur ps i) = p_pid (ps i)" "p_chan (woken ch cur ps i) = p_chan (ps i)"
  "p_killed (woken ch cur ps i) = p_killed (ps i)" "p_xstate (woken ch cur ps i) = p_xstate (ps i)"
  "p_parent (woken ch cur ps i) = p_parent (ps i)" "p_sz (woken ch cur ps i) = p_sz (ps i)"
  "p_pagetable (woken ch cur ps i) = p_pagetable (ps i)"
  "p_trapframe (woken ch cur ps i) = p_trapframe (ps i)"
  "p_ofile (woken ch cur ps i) = p_ofile (ps i)" "p_cwd (woken ch cur ps i) = p_cwd (ps i)"
  by (simp_all add: woken_def)

section \<open>Killing\<close>

definition setkilled :: "nat \<Rightarrow> 'z kprocs_scheme \<Rightarrow> (unit, 'z kprocs_scheme) kres" where
  "setkilled p s =
    kbind (acquire (LProc p) s) (\<lambda>_ s.
    release (LProc p) (proc_upd p (\<lambda>q. q\<lparr>p_killed := 1\<rparr>) s))"

definition killed :: "nat \<Rightarrow> 'z kprocs_scheme \<Rightarrow> (int, 'z kprocs_scheme) kres" where
  "killed p s =
    kbind (acquire (LProc p) s) (\<lambda>_ s.
    let k = p_killed (procs s p) in
    kbind (release (LProc p) s) (\<lambda>_ s. Ok k s))"

definition kkill_one :: "int \<Rightarrow> nat \<Rightarrow> 'z kprocs_scheme \<Rightarrow> (int option, 'z kprocs_scheme) kres" where
  "kkill_one pid p s =
    kbind (acquire (LProc p) s) (\<lambda>_ s.
      if p_pid (procs s p) = pid then
        let s = proc_upd p (\<lambda>q. q\<lparr>p_killed := 1\<rparr>) s;
            s = (if p_state (procs s p) = SLEEPING then proc_upd p (\<lambda>q. q\<lparr>p_state := RUNNABLE\<rparr>) s else s)
        in kbind (release (LProc p) s) (\<lambda>_ s. Ok (Some 0) s)
      else kbind (release (LProc p) s) (\<lambda>_ s. Ok None s))"

definition kkill :: "int \<Rightarrow> 'z kprocs_scheme \<Rightarrow> (int, 'z kprocs_scheme) kres" where
  "kkill pid s =
    kbind (kscan (kkill_one pid) [0..<NPROC] s) (\<lambda>r s.
      case r of Some v \<Rightarrow> Ok v s | None \<Rightarrow> Ok (- 1) s)"

lemma killed_eq: "LProc p \<notin> held s \<Longrightarrow> killed p s = Ok (p_killed (procs s p)) s"
  by (simp add: killed_def acquire_free release_held)

section \<open>Sleep locks\<close>

record sleeplock =
  sl_locked :: bool
  sl_pid :: int

definition initsleeplock :: sleeplock where
  "initsleeplock = \<lparr>sl_locked = False, sl_pid = 0\<rparr>"

text \<open>
  A process that finds the lock taken sleeps; woken, it starts again at the head of the loop.
\<close>

definition acquiresleep ::
  "lockid \<Rightarrow> chan \<Rightarrow> ('z kprocs_scheme \<Rightarrow> sleeplock) \<Rightarrow>
    ((sleeplock \<Rightarrow> sleeplock) \<Rightarrow> 'z kprocs_scheme \<Rightarrow> 'z kprocs_scheme) \<Rightarrow>
    'z kprocs_scheme \<Rightarrow> (unit, 'z kprocs_scheme) kres" where
  "acquiresleep lk ch get upd s =
    kbind (acquire lk s) (\<lambda>_ s.
      if sl_locked (get s) then sleep ch lk s
      else
        let s = upd (\<lambda>l. l\<lparr>sl_locked := True\<rparr>) s
        in kbind (myproc s) (\<lambda>p s.
           let s = upd (\<lambda>l. l\<lparr>sl_pid := p_pid (procs s p)\<rparr>) s
           in release lk s))"

definition releasesleep ::
  "lockid \<Rightarrow> chan \<Rightarrow> ((sleeplock \<Rightarrow> sleeplock) \<Rightarrow> 'z kprocs_scheme \<Rightarrow> 'z kprocs_scheme) \<Rightarrow>
    'z kprocs_scheme \<Rightarrow> (unit, 'z kprocs_scheme) kres" where
  "releasesleep lk ch upd s =
    kbind (acquire lk s) (\<lambda>_ s.
      let s = upd (\<lambda>l. l\<lparr>sl_locked := False\<rparr>) s;
          s = upd (\<lambda>l. l\<lparr>sl_pid := 0\<rparr>) s
      in kbind (wakeup ch s) (\<lambda>_ s. release lk s))"

definition holdingsleep ::
  "lockid \<Rightarrow> ('z kprocs_scheme \<Rightarrow> sleeplock) \<Rightarrow> 'z kprocs_scheme \<Rightarrow> (bool, 'z kprocs_scheme) kres" where
  "holdingsleep lk get s =
    kbind (acquire lk s) (\<lambda>_ s.
    kbind (if sl_locked (get s)
           then kbind (myproc s) (\<lambda>p s. Ok (sl_pid (get s) = p_pid (procs s p)) s)
           else Ok False s) (\<lambda>r s.
    kbind (release lk s) (\<lambda>_ s. Ok r s)))"

end
