(* ===== verification/Bio.thy ===== *)
theory Bio
  imports Sched
begin

text \<open>
  The buffer cache: \<^verbatim>\<open>kernel/bio.c\<close>.

  Buffers are numbered \<open>0..<NBUF\<close>; number \<open>NBUF\<close> is the list head \<open>bcache.head\<close>. The two
  directions of the doubly linked list are the fields \<open>b_prev\<close> and \<open>b_next\<close>. The disk is a map
  from block numbers to blocks, and a block a function from offsets to bytes.
  \<open>virtio_disk_rw\<close> is the driver's contract (the transfer of one block and its completion); the
  driver itself is in the theory \<open>Virtio\<close>. \<open>writes\<close> records the blocks written to the disk,
  oldest first.
\<close>

section \<open>State\<close>

record buf =
  b_valid :: bool
  b_disk :: bool
  b_dev :: u32
  b_blockno :: u32
  b_lock :: sleeplock
  b_refcnt :: u32
  b_prev :: nat
  b_next :: nat
  b_data :: bytes

record kbio = kprocs +
  bufs :: "nat \<Rightarrow> buf"
  disk :: "u32 \<Rightarrow> bytes"
  writes :: "(u32 \<times> bytes) list"

definition BSIZE :: nat where "BSIZE = 1024"

abbreviation HEAD :: nat where "HEAD \<equiv> NBUF"

definition buf_upd :: "nat \<Rightarrow> (buf \<Rightarrow> buf) \<Rightarrow> 'z kbio_scheme \<Rightarrow> 'z kbio_scheme" where
  "buf_upd i f s = s\<lparr>bufs := (bufs s)(i := f (bufs s i))\<rparr>"

definition buf_slock :: "nat \<Rightarrow> 'z kbio_scheme \<Rightarrow> sleeplock" where
  "buf_slock i s = b_lock (bufs s i)"

definition buf_slock_upd :: "nat \<Rightarrow> (sleeplock \<Rightarrow> sleeplock) \<Rightarrow> 'z kbio_scheme \<Rightarrow> 'z kbio_scheme" where
  "buf_slock_upd i f s = buf_upd i (\<lambda>b. b\<lparr>b_lock := f (b_lock b)\<rparr>) s"

text \<open>One transfer: reading fills the buffer, writing stores it (and is recorded).\<close>

definition virtio_disk_rw :: "nat \<Rightarrow> bool \<Rightarrow> 'z kbio_scheme \<Rightarrow> (unit, 'z kbio_scheme) kres" where
  "virtio_disk_rw i wr s =
    (let b = bufs s i in
     if wr then Ok () (s\<lparr>disk := (disk s)(b_blockno b := b_data b), writes := writes s @ [(b_blockno b, b_data b)]\<rparr>)
     else Ok () (buf_upd i (\<lambda>b. b\<lparr>b_data := disk s (b_blockno b)\<rparr>) s))"

section \<open>Operations\<close>

text \<open>The insertion at the front of the list: the four stores that \<open>binit\<close> and \<open>brelse\<close> share.\<close>

definition link_front :: "nat \<Rightarrow> 'z kbio_scheme \<Rightarrow> 'z kbio_scheme" where
  "link_front i s =
    (let s = buf_upd i (\<lambda>b. b\<lparr>b_next := b_next (bufs s HEAD)\<rparr>) s;
         s = buf_upd i (\<lambda>b. b\<lparr>b_prev := HEAD\<rparr>) s;
         s = buf_upd (b_next (bufs s HEAD)) (\<lambda>b. b\<lparr>b_prev := i\<rparr>) s
     in buf_upd HEAD (\<lambda>b. b\<lparr>b_next := i\<rparr>) s)"

definition unlink :: "nat \<Rightarrow> 'z kbio_scheme \<Rightarrow> 'z kbio_scheme" where
  "unlink i s =
    (let s = buf_upd (b_next (bufs s i)) (\<lambda>b. b\<lparr>b_prev := b_prev (bufs s i)\<rparr>) s
     in buf_upd (b_prev (bufs s i)) (\<lambda>b. b\<lparr>b_next := b_next (bufs s i)\<rparr>) s)"

fun binit_loop :: "nat list \<Rightarrow> 'z kbio_scheme \<Rightarrow> 'z kbio_scheme" where
  "binit_loop [] s = s"
| "binit_loop (i # is) s =
    binit_loop is (link_front i (buf_upd i (\<lambda>b. b\<lparr>b_lock := initsleeplock\<rparr>) s))"

definition binit :: "'z kbio_scheme \<Rightarrow> 'z kbio_scheme" where
  "binit s =
    (let s = s\<lparr>held := held s - {LBcache}\<rparr>;
         s = buf_upd HEAD (\<lambda>b. b\<lparr>b_prev := HEAD\<rparr>) s;
         s = buf_upd HEAD (\<lambda>b. b\<lparr>b_next := HEAD\<rparr>) s
     in binit_loop [0..<NBUF] s)"

text \<open>
  The search loops follow one direction of the list until they are back at the head. The list
  has \<open>NBUF\<close> elements besides the head, so \<open>NBUF\<close> steps are enough; \<open>bget\<close> on a list that does
  not come back in that many steps is outside the model and ends in the same \<open>panic\<close> as a full
  cache.
\<close>

fun ring_find :: "nat \<Rightarrow> (nat \<Rightarrow> nat) \<Rightarrow> (nat \<Rightarrow> bool) \<Rightarrow> nat \<Rightarrow> nat option" where
  "ring_find 0 step P b = None"
| "ring_find (Suc k) step P b =
    (if b = HEAD then None else if P b then Some b else ring_find k step P (step b))"

abbreviation acquire_buf :: "nat \<Rightarrow> 'z kbio_scheme \<Rightarrow> (unit, 'z kbio_scheme) kres" where
  "acquire_buf i \<equiv> acquiresleep (LBuf i) (ChBuf i) (buf_slock i) (buf_slock_upd i)"

abbreviation release_buf :: "nat \<Rightarrow> 'z kbio_scheme \<Rightarrow> (unit, 'z kbio_scheme) kres" where
  "release_buf i \<equiv> releasesleep (LBuf i) (ChBuf i) (buf_slock_upd i)"

abbreviation holding_buf :: "nat \<Rightarrow> 'z kbio_scheme \<Rightarrow> (bool, 'z kbio_scheme) kres" where
  "holding_buf i \<equiv> holdingsleep (LBuf i) (buf_slock i)"

definition bget :: "u32 \<Rightarrow> u32 \<Rightarrow> 'z kbio_scheme \<Rightarrow> (nat, 'z kbio_scheme) kres" where
  "bget dev blockno s =
    kbind (acquire LBcache s) (\<lambda>_ s.
    case ring_find NBUF (\<lambda>b. b_next (bufs s b)) (\<lambda>b. b_dev (bufs s b) = dev \<and> b_blockno (bufs s b) = blockno)
        (b_next (bufs s HEAD)) of
      Some i \<Rightarrow>
        let s = buf_upd i (\<lambda>b. b\<lparr>b_refcnt := b_refcnt b + 1\<rparr>) s
        in kbind (release LBcache s) (\<lambda>_ s. kbind (acquire_buf i s) (\<lambda>_ s. Ok i s))
    | None \<Rightarrow>
       (case ring_find NBUF (\<lambda>b. b_prev (bufs s b)) (\<lambda>b. b_refcnt (bufs s b) = 0) (b_prev (bufs s HEAD)) of
          Some i \<Rightarrow>
            let s = buf_upd i (\<lambda>b. b\<lparr>b_dev := dev, b_blockno := blockno, b_valid := False, b_refcnt := 1\<rparr>) s
            in kbind (release LBcache s) (\<lambda>_ s. kbind (acquire_buf i s) (\<lambda>_ s. Ok i s))
        | None \<Rightarrow> Panic ''bget: no buffers''))"

definition bread :: "u32 \<Rightarrow> u32 \<Rightarrow> 'z kbio_scheme \<Rightarrow> (nat, 'z kbio_scheme) kres" where
  "bread dev blockno s =
    kbind (bget dev blockno s) (\<lambda>i s.
      if \<not> b_valid (bufs s i) then
        kbind (virtio_disk_rw i False s) (\<lambda>_ s. Ok i (buf_upd i (\<lambda>b. b\<lparr>b_valid := True\<rparr>) s))
      else Ok i s)"

definition bwrite :: "nat \<Rightarrow> 'z kbio_scheme \<Rightarrow> (unit, 'z kbio_scheme) kres" where
  "bwrite i s =
    kbind (holding_buf i s) (\<lambda>h s. if \<not> h then Panic ''bwrite'' else virtio_disk_rw i True s)"

definition brelse :: "nat \<Rightarrow> 'z kbio_scheme \<Rightarrow> (unit, 'z kbio_scheme) kres" where
  "brelse i s =
    kbind (holding_buf i s) (\<lambda>h s.
      if \<not> h then Panic ''brelse''
      else kbind (release_buf i s) (\<lambda>_ s.
        kbind (acquire LBcache s) (\<lambda>_ s.
        let s = buf_upd i (\<lambda>b. b\<lparr>b_refcnt := b_refcnt b - 1\<rparr>) s;
            s = (if b_refcnt (bufs s i) = 0 then link_front i (unlink i s) else s)
        in release LBcache s)))"

definition bpin :: "nat \<Rightarrow> 'z kbio_scheme \<Rightarrow> (unit, 'z kbio_scheme) kres" where
  "bpin i s =
    kbind (acquire LBcache s) (\<lambda>_ s.
    release LBcache (buf_upd i (\<lambda>b. b\<lparr>b_refcnt := b_refcnt b + 1\<rparr>) s))"

definition bunpin :: "nat \<Rightarrow> 'z kbio_scheme \<Rightarrow> (unit, 'z kbio_scheme) kres" where
  "bunpin i s =
    kbind (acquire LBcache s) (\<lambda>_ s.
    release LBcache (buf_upd i (\<lambda>b. b\<lparr>b_refcnt := b_refcnt b - 1\<rparr>) s))"

section \<open>The list\<close>

fun lseg :: "(nat \<Rightarrow> nat) \<Rightarrow> nat \<Rightarrow> nat list \<Rightarrow> nat \<Rightarrow> bool" where
  "lseg nx a [] b \<longleftrightarrow> nx a = b"
| "lseg nx a (x # xs) b \<longleftrightarrow> nx a = x \<and> lseg nx x xs b"

lemma lseg_append: "lseg nx a (xs @ y # ys) b \<longleftrightarrow> lseg nx a xs y \<and> lseg nx y ys b"
  by (induction xs arbitrary: a) auto

lemma lseg_cong: "(\<And>x. x \<in> set (a # xs) \<Longrightarrow> nx x = nx' x) \<Longrightarrow> lseg nx a xs b = lseg nx' a xs b"
  by (induction xs arbitrary: a) auto

lemma lseg_upd_last:
  "distinct (a # xs) \<Longrightarrow> lseg nx a xs b \<Longrightarrow> lseg (nx(last (a # xs) := c)) a xs c"
  by (induction xs arbitrary: a) (auto split: if_splits)

lemma lseg_last: "lseg nx a xs b \<Longrightarrow> nx (last (a # xs)) = b"
  by (induction xs arbitrary: a) auto

text \<open>\<open>ring B xs\<close>: from the head, the forward links give \<open>xs\<close> and the backward ones its reverse.\<close>

definition nxt :: "(nat \<Rightarrow> buf) \<Rightarrow> nat \<Rightarrow> nat" where "nxt B i = b_next (B i)"
definition prv :: "(nat \<Rightarrow> buf) \<Rightarrow> nat \<Rightarrow> nat" where "prv B i = b_prev (B i)"

definition ring_of :: "(nat \<Rightarrow> buf) \<Rightarrow> nat list \<Rightarrow> bool" where
  "ring_of B xs \<longleftrightarrow> lseg (nxt B) HEAD xs HEAD \<and> lseg (prv B) HEAD (rev xs) HEAD \<and>
    distinct xs \<and> (\<forall>x\<in>set xs. x < NBUF)"

definition ring :: "(nat \<Rightarrow> buf) \<Rightarrow> nat list \<Rightarrow> bool" where
  "ring B xs \<longleftrightarrow> ring_of B xs \<and> set xs = {..<NBUF}"

lemma find_SomeD: "find P xs = Some x \<Longrightarrow> x \<in> set xs \<and> P x"
  by (induction xs) (auto split: if_splits)

lemma ring_find_list:
  "lseg step a xs HEAD \<Longrightarrow> \<forall>x\<in>set xs. x < NBUF \<Longrightarrow> length xs \<le> k \<Longrightarrow>
    ring_find k step P (step a) = find P xs"
proof (induction xs arbitrary: a k)
  case Nil
  then show ?case by (cases k) auto
next
  case (Cons x xs)
  then obtain j where "k = Suc j" by (cases k) auto
  with Cons show ?case by auto
qed

lemma ring_length: "ring B xs \<Longrightarrow> length xs = NBUF"
  unfolding ring_def ring_of_def using distinct_card [of xs] by auto

lemma ring_find_next:
  "ring B xs \<Longrightarrow> ring_find NBUF (\<lambda>b. b_next (B b)) P (b_next (B HEAD)) = find P xs"
  using ring_find_list [of "nxt B" HEAD xs NBUF P] ring_length [of B xs]
  by (auto simp: ring_def ring_of_def nxt_def [abs_def])

lemma ring_find_prev:
  "ring B xs \<Longrightarrow> ring_find NBUF (\<lambda>b. b_prev (B b)) P (b_prev (B HEAD)) = find P (rev xs)"
  using ring_find_list [of "prv B" HEAD "rev xs" NBUF P] ring_length [of B xs]
  by (auto simp: ring_def ring_of_def prv_def [abs_def])

lemma ring_of_cong:
  "(\<And>i. i \<le> NBUF \<Longrightarrow> b_next (B' i) = b_next (B i) \<and> b_prev (B' i) = b_prev (B i)) \<Longrightarrow>
    ring_of B' xs = ring_of B xs"
proof -
  assume c: "\<And>i. i \<le> NBUF \<Longrightarrow> b_next (B' i) = b_next (B i) \<and> b_prev (B' i) = b_prev (B i)"
  have "lseg (nxt B') HEAD xs HEAD = lseg (nxt B) HEAD xs HEAD"
    "lseg (prv B') HEAD (rev xs) HEAD = lseg (prv B) HEAD (rev xs) HEAD" if "\<forall>x\<in>set xs. x < NBUF"
    using that by (auto intro!: lseg_cong simp: nxt_def prv_def c less_imp_le)
  then show ?thesis unfolding ring_of_def by blast
qed

lemma buf_upd_bufs [simp]: "bufs (buf_upd i f s) = (bufs s)(i := f (bufs s i))"
  by (simp add: buf_upd_def)

lemma nxt_upd: "nxt (B(i := b)) = (nxt B)(i := b_next b)"
  and prv_upd: "prv (B(i := b)) = (prv B)(i := b_prev b)"
  by (auto simp: nxt_def prv_def fun_eq_iff)

text \<open>Insertion at the front.\<close>

lemma link_front_ring:
  assumes "ring_of (bufs s) xs" "i < NBUF" "i \<notin> set xs"
  shows "ring_of (bufs (link_front i s)) (i # xs)"
proof -
  let ?B = "bufs s"
  have f: "lseg (nxt ?B) HEAD xs HEAD" and p: "lseg (prv ?B) HEAD (rev xs) HEAD"
    and d: "distinct xs" and b: "\<forall>x\<in>set xs. x < NBUF"
    using assms(1) by (auto simp: ring_of_def)
  let ?h = "b_next (?B HEAD)"
  have h: "?h = (if xs = [] then HEAD else hd xs)" using f by (cases xs) (auto simp: nxt_def)
  have hi: "?h \<noteq> i" using h assms(2,3) by (cases xs) auto
  have nx: "nxt (bufs (link_front i s)) = ((nxt ?B)(i := ?h))(HEAD := i)"
    using assms(2) hi by (auto simp: link_front_def nxt_def fun_eq_iff Let_def)
  have pv: "prv (bufs (link_front i s)) = ((prv ?B)(i := HEAD))(?h := i)"
    using assms(2) hi by (auto simp: link_front_def prv_def fun_eq_iff Let_def)
  have "lseg (nxt (bufs (link_front i s))) i xs HEAD"
  proof (cases xs)
    case Nil
    then show ?thesis using assms(2) h by (simp add: nx)
  next
    case (Cons x ys)
    then have "lseg (((nxt ?B)(i := ?h))(HEAD := i)) x ys HEAD = lseg (nxt ?B) x ys HEAD"
      using assms(3) b by (intro lseg_cong) auto
    then show ?thesis using Cons f h assms(2) by (simp add: nx)
  qed
  then have fwd: "lseg (nxt (bufs (link_front i s))) HEAD (i # xs) HEAD"
    by (simp add: nx)
  have bwd: "lseg (prv (bufs (link_front i s))) HEAD (rev (i # xs)) HEAD"
  proof -
    have l: "last (HEAD # rev xs) = ?h" using h by (cases xs) (auto simp: last_rev)
    have "lseg ((prv ?B)(last (HEAD # rev xs) := i)) HEAD (rev xs) i"
      by (rule lseg_upd_last [OF _ p]) (use d b in auto)
    moreover have "lseg ((prv ?B)(?h := i)) HEAD (rev xs) i =
        lseg (((prv ?B)(i := HEAD))(?h := i)) HEAD (rev xs) i"
      using assms(2,3) by (intro lseg_cong) auto
    ultimately show ?thesis using l hi by (simp add: lseg_append pv)
  qed
  show ?thesis unfolding ring_of_def using fwd bwd d b assms(2,3) by simp
qed

text \<open>Removal of an element.\<close>

lemma unlink_ring:
  assumes "ring_of (bufs s) (us @ i # vs)"
  shows "ring_of (bufs (unlink i s)) (us @ vs)"
proof -
  let ?B = "bufs s"
  have f: "lseg (nxt ?B) HEAD us i" "lseg (nxt ?B) i vs HEAD"
    and p: "lseg (prv ?B) HEAD (rev vs) i" "lseg (prv ?B) i (rev us) HEAD"
    and d: "distinct (us @ i # vs)" and b: "\<forall>x\<in>set (us @ i # vs). x < NBUF"
    using assms by (auto simp: ring_of_def lseg_append)
  have n: "b_next (?B i) = hd (vs @ [HEAD])" using f(2) by (cases vs) (auto simp: nxt_def)
  have q: "b_prev (?B i) = last (HEAD # us)" using p(2) by (cases us rule: rev_cases) (auto simp: prv_def)
  have ni: "b_next (?B i) \<noteq> i" using n d b by (cases vs) auto
  have "nxt (bufs (unlink i s)) = (nxt ?B)(b_prev (?B i) := b_next (?B i))"
    "prv (bufs (unlink i s)) = (prv ?B)(b_next (?B i) := b_prev (?B i))"
    using ni by (auto simp: unlink_def nxt_def prv_def fun_eq_iff Let_def)
  then have nx: "nxt (bufs (unlink i s)) = (nxt ?B)(last (HEAD # us) := hd (vs @ [HEAD]))"
    and pv: "prv (bufs (unlink i s)) = (prv ?B)(hd (vs @ [HEAD]) := last (HEAD # us))"
    by (simp_all only: n q)
  have fwd: "lseg (nxt (bufs (unlink i s))) HEAD (us @ vs) HEAD"
  proof -
    have u: "lseg (nxt (bufs (unlink i s))) HEAD us (hd (vs @ [HEAD]))"
      unfolding nx by (rule lseg_upd_last [OF _ f(1)]) (use d b in auto)
    show ?thesis
    proof (cases vs)
      case Nil
      with u show ?thesis by simp
    next
      case (Cons v ws)
      have "lseg (nxt (bufs (unlink i s))) v ws HEAD = lseg (nxt ?B) v ws HEAD"
        unfolding nx
      proof (rule lseg_cong)
        fix x assume x: "x \<in> set (v # ws)"
        have "last (HEAD # us) \<in> insert HEAD (set us)" by simp
        moreover have "x \<notin> insert HEAD (set us)" using x d b Cons by auto
        ultimately show "((nxt ?B)(last (HEAD # us) := hd (vs @ [HEAD]))) x = nxt ?B x" by auto
      qed
      with u f(2) Cons show ?thesis by (simp add: lseg_append)
    qed
  qed
  have bwd: "lseg (prv (bufs (unlink i s))) HEAD (rev (us @ vs)) HEAD"
  proof -
    have l: "last (HEAD # rev vs) = hd (vs @ [HEAD])" by (cases vs) (auto simp: last_rev)
    have v: "lseg (prv (bufs (unlink i s))) HEAD (rev vs) (last (HEAD # us))"
      unfolding pv l [symmetric] by (rule lseg_upd_last [OF _ p(1)]) (use d b in auto)
    show ?thesis
    proof (cases us rule: rev_cases)
      case Nil
      with v show ?thesis by simp
    next
      case (snoc ws u)
      have "lseg (prv (bufs (unlink i s))) u (rev ws) HEAD = lseg (prv ?B) u (rev ws) HEAD"
        unfolding pv by (rule lseg_cong) (use d b snoc in \<open>cases vs; auto\<close>)
      with v p(2) snoc show ?thesis by (simp add: lseg_append)
    qed
  qed
  show ?thesis unfolding ring_of_def using fwd bwd d b by auto
qed

text \<open>\<open>binit\<close> builds the ring of all the buffers.\<close>

lemma binit_loop_ring:
  "ring_of (bufs s) xs \<Longrightarrow> distinct (rev is @ xs) \<Longrightarrow> \<forall>i\<in>set is. i < NBUF \<Longrightarrow>
    ring_of (bufs (binit_loop is s)) (rev is @ xs)"
proof (induction "is" arbitrary: s xs)
  case (Cons i "is")
  let ?s = "buf_upd i (\<lambda>b. b\<lparr>b_lock := initsleeplock\<rparr>) s"
  have "ring_of (bufs ?s) xs"
    using Cons.prems(1) by (subst ring_of_cong [of _ "bufs s"]) auto
  then have "ring_of (bufs (link_front i ?s)) (i # xs)"
    using Cons.prems by (intro link_front_ring) auto
  from Cons.IH [OF this] Cons.prems show ?case by simp
qed simp

lemma binit_ring: "ring (bufs (binit s)) (rev [0..<NBUF])"
proof -
  have "ring_of (bufs (buf_upd HEAD (\<lambda>b. b\<lparr>b_next := HEAD\<rparr>) (buf_upd HEAD (\<lambda>b. b\<lparr>b_prev := HEAD\<rparr>)
      (s\<lparr>held := held s - {LBcache}\<rparr>)))) []"
    by (simp add: ring_of_def nxt_def prv_def)
  from binit_loop_ring [OF this, of "[0..<NBUF]"] show ?thesis
    by (auto simp: binit_def Let_def ring_def)
qed

end
