(* ===== verification/Bcache.thy ===== *)
theory Bcache
  imports Bio
begin

text \<open>
  What the buffer cache promises its clients. \<open>bio_inv s H L\<close>: the running process holds the
  buffers \<open>H\<close>, and \<open>L\<close> is the set of blocks that the log has pinned. \<open>blk s n\<close> is the logical
  content of block \<open>n\<close>: what is cached, or what is on the disk. \<open>bread\<close> returns a buffer with the
  logical content and changes it for no block; an update of a held buffer changes it for that
  block only; \<open>brelse\<close> gives the buffer back.
\<close>

section \<open>Sleep locks of the running process\<close>

definition mypid :: "'z kprocs_scheme \<Rightarrow> int" where
  "mypid s = (case curproc s of None \<Rightarrow> 0 | Some p \<Rightarrow> p_pid (procs s p))"

lemma sleeplock_full [simp]:
  "l\<lparr>sl_locked := a, sl_pid := b\<rparr> = \<lparr>sl_locked = a, sl_pid = b\<rparr>" for l :: sleeplock
  by (cases l) simp

lemma mypid_bufs [simp]: "mypid (s\<lparr>bufs := B\<rparr>) = mypid s"
  by (simp add: mypid_def split: option.split)

lemma mypid_held [simp]: "mypid (s\<lparr>held := h\<rparr>) = mypid s"
  by (simp add: mypid_def split: option.split)

lemma acquire_buf_eq:
  assumes "LBuf i \<notin> held s" "curproc s = Some p" "\<not> sl_locked (b_lock (bufs s i))"
  shows "acquire_buf i s = Ok ()
    (buf_upd i (\<lambda>b. b\<lparr>b_lock := \<lparr>sl_locked = True, sl_pid = mypid s\<rparr>\<rparr>) s)"
  using assms
  by (simp add: acquiresleep_def acquire_free release_held Let_def buf_slock_def buf_slock_upd_def
      buf_upd_def myproc_def mypid_def)

lemma holding_buf_eq:
  assumes "LBuf i \<notin> held s" "curproc s = Some p"
  shows "holding_buf i s =
    Ok (sl_locked (b_lock (bufs s i)) \<and> sl_pid (b_lock (bufs s i)) = mypid s) s"
  using assms
  by (simp add: holdingsleep_def acquire_free release_held buf_slock_def myproc_def mypid_def)

lemma release_buf_eq:
  assumes "LBuf i \<notin> held s" "\<And>j. LProc j \<notin> held s"
  shows "release_buf i s = Ok ()
    (buf_upd i (\<lambda>b. b\<lparr>b_lock := initsleeplock\<rparr>) (s\<lparr>procs := woken (ChBuf i) (curproc s) (procs s)\<rparr>))"
  using assms
  by (simp add: releasesleep_def acquire_free release_held Let_def buf_slock_upd_def buf_upd_def
      wakeup_eq initsleeplock_def)

section \<open>The invariant\<close>

definition hit :: "(nat \<Rightarrow> buf) \<Rightarrow> nat \<Rightarrow> u32 \<Rightarrow> bool" where
  "hit B i n \<longleftrightarrow> i < NBUF \<and> b_valid (B i) \<and> b_dev (B i) = ROOTDEV \<and> b_blockno (B i) = n"

definition lblk :: "(nat \<Rightarrow> buf) \<Rightarrow> (u32 \<Rightarrow> bytes) \<Rightarrow> u32 \<Rightarrow> bytes" where
  "lblk B D n = (case find (\<lambda>i. hit B i n) [0..<NBUF] of None \<Rightarrow> D n | Some i \<Rightarrow> b_data (B i))"

definition blk :: "'z kbio_scheme \<Rightarrow> u32 \<Rightarrow> bytes" where
  "blk s n = lblk (bufs s) (disk s) n"

definition binv :: "(nat \<Rightarrow> buf) \<Rightarrow> (u32 \<Rightarrow> bytes) \<Rightarrow> int \<Rightarrow> nat set \<Rightarrow> u32 set \<Rightarrow> bool" where
  "binv B D pid H L \<longleftrightarrow>
    (\<exists>xs. ring B xs) \<and> finite L \<and> H \<subseteq> {..<NBUF} \<and>
    (\<forall>i<NBUF. \<forall>j<NBUF. b_dev (B i) = ROOTDEV \<longrightarrow> b_dev (B j) = ROOTDEV \<longrightarrow>
      b_blockno (B i) = b_blockno (B j) \<longrightarrow> i = j) \<and>
    (\<forall>i<NBUF. unat (b_refcnt (B i)) = (if i \<in> H then 1 else 0) +
      (if b_dev (B i) = ROOTDEV \<and> b_blockno (B i) \<in> L then 1 else 0)) \<and>
    (\<forall>i<NBUF. sl_locked (b_lock (B i)) \<longleftrightarrow> i \<in> H) \<and>
    (\<forall>i\<in>H. sl_pid (b_lock (B i)) = pid \<and> b_valid (B i) \<and> b_dev (B i) = ROOTDEV) \<and>
    (\<forall>i n. hit B i n \<longrightarrow> i \<notin> H \<longrightarrow> n \<notin> L \<longrightarrow> b_data (B i) = D n) \<and>
    (\<forall>n\<in>L. \<exists>i. hit B i n)"

definition bio_inv :: "'z kbio_scheme \<Rightarrow> nat set \<Rightarrow> u32 set \<Rightarrow> bool" where
  "bio_inv s H L \<longleftrightarrow> held s = {} \<and> curproc s \<noteq> None \<and> binv (bufs s) (disk s) (mypid s) H L"

lemma ring_upd:
  "b_next b = b_next (B i) \<Longrightarrow> b_prev b = b_prev (B i) \<Longrightarrow> ring (B(i := b)) xs = ring B xs"
proof -
  assume "b_next b = b_next (B i)" "b_prev b = b_prev (B i)"
  then have "ring_of (B(i := b)) xs = ring_of B xs" by (intro ring_of_cong) auto
  then show ?thesis by (simp add: ring_def)
qed

lemma binvD:
  assumes "binv B D pid H L"
  shows "\<exists>xs. ring B xs" "finite L" "H \<subseteq> {..<NBUF}"
    and "i < NBUF \<Longrightarrow> j < NBUF \<Longrightarrow> b_dev (B i) = ROOTDEV \<Longrightarrow> b_dev (B j) = ROOTDEV \<Longrightarrow>
      b_blockno (B i) = b_blockno (B j) \<Longrightarrow> i = j"
    and "i < NBUF \<Longrightarrow> unat (b_refcnt (B i)) = (if i \<in> H then 1 else 0) +
      (if b_dev (B i) = ROOTDEV \<and> b_blockno (B i) \<in> L then 1 else 0)"
    and "i < NBUF \<Longrightarrow> sl_locked (b_lock (B i)) \<longleftrightarrow> i \<in> H"
    and "i \<in> H \<Longrightarrow> sl_pid (b_lock (B i)) = pid" "i \<in> H \<Longrightarrow> b_valid (B i)" "i \<in> H \<Longrightarrow> b_dev (B i) = ROOTDEV"
    and "hit B i n \<Longrightarrow> i \<notin> H \<Longrightarrow> n \<notin> L \<Longrightarrow> b_data (B i) = D n"
    and "n \<in> L \<Longrightarrow> \<exists>i. hit B i n"
  using assms unfolding binv_def by blast+

lemma hit_unique: "binv B D pid H L \<Longrightarrow> hit B i n \<Longrightarrow> hit B j n \<Longrightarrow> i = j"
  by (rule binvD(4) [of B D pid H L]) (auto simp: hit_def)

lemma lblk_hit: "binv B D pid H L \<Longrightarrow> hit B i n \<Longrightarrow> lblk B D n = b_data (B i)"
proof -
  assume b: "binv B D pid H L" and h: "hit B i n"
  then obtain j where "find (\<lambda>i. hit B i n) [0..<NBUF] = Some j"
    by (cases "find (\<lambda>i. hit B i n) [0..<NBUF]") (auto simp: find_None_iff hit_def)
  moreover from this have "hit B j n" by (auto simp: find_Some_iff)
  ultimately show ?thesis using hit_unique [OF b h] by (simp add: lblk_def)
qed

lemma lblk_miss: "(\<And>i. \<not> hit B i n) \<Longrightarrow> lblk B D n = D n"
  by (simp add: lblk_def find_None_iff [THEN iffD2])

lemma lblk_cases: "lblk B D n = D n \<or> (\<exists>i. hit B i n \<and> lblk B D n = b_data (B i))"
  by (auto simp: lblk_def find_Some_iff split: option.split)

text \<open>What changed: only buffers and the run states of processes; held buffers keep their block.\<close>

definition bframe :: "nat set \<Rightarrow> 'z kbio_scheme \<Rightarrow> 'z kbio_scheme \<Rightarrow> bool" where
  "bframe H s t \<longleftrightarrow> t = s\<lparr>procs := procs t, bufs := bufs t\<rparr> \<and>
    (\<forall>p. \<exists>st. procs t p = (procs s p)\<lparr>p_state := st\<rparr>) \<and>
    (\<forall>j\<in>H. b_data (bufs t j) = b_data (bufs s j) \<and> b_blockno (bufs t j) = b_blockno (bufs s j))"

lemma bframe_refl [simp]: "bframe H s s"
proof -
  have "\<exists>st. procs s p = (procs s p)\<lparr>p_state := st\<rparr>" for p
    by (rule exI [of _ "p_state (procs s p)"]) simp
  then show ?thesis unfolding bframe_def by simp
qed

lemma bframe_trans:
  assumes "bframe H s t" "bframe H' t u" "K \<subseteq> H" "K \<subseteq> H'"
  shows "bframe K s u"
proof -
  from assms(1,2) have t: "t = s\<lparr>procs := procs t, bufs := bufs t\<rparr>"
    and u: "u = t\<lparr>procs := procs u, bufs := bufs u\<rparr>"
    and p: "\<forall>p. \<exists>st. procs t p = (procs s p)\<lparr>p_state := st\<rparr>" "\<forall>p. \<exists>st. procs u p = (procs t p)\<lparr>p_state := st\<rparr>"
    and b: "\<forall>j\<in>H. b_data (bufs t j) = b_data (bufs s j) \<and> b_blockno (bufs t j) = b_blockno (bufs s j)"
      "\<forall>j\<in>H'. b_data (bufs u j) = b_data (bufs t j) \<and> b_blockno (bufs u j) = b_blockno (bufs t j)"
    by (auto simp: bframe_def)
  have "u = s\<lparr>procs := procs u, bufs := bufs u\<rparr>" by (subst u, subst t) simp
  moreover have "\<exists>st. procs u q = (procs s q)\<lparr>p_state := st\<rparr>" for q
  proof -
    obtain a c where "procs t q = (procs s q)\<lparr>p_state := a\<rparr>" "procs u q = (procs t q)\<lparr>p_state := c\<rparr>"
      using p by blast
    then have "procs u q = (procs s q)\<lparr>p_state := c\<rparr>" by simp
    then show ?thesis by blast
  qed
  moreover have "\<forall>j\<in>K. b_data (bufs u j) = b_data (bufs s j) \<and> b_blockno (bufs u j) = b_blockno (bufs s j)"
    using b assms(3,4) by (simp add: subset_iff)
  ultimately show ?thesis unfolding bframe_def by blast
qed

lemma bframe_mono: "bframe H s t \<Longrightarrow> K \<subseteq> H \<Longrightarrow> bframe K s t"
  by (auto simp: bframe_def)

lemma bframe_fields:
  assumes "bframe H s t"
  shows "disk t = disk s" "writes t = writes s" "held t = held s" "curproc t = curproc s"
    "kbio.more t = kbio.more s" "pmem t = pmem s" "mypid t = mypid s"
proof -
  have t: "t = s\<lparr>procs := procs t, bufs := bufs t\<rparr>" using assms by (simp add: bframe_def)
  show "disk t = disk s" "writes t = writes s" "held t = held s" "kbio.more t = kbio.more s"
    "pmem t = pmem s" and c: "curproc t = curproc s"
    using arg_cong [OF t, of disk] arg_cong [OF t, of writes] arg_cong [OF t, of held]
      arg_cong [OF t, of kbio.more] arg_cong [OF t, of pmem] arg_cong [OF t, of curproc] by simp_all
  have "p_pid (procs t p) = p_pid (procs s p)" for p
  proof -
    obtain st where "procs t p = (procs s p)\<lparr>p_state := st\<rparr>" using assms unfolding bframe_def by blast
    then show ?thesis by simp
  qed
  then show "mypid t = mypid s" by (simp add: mypid_def c split: option.splits)
qed

section \<open>bread\<close>

text \<open>With fewer than \<open>NBUF\<close> buffers held or pinned, some buffer is unused.\<close>

lemma unused_buffer:
  assumes b: "binv B D pid H L" and n: "card H + card L < NBUF" and r: "ring B xs"
  shows "\<exists>i. find (\<lambda>i. b_refcnt (B i) = 0) (rev xs) = Some i \<and> i < NBUF \<and> i \<notin> H \<and>
    \<not> (b_dev (B i) = ROOTDEV \<and> b_blockno (B i) \<in> L)"
proof -
  let ?P = "{i. i < NBUF \<and> b_dev (B i) = ROOTDEV \<and> b_blockno (B i) \<in> L}"
  have "inj_on (\<lambda>i. b_blockno (B i)) ?P"
  proof (rule inj_onI)
    fix i j assume "i \<in> ?P" "j \<in> ?P" "b_blockno (B i) = b_blockno (B j)"
    then show "i = j" using binvD(4) [OF b, of i j] by simp
  qed
  then have "card ?P \<le> card L"
    by (rule card_inj_on_le) (use binvD(2) [OF b] in auto)
  moreover have "card (H \<union> ?P) \<le> card H + card ?P" by (rule card_Un_le)
  ultimately have "card (H \<union> ?P) < card {..<NBUF}" using n by simp
  then have "\<not> {..<NBUF} \<subseteq> H \<union> ?P"
    using card_mono [of "H \<union> ?P" "{..<NBUF}"] finite_subset [OF binvD(3) [OF b]] by fastforce
  then obtain k where k: "k < NBUF" "k \<notin> H" "k \<notin> ?P" by auto
  then have "unat (b_refcnt (B k)) = 0" using binvD(5) [OF b k(1)] by simp
  then have kz: "b_refcnt (B k) = 0" by (simp add: unat_eq_0)
  have mem: "set xs = {..<NBUF}" using r by (simp add: ring_def)
  have "find (\<lambda>i. b_refcnt (B i) = 0) (rev xs) \<noteq> None"
    using k(1) kz mem by (auto simp: find_None_iff)
  then obtain i where i: "find (\<lambda>i. b_refcnt (B i) = 0) (rev xs) = Some i" by blast
  from find_SomeD [OF this] have "i \<in> set (rev xs)" "b_refcnt (B i) = 0" by auto
  then have "i < NBUF" "unat (b_refcnt (B i)) = 0" using mem by auto
  then show ?thesis using binvD(5) [OF b, of i] i by (auto split: if_splits)
qed

text \<open>The buffer that \<open>bread\<close> returns, and its new contents.\<close>

definition bread_buf :: "(nat \<Rightarrow> buf) \<Rightarrow> (u32 \<Rightarrow> bytes) \<Rightarrow> int \<Rightarrow> nat \<Rightarrow> u32 \<Rightarrow> buf \<Rightarrow> bool" where
  "bread_buf B D pid i n b \<longleftrightarrow>
    b_dev b = ROOTDEV \<and> b_blockno b = n \<and> b_valid b \<and> b_lock b = \<lparr>sl_locked = True, sl_pid = pid\<rparr> \<and>
    b_prev b = b_prev (B i) \<and> b_next b = b_next (B i) \<and>
    (if b_dev (B i) = ROOTDEV \<and> b_blockno (B i) = n
     then b_refcnt b = b_refcnt (B i) + 1 \<and> b_data b = (if b_valid (B i) then b_data (B i) else D n)
     else b_refcnt b = 1 \<and> b_data b = D n \<and> (\<forall>j<NBUF. \<not> (b_dev (B j) = ROOTDEV \<and> b_blockno (B j) = n)))"

lemma bread_eq:
  fixes s :: "'z kbio_scheme"
  assumes inv: "bio_inv s H L" and n: "n \<in> L \<or> card H + card L < NBUF"
    and free: "\<And>i. i \<in> H \<Longrightarrow> b_blockno (bufs s i) \<noteq> n"
  obtains i b where "bread ROOTDEV n s = Ok i (s\<lparr>bufs := (bufs s)(i := b)\<rparr>)"
    and "bread_buf (bufs s) (disk s) (mypid s) i n b" and "i < NBUF" and "i \<notin> H"
    and "\<not> (b_dev (bufs s i) = ROOTDEV \<and> b_blockno (bufs s i) = n) \<Longrightarrow>
      \<not> (b_dev (bufs s i) = ROOTDEV \<and> b_blockno (bufs s i) \<in> L)"
proof -
  let ?B = "bufs s"
  have b: "binv ?B (disk s) (mypid s) H L" and h: "held s = {}" using inv by (auto simp: bio_inv_def)
  obtain p where p: "curproc s = Some p" using inv by (auto simp: bio_inv_def)
  obtain xs where r: "ring ?B xs" using binvD(1) [OF b] by blast
  have mem: "set xs = {..<NBUF}" using r by (simp add: ring_def)
  let ?Q = "\<lambda>i. b_dev (?B i) = ROOTDEV \<and> b_blockno (?B i) = n"
  show thesis
  proof (cases "find ?Q xs")
    case (Some i)
    from find_SomeD [OF this] have "i \<in> set xs" "?Q i" by auto
    then have i: "i < NBUF" "?Q i" "i \<notin> H" using mem free by auto
    have ul: "\<not> sl_locked (b_lock (?B i))" using binvD(6) [OF b i(1)] i(3) by simp
    let ?b0 = "(?B i)\<lparr>b_refcnt := b_refcnt (?B i) + 1, b_lock := \<lparr>sl_locked = True, sl_pid = mypid s\<rparr>\<rparr>"
    let ?b = "if b_valid (?B i) then ?b0 else ?b0\<lparr>b_data := disk s n, b_valid := True\<rparr>"
    have "bread ROOTDEV n s = Ok i (s\<lparr>bufs := ?B(i := ?b)\<rparr>)"
      using h p ul i(2) Some ring_find_next [OF r, of ?Q]
      by (simp add: bread_def bget_def acquire_free release_held Let_def acquire_buf_eq buf_upd_def
          virtio_disk_rw_def held_upd_id)
    then show thesis by (rule that) (use i in \<open>auto simp: bread_buf_def\<close>)
  next
    case None
    then have miss: "\<forall>j<NBUF. \<not> ?Q j" using mem by (auto simp: find_None_iff)
    have "n \<notin> L"
    proof
      assume "n \<in> L"
      then obtain j where "hit ?B j n" using binvD(11) [OF b] by blast
      with miss show False by (auto simp: hit_def)
    qed
    with n have n': "card H + card L < NBUF" by simp
    obtain i where i: "find (\<lambda>i. b_refcnt (?B i) = 0) (rev xs) = Some i" "i < NBUF" "i \<notin> H"
      "\<not> (b_dev (?B i) = ROOTDEV \<and> b_blockno (?B i) \<in> L)"
      using unused_buffer [OF b n' r] by blast
    have ul: "\<not> sl_locked (b_lock (?B i))" using binvD(6) [OF b i(2)] i(3) by simp
    let ?b = "(?B i)\<lparr>b_dev := ROOTDEV, b_blockno := n, b_valid := False, b_refcnt := 1,
      b_lock := \<lparr>sl_locked = True, sl_pid = mypid s\<rparr>, b_data := disk s n, b_valid := True\<rparr>"
    have "bread ROOTDEV n s = Ok i (s\<lparr>bufs := ?B(i := ?b)\<rparr>)"
      using h p ul i None ring_find_next [OF r, of ?Q] ring_find_prev [OF r, of "\<lambda>i. b_refcnt (?B i) = 0"]
      by (simp add: bread_def bget_def acquire_free release_held Let_def acquire_buf_eq buf_upd_def
          virtio_disk_rw_def held_upd_id)
    then show thesis by (rule that) (use i miss in \<open>auto simp: bread_buf_def\<close>)
  qed
qed

lemma binv_bread:
  assumes b: "binv B D pid H L" and bb: "bread_buf B D pid i n b" and i: "i < NBUF" "i \<notin> H"
    and ev: "\<not> (b_dev (B i) = ROOTDEV \<and> b_blockno (B i) = n) \<Longrightarrow>
      \<not> (b_dev (B i) = ROOTDEV \<and> b_blockno (B i) \<in> L)"
  shows "binv (B(i := b)) D pid (insert i H) L"
    and "lblk (B(i := b)) D m = lblk B D m" and "b_data b = lblk B D n"
proof -
  let ?B = "B(i := b)"
  have f: "b_dev b = ROOTDEV" "b_blockno b = n" "b_valid b" "b_lock b = \<lparr>sl_locked = True, sl_pid = pid\<rparr>"
    "b_prev b = b_prev (B i)" "b_next b = b_next (B i)"
    using bb by (simp_all add: bread_buf_def)
  have hit': "hit ?B j m \<longleftrightarrow> (if j = i then m = n else hit B j m)" for j m
    using f i by (auto simp: hit_def)
  have other: "j = i" if "j < NBUF" "b_dev (B j) = ROOTDEV" "b_blockno (B j) = n" for j
  proof (cases "b_dev (B i) = ROOTDEV \<and> b_blockno (B i) = n")
    case True
    then show ?thesis using binvD(4) [OF b, of j i] that i by simp
  next
    case False
    then show ?thesis using bb that unfolding bread_buf_def by auto
  qed
  have ref: "unat (b_refcnt b) = 1 + (if n \<in> L then 1 else 0)"
  proof (cases "b_dev (B i) = ROOTDEV \<and> b_blockno (B i) = n")
    case True
    then have r: "unat (b_refcnt (B i)) = (if n \<in> L then 1 else 0)" using binvD(5) [OF b i(1)] i(2) by simp
    have "b_refcnt b = b_refcnt (B i) + 1" using bb True by (simp add: bread_buf_def)
    then show ?thesis using r by (simp add: unat_word_ariths split: if_splits)
  next
    case False
    have "n \<notin> L"
    proof
      assume "n \<in> L"
      then obtain j where "hit B j n" using binvD(11) [OF b] by blast
      then show False using other False by (auto simp: hit_def)
    qed
    moreover have "b_refcnt b = 1" using bb False by (auto simp: bread_buf_def)
    ultimately show ?thesis by simp
  qed
  have pin: "\<exists>j. hit ?B j m" if m: "m \<in> L" for m
  proof -
    obtain j where j: "hit B j m" using binvD(11) [OF b m] by blast
    show ?thesis
    proof (cases "j = i")
      case True
      then have "m = n" using ev j m by (auto simp: hit_def)
      then show ?thesis using hit' by auto
    next
      case False
      then show ?thesis using hit' j by metis
    qed
  qed
  obtain xs where "ring B xs" using binvD(1) [OF b] by blast
  then have rg: "\<exists>xs. ring ?B xs"
    using ring_upd [of b B i xs] f by auto
  show b': "binv ?B D pid (insert i H) L"
    unfolding binv_def
  proof (intro conjI allI ballI impI)
    fix j k assume jk: "j < NBUF" "k < NBUF" "b_dev (?B j) = ROOTDEV" "b_dev (?B k) = ROOTDEV"
      "b_blockno (?B j) = b_blockno (?B k)"
    consider "j = k" | "j = i" "k \<noteq> i" | "j \<noteq> i" "k = i" | "j \<noteq> i" "k \<noteq> i" by blast
    then show "j = k"
    proof cases
      case 2
      then have "b_blockno (B k) = n" "b_dev (B k) = ROOTDEV" using jk(4,5) f(2) by simp_all
      from other [OF jk(2) this(2,1)] 2 show ?thesis by simp
    next
      case 3
      then have "b_blockno (B j) = n" "b_dev (B j) = ROOTDEV" using jk(3,5) f(2) by simp_all
      from other [OF jk(1) this(2,1)] 3 show ?thesis by simp
    next
      case 4
      then show ?thesis using binvD(4) [OF b jk(1,2)] jk(3-5) by simp
    qed
  next
    fix j assume "j < NBUF"
    then show "unat (b_refcnt (?B j)) = (if j \<in> insert i H then 1 else 0) +
      (if b_dev (?B j) = ROOTDEV \<and> b_blockno (?B j) \<in> L then 1 else 0)"
      using binvD(5) [OF b, of j] ref f by auto
  next
    fix j m assume "hit ?B j m" "j \<notin> insert i H" "m \<notin> L"
    then show "b_data (?B j) = D m" using binvD(10) [OF b, of j m] by (auto simp: hit_def)
  next
    fix j assume j: "j \<in> insert i H"
    show "sl_pid (b_lock (?B j)) = pid" "b_valid (?B j)" "b_dev (?B j) = ROOTDEV"
      using j f binvD(7-9) [OF b, of j] by auto
  next
    fix j assume "j < NBUF"
    then show "sl_locked (b_lock (?B j)) \<longleftrightarrow> j \<in> insert i H" using binvD(6) [OF b, of j] f by auto
  qed (use rg pin binvD(2,3) [OF b] i in auto)
  show d: "b_data b = lblk B D n"
  proof (cases "\<exists>j. hit B j n")
    case True
    then obtain j where j: "hit B j n" by blast
    then have "j = i" using other by (auto simp: hit_def)
    then show ?thesis using j bb lblk_hit [OF b j] by (auto simp: hit_def bread_buf_def)
  next
    case False
    then have "b_data b = D n"
      using bb i by (auto simp: bread_buf_def hit_def split: if_splits)
    then show ?thesis using False by (simp add: lblk_miss)
  qed
  show "lblk ?B D m = lblk B D m"
  proof (cases "m = n")
    case True
    then show ?thesis using lblk_hit [OF b', of i n] hit' d by simp
  next
    case mn: False
    show ?thesis
    proof (cases "\<exists>j. j \<noteq> i \<and> hit B j m")
      case True
      then obtain j where "j \<noteq> i" "hit B j m" by blast
      then show ?thesis using lblk_hit [OF b', of j m] lblk_hit [OF b, of j m] hit' by simp
    next
      case False
      then have "lblk ?B D m = D m" using hit' mn by (intro lblk_miss) auto
      moreover have "lblk B D m = D m"
      proof (cases "hit B i m")
        case True
        then have "m \<notin> L" using ev mn by (auto simp: hit_def)
        then have "b_data (B i) = D m" using binvD(10) [OF b True i(2)] by blast
        then show ?thesis using lblk_hit [OF b True] by simp
      next
        case False
        with \<open>\<not> (\<exists>j. j \<noteq> i \<and> hit B j m)\<close> show ?thesis by (intro lblk_miss) auto
      qed
      ultimately show ?thesis by simp
    qed
  qed
qed

text \<open>\<open>bread\<close> returns a locked buffer with the block's logical content.\<close>

lemma bread_spec:
  fixes s :: "'z kbio_scheme"
  assumes "bio_inv s H L" "n \<in> L \<or> card H + card L < NBUF" "\<And>i. i \<in> H \<Longrightarrow> b_blockno (bufs s i) \<noteq> n"
  shows "wp (bread ROOTDEV n s) (\<lambda>i t. i < NBUF \<and> i \<notin> H \<and> bio_inv t (insert i H) L \<and> bframe H s t \<and>
    b_blockno (bufs t i) = n \<and> b_data (bufs t i) = blk s n \<and> blk t = blk s)"
proof -
  obtain i b where r: "bread ROOTDEV n s = Ok i (s\<lparr>bufs := (bufs s)(i := b)\<rparr>)"
    and bb: "bread_buf (bufs s) (disk s) (mypid s) i n b" and i: "i < NBUF" "i \<notin> H"
    and ev: "\<not> (b_dev (bufs s i) = ROOTDEV \<and> b_blockno (bufs s i) = n) \<Longrightarrow>
      \<not> (b_dev (bufs s i) = ROOTDEV \<and> b_blockno (bufs s i) \<in> L)"
    using bread_eq [OF assms] by metis
  have inv: "binv (bufs s) (disk s) (mypid s) H L" "held s = {}" "curproc s \<noteq> None"
    using assms(1) by (auto simp: bio_inv_def)
  note bi = binv_bread [OF inv(1) bb i ev]
  let ?t = "s\<lparr>bufs := (bufs s)(i := b)\<rparr>"
  have "bio_inv ?t (insert i H) L" using bi(1) inv by (simp add: bio_inv_def)
  moreover have "bframe H s ?t"
    using i bframe_refl [of H s] unfolding bframe_def by auto
  moreover have "blk ?t = blk s" by (simp add: blk_def fun_eq_iff bi(2))
  moreover have "b_blockno b = n" using bb by (simp add: bread_buf_def)
  ultimately show ?thesis using i bi(3) by (simp add: r wp_simps blk_def)
qed

section \<open>Updating and releasing a held buffer\<close>

lemma held_hit: "binv B D pid H L \<Longrightarrow> i \<in> H \<Longrightarrow> hit B i (b_blockno (B i))"
  using binvD(3,8,9) [of B D pid H L] by (auto simp: hit_def)

lemma buf_update_spec:
  assumes inv: "bio_inv s H L" and i: "i \<in> H" and t: "t = buf_upd i (\<lambda>b. b\<lparr>b_data := d\<rparr>) s"
  shows "bio_inv t H L" and "blk t = (blk s)(b_blockno (bufs s i) := d)"
    and "bframe (H - {i}) s t" and "b_blockno (bufs t i) = b_blockno (bufs s i)" and "b_data (bufs t i) = d"
proof -
  let ?B = "bufs s" and ?B' = "bufs t"
  have b: "binv ?B (disk s) (mypid s) H L" using inv by (simp add: bio_inv_def)
  have B': "?B' = ?B(i := (?B i)\<lparr>b_data := d\<rparr>)" and td: "disk t = disk s" "mypid t = mypid s"
    by (simp_all add: t buf_upd_def)
  obtain xs where "ring ?B xs" using binvD(1) [OF b] by blast
  then have rg: "\<exists>xs. ring ?B' xs"
    using ring_upd [of "(?B i)\<lparr>b_data := d\<rparr>" ?B i xs] unfolding B' by auto
  have hit': "hit ?B' j m = hit ?B j m" for j m by (auto simp: hit_def B')
  have b': "binv ?B' (disk s) (mypid s) H L"
    unfolding binv_def hit'
  proof (intro conjI allI ballI impI)
    fix j k assume "j < NBUF" "k < NBUF" "b_dev (?B' j) = ROOTDEV" "b_dev (?B' k) = ROOTDEV"
      "b_blockno (?B' j) = b_blockno (?B' k)"
    then show "j = k" using binvD(4) [OF b, of j k] by (simp add: B' split: if_splits)
  next
    fix j assume "j < NBUF"
    then show "unat (b_refcnt (?B' j)) = (if j \<in> H then 1 else 0) +
      (if b_dev (?B' j) = ROOTDEV \<and> b_blockno (?B' j) \<in> L then 1 else 0)"
      using binvD(5) [OF b, of j] by (cases "j = i") (simp_all add: B')
  next
    fix j m assume "hit ?B j m" "j \<notin> H" "m \<notin> L"
    then show "b_data (?B' j) = disk s m" using binvD(10) [OF b] i by (auto simp: B')
  qed (use rg i binvD(2,3,6,7,8,9,11) [OF b] in \<open>auto simp: B'\<close>)
  show "bio_inv t H L" using b' inv td by (simp add: bio_inv_def t buf_upd_def)
  have h: "hit ?B i (b_blockno (?B i))" by (rule held_hit [OF b i])
  show "blk t = (blk s)(b_blockno (?B i) := d)"
  proof
    fix m
    show "blk t m = ((blk s)(b_blockno (?B i) := d)) m"
    proof (cases "\<exists>j. hit ?B j m")
      case True
      then obtain j where j: "hit ?B j m" by blast
      then have "blk t m = b_data (?B' j)" "blk s m = b_data (?B j)"
        using lblk_hit [OF b' , of j m] lblk_hit [OF b j] hit' td by (simp_all add: blk_def)
      moreover have "m = b_blockno (?B i) \<longleftrightarrow> j = i"
        using hit_unique [OF b j, of i] h j by (auto simp: hit_def)
      ultimately show ?thesis by (simp add: B')
    next
      case False
      then have "blk t m = disk s m" "blk s m = disk s m"
        using hit' td by (auto simp: blk_def intro!: lblk_miss)
      moreover have "m \<noteq> b_blockno (?B i)" using False h by auto
      ultimately show ?thesis by simp
    qed
  qed
  show "bframe (H - {i}) s t" using bframe_refl [of "H - {i}" s] unfolding bframe_def by (auto simp: t buf_upd_def)
  show "b_blockno (?B' i) = b_blockno (?B i)" "b_data (?B' i) = d" by (simp_all add: B')
qed

text \<open>\<open>brelse\<close> of a buffer that is pinned or equal to the disk.\<close>

definition to_front :: "nat \<Rightarrow> nat list \<Rightarrow> nat list" where
  "to_front i xs = i # remove1 i xs"

lemma relink_ring:
  assumes "ring (bufs s) xs" "i < NBUF"
  shows "ring (bufs (link_front i (unlink i s))) (to_front i xs)"
proof -
  have m: "i \<in> set xs" "distinct xs" "set xs = {..<NBUF}"
    using assms by (auto simp: ring_def ring_of_def)
  then obtain us vs where x: "xs = us @ i # vs" by (meson split_list)
  then have u: "ring_of (bufs (unlink i s)) (us @ vs)"
    using assms(1) by (intro unlink_ring) (simp add: ring_def)
  have nu: "i \<notin> set us" "i \<notin> set vs" using m(2) x by auto
  then have "remove1 i xs = us @ vs" by (simp add: x remove1_append)
  moreover have "ring_of (bufs (link_front i (unlink i s))) (i # us @ vs)"
    by (rule link_front_ring [OF u assms(2)]) (use nu in auto)
  ultimately show ?thesis using m x by (auto simp: ring_def to_front_def)
qed

definition links_only :: "(nat \<Rightarrow> buf) \<Rightarrow> (nat \<Rightarrow> buf) \<Rightarrow> bool" where
  "links_only B B' \<longleftrightarrow> (\<forall>j. \<exists>pr nx. B' j = (B j)\<lparr>b_prev := pr, b_next := nx\<rparr>)"

lemma links_only_prev: "links_only B B' \<Longrightarrow> links_only B (B'(i := (B' i)\<lparr>b_prev := x\<rparr>))"
  and links_only_next: "links_only B B' \<Longrightarrow> links_only B (B'(i := (B' i)\<lparr>b_next := x\<rparr>))"
proof -
  assume l: "links_only B B'"
  then obtain pr nx where i: "B' i = (B i)\<lparr>b_prev := pr, b_next := nx\<rparr>" unfolding links_only_def by blast
  have "(B' i)\<lparr>b_prev := x\<rparr> = (B i)\<lparr>b_prev := x, b_next := nx\<rparr>"
    "(B' i)\<lparr>b_next := x\<rparr> = (B i)\<lparr>b_prev := pr, b_next := x\<rparr>"
    by (simp_all add: i)
  with l show "links_only B (B'(i := (B' i)\<lparr>b_prev := x\<rparr>))" "links_only B (B'(i := (B' i)\<lparr>b_next := x\<rparr>))"
    unfolding links_only_def by (auto simp only: fun_upd_apply split: if_splits)
qed

lemma links_only_refl: "links_only B B"
proof -
  have "B j = (B j)\<lparr>b_prev := b_prev (B j), b_next := b_next (B j)\<rparr>" for j by simp
  then show ?thesis unfolding links_only_def by blast
qed

lemma relink_links: "links_only (bufs s) (bufs (link_front i (unlink i s)))"
  unfolding link_front_def unlink_def Let_def buf_upd_bufs
  by (intro links_only_prev links_only_next links_only_refl)

lemma link_held:
  "link_front i (s\<lparr>held := h\<rparr>) = (link_front i s)\<lparr>held := h\<rparr>"
  "unlink i (s\<lparr>held := h\<rparr>) = (unlink i s)\<lparr>held := h\<rparr>"
  "buf_upd i f (s\<lparr>held := h\<rparr>) = (buf_upd i f s)\<lparr>held := h\<rparr>"
  "held (link_front i s) = held s" "held (unlink i s) = held s" "held (buf_upd i f s) = held s"
  by (simp_all add: link_front_def unlink_def Let_def buf_upd_def)

lemma relink_state:
  "link_front i (unlink i s) = s\<lparr>bufs := bufs (link_front i (unlink i s))\<rparr>"
  by (simp add: link_front_def unlink_def Let_def buf_upd_def)

text \<open>Two buffer arrays that differ in the links, and in the count and lock of buffer \<open>i\<close>.\<close>

lemma binv_release:
  assumes b: "binv B D pid H L" and i: "i \<in> H"
    and cl: "b_blockno (B i) \<in> L \<or> b_data (B i) = D (b_blockno (B i))"
    and rg: "\<exists>xs. ring B' xs"
    and same: "\<And>j. b_valid (B' j) = b_valid (B j)" "\<And>j. b_dev (B' j) = b_dev (B j)"
      "\<And>j. b_blockno (B' j) = b_blockno (B j)" "\<And>j. b_data (B' j) = b_data (B j)"
      "\<And>j. b_lock (B' j) = (if j = i then initsleeplock else b_lock (B j))"
      "\<And>j. b_refcnt (B' j) = (if j = i then b_refcnt (B j) - 1 else b_refcnt (B j))"
  shows "binv B' D pid (H - {i}) L" and "lblk B' D m = lblk B D m"
proof -
  have hit': "hit B' j m = hit B j m" for j m by (simp add: hit_def same)
  have "find (\<lambda>i. hit B' i m) [0..<NBUF] = find (\<lambda>i. hit B i m) [0..<NBUF]" by (simp add: hit')
  then show "lblk B' D m = lblk B D m" by (simp add: lblk_def same split: option.split)
  have iN: "i < NBUF" using binvD(3) [OF b] i by auto
  have r: "unat (b_refcnt (B i)) = 1 + (if b_blockno (B i) \<in> L then 1 else 0)"
    using binvD(5) [OF b iN] binvD(9) [OF b i] i by simp
  then have "1 \<le> b_refcnt (B i)" by (simp add: word_le_nat_alt)
  then have r1: "unat (b_refcnt (B i) - 1) = (if b_blockno (B i) \<in> L then 1 else 0)"
    using r by (simp add: unat_sub)
  show "binv B' D pid (H - {i}) L"
    unfolding binv_def hit' same
  proof (intro conjI allI ballI impI)
    fix j k assume "j < NBUF" "k < NBUF" "b_dev (B j) = ROOTDEV" "b_dev (B k) = ROOTDEV"
      "b_blockno (B j) = b_blockno (B k)"
    then show "j = k" using binvD(4) [OF b, of j k] by blast
  next
    fix j assume "j < NBUF"
    then show "unat (if j = i then b_refcnt (B j) - 1 else b_refcnt (B j)) = (if j \<in> H - {i} then 1 else 0) +
      (if b_dev (B j) = ROOTDEV \<and> b_blockno (B j) \<in> L then 1 else 0)"
      using binvD(5) [OF b, of j] r1 binvD(9) [OF b i] by auto
  next
    fix j m assume "hit B j m" "j \<notin> H - {i}" "m \<notin> L"
    then show "b_data (B j) = D m" using binvD(10) [OF b, of j m] cl by (cases "j = i") (auto simp: hit_def)
  next
    fix m assume "m \<in> L"
    then show "\<exists>j. hit B j m" by (rule binvD(11) [OF b])
  next
    fix j assume "j < NBUF"
    then show "sl_locked (if j = i then initsleeplock else b_lock (B j)) = (j \<in> H - {i})"
      using binvD(6) [OF b, of j] by (auto simp: initsleeplock_def)
  qed (use rg binvD(2,3,7,8,9) [OF b] in auto)
qed

lemma brelse_spec:
  fixes s :: "'z kbio_scheme"
  assumes inv: "bio_inv s H L" and i: "i \<in> H"
    and cl: "b_blockno (bufs s i) \<in> L \<or> b_data (bufs s i) = disk s (b_blockno (bufs s i))"
  shows "wp (brelse i s) (\<lambda>_ t. bio_inv t (H - {i}) L \<and> bframe (H - {i}) s t \<and> blk t = blk s)"
proof -
  let ?B = "bufs s"
  have b: "binv ?B (disk s) (mypid s) H L" and h: "held s = {}"
    using inv by (auto simp: bio_inv_def)
  obtain p where p: "curproc s = Some p" using inv by (auto simp: bio_inv_def)
  have iN: "i < NBUF" using binvD(3) [OF b] i by auto
  define u where "u = buf_upd i (\<lambda>b. b\<lparr>b_refcnt := b_refcnt b - 1\<rparr>)
    (buf_upd i (\<lambda>b. b\<lparr>b_lock := initsleeplock\<rparr>) (s\<lparr>procs := woken (ChBuf i) (curproc s) (procs s)\<rparr>))"
  define t where "t = (if b_refcnt (bufs u i) = 0 then link_front i (unlink i u) else u)"
  have hu: "held u = {}" using h by (simp add: u_def buf_upd_def)
  have ht: "held t = {}"
    using hu arg_cong [OF relink_state [of i u], of held] by (simp add: t_def)
  have hold: "sl_locked (b_lock (?B i))" "sl_pid (b_lock (?B i)) = mypid s"
    using binvD(6,7) [OF b] iN i by auto
  define f :: "'z kbio_scheme \<Rightarrow> 'z kbio_scheme" where
    "f = (\<lambda>s. let s = buf_upd i (\<lambda>b. b\<lparr>b_refcnt := b_refcnt b - 1\<rparr>) s
      in if b_refcnt (bufs s i) = 0 then link_front i (unlink i s) else s)"
  let ?v = "buf_upd i (\<lambda>b. b\<lparr>b_lock := initsleeplock\<rparr>) (s\<lparr>procs := woken (ChBuf i) (curproc s) (procs s)\<rparr>)"
  have fv: "f ?v = t" by (simp only: f_def Let_def t_def u_def)
  have "kbind (acquire LBcache ?v) (\<lambda>_ s. release LBcache (f s)) = Ok () (f ?v)"
    by (rule critical_section) (simp_all add: f_def Let_def link_held h)
  then have r: "brelse i s = Ok () t"
    using h hold p unfolding fv
    by (simp add: brelse_def holding_buf_eq release_buf_eq f_def Let_def cong: if_cong)
  obtain xs where xs: "ring ?B xs" using binvD(1) [OF b] by blast
  have "ring (bufs u) xs"
    using xs by (simp add: u_def buf_upd_def ring_upd)
  then have rg: "\<exists>xs. ring (bufs t) xs"
    using relink_ring [of u xs i] iN by (auto simp: t_def)
  have ub: "bufs u j = (if j = i then (?B i)\<lparr>b_lock := initsleeplock, b_refcnt := b_refcnt (?B i) - 1\<rparr> else ?B j)" for j
    by (simp add: u_def buf_upd_def)
  have tb: "\<exists>pr nx. bufs t j = (bufs u j)\<lparr>b_prev := pr, b_next := nx\<rparr>" for j
  proof (cases "b_refcnt (bufs u i) = 0")
    case True
    then show ?thesis using relink_links [of u i] by (simp add: t_def links_only_def)
  next
    case False
    then have "bufs t j = (bufs u j)\<lparr>b_prev := b_prev (bufs u j), b_next := b_next (bufs u j)\<rparr>"
      by (simp add: t_def)
    then show ?thesis by blast
  qed
  have f: "b_valid (bufs t j) = b_valid (?B j)" "b_dev (bufs t j) = b_dev (?B j)"
    "b_blockno (bufs t j) = b_blockno (?B j)" "b_data (bufs t j) = b_data (?B j)"
    "b_lock (bufs t j) = (if j = i then initsleeplock else b_lock (?B j))"
    "b_refcnt (bufs t j) = (if j = i then b_refcnt (?B j) - 1 else b_refcnt (?B j))" for j
  proof -
    obtain pr nx where e: "bufs t j = (bufs u j)\<lparr>b_prev := pr, b_next := nx\<rparr>" using tb by blast
    show "b_valid (bufs t j) = b_valid (?B j)" "b_dev (bufs t j) = b_dev (?B j)"
      "b_blockno (bufs t j) = b_blockno (?B j)" "b_data (bufs t j) = b_data (?B j)"
      "b_lock (bufs t j) = (if j = i then initsleeplock else b_lock (?B j))"
      "b_refcnt (bufs t j) = (if j = i then b_refcnt (?B j) - 1 else b_refcnt (?B j))"
      by (simp_all add: e ub)
  qed
  note br = binv_release [OF b i cl rg f]
  have tu: "t = s\<lparr>procs := woken (ChBuf i) (curproc s) (procs s), bufs := bufs t\<rparr>"
  proof -
    have "t = u\<lparr>bufs := bufs t\<rparr>"
    proof (cases "b_refcnt (bufs u i) = 0")
      case True
      then have e: "t = link_front i (unlink i u)" by (simp add: t_def)
      show ?thesis unfolding e by (rule relink_state)
    qed (simp add: t_def)
    moreover have "u\<lparr>bufs := bufs t\<rparr> = s\<lparr>procs := woken (ChBuf i) (curproc s) (procs s), bufs := bufs t\<rparr>"
      by (simp add: u_def buf_upd_def)
    ultimately show ?thesis by (rule trans)
  qed
  have tf: "disk t = disk s" "curproc t = curproc s" "procs t = woken (ChBuf i) (curproc s) (procs s)"
    using arg_cong [OF tu, of disk] arg_cong [OF tu, of curproc] arg_cong [OF tu, of procs] by simp_all
  have pid: "mypid t = mypid s" by (simp add: mypid_def tf split: option.split)
  have "bio_inv t (H - {i}) L" using br(1) ht p by (simp add: bio_inv_def tf pid)
  moreover have "blk t = blk s" by (simp add: blk_def fun_eq_iff tf br(2))
  moreover have "bframe (H - {i}) s t"
  proof -
    have "\<exists>st. procs t q = (procs s q)\<lparr>p_state := st\<rparr>" for q
    proof -
      have "procs t q = (procs s q)\<lparr>p_state := p_state (procs t q)\<rparr>"
        by (simp add: tf woken_def)
      then show ?thesis by blast
    qed
    moreover have "t = s\<lparr>procs := procs t, bufs := bufs t\<rparr>" using tu unfolding tf .
    ultimately show ?thesis by (simp add: bframe_def f)
  qed
  ultimately show ?thesis by (simp add: r wp_simps)
qed

section \<open>Writing, pinning and unpinning\<close>

lemma bwrite_spec:
  fixes s :: "'z kbio_scheme"
  assumes inv: "bio_inv s H L" and i: "i \<in> H"
  shows "wp (bwrite i s) (\<lambda>_ t. bio_inv t H L \<and> blk t = blk s \<and>
    t = s\<lparr>disk := (disk s)(b_blockno (bufs s i) := b_data (bufs s i)),
      writes := writes s @ [(b_blockno (bufs s i), b_data (bufs s i))]\<rparr>)"
proof -
  let ?B = "bufs s" and ?n = "b_blockno (bufs s i)"
  let ?D = "(disk s)(?n := b_data (?B i))"
  have b: "binv ?B (disk s) (mypid s) H L" and h: "held s = {}" using inv by (auto simp: bio_inv_def)
  obtain p where p: "curproc s = Some p" using inv by (auto simp: bio_inv_def)
  have iN: "i < NBUF" using binvD(3) [OF b] i by auto
  let ?t = "s\<lparr>disk := ?D, writes := writes s @ [(?n, b_data (?B i))]\<rparr>"
  have r: "bwrite i s = Ok () ?t"
    using h p binvD(6,7) [OF b] iN i by (simp add: bwrite_def holding_buf_eq virtio_disk_rw_def Let_def)
  have hi: "hit ?B i ?n" by (rule held_hit [OF b i])
  have b': "binv ?B ?D (mypid s) H L"
    unfolding binv_def
  proof (intro conjI allI ballI impI)
    fix j k assume "j < NBUF" "k < NBUF" "b_dev (?B j) = ROOTDEV" "b_dev (?B k) = ROOTDEV"
      "b_blockno (?B j) = b_blockno (?B k)"
    then show "j = k" using binvD(4) [OF b, of j k] by blast
  next
    fix j m assume j: "hit ?B j m" "j \<notin> H" "m \<notin> L"
    then have "m \<noteq> ?n" using hit_unique [OF b hi, of j] i by auto
    then show "b_data (?B j) = ?D m" using binvD(10) [OF b j] by simp
  next
    fix m assume "m \<in> L"
    then show "\<exists>j. hit ?B j m" by (rule binvD(11) [OF b])
  qed (use binvD(1,2,3,5,6,7,8,9) [OF b] in auto)
  have "mypid ?t = mypid s" by (simp add: mypid_def split: option.split)
  then have "bio_inv ?t H L" using b' h p by (simp add: bio_inv_def)
  moreover have "blk ?t m = blk s m" for m
  proof (cases "\<exists>j. hit ?B j m")
    case True
    then obtain j where j: "hit ?B j m" by blast
    from lblk_hit [OF b j] lblk_hit [OF b' j] show ?thesis by (simp add: blk_def)
  next
    case False
    then have "m \<noteq> ?n" using hi by auto
    with False show ?thesis by (simp add: blk_def lblk_miss)
  qed
  ultimately show ?thesis by (simp add: r wp_simps fun_eq_iff)
qed

lemma bpin_eq:
  assumes "LBcache \<notin> held s"
  shows "bpin i s = Ok () (buf_upd i (\<lambda>b. b\<lparr>b_refcnt := b_refcnt b + 1\<rparr>) s)"
  unfolding bpin_def by (rule critical_section) (use assms in \<open>simp_all add: link_held\<close>)

lemma bunpin_eq:
  assumes "LBcache \<notin> held s"
  shows "bunpin i s = Ok () (buf_upd i (\<lambda>b. b\<lparr>b_refcnt := b_refcnt b - 1\<rparr>) s)"
  unfolding bunpin_def by (rule critical_section) (use assms in \<open>simp_all add: link_held\<close>)

text \<open>A held buffer whose count changes together with membership of its block in \<open>L\<close>.\<close>

lemma refcnt_update:
  assumes inv: "bio_inv s H L" and i: "i \<in> H" and fin: "finite L'"
    and L': "\<And>m. m \<noteq> b_blockno (bufs s i) \<Longrightarrow> m \<in> L' \<longleftrightarrow> m \<in> L"
    and r: "unat r = 1 + (if b_blockno (bufs s i) \<in> L' then 1 else 0)"
    and t: "t = buf_upd i (\<lambda>b. b\<lparr>b_refcnt := r\<rparr>) s"
  shows "bio_inv t H L'" and "blk t = blk s" and "bframe H s t"
    and "b_blockno (bufs t i) = b_blockno (bufs s i)" and "b_data (bufs t i) = b_data (bufs s i)"
proof -
  let ?B = "bufs s" and ?B' = "bufs t" and ?n = "b_blockno (bufs s i)"
  have b: "binv ?B (disk s) (mypid s) H L" using inv by (simp add: bio_inv_def)
  have B': "?B' = ?B(i := (?B i)\<lparr>b_refcnt := r\<rparr>)" and td: "disk t = disk s" "mypid t = mypid s"
    by (simp_all add: t buf_upd_def)
  have same: "b_valid (?B' j) = b_valid (?B j)" "b_dev (?B' j) = b_dev (?B j)"
    "b_blockno (?B' j) = b_blockno (?B j)" "b_data (?B' j) = b_data (?B j)" "b_lock (?B' j) = b_lock (?B j)" for j
    by (simp_all add: B')
  have hit': "hit ?B' j m = hit ?B j m" for j m by (simp add: hit_def same)
  have hi: "hit ?B i ?n" by (rule held_hit [OF b i])
  obtain xs where "ring ?B xs" using binvD(1) [OF b] by blast
  then have rg: "\<exists>xs. ring ?B' xs" using ring_upd [of "(?B i)\<lparr>b_refcnt := r\<rparr>" ?B i xs] unfolding B' by auto
  have iff: "b_dev (?B j) = ROOTDEV \<and> b_blockno (?B j) \<in> L' \<longleftrightarrow> b_dev (?B j) = ROOTDEV \<and> b_blockno (?B j) \<in> L"
    if "j < NBUF" "j \<noteq> i" for j
  proof (cases "b_dev (?B j) = ROOTDEV \<and> b_blockno (?B j) = ?n")
    case True
    then have "j = i" using binvD(4) [OF b that(1), of i] hi by (auto simp: hit_def)
    with that(2) show ?thesis by simp
  next
    case False
    then show ?thesis using L' by blast
  qed
  have b': "binv ?B' (disk s) (mypid s) H L'"
    unfolding binv_def hit' same
  proof (intro conjI allI ballI impI)
    fix j k assume "j < NBUF" "k < NBUF" "b_dev (?B j) = ROOTDEV" "b_dev (?B k) = ROOTDEV"
      "b_blockno (?B j) = b_blockno (?B k)"
    then show "j = k" using binvD(4) [OF b, of j k] by blast
  next
    fix j assume j: "j < NBUF"
    show "unat (b_refcnt (?B' j)) = (if j \<in> H then 1 else 0) +
      (if b_dev (?B j) = ROOTDEV \<and> b_blockno (?B j) \<in> L' then 1 else 0)"
    proof (cases "j = i")
      case True
      then show ?thesis using r i binvD(9) [OF b i] by (simp add: B')
    next
      case False
      then show ?thesis using binvD(5) [OF b j] iff [OF j False] by (simp add: B')
    qed
  next
    fix j m assume j: "hit ?B j m" "j \<notin> H" "m \<notin> L'"
    then have "m \<noteq> ?n" using hit_unique [OF b hi, of j] i by auto
    then show "b_data (?B j) = disk s m" using binvD(10) [OF b j(1,2)] j(3) L' by blast
  next
    fix m assume m: "m \<in> L'"
    show "\<exists>j. hit ?B j m"
    proof (cases "m = ?n")
      case True
      then show ?thesis using hi by auto
    next
      case False
      then show ?thesis using binvD(11) [OF b] L' m by blast
    qed
  qed (use rg fin binvD(3,6,7,8,9) [OF b] in auto)
  show "bio_inv t H L'" using b' inv td by (simp add: bio_inv_def t buf_upd_def)
  have "find (\<lambda>i. hit ?B' i m) [0..<NBUF] = find (\<lambda>i. hit ?B i m) [0..<NBUF]" for m by (simp add: hit')
  then show "blk t = blk s" by (simp add: blk_def lblk_def same td fun_eq_iff split: option.split)
  show "bframe H s t"
    using bframe_refl [of H s] unfolding bframe_def by (auto simp: t buf_upd_def)
  show "b_blockno (?B' i) = ?n" "b_data (?B' i) = b_data (?B i)" by (simp_all add: same)
qed

lemma bpin_spec:
  assumes inv: "bio_inv s H L" and i: "i \<in> H" and n: "b_blockno (bufs s i) \<notin> L"
  shows "wp (bpin i s) (\<lambda>_ t. bio_inv t H (insert (b_blockno (bufs s i)) L) \<and> blk t = blk s \<and> bframe H s t)"
proof -
  have b: "binv (bufs s) (disk s) (mypid s) H L" and h: "held s = {}" using inv by (auto simp: bio_inv_def)
  have iN: "i < NBUF" using binvD(3) [OF b] i by auto
  have "unat (b_refcnt (bufs s i)) = 1" using binvD(5) [OF b iN] i n by simp
  then have r: "unat (b_refcnt (bufs s i) + 1) = 1 + (if b_blockno (bufs s i) \<in> insert (b_blockno (bufs s i)) L then 1 else 0)"
    by (simp add: unat_word_ariths)
  have "bpin i s = Ok () (buf_upd i (\<lambda>b. b\<lparr>b_refcnt := b_refcnt (bufs s i) + 1\<rparr>) s)"
    by (simp add: bpin_eq h buf_upd_def)
  then show ?thesis
    using refcnt_update [OF inv i _ _ r refl] binvD(2) [OF b] by (simp add: wp_simps)
qed

lemma bunpin_spec:
  assumes inv: "bio_inv s H L" and i: "i \<in> H" and n: "b_blockno (bufs s i) \<in> L"
  shows "wp (bunpin i s) (\<lambda>_ t. bio_inv t H (L - {b_blockno (bufs s i)}) \<and> blk t = blk s \<and> bframe H s t)"
proof -
  have b: "binv (bufs s) (disk s) (mypid s) H L" and h: "held s = {}" using inv by (auto simp: bio_inv_def)
  have iN: "i < NBUF" using binvD(3) [OF b] i by auto
  have "unat (b_refcnt (bufs s i)) = 2" using binvD(5) [OF b iN] i n binvD(9) [OF b i] by simp
  moreover from this have "1 \<le> b_refcnt (bufs s i)" by (simp add: word_le_nat_alt)
  ultimately have r: "unat (b_refcnt (bufs s i) - 1) = 1 + (if b_blockno (bufs s i) \<in> L - {b_blockno (bufs s i)} then 1 else 0)"
    by (simp add: unat_sub)
  have "bunpin i s = Ok () (buf_upd i (\<lambda>b. b\<lparr>b_refcnt := b_refcnt (bufs s i) - 1\<rparr>) s)"
    by (simp add: bunpin_eq h buf_upd_def)
  then show ?thesis
    using refcnt_update [OF inv i _ _ r refl] binvD(2) [OF b] by (simp add: wp_simps)
qed

section \<open>The cache after boot\<close>

lemma links_only_trans: "links_only A B \<Longrightarrow> links_only B C \<Longrightarrow> links_only A C"
proof -
  assume l: "links_only A B" "links_only B C"
  have "\<exists>pr nx. C j = (A j)\<lparr>b_prev := pr, b_next := nx\<rparr>" for j
  proof -
    obtain p1 n1 p2 n2 where "B j = (A j)\<lparr>b_prev := p1, b_next := n1\<rparr>" "C j = (B j)\<lparr>b_prev := p2, b_next := n2\<rparr>"
      using l unfolding links_only_def by metis
    then have "C j = (A j)\<lparr>b_prev := p2, b_next := n2\<rparr>" by simp
    then show ?thesis by blast
  qed
  then show ?thesis by (simp add: links_only_def)
qed

lemma link_front_links: "links_only (bufs s) (bufs (link_front i s))"
  unfolding link_front_def Let_def buf_upd_bufs
  by (intro links_only_prev links_only_next links_only_refl)

lemma links_onlyD:
  assumes "links_only B B'"
  shows "b_valid (B' j) = b_valid (B j)" "b_dev (B' j) = b_dev (B j)" "b_refcnt (B' j) = b_refcnt (B j)"
    "b_lock (B' j) = b_lock (B j)" "b_blockno (B' j) = b_blockno (B j)"
proof -
  obtain pr nx where "B' j = (B j)\<lparr>b_prev := pr, b_next := nx\<rparr>" using assms unfolding links_only_def by blast
  then show "b_valid (B' j) = b_valid (B j)" "b_dev (B' j) = b_dev (B j)" "b_refcnt (B' j) = b_refcnt (B j)"
    "b_lock (B' j) = b_lock (B j)" "b_blockno (B' j) = b_blockno (B j)" by simp_all
qed

lemma binit_loop_fields:
  "b_valid (bufs (binit_loop is s) j) = b_valid (bufs s j) \<and>
   b_dev (bufs (binit_loop is s) j) = b_dev (bufs s j) \<and>
   b_refcnt (bufs (binit_loop is s) j) = b_refcnt (bufs s j) \<and>
   b_lock (bufs (binit_loop is s) j) = (if j \<in> set is then initsleeplock else b_lock (bufs s j))"
proof (induction "is" arbitrary: s)
  case (Cons i "is")
  let ?u = "buf_upd i (\<lambda>b. b\<lparr>b_lock := initsleeplock\<rparr>) s"
  show ?case
    using Cons.IH [of "link_front i ?u"] links_onlyD [OF link_front_links [of ?u i], of j] by auto
qed simp

lemma binit_loop_disk:
  "disk (binit_loop is s) = disk s \<and> curproc (binit_loop is s) = curproc s \<and> held (binit_loop is s) = held s \<and>
    procs (binit_loop is s) = procs s \<and> kbio.more (binit_loop is s) = kbio.more s"
  by (induction "is" arbitrary: s) (simp_all add: link_front_def buf_upd_def Let_def)

text \<open>\<open>binit\<close> on zeroed buffers establishes the invariant, with no buffer held or pinned.\<close>

lemma binit_inv:
  assumes "\<And>i. \<not> b_valid (bufs s i) \<and> b_dev (bufs s i) = 0 \<and> b_refcnt (bufs s i) = 0"
    and "held s - {LBcache} = {}" "curproc s \<noteq> None"
  shows "bio_inv (binit s) {} {}"
proof -
  let ?B = "bufs (binit s)"
  have f: "\<not> b_valid (?B i)" "b_dev (?B i) = 0" "b_refcnt (?B i) = 0"
    "i < NBUF \<Longrightarrow> b_lock (?B i) = initsleeplock" for i
    using assms(1) by (simp_all add: binit_def Let_def binit_loop_fields)
  have "\<exists>xs. ring ?B xs" using binit_ring by blast
  then have "binv ?B (disk (binit s)) (mypid (binit s)) {} {}"
    by (simp add: binv_def hit_def f ROOTDEV_def initsleeplock_def)
  moreover have "held (binit s) = held s - {LBcache}" "curproc (binit s) = curproc s"
    by (simp_all add: binit_def Let_def binit_loop_disk buf_upd_def)
  ultimately show ?thesis unfolding bio_inv_def by (simp only: assms(2,3) simp_thms)
qed

end
