(* ===== verification/Blockdata.thy ===== *)
theory Blockdata
  imports Kalloc
begin

text \<open>
  Little-endian fields of 2, 4 and 8 bytes at an offset in a block or a kernel buffer: how the
  C code reads and writes the structures that it overlays on the bytes of a block.
\<close>

definition at :: "bytes \<Rightarrow> nat \<Rightarrow> bytes" where
  "at b off = (\<lambda>i. b (off + i))"

definition get16 :: "bytes \<Rightarrow> nat \<Rightarrow> u16" where "get16 b off = of_nat (le_get 2 (at b off))"
definition get32 :: "bytes \<Rightarrow> nat \<Rightarrow> u32" where "get32 b off = of_nat (le_get 4 (at b off))"
definition get64 :: "bytes \<Rightarrow> nat \<Rightarrow> u64" where "get64 b off = of_nat (le_get 8 (at b off))"

text \<open>Overwriting \<open>n\<close> bytes at \<open>off\<close>.\<close>

definition splice :: "bytes \<Rightarrow> nat \<Rightarrow> bytes \<Rightarrow> nat \<Rightarrow> bytes" where
  "splice b off src n = (\<lambda>i. if off \<le> i \<and> i < off + n then src (i - off) else b i)"

definition put16 :: "bytes \<Rightarrow> nat \<Rightarrow> u16 \<Rightarrow> bytes" where "put16 b off v = splice b off (le_byte (unat v)) 2"
definition put32 :: "bytes \<Rightarrow> nat \<Rightarrow> u32 \<Rightarrow> bytes" where "put32 b off v = splice b off (le_byte (unat v)) 4"
definition put64 :: "bytes \<Rightarrow> nat \<Rightarrow> u64 \<Rightarrow> bytes" where "put64 b off v = splice b off (le_byte (unat v)) 8"

lemma splice_inside: "off \<le> i \<Longrightarrow> i < off + n \<Longrightarrow> splice b off src n i = src (i - off)"
  and splice_outside: "i < off \<or> off + n \<le> i \<Longrightarrow> splice b off src n i = b i"
  by (auto simp: splice_def)

lemma splice_0 [simp]: "splice b off src 0 = b"
  by (auto simp: splice_def fun_eq_iff)

lemma get16_put16 [byte_simps]: "get16 (put16 b off v) off = v"
proof -
  have "le_get 2 (at (put16 b off v) off) = le_get 2 (le_byte (unat v))"
    by (rule le_get_cong) (simp add: at_def put16_def splice_def)
  moreover have "unat v < 256 ^ 2" using unsigned_less [of v] by simp
  ultimately show ?thesis by (simp add: get16_def le_get_byte)
qed

lemma get32_put32 [byte_simps]: "get32 (put32 b off v) off = v"
proof -
  have "le_get 4 (at (put32 b off v) off) = le_get 4 (le_byte (unat v))"
    by (rule le_get_cong) (simp add: at_def put32_def splice_def)
  moreover have "unat v < 256 ^ 4" using unsigned_less [of v] by simp
  ultimately show ?thesis by (simp add: get32_def le_get_byte)
qed

lemma get64_put64 [byte_simps]: "get64 (put64 b off v) off = v"
proof -
  have "le_get 8 (at (put64 b off v) off) = le_get 8 (le_byte (unat v))"
    by (rule le_get_cong) (simp add: at_def put64_def splice_def)
  moreover have "unat v < 256 ^ 8" using unsigned_less [of v] by simp
  ultimately show ?thesis by (simp add: get64_def le_get_byte)
qed

lemma get16_cong: "(\<And>i. off \<le> i \<Longrightarrow> i < off + 2 \<Longrightarrow> b i = c i) \<Longrightarrow> get16 b off = get16 c off"
  unfolding get16_def by (intro arg_cong [where f = of_nat] le_get_cong) (simp add: at_def)

lemma get32_cong: "(\<And>i. off \<le> i \<Longrightarrow> i < off + 4 \<Longrightarrow> b i = c i) \<Longrightarrow> get32 b off = get32 c off"
  unfolding get32_def by (intro arg_cong [where f = of_nat] le_get_cong) (simp add: at_def)

lemma get32_zero: "\<forall>i<4. b (off + i) = 0 \<Longrightarrow> get32 b off = 0"
proof -
  assume z: "\<forall>i<4. b (off + i) = 0"
  have "get32 b off = get32 (\<lambda>_. 0) off"
  proof (rule get32_cong)
    fix i assume "off \<le> i" "i < off + 4"
    then show "b i = 0" using z [rule_format, of "i - off"] by simp
  qed
  also have "\<dots> = 0"
  proof -
    have "le_get n (\<lambda>_. 0) = 0" for n by (induction n) (simp_all add: adv_def)
    then show ?thesis by (simp add: get32_def at_def)
  qed
  finally show ?thesis .
qed

lemma get16_splice_other [byte_simps]:
  "off + 2 \<le> o' \<or> o' + n \<le> off \<Longrightarrow> get16 (splice b o' src n) off = get16 b off"
  by (rule get16_cong) (auto simp: splice_def)

lemma get32_splice_other [byte_simps]:
  "off + 4 \<le> o' \<or> o' + n \<le> off \<Longrightarrow> get32 (splice b o' src n) off = get32 b off"
  by (rule get32_cong) (auto simp: splice_def)

lemma put_other [byte_simps]:
  "off + 4 \<le> o' \<or> o' + 4 \<le> off \<Longrightarrow> get32 (put32 b o' v) off = get32 b off"
  "off + 4 \<le> o' \<or> o' + 2 \<le> off \<Longrightarrow> get32 (put16 b o' w) off = get32 b off"
  "off + 2 \<le> o' \<or> o' + 4 \<le> off \<Longrightarrow> get16 (put32 b o' v) off = get16 b off"
  "off + 2 \<le> o' \<or> o' + 2 \<le> off \<Longrightarrow> get16 (put16 b o' w) off = get16 b off"
  by (simp_all add: put16_def put32_def get16_splice_other get32_splice_other)

lemma put_outside [byte_simps]:
  "i < off \<or> off + 2 \<le> i \<Longrightarrow> put16 b off w i = b i"
  "i < off \<or> off + 4 \<le> i \<Longrightarrow> put32 b off v i = b i"
  by (auto simp: put16_def put32_def splice_def)

end
