(* ===== verification/Log.thy ===== *)
theory Log
  imports Bcache Blockdata
begin

text \<open>
  The write-ahead log: \<^verbatim>\<open>kernel/log.c\<close>.

  \<open>lg\<close> is \<open>struct log\<close>; its lock is \<open>LLog\<close>. Block numbers are 32-bit words. The header block
  holds the count at offset 0 and the block numbers after it. A file system call brackets its
  updates with \<open>begin_op\<close> and \<open>end_op\<close>; the last \<open>end_op\<close> commits.
\<close>

section \<open>State\<close>

record logst =
  l_start :: u32
  l_outstanding :: int
  l_committing :: bool
  l_dev :: u32
  lh_n :: int
  lh_block :: "nat \<Rightarrow> u32"

record klog = kbio +
  lg :: logst

definition lg_upd :: "(logst \<Rightarrow> logst) \<Rightarrow> 'z klog_scheme \<Rightarrow> 'z klog_scheme" where
  "lg_upd f s = s\<lparr>lg := f (lg s)\<rparr>"

text \<open>\<open>log.start + tail + 1\<close>\<close>

definition log_slot :: "logst \<Rightarrow> nat \<Rightarrow> u32" where
  "log_slot l tail = l_start l + of_nat tail + 1"

definition set_data :: "nat \<Rightarrow> bytes \<Rightarrow> 'z kbio_scheme \<Rightarrow> 'z kbio_scheme" where
  "set_data i d s = buf_upd i (\<lambda>b. b\<lparr>b_data := d\<rparr>) s"

section \<open>Commit and recovery\<close>

text \<open>The state of this layer has no console: the line that recovery prints for a block is left out.\<close>

definition install_one :: "bool \<Rightarrow> nat \<Rightarrow> 'z klog_scheme \<Rightarrow> (unit, 'z klog_scheme) kres" where
  "install_one recovering tail s =
    kbind (bread (l_dev (lg s)) (log_slot (lg s) tail) s) (\<lambda>lbuf s.
    kbind (bread (l_dev (lg s)) (lh_block (lg s) tail) s) (\<lambda>dbuf s.
    let s = set_data dbuf (b_data (bufs s lbuf)) s in
    kbind (bwrite dbuf s) (\<lambda>_ s.
    kbind (if \<not> recovering then bunpin dbuf s else Ok () s) (\<lambda>_ s.
    kbind (brelse lbuf s) (\<lambda>_ s.
    brelse dbuf s)))))"

definition install_trans :: "bool \<Rightarrow> 'z klog_scheme \<Rightarrow> (unit, 'z klog_scheme) kres" where
  "install_trans recovering s = foreach (install_one recovering) [0..<nat (lh_n (lg s))] s"

definition hdr_n :: "bytes \<Rightarrow> int" where "hdr_n d = sint (get32 d 0)"
definition hdr_block :: "bytes \<Rightarrow> nat \<Rightarrow> u32" where "hdr_block d i = get32 d (4 + 4 * i)"

text \<open>The loops over the header's array: reading it, and writing the in-memory one into a block.\<close>

fun read_blocks :: "bytes \<Rightarrow> nat list \<Rightarrow> (nat \<Rightarrow> u32) \<Rightarrow> nat \<Rightarrow> u32" where
  "read_blocks d [] f = f"
| "read_blocks d (i # is) f = read_blocks d is (f(i := hdr_block d i))"

fun write_blocks :: "(nat \<Rightarrow> u32) \<Rightarrow> nat list \<Rightarrow> bytes \<Rightarrow> bytes" where
  "write_blocks f [] d = d"
| "write_blocks f (i # is) d = write_blocks f is (put32 d (4 + 4 * i) (f i))"

definition read_head :: "'z klog_scheme \<Rightarrow> (unit, 'z klog_scheme) kres" where
  "read_head s =
    kbind (bread (l_dev (lg s)) (l_start (lg s)) s) (\<lambda>buf s.
      let d = b_data (bufs s buf);
          s = lg_upd (\<lambda>l. l\<lparr>lh_n := hdr_n d\<rparr>) s;
          s = lg_upd (\<lambda>l. l\<lparr>lh_block := read_blocks d [0..<nat (lh_n l)] (lh_block l)\<rparr>) s
      in brelse buf s)"

definition write_head :: "'z klog_scheme \<Rightarrow> (unit, 'z klog_scheme) kres" where
  "write_head s =
    kbind (bread (l_dev (lg s)) (l_start (lg s)) s) (\<lambda>buf s.
      let d = put32 (b_data (bufs s buf)) 0 (of_int (lh_n (lg s)));
          d = write_blocks (lh_block (lg s)) [0..<nat (lh_n (lg s))] d;
          s = set_data buf d s
      in kbind (bwrite buf s) (\<lambda>_ s. brelse buf s))"

definition recover_from_log :: "'z klog_scheme \<Rightarrow> (unit, 'z klog_scheme) kres" where
  "recover_from_log s =
    kbind (read_head s) (\<lambda>_ s.
    kbind (install_trans True s) (\<lambda>_ s.
    write_head (lg_upd (\<lambda>l. l\<lparr>lh_n := 0\<rparr>) s)))"

definition initlog :: "u32 \<Rightarrow> u32 \<Rightarrow> 'z klog_scheme \<Rightarrow> (unit, 'z klog_scheme) kres" where
  "initlog dev logstart s =
    recover_from_log (lg_upd (\<lambda>l. l\<lparr>l_start := logstart, l_dev := dev\<rparr>) (s\<lparr>held := held s - {LLog}\<rparr>))"

definition write_log_one :: "nat \<Rightarrow> 'z klog_scheme \<Rightarrow> (unit, 'z klog_scheme) kres" where
  "write_log_one tail s =
    kbind (bread (l_dev (lg s)) (log_slot (lg s) tail) s) (\<lambda>to s.
    kbind (bread (l_dev (lg s)) (lh_block (lg s) tail) s) (\<lambda>from s.
    let s = set_data to (b_data (bufs s from)) s in
    kbind (bwrite to s) (\<lambda>_ s.
    kbind (brelse from s) (\<lambda>_ s.
    brelse to s))))"

definition write_log :: "'z klog_scheme \<Rightarrow> (unit, 'z klog_scheme) kres" where
  "write_log s = foreach write_log_one [0..<nat (lh_n (lg s))] s"

definition commit :: "'z klog_scheme \<Rightarrow> (unit, 'z klog_scheme) kres" where
  "commit s =
    (if 0 < lh_n (lg s) then
       kbind (write_log s) (\<lambda>_ s.
       kbind (write_head s) (\<lambda>_ s.
       kbind (install_trans False s) (\<lambda>_ s.
       write_head (lg_upd (\<lambda>l. l\<lparr>lh_n := 0\<rparr>) s))))
     else Ok () s)"

section \<open>Transactions\<close>

text \<open>A call that has to wait sleeps, giving up the lock; woken, it starts the loop again.\<close>

definition begin_op :: "'z klog_scheme \<Rightarrow> (unit, 'z klog_scheme) kres" where
  "begin_op s =
    kbind (acquire LLog s) (\<lambda>_ s.
      if l_committing (lg s) then sleep ChLog LLog s
      else if lh_n (lg s) + (l_outstanding (lg s) + 1) * int MAXOPBLOCKS > int LOGBLOCKS
      then sleep ChLog LLog s
      else
        let s = lg_upd (\<lambda>l. l\<lparr>l_outstanding := l_outstanding l + 1\<rparr>) s
        in release LLog s)"

definition end_op :: "'z klog_scheme \<Rightarrow> (unit, 'z klog_scheme) kres" where
  "end_op s =
    kbind (acquire LLog s) (\<lambda>_ s.
    let s = lg_upd (\<lambda>l. l\<lparr>l_outstanding := l_outstanding l - 1\<rparr>) s in
    if l_committing (lg s) then Panic ''log.committing''
    else
      kbind (if l_outstanding (lg s) = 0
             then Ok True (lg_upd (\<lambda>l. l\<lparr>l_committing := True\<rparr>) s)
             else kbind (wakeup ChLog s) (\<lambda>_ s. Ok False s)) (\<lambda>do_commit s.
      kbind (release LLog s) (\<lambda>_ s.
        if do_commit then
          kbind (commit s) (\<lambda>_ s.
          kbind (acquire LLog s) (\<lambda>_ s.
          let s = lg_upd (\<lambda>l. l\<lparr>l_committing := False\<rparr>) s in
          kbind (wakeup ChLog s) (\<lambda>_ s.
          release LLog s)))
        else Ok () s)))"

text \<open>The slot of a block in the header: the first match, or the end.\<close>

definition log_index :: "logst \<Rightarrow> u32 \<Rightarrow> nat" where
  "log_index l n =
    (case scan (\<lambda>i. lh_block l i = n) (nat (lh_n l)) of Some i \<Rightarrow> i | None \<Rightarrow> nat (lh_n l))"

definition log_write :: "nat \<Rightarrow> 'z klog_scheme \<Rightarrow> (unit, 'z klog_scheme) kres" where
  "log_write b s =
    kbind (acquire LLog s) (\<lambda>_ s.
      if int LOGBLOCKS \<le> lh_n (lg s) then Panic ''too big a transaction''
      else if l_outstanding (lg s) < 1 then Panic ''log_write outside of trans''
      else
        let n = b_blockno (bufs s b);
            i = log_index (lg s) n;
            s = lg_upd (\<lambda>l. l\<lparr>lh_block := (lh_block l)(i := n)\<rparr>) s
        in kbind (if int i = lh_n (lg s)
                  then kbind (bpin b s) (\<lambda>_ s. Ok () (lg_upd (\<lambda>l. l\<lparr>lh_n := lh_n l + 1\<rparr>) s))
                  else Ok () s) (\<lambda>_ s.
           release LLog s))"

section \<open>One block copied through the cache\<close>

text \<open>What the commit changes: buffers, run states of processes, and the disk.\<close>

definition cframe :: "'z kbio_scheme \<Rightarrow> 'z kbio_scheme \<Rightarrow> bool" where
  "cframe s t \<longleftrightarrow> t = s\<lparr>procs := procs t, bufs := bufs t, disk := disk t, writes := writes t\<rparr> \<and>
    (\<forall>p. \<exists>st. procs t p = (procs s p)\<lparr>p_state := st\<rparr>)"

lemma bframe_cframe: "bframe H s t \<Longrightarrow> cframe s t"
proof -
  assume b: "bframe H s t"
  then have t: "t = s\<lparr>procs := procs t, bufs := bufs t\<rparr>" by (simp add: bframe_def)
  have "disk t = disk s" "writes t = writes s" using bframe_fields [OF b] by simp_all
  then have "t = s\<lparr>procs := procs t, bufs := bufs t, disk := disk t, writes := writes t\<rparr>"
    by (subst t) simp
  with b show ?thesis by (simp add: bframe_def cframe_def)
qed

lemma cframe_refl [simp]: "cframe s s"
  by (rule bframe_cframe [of "{}"]) simp

lemma cframe_disk [simp]: "cframe s (s\<lparr>disk := D, writes := w\<rparr>)"
  using cframe_refl [of s] unfolding cframe_def by simp

lemma cframe_trans:
  assumes "cframe s t" "cframe t u"
  shows "cframe s u"
proof -
  from assms have t: "t = s\<lparr>procs := procs t, bufs := bufs t, disk := disk t, writes := writes t\<rparr>"
    and u: "u = t\<lparr>procs := procs u, bufs := bufs u, disk := disk u, writes := writes u\<rparr>"
    and p: "\<forall>p. \<exists>st. procs t p = (procs s p)\<lparr>p_state := st\<rparr>" "\<forall>p. \<exists>st. procs u p = (procs t p)\<lparr>p_state := st\<rparr>"
    by (auto simp: cframe_def)
  have "u = s\<lparr>procs := procs u, bufs := bufs u, disk := disk u, writes := writes u\<rparr>"
    by (subst u, subst t) simp
  moreover have "\<exists>st. procs u q = (procs s q)\<lparr>p_state := st\<rparr>" for q
  proof -
    obtain a c where "procs t q = (procs s q)\<lparr>p_state := a\<rparr>" "procs u q = (procs t q)\<lparr>p_state := c\<rparr>"
      using p by blast
    then have "procs u q = (procs s q)\<lparr>p_state := c\<rparr>" by simp
    then show ?thesis by blast
  qed
  ultimately show ?thesis unfolding cframe_def by blast
qed

lemma cframe_fields:
  assumes "cframe s t"
  shows "held t = held s" "curproc t = curproc s" "kbio.more t = kbio.more s" "mypid t = mypid s"
proof -
  have t: "t = s\<lparr>procs := procs t, bufs := bufs t, disk := disk t, writes := writes t\<rparr>"
    using assms by (simp add: cframe_def)
  show "held t = held s" "kbio.more t = kbio.more s" and c: "curproc t = curproc s"
    using arg_cong [OF t, of held] arg_cong [OF t, of kbio.more] arg_cong [OF t, of curproc] by simp_all
  have "p_pid (procs t p) = p_pid (procs s p)" for p
  proof -
    obtain st where "procs t p = (procs s p)\<lparr>p_state := st\<rparr>" using assms unfolding cframe_def by blast
    then show ?thesis by simp
  qed
  then show "mypid t = mypid s" by (simp add: mypid_def c split: option.split)
qed

lemma cframe_lg: "cframe s t \<Longrightarrow> lg t = lg s"
  for s t :: "'z klog_scheme"
proof -
  assume "cframe s t"
  then have t: "t = s\<lparr>procs := procs t, bufs := bufs t, disk := disk t, writes := writes t\<rparr>"
    by (simp add: cframe_def)
  show ?thesis using arg_cong [OF t, of lg] by simp
qed

text \<open>A sequence of block writes, through the cache and on the disk.\<close>

fun apply_writes :: "(u32 \<Rightarrow> bytes) \<Rightarrow> (u32 \<times> bytes) list \<Rightarrow> u32 \<Rightarrow> bytes" where
  "apply_writes D [] = D"
| "apply_writes D ((n, d) # ws) = apply_writes (D(n := d)) ws"

lemma apply_writes_append: "apply_writes D (ws @ vs) = apply_writes (apply_writes D ws) vs"
  by (induction ws arbitrary: D) auto

lemma apply_writes_other: "n \<notin> fst ` set ws \<Longrightarrow> apply_writes D ws n = D n"
  by (induction ws arbitrary: D) auto

lemma apply_writes_nth:
  "distinct (map fst ws) \<Longrightarrow> i < length ws \<Longrightarrow> apply_writes D ws (fst (ws ! i)) = snd (ws ! i)"
proof (induction ws arbitrary: D i)
  case (Cons w ws)
  obtain n d where w: "w = (n, d)" by (cases w)
  show ?case
  proof (cases i)
    case 0
    have "n \<notin> fst ` set ws" using Cons.prems(1) w by simp
    then show ?thesis using 0 w by (simp add: apply_writes_other)
  next
    case (Suc j)
    then show ?thesis using Cons w by simp
  qed
qed simp

definition wrote :: "'z kbio_scheme \<Rightarrow> (u32 \<times> bytes) list \<Rightarrow> 'z kbio_scheme \<Rightarrow> bool" where
  "wrote s ws t \<longleftrightarrow> cframe s t \<and> blk t = apply_writes (blk s) ws \<and> disk t = apply_writes (disk s) ws \<and>
    writes t = writes s @ ws"

lemma wrote_trans: "wrote s ws t \<Longrightarrow> wrote t vs u \<Longrightarrow> wrote s (ws @ vs) u"
  unfolding wrote_def using cframe_trans by (auto simp: apply_writes_append)

lemma wrote_Nil [simp]: "wrote s [] s"
  by (simp add: wrote_def)

lemma wrote_lg: "wrote s ws t \<Longrightarrow> lg t = lg s" for s t :: "'z klog_scheme"
  by (simp add: wrote_def cframe_lg)

lemma write_log_one_spec:
  fixes s :: "'z klog_scheme"
  assumes inv: "bio_inv s {} L" and c: "card L < NBUF" and dev: "l_dev (lg s) = ROOTDEV"
    and n: "lh_block (lg s) k \<in> L" and ne: "log_slot (lg s) k \<notin> L"
  shows "wp (write_log_one k s) (\<lambda>_ t. bio_inv t {} L \<and>
    wrote s [(log_slot (lg s) k, blk s (lh_block (lg s) k))] t)"
proof -
  let ?m = "log_slot (lg s) k" and ?n = "lh_block (lg s) k"
  let ?d = "blk s ?n"
  obtain i t1 where r1: "bread ROOTDEV ?m s = Ok i t1" and i: "i < NBUF" "bio_inv t1 {i} L"
    "bframe {} s t1" "b_blockno (bufs t1 i) = ?m" "blk t1 = blk s"
    using bread_spec [OF inv, of ?m] c by (auto simp: wp_iff)
  note f1 = bframe_fields [OF i(3)]
  have "n \<in> {i} \<Longrightarrow> b_blockno (bufs t1 n) \<noteq> ?n" for n using i(4) ne assms(4) by auto
  from bread_spec [OF i(2) disjI1 [OF n] this] obtain j t2 where r2: "bread ROOTDEV ?n t1 = Ok j t2"
    and j: "j \<noteq> i" "bio_inv t2 {j, i} L" "bframe {i} t1 t2" "b_blockno (bufs t2 j) = ?n"
      "b_data (bufs t2 j) = ?d" "blk t2 = blk s"
    using i(5) by (auto simp: wp_iff)
  note f2 = bframe_fields [OF j(3)]
  have i2: "b_blockno (bufs t2 i) = ?m" using j(3) i(4) by (simp add: bframe_def)
  define t3 where "t3 = set_data i ?d t2"
  have "i \<in> {j, i}" by simp
  note u = buf_update_spec [OF j(2) this t3_def [unfolded set_data_def]]
  note f3 = bframe_fields [OF u(3)]
  have i3: "b_blockno (bufs t3 i) = ?m" "b_data (bufs t3 i) = ?d" using u(4,5) i2 by auto
  have j3: "b_blockno (bufs t3 j) = ?n" using u(3) j(1,4) by (simp add: bframe_def)
  obtain t4 where r4: "bwrite i t3 = Ok () t4" and w: "bio_inv t4 {j, i} L" "blk t4 = blk t3"
    "t4 = t3\<lparr>disk := (disk t3)(?m := ?d), writes := writes t3 @ [(?m, ?d)]\<rparr>"
    using bwrite_spec [OF u(1), of i] i3 by (auto simp: wp_iff)
  have b4: "bufs t4 = bufs t3" by (simp add: w(3))
  have "wp (brelse j t4) (\<lambda>_ t. bio_inv t ({j, i} - {j}) L \<and> bframe ({j, i} - {j}) t4 t \<and> blk t = blk t4)"
    by (rule brelse_spec [OF w(1)]) (use n j3 b4 in auto)
  then obtain t5 where r5: "brelse j t4 = Ok () t5" and x: "bio_inv t5 {i} L" "bframe {i} t4 t5" "blk t5 = blk t4"
    using j(1) by (auto simp: wp_iff insert_Diff_if)
  note f5 = bframe_fields [OF x(2)]
  have i5: "b_blockno (bufs t5 i) = ?m" "b_data (bufs t5 i) = ?d"
    using x(2) i3 b4 by (auto simp: bframe_def)
  have "wp (brelse i t5) (\<lambda>_ t. bio_inv t ({i} - {i}) L \<and> bframe ({i} - {i}) t5 t \<and> blk t = blk t5)"
    by (rule brelse_spec [OF x(1)]) (use i5 f5(1) in \<open>auto simp: w(3)\<close>)
  then obtain t6 where r6: "brelse i t5 = Ok () t6" and y: "bio_inv t6 {} L" "bframe {} t5 t6" "blk t6 = blk t5"
    by (auto simp: wp_iff)
  note f6 = bframe_fields [OF y(2)]
  have "cframe t3 t4" by (simp add: w(3))
  then have cf: "cframe s t6"
    using bframe_cframe i(3) j(3) u(3) x(2) y(2) cframe_trans by metis
  have "disk t6 = (disk s)(?m := ?d)" "writes t6 = writes s @ [(?m, ?d)]"
    using f1 f2 f3 f5 f6 by (simp_all add: w(3))
  moreover have "blk t6 = (blk s)(?m := ?d)" using y(3) x(3) w(2) u(2) i2 j(6) by simp
  ultimately have wr: "wrote s [(?m, ?d)] t6" using cf by (simp add: wrote_def)
  have lg1: "lg t1 = lg s" using i(3) by (intro cframe_lg bframe_cframe)
  have "write_log_one k s = Ok () t6"
    using r1 r2 r4 r5 r6 by (simp add: write_log_one_def dev lg1 Let_def j(5) t3_def)
  with y(1) wr show ?thesis by (simp add: wp_simps)
qed

text \<open>Blocks that nothing has pinned are on the disk as they are in the cache.\<close>

lemma clean_block: "bio_inv s {} L \<Longrightarrow> m \<notin> L \<Longrightarrow> blk s m = disk s m"
  unfolding bio_inv_def blk_def
  using lblk_cases [of "bufs s" "disk s" m] binvD(10) [of "bufs s" "disk s" "mypid s" "{}" L _ m] by auto

lemma install_one_spec:
  fixes s :: "'z klog_scheme"
  assumes inv: "bio_inv s {} L" and c: "card L < NBUF" and dev: "l_dev (lg s) = ROOTDEV"
    and n: "if recovering then L = {} else lh_block (lg s) k \<in> L"
    and ne: "log_slot (lg s) k \<notin> L" "log_slot (lg s) k \<noteq> lh_block (lg s) k"
  shows "wp (install_one recovering k s) (\<lambda>_ t. bio_inv t {} (L - {lh_block (lg s) k}) \<and>
    wrote s [(lh_block (lg s) k, blk s (log_slot (lg s) k))] t)"
proof -
  let ?m = "log_slot (lg s) k" and ?n = "lh_block (lg s) k"
  let ?d = "blk s ?m"
  obtain i t1 where r1: "bread ROOTDEV ?m s = Ok i t1" and i: "i < NBUF" "bio_inv t1 {i} L"
    "bframe {} s t1" "b_blockno (bufs t1 i) = ?m" "b_data (bufs t1 i) = ?d" "blk t1 = blk s"
    using bread_spec [OF inv, of ?m] c by (auto simp: wp_iff)
  note f1 = bframe_fields [OF i(3)]
  have "1 < NBUF" by (simp add: NBUF_def MAXOPBLOCKS_def)
  then have n': "?n \<in> L \<or> card {i} + card L < NBUF" using n by (auto split: if_splits)
  have "n \<in> {i} \<Longrightarrow> b_blockno (bufs t1 n) \<noteq> ?n" for n using i(4) ne by auto
  from bread_spec [OF i(2) n' this] obtain j t2 where r2: "bread ROOTDEV ?n t1 = Ok j t2"
    and j: "j \<noteq> i" "bio_inv t2 {j, i} L" "bframe {i} t1 t2" "b_blockno (bufs t2 j) = ?n" "blk t2 = blk s"
    using i(6) by (auto simp: wp_iff)
  note f2 = bframe_fields [OF j(3)]
  have i2: "b_blockno (bufs t2 i) = ?m" "b_data (bufs t2 i) = ?d" using j(3) i(4,5) by (simp_all add: bframe_def)
  define t3 where "t3 = set_data j ?d t2"
  have jin: "j \<in> {j, i}" by simp
  note u = buf_update_spec [OF j(2) jin t3_def [unfolded set_data_def]]
  note f3 = bframe_fields [OF u(3)]
  have j3: "b_blockno (bufs t3 j) = ?n" "b_data (bufs t3 j) = ?d" using u(4,5) j(4) by auto
  have i3: "b_blockno (bufs t3 i) = ?m" "b_data (bufs t3 i) = ?d" using u(3) j(1) i2 by (auto simp: bframe_def)
  obtain t4 where r4: "bwrite j t3 = Ok () t4" and w: "bio_inv t4 {j, i} L" "blk t4 = blk t3"
    "t4 = t3\<lparr>disk := (disk t3)(?n := ?d), writes := writes t3 @ [(?n, ?d)]\<rparr>"
    using bwrite_spec [OF u(1), of j] j3 by (auto simp: wp_iff)
  have b4: "bufs t4 = bufs t3" by (simp add: w(3))
  have "wp (if \<not> recovering then bunpin j t4 else Ok () t4)
      (\<lambda>_ t. bio_inv t {j, i} (L - {?n}) \<and> blk t = blk t4 \<and> bframe {j, i} t4 t)"
  proof (cases recovering)
    case True
    then show ?thesis using n w(1) by (simp add: wp_simps)
  next
    case False
    then show ?thesis using bunpin_spec [OF w(1), of j] n j3(1) b4 by simp
  qed
  then obtain t5 where r5: "(if \<not> recovering then bunpin j t4 else Ok () t4) = Ok () t5"
    and v: "bio_inv t5 {j, i} (L - {?n})" "blk t5 = blk t4" "bframe {j, i} t4 t5" by (auto simp: wp_iff)
  note f5 = bframe_fields [OF v(3)]
  have b5: "b_blockno (bufs t5 j) = ?n" "b_data (bufs t5 j) = ?d" "b_blockno (bufs t5 i) = ?m" "b_data (bufs t5 i) = ?d"
    using v(3) j3 i3 b4 by (simp_all add: bframe_def)
  have d5: "disk t5 = (disk s)(?n := ?d)" using f1 f2 f3 f5 by (simp add: w(3))
  have dm: "disk s ?m = ?d" using clean_block [OF inv ne(1)] by simp
  have "wp (brelse i t5) (\<lambda>_ t. bio_inv t ({j, i} - {i}) (L - {?n}) \<and> bframe ({j, i} - {i}) t5 t \<and> blk t = blk t5)"
    by (rule brelse_spec [OF v(1)]) (use b5 d5 dm ne in auto)
  then obtain t6 where r6: "brelse i t5 = Ok () t6" and x: "bio_inv t6 {j} (L - {?n})" "bframe {j} t5 t6" "blk t6 = blk t5"
    using j(1) by (auto simp: wp_iff insert_Diff_if)
  note f6 = bframe_fields [OF x(2)]
  have b6: "b_blockno (bufs t6 j) = ?n" "b_data (bufs t6 j) = ?d" using x(2) b5 by (auto simp: bframe_def)
  have "wp (brelse j t6) (\<lambda>_ t. bio_inv t ({j} - {j}) (L - {?n}) \<and> bframe ({j} - {j}) t6 t \<and> blk t = blk t6)"
    by (rule brelse_spec [OF x(1)]) (use b6 d5 f6(1) in auto)
  then obtain t7 where r7: "brelse j t6 = Ok () t7" and y: "bio_inv t7 {} (L - {?n})" "bframe {} t6 t7" "blk t7 = blk t6"
    by (auto simp: wp_iff)
  note f7 = bframe_fields [OF y(2)]
  have "cframe t3 t4" by (simp add: w(3))
  then have cf: "cframe s t7"
    using bframe_cframe i(3) j(3) u(3) v(3) x(2) y(2) cframe_trans by metis
  have "disk t7 = (disk s)(?n := ?d)" "writes t7 = writes s @ [(?n, ?d)]"
    using f1 f2 f3 f5 f6 f7 d5 by (simp_all add: w(3))
  moreover have "blk t7 = (blk s)(?n := ?d)" using y(3) x(3) v(2) w(2) u(2) j(4,5) by simp
  ultimately have wr: "wrote s [(?n, ?d)] t7" using cf by (simp add: wrote_def)
  have lg1: "lg t1 = lg s" using i(3) by (intro cframe_lg bframe_cframe)
  have "install_one recovering k s = Ok () t7"
    using r1 r2 r4 r5 r6 r7 by (simp add: install_one_def dev lg1 Let_def i2(2) t3_def)
  with y(1) wr show ?thesis by (simp add: wp_simps)
qed

definition hdr_bytes :: "logst \<Rightarrow> bytes \<Rightarrow> bytes" where
  "hdr_bytes l d = write_blocks (lh_block l) [0..<nat (lh_n l)] (put32 d 0 (of_int (lh_n l)))"

lemma write_head_spec:
  fixes s :: "'z klog_scheme"
  assumes inv: "bio_inv s {} L" and c: "card L < NBUF" and dev: "l_dev (lg s) = ROOTDEV"
    and ne: "l_start (lg s) \<notin> L"
  shows "wp (write_head s) (\<lambda>_ t. bio_inv t {} L \<and>
    wrote s [(l_start (lg s), hdr_bytes (lg s) (blk s (l_start (lg s))))] t)"
proof -
  let ?n = "l_start (lg s)"
  let ?d = "hdr_bytes (lg s) (blk s ?n)"
  obtain i t1 where r1: "bread ROOTDEV ?n s = Ok i t1" and i: "bio_inv t1 {i} L"
    "bframe {} s t1" "b_blockno (bufs t1 i) = ?n" "b_data (bufs t1 i) = blk s ?n" "blk t1 = blk s"
    using bread_spec [OF inv, of ?n] c by (auto simp: wp_iff)
  note f1 = bframe_fields [OF i(2)]
  define t2 where "t2 = set_data i ?d t1"
  have iin: "i \<in> {i}" by simp
  note u = buf_update_spec [OF i(1) iin t2_def [unfolded set_data_def]]
  note f2 = bframe_fields [OF u(3)]
  have i2: "b_blockno (bufs t2 i) = ?n" "b_data (bufs t2 i) = ?d" using u(4,5) i(3) by auto
  obtain t3 where r3: "bwrite i t2 = Ok () t3" and w: "bio_inv t3 {i} L" "blk t3 = blk t2"
    "t3 = t2\<lparr>disk := (disk t2)(?n := ?d), writes := writes t2 @ [(?n, ?d)]\<rparr>"
    using bwrite_spec [OF u(1), of i] i2 by (auto simp: wp_iff)
  have "wp (brelse i t3) (\<lambda>_ t. bio_inv t ({i} - {i}) L \<and> bframe ({i} - {i}) t3 t \<and> blk t = blk t3)"
    by (rule brelse_spec [OF w(1)]) (use i2 in \<open>auto simp: w(3)\<close>)
  then obtain t4 where r4: "brelse i t3 = Ok () t4" and y: "bio_inv t4 {} L" "bframe {} t3 t4" "blk t4 = blk t3"
    by (auto simp: wp_iff)
  note f4 = bframe_fields [OF y(2)]
  have "cframe t2 t3" by (simp add: w(3))
  then have cf: "cframe s t4" using bframe_cframe i(2) u(3) y(2) cframe_trans by metis
  have "disk t4 = (disk s)(?n := ?d)" "writes t4 = writes s @ [(?n, ?d)]"
    using f1 f2 f4 by (simp_all add: w(3))
  moreover have "blk t4 = (blk s)(?n := ?d)" using y(3) w(2) u(2) i(3,5) by simp
  ultimately have wr: "wrote s [(?n, ?d)] t4" using cf by (simp add: wrote_def)
  have lg1: "lg t1 = lg s" using i(2) by (intro cframe_lg bframe_cframe)
  have "write_head s = Ok () t4"
    using r1 r3 r4 by (simp add: write_head_def dev lg1 Let_def i(4) t2_def hdr_bytes_def)
  with y(1) wr show ?thesis by (simp add: wp_simps)
qed

end
