(* ===== verification/Commit.thy ===== *)
theory Commit
  imports Log Uvm
begin

text \<open>
  The commit of a transaction, and crashes in the middle of it.

  \<open>commit\<close> writes the blocks of the transaction to the log, then the header, then the blocks to
  their home locations, then the header again. A crash leaves the disk after some prefix of
  these writes; the recovery that the next boot runs on such a disk leaves all home locations
  with their old contents, or all with their new ones.
\<close>

section \<open>A transaction in memory\<close>

definition in_log :: "logst \<Rightarrow> u32 \<Rightarrow> bool" where
  "in_log l m \<longleftrightarrow> unat (l_start l) \<le> unat m \<and> unat m \<le> unat (l_start l) + LOGBLOCKS"

definition log_ok :: "logst \<Rightarrow> u32 list \<Rightarrow> bool" where
  "log_ok l bl \<longleftrightarrow> l_dev l = ROOTDEV \<and> unat (l_start l) + LOGBLOCKS < 2 ^ 32 \<and>
    lh_n l = int (length bl) \<and> (\<forall>i<length bl. lh_block l i = bl ! i) \<and> distinct bl \<and>
    length bl \<le> LOGBLOCKS \<and> (\<forall>m\<in>set bl. \<not> in_log l m)"

lemma unat_slot:
  "log_ok l bl \<Longrightarrow> i < LOGBLOCKS \<Longrightarrow> unat (log_slot l i) = unat (l_start l) + i + 1"
proof -
  assume a: "log_ok l bl" "i < LOGBLOCKS"
  have i: "unat (of_nat i :: u32) = i"
    using a(2) by (simp add: unat_of_nat LOGBLOCKS_def MAXOPBLOCKS_def)
  then have 1: "unat (l_start l + of_nat i) = unat (l_start l) + i"
    using a by (simp add: log_ok_def unat_word_ariths)
  then show ?thesis using a unfolding log_slot_def by (simp add: log_ok_def unat_word_ariths)
qed

lemma slot_in_log: "log_ok l bl \<Longrightarrow> i < LOGBLOCKS \<Longrightarrow> in_log l (log_slot l i) \<and> log_slot l i \<noteq> l_start l"
  using unat_slot [of l bl i] by (auto simp: in_log_def)

lemma slot_inj: "log_ok l bl \<Longrightarrow> i < LOGBLOCKS \<Longrightarrow> j < LOGBLOCKS \<Longrightarrow> log_slot l i = log_slot l j \<Longrightarrow> i = j"
proof -
  assume a: "log_ok l bl" "i < LOGBLOCKS" "j < LOGBLOCKS" and e: "log_slot l i = log_slot l j"
  have "unat (l_start l) + i + 1 = unat (l_start l) + j + 1"
    unfolding unat_slot [OF a(1,2), symmetric] unat_slot [OF a(1,3), symmetric] e ..
  then show ?thesis by simp
qed

lemma start_in_log: "in_log l (l_start l)"
  by (simp add: in_log_def)

section \<open>The writes of a commit\<close>

definition log_part :: "logst \<Rightarrow> (u32 \<Rightarrow> bytes) \<Rightarrow> u32 list \<Rightarrow> (u32 \<times> bytes) list" where
  "log_part l c bl = map (\<lambda>i. (log_slot l i, c (bl ! i))) [0..<length bl]"

definition home_part :: "(u32 \<Rightarrow> bytes) \<Rightarrow> u32 list \<Rightarrow> (u32 \<times> bytes) list" where
  "home_part c bl = map (\<lambda>m. (m, c m)) bl"

definition commit_trace :: "logst \<Rightarrow> (u32 \<Rightarrow> bytes) \<Rightarrow> u32 list \<Rightarrow> (u32 \<times> bytes) list" where
  "commit_trace l c bl =
    (let h = hdr_bytes l (c (l_start l))
     in log_part l c bl @ (l_start l, h) # home_part c bl @ [(l_start l, hdr_bytes (l\<lparr>lh_n := 0\<rparr>) h)])"

lemma apply_log_part:
  assumes "log_ok l bl"
  shows "\<not> in_log l m \<or> m = l_start l \<Longrightarrow> apply_writes D (log_part l c bl) m = D m"
    and "i < length bl \<Longrightarrow> apply_writes D (log_part l c bl) (log_slot l i) = c (bl ! i)"
proof -
  have len: "length bl \<le> LOGBLOCKS" using assms by (simp add: log_ok_def)
  show "apply_writes D (log_part l c bl) m = D m" if "\<not> in_log l m \<or> m = l_start l"
  proof (rule apply_writes_other)
    show "m \<notin> fst ` set (log_part l c bl)"
      using that slot_in_log [OF assms] len by (auto simp: log_part_def)
  qed
  assume i: "i < length bl"
  have "distinct (map fst (log_part l c bl))"
    using slot_inj [OF assms] len by (auto simp: log_part_def distinct_map inj_on_def comp_def)
  from apply_writes_nth [OF this, of i D] i show "apply_writes D (log_part l c bl) (log_slot l i) = c (bl ! i)"
    by (simp add: log_part_def)
qed

lemma apply_home_part:
  assumes "distinct bl"
  shows "apply_writes D (home_part c bl) m = (if m \<in> set bl then c m else D m)"
proof (cases "m \<in> set bl")
  case True
  then obtain i where i: "i < length bl" "m = bl ! i" by (auto simp: in_set_conv_nth)
  have "map fst (home_part c bl) = bl" by (simp add: home_part_def comp_def)
  with apply_writes_nth [of "home_part c bl" i D] i assms show ?thesis by (simp add: home_part_def)
next
  case False
  then have "m \<notin> fst ` set (home_part c bl)" by (auto simp: home_part_def)
  with False show ?thesis by (simp add: apply_writes_other)
qed

text \<open>The loops, by the loop rule.\<close>

lemma upt_split: "[0..<n] = ys @ i # zs \<Longrightarrow> i = length ys \<and> i < n \<and> ys = [0..<i]"
proof -
  assume e: "[0..<n] = ys @ i # zs"
  have l: "length ys < n" using arg_cong [OF e, of length] by simp
  have "[0..<n] ! length ys = i" by (simp add: e)
  then have i: "i = length ys" using l by simp
  have "take (length ys) [0..<n] = ys" by (simp add: e)
  with l i show ?thesis by simp
qed

lemma write_log_spec:
  fixes s :: "'z klog_scheme"
  assumes inv: "bio_inv s {} (set bl)" and ok: "log_ok (lg s) bl" and c: "length bl < NBUF"
  shows "wp (write_log s) (\<lambda>_ t. bio_inv t {} (set bl) \<and> wrote s (log_part (lg s) (blk s) bl) t)"
proof -
  have len: "length bl \<le> LOGBLOCKS" "nat (lh_n (lg s)) = length bl" and dev: "l_dev (lg s) = ROOTDEV"
    and nl: "\<And>m. m \<in> set bl \<Longrightarrow> \<not> in_log (lg s) m" and at: "\<And>i. i < length bl \<Longrightarrow> lh_block (lg s) i = bl ! i"
    using ok by (auto simp: log_ok_def)
  have card: "card (set bl) < NBUF" using c card_length [of bl] by linarith
  let ?W = "\<lambda>ys. map (\<lambda>i. (log_slot (lg s) i, blk s (bl ! i))) ys"
  have "wp (foreach write_log_one [0..<length bl] s)
      (\<lambda>_ t. bio_inv t {} (set bl) \<and> wrote s (?W [0..<length bl]) t)"
  proof (rule wp_foreach [where I = "\<lambda>ys t. bio_inv t {} (set bl) \<and> wrote s (?W ys) t"])
    show "bio_inv s {} (set bl) \<and> wrote s (?W []) s" using inv by simp
    fix ys i zs and t :: "'z klog_scheme"
    assume e: "[0..<length bl] = ys @ i # zs" and t: "bio_inv t {} (set bl) \<and> wrote s (?W ys) t"
    have i: "i < length bl" "ys = [0..<i]" using upt_split [OF e] by blast+
    have lgt: "lg t = lg s" using t by (auto intro: wrote_lg)
    have bi: "bl ! i \<in> set bl" using i(1) by simp
    have ne: "log_slot (lg s) i \<notin> set bl" using nl slot_in_log [OF ok, of i] i(1) len(1) by auto
    have "blk t (bl ! i) = blk s (bl ! i)"
    proof -
      have "bl ! i \<notin> fst ` set (?W ys)"
        using nl [OF bi] slot_in_log [OF ok] i len(1) by auto
      then show ?thesis using t by (simp add: wrote_def apply_writes_other)
    qed
    then have "wp (write_log_one i t) (\<lambda>_ u. bio_inv u {} (set bl) \<and>
        wrote t [(log_slot (lg s) i, blk s (bl ! i))] u)"
      using write_log_one_spec [of t "set bl" i] t card dev at [OF i(1)] bi ne by (simp add: lgt)
    then show "wp (write_log_one i t) (\<lambda>_ u. bio_inv u {} (set bl) \<and> wrote s (?W (ys @ [i])) u)"
      by (rule wp_mono) (use t wrote_trans [of s "?W ys" t "[(log_slot (lg s) i, blk s (bl ! i))]"] in auto)
  qed
  then show ?thesis by (simp add: write_log_def len(2) log_part_def)
qed

lemma install_trans_spec:
  fixes s :: "'z klog_scheme"
  assumes inv: "bio_inv s {} L" and ok: "log_ok (lg s) bl" and c: "length bl < NBUF"
    and L: "if recovering then L = {} else L = set bl"
    and home: "\<And>i. i < length bl \<Longrightarrow> blk s (log_slot (lg s) i) = c (bl ! i)"
  shows "wp (install_trans recovering s) (\<lambda>_ t. bio_inv t {} {} \<and> wrote s (home_part c bl) t)"
proof -
  have len: "length bl \<le> LOGBLOCKS" "nat (lh_n (lg s)) = length bl" and dev: "l_dev (lg s) = ROOTDEV"
    and nl: "\<And>m. m \<in> set bl \<Longrightarrow> \<not> in_log (lg s) m" and at: "\<And>i. i < length bl \<Longrightarrow> lh_block (lg s) i = bl ! i"
    and d: "distinct bl"
    using ok by (auto simp: log_ok_def)
  have cl: "card L < NBUF" using c card_length [of bl] L by (auto split: if_splits)
  have fl: "finite L" using L by (auto split: if_splits)
  let ?W = "\<lambda>ys. map (\<lambda>i. (bl ! i, c (bl ! i))) ys"
  let ?L = "\<lambda>ys. L - (\<lambda>i. bl ! i) ` set ys"
  have main: "wp (foreach (install_one recovering) [0..<length bl] s)
      (\<lambda>_ t. bio_inv t {} (?L [0..<length bl]) \<and> wrote s (?W [0..<length bl]) t)"
  proof (rule wp_foreach [where I = "\<lambda>ys t. bio_inv t {} (?L ys) \<and> wrote s (?W ys) t"])
    show "bio_inv s {} (?L []) \<and> wrote s (?W []) s" using inv by simp
    fix ys i zs and t :: "'z klog_scheme"
    assume e: "[0..<length bl] = ys @ i # zs" and t: "bio_inv t {} (?L ys) \<and> wrote s (?W ys) t"
    have i: "i < length bl" "ys = [0..<i]" using upt_split [OF e] by blast+
    have lgt: "lg t = lg s" using t by (auto intro: wrote_lg)
    have bi: "bl ! i \<in> set bl" using i(1) by simp
    have sl: "in_log (lg s) (log_slot (lg s) i)" using slot_in_log [OF ok, of i] i(1) len(1) by simp
    then have ne: "log_slot (lg s) i \<notin> ?L ys" "log_slot (lg s) i \<noteq> bl ! i"
      using nl bi L by (auto split: if_splits)
    have bt: "blk t (log_slot (lg s) i) = c (bl ! i)"
    proof -
      have "log_slot (lg s) i \<notin> fst ` set (?W ys)" using nl sl i by auto
      then show ?thesis using t home [OF i(1)] by (simp add: wrote_def apply_writes_other)
    qed
    have "bl ! i \<notin> (\<lambda>i. bl ! i) ` set ys" using d i by (auto simp: nth_eq_iff_index_eq)
    then have n: "if recovering then ?L ys = {} else lh_block (lg t) i \<in> ?L ys"
      using L bi at [OF i(1)] by (auto simp: lgt split: if_splits)
    have "card (?L ys) < NBUF" using cl card_mono [OF fl, of "?L ys"] by auto
    then have "wp (install_one recovering i t) (\<lambda>_ u. bio_inv u {} (?L ys - {bl ! i}) \<and>
        wrote t [(bl ! i, c (bl ! i))] u)"
      using install_one_spec [of t "?L ys" recovering i] t dev n ne at [OF i(1)] bt by (simp add: lgt)
    then show "wp (install_one recovering i t) (\<lambda>_ u. bio_inv u {} (?L (ys @ [i])) \<and> wrote s (?W (ys @ [i])) u)"
    proof (rule wp_mono)
      fix x u assume u: "bio_inv u {} (?L ys - {bl ! i}) \<and> wrote t [(bl ! i, c (bl ! i))] u"
      have "?L (ys @ [i]) = ?L ys - {bl ! i}" by auto
      then show "bio_inv u {} (?L (ys @ [i])) \<and> wrote s (?W (ys @ [i])) u"
        using u t wrote_trans [of s "?W ys" t "[(bl ! i, c (bl ! i))]" u] by simp
    qed
  qed
  have W: "?W [0..<length bl] = home_part c bl"
    by (rule nth_equalityI) (simp_all add: home_part_def)
  have E: "?L [0..<length bl] = {}"
  proof -
    have "(\<lambda>i. bl ! i) ` set [0..<length bl] = set (map (\<lambda>i. bl ! i) [0..<length bl])" by (simp only: set_map)
    then have "(\<lambda>i. bl ! i) ` set [0..<length bl] = set bl" by (simp only: map_nth)
    then show ?thesis using L by (simp split: if_splits)
  qed
  show ?thesis using main unfolding W E install_trans_def len(2) .
qed

text \<open>The commit performs exactly the writes of its trace.\<close>

lemma bio_inv_lg [simp]: "bio_inv (lg_upd f s) H L = bio_inv s H L"
  and blk_lg [simp]: "blk (lg_upd f s) = blk s"
  and disk_lg [simp]: "disk (lg_upd f s) = disk s" "writes (lg_upd f s) = writes s"
  and lg_lg [simp]: "lg (lg_upd f s) = f (lg s)"
  by (simp_all add: bio_inv_def blk_def lg_upd_def mypid_def fun_eq_iff split: option.split)

lemma commit_spec:
  fixes s :: "'z klog_scheme"
  assumes inv: "bio_inv s {} (set bl)" and ok: "log_ok (lg s) bl" and c: "0 < length bl" "length bl < NBUF"
  shows "wp (commit s) (\<lambda>_ t. bio_inv t {} {} \<and> lg t = (lg s)\<lparr>lh_n := 0\<rparr> \<and>
    writes t = writes s @ commit_trace (lg s) (blk s) bl \<and>
    disk t = apply_writes (disk s) (commit_trace (lg s) (blk s) bl) \<and>
    blk t = apply_writes (blk s) (commit_trace (lg s) (blk s) bl))"
proof -
  let ?l = "lg s" and ?st = "l_start (lg s)"
  let ?W1 = "log_part ?l (blk s) bl" and ?h = "hdr_bytes ?l (blk s ?st)"
  have len: "length bl \<le> LOGBLOCKS" and dev: "l_dev ?l = ROOTDEV" and n: "lh_n ?l = int (length bl)"
    and nl: "\<And>m. m \<in> set bl \<Longrightarrow> \<not> in_log ?l m" and d: "distinct bl"
    using ok by (auto simp: log_ok_def)
  have card: "card (set bl) < NBUF" using c(2) card_length [of bl] by linarith
  have st: "?st \<notin> set bl" using nl start_in_log [of ?l] by auto
  obtain t1 where r1: "write_log s = Ok () t1" and w1: "bio_inv t1 {} (set bl)" "wrote s ?W1 t1"
    using write_log_spec [OF inv ok c(2)] by (auto simp: wp_iff)
  have l1: "lg t1 = ?l" by (rule wrote_lg [OF w1(2)])
  have b1: "blk t1 ?st = blk s ?st" using w1(2) apply_log_part(1) [OF ok] by (simp add: wrote_def)
  obtain t2 where r2: "write_head t1 = Ok () t2" and w2: "bio_inv t2 {} (set bl)" "wrote t1 [(?st, ?h)] t2"
    using write_head_spec [OF w1(1) card, unfolded l1 b1, OF dev st] by (auto simp: wp_iff)
  have l2: "lg t2 = ?l" using wrote_lg [OF w2(2)] l1 by simp
  have w12: "wrote s (?W1 @ [(?st, ?h)]) t2" by (rule wrote_trans [OF w1(2) w2(2)])
  have home: "blk t2 (log_slot (lg t2) i) = blk s (bl ! i)" if i: "i < length bl" for i
  proof -
    have "log_slot ?l i \<noteq> ?st" using slot_in_log [OF ok, of i] i len by simp
    then show ?thesis using w12 apply_log_part(2) [OF ok i] by (simp add: wrote_def apply_writes_append l2)
  qed
  obtain t3 where r3: "install_trans False t2 = Ok () t3" and w3: "bio_inv t3 {} {}"
    "wrote t2 (home_part (blk s) bl) t3"
    using install_trans_spec [OF w2(1), of bl False "blk s"] ok c(2) home l2 by (auto simp: wp_iff)
  have l3: "lg t3 = ?l" using wrote_lg [OF w3(2)] l2 by simp
  let ?t3 = "lg_upd (\<lambda>l. l\<lparr>lh_n := 0\<rparr>) t3"
  have b3: "blk t3 ?st = ?h"
    using w3(2) w12 apply_home_part [OF d] st by (simp add: wrote_def apply_writes_append)
  have "bio_inv ?t3 {} {}" "card ({} :: u32 set) < NBUF" using w3(1) c by simp_all
  from write_head_spec [OF this] obtain t4 where r4: "write_head ?t3 = Ok () t4" and w4: "bio_inv t4 {} {}"
    "wrote ?t3 [(?st, hdr_bytes (?l\<lparr>lh_n := 0\<rparr>) ?h)] t4"
    using dev by (auto simp: wp_iff l3 b3)
  have "lg t4 = ?l\<lparr>lh_n := 0\<rparr>" using wrote_lg [OF w4(2)] l3 by simp
  moreover have "wrote t3 [(?st, hdr_bytes (?l\<lparr>lh_n := 0\<rparr>) ?h)] t4 \<or> True" by simp
  moreover have "commit_trace ?l (blk s) bl = (?W1 @ [(?st, ?h)]) @ home_part (blk s) bl @
      [(?st, hdr_bytes (?l\<lparr>lh_n := 0\<rparr>) ?h)]"
    by (simp add: commit_trace_def Let_def)
  moreover have "commit s = Ok () t4"
    using r1 r2 r3 r4 n c(1) by (simp add: commit_def)
  ultimately show ?thesis
    using w4 w3(2) w12 by (simp add: wp_simps wrote_def apply_writes_append)
qed

section \<open>Recovery\<close>

lemma get32_write_blocks_other:
  "(\<And>i. i \<in> set is \<Longrightarrow> off + 4 \<le> 4 + 4 * i \<or> 4 + 4 * i + 4 \<le> off) \<Longrightarrow>
    get32 (write_blocks f is d) off = get32 d off"
  by (induction "is" arbitrary: d) (auto simp: byte_simps)

lemma get32_write_blocks:
  "j \<in> set is \<Longrightarrow> get32 (write_blocks f is d) (4 + 4 * j) = f j"
proof (induction "is" arbitrary: d)
  case (Cons i "is")
  show ?case
  proof (cases "j \<in> set is")
    case True
    with Cons.IH show ?thesis by simp
  next
    case False
    then have "j = i" using Cons.prems by simp
    moreover have "get32 (write_blocks f is (put32 d (4 + 4 * i) (f i))) (4 + 4 * i) =
        get32 (put32 d (4 + 4 * i) (f i)) (4 + 4 * i)"
    proof (rule get32_write_blocks_other)
      fix k assume "k \<in> set is"
      with False \<open>j = i\<close> have "k < i \<or> i < k" by (metis nat_neq_iff)
      then show "4 + 4 * i + 4 \<le> 4 + 4 * k \<or> 4 + 4 * k + 4 \<le> 4 + 4 * i" by auto
    qed
    ultimately show ?thesis by (simp add: byte_simps)
  qed
qed simp

lemma hdr_bytes_n:
  assumes "0 \<le> lh_n l" "lh_n l \<le> int LOGBLOCKS"
  shows "hdr_n (hdr_bytes l d) = lh_n l"
proof -
  have "get32 (hdr_bytes l d) 0 = of_int (lh_n l)"
    unfolding hdr_bytes_def by (subst get32_write_blocks_other) (auto simp: byte_simps)
  moreover have "sint (of_int (lh_n l) :: u32) = lh_n l"
    using assms by (simp add: LOGBLOCKS_def MAXOPBLOCKS_def sint_uint uint_word_of_int signed_take_bit_int_eq_self_iff take_bit_int_eq_self_iff
      del: of_int_eq_iff)
  ultimately show ?thesis by (simp add: hdr_n_def)
qed

lemma hdr_bytes_block: "i < nat (lh_n l) \<Longrightarrow> hdr_block (hdr_bytes l d) i = lh_block l i"
  by (simp add: hdr_block_def hdr_bytes_def get32_write_blocks)

lemma read_blocks_eq: "read_blocks d is f i = (if i \<in> set is then hdr_block d i else f i)"
  by (induction "is" arbitrary: f) auto

text \<open>The transaction that a log on disk describes.\<close>

definition disk_log :: "u32 \<Rightarrow> (u32 \<Rightarrow> bytes) \<Rightarrow> u32 list" where
  "disk_log start D = map (hdr_block (D start)) [0..<nat (hdr_n (D start))]"

text \<open>What recovery leaves at a home location.\<close>

definition recovered :: "u32 \<Rightarrow> (u32 \<Rightarrow> bytes) \<Rightarrow> u32 \<Rightarrow> bytes" where
  "recovered start D m =
    (case scan (\<lambda>i. disk_log start D ! i = m) (length (disk_log start D)) of
       None \<Rightarrow> D m | Some i \<Rightarrow> D (start + of_nat i + 1))"

lemma recovery_spec:
  fixes s :: "'z klog_scheme"
  assumes inv: "bio_inv s {} {}" and dev: "l_dev (lg s) = ROOTDEV"
    and h: "0 \<le> hdr_n (disk s (l_start (lg s)))"
    and ok: "log_ok ((lg s)\<lparr>lh_n := hdr_n (disk s (l_start (lg s))), lh_block := hdr_block (disk s (l_start (lg s)))\<rparr>)
      (disk_log (l_start (lg s)) (disk s))"
    and c: "length (disk_log (l_start (lg s)) (disk s)) < NBUF"
  shows "wp (recover_from_log s) (\<lambda>_ t. bio_inv t {} {} \<and> lh_n (lg t) = 0 \<and>
    (\<forall>m. \<not> in_log (lg s) m \<longrightarrow> disk t m = recovered (l_start (lg s)) (disk s) m) \<and>
    hdr_n (disk t (l_start (lg s))) = 0)"
proof -
  let ?st = "l_start (lg s)" and ?bl = "disk_log (l_start (lg s)) (disk s)"
  let ?hd = "disk s ?st" and ?n = "nat (hdr_n (disk s ?st))"
  have clean: "blk s = disk s" using clean_block [OF inv] by auto
  have N: "card ({} :: u32 set) < NBUF" using c by (simp add: NBUF_def MAXOPBLOCKS_def)
  obtain i t1 where r1: "bread ROOTDEV ?st s = Ok i t1" and i: "bio_inv t1 {i} {}"
    "bframe {} s t1" "b_blockno (bufs t1 i) = ?st" "b_data (bufs t1 i) = ?hd" "blk t1 = disk s"
    using bread_spec [OF inv, of ?st] N by (auto simp: wp_iff clean)
  note f1 = bframe_fields [OF i(2)]
  have l1: "lg t1 = lg s" using i(2) by (intro cframe_lg bframe_cframe)
  let ?l = "(lg s)\<lparr>lh_n := hdr_n ?hd, lh_block := read_blocks ?hd [0..<?n] (lh_block (lg s))\<rparr>"
  define t2 where "t2 = lg_upd (\<lambda>_. ?l) t1"
  have u: "lg_upd (\<lambda>l. l\<lparr>lh_block := read_blocks ?hd [0..<nat (lh_n l)] (lh_block l)\<rparr>)
      (lg_upd (\<lambda>l. l\<lparr>lh_n := hdr_n ?hd\<rparr>) t1) = t2"
    by (simp add: t2_def lg_upd_def l1)
  have "wp (brelse i t2) (\<lambda>_ t. bio_inv t ({i} - {i}) {} \<and> bframe ({i} - {i}) t2 t \<and> blk t = blk t2)"
  proof (rule brelse_spec)
    show "bio_inv t2 {i} {}" using i(1) by (simp add: t2_def)
    show "b_blockno (bufs t2 i) \<in> {} \<or> b_data (bufs t2 i) = disk t2 (b_blockno (bufs t2 i))"
      using i(3,4) f1(1) by (simp add: t2_def lg_upd_def)
  qed simp
  then obtain t3 where r3: "brelse i t2 = Ok () t3" and y: "bio_inv t3 {} {}" "bframe {} t2 t3" "blk t3 = blk t2"
    by (auto simp: wp_iff)
  note f3 = bframe_fields [OF y(2)]
  have l3: "lg t3 = ?l" using cframe_lg [OF bframe_cframe [OF y(2)]] by (simp add: t2_def)
  have d3: "disk t3 = disk s" "blk t3 = disk s" using f1 f3 y(3) i(5) by (simp_all add: t2_def)
  have r13: "read_head s = Ok () t3" using r1 r3 u by (simp add: read_head_def dev Let_def i(4))
  have ok3: "log_ok (lg t3) ?bl"
    using ok h unfolding l3 by (auto simp: log_ok_def in_log_def read_blocks_eq disk_log_def)
  let ?c = "recovered ?st (disk s)"
  have len: "length ?bl = ?n" "length ?bl \<le> LOGBLOCKS" and d: "distinct ?bl"
    using ok by (auto simp: disk_log_def log_ok_def)
  have home: "blk t3 (log_slot (lg t3) k) = ?c (?bl ! k)" if k: "k < length ?bl" for k
  proof -
    have "scan (\<lambda>i. ?bl ! i = ?bl ! k) (length ?bl) = Some k"
      unfolding scan_Some using k d by (auto simp: nth_eq_iff_index_eq)
    then show ?thesis by (simp add: recovered_def d3 l3 log_slot_def)
  qed
  obtain t4 where r4: "install_trans True t3 = Ok () t4" and w4: "bio_inv t4 {} {}" "wrote t3 (home_part ?c ?bl) t4"
    using install_trans_spec [OF y(1) ok3 c, of True ?c] home by (auto simp: wp_iff)
  have l4: "lg t4 = ?l" using wrote_lg [OF w4(2)] l3 by simp
  let ?t4 = "lg_upd (\<lambda>l. l\<lparr>lh_n := 0\<rparr>) t4"
  have "bio_inv ?t4 {} {}" using w4(1) by simp
  from write_head_spec [OF this N] obtain t5 where r5: "write_head ?t4 = Ok () t5" and w5: "bio_inv t5 {} {}"
    "wrote ?t4 [(?st, hdr_bytes (?l\<lparr>lh_n := 0\<rparr>) (blk t4 ?st))] t5"
    using dev by (auto simp: wp_iff l4)
  have l5: "lg t5 = ?l\<lparr>lh_n := 0\<rparr>" using wrote_lg [OF w5(2)] l4 by simp
  have dt: "disk t5 = (apply_writes (disk s) (home_part ?c ?bl))
      (?st := hdr_bytes (?l\<lparr>lh_n := 0\<rparr>) (blk t4 ?st))"
    using w5(2) w4(2) d3 by (simp add: wrote_def)
  have "disk t5 m = ?c m" if m: "\<not> in_log (lg s) m" for m
  proof -
    have ne: "m \<noteq> ?st" using m start_in_log [of "lg s"] by auto
    show ?thesis
    proof (cases "m \<in> set ?bl")
      case True
      then show ?thesis using ne by (simp add: dt apply_home_part [OF d])
    next
      case False
      then have "scan (\<lambda>i. ?bl ! i = m) (length ?bl) = None"
        unfolding scan_None by (auto simp: in_set_conv_nth)
      then show ?thesis using False ne by (simp add: dt apply_home_part [OF d] recovered_def)
    qed
  qed
  moreover have "hdr_n (disk t5 ?st) = 0"
    by (simp add: dt hdr_bytes_n)
  moreover have "recover_from_log s = Ok () t5"
    using r13 r4 r5 by (simp add: recover_from_log_def)
  ultimately show ?thesis using w5(1) l5 by (simp add: wp_simps)
qed

section \<open>Crashes\<close>

text \<open>The disk after a crash at step \<open>k\<close> of the commit.\<close>

definition crash_disk :: "'z klog_scheme \<Rightarrow> u32 list \<Rightarrow> nat \<Rightarrow> u32 \<Rightarrow> bytes" where
  "crash_disk s bl k = apply_writes (disk s) (take k (commit_trace (lg s) (blk s) bl))"

lemma disk_log_empty: "hdr_n (D start) = 0 \<Longrightarrow> disk_log start D = []"
  by (simp add: disk_log_def)

lemma recovered_empty: "disk_log start D = [] \<Longrightarrow> recovered start D m = D m"
  by (simp add: recovered_def scan_None [THEN iffD2])

lemma disk_log_hdr:
  assumes "log_ok l bl" "D (l_start l) = hdr_bytes l d"
  shows "hdr_n (D (l_start l)) = int (length bl)" and "disk_log (l_start l) D = bl"
proof -
  have n: "lh_n l = int (length bl)" "length bl \<le> LOGBLOCKS" using assms(1) by (auto simp: log_ok_def)
  then show h: "hdr_n (D (l_start l)) = int (length bl)" by (simp add: assms(2) hdr_bytes_n)
  show "disk_log (l_start l) D = bl"
    unfolding disk_log_def h using assms n
    by (intro nth_equalityI) (simp_all add: hdr_bytes_block log_ok_def)
qed

lemma apply_take_home:
  assumes "m \<notin> set bl \<or> c m = D m"
  shows "apply_writes D (take j (home_part c bl)) m = D m"
  using assms
proof (induction bl arbitrary: D j)
  case (Cons x bl)
  show ?case
  proof (cases j)
    case (Suc i)
    define E where "E = D(x := c x)"
    have "apply_writes E (take i (home_part c bl)) m = E m"
      by (rule Cons.IH) (use Cons.prems in \<open>auto simp: E_def\<close>)
    moreover have "apply_writes D (take j (home_part c (x # bl))) m = apply_writes E (take i (home_part c bl)) m"
      by (simp add: Suc home_part_def E_def)
    moreover have "E m = D m" using Cons.prems by (auto simp: E_def)
    ultimately show ?thesis by simp
  qed simp
qed (simp add: home_part_def)

text \<open>
  The three phases. Before the header is written, the log is empty and the homes are old.
\<close>

lemma crash_before:
  assumes ok: "log_ok (lg s) bl" and h0: "hdr_n (disk s (l_start (lg s))) = 0" and k: "k \<le> length bl"
  shows "disk_log (l_start (lg s)) (crash_disk s bl k) = []"
    and "\<not> in_log (lg s) m \<or> m = l_start (lg s) \<Longrightarrow> crash_disk s bl k m = disk s m"
proof -
  have tk: "take k (commit_trace (lg s) (blk s) bl) = take k (log_part (lg s) (blk s) bl)"
    using k by (simp add: commit_trace_def Let_def log_part_def)
  have sub: "fst ` set (take k (log_part (lg s) (blk s) bl)) \<subseteq> log_slot (lg s) ` {..<length bl}"
    by (auto simp: log_part_def dest!: in_set_takeD)
  have out: "crash_disk s bl k m = disk s m" if "\<not> in_log (lg s) m \<or> m = l_start (lg s)" for m
    unfolding crash_disk_def tk
  proof (rule apply_writes_other, rule notI)
    assume "m \<in> fst ` set (take k (log_part (lg s) (blk s) bl))"
    then obtain i where "m = log_slot (lg s) i" "i < length bl" using sub by auto
    then show False using that slot_in_log [OF ok, of i] ok by (auto simp: log_ok_def)
  qed
  then show "\<not> in_log (lg s) m \<or> m = l_start (lg s) \<Longrightarrow> crash_disk s bl k m = disk s m" by simp
  show "disk_log (l_start (lg s)) (crash_disk s bl k) = []"
    by (rule disk_log_empty) (simp add: out h0)
qed

text \<open>Once it is, the log describes the transaction until the last write has cleared it.\<close>

lemma crash_after:
  assumes ok: "log_ok (lg s) bl" and k: "length bl < k" and k2: "k < 2 * length bl + 2"
  shows "crash_disk s bl k (l_start (lg s)) = hdr_bytes (lg s) (blk s (l_start (lg s)))"
    and "i < length bl \<Longrightarrow> crash_disk s bl k (log_slot (lg s) i) = blk s (bl ! i)"
    and "\<not> in_log (lg s) m \<Longrightarrow> m \<notin> set bl \<Longrightarrow> crash_disk s bl k m = disk s m"
proof -
  let ?l = "lg s" and ?st = "l_start (lg s)"
  let ?W = "log_part ?l (blk s) bl" and ?h = "hdr_bytes ?l (blk s ?st)"
  define j where "j = k - length bl - 1"
  have nl: "\<And>m. m \<in> set bl \<Longrightarrow> \<not> in_log ?l m" and len: "length bl \<le> LOGBLOCKS" using ok by (auto simp: log_ok_def)
  have "k = length ?W + Suc j" "j \<le> length bl" using k k2 by (simp_all add: j_def log_part_def)
  then have tk: "take k (commit_trace ?l (blk s) bl) = ?W @ (?st, ?h) # take j (home_part (blk s) bl)"
    by (simp add: commit_trace_def Let_def home_part_def)
  have out: "crash_disk s bl k m = ((apply_writes (disk s) ?W)(?st := ?h)) m" if "m \<notin> set bl" for m
    unfolding crash_disk_def tk using that by (simp add: apply_writes_append apply_take_home)
  have st: "?st \<notin> set bl" using nl start_in_log by blast
  then show "crash_disk s bl k ?st = ?h" by (simp add: out)
  show "crash_disk s bl k (log_slot ?l i) = blk s (bl ! i)" if i: "i < length bl"
  proof -
    have "in_log ?l (log_slot ?l i)" "log_slot ?l i \<noteq> ?st" using slot_in_log [OF ok, of i] i len by auto
    then have "log_slot ?l i \<notin> set bl" using nl by blast
    then show ?thesis using \<open>log_slot ?l i \<noteq> ?st\<close> by (simp add: out apply_log_part(2) [OF ok i])
  qed
  show "crash_disk s bl k m = disk s m" if "\<not> in_log ?l m" "m \<notin> set bl"
  proof -
    have "m \<noteq> ?st" using that(1) start_in_log by auto
    then show ?thesis using that by (simp add: out apply_log_part(1) [OF ok])
  qed
qed

lemma crash_end:
  assumes ok: "log_ok (lg s) bl" and k: "2 * length bl + 2 \<le> k"
  shows "hdr_n (crash_disk s bl k (l_start (lg s))) = 0"
    and "\<not> in_log (lg s) m \<Longrightarrow> crash_disk s bl k m = (if m \<in> set bl then blk s m else disk s m)"
proof -
  let ?l = "lg s" and ?st = "l_start (lg s)"
  let ?W = "log_part ?l (blk s) bl" and ?h = "hdr_bytes ?l (blk s ?st)"
  have d: "distinct bl" using ok by (simp add: log_ok_def)
  have tk: "take k (commit_trace ?l (blk s) bl) = commit_trace ?l (blk s) bl"
    using k by (simp add: commit_trace_def Let_def log_part_def home_part_def)
  have c: "crash_disk s bl k = (apply_writes ((apply_writes (disk s) ?W)(?st := ?h)) (home_part (blk s) bl))
      (?st := hdr_bytes (?l\<lparr>lh_n := 0\<rparr>) ?h)"
  proof -
    have "crash_disk s bl k = apply_writes (disk s) (commit_trace ?l (blk s) bl)"
      by (simp only: crash_disk_def tk)
    then show ?thesis by (simp add: commit_trace_def Let_def apply_writes_append)
  qed
  show "hdr_n (crash_disk s bl k ?st) = 0" by (simp add: c hdr_bytes_n)
  show "crash_disk s bl k m = (if m \<in> set bl then blk s m else disk s m)" if m: "\<not> in_log ?l m"
  proof -
    have "m \<noteq> ?st" using m start_in_log by auto
    then show ?thesis using m by (simp add: c apply_home_part [OF d] apply_log_part(1) [OF ok])
  qed
qed

text \<open>
  A boot: a state with an empty cache view of the disk \<open>D\<close>, and the log at the same place.
\<close>

definition booted :: "logst \<Rightarrow> (u32 \<Rightarrow> bytes) \<Rightarrow> 'z klog_scheme \<Rightarrow> bool" where
  "booted l D b \<longleftrightarrow> bio_inv b {} {} \<and> disk b = D \<and> l_start (lg b) = l_start l \<and> l_dev (lg b) = ROOTDEV"

lemma log_ok_boot:
  assumes "log_ok l bl" "l_start l' = l_start l" "l_dev l' = ROOTDEV" "n = int (length bl')"
    and "bl' = [] \<or> bl' = bl" "\<forall>i<length bl'. f i = bl' ! i"
  shows "log_ok (l'\<lparr>lh_n := n, lh_block := f\<rparr>) bl'"
  using assms by (auto simp: log_ok_def in_log_def)

text \<open>The log on the disk after a crash is empty or lists the transaction.\<close>

lemma crash_log_cases:
  fixes k :: nat
  assumes ok: "log_ok (lg s) bl" and h0: "hdr_n (disk s (l_start (lg s))) = 0"
  defines "D \<equiv> crash_disk s bl k" and "st \<equiv> l_start (lg s)"
  shows "(disk_log st D = [] \<and> hdr_n (D st) = 0) \<or>
    (disk_log st D = bl \<and> hdr_n (D st) = int (length bl) \<and> length bl < k \<and> k < 2 * length bl + 2)"
proof -
  consider "k \<le> length bl" | "length bl < k" "k < 2 * length bl + 2" | "2 * length bl + 2 \<le> k" by linarith
  then show ?thesis
  proof cases
    case 1
    have "hdr_n (D st) = 0" using crash_before(2) [OF ok h0 1, of st] h0 by (simp add: D_def st_def)
    then show ?thesis using crash_before(1) [OF ok h0 1] by (simp add: D_def st_def)
  next
    case 2
    from disk_log_hdr [OF ok, of D "blk s st"] crash_after(1) [OF ok 2] 2 show ?thesis by (simp add: D_def st_def)
  next
    case 3
    from crash_end(1) [OF ok 3] show ?thesis by (simp add: disk_log_empty D_def st_def)
  qed
qed

text \<open>What recovery makes of the disk after a crash.\<close>

lemma recovered_crash:
  fixes k :: nat
  assumes inv: "bio_inv s {} (set bl)" and ok: "log_ok (lg s) bl" and h0: "hdr_n (disk s (l_start (lg s))) = 0"
    and m: "\<not> in_log (lg s) m"
  defines "D \<equiv> crash_disk s bl k" and "st \<equiv> l_start (lg s)"
  shows "recovered st D m = (if k \<le> length bl then disk s m else blk s m)"
proof -
  have clean: "disk s m = blk s m" if "m \<notin> set bl" for m using clean_block [OF inv that] by simp
  consider "k \<le> length bl" | "length bl < k" "k < 2 * length bl + 2" | "2 * length bl + 2 \<le> k" by linarith
  then show ?thesis
  proof cases
    case 1
    then show ?thesis using crash_before [OF ok h0 1] m by (simp add: recovered_empty D_def st_def)
  next
    case 2
    have bl: "disk_log st D = bl"
      unfolding D_def st_def by (rule disk_log_hdr(2) [OF ok, of _ "blk s (l_start (lg s))"]) (rule crash_after(1) [OF ok 2])
    show ?thesis
    proof (cases "m \<in> set bl")
      case True
      then obtain i where i: "i < length bl" "m = bl ! i" by (auto simp: in_set_conv_nth)
      have d: "distinct bl" using ok by (simp add: log_ok_def)
      have "scan (\<lambda>i. bl ! i = m) (length bl) = Some i"
        unfolding scan_Some using i d by (auto simp: nth_eq_iff_index_eq)
      moreover have "st + of_nat i + 1 = log_slot (lg s) i" by (simp add: log_slot_def st_def)
      ultimately show ?thesis using crash_after(2) [OF ok 2 i(1)] i(2) 2(1) unfolding recovered_def bl by (simp add: D_def)
    next
      case False
      then have "scan (\<lambda>i. bl ! i = m) (length bl) = None" unfolding scan_None by (auto simp: in_set_conv_nth)
      then show ?thesis
        using crash_after(3) [OF ok 2 m False] clean [OF False] 2(1) unfolding recovered_def bl by (simp add: D_def)
    qed
  next
    case 3
    have "disk_log st D = []" unfolding D_def st_def by (rule disk_log_empty) (rule crash_end(1) [OF ok 3])
    then show ?thesis using crash_end(2) [OF ok 3 m] clean 3 by (auto simp: recovered_empty D_def)
  qed
qed

text \<open>
  C8: crash atomicity. A transaction of fewer than \<open>NBUF\<close> blocks is committed from a state whose
  on-disk log is empty; the machine may crash before any one of the writes that the commit
  makes. Whatever it leaves, the recovery that the next boot runs returns, empties the log, and
  leaves every block outside the log with the contents from before the transaction if the
  crash came before the header was written, and with the contents of the transaction
  otherwise. Without a crash the commit returns with all blocks as in the transaction.
\<close>

theorem commit_crash_atomic:
  fixes s :: "'z klog_scheme" and b :: "'y klog_scheme"
  assumes inv: "bio_inv s {} (set bl)" and ok: "log_ok (lg s) bl" and c: "0 < length bl" "length bl < NBUF"
    and h0: "hdr_n (disk s (l_start (lg s))) = 0"
    and boot: "booted (lg s) (crash_disk s bl k) b"
  shows "wp (commit s) (\<lambda>_ t. writes t = writes s @ commit_trace (lg s) (blk s) bl \<and>
      (\<forall>m. \<not> in_log (lg s) m \<longrightarrow> disk t m = blk s m)) \<and>
    wp (recover_from_log b) (\<lambda>_ t. hdr_n (disk t (l_start (lg s))) = 0 \<and>
      (\<forall>m. \<not> in_log (lg s) m \<longrightarrow> disk t m = (if k \<le> length bl then disk s m else blk s m)))"
proof
  let ?st = "l_start (lg s)" and ?D = "crash_disk s bl k"
  have all: "commit_trace (lg s) (blk s) bl = take (2 * length bl + 2) (commit_trace (lg s) (blk s) bl)"
    by (simp add: commit_trace_def Let_def log_part_def home_part_def)
  have disk: "apply_writes (disk s) (commit_trace (lg s) (blk s) bl) m = blk s m" if "\<not> in_log (lg s) m" for m
    using crash_end(2) [OF ok order_refl that] clean_block [OF inv, of m] all by (auto simp: crash_disk_def)
  show "wp (commit s) (\<lambda>_ t. writes t = writes s @ commit_trace (lg s) (blk s) bl \<and>
      (\<forall>m. \<not> in_log (lg s) m \<longrightarrow> disk t m = blk s m))"
    by (rule wp_mono [OF commit_spec [OF inv ok c]]) (simp add: disk)
  have b: "bio_inv b {} {}" "disk b = ?D" "l_start (lg b) = ?st" "l_dev (lg b) = ROOTDEV"
    using boot by (auto simp: booted_def)
  note cases = crash_log_cases [OF ok h0, of k]
  have okb: "log_ok ((lg b)\<lparr>lh_n := hdr_n (?D ?st), lh_block := hdr_block (?D ?st)\<rparr>) (disk_log ?st ?D)"
  proof (rule log_ok_boot [OF ok b(3,4)])
    show "hdr_n (?D ?st) = int (length (disk_log ?st ?D))" "disk_log ?st ?D = [] \<or> disk_log ?st ?D = bl" using cases by auto
    show "\<forall>i<length (disk_log ?st ?D). hdr_block (?D ?st) i = disk_log ?st ?D ! i" by (simp add: disk_log_def)
  qed
  have "in_log (lg b) m = in_log (lg s) m" for m using b(3) by (simp add: in_log_def)
  then have rec: "wp (recover_from_log b) (\<lambda>_ t. bio_inv t {} {} \<and> lh_n (lg t) = 0 \<and>
    (\<forall>m. \<not> in_log (lg s) m \<longrightarrow> disk t m = recovered ?st ?D m) \<and> hdr_n (disk t ?st) = 0)"
    using recovery_spec [OF b(1,4)] okb cases c(2) unfolding b by auto
  show "wp (recover_from_log b) (\<lambda>_ t. hdr_n (disk t ?st) = 0 \<and>
      (\<forall>m. \<not> in_log (lg s) m \<longrightarrow> disk t m = (if k \<le> length bl then disk s m else blk s m)))"
    by (rule wp_mono [OF rec]) (simp add: recovered_crash [OF inv ok h0])
qed

text \<open>A machine after boot, with a log of one block (block 100) in memory and zeroed disk.\<close>

definition demo_log :: logst where
  "demo_log = \<lparr>l_start = 2, l_outstanding = 0, l_committing = True, l_dev = ROOTDEV, lh_n = 1,
    lh_block = (\<lambda>_. 100)\<rparr>"

definition demo_boot :: klog where
  "demo_boot = binit \<lparr>held = {}, pmem = (\<lambda>_. 0), freelist = 0, kend = 0x80022000,
    procs = (\<lambda>_. demo_proc), curproc = Some 0, nextpid = 2, initproc = Some 0,
    kernel_pagetable = 0, satp = 0, etext = 0x80008000, trampoline = 0x80007000, forkret_addr = 0x80001000,
    bufs = (\<lambda>_. \<lparr>b_valid = False, b_disk = False, b_dev = 0, b_blockno = 0, b_lock = initsleeplock,
      b_refcnt = 0, b_prev = 0, b_next = 0, b_data = (\<lambda>_. 0)\<rparr>),
    disk = (\<lambda>_ _. 0), writes = [], lg = demo_log\<rparr>"

lemma demo_boot_inv: "bio_inv demo_boot {} {}" and demo_boot_disk: "disk demo_boot = (\<lambda>_ _. 0)"
  and demo_boot_lg: "lg demo_boot = demo_log"
proof -
  show "bio_inv demo_boot {} {}" unfolding demo_boot_def by (rule binit_inv) simp_all
  show "disk demo_boot = (\<lambda>_ _. 0)" by (simp add: demo_boot_def binit_def Let_def binit_loop_disk buf_upd_def)
  have "lg (binit_loop is s) = lg s" for "is" and s :: "klog"
    by (induction "is" arbitrary: s) (simp_all add: link_front_def buf_upd_def Let_def)
  then show "lg demo_boot = demo_log" by (simp add: demo_boot_def binit_def Let_def buf_upd_def)
qed

text \<open>Block 100 read, filled with sevens, pinned and released: the state before its commit.\<close>

lemma demo_dirty: "\<exists>s :: klog. bio_inv s {} {100} \<and> lg s = demo_log \<and> disk s = (\<lambda>_ _. 0) \<and> blk s 100 = (\<lambda>_. 7)"
proof -
  have n: "card ({} :: nat set) + card ({} :: u32 set) < NBUF" by (simp add: NBUF_def MAXOPBLOCKS_def)
  obtain i t1 where i: "bio_inv t1 {i} {}" "bframe {} demo_boot t1" "b_blockno (bufs t1 i) = 100"
    using bread_spec [OF demo_boot_inv, of 100] n by (auto simp: wp_iff)
  define t2 where "t2 = buf_upd i (\<lambda>b. b\<lparr>b_data := (\<lambda>_. 7)\<rparr>) t1"
  note u = buf_update_spec [OF i(1) singletonI t2_def]
  have b2: "b_blockno (bufs t2 i) = 100" using u(4) i(3) by simp
  obtain t3 where p: "bio_inv t3 {i} {100}" "blk t3 = blk t2" "bframe {i} t2 t3"
    using bpin_spec [OF u(1) singletonI] b2 by (auto simp: wp_iff)
  have b3: "b_blockno (bufs t3 i) = 100" using p(3) b2 by (simp add: bframe_def)
  have "wp (brelse i t3) (\<lambda>_ t. bio_inv t ({i} - {i}) {100} \<and> bframe ({i} - {i}) t3 t \<and> blk t = blk t3)"
    by (rule brelse_spec [OF p(1)]) (use b3 in auto)
  then obtain t4 where r: "bio_inv t4 {} {100}" "bframe {} t3 t4" "blk t4 = blk t3" by (auto simp: wp_iff)
  have c: "cframe demo_boot t4"
    using i(2) u(3) p(3) r(2) bframe_cframe cframe_trans by metis
  have "disk t4 = disk demo_boot"
    using bframe_fields(1) [OF i(2)] bframe_fields(1) [OF u(3)] bframe_fields(1) [OF p(3)] bframe_fields(1) [OF r(2)] by simp
  moreover have "blk t4 100 = (\<lambda>_. 7)" using r(3) p(2) u(2) i(3) by simp
  ultimately show ?thesis using r(1) cframe_lg [OF c] demo_boot_disk demo_boot_lg by auto
qed

text \<open>A crash right after the header write: recovery installs the sevens.\<close>

lemma commit_crash_atomic_witness:
  "\<exists>(s :: klog) (b :: klog). blk s 100 = (\<lambda>_. 7) \<and> disk s 100 = (\<lambda>_. 0) \<and> disk b = crash_disk s [100] 2 \<and>
    wp (commit s) (\<lambda>_ t. disk t 100 = (\<lambda>_. 7)) \<and> wp (recover_from_log b) (\<lambda>_ t. disk t 100 = (\<lambda>_. 7))"
proof -
  obtain s :: klog where s: "bio_inv s {} {100}" "lg s = demo_log" "disk s = (\<lambda>_ _. 0)" "blk s 100 = (\<lambda>_. 7)"
    using demo_dirty by blast
  define b where "b = demo_boot\<lparr>disk := crash_disk s [100] 2\<rparr>"
  have miss: "\<not> hit (bufs demo_boot) i n" for i n
    by (simp add: hit_def demo_boot_def binit_def Let_def binit_loop_fields)
  have "bio_inv b {} {}"
    using demo_boot_inv miss by (simp add: b_def bio_inv_def binv_def mypid_def split: option.splits)
  then have boot: "booted (lg s) (crash_disk s [100] 2) b"
    by (simp add: booted_def b_def s(2) demo_boot_lg demo_log_def)
  have ok: "log_ok (lg s) [100]" and nl: "\<not> in_log (lg s) 100"
    by (simp_all add: s(2) demo_log_def log_ok_def in_log_def LOGBLOCKS_def MAXOPBLOCKS_def)
  have h0: "hdr_n (disk s (l_start (lg s))) = 0"
  proof -
    have "le_get 4 (at (\<lambda>_. 0) 0) = le_get 4 (le_byte 0)"
      by (rule le_get_cong) (simp add: at_def le_byte_def)
    then show ?thesis by (simp add: s(3) hdr_n_def get32_def le_get_byte)
  qed
  have "bio_inv s {} (set [100])" "0 < length [100 :: u32]" "length [100 :: u32] < NBUF"
    using s(1) by (simp_all add: NBUF_def MAXOPBLOCKS_def)
  from commit_crash_atomic [OF this(1) ok this(2,3) h0 boot]
  have "wp (commit s) (\<lambda>_ t. disk t 100 = (\<lambda>_. 7))" "wp (recover_from_log b) (\<lambda>_ t. disk t 100 = (\<lambda>_. 7))"
    using nl s(4) by (auto elim!: wp_mono)
  moreover have "disk b = crash_disk s [100] 2" "disk s 100 = (\<lambda>_. 0)" using s(3) by (simp_all add: b_def)
  ultimately show ?thesis using s(4) by blast
qed

end
