(* ===== verification/Copy.thy ===== *)
theory Copy
  imports Uvm Blockdata
begin

text \<open>
  \<open>either_copyout\<close> and \<open>either_copyin\<close> of \<^verbatim>\<open>kernel/proc.c\<close>: copying to and from memory that may be
  the user's or the kernel's.

  The pair of C arguments (a flag and an address) is a value of type \<open>cursor\<close>: a user virtual
  address, a physical address in RAM, or a position in a variable of the kernel, whose contents
  the value carries.
\<close>

datatype cursor = UserAt u64 | PhysAt u64 | VarAt bytes nat

text \<open>Moving the address forward.\<close>

fun cur_add :: "cursor \<Rightarrow> nat \<Rightarrow> cursor" where
  "cur_add (UserAt a) k = UserAt (a + of_nat k)"
| "cur_add (PhysAt a) k = PhysAt (a + of_nat k)"
| "cur_add (VarAt b off) k = VarAt b (off + k)"

text \<open>The contents of the variable a cursor points into.\<close>

fun cur_var :: "cursor \<Rightarrow> bytes" where
  "cur_var (VarAt b off) = b"
| "cur_var (UserAt a) = (\<lambda>_. 0)"
| "cur_var (PhysAt a) = (\<lambda>_. 0)"

definition either_copyout ::
  "cursor \<Rightarrow> bytes \<Rightarrow> nat \<Rightarrow> 'z kprocs_scheme \<Rightarrow> (int \<times> cursor, 'z kprocs_scheme) kres" where
  "either_copyout dst src len s =
    kbind (myproc s) (\<lambda>p s.
      case dst of
        UserAt a \<Rightarrow>
          kbind (copyout (p_pagetable (procs s p)) a src (of_nat len) s) (\<lambda>r s. Ok (r, dst) s)
      | PhysAt a \<Rightarrow> Ok (0, dst) (s\<lparr>pmem := store_bytes (pmem s) a src len\<rparr>)
      | VarAt b off \<Rightarrow> Ok (0, VarAt (splice b off src len) off) s)"

text \<open>\<open>either_copyin\<close> stores at the offset \<open>o\<close> of its destination, which it returns.\<close>

definition either_copyin ::
  "bytes \<Rightarrow> nat \<Rightarrow> cursor \<Rightarrow> nat \<Rightarrow> 'z kprocs_scheme \<Rightarrow> (int \<times> bytes, 'z kprocs_scheme) kres" where
  "either_copyin dst o' src len s =
    kbind (myproc s) (\<lambda>p s.
      case src of
        UserAt a \<Rightarrow> copyin_from (p_pagetable (procs s p)) dst o' a (of_nat len) s
      | PhysAt a \<Rightarrow> Ok (0, load_bytes (pmem s) a dst o' len) s
      | VarAt b off \<Rightarrow> Ok (0, splice dst o' (at b off) len) s)"

lemma wp_either_copyout_var [wp_simps]:
  "wp (either_copyout (VarAt b off) src len s) Q \<longleftrightarrow>
    curproc s \<noteq> None \<and> Q (0, VarAt (splice b off src len) off) s"
  by (simp add: either_copyout_def wp_simps)

lemma wp_either_copyin_var [wp_simps]:
  "wp (either_copyin dst o' (VarAt b off) len s) Q \<longleftrightarrow>
    curproc s \<noteq> None \<and> Q (0, splice dst o' (at b off) len) s"
  by (simp add: either_copyin_def wp_simps)

end
