(* ===== verification/Fs.thy ===== *)
theory Fs
  imports Commit Copy
begin

text \<open>
  The file system: \<^verbatim>\<open>kernel/fs.c\<close>.

  Inodes in memory are numbered by their slot in \<open>itable\<close>; \<open>itab\<close> is the table. On disk an inode
  is 64 bytes of a block. A path is the list of its bytes without the terminator; the buffer
  \<open>name\<close> of \<open>DIRSIZ\<close> bytes is returned by the functions that fill it. Messages of \<open>printf\<close> are
  appended to \<open>printed\<close>.
\<close>

section \<open>State\<close>

record superblock =
  sb_magic :: u32
  sb_size :: u32
  sb_nblocks :: u32
  sb_ninodes :: u32
  sb_nlog :: u32
  sb_logstart :: u32
  sb_inodestart :: u32
  sb_bmapstart :: u32

record inode =
  i_dev :: u32
  i_inum :: u32
  i_ref :: int
  i_lock :: sleeplock
  i_valid :: bool
  i_type :: u16
  i_major :: u16
  i_minor :: u16
  i_nlink :: u16
  i_size :: u32
  i_addrs :: "nat \<Rightarrow> u32"

record kfs = klog +
  sb :: superblock
  itab :: "nat \<Rightarrow> inode"
  printed :: "string list"

definition printk :: "string \<Rightarrow> 'z kfs_scheme \<Rightarrow> 'z kfs_scheme" where
  "printk msg s = s\<lparr>printed := printed s @ [msg]\<rparr>"

definition ino_upd :: "nat \<Rightarrow> (inode \<Rightarrow> inode) \<Rightarrow> 'z kfs_scheme \<Rightarrow> 'z kfs_scheme" where
  "ino_upd ip f s = s\<lparr>itab := (itab s)(ip := f (itab s ip))\<rparr>"

definition ino_slock :: "nat \<Rightarrow> 'z kfs_scheme \<Rightarrow> sleeplock" where
  "ino_slock ip s = i_lock (itab s ip)"

definition ino_slock_upd :: "nat \<Rightarrow> (sleeplock \<Rightarrow> sleeplock) \<Rightarrow> 'z kfs_scheme \<Rightarrow> 'z kfs_scheme" where
  "ino_slock_upd ip f s = ino_upd ip (\<lambda>i. i\<lparr>i_lock := f (i_lock i)\<rparr>) s"

section \<open>Layout of the disk\<close>

definition ROOTINO :: u32 where "ROOTINO = 1"
definition FSMAGIC :: u32 where "FSMAGIC = 0x10203040"
definition NDIRECT :: nat where "NDIRECT = 12"
definition NINDIRECT :: nat where "NINDIRECT = BSIZE div 4"
definition MAXFILE :: nat where "MAXFILE = NDIRECT + NINDIRECT"
definition IPB :: nat where "IPB = BSIZE div 64"
definition BPB :: nat where "BPB = BSIZE * 8"
definition DIRSIZ :: nat where "DIRSIZ = 14"
definition DIRENT :: nat where "DIRENT = 16"
definition T_DIR :: u16 where "T_DIR = 1"
definition T_FILE :: u16 where "T_FILE = 2"
definition T_DEVICE :: u16 where "T_DEVICE = 3"

definition IBLOCK :: "u32 \<Rightarrow> superblock \<Rightarrow> u32" where
  "IBLOCK i sp = i div of_nat IPB + sb_inodestart sp"

definition BBLOCK :: "u32 \<Rightarrow> superblock \<Rightarrow> u32" where
  "BBLOCK b sp = b div of_nat BPB + sb_bmapstart sp"

definition get_sb :: "bytes \<Rightarrow> superblock" where
  "get_sb d = \<lparr>sb_magic = get32 d 0, sb_size = get32 d 4, sb_nblocks = get32 d 8, sb_ninodes = get32 d 12,
    sb_nlog = get32 d 16, sb_logstart = get32 d 20, sb_inodestart = get32 d 24, sb_bmapstart = get32 d 28\<rparr>"

text \<open>The offset of \<open>(struct dinode* )bp->data + inum % IPB\<close>, and its fields.\<close>

definition dino_off :: "u32 \<Rightarrow> nat" where "dino_off inum = (unat inum mod IPB) * 64"

definition dino_type :: "bytes \<Rightarrow> nat \<Rightarrow> u16" where "dino_type d off = get16 d off"
definition dino_nlink :: "bytes \<Rightarrow> nat \<Rightarrow> u16" where "dino_nlink d off = get16 d (off + 6)"

fun put_addrs :: "bytes \<Rightarrow> nat \<Rightarrow> (nat \<Rightarrow> u32) \<Rightarrow> nat \<Rightarrow> bytes" where
  "put_addrs d off a 0 = d"
| "put_addrs d off a (Suc k) = put32 (put_addrs d off a k) (off + 12 + 4 * k) (a k)"

definition put_dinode :: "bytes \<Rightarrow> nat \<Rightarrow> inode \<Rightarrow> bytes" where
  "put_dinode d off i =
    (let d = put16 d off (i_type i);
         d = put16 d (off + 2) (i_major i);
         d = put16 d (off + 4) (i_minor i);
         d = put16 d (off + 6) (i_nlink i);
         d = put32 d (off + 8) (i_size i)
     in put_addrs d off (i_addrs i) (NDIRECT + 1))"

definition get_dinode :: "bytes \<Rightarrow> nat \<Rightarrow> inode \<Rightarrow> inode" where
  "get_dinode d off i =
    i\<lparr>i_type := get16 d off, i_major := get16 d (off + 2), i_minor := get16 d (off + 4),
      i_nlink := get16 d (off + 6), i_size := get32 d (off + 8),
      i_addrs := (\<lambda>k. if k \<le> NDIRECT then get32 d (off + 12 + 4 * k) else i_addrs i k)\<rparr>"

section \<open>Super block and block allocation\<close>

definition readsb :: "u32 \<Rightarrow> 'z kfs_scheme \<Rightarrow> (unit, 'z kfs_scheme) kres" where
  "readsb dev s =
    kbind (bread dev 1 s) (\<lambda>bp s.
      let s = s\<lparr>sb := get_sb (b_data (bufs s bp))\<rparr>
      in brelse bp s)"

definition bzero :: "u32 \<Rightarrow> u32 \<Rightarrow> 'z kfs_scheme \<Rightarrow> (unit, 'z kfs_scheme) kres" where
  "bzero dev bno s =
    kbind (bread dev bno s) (\<lambda>bp s.
      let s = set_data bp (splice (b_data (bufs s bp)) 0 (\<lambda>_. 0) BSIZE) s
      in kbind (log_write bp s) (\<lambda>_ s. brelse bp s))"

definition bit_mask :: "nat \<Rightarrow> u8" where
  "bit_mask bi = push_bit (bi mod 8) 1"

definition bit_clear :: "bytes \<Rightarrow> nat \<Rightarrow> bool" where
  "bit_clear d bi \<longleftrightarrow> d (bi div 8) AND bit_mask bi = 0"

text \<open>One bitmap block: the first clear bit below the size of the file system.\<close>

definition balloc_block :: "u32 \<Rightarrow> nat \<Rightarrow> 'z kfs_scheme \<Rightarrow> (u32 option, 'z kfs_scheme) kres" where
  "balloc_block dev b s =
    kbind (bread dev (BBLOCK (of_nat b) (sb s)) s) (\<lambda>bp s.
      let d = b_data (bufs s bp) in
      case scan (\<lambda>bi. b + bi < unat (sb_size (sb s)) \<and> bit_clear d bi) BPB of
        Some bi \<Rightarrow>
          let s = set_data bp (d(bi div 8 := d (bi div 8) OR bit_mask bi)) s
          in kbind (log_write bp s) (\<lambda>_ s.
             kbind (brelse bp s) (\<lambda>_ s.
             kbind (bzero dev (of_nat (b + bi)) s) (\<lambda>_ s.
             Ok (Some (of_nat (b + bi))) s)))
      | None \<Rightarrow> kbind (brelse bp s) (\<lambda>_ s. Ok None s))"

definition balloc :: "u32 \<Rightarrow> 'z kfs_scheme \<Rightarrow> (u32, 'z kfs_scheme) kres" where
  "balloc dev s =
    kbind (kscan (balloc_block dev)
        (map (\<lambda>k. k * BPB) [0..<(unat (sb_size (sb s)) + BPB - 1) div BPB]) s) (\<lambda>r s.
      case r of Some b \<Rightarrow> Ok b s
      | None \<Rightarrow> Ok 0 (printk ''balloc: out of blocks'' s))"

definition bfree :: "u32 \<Rightarrow> u32 \<Rightarrow> 'z kfs_scheme \<Rightarrow> (unit, 'z kfs_scheme) kres" where
  "bfree dev b s =
    kbind (bread dev (BBLOCK b (sb s)) s) (\<lambda>bp s.
      let d = b_data (bufs s bp); bi = unat b mod BPB in
      if bit_clear d bi then Panic ''freeing free block''
      else
        let s = set_data bp (d(bi div 8 := d (bi div 8) AND NOT (bit_mask bi))) s
        in kbind (log_write bp s) (\<lambda>_ s. brelse bp s))"

section \<open>Inodes\<close>

definition iinit :: "'z kfs_scheme \<Rightarrow> 'z kfs_scheme" where
  "iinit s =
    (let s = s\<lparr>held := held s - {LItable}\<rparr>
     in s\<lparr>itab := (\<lambda>i. if i < NINODE then (itab s i)\<lparr>i_lock := initsleeplock\<rparr> else itab s i)\<rparr>)"

text \<open>
  \<open>iget\<close> looks at the entries in turn: the first in use for this inode, and the first empty
  one seen before the loop ended.
\<close>

definition iget :: "u32 \<Rightarrow> u32 \<Rightarrow> 'z kfs_scheme \<Rightarrow> (nat, 'z kfs_scheme) kres" where
  "iget dev inum s =
    kbind (acquire LItable s) (\<lambda>_ s.
    case scan (\<lambda>i. 0 < i_ref (itab s i) \<and> i_dev (itab s i) = dev \<and> i_inum (itab s i) = inum) NINODE of
      Some ip \<Rightarrow>
        let s = ino_upd ip (\<lambda>i. i\<lparr>i_ref := i_ref i + 1\<rparr>) s
        in kbind (release LItable s) (\<lambda>_ s. Ok ip s)
    | None \<Rightarrow>
       (case scan (\<lambda>i. i_ref (itab s i) = 0) NINODE of
          None \<Rightarrow> Panic ''iget: no inodes''
        | Some ip \<Rightarrow>
            let s = ino_upd ip (\<lambda>i. i\<lparr>i_dev := dev, i_inum := inum, i_ref := 1, i_valid := False\<rparr>) s
            in kbind (release LItable s) (\<lambda>_ s. Ok ip s)))"

definition ialloc_one :: "u32 \<Rightarrow> u16 \<Rightarrow> nat \<Rightarrow> 'z kfs_scheme \<Rightarrow> (nat option, 'z kfs_scheme) kres" where
  "ialloc_one dev type inum s =
    kbind (bread dev (IBLOCK (of_nat inum) (sb s)) s) (\<lambda>bp s.
      let d = b_data (bufs s bp); off = dino_off (of_nat inum) in
      if dino_type d off = 0 then
        let d = splice d off (\<lambda>_. 0) 64;
            s = set_data bp (put16 d off type) s
        in kbind (log_write bp s) (\<lambda>_ s.
           kbind (brelse bp s) (\<lambda>_ s.
           kbind (iget dev (of_nat inum) s) (\<lambda>ip s. Ok (Some ip) s)))
      else kbind (brelse bp s) (\<lambda>_ s. Ok None s))"

definition ialloc :: "u32 \<Rightarrow> u16 \<Rightarrow> 'z kfs_scheme \<Rightarrow> (nat option, 'z kfs_scheme) kres" where
  "ialloc dev type s =
    kbind (kscan (ialloc_one dev type) [1..<unat (sb_ninodes (sb s))] s) (\<lambda>r s.
      case r of Some ip \<Rightarrow> Ok (Some ip) s
      | None \<Rightarrow> Ok None (printk ''ialloc: no inodes'' s))"

definition iupdate :: "nat \<Rightarrow> 'z kfs_scheme \<Rightarrow> (unit, 'z kfs_scheme) kres" where
  "iupdate ip s =
    kbind (bread (i_dev (itab s ip)) (IBLOCK (i_inum (itab s ip)) (sb s)) s) (\<lambda>bp s.
      let off = dino_off (i_inum (itab s ip));
          s = set_data bp (put_dinode (b_data (bufs s bp)) off (itab s ip)) s
      in kbind (log_write bp s) (\<lambda>_ s. brelse bp s))"

definition idup :: "nat \<Rightarrow> 'z kfs_scheme \<Rightarrow> (nat, 'z kfs_scheme) kres" where
  "idup ip s =
    kbind (acquire LItable s) (\<lambda>_ s.
      let s = ino_upd ip (\<lambda>i. i\<lparr>i_ref := i_ref i + 1\<rparr>) s
      in kbind (release LItable s) (\<lambda>_ s. Ok ip s))"

abbreviation acquire_inode :: "nat \<Rightarrow> 'z kfs_scheme \<Rightarrow> (unit, 'z kfs_scheme) kres" where
  "acquire_inode ip \<equiv> acquiresleep (LInode ip) (ChInode ip) (ino_slock ip) (ino_slock_upd ip)"

abbreviation release_inode :: "nat \<Rightarrow> 'z kfs_scheme \<Rightarrow> (unit, 'z kfs_scheme) kres" where
  "release_inode ip \<equiv> releasesleep (LInode ip) (ChInode ip) (ino_slock_upd ip)"

abbreviation holding_inode :: "nat \<Rightarrow> 'z kfs_scheme \<Rightarrow> (bool, 'z kfs_scheme) kres" where
  "holding_inode ip \<equiv> holdingsleep (LInode ip) (ino_slock ip)"

text \<open>A null pointer is not an inode number, so the tests for it have no case here.\<close>

definition ilock :: "nat \<Rightarrow> 'z kfs_scheme \<Rightarrow> (unit, 'z kfs_scheme) kres" where
  "ilock ip s =
    (if i_ref (itab s ip) < 1 then Panic ''ilock''
     else
       kbind (acquire_inode ip s) (\<lambda>_ s.
       if \<not> i_valid (itab s ip) then
         kbind (bread (i_dev (itab s ip)) (IBLOCK (i_inum (itab s ip)) (sb s)) s) (\<lambda>bp s.
           let off = dino_off (i_inum (itab s ip));
               s = ino_upd ip (get_dinode (b_data (bufs s bp)) off) s
           in kbind (brelse bp s) (\<lambda>_ s.
              let s = ino_upd ip (\<lambda>i. i\<lparr>i_valid := True\<rparr>) s in
              if i_type (itab s ip) = 0 then Panic ''ilock: no type'' else Ok () s))
       else Ok () s))"

definition iunlock :: "nat \<Rightarrow> 'z kfs_scheme \<Rightarrow> (unit, 'z kfs_scheme) kres" where
  "iunlock ip s =
    kbind (holding_inode ip s) (\<lambda>h s.
      if \<not> h \<or> i_ref (itab s ip) < 1 then Panic ''iunlock'' else release_inode ip s)"

section \<open>Contents of an inode\<close>

text \<open>The pattern that \<open>bmap\<close> uses on \<open>ip->addrs[k]\<close>: load it, or allocate a block and store it.\<close>

definition bmap_slot :: "nat \<Rightarrow> nat \<Rightarrow> 'z kfs_scheme \<Rightarrow> (u32, 'z kfs_scheme) kres" where
  "bmap_slot ip k s =
    (let addr = i_addrs (itab s ip) k in
     if addr = 0 then
       kbind (balloc (i_dev (itab s ip)) s) (\<lambda>addr s.
         if addr = 0 then Ok 0 s
         else Ok addr (ino_upd ip (\<lambda>i. i\<lparr>i_addrs := (i_addrs i)(k := addr)\<rparr>) s))
     else Ok addr s)"

definition bmap :: "nat \<Rightarrow> u32 \<Rightarrow> 'z kfs_scheme \<Rightarrow> (u32, 'z kfs_scheme) kres" where
  "bmap ip bn s =
    (if unat bn < NDIRECT then bmap_slot ip (unat bn) s
     else
       let bn = unat bn - NDIRECT in
       if bn < NINDIRECT then
         kbind (bmap_slot ip NDIRECT s) (\<lambda>addr s.
           if addr = 0 then Ok 0 s
           else
             kbind (bread (i_dev (itab s ip)) addr s) (\<lambda>bp s.
               let addr = get32 (b_data (bufs s bp)) (4 * bn) in
               kbind (if addr = 0 then
                        kbind (balloc (i_dev (itab s ip)) s) (\<lambda>addr s.
                          if addr \<noteq> 0 then
                            let s = set_data bp (put32 (b_data (bufs s bp)) (4 * bn) addr) s
                            in kbind (log_write bp s) (\<lambda>_ s. Ok addr s)
                          else Ok addr s)
                      else Ok addr s) (\<lambda>addr s.
               kbind (brelse bp s) (\<lambda>_ s. Ok addr s))))
       else Panic ''bmap: out of range'')"

definition itrunc_direct :: "nat \<Rightarrow> nat \<Rightarrow> 'z kfs_scheme \<Rightarrow> (unit, 'z kfs_scheme) kres" where
  "itrunc_direct ip k s =
    (if i_addrs (itab s ip) k \<noteq> 0 then
       kbind (bfree (i_dev (itab s ip)) (i_addrs (itab s ip) k) s) (\<lambda>_ s.
         Ok () (ino_upd ip (\<lambda>i. i\<lparr>i_addrs := (i_addrs i)(k := 0)\<rparr>) s))
     else Ok () s)"

definition itrunc_indirect :: "nat \<Rightarrow> nat \<Rightarrow> nat \<Rightarrow> 'z kfs_scheme \<Rightarrow> (unit, 'z kfs_scheme) kres" where
  "itrunc_indirect ip bp j s =
    (let a = get32 (b_data (bufs s bp)) (4 * j) in
     if a \<noteq> 0 then bfree (i_dev (itab s ip)) a s else Ok () s)"

definition itrunc :: "nat \<Rightarrow> 'z kfs_scheme \<Rightarrow> (unit, 'z kfs_scheme) kres" where
  "itrunc ip s =
    kbind (foreach (itrunc_direct ip) [0..<NDIRECT] s) (\<lambda>_ s.
    kbind (if i_addrs (itab s ip) NDIRECT \<noteq> 0 then
             kbind (bread (i_dev (itab s ip)) (i_addrs (itab s ip) NDIRECT) s) (\<lambda>bp s.
             kbind (foreach (itrunc_indirect ip bp) [0..<NINDIRECT] s) (\<lambda>_ s.
             kbind (brelse bp s) (\<lambda>_ s.
             kbind (bfree (i_dev (itab s ip)) (i_addrs (itab s ip) NDIRECT) s) (\<lambda>_ s.
             Ok () (ino_upd ip (\<lambda>i. i\<lparr>i_addrs := (i_addrs i)(NDIRECT := 0)\<rparr>) s)))))
           else Ok () s) (\<lambda>_ s.
    iupdate ip (ino_upd ip (\<lambda>i. i\<lparr>i_size := 0\<rparr>) s)))"

definition iput :: "nat \<Rightarrow> 'z kfs_scheme \<Rightarrow> (unit, 'z kfs_scheme) kres" where
  "iput ip s =
    kbind (acquire LItable s) (\<lambda>_ s.
    kbind (if i_ref (itab s ip) = 1 \<and> i_valid (itab s ip) \<and> i_nlink (itab s ip) = 0 then
             kbind (acquire_inode ip s) (\<lambda>_ s.
             kbind (release LItable s) (\<lambda>_ s.
             kbind (itrunc ip s) (\<lambda>_ s.
             kbind (iupdate ip (ino_upd ip (\<lambda>i. i\<lparr>i_type := 0\<rparr>) s)) (\<lambda>_ s.
             let s = ino_upd ip (\<lambda>i. i\<lparr>i_valid := False\<rparr>) s in
             kbind (release_inode ip s) (\<lambda>_ s.
             acquire LItable s)))))
           else Ok () s) (\<lambda>_ s.
      let s = ino_upd ip (\<lambda>i. i\<lparr>i_ref := i_ref i - 1\<rparr>) s
      in release LItable s))"

definition iunlockput :: "nat \<Rightarrow> 'z kfs_scheme \<Rightarrow> (unit, 'z kfs_scheme) kres" where
  "iunlockput ip s = kbind (iunlock ip s) (\<lambda>_ s. iput ip s)"

definition ireclaim_one :: "u32 \<Rightarrow> nat \<Rightarrow> 'z kfs_scheme \<Rightarrow> (unit, 'z kfs_scheme) kres" where
  "ireclaim_one dev inum s =
    kbind (bread dev (IBLOCK (of_nat inum) (sb s)) s) (\<lambda>bp s.
      let d = b_data (bufs s bp); off = dino_off (of_nat inum) in
      kbind (if dino_type d off \<noteq> 0 \<and> dino_nlink d off = 0 then
               kbind (iget dev (of_nat inum) (printk ''ireclaim: orphaned inode'' s)) (\<lambda>ip s. Ok (Some ip) s)
             else Ok None s) (\<lambda>ip s.
      kbind (brelse bp s) (\<lambda>_ s.
        case ip of None \<Rightarrow> Ok () s
        | Some ip \<Rightarrow>
            kbind (begin_op s) (\<lambda>_ s.
            kbind (ilock ip s) (\<lambda>_ s.
            kbind (iunlock ip s) (\<lambda>_ s.
            kbind (iput ip s) (\<lambda>_ s.
            end_op s)))))))"

definition ireclaim :: "u32 \<Rightarrow> 'z kfs_scheme \<Rightarrow> (unit, 'z kfs_scheme) kres" where
  "ireclaim dev s = foreach (ireclaim_one dev) [1..<unat (sb_ninodes (sb s))] s"

definition fsinit :: "u32 \<Rightarrow> 'z kfs_scheme \<Rightarrow> (unit, 'z kfs_scheme) kres" where
  "fsinit dev s =
    kbind (readsb dev s) (\<lambda>_ s.
      if sb_magic (sb s) \<noteq> FSMAGIC then Panic ''invalid file system''
      else
        kbind (initlog dev (sb_logstart (sb s)) s) (\<lambda>_ s.
        ireclaim dev s))"

record stat =
  st_dev :: u32
  st_ino :: u32
  st_type :: u16
  st_nlink :: u16
  st_size :: u64

definition stati :: "nat \<Rightarrow> 'z kfs_scheme \<Rightarrow> stat" where
  "stati ip s = (let i = itab s ip in
    \<lparr>st_dev = i_dev i, st_ino = i_inum i, st_type = i_type i, st_nlink = i_nlink i, st_size = ucast (i_size i)\<rparr>)"

text \<open>The number of bytes of one step: \<open>min(n - tot, BSIZE - off % BSIZE)\<close>.\<close>

definition step_len :: "u32 \<Rightarrow> u32 \<Rightarrow> u32 \<Rightarrow> u32" where
  "step_len n tot off = min (n - tot) (of_nat BSIZE - off mod of_nat BSIZE)"

lemma step_len_pos: "tot < n \<Longrightarrow> 0 < step_len n tot off"
proof -
  assume t: "tot < n"
  have "unat (n - tot) = unat n - unat tot" using t by (simp add: unat_sub less_imp_le)
  then have "0 < unat (n - tot)" using t by (simp add: word_less_nat_alt)
  moreover have "off mod 1024 < 1024" by (simp add: word_mod_less_divisor)
  then have "0 < 1024 - off mod 1024" by (simp add: word_gt_0)
  ultimately show ?thesis by (simp add: step_len_def BSIZE_def min_def word_gt_0 unat_gt_0)
qed

lemma step_len_le: "step_len n tot off \<le> n - tot"
  by (simp add: step_len_def)

lemma step_len_decreases: "tot < n \<Longrightarrow> unat (n - (tot + step_len n tot off)) < unat (n - tot)"
proof -
  assume t: "tot < n"
  let ?m = "step_len n tot off"
  have e: "n - (tot + ?m) = (n - tot) - ?m" by simp
  have "unat ((n - tot) - ?m) = unat (n - tot) - unat ?m" by (rule unat_sub [OF step_len_le])
  moreover have "0 < unat ?m" using step_len_pos [OF t, of off] by (simp add: word_gt_0 unat_gt_0)
  moreover have "unat ?m \<le> unat (n - tot)" using step_len_le by (simp add: word_le_nat_alt)
  ultimately show ?thesis unfolding e by linarith
qed

function readi_loop ::
  "nat \<Rightarrow> u32 \<Rightarrow> u32 \<Rightarrow> u32 \<Rightarrow> cursor \<Rightarrow> 'z kfs_scheme \<Rightarrow> (u32 \<times> cursor, 'z kfs_scheme) kres" where
  "readi_loop ip n tot off dst s =
    (if tot < n then
       kbind (bmap ip (off div of_nat BSIZE) s) (\<lambda>addr s.
         if addr = 0 then Ok (tot, dst) s
         else
           kbind (bread (i_dev (itab s ip)) addr s) (\<lambda>bp s.
             let m = step_len n tot off in
             kbind (either_copyout dst (at (b_data (bufs s bp)) (unat off mod BSIZE)) (unat m) s) (\<lambda>(r, dst) s.
               if r = - 1 then kbind (brelse bp s) (\<lambda>_ s. Ok (- 1, dst) s)
               else kbind (brelse bp s) (\<lambda>_ s. readi_loop ip n (tot + m) (off + m) (cur_add dst (unat m)) s))))
     else Ok (tot, dst) s)"
  by pat_completeness auto
termination
  by (relation "measure (\<lambda>(ip, n, tot, off, dst, s). unat (n - tot))") (simp_all add: step_len_decreases)

declare readi_loop.simps [simp del]

definition readi ::
  "nat \<Rightarrow> cursor \<Rightarrow> u32 \<Rightarrow> u32 \<Rightarrow> 'z kfs_scheme \<Rightarrow> (int \<times> cursor, 'z kfs_scheme) kres" where
  "readi ip dst off n s =
    (let sz = i_size (itab s ip) in
     if sz < off \<or> off + n < off then Ok (0, dst) s
     else
       let n = (if sz < off + n then sz - off else n)
       in kbind (readi_loop ip n 0 off dst s) (\<lambda>(tot, dst) s. Ok (sint tot, dst) s))"

text \<open>The loop of \<open>writei\<close> returns the final values of \<open>tot\<close> and \<open>off\<close>.\<close>

function writei_loop ::
  "nat \<Rightarrow> u32 \<Rightarrow> u32 \<Rightarrow> u32 \<Rightarrow> cursor \<Rightarrow> 'z kfs_scheme \<Rightarrow> (u32 \<times> u32, 'z kfs_scheme) kres" where
  "writei_loop ip n tot off src s =
    (if tot < n then
       kbind (bmap ip (off div of_nat BSIZE) s) (\<lambda>addr s.
         if addr = 0 then Ok (tot, off) s
         else
           kbind (bread (i_dev (itab s ip)) addr s) (\<lambda>bp s.
             let m = step_len n tot off in
             kbind (either_copyin (b_data (bufs s bp)) (unat off mod BSIZE) src (unat m) s) (\<lambda>(r, d) s.
               let s = set_data bp d s in
               if r = - 1 then kbind (brelse bp s) (\<lambda>_ s. Ok (tot, off) s)
               else
                 kbind (log_write bp s) (\<lambda>_ s.
                 kbind (brelse bp s) (\<lambda>_ s.
                 writei_loop ip n (tot + m) (off + m) (cur_add src (unat m)) s)))))
     else Ok (tot, off) s)"
  by pat_completeness auto
termination
  by (relation "measure (\<lambda>(ip, n, tot, off, src, s). unat (n - tot))") (simp_all add: step_len_decreases)

declare writei_loop.simps [simp del]

definition writei :: "nat \<Rightarrow> cursor \<Rightarrow> u32 \<Rightarrow> u32 \<Rightarrow> 'z kfs_scheme \<Rightarrow> (int, 'z kfs_scheme) kres" where
  "writei ip src off n s =
    (if i_size (itab s ip) < off \<or> off + n < off then Ok (- 1) s
     else if MAXFILE * BSIZE < unat (off + n) then Ok (- 1) s
     else
       kbind (writei_loop ip n 0 off src s) (\<lambda>(tot, off) s.
         let s = (if i_size (itab s ip) < off then ino_upd ip (\<lambda>i. i\<lparr>i_size := off\<rparr>) s else s)
         in kbind (iupdate ip s) (\<lambda>_ s. Ok (sint tot) s)))"

section \<open>Directories\<close>

definition namecmp :: "bytes \<Rightarrow> bytes \<Rightarrow> int" where
  "namecmp s t = strncmp s t DIRSIZ"

text \<open>The offsets that a loop over the entries of a directory of \<open>size\<close> bytes visits.\<close>

definition dir_offsets :: "u32 \<Rightarrow> nat list" where
  "dir_offsets sz = map (\<lambda>k. k * DIRENT) [0..<(unat sz + DIRENT - 1) div DIRENT]"

definition read_dirent :: "nat \<Rightarrow> nat \<Rightarrow> string \<Rightarrow> 'z kfs_scheme \<Rightarrow> (bytes, 'z kfs_scheme) kres" where
  "read_dirent dp off msg s =
    kbind (readi dp (VarAt (\<lambda>_. 0) 0) (of_nat off) (of_nat DIRENT) s) (\<lambda>(r, c) s.
      if r \<noteq> int DIRENT then Panic msg else Ok (cur_var c) s)"

definition dirlookup_one ::
  "nat \<Rightarrow> bytes \<Rightarrow> nat \<Rightarrow> 'z kfs_scheme \<Rightarrow> ((nat \<times> u32) option, 'z kfs_scheme) kres" where
  "dirlookup_one dp name off s =
    kbind (read_dirent dp off ''dirlookup read'' s) (\<lambda>de s.
      if get16 de 0 = 0 then Ok None s
      else if namecmp name (at de 2) = 0 then
        kbind (iget (i_dev (itab s dp)) (ucast (get16 de 0)) s) (\<lambda>ip s. Ok (Some (ip, of_nat off)) s)
      else Ok None s)"

text \<open>The inode and, for \<open>*poff\<close>, the offset of its entry.\<close>

definition dirlookup :: "nat \<Rightarrow> bytes \<Rightarrow> 'z kfs_scheme \<Rightarrow> ((nat \<times> u32) option, 'z kfs_scheme) kres" where
  "dirlookup dp name s =
    (if i_type (itab s dp) \<noteq> T_DIR then Panic ''dirlookup not DIR''
     else kscan (dirlookup_one dp name) (dir_offsets (i_size (itab s dp))) s)"

definition dirlink_one :: "nat \<Rightarrow> nat \<Rightarrow> 'z kfs_scheme \<Rightarrow> (nat option, 'z kfs_scheme) kres" where
  "dirlink_one dp off s =
    kbind (read_dirent dp off ''dirlink read'' s) (\<lambda>de s.
      if get16 de 0 = 0 then Ok (Some off) s else Ok None s)"

definition dirlink :: "nat \<Rightarrow> bytes \<Rightarrow> u32 \<Rightarrow> 'z kfs_scheme \<Rightarrow> (int, 'z kfs_scheme) kres" where
  "dirlink dp name inum s =
    kbind (dirlookup dp name s) (\<lambda>r s.
      case r of
        Some (ip, _) \<Rightarrow> kbind (iput ip s) (\<lambda>_ s. Ok (- 1) s)
      | None \<Rightarrow>
          let offs = dir_offsets (i_size (itab s dp)) in
          kbind (kscan (dirlink_one dp) offs s) (\<lambda>r s.
            let off = (case r of Some off \<Rightarrow> off | None \<Rightarrow> length offs * DIRENT);
                de = splice (\<lambda>_. 0) 2 (strncpy (\<lambda>_. 0) name DIRSIZ) DIRSIZ;
                de = put16 de 0 (ucast inum)
            in kbind (writei dp (VarAt de 0) (of_nat off) (of_nat DIRENT) s) (\<lambda>r s.
                 if r \<noteq> int DIRENT then Ok (- 1) s else Ok 0 s)))"

section \<open>Paths\<close>

abbreviation slash :: u8 where "slash \<equiv> 47"

definition skipelem :: "u8 list \<Rightarrow> bytes \<Rightarrow> (u8 list \<times> bytes) option" where
  "skipelem path name =
    (let path = dropWhile (\<lambda>c. c = slash) path in
     if path = [] then None
     else
       let elem = takeWhile (\<lambda>c. c \<noteq> slash) path;
           path = dropWhile (\<lambda>c. c \<noteq> slash) path;
           len = length elem;
           name = (if DIRSIZ \<le> len then splice name 0 (str elem) DIRSIZ
                   else (splice name 0 (str elem) len)(len := 0))
       in Some (dropWhile (\<lambda>c. c = slash) path, name))"

lemma dropWhile_shorter: "p (hd xs) \<Longrightarrow> xs \<noteq> [] \<Longrightarrow> length (dropWhile p xs) < length xs"
  by (cases xs) (simp_all add: le_imp_less_Suc length_dropWhile_le)

lemma skipelem_shorter: "skipelem path name = Some (rest, name') \<Longrightarrow> length rest < length path"
proof -
  assume s: "skipelem path name = Some (rest, name')"
  define p where "p = dropWhile (\<lambda>c. c = slash) path"
  from s have p: "p \<noteq> []" and rest: "rest = dropWhile (\<lambda>c. c = slash) (dropWhile (\<lambda>c. c \<noteq> slash) p)"
    by (auto simp: skipelem_def Let_def p_def split: if_splits)
  have "hd p \<noteq> slash" using p hd_dropWhile [of "\<lambda>c. c = slash" path] by (simp add: p_def)
  then have "length (dropWhile (\<lambda>c. c \<noteq> slash) p) < length p" using p by (intro dropWhile_shorter)
  moreover have "length rest \<le> length (dropWhile (\<lambda>c. c \<noteq> slash) p)"
    unfolding rest by (rule length_dropWhile_le)
  moreover have "length p \<le> length path" unfolding p_def by (rule length_dropWhile_le)
  ultimately show ?thesis by simp
qed

function namex_loop ::
  "nat \<Rightarrow> bool \<Rightarrow> u8 list \<Rightarrow> bytes \<Rightarrow> 'z kfs_scheme \<Rightarrow> (nat option \<times> bytes, 'z kfs_scheme) kres" where
  "namex_loop ip parent path name s =
    (case skipelem path name of
       None \<Rightarrow>
         if parent then kbind (iput ip s) (\<lambda>_ s. Ok (None, name) s) else Ok (Some ip, name) s
     | Some (path', name') \<Rightarrow>
         kbind (ilock ip s) (\<lambda>_ s.
           if i_type (itab s ip) \<noteq> T_DIR then kbind (iunlockput ip s) (\<lambda>_ s. Ok (None, name') s)
           else if parent \<and> path' = [] then kbind (iunlock ip s) (\<lambda>_ s. Ok (Some ip, name') s)
           else
             kbind (dirlookup ip name' s) (\<lambda>r s.
               case r of
                 None \<Rightarrow> kbind (iunlockput ip s) (\<lambda>_ s. Ok (None, name') s)
               | Some (next, _) \<Rightarrow>
                   kbind (iunlockput ip s) (\<lambda>_ s. namex_loop next parent path' name' s))))"
  by pat_completeness auto
termination
  by (relation "measure (\<lambda>(ip, parent, path, name, s). length path)")
    (auto dest: skipelem_shorter)

declare namex_loop.simps [simp del]

definition namex :: "u8 list \<Rightarrow> bool \<Rightarrow> bytes \<Rightarrow> 'z kfs_scheme \<Rightarrow> (nat option \<times> bytes, 'z kfs_scheme) kres" where
  "namex path parent name s =
    kbind (if path \<noteq> [] \<and> hd path = slash then iget ROOTDEV ROOTINO s
           else kbind (myproc s) (\<lambda>p s.
             case p_cwd (procs s p) of None \<Rightarrow> Panic ''kerneltrap'' | Some cwd \<Rightarrow> idup cwd s)) (\<lambda>ip s.
    namex_loop ip parent path name s)"

definition namei :: "u8 list \<Rightarrow> 'z kfs_scheme \<Rightarrow> (nat option, 'z kfs_scheme) kres" where
  "namei path s = kbind (namex path False (\<lambda>_. 0) s) (\<lambda>(ip, name) s. Ok ip s)"

definition nameiparent :: "u8 list \<Rightarrow> bytes \<Rightarrow> 'z kfs_scheme \<Rightarrow> (nat option \<times> bytes, 'z kfs_scheme) kres" where
  "nameiparent path name s = namex path True name s"

end
