(* ===== verification/Uart.thy ===== *)
theory Uart
  imports Fs
begin

text \<open>
  The serial port and what is printed on it: \<^verbatim>\<open>kernel/uart.c\<close>, \<open>consputc\<close> of \<^verbatim>\<open>kernel/console.c\<close>
  and \<^verbatim>\<open>kernel/printf.c\<close>.

  The device is memory-mapped: \<open>uart_stores\<close> is the sequence of stores to its registers, oldest
  first, \<open>uart_rx\<close> the characters that have arrived and not been read, and \<open>uart_idle\<close> what the
  bit \<open>LSR_TX_IDLE\<close> reads as. The wait of \<open>uartputc_sync\<close> for that bit ends, and it has no effect
  of its own. A \<open>char\<close> is unsigned on this machine.
\<close>

section \<open>State\<close>

record kdev = kfs +
  uart_stores :: "(nat \<times> u8) list"
  uart_rx :: "u8 list"
  uart_idle :: bool
  tx_busy :: bool
  cons_buf :: bytes
  cons_r :: u32
  cons_w :: u32
  cons_e :: u32
  devsw_console :: bool
  panicking :: bool
  panicked :: bool

definition RHR :: nat where "RHR = 0"
definition THR :: nat where "THR = 0"
definition IER :: nat where "IER = 1"
definition IER_RX_ENABLE :: u8 where "IER_RX_ENABLE = 1"
definition IER_TX_ENABLE :: u8 where "IER_TX_ENABLE = 2"
definition FCR :: nat where "FCR = 2"
definition FCR_FIFO_ENABLE :: u8 where "FCR_FIFO_ENABLE = 1"
definition FCR_FIFO_CLEAR :: u8 where "FCR_FIFO_CLEAR = 6"
definition LCR :: nat where "LCR = 3"
definition LCR_EIGHT_BITS :: u8 where "LCR_EIGHT_BITS = 3"
definition LCR_BAUD_LATCH :: u8 where "LCR_BAUD_LATCH = 128"

definition WriteReg :: "nat \<Rightarrow> u8 \<Rightarrow> 'z kdev_scheme \<Rightarrow> 'z kdev_scheme" where
  "WriteReg reg v s = s\<lparr>uart_stores := uart_stores s @ [(reg, v)]\<rparr>"

section \<open>The driver\<close>

definition uartinit :: "'z kdev_scheme \<Rightarrow> 'z kdev_scheme" where
  "uartinit s =
    (let s = WriteReg IER 0 s;
         s = WriteReg LCR LCR_BAUD_LATCH s;
         s = WriteReg 0 3 s;
         s = WriteReg 1 0 s;
         s = WriteReg LCR LCR_EIGHT_BITS s;
         s = WriteReg FCR (FCR_FIFO_ENABLE OR FCR_FIFO_CLEAR) s;
         s = WriteReg IER (IER_TX_ENABLE OR IER_RX_ENABLE) s
     in s\<lparr>held := held s - {LTx}\<rparr>)"

text \<open>
  \<open>uartwrite\<close> on the bytes that are left to send. It sleeps while the device is busy, and goes on
  from the same byte when it is woken.
\<close>

fun uartwrite_loop :: "u8 list \<Rightarrow> 'z kdev_scheme \<Rightarrow> (unit, 'z kdev_scheme) kres" where
  "uartwrite_loop [] s = release LTx s"
| "uartwrite_loop (c # cs) s =
    (if tx_busy s then sleep ChTx LTx s
     else uartwrite_loop cs ((WriteReg THR c s)\<lparr>tx_busy := True\<rparr>))"

definition uartwrite :: "u8 list \<Rightarrow> 'z kdev_scheme \<Rightarrow> (unit, 'z kdev_scheme) kres" where
  "uartwrite buf s = kbind (acquire LTx s) (\<lambda>_ s. uartwrite_loop buf s)"

text \<open>After a panic every other processor spins in \<open>uartputc_sync\<close> for ever.\<close>

definition uartputc_sync :: "u8 \<Rightarrow> 'z kdev_scheme \<Rightarrow> (unit, 'z kdev_scheme) kres" where
  "uartputc_sync c s = (if panicked s then Panic ''panicked'' else Ok () (WriteReg THR c s))"

definition uartgetc :: "'z kdev_scheme \<Rightarrow> int \<times> 'z kdev_scheme" where
  "uartgetc s = (case uart_rx s of [] \<Rightarrow> (- 1, s) | c # cs \<Rightarrow> (uint c, s\<lparr>uart_rx := cs\<rparr>))"

section \<open>Console output\<close>

definition BACKSPACE :: int where "BACKSPACE = 0x100"

text \<open>The character of a literal.\<close>

abbreviation ch :: "char \<Rightarrow> u8" where "ch \<equiv> of_char"

definition consputc :: "int \<Rightarrow> 'z kdev_scheme \<Rightarrow> (unit, 'z kdev_scheme) kres" where
  "consputc c s =
    (if c = BACKSPACE then
       kbind (uartputc_sync 8 s) (\<lambda>_ s.
       kbind (uartputc_sync 32 s) (\<lambda>_ s.
       uartputc_sync 8 s))
     else uartputc_sync (of_int c) s)"

section \<open>Formatting\<close>

definition digits :: "nat \<Rightarrow> u8" where
  "digits d = ch (''0123456789abcdef'' ! d)"

text \<open>The digits of a number, least significant first. The bases used are 10 and 16.\<close>

function digit_loop :: "u64 \<Rightarrow> u64 \<Rightarrow> u8 list" where
  "digit_loop x base =
    digits (unat (x mod base)) # (if x div base \<noteq> 0 \<and> 1 < base then digit_loop (x div base) base else [])"
  by pat_completeness auto
termination
proof (relation "measure (\<lambda>(x, base). unat x)")
  fix x base :: u64
  assume a: "x div base \<noteq> 0 \<and> 1 < base"
  then have "x \<noteq> 0" by auto
  then have "0 < unat x" by (simp add: unat_gt_0)
  moreover have "1 < unat base" using a by (simp add: word_less_nat_alt)
  ultimately have "unat x div unat base < unat x" by (rule div_less_dividend [rotated])
  then show "((x div base, base), (x, base)) \<in> measure (\<lambda>(x, base). unat x)"
    by (simp add: unat_div)
qed simp

declare digit_loop.simps [simp del]

text \<open>\<open>printint\<close> fills \<open>buf\<close> and prints it backwards.\<close>

definition printint_buf :: "u64 \<Rightarrow> u64 \<Rightarrow> bool \<Rightarrow> u8 list" where
  "printint_buf xx base sign =
    (let neg = (sign \<and> sint xx < 0);
         x = (if neg then - xx else xx);
         buf = digit_loop x base
     in if neg then buf @ [ch CHR ''-''] else buf)"

definition printint :: "u64 \<Rightarrow> u64 \<Rightarrow> bool \<Rightarrow> u8 list" where
  "printint xx base sign = rev (printint_buf xx base sign)"

fun printptr_loop :: "nat \<Rightarrow> u64 \<Rightarrow> u8 list" where
  "printptr_loop 0 x = []"
| "printptr_loop (Suc k) x = digits (unat (drop_bit 60 x)) # printptr_loop k (push_bit 4 x)"

definition printptr :: "u64 \<Rightarrow> u8 list" where
  "printptr x = ch CHR ''0'' # ch CHR ''x'' # printptr_loop 16 x"

text \<open>An argument of \<open>printf\<close>: a register, or a string pointer (null is \<open>None\<close>).\<close>

datatype parg = PNum u64 | PStr "u8 list option"

fun num_arg :: "parg list \<Rightarrow> u64" where
  "num_arg (PNum n # args) = n"
| "num_arg args = 0"

fun str_arg :: "parg list \<Rightarrow> u8 list" where
  "str_arg (PStr (Some s) # args) = s"
| "str_arg args = map ch ''(null)''"

text \<open>
  The characters that \<open>printf\<close> prints for a format. \<open>va_arg(ap, int)\<close> and
  \<open>va_arg(ap, uint32)\<close> read the low half of the register and extend it.
\<close>

function kformat :: "u8 list \<Rightarrow> parg list \<Rightarrow> u8 list" where
  "kformat fmt args =
    (case fmt of [] \<Rightarrow> []
     | cx # rest \<Rightarrow>
       if cx \<noteq> ch CHR ''%'' then cx # kformat rest args
       else
         let c0 = str rest 0;
             c1 = (if c0 \<noteq> 0 then str rest 1 else 0);
             c2 = (if c1 \<noteq> 0 then str rest 2 else 0);
             n = num_arg args
         in if c0 = ch CHR ''d'' then printint (scast (ucast n :: u32)) 10 True @ kformat (drop 1 rest) (tl args)
         else if c0 = ch CHR ''l'' \<and> c1 = ch CHR ''d'' then printint n 10 True @ kformat (drop 2 rest) (tl args)
         else if c0 = ch CHR ''l'' \<and> c1 = ch CHR ''l'' \<and> c2 = ch CHR ''d''
           then printint n 10 True @ kformat (drop 3 rest) (tl args)
         else if c0 = ch CHR ''u'' then printint (ucast (ucast n :: u32)) 10 False @ kformat (drop 1 rest) (tl args)
         else if c0 = ch CHR ''l'' \<and> c1 = ch CHR ''u'' then printint n 10 False @ kformat (drop 2 rest) (tl args)
         else if c0 = ch CHR ''l'' \<and> c1 = ch CHR ''l'' \<and> c2 = ch CHR ''u''
           then printint n 10 False @ kformat (drop 3 rest) (tl args)
         else if c0 = ch CHR ''x'' then printint (ucast (ucast n :: u32)) 16 False @ kformat (drop 1 rest) (tl args)
         else if c0 = ch CHR ''l'' \<and> c1 = ch CHR ''x'' then printint n 16 False @ kformat (drop 2 rest) (tl args)
         else if c0 = ch CHR ''l'' \<and> c1 = ch CHR ''l'' \<and> c2 = ch CHR ''x''
           then printint n 16 False @ kformat (drop 3 rest) (tl args)
         else if c0 = ch CHR ''p'' then printptr n @ kformat (drop 1 rest) (tl args)
         else if c0 = ch CHR ''c'' then ucast n # kformat (drop 1 rest) (tl args)
         else if c0 = ch CHR ''s'' then str_arg args @ kformat (drop 1 rest) (tl args)
         else if c0 = ch CHR ''%'' then ch CHR ''%'' # kformat (drop 1 rest) args
         else if c0 = 0 then []
         else ch CHR ''%'' # c0 # kformat (drop 1 rest) args)"
  by pat_completeness auto
termination
  by (relation "measure (\<lambda>(fmt, args). length fmt)") auto

declare kformat.simps [simp del]

definition consputs :: "u8 list \<Rightarrow> 'z kdev_scheme \<Rightarrow> (unit, 'z kdev_scheme) kres" where
  "consputs cs s = foreach (\<lambda>c. consputc (uint c)) cs s"

definition printf :: "u8 list \<Rightarrow> parg list \<Rightarrow> 'z kdev_scheme \<Rightarrow> (unit, 'z kdev_scheme) kres" where
  "printf fmt args s =
    kbind (if \<not> panicking s then acquire LPr s else Ok () s) (\<lambda>_ s.
    kbind (consputs (kformat fmt args) s) (\<lambda>_ s.
    if \<not> panicking s then release LPr s else Ok () s))"

text \<open>\<open>panic\<close>, up to the state in which it spins.\<close>

definition panic :: "u8 list \<Rightarrow> 'z kdev_scheme \<Rightarrow> (unit, 'z kdev_scheme) kres" where
  "panic msg s =
    (let s = s\<lparr>panicking := True\<rparr> in
     kbind (printf (map ch ''panic: '') [] s) (\<lambda>_ s.
     kbind (printf (map ch ''%s'' @ [10]) [PStr (Some msg)] s) (\<lambda>_ s.
     Ok () (s\<lparr>panicked := True\<rparr>))))"

definition printfinit :: "'z kdev_scheme \<Rightarrow> 'z kdev_scheme" where
  "printfinit s = s\<lparr>held := held s - {LPr}\<rparr>"

end
