(* ===== verification/Console.thy ===== *)
theory Console
  imports Uart
begin

text \<open>
  The console: \<^verbatim>\<open>kernel/console.c\<close>, with \<open>procdump\<close> of \<^verbatim>\<open>kernel/proc.c\<close> and the interrupt handler
  \<open>uartintr\<close> of \<^verbatim>\<open>kernel/uart.c\<close>, which calls \<open>consoleintr\<close>.

  The input buffer is a ring of 128 characters with three indices that only ever grow (and wrap
  at the width of \<open>uint\<close>): \<open>cons_r\<close> up to where it has been read, \<open>cons_w\<close> up to where it
  may be read, \<open>cons_e\<close> up to where it has been typed.
\<close>

definition INPUT_BUF_SIZE :: u32 where "INPUT_BUF_SIZE = 128"
definition CONSOLE :: int where "CONSOLE = 1"

text \<open>\<open>C(x)\<close>: control-\<open>x\<close>.\<close>

definition ctrl :: "char \<Rightarrow> int" where "ctrl x = of_char x - 64"

section \<open>procdump\<close>

fun state_name :: "procstate \<Rightarrow> string" where
  "state_name UNUSED = ''unused''"
| "state_name USED = ''used''"
| "state_name SLEEPING = ''sleep ''"
| "state_name RUNNABLE = ''runble''"
| "state_name RUNNING = ''run   ''"
| "state_name ZOMBIE = ''zombie''"

definition procdump_one :: "nat \<Rightarrow> 'z kdev_scheme \<Rightarrow> (unit, 'z kdev_scheme) kres" where
  "procdump_one p s =
    (let q = procs s p in
     if p_state q = UNUSED then Ok () s
     else
       kbind (printf (map ch ''%d %s %s'') [PNum (of_int (p_pid q)), PStr (Some (map ch (state_name (p_state q)))),
           PStr (Some (cstr 16 (p_name q)))] s) (\<lambda>_ s.
       printf [10] [] s))"

definition procdump :: "'z kdev_scheme \<Rightarrow> (unit, 'z kdev_scheme) kres" where
  "procdump s = kbind (printf [10] [] s) (\<lambda>_ s. foreach procdump_one [0..<NPROC] s)"

section \<open>Input\<close>

definition cons_at :: "u32 \<Rightarrow> 'z kdev_scheme \<Rightarrow> u8" where
  "cons_at i s = cons_buf s (unat (i mod INPUT_BUF_SIZE))"

lemma unat_less_minus: "e \<noteq> w \<Longrightarrow> unat (e - 1 - w) < unat (e - w)" for e w :: "'a :: len word"
proof -
  assume "e \<noteq> w"
  then have p: "0 < unat (e - w)" by (simp add: unat_gt_0)
  then have "1 \<le> e - w" by (simp add: word_le_nat_alt)
  then have m: "unat (e - w - 1) = unat (e - w) - 1" by (simp add: unat_sub)
  have d: "e - 1 - w = e - w - 1" by simp
  show ?thesis unfolding d m using p by linarith
qed

text \<open>The loop of control-U, up to a newline or the start of the line being edited: the number of erasures.\<close>

function kill_line :: "u32 \<Rightarrow> u32 \<Rightarrow> bytes \<Rightarrow> u32 \<times> nat" where
  "kill_line e w buf =
    (if e \<noteq> w \<and> buf (unat ((e - 1) mod INPUT_BUF_SIZE)) \<noteq> 10
     then (case kill_line (e - 1) w buf of (e', n) \<Rightarrow> (e', Suc n))
     else (e, 0))"
  by pat_completeness auto
termination
  by (relation "measure (\<lambda>(e, w, buf). unat (e - w))") (auto simp: unat_less_minus)

declare kill_line.simps [simp del]

definition consoleintr :: "int \<Rightarrow> 'z kdev_scheme \<Rightarrow> (unit, 'z kdev_scheme) kres" where
  "consoleintr c s =
    kbind (acquire LCons s) (\<lambda>_ s.
    kbind
      (if c = ctrl CHR ''P'' then procdump s
       else if c = ctrl CHR ''U'' then
         (case kill_line (cons_e s) (cons_w s) (cons_buf s) of
            (e, n) \<Rightarrow> foreach (\<lambda>_. consputc BACKSPACE) [0..<n] (s\<lparr>cons_e := e\<rparr>))
       else if c = ctrl CHR ''H'' \<or> c = 127 then
         if cons_e s \<noteq> cons_w s then consputc BACKSPACE (s\<lparr>cons_e := cons_e s - 1\<rparr>) else Ok () s
       else if c \<noteq> 0 \<and> cons_e s - cons_r s < INPUT_BUF_SIZE then
         let c = (if c = 13 then 10 else c) in
         kbind (consputc c s) (\<lambda>_ s.
         let s = s\<lparr>cons_buf := (cons_buf s)(unat (cons_e s mod INPUT_BUF_SIZE) := of_int c)\<rparr>;
             s = s\<lparr>cons_e := cons_e s + 1\<rparr>
         in if c = 10 \<or> c = ctrl CHR ''D'' \<or> cons_e s - cons_r s = INPUT_BUF_SIZE
            then wakeup ChCons (s\<lparr>cons_w := cons_e s\<rparr>)
            else Ok () s)
       else Ok () s) (\<lambda>_ s.
    release LCons s))"

fun uartintr_loop :: "nat \<Rightarrow> 'z kdev_scheme \<Rightarrow> (unit, 'z kdev_scheme) kres" where
  "uartintr_loop 0 s = Ok () s"
| "uartintr_loop (Suc k) s =
    (case uartgetc s of (c, s) \<Rightarrow>
      if c = - 1 then Ok () s else kbind (consoleintr c s) (\<lambda>_ s. uartintr_loop k s))"

text \<open>
  The loop reads the characters that are waiting; their number is fuel enough. \<open>ReadReg(ISR)\<close>
  has no effect that the model sees.
\<close>

definition uartintr :: "'z kdev_scheme \<Rightarrow> (unit, 'z kdev_scheme) kres" where
  "uartintr s =
    kbind (acquire LTx s) (\<lambda>_ s.
    kbind (if uart_idle s then wakeup ChTx (s\<lparr>tx_busy := False\<rparr>) else Ok () s) (\<lambda>_ s.
    kbind (release LTx s) (\<lambda>_ s.
    uartintr_loop (length (uart_rx s)) s)))"

section \<open>Reading and writing\<close>

text \<open>
  \<open>consolewrite\<close> from the byte \<open>i\<close> on, \<open>k\<close> bytes being left: 32 bytes at a time. A call of
  \<open>uartwrite\<close> may sleep; it goes on in \<open>uartwrite_loop\<close>.
\<close>

function consolewrite_loop :: "int \<Rightarrow> int \<Rightarrow> cursor \<Rightarrow> 'z kdev_scheme \<Rightarrow> (int, 'z kdev_scheme) kres" where
  "consolewrite_loop i n src s =
    (if i < n then
       let nn = (if n - i < 32 then n - i else 32) in
       kbind (either_copyin (\<lambda>_. 0) 0 src (nat nn) s) (\<lambda>(r, buf) s.
         if r = - 1 then Ok i s
         else
           kbind (uartwrite (map buf [0..<nat nn]) s) (\<lambda>_ s.
           consolewrite_loop (i + nn) n (cur_add src (nat nn)) s))
     else Ok i s)"
  by pat_completeness auto
termination
  by (relation "measure (\<lambda>(i, n, src, s). nat (n - i))") (auto split: if_splits)

declare consolewrite_loop.simps [simp del]

definition consolewrite :: "cursor \<Rightarrow> int \<Rightarrow> 'z kdev_scheme \<Rightarrow> (int, 'z kdev_scheme) kres" where
  "consolewrite src n s = consolewrite_loop 0 n src s"

text \<open>
  \<open>consoleread\<close> with the lock held and \<open>n\<close> bytes still to fill of \<open>target\<close>. The result is
  the return value and the destination.
\<close>

fun consoleread_loop ::
  "nat \<Rightarrow> nat \<Rightarrow> cursor \<Rightarrow> 'z kdev_scheme \<Rightarrow> (int \<times> cursor, 'z kdev_scheme) kres" where
  "consoleread_loop target 0 dst s = kbind (release LCons s) (\<lambda>_ s. Ok (int target, dst) s)"
| "consoleread_loop target (Suc n) dst s =
    (let stop = (\<lambda>k dst s. kbind (release LCons s) (\<lambda>_ s. Ok (int target - int k, dst) s)) in
     if cons_r s = cons_w s then
       kbind (myproc s) (\<lambda>p s.
       kbind (killed p s) (\<lambda>k s.
         if k \<noteq> 0 then kbind (release LCons s) (\<lambda>_ s. Ok (- 1, dst) s)
         else sleep ChCons LCons s))
     else
       let c = cons_at (cons_r s) s;
           s = s\<lparr>cons_r := cons_r s + 1\<rparr>
       in if uint c = ctrl CHR ''D'' then
            stop (Suc n) dst (if Suc n < target then s\<lparr>cons_r := cons_r s - 1\<rparr> else s)
          else
            kbind (either_copyout dst (\<lambda>_. c) 1 s) (\<lambda>(r, dst) s.
              if r = - 1 then stop (Suc n) dst s
              else
                let dst = cur_add dst 1 in
                if c = 10 then stop n dst s else consoleread_loop target n dst s))"

text \<open>A negative count reads nothing, and the function returns 0.\<close>

definition consoleread :: "cursor \<Rightarrow> int \<Rightarrow> 'z kdev_scheme \<Rightarrow> (int \<times> cursor, 'z kdev_scheme) kres" where
  "consoleread dst n s = kbind (acquire LCons s) (\<lambda>_ s. consoleread_loop (nat n) (nat n) dst s)"

definition consoleinit :: "'z kdev_scheme \<Rightarrow> 'z kdev_scheme" where
  "consoleinit s = (uartinit (s\<lparr>held := held s - {LCons}\<rparr>))\<lparr>devsw_console := True\<rparr>"

end
