(* ===== verification/Pipe.thy ===== *)
theory Pipe
  imports Console
begin

text \<open>
  Pipes: \<^verbatim>\<open>kernel/pipe.c\<close>, with the table of open files of \<^verbatim>\<open>kernel/file.h\<close>.

  A pipe lives in a page of its own and is named by the page's address; \<open>pipes\<close> maps addresses to
  pipes. \<open>p_nread\<close> and \<open>p_nwrite\<close> count all the bytes ever read and written, modulo the width of
  \<open>uint\<close>; the buffer is indexed by their remainders.
\<close>

section \<open>State\<close>

record pipe =
  p_data :: bytes
  p_nread :: u32
  p_nwrite :: u32
  p_readopen :: bool
  p_writeopen :: bool

datatype fdtype = FD_NONE | FD_PIPE | FD_INODE | FD_DEVICE

record openfile =
  f_type :: fdtype
  f_ref :: int
  f_readable :: bool
  f_writable :: bool
  f_pipe :: u64
  f_ip :: "nat option"
  f_off :: u32
  f_major :: u16

record kfile = kdev +
  ftable :: "nat \<Rightarrow> openfile"
  pipes :: "u64 \<Rightarrow> pipe"

definition PIPESIZE :: u32 where "PIPESIZE = 512"

definition pipe_upd :: "u64 \<Rightarrow> (pipe \<Rightarrow> pipe) \<Rightarrow> 'z kfile_scheme \<Rightarrow> 'z kfile_scheme" where
  "pipe_upd pi f s = s\<lparr>pipes := (pipes s)(pi := f (pipes s pi))\<rparr>"

section \<open>Operations\<close>

definition pipeclose :: "u64 \<Rightarrow> bool \<Rightarrow> 'z kfile_scheme \<Rightarrow> (unit, 'z kfile_scheme) kres" where
  "pipeclose pi writable s =
    kbind (acquire (LPipe pi) s) (\<lambda>_ s.
    kbind (if writable then wakeup (ChPipeR pi) (pipe_upd pi (\<lambda>p. p\<lparr>p_writeopen := False\<rparr>) s)
           else wakeup (ChPipeW pi) (pipe_upd pi (\<lambda>p. p\<lparr>p_readopen := False\<rparr>) s)) (\<lambda>_ s.
      if \<not> p_readopen (pipes s pi) \<and> \<not> p_writeopen (pipes s pi) then
        kbind (release (LPipe pi) s) (\<lambda>_ s. kfree pi s)
      else release (LPipe pi) s))"

text \<open>Storing a byte, and taking one out.\<close>

definition pipe_put :: "u8 \<Rightarrow> pipe \<Rightarrow> pipe" where
  "pipe_put c p = p\<lparr>p_data := (p_data p)(unat (p_nwrite p mod PIPESIZE) := c), p_nwrite := p_nwrite p + 1\<rparr>"

definition pipe_get :: "pipe \<Rightarrow> u8 \<times> pipe" where
  "pipe_get p = (p_data p (unat (p_nread p mod PIPESIZE)), p\<lparr>p_nread := p_nread p + 1\<rparr>)"

text \<open>
  The loop of \<open>pipewrite\<close> from the byte \<open>i\<close> on, with the pipe's lock held. When the pipe is full
  the writer sleeps, and goes on with the same \<open>i\<close> when it is woken.
\<close>

function pipewrite_loop :: "nat \<Rightarrow> u64 \<Rightarrow> u64 \<Rightarrow> int \<Rightarrow> int \<Rightarrow> 'z kfile_scheme \<Rightarrow> (int, 'z kfile_scheme) kres" where
  "pipewrite_loop pr pi addr i n s =
    (let done = kbind (wakeup (ChPipeR pi) s) (\<lambda>_ s. kbind (release (LPipe pi) s) (\<lambda>_ s. Ok i s)) in
     if i < n then
       kbind (if \<not> p_readopen (pipes s pi) then Ok 1 s else killed pr s) (\<lambda>k s.
         if k \<noteq> 0 then kbind (release (LPipe pi) s) (\<lambda>_ s. Ok (- 1) s)
         else if p_nwrite (pipes s pi) = p_nread (pipes s pi) + PIPESIZE then
           kbind (wakeup (ChPipeR pi) s) (\<lambda>_ s. sleep (ChPipeW pi) (LPipe pi) s)
         else
           kbind (copyin (p_pagetable (procs s pr)) (\<lambda>_. 0) (addr + of_int i) 1 s) (\<lambda>(r, c) s.
             if r = - 1 then kbind (wakeup (ChPipeR pi) s) (\<lambda>_ s. kbind (release (LPipe pi) s) (\<lambda>_ s. Ok i s))
             else pipewrite_loop pr pi addr (i + 1) n (pipe_upd pi (pipe_put (c 0)) s)))
     else done)"
  by pat_completeness auto
termination
  by (relation "measure (\<lambda>(pr, pi, addr, i, n, s). nat (n - i))") auto

declare pipewrite_loop.simps [simp del]

definition pipewrite :: "u64 \<Rightarrow> u64 \<Rightarrow> int \<Rightarrow> 'z kfile_scheme \<Rightarrow> (int, 'z kfile_scheme) kres" where
  "pipewrite pi addr n s =
    kbind (myproc s) (\<lambda>pr s.
    kbind (acquire (LPipe pi) s) (\<lambda>_ s.
    pipewrite_loop pr pi addr 0 n s))"

text \<open>The copying loop of \<open>piperead\<close>: the number of bytes copied out.\<close>

function piperead_loop :: "nat \<Rightarrow> u64 \<Rightarrow> u64 \<Rightarrow> int \<Rightarrow> int \<Rightarrow> 'z kfile_scheme \<Rightarrow> (int, 'z kfile_scheme) kres" where
  "piperead_loop pr pi addr i n s =
    (if i < n then
       if p_nread (pipes s pi) = p_nwrite (pipes s pi) then Ok i s
       else
         case pipe_get (pipes s pi) of
           (c, p) \<Rightarrow>
             kbind (copyout (p_pagetable (procs s pr)) (addr + of_int i) (\<lambda>_. c) 1 (pipe_upd pi (\<lambda>_. p) s)) (\<lambda>r s.
               if r = - 1 then Ok i s else piperead_loop pr pi addr (i + 1) n s)
     else Ok i s)"
  by pat_completeness auto
termination
  by (relation "measure (\<lambda>(pr, pi, addr, i, n, s). nat (n - i))") auto

declare piperead_loop.simps [simp del]

definition piperead :: "u64 \<Rightarrow> u64 \<Rightarrow> int \<Rightarrow> 'z kfile_scheme \<Rightarrow> (int, 'z kfile_scheme) kres" where
  "piperead pi addr n s =
    kbind (myproc s) (\<lambda>pr s.
    kbind (acquire (LPipe pi) s) (\<lambda>_ s.
      if p_nread (pipes s pi) = p_nwrite (pipes s pi) \<and> p_writeopen (pipes s pi) then
        kbind (killed pr s) (\<lambda>k s.
          if k \<noteq> 0 then kbind (release (LPipe pi) s) (\<lambda>_ s. Ok (- 1) s)
          else sleep (ChPipeR pi) (LPipe pi) s)
      else
        kbind (piperead_loop pr pi addr 0 n s) (\<lambda>i s.
        kbind (wakeup (ChPipeW pi) s) (\<lambda>_ s.
        kbind (release (LPipe pi) s) (\<lambda>_ s.
        Ok i s)))))"

end
