(* ===== verification/Pipeflow.thy ===== *)
theory Pipeflow
  imports Pipe Ringbuf
begin

text \<open>
  What a pipe promises: the buffer of \<^verbatim>\<open>kernel/pipe.c\<close> is a bounded first-in first-out queue of
  bytes, \<open>pipewrite\<close> appends the user's bytes to it, \<open>piperead\<close> takes bytes from its front.
\<close>

section \<open>The buffer is a queue\<close>

definition pipe_inv :: "pipe \<Rightarrow> bool" where
  "pipe_inv p \<longleftrightarrow> ring_inv 512 (p_nread p) (p_nwrite p)"

definition pipe_contents :: "pipe \<Rightarrow> u8 list" where
  "pipe_contents p = ring_contents 512 (p_data p) (p_nread p) (p_nwrite p)"

lemma pipe_index: "unat (x mod PIPESIZE) = unat x mod 512"
  by (simp add: PIPESIZE_def unat_mod)

lemma pipe_put_contents:
  assumes "length (pipe_contents p) < 512"
  shows "pipe_inv (pipe_put c p) \<and> pipe_contents (pipe_put c p) = pipe_contents p @ [c]"
  using ring_put [of 512 "p_nwrite p" "p_nread p" "p_data p" c] assms
  by (simp add: pipe_inv_def pipe_contents_def pipe_put_def pipe_index)

lemma pipe_get_contents:
  assumes "pipe_inv p" "pipe_contents p \<noteq> []"
  shows "pipe_inv (snd (pipe_get p)) \<and> pipe_contents p = fst (pipe_get p) # pipe_contents (snd (pipe_get p))"
proof -
  have "p_nread p \<noteq> p_nwrite p" using assms(2) by (simp add: pipe_contents_def ring_empty)
  from ring_get [OF _ assms(1) [unfolded pipe_inv_def] this, of "p_data p"] show ?thesis
    by (simp add: pipe_inv_def pipe_contents_def pipe_get_def pipe_index)
qed

interpretation pipe_fifo: fifo pipe_put pipe_get pipe_contents 512 pipe_inv
proof
  fix p :: pipe and c :: u8
  show "length (pipe_contents p) < 512 \<Longrightarrow> pipe_inv (pipe_put c p) \<and> pipe_contents (pipe_put c p) = pipe_contents p @ [c]"
    by (rule pipe_put_contents)
  show "pipe_inv p \<Longrightarrow> pipe_contents p \<noteq> [] \<Longrightarrow>
      pipe_inv (snd (pipe_get p)) \<and> pipe_contents p = fst (pipe_get p) # pipe_contents (snd (pipe_get p))"
    by (rule pipe_get_contents)
  show "pipe_inv p \<Longrightarrow> length (pipe_contents p) \<le> 512"
    by (simp add: pipe_inv_def pipe_contents_def ring_inv_def)
qed

lemma pipe_empty_iff: "pipe_contents p = [] \<longleftrightarrow> p_nread p = p_nwrite p"
  by (simp add: pipe_contents_def ring_empty)

lemma pipe_full_iff: "length (pipe_contents p) = 512 \<longleftrightarrow> p_nwrite p = p_nread p + PIPESIZE"
proof -
  have "length (pipe_contents p) = 512 \<longleftrightarrow> p_nwrite p - p_nread p = 512"
    by (simp add: pipe_contents_def word_unat_eq_iff)
  then show ?thesis by (auto simp: PIPESIZE_def algebra_simps)
qed

section \<open>Writing\<close>

text \<open>The bytes that a user has at \<open>a\<close>.\<close>

definition ubytes :: "mem \<Rightarrow> u64 \<Rightarrow> u64 \<Rightarrow> nat \<Rightarrow> u8 list" where
  "ubytes m pt a n = map (\<lambda>k. the (uread m pt (a + of_nat k))) [0..<n]"

lemma ubytes_length [simp]: "length (ubytes m pt a n) = n"
  by (simp add: ubytes_def)

lemma ubytes_Suc: "ubytes m pt a (Suc n) = the (uread m pt a) # ubytes m pt (a + 1) n"
  by (simp add: ubytes_def upt_conv_Cons map_Suc_upt [symmetric] add.assoc del: upt_Suc)

lemma umapped_rest: "umapped m pt a (Suc n) \<Longrightarrow> umapped m pt (a + 1) n \<and> umapped m pt a 1"
proof -
  assume u: "umapped m pt a (Suc n)"
  have "unat (a + 1) = unat a + 1"
    using u unat_plus_small [of a 1] by (simp add: umapped_def MAXVA_small)
  moreover have "\<exists>pa. upage m pt (PGROUNDDOWN (a + 1 + of_nat i)) = Some pa \<and> pa \<noteq> 0" if "i < n" for i
  proof -
    have "Suc i < Suc n" using that by simp
    with u have "\<exists>pa. upage m pt (PGROUNDDOWN (a + of_nat (Suc i))) = Some pa \<and> pa \<noteq> 0"
      unfolding umapped_def by blast
    then show ?thesis by (simp add: add.assoc)
  qed
  ultimately show ?thesis using u by (auto simp: umapped_def)
qed

lemma pipe_upd_fields [simp]:
  "pmem (pipe_upd pi f s) = pmem s" "procs (pipe_upd pi f s) = procs s" "held (pipe_upd pi f s) = held s"
  "pipes (pipe_upd pi f s) = (pipes s)(pi := f (pipes s pi))" "curproc (pipe_upd pi f s) = curproc s"
  by (simp_all add: pipe_upd_def)

lemma pipe_upd_upd: "pipe_upd pi g (pipe_upd pi f s) = pipe_upd pi (\<lambda>p. g (f p)) s"
  by (simp add: pipe_upd_def)

lemma pipe_put_open [simp]:
  "p_readopen (pipe_put c p) = p_readopen p" "p_writeopen (pipe_put c p) = p_writeopen p"
  by (simp_all add: pipe_put_def)

text \<open>With room for all the bytes, the loop is the sequence of stores followed by the end of \<open>pipewrite\<close>.\<close>

lemma pipewrite_loop_eq:
  fixes s :: "'z kfile_scheme"
  assumes "p_readopen (pipes s pi)" "p_killed (procs s pr) = 0" "LProc pr \<notin> held s"
    and "pt_wf 2 (pmem s) (p_pagetable (procs s pr))"
    and "umapped (pmem s) (p_pagetable (procs s pr)) (addr + of_int i) k" "n = i + int k"
    and "pipe_inv (pipes s pi)" "length (pipe_contents (pipes s pi)) + k \<le> 512"
  shows "pipewrite_loop pr pi addr i n s =
    (let t = pipe_upd pi (fold pipe_put (ubytes (pmem s) (p_pagetable (procs s pr)) (addr + of_int i) k)) s
     in kbind (wakeup (ChPipeR pi) t) (\<lambda>_ t. kbind (release (LPipe pi) t) (\<lambda>_ t. Ok n t)))"
  using assms
proof (induction k arbitrary: i s)
  case 0
  have "pipe_upd pi (\<lambda>p. p) s = s" by (simp add: pipe_upd_def)
  with 0 show ?case by (subst pipewrite_loop.simps) (simp add: ubytes_def Let_def id_def)
next
  case (Suc k)
  let ?pt = "p_pagetable (procs s pr)" and ?a = "addr + of_int i"
  let ?c = "the (uread (pmem s) ?pt ?a)"
  from umapped_rest [OF Suc.prems(5)] have u: "umapped (pmem s) ?pt (?a + 1) k" "umapped (pmem s) ?pt ?a 1" by auto
  have "copyin ?pt (\<lambda>_. 0) ?a 1 s = Ok (0, \<lambda>j. if j < 1 then the (uread (pmem s) ?pt (?a + of_nat j)) else 0) s"
    using copyin_mapped [OF Suc.prems(4), of ?a 1 "\<lambda>_. 0"] u(2) by simp
  moreover have "p_nwrite (pipes s pi) \<noteq> p_nread (pipes s pi) + PIPESIZE"
    using Suc.prems(8) pipe_full_iff [of "pipes s pi"] by linarith
  ultimately have step: "pipewrite_loop pr pi addr i n s = pipewrite_loop pr pi addr (i + 1) n (pipe_upd pi (pipe_put ?c) s)"
    using Suc.prems(1,2,3,6) by (subst pipewrite_loop.simps) (simp add: killed_eq)
  have c: "pipe_inv (pipe_put ?c (pipes s pi))"
    "length (pipe_contents (pipe_put ?c (pipes s pi))) + k \<le> 512"
    using pipe_put_contents [of "pipes s pi" ?c] Suc.prems(8) by simp_all
  have a: "addr + of_int (i + 1) = ?a + 1" by simp
  have "pipewrite_loop pr pi addr (i + 1) n (pipe_upd pi (pipe_put ?c) s) =
    (let t = pipe_upd pi (fold pipe_put (ubytes (pmem s) ?pt (?a + 1) k)) (pipe_upd pi (pipe_put ?c) s)
     in kbind (wakeup (ChPipeR pi) t) (\<lambda>_ t. kbind (release (LPipe pi) t) (\<lambda>_ t. Ok n t)))"
    unfolding a [symmetric]
    using Suc.IH [of "pipe_upd pi (pipe_put ?c) s" "i + 1"] Suc.prems(1-4,6) u(1) [folded a] c
    by simp
  then show ?case unfolding step by (simp add: ubytes_Suc pipe_upd_upd)
qed

lemma fold_pipe_put_readopen: "p_readopen (fold pipe_put xs p) = p_readopen p"
  and fold_pipe_put_writeopen: "p_writeopen (fold pipe_put xs p) = p_writeopen p"
  by (induction xs arbitrary: p) simp_all

lemma pipewrite_eq:
  fixes s :: "'z kfile_scheme"
  assumes "curproc s = Some pr" "held s = {}" "p_readopen (pipes s pi)" "p_killed (procs s pr) = 0"
    and "pt_wf 2 (pmem s) (p_pagetable (procs s pr))" "umapped (pmem s) (p_pagetable (procs s pr)) addr k"
    and "pipe_inv (pipes s pi)" "length (pipe_contents (pipes s pi)) + k \<le> 512"
  shows "pipewrite pi addr (int k) s = Ok (int k)
    ((pipe_upd pi (fold pipe_put (ubytes (pmem s) (p_pagetable (procs s pr)) addr k)) s)
      \<lparr>procs := woken (ChPipeR pi) (Some pr) (procs s)\<rparr>)"
proof -
  let ?s = "s\<lparr>held := {LPipe pi}\<rparr>"
  have "pipewrite_loop pr pi addr 0 (int k) ?s =
    (let t = pipe_upd pi (fold pipe_put (ubytes (pmem s) (p_pagetable (procs s pr)) addr k)) ?s
     in kbind (wakeup (ChPipeR pi) t) (\<lambda>_ t. kbind (release (LPipe pi) t) (\<lambda>_ t. Ok (int k) t)))"
    using pipewrite_loop_eq [of ?s pi pr addr 0 k "int k"] assms by simp
  then show ?thesis
    using assms(1,2)
    by (simp add: pipewrite_def myproc_def acquire_free wakeup_eq release_held pipe_upd_def Let_def)
qed

section \<open>Reading\<close>

lemma uwritable_first: "uwritable m pt a (Suc n) \<Longrightarrow> uwritable m pt a 1"
proof -
  assume u: "uwritable m pt a (Suc n)"
  then have "leaf_pte 2 m pt (PGROUNDDOWN (a + of_nat 0)) AND PTE_W \<noteq> 0"
    unfolding uwritable_def by blast
  then show ?thesis using u umapped_rest [of m pt a n] by (simp add: uwritable_def)
qed

lemma piperead_loop_spec:
  fixes s :: "'z kfile_scheme"
  assumes "pipe_inv (pipes s pi)" "uspace (pmem s) pt" "pt = p_pagetable (procs s pr)"
    and "uwritable (pmem s) pt (addr + of_int i) k" "n = i + int k"
  shows "wp (piperead_loop pr pi addr i n s) (\<lambda>r t.
    let m = min k (length (pipe_contents (pipes s pi))) in
    r = i + int m \<and> t = s\<lparr>pmem := pmem t, pipes := (pipes s)(pi := pipes t pi)\<rparr> \<and>
    pipe_inv (pipes t pi) \<and> pipe_contents (pipes t pi) = drop m (pipe_contents (pipes s pi)) \<and>
    uspace (pmem t) pt \<and> (\<forall>va. leaf_pte 2 (pmem t) pt va = leaf_pte 2 (pmem s) pt va) \<and>
    (\<forall>a<MAXVA. uread (pmem t) pt a =
      (if unat (addr + of_int i) \<le> unat a \<and> unat a < unat (addr + of_int i) + m
       then Some (pipe_contents (pipes s pi) ! (unat a - unat (addr + of_int i))) else uread (pmem s) pt a)))"
  using assms
proof (induction k arbitrary: i s)
  case 0
  then show ?case by (subst piperead_loop.simps) (auto simp: wp_simps)
next
  case (Suc k)
  let ?p = "pipes s pi" and ?a = "addr + of_int i"
  show ?case
  proof (cases "p_nread ?p = p_nwrite ?p")
    case True
    then have "pipe_contents ?p = []" by (simp add: pipe_empty_iff)
    then show ?thesis using True Suc.prems(1,2) by (subst piperead_loop.simps) (auto simp: wp_simps Suc.prems(5))
  next
    case False
    obtain c p' where g: "pipe_get ?p = (c, p')" by fastforce
    have ne: "pipe_contents ?p \<noteq> []" using False by (simp add: pipe_empty_iff)
    have p': "pipe_inv p'" "pipe_contents ?p = c # pipe_contents p'"
      using pipe_get_contents [OF Suc.prems(1) ne] by (simp_all add: g)
    let ?s1 = "pipe_upd pi (\<lambda>_. p') s"
    have w1: "uwritable (pmem s) pt ?a (unat (1 :: u64))"
      using uwritable_first [OF Suc.prems(4)] by simp
    from copyout_mapped [of ?s1, OF _ w1 [folded pipe_upd_fields(1) [of pi "\<lambda>_. p'" s]], of "\<lambda>_. c"] Suc.prems(2)
    obtain t1 where t1: "copyout pt ?a (\<lambda>_. c) 1 ?s1 = Ok 0 t1" "t1 = ?s1\<lparr>pmem := pmem t1\<rparr>" "uspace (pmem t1) pt"
      "\<forall>va. leaf_pte 2 (pmem t1) pt va = leaf_pte 2 (pmem s) pt va"
      "\<forall>a<MAXVA. uread (pmem t1) pt a = (if unat ?a \<le> unat a \<and> unat a < unat ?a + 1 then Some c else uread (pmem s) pt a)"
      by (auto simp: wp_iff)
    have f1: "pipes t1 = (pipes s)(pi := p')" "procs t1 = procs s"
      using arg_cong [OF t1(2), of pipes] arg_cong [OF t1(2), of procs] by simp_all
    have step: "piperead_loop pr pi addr i n s = piperead_loop pr pi addr (i + 1) n t1"
      using False Suc.prems(3,5) t1(1) by (subst piperead_loop.simps) (simp add: g)
    have u: "unat (?a + 1) = unat ?a + 1"
      using Suc.prems(4) unat_plus_small [of ?a 1] by (simp add: uwritable_def umapped_def MAXVA_small)
    have w: "uwritable (pmem t1) pt (?a + 1) k"
      using uwritable_rest [OF Suc.prems(4), of 1] uwritable_cong [of "pmem t1" pt "pmem s"] t1(4) by simp
    have a: "addr + of_int (i + 1) = ?a + 1" by simp
    define m where "m = min k (length (pipe_contents p'))"
    have pre: "pipe_inv (pipes t1 pi)" "pt = p_pagetable (procs t1 pr)" "uwritable (pmem t1) pt (addr + of_int (i + 1)) k"
      "n = (i + 1) + int k"
      using p'(1) Suc.prems(5) unfolding a by (simp_all add: f1 w) (simp add: Suc.prems(3))
    have "wp (piperead_loop pr pi addr (i + 1) n t1) (\<lambda>r t.
      r = i + 1 + int m \<and> t = t1\<lparr>pmem := pmem t, pipes := (pipes t1)(pi := pipes t pi)\<rparr> \<and>
      pipe_inv (pipes t pi) \<and> pipe_contents (pipes t pi) = drop m (pipe_contents p') \<and>
      uspace (pmem t) pt \<and> (\<forall>va. leaf_pte 2 (pmem t) pt va = leaf_pte 2 (pmem t1) pt va) \<and>
      (\<forall>a<MAXVA. uread (pmem t) pt a =
        (if unat (?a + 1) \<le> unat a \<and> unat a < unat (?a + 1) + m
         then Some (pipe_contents p' ! (unat a - unat (?a + 1))) else uread (pmem t1) pt a)))"
      using Suc.IH [OF pre(1) t1(3) pre(2-4)] by (simp only: a f1(1) fun_upd_same m_def Let_def)
    then obtain t where t: "piperead_loop pr pi addr (i + 1) n t1 = Ok (i + 1 + int m) t"
      "t = t1\<lparr>pmem := pmem t, pipes := (pipes t1)(pi := pipes t pi)\<rparr>"
      "pipe_inv (pipes t pi)" "pipe_contents (pipes t pi) = drop m (pipe_contents p')" "uspace (pmem t) pt"
      "\<forall>va. leaf_pte 2 (pmem t) pt va = leaf_pte 2 (pmem t1) pt va"
      "\<forall>a<MAXVA. uread (pmem t) pt a =
        (if unat (?a + 1) \<le> unat a \<and> unat a < unat (?a + 1) + m
         then Some (pipe_contents p' ! (unat a - unat (?a + 1))) else uread (pmem t1) pt a)"
      by (auto simp: wp_iff)
    have M: "min (Suc k) (length (pipe_contents ?p)) = Suc m" by (simp add: p'(2) m_def)
    have fr: "t = s\<lparr>pmem := pmem t, pipes := (pipes s)(pi := pipes t pi)\<rparr>"
      using trans [OF t(2) arg_cong [OF t1(2), of "\<lambda>x. x\<lparr>pmem := pmem t, pipes := (pipes t1)(pi := pipes t pi)\<rparr>"]]
      by (simp add: f1(1)) (simp add: pipe_upd_def)
    have rd: "uread (pmem t) pt a = (if unat ?a \<le> unat a \<and> unat a < unat ?a + Suc m
        then Some (pipe_contents ?p ! (unat a - unat ?a)) else uread (pmem s) pt a)" if "a < MAXVA" for a
      using t(7) [rule_format, OF that] t1(5) [rule_format, OF that] unfolding u p'(2)
      by (auto simp: nth_Cons' not_le)
    show ?thesis
      unfolding step t(1) M Let_def
      using fr rd t(3-6) t1(4) by (simp add: wp_simps p'(2))
  qed
qed

text \<open>A read from a pipe that has data, up to its end.\<close>

lemma piperead_eq:
  fixes s :: "'z kfile_scheme"
  assumes "curproc s = Some pr" "held s = {}" "pipe_contents (pipes s pi) \<noteq> [] \<or> \<not> p_writeopen (pipes s pi)"
    and "piperead_loop pr pi addr 0 n (s\<lparr>held := {LPipe pi}\<rparr>) = Ok i t" "held t = {LPipe pi}" "curproc t = curproc s"
  shows "piperead pi addr n s = Ok i (t\<lparr>held := {}, procs := woken (ChPipeW pi) (Some pr) (procs t)\<rparr>)"
  using assms by (auto simp: piperead_def myproc_def acquire_free wakeup_eq release_held pipe_empty_iff)

section \<open>A concrete state\<close>

text \<open>A process with one page of user memory at 0, no file open and every pipe empty.\<close>

definition demo_inode :: inode where
  "demo_inode = \<lparr>i_dev = 0, i_inum = 0, i_ref = 0, i_lock = initsleeplock, i_valid = False, i_type = 0,
    i_major = 0, i_minor = 0, i_nlink = 0, i_size = 0, i_addrs = (\<lambda>_. 0)\<rparr>"

definition demo_sb :: superblock where
  "demo_sb = \<lparr>sb_magic = 0x10203040, sb_size = 2000, sb_nblocks = 1953, sb_ninodes = 200, sb_nlog = 31,
    sb_logstart = 2, sb_inodestart = 33, sb_bmapstart = 46\<rparr>"

definition demo_files :: kfile where
  "demo_files = \<lparr>held = {}, pmem = demo_mem, freelist = 0, kend = 0x80022000,
    procs = (\<lambda>_. demo_proc), curproc = Some 0, nextpid = 2, initproc = Some 0,
    kernel_pagetable = 0, satp = 0, etext = 0x80008000, trampoline = 0x80007000, forkret_addr = 0x80001000,
    bufs = (\<lambda>_. \<lparr>b_valid = False, b_disk = False, b_dev = 0, b_blockno = 0, b_lock = initsleeplock,
      b_refcnt = 0, b_prev = 0, b_next = 0, b_data = (\<lambda>_. 0)\<rparr>),
    disk = (\<lambda>_ _. 0), writes = [],
    lg = \<lparr>l_start = 2, l_outstanding = 0, l_committing = False, l_dev = ROOTDEV, lh_n = 0, lh_block = (\<lambda>_. 0)\<rparr>,
    sb = demo_sb, itab = (\<lambda>_. demo_inode), printed = [],
    uart_stores = [], uart_rx = [], uart_idle = True, tx_busy = False,
    cons_buf = (\<lambda>_. 0), cons_r = 0, cons_w = 0, cons_e = 0, devsw_console = True, panicking = False, panicked = False,
    ftable = (\<lambda>_. \<lparr>f_type = FD_NONE, f_ref = 0, f_readable = False, f_writable = False, f_pipe = 0,
      f_ip = None, f_off = 0, f_major = 0\<rparr>),
    pipes = (\<lambda>_. \<lparr>p_data = (\<lambda>_. 0), p_nread = 0, p_nwrite = 0, p_readopen = True, p_writeopen = True\<rparr>)\<rparr>"

lemma demo_files_fields [simp]:
  "held demo_files = {}" "pmem demo_files = demo_mem" "procs demo_files = (\<lambda>_. demo_proc)" "curproc demo_files = Some 0"
  "p_pagetable demo_proc = 0x87000000" "p_killed demo_proc = 0"
  "p_readopen (pipes demo_files pi)" "p_writeopen (pipes demo_files pi)"
  "p_nread (pipes demo_files pi) = 0" "p_nwrite (pipes demo_files pi) = 0"
  by (simp_all add: demo_files_def demo_proc_def)

lemma demo_pipe [simp]: "pipe_inv (pipes demo_files pi)" "pipe_contents (pipes demo_files pi) = []"
  by (simp_all add: pipe_inv_def pipe_empty_iff ring_inv_def)

section \<open>Properties\<close>

text \<open>
  C12: the buffer of a pipe is a bounded first-in first-out queue: whatever the order in which
  bytes are stored (when it is not full) and taken (when it is not empty), what it held and what
  was stored is, in order, what was taken and what it holds; it never holds more than
  \<open>PIPESIZE\<close> bytes. The counters may wrap around.
\<close>

theorem pipe_stream:
  assumes "pipe_inv p" "pipe_fifo.runs ops p = (ins, outs, p')"
  shows "pipe_inv p' \<and> pipe_contents p @ ins = outs @ pipe_contents p' \<and> length (pipe_contents p') \<le> 512"
  using assms by (rule pipe_fifo.runs_stream)

lemma pipe_stream_witness:
  "let r = pipe_fifo.runs [Some 1, None, None, Some 2, Some 3, None] (pipes demo_files 0) in
    pipe_inv (snd (snd r)) \<and> fst r = fst (snd r) @ pipe_contents (snd (snd r))"
proof -
  obtain ins outs p' where
    r: "pipe_fifo.runs [Some 1, None, None, Some 2, Some 3, None] (pipes demo_files 0) = (ins, outs, p')"
    by (rule prod_cases3)
  from pipe_stream [OF demo_pipe(1) r] show ?thesis
    unfolding r by (simp only: Let_def fst_conv snd_conv demo_pipe append_Nil simp_thms)
qed

text \<open>
  C13: what a process writes to an empty pipe is what a read from it returns: \<open>pipewrite\<close> queues
  the bytes at \<open>a\<close>, and \<open>piperead\<close> then stores exactly these at \<open>b\<close>, leaves the pipe empty, and
  changes no other byte that the user sees.
\<close>

theorem pipe_roundtrip:
  fixes s :: "'z kfile_scheme"
  assumes "curproc s = Some pr" "held s = {}" "p_killed (procs s pr) = 0" "pt = p_pagetable (procs s pr)"
    and "p_readopen (pipes s pi)" "pipe_inv (pipes s pi)" "pipe_contents (pipes s pi) = []" "0 < k" "k \<le> 512"
    and "uspace (pmem s) pt" "umapped (pmem s) pt a k" "uwritable (pmem s) pt b k"
  shows "\<exists>t u. pipewrite pi a (int k) s = Ok (int k) t \<and> pipe_contents (pipes t pi) = ubytes (pmem s) pt a k \<and>
    piperead pi b (int k) t = Ok (int k) u \<and> pipe_contents (pipes u pi) = [] \<and>
    (\<forall>x<MAXVA. uread (pmem u) pt x =
      (if unat b \<le> unat x \<and> unat x < unat b + k then Some (ubytes (pmem s) pt a k ! (unat x - unat b))
       else uread (pmem s) pt x))"
proof -
  let ?xs = "ubytes (pmem s) pt a k"
  define t where "t = (pipe_upd pi (fold pipe_put ?xs) s)\<lparr>procs := woken (ChPipeR pi) (Some pr) (procs s)\<rparr>"
  have wf: "pt_wf 2 (pmem s) pt" using assms(10) by (simp add: uspace_def)
  have w: "pipewrite pi a (int k) s = Ok (int k) t"
    using pipewrite_eq [of s pr pi a k] assms wf by (simp add: t_def)
  have q: "pipe_inv (pipes t pi)" "pipe_contents (pipes t pi) = ?xs"
    using pipe_fifo.put_list [OF assms(6), of ?xs] assms(7,9) by (simp_all add: t_def)
  have ft: "curproc t = Some pr" "held t = {}" "pmem t = pmem s" "p_pagetable (procs t pr) = pt"
    using assms(1,2,4) by (simp_all add: t_def)
  let ?t = "t\<lparr>held := {LPipe pi}\<rparr>"
  have m: "min k (length (pipe_contents (pipes t pi))) = k" using q(2) by simp
  have pre: "pipe_inv (pipes ?t pi)" "uspace (pmem ?t) pt" "pt = p_pagetable (procs ?t pr)"
    "uwritable (pmem ?t) pt (b + of_int 0) k" "int k = 0 + int k"
    using q(1) ft(3,4) assms(10,12) by simp_all
  have W: "wp (piperead_loop pr pi b 0 (int k) ?t) (\<lambda>r u. r = int k \<and>
    u = ?t\<lparr>pmem := pmem u, pipes := (pipes t)(pi := pipes u pi)\<rparr> \<and> pipe_contents (pipes u pi) = [] \<and>
    (\<forall>x<MAXVA. uread (pmem u) pt x = (if unat b \<le> unat x \<and> unat x < unat b + k
       then Some (?xs ! (unat x - unat b)) else uread (pmem s) pt x)))"
    by (rule wp_mono [OF piperead_loop_spec [OF pre]])
      (use q(2) ft(3) in \<open>clarsimp simp: Let_def m simp del: pipe_upd_fields\<close>)
  obtain u where u: "piperead_loop pr pi b 0 (int k) ?t = Ok (int k) u"
    "u = ?t\<lparr>pmem := pmem u, pipes := (pipes t)(pi := pipes u pi)\<rparr>"
    "pipe_contents (pipes u pi) = []"
    "\<forall>x<MAXVA. uread (pmem u) pt x = (if unat b \<le> unat x \<and> unat x < unat b + k
       then Some (?xs ! (unat x - unat b)) else uread (pmem s) pt x)"
    using W unfolding wp_iff by blast
  have fu: "held u = {LPipe pi}" "curproc u = curproc t"
    using arg_cong [OF u(2), of held] arg_cong [OF u(2), of curproc] by simp_all
  have "pipe_contents (pipes t pi) \<noteq> []" using q(2) assms(8) by (metis ubytes_length length_0_conv less_irrefl)
  from piperead_eq [OF ft(1,2) disjI1 [OF this] u(1) fu] show ?thesis
    using w q(2) u(3,4) by (intro exI conjI) (assumption | simp)+
qed

lemma pipe_roundtrip_witness:
  "\<exists>t u. pipewrite 0 0 5 demo_files = Ok 5 t \<and> pipe_contents (pipes t 0) = ubytes demo_mem 0x87000000 0 5 \<and>
    piperead 0 100 5 t = Ok 5 u \<and> pipe_contents (pipes u 0) = []"
proof -
  have w: "uwritable demo_mem 0x87000000 100 5"
    using uwritable_rest [OF demo_writable [of 105], of 100] by simp
  have m: "umapped demo_mem 0x87000000 0 5"
    using demo_writable [of 5] by (simp add: uwritable_def)
  show ?thesis
    using pipe_roundtrip [of demo_files 0 "0x87000000" 0 5 0 100] w m demo_uspace by auto
qed

text \<open>
  C14: the ends of a pipe. Writing when no reader is left fails; reading an empty pipe whose
  writers are gone returns 0; reading an empty pipe that has a writer, and writing to a full one,
  puts the process to sleep on the pipe's channel without the pipe's lock, so that the other end
  can proceed and wake it.
\<close>

theorem pipe_ends:
  fixes s :: "'z kfile_scheme"
  assumes "curproc s = Some pr" "held s = {}" "p_killed (procs s pr) = 0" "0 < n" "pipe_inv (pipes s pi)"
  shows "(\<not> p_readopen (pipes s pi) \<longrightarrow> pipewrite pi addr n s = Ok (- 1) s) \<and>
    (pipe_contents (pipes s pi) = [] \<and> \<not> p_writeopen (pipes s pi) \<longrightarrow>
      (\<exists>t. piperead pi addr n s = Ok 0 t \<and> pmem t = pmem s \<and> pipes t = pipes s)) \<and>
    (pipe_contents (pipes s pi) = [] \<and> p_writeopen (pipes s pi) \<longrightarrow>
      (\<exists>t. piperead pi addr n s = Block t \<and> LPipe pi \<notin> held t \<and>
        p_state (procs t pr) = SLEEPING \<and> p_chan (procs t pr) = Some (ChPipeR pi))) \<and>
    (length (pipe_contents (pipes s pi)) = 512 \<and> p_readopen (pipes s pi) \<longrightarrow>
      (\<exists>t. pipewrite pi addr n s = Block t \<and> LPipe pi \<notin> held t \<and>
        p_state (procs t pr) = SLEEPING \<and> p_chan (procs t pr) = Some (ChPipeW pi)))"
proof (intro conjI impI)
  assume "\<not> p_readopen (pipes s pi)"
  then show "pipewrite pi addr n s = Ok (- 1) s"
    using assms(1-4)
    by (simp add: pipewrite_def myproc_def acquire_free)
      (subst pipewrite_loop.simps, simp add: release_held killed_eq held_upd_id)
next
  assume "pipe_contents (pipes s pi) = [] \<and> \<not> p_writeopen (pipes s pi)"
  then have e: "p_nread (pipes s pi) = p_nwrite (pipes s pi)" "\<not> p_writeopen (pipes s pi)"
    by (simp_all add: pipe_empty_iff)
  then have l: "piperead_loop pr pi addr 0 n (s\<lparr>held := {LPipe pi}\<rparr>) = Ok 0 (s\<lparr>held := {LPipe pi}\<rparr>)"
    by (subst piperead_loop.simps) simp
  show "\<exists>t. piperead pi addr n s = Ok 0 t \<and> pmem t = pmem s \<and> pipes t = pipes s"
    using piperead_eq [OF assms(1,2) disjI2 [OF e(2)] l] assms(1) by simp
next
  assume "pipe_contents (pipes s pi) = [] \<and> p_writeopen (pipes s pi)"
  then show "\<exists>t. piperead pi addr n s = Block t \<and> LPipe pi \<notin> held t \<and>
      p_state (procs t pr) = SLEEPING \<and> p_chan (procs t pr) = Some (ChPipeR pi)"
    using assms(1-3)
    by (simp add: piperead_def myproc_def acquire_free killed_eq sleep_eq pipe_empty_iff)
next
  assume "length (pipe_contents (pipes s pi)) = 512 \<and> p_readopen (pipes s pi)"
  then show "\<exists>t. pipewrite pi addr n s = Block t \<and> LPipe pi \<notin> held t \<and>
      p_state (procs t pr) = SLEEPING \<and> p_chan (procs t pr) = Some (ChPipeW pi)"
    using assms(1-4)
    by (simp add: pipewrite_def myproc_def acquire_free pipe_full_iff del: pipe_contents_def)
      (subst pipewrite_loop.simps, simp add: killed_eq wakeup_eq sleep_eq)
qed

lemma pipe_ends_witness:
  "\<exists>t. piperead 0 100 5 demo_files = Block t \<and> LPipe 0 \<notin> held t \<and>
    p_state (procs t 0) = SLEEPING \<and> p_chan (procs t 0) = Some (ChPipeR 0)"
  using pipe_ends [of demo_files 0 5 0 100] by simp

text \<open>
  C15: a \<open>piperead\<close> whose buffer is not user memory consumes a byte of the pipe before it finds
  out, and returns 0, as at the end of the file: the byte is lost and the error is not reported.
\<close>

theorem piperead_bad_address:
  fixes s :: "'z kfile_scheme"
  assumes "curproc s = Some pr" "held s = {}" "0 < n" "pipe_inv (pipes s pi)"
    and "pipe_contents (pipes s pi) = c # cs" "MAXVA \<le> PGROUNDDOWN addr"
  shows "\<exists>t. piperead pi addr n s = Ok 0 t \<and> pipe_contents (pipes t pi) = cs"
proof -
  let ?s = "s\<lparr>held := {LPipe pi}\<rparr>"
  obtain d p' where g: "pipe_get (pipes s pi) = (d, p')" by fastforce
  have p': "pipe_contents p' = cs"
    using pipe_get_contents [OF assms(4)] assms(5) by (simp add: g)
  have ne: "p_nread (pipes s pi) \<noteq> p_nwrite (pipes s pi)"
    using assms(5) pipe_empty_iff [of "pipes s pi"] by simp
  have "copyout pt addr (\<lambda>_. d) 1 v = Ok (- 1) v" for pt and v :: "'z kfile_scheme"
    using assms(6) by (subst copyout.simps) (simp add: Let_def)
  then have l: "piperead_loop pr pi addr 0 n ?s = Ok 0 (pipe_upd pi (\<lambda>_. p') ?s)"
    using assms(3) ne by (subst piperead_loop.simps) (simp add: g)
  have "piperead pi addr n s = Ok 0 ((pipe_upd pi (\<lambda>_. p') ?s)\<lparr>held := {},
      procs := woken (ChPipeW pi) (Some pr) (procs (pipe_upd pi (\<lambda>_. p') ?s))\<rparr>)"
    by (rule piperead_eq [OF assms(1,2) _ l]) (use assms(5,1) in simp_all)
  then show ?thesis using p' by simp
qed

lemma piperead_bad_address_witness:
  "\<exists>t. piperead 0 MAXVA 5 (pipe_upd 0 (pipe_put 7) demo_files) = Ok 0 t \<and> pipe_contents (pipes t 0) = []"
proof (rule piperead_bad_address)
  show "pipe_inv (pipes (pipe_upd 0 (pipe_put 7) demo_files) 0)"
    "pipe_contents (pipes (pipe_upd 0 (pipe_put 7) demo_files) 0) = [7]"
    using pipe_put_contents [of "pipes demo_files 0" 7] by simp_all
  show "MAXVA \<le> PGROUNDDOWN MAXVA" by (simp add: MAXVA_def PGROUNDDOWN_def PGSIZE_def)
qed simp_all

end
