(* ===== verification/Tty.thy ===== *)
theory Tty
  imports Console Pipeflow
begin

text \<open>
  What the console promises: \<open>consoleintr\<close> of \<^verbatim>\<open>kernel/console.c\<close> is a line editor over two
  sequences of characters, the input that is ready to be read and the line being edited.
\<close>

section \<open>The two halves of the input ring\<close>

lemma ring_contents_append:
  assumes "unat (w - r) + unat (e - w) \<le> N" "N < 2 ^ 32" "N dvd 2 ^ 32"
  shows "ring_contents N buf r e = ring_contents N buf r w @ ring_contents N buf w e"
    and "unat (e - r) = unat (w - r) + unat (e - w)"
proof -
  have d: "e - r = (w - r) + (e - w)" by simp
  show l: "unat (e - r) = unat (w - r) + unat (e - w)"
    unfolding d using assms(1,2) by (simp only: unat_word_ariths) simp
  have "w = r + of_nat (unat (w - r))" by simp
  then have m: "unat w mod N = (unat r + unat (w - r)) mod N"
    using unat_plus_dvd [OF assms(3), of r "unat (w - r)"] by simp
  have "ring_view N buf (unat w) k = ring_view N buf (unat r + unat (w - r)) k" for k
    by (rule ring_view_mod) (simp add: m)
  moreover have "ring_view N buf a (j + k) = ring_view N buf a j @ ring_view N buf (a + j) k" for a j k
    by (rule nth_equalityI) (auto simp: ring_view_def nth_append add.assoc)
  ultimately show "ring_contents N buf r e = ring_contents N buf r w @ ring_contents N buf w e"
    by (simp add: ring_contents_def l)
qed

definition cons_ready :: "'z kdev_scheme \<Rightarrow> u8 list" where
  "cons_ready s = ring_contents 128 (cons_buf s) (cons_r s) (cons_w s)"

definition cons_line :: "'z kdev_scheme \<Rightarrow> u8 list" where
  "cons_line s = ring_contents 128 (cons_buf s) (cons_w s) (cons_e s)"

definition cons_inv :: "'z kdev_scheme \<Rightarrow> bool" where
  "cons_inv s \<longleftrightarrow> length (cons_ready s) + length (cons_line s) \<le> 128 \<and> 10 \<notin> set (cons_line s)"

lemma cons_all:
  assumes "cons_inv s"
  shows "ring_contents 128 (cons_buf s) (cons_r s) (cons_e s) = cons_ready s @ cons_line s"
    "unat (cons_e s - cons_r s) = length (cons_ready s) + length (cons_line s)"
  using ring_contents_append(1) [of "cons_w s" "cons_r s" "cons_e s" 128 "cons_buf s"]
    ring_contents_append(2) [of "cons_w s" "cons_r s" "cons_e s" 128] assms
  by (simp_all add: cons_inv_def cons_ready_def cons_line_def)

lemma cons_index: "unat (x mod INPUT_BUF_SIZE) = unat x mod 128"
  by (simp add: INPUT_BUF_SIZE_def unat_mod)

definition cons_put :: "u8 \<Rightarrow> 'z kdev_scheme \<Rightarrow> 'z kdev_scheme" where
  "cons_put c s = s\<lparr>cons_buf := (cons_buf s)(unat (cons_e s mod INPUT_BUF_SIZE) := c), cons_e := cons_e s + 1\<rparr>"

lemma cons_put_view:
  assumes "cons_inv s" "length (cons_ready s) + length (cons_line s) < 128"
  shows "cons_ready (cons_put c s) = cons_ready s" "cons_line (cons_put c s) = cons_line s @ [c]"
proof -
  let ?b = "(cons_buf s)(unat (cons_e s) mod 128 := c)"
  have l: "cons_line (cons_put c s) = cons_line s @ [c]"
    using ring_put [of 128 "cons_e s" "cons_w s" "cons_buf s" c] assms(2)
    by (simp add: cons_line_def cons_put_def cons_index)
  have a: "ring_contents 128 ?b (cons_r s) (cons_e s + 1) = (cons_ready s @ cons_line s) @ [c]"
    using ring_put [of 128 "cons_e s" "cons_r s" "cons_buf s" c] assms cons_all [OF assms(1)] by simp
  have lr: "length (cons_ready (cons_put c s)) = length (cons_ready s)"
    by (simp add: cons_ready_def cons_put_def)
  have "ring_contents 128 ?b (cons_r s) (cons_e s + 1) = cons_ready (cons_put c s) @ cons_line (cons_put c s)"
    using ring_contents_append(1) [of "cons_w s" "cons_r s" "cons_e s + 1" 128 ?b] assms(2) lr l [THEN arg_cong, of length]
    by (simp add: cons_ready_def cons_line_def cons_put_def cons_index)
  then show "cons_ready (cons_put c s) = cons_ready s" "cons_line (cons_put c s) = cons_line s @ [c]"
    using a l by simp_all
qed

lemma unat_back:
  fixes e w :: u32
  assumes "e \<noteq> w"
  shows "\<exists>k. unat (e - w) = Suc k \<and> unat (e - 1 - w) = k"
proof -
  have n: "0 < unat (e - w)" using assms by (simp add: unat_gt_0)
  then have "1 \<le> e - w" by (simp add: word_le_nat_alt)
  then have "unat ((e - w) - 1) = unat (e - w) - 1" by (simp add: unat_sub)
  moreover have "e - 1 - w = (e - w) - 1" by (simp add: algebra_simps)
  ultimately show ?thesis using n by (metis Suc_pred' One_nat_def)
qed

lemma cons_erase_view:
  assumes "cons_e s \<noteq> cons_w s"
  shows "cons_line (s\<lparr>cons_e := cons_e s - 1\<rparr>) = butlast (cons_line s)"
    "cons_ready (s\<lparr>cons_e := cons_e s - 1\<rparr>) = cons_ready s"
proof -
  obtain k where k: "unat (cons_e s - cons_w s) = Suc k" "unat (cons_e s - 1 - cons_w s) = k"
    using unat_back [OF assms] by blast
  have "ring_view 128 b a k = butlast (ring_view 128 b a (Suc k))" for a and b :: bytes
    by (simp add: ring_view_def)
  then show "cons_line (s\<lparr>cons_e := cons_e s - 1\<rparr>) = butlast (cons_line s)"
    by (simp only: cons_line_def ring_contents_def kdev.simps k) (simp add: k)
qed (simp add: cons_ready_def)

lemma kill_line_eq:
  assumes "10 \<notin> set (ring_contents 128 buf w e)"
  shows "kill_line e w buf = (w, unat (e - w))"
  using assms
proof (induction e w buf rule: kill_line.induct)
  case (1 e w buf)
  show ?case
  proof (cases "e = w")
    case True
    then show ?thesis by (subst kill_line.simps) simp
  next
    case False
    then obtain k where k: "unat (e - w) = Suc k" "unat (e - 1 - w) = k"
      using unat_back by blast
    have "e - 1 = w + of_nat (unat (e - 1 - w))" by simp
    then have i: "unat (e - 1) mod 128 = (unat w + k) mod 128"
      using unat_plus_dvd [of 128 w "unat (e - 1 - w)"] k by simp
    have v: "ring_contents 128 buf w e = ring_contents 128 buf w (e - 1) @ [buf (unat (e - 1) mod 128)]"
      by (simp only: ring_contents_def k) (simp add: ring_view_def i)
    have nl: "buf (unat ((e - 1) mod INPUT_BUF_SIZE)) \<noteq> 10" "10 \<notin> set (ring_contents 128 buf w (e - 1))"
      using "1.prems" unfolding v by (auto simp: cons_index)
    with "1.IH" False have "kill_line (e - 1) w buf = (w, unat (e - 1 - w))" by blast
    then show ?thesis using False nl(1) k by (subst kill_line.simps) simp
  qed
qed

section \<open>Output\<close>

text \<open>What \<open>consputc\<close> and \<open>printf\<close> do: append to the stores to the serial port.\<close>

definition sent :: "'z kdev_scheme \<Rightarrow> 'z kdev_scheme \<Rightarrow> bool" where
  "sent s t \<longleftrightarrow> (\<exists>xs. t = s\<lparr>uart_stores := uart_stores s @ xs\<rparr>)"

lemma sent_refl: "sent s s"
  unfolding sent_def by (rule exI [of _ "[]"]) simp

lemma sent_trans: "sent s t \<Longrightarrow> sent t u \<Longrightarrow> sent s u"
proof -
  assume "sent s t" "sent t u"
  then obtain xs ys where "t = s\<lparr>uart_stores := uart_stores s @ xs\<rparr>" "u = t\<lparr>uart_stores := uart_stores t @ ys\<rparr>"
    unfolding sent_def by blast
  then have "u = s\<lparr>uart_stores := uart_stores s @ (xs @ ys)\<rparr>" by simp
  then show ?thesis unfolding sent_def by blast
qed

lemma sent_fields:
  assumes "sent s t"
  shows "held t = held s" "panicked t = panicked s" "panicking t = panicking s" "procs t = procs s" "curproc t = curproc s"
    "cons_ready t = cons_ready s" "cons_line t = cons_line s"
    "cons_w t = cons_w s" "cons_e t = cons_e s" "cons_r t = cons_r s" "cons_buf t = cons_buf s"
  using assms by (auto simp: sent_def cons_ready_def cons_line_def)

lemma consputc_sent: "\<not> panicked s \<Longrightarrow> wp (consputc c s) (\<lambda>_ t. sent s t)"
  by (auto simp: consputc_def uartputc_sync_def WriteReg_def sent_def wp_simps)

lemma foreach_sent:
  fixes s :: "'z kdev_scheme"
  assumes "\<And>i t. sent s t \<Longrightarrow> wp (f i t) (\<lambda>_ u. sent t u)"
  shows "wp (foreach f xs s) (\<lambda>_ t. sent s t)"
proof (rule wp_foreach [where I = "\<lambda>_ t. sent s t"])
  fix ys i zs t assume st: "sent s t"
  show "wp (f i t) (\<lambda>_ u. sent s u)"
    by (rule wp_mono [OF assms [OF st]]) (rule sent_trans [OF st])
qed (rule sent_refl)

lemma consputs_sent: "\<not> panicked s \<Longrightarrow> wp (consputs cs s) (\<lambda>_ t. sent s t)"
  unfolding consputs_def by (rule foreach_sent) (simp add: sent_fields consputc_sent)

lemma printf_sent:
  assumes "\<not> panicked s" "LPr \<notin> held s"
  shows "wp (printf fmt args s) (\<lambda>_ t. sent s t)"
proof (cases "panicking s")
  case True
  then show ?thesis
    using consputs_sent [OF assms(1), of "kformat fmt args"]
    by (auto simp: printf_def wp_simps sent_fields elim!: wp_mono)
next
  case False
  have p: "\<not> panicked (s\<lparr>held := insert LPr (held s)\<rparr>)" using assms(1) by simp
  have "sent s (t\<lparr>held := held s\<rparr>)" if "sent (s\<lparr>held := insert LPr (held s)\<rparr>) t" for t
    using that by (auto simp: sent_def)
  then show ?thesis
    using False assms(2)
    by (auto simp: printf_def wp_simps sent_fields intro!: wp_mono [OF consputs_sent [OF p]])
qed

lemma procdump_sent:
  assumes "\<not> panicked s" "LPr \<notin> held s"
  shows "wp (procdump s) (\<lambda>_ t. sent s t)"
proof -
  have one: "wp (procdump_one i t) (\<lambda>_ u. sent t u)" if st: "sent s t" for i t
  proof -
    have t: "\<not> panicked t" "LPr \<notin> held t" using assms by (simp_all add: sent_fields [OF st])
    have "wp (printf [10] [] u) (\<lambda>_ v. sent t v)" if u: "sent t u" for u
    proof -
      have "\<not> panicked u" "LPr \<notin> held u" using t by (simp_all add: sent_fields [OF u])
      then show ?thesis by (rule wp_mono [OF printf_sent]) (rule sent_trans [OF u])
    qed
    then show ?thesis
      unfolding procdump_one_def Let_def
      by (simp add: wp_simps sent_refl) (blast intro: wp_mono [OF printf_sent [OF t]])
  qed
  show ?thesis
    unfolding procdump_def wp_kbind
  proof (rule wp_mono [OF printf_sent [OF assms]])
    fix t assume t: "sent s t"
    show "wp (foreach procdump_one [0..<NPROC] t) (\<lambda>_ u. sent s u)"
      by (rule wp_mono [OF foreach_sent]) (use one sent_trans [OF t] in blast)+
  qed
qed

section \<open>The line editor\<close>

lemma ctrl_values [simp]:
  "ctrl CHR ''P'' = 16" "ctrl CHR ''U'' = 21" "ctrl CHR ''H'' = 8" "ctrl CHR ''D'' = 4"
  by (simp_all add: ctrl_def)

text \<open>
  What a character does to the input: control-P nothing, control-U drops the line being edited,
  backspace and delete its last character, any other is added to it when the 128 places are not
  all taken, a carriage return as a newline; a newline, a control-D and the 128th character
  make the line ready.
\<close>

definition tty_step :: "u8 \<Rightarrow> u8 list \<times> u8 list \<Rightarrow> u8 list \<times> u8 list" where
  "tty_step b q =
    (case q of (ready, line) \<Rightarrow>
      if b = 16 then (ready, line)
      else if b = 21 then (ready, [])
      else if b = 8 \<or> b = 127 then (ready, butlast line)
      else if b = 0 \<or> 128 \<le> length ready + length line then (ready, line)
      else
        let c = (if b = 13 then 10 else b); line = line @ [c]
        in if c = 10 \<or> c = 4 \<or> length ready + length line = 128 then (ready @ line, []) else (ready, line))"

definition cons_woken :: "'z kprocs_scheme \<Rightarrow> bool" where
  "cons_woken s \<longleftrightarrow> (\<forall>i<NPROC. curproc s \<noteq> Some i \<longrightarrow>
    \<not> (p_state (procs s i) = SLEEPING \<and> p_chan (procs s i) = Some ChCons))"

lemma uint_byte_eq:
  "uint (b :: u8) = 0 \<longleftrightarrow> b = 0" "uint b = 4 \<longleftrightarrow> b = 4" "uint b = 8 \<longleftrightarrow> b = 8" "uint b = 10 \<longleftrightarrow> b = 10"
  "uint b = 13 \<longleftrightarrow> b = 13" "uint b = 16 \<longleftrightarrow> b = 16" "uint b = 21 \<longleftrightarrow> b = 21" "uint b = 127 \<longleftrightarrow> b = 127"
  by (simp_all add: word_uint_eq_iff)

lemma foreach_backspace_sent:
  "\<not> panicked s \<Longrightarrow> wp (foreach (\<lambda>_. consputc BACKSPACE) xs s) (\<lambda>_ t. sent s t)"
  by (rule foreach_sent) (simp add: sent_fields consputc_sent)

text \<open>A typed character that is stored.\<close>

lemma tty_store:
  fixes s :: "'z kdev_scheme"
  assumes "cons_inv s" "length (cons_ready s) + length (cons_line s) < 128" "\<And>i. LProc i \<notin> held s"
    and "t = cons_put b s"
  shows "wp (if uint b = 10 \<or> uint b = 4 \<or> cons_e t - cons_r t = INPUT_BUF_SIZE
      then wakeup ChCons (t\<lparr>cons_w := cons_e t\<rparr>) else Ok () t)
    (\<lambda>_ u. held u = held s \<and> cons_inv u \<and>
      (if b = 10 \<or> b = 4 \<or> length (cons_ready s) + length (cons_line s @ [b]) = 128
       then cons_ready u = cons_ready s @ cons_line s @ [b] \<and> cons_line u = [] \<and> cons_woken u
       else cons_ready u = cons_ready s \<and> cons_line u = cons_line s @ [b]))"
proof -
  have v: "cons_ready t = cons_ready s" "cons_line t = cons_line s @ [b]"
    using cons_put_view [OF assms(1,2)] by (simp_all add: assms(4))
  have h: "held t = held s" by (simp add: assms(4) cons_put_def)
  have f: "cons_e t - cons_r t = INPUT_BUF_SIZE \<longleftrightarrow> length (cons_ready s) + length (cons_line s @ [b]) = 128"
  proof -
    have "unat (cons_e t - cons_r t) = length (cons_ready t) + length (cons_line t)"
      using ring_contents_append(2) [of "cons_w t" "cons_r t" "cons_e t" 128] assms(2)
        arg_cong [OF v(1), of length] arg_cong [OF v(2), of length] v by (simp add: cons_ready_def cons_line_def)
    then show ?thesis by (simp add: v INPUT_BUF_SIZE_def word_unat_eq_iff)
  qed
  have b: "uint b = 10 \<longleftrightarrow> b = 10" "uint b = 4 \<longleftrightarrow> b = 4" by (simp_all add: uint_byte_eq)
  show ?thesis
  proof (cases "b = 10 \<or> b = 4 \<or> length (cons_ready s) + length (cons_line s @ [b]) = 128")
    case True
    let ?u = "t\<lparr>cons_w := cons_e t, procs := woken ChCons (curproc t) (procs t)\<rparr>"
    have w: "wakeup ChCons (t\<lparr>cons_w := cons_e t\<rparr>) = Ok () ?u"
      using assms(3) by (subst wakeup_eq) (simp_all add: h)
    have "ring_contents 128 (cons_buf t) (cons_r t) (cons_e t) = cons_ready t @ cons_line t"
      using ring_contents_append(1) [of "cons_w t" "cons_r t" "cons_e t" 128 "cons_buf t"] assms(2)
        arg_cong [OF v(1), of length] arg_cong [OF v(2), of length] by (simp add: cons_ready_def cons_line_def)
    moreover have "cons_ready ?u = ring_contents 128 (cons_buf t) (cons_r t) (cons_e t)" by (simp add: cons_ready_def)
    ultimately have r: "cons_ready ?u = cons_ready s @ cons_line s @ [b]" by (simp only: v)
    have l: "cons_line ?u = []" by (simp add: cons_line_def ring_empty)
    have "cons_woken ?u" by (simp add: cons_woken_def woken_def)
    moreover have "cons_inv ?u" using assms(2) unfolding cons_inv_def r l by simp
    ultimately show ?thesis
      unfolding f b using True by (simp only: if_True w wp_basic r l) (simp add: h)
  next
    case False
    then show ?thesis
      unfolding f b using assms(1,2) by (auto simp: wp_simps h v cons_inv_def)
  qed
qed

text \<open>What one character leaves behind, and the branches of the \<open>switch\<close>, from a state that holds the lock.\<close>

definition tty_done :: "u8 \<Rightarrow> 'z kdev_scheme \<Rightarrow> 'z kdev_scheme \<Rightarrow> bool" where
  "tty_done b s t \<longleftrightarrow> held t = held s \<and> cons_inv t \<and> (cons_ready t, cons_line t) = tty_step b (cons_ready s, cons_line s) \<and>
    (cons_ready t \<noteq> cons_ready s \<longrightarrow> cons_woken t)"

lemma tty_quiet:
  assumes "cons_inv s" "sent u t" "held u = held s" "cons_ready u = cons_ready s"
    and "tty_step b (cons_ready s, cons_line s) = (cons_ready s, cons_line u)"
    and "length (cons_line u) \<le> length (cons_line s)" "set (cons_line u) \<subseteq> set (cons_line s)"
  shows "tty_done b s t"
  using assms by (auto simp: tty_done_def sent_fields cons_inv_def)

lemma tty_kill:
  assumes "\<not> panicked s" "cons_inv s"
  shows "wp (case kill_line (cons_e s) (cons_w s) (cons_buf s) of
      (e, n) \<Rightarrow> foreach (\<lambda>_. consputc BACKSPACE) [0..<n] (s\<lparr>cons_e := e\<rparr>)) (\<lambda>_ t. tty_done 21 s t)"
proof -
  have "kill_line (cons_e s) (cons_w s) (cons_buf s) = (cons_w s, unat (cons_e s - cons_w s))"
    using kill_line_eq [of "cons_buf s" "cons_w s" "cons_e s"] assms(2) by (simp add: cons_inv_def cons_line_def)
  moreover have "cons_line (s\<lparr>cons_e := cons_w s\<rparr>) = []" "cons_ready (s\<lparr>cons_e := cons_w s\<rparr>) = cons_ready s"
    by (simp_all add: cons_line_def cons_ready_def ring_empty)
  ultimately show ?thesis
    using assms by (auto simp: tty_step_def intro!: wp_mono [OF foreach_backspace_sent] tty_quiet)
qed

lemma tty_erase:
  assumes b: "b = 8 \<or> b = 127" and s: "\<not> panicked s" "cons_inv s"
  shows "wp (if cons_e s \<noteq> cons_w s then consputc BACKSPACE (s\<lparr>cons_e := cons_e s - 1\<rparr>) else Ok () s) (\<lambda>_ t. tty_done b s t)"
proof (cases "cons_e s = cons_w s")
  case True
  then have "cons_line s = []" by (simp add: cons_line_def ring_empty)
  then show ?thesis using b True s by (auto simp: tty_step_def wp_simps intro!: tty_quiet [OF _ sent_refl])
next
  case False
  then show ?thesis
    using b s cons_erase_view [of s]
    by (auto simp: tty_step_def dest: in_set_butlastD intro!: wp_mono [OF consputc_sent] tty_quiet)
qed

lemma tty_char:
  assumes b: "b \<notin> {16, 21, 8, 127}" and s: "\<not> panicked s" "cons_inv s" "held s = {LCons}"
  shows "wp (if uint b \<noteq> 0 \<and> cons_e s - cons_r s < INPUT_BUF_SIZE then
      let c = (if uint b = 13 then 10 else uint b) in
      kbind (consputc c s) (\<lambda>_ s.
      let s = s\<lparr>cons_buf := (cons_buf s)(unat (cons_e s mod INPUT_BUF_SIZE) := of_int c)\<rparr>;
          s = s\<lparr>cons_e := cons_e s + 1\<rparr>
      in if c = 10 \<or> c = 4 \<or> cons_e s - cons_r s = INPUT_BUF_SIZE
         then wakeup ChCons (s\<lparr>cons_w := cons_e s\<rparr>)
         else Ok () s)
    else Ok () s) (\<lambda>_ t. tty_done b s t)"
proof -
  have full: "cons_e s - cons_r s < INPUT_BUF_SIZE \<longleftrightarrow> length (cons_ready s) + length (cons_line s) < 128"
    using cons_all(2) [OF s(2)] by (simp add: INPUT_BUF_SIZE_def word_less_nat_alt)
  show ?thesis
  proof (cases "b = 0 \<or> 128 \<le> length (cons_ready s) + length (cons_line s)")
    case True
    then have "tty_done b s s" using b by (intro tty_quiet [OF s(2) sent_refl]) (auto simp: tty_step_def)
    then show ?thesis using True full by (auto simp: uint_byte_eq wp_simps)
  next
    case False
    define c where "c = (if b = 13 then 10 else b)"
    have c: "(if uint b = 13 then 10 else uint b) = uint c" by (simp add: c_def uint_byte_eq)
    have st: "wp (if uint c = 10 \<or> uint c = 4 \<or> cons_e v - cons_r v = INPUT_BUF_SIZE
          then wakeup ChCons (v\<lparr>cons_w := cons_e v\<rparr>) else Ok () v) (\<lambda>_ t. tty_done b s t)"
      if u: "sent s u" and v: "v = cons_put c u" for u v
    proof -
      have lu: "cons_inv u" "length (cons_ready u) + length (cons_line u) < 128" "LProc i \<notin> held u" for i
        using False s by (auto simp: sent_fields [OF u] cons_inv_def)
      have q: "tty_step b (cons_ready s, cons_line s) = (if c = 10 \<or> c = 4 \<or> length (cons_ready s) + length (cons_line s @ [c]) = 128
          then (cons_ready s @ cons_line s @ [c], []) else (cons_ready s, cons_line s @ [c]))"
        using b False by (simp add: tty_step_def c_def Let_def)
      show ?thesis
        by (rule wp_mono [OF tty_store [OF lu v]]) (auto simp: tty_done_def q sent_fields [OF u] s split: if_splits)
    qed
    have "wp (consputc (uint c) s) (\<lambda>_ u. wp (let s = u\<lparr>cons_buf := (cons_buf u)(unat (cons_e u mod INPUT_BUF_SIZE) := of_int (uint c))\<rparr>;
         s = s\<lparr>cons_e := cons_e s + 1\<rparr>
       in if uint c = 10 \<or> uint c = 4 \<or> cons_e s - cons_r s = INPUT_BUF_SIZE
        then wakeup ChCons (s\<lparr>cons_w := cons_e s\<rparr>)
        else Ok () s) (\<lambda>_ t. tty_done b s t))"
      by (rule wp_mono [OF consputc_sent [OF s(1)]], unfold Let_def, rule st) (simp_all add: cons_put_def)
    moreover have "(uint b \<noteq> 0 \<and> cons_e s - cons_r s < INPUT_BUF_SIZE) = True"
      using False full by (simp add: uint_byte_eq)
    ultimately show ?thesis by (simp only: if_True c wp_kbind Let_def)
  qed
qed

text \<open>
  C16: the input side of the console is a line editor. For every character that arrives,
  \<open>consoleintr\<close> returns, does to the input that is ready and to the line being edited what
  \<open>tty_step\<close> says, keeps the ring within its 128 places, and when it makes a line ready leaves
  no process asleep on the console's channel.
\<close>

theorem consoleintr_tty:
  fixes s :: "'z kdev_scheme"
  assumes "held s = {}" "\<not> panicked s" "cons_inv s"
  shows "\<exists>t. consoleintr (uint b) s = Ok () t \<and> cons_inv t \<and>
    (cons_ready t, cons_line t) = tty_step b (cons_ready s, cons_line s) \<and>
    (cons_ready t \<noteq> cons_ready s \<longrightarrow> cons_woken t)"
proof -
  let ?s = "s\<lparr>held := {LCons}\<rparr>"
  have fs: "held ?s = {LCons}" "\<not> panicked ?s" "cons_inv ?s"
    using assms by (simp_all add: cons_inv_def cons_ready_def cons_line_def)
  have "\<exists>t. consoleintr (uint b) s = Ok () (t\<lparr>held := {}\<rparr>) \<and> tty_done b ?s t"
  proof -
    have rel: "\<exists>t. kbind m (\<lambda>_ s. release LCons s) = Ok () (t\<lparr>held := {}\<rparr>) \<and> tty_done b ?s t"
      if m: "wp m (\<lambda>_ t. tty_done b ?s t)" for m :: "(unit, 'z kdev_scheme) kres"
    proof -
      obtain u t where t: "m = Ok u t" "tty_done b ?s t" using m unfolding wp_iff by blast
      then have "release LCons t = Ok () (t\<lparr>held := {}\<rparr>)" by (simp add: tty_done_def release_held)
      then show ?thesis using t by auto
    qed
    consider "b = 16" | "b = 21" | "b = 8 \<or> b = 127" | "b \<notin> {16, 21, 8, 127}" by blast
    then show ?thesis
    proof cases
      case 1
      then have "wp (procdump ?s) (\<lambda>_ t. tty_done b ?s t)"
        using fs by (auto simp: tty_step_def intro!: wp_mono [OF procdump_sent] tty_quiet)
      from rel [OF this] show ?thesis using 1 assms(1) by (simp add: consoleintr_def acquire_free)
    next
      case 2
      from rel [OF tty_kill [OF fs(2,3), folded 2]] show ?thesis using 2 assms(1) by (simp add: consoleintr_def acquire_free)
    next
      case 3
      from rel [OF tty_erase [OF 3 fs(2,3)]] show ?thesis
        using 3 assms(1) by (auto simp: consoleintr_def acquire_free)
    next
      case 4
      then have "uint b \<noteq> 16" "uint b \<noteq> 21" "uint b \<noteq> 8" "uint b \<noteq> 127" by (simp_all add: uint_byte_eq)
      then show ?thesis
        using rel [OF tty_char [OF 4 fs(2,3,1)]] assms(1)
        by (simp only: consoleintr_def acquire_free kbind_simps ctrl_values if_False empty_iff not_False_eq_True simp_thms)
    qed
  qed
  then obtain t where "consoleintr (uint b) s = Ok () (t\<lparr>held := {}\<rparr>)" "tty_done b ?s t" by blast
  then show ?thesis by (simp add: tty_done_def cons_inv_def cons_ready_def cons_line_def cons_woken_def)
qed

lemma consoleintr_tty_witness:
  "\<exists>t. consoleintr (uint (13 :: u8)) demo_files = Ok () t \<and> cons_ready t = [10] \<and> cons_line t = [] \<and> cons_woken t"
proof -
  have d: "cons_ready demo_files = []" "cons_line demo_files = []" "\<not> panicked demo_files"
    by (simp_all add: cons_ready_def cons_line_def ring_empty demo_files_def)
  then have "cons_inv demo_files" by (simp add: cons_inv_def)
  from consoleintr_tty [OF demo_files_fields(1) d(3) this, of 13] show ?thesis
    by (auto simp: d tty_step_def)
qed

end
