(* ===== verification/Numfmt.thy ===== *)
theory Numfmt
  imports Uart
begin

text \<open>
  What \<open>printint\<close> of \<^verbatim>\<open>kernel/printf.c\<close> prints: the numeral of the number, and never more than its
  20-byte buffer holds.
\<close>

section \<open>Numerals\<close>

text \<open>The digits of \<open>n\<close> in the base \<open>b\<close>, most significant first.\<close>

function numeral_of :: "nat \<Rightarrow> nat \<Rightarrow> u8 list" where
  "numeral_of b n = (if b < 2 \<or> n < b then [digits n] else numeral_of b (n div b) @ [digits (n mod b)])"
  by pat_completeness auto
termination
  by (relation "measure snd") auto

declare numeral_of.simps [simp del]

text \<open>The number that a list of digits denotes, given the values of the digits.\<close>

definition digit_val :: "u8 \<Rightarrow> nat" where
  "digit_val c = (if c < 58 then unat c - 48 else unat c - 87)"

definition numeral_val :: "nat \<Rightarrow> u8 list \<Rightarrow> nat" where
  "numeral_val b = foldl (\<lambda>n c. n * b + digit_val c) 0"

lemma digit_val_digits: "d < 16 \<Longrightarrow> digit_val (digits d) = d"
proof -
  assume "d < 16"
  then have "d \<in> set [0..<16]" by simp
  moreover have "\<forall>d\<in>set [0..<16]. digit_val (digits d) = d"
    by (simp add: digit_val_def digits_def upt_rec)
  ultimately show ?thesis by blast
qed

lemma numeral_val_of:
  assumes "2 \<le> b" "b \<le> 16"
  shows "numeral_val b (numeral_of b n) = n"
proof (induction n rule: less_induct)
  case (less n)
  show ?case
  proof (cases "n < b")
    case True
    then show ?thesis
      using assms by (subst numeral_of.simps) (simp add: numeral_val_def digit_val_digits)
  next
    case False
    have "n mod b < b" using assms(1) by simp
    then have d: "digit_val (digits (n mod b)) = n mod b"
      using assms(2) by (intro digit_val_digits) linarith
    have "numeral_val b (numeral_of b (n div b)) = n div b"
      using False assms(1) by (intro less) auto
    then show ?thesis
      using False assms(1) d by (subst numeral_of.simps) (simp add: numeral_val_def)
  qed
qed

lemma numeral_of_length:
  assumes "2 \<le> b" "n < b ^ k" "0 < k"
  shows "length (numeral_of b n) \<le> k"
  using assms(2,3)
proof (induction k arbitrary: n)
  case (Suc k)
  show ?case
  proof (cases "n < b")
    case True
    then show ?thesis by (subst numeral_of.simps) simp
  next
    case False
    have k: "0 < k" using False Suc.prems(1) by (cases k) auto
    have "n div b < b ^ k"
      using Suc.prems(1) assms(1) by (simp add: less_mult_imp_div_less mult.commute)
    from Suc.IH [OF this k] show ?thesis
      using False assms(1) by (subst numeral_of.simps) simp
  qed
qed simp

section \<open>The loop of \<open>printint\<close>\<close>

lemma digit_loop_numeral:
  assumes "1 < base"
  shows "rev (digit_loop x base) = numeral_of (unat base) (unat x)"
  using assms
proof (induction x base rule: digit_loop.induct)
  case (1 x base)
  have b: "2 \<le> unat base" using "1.prems" by (simp add: word_less_nat_alt)
  have z: "x div base = 0 \<longleftrightarrow> unat x < unat base"
    using b by (simp add: word_unat_eq_iff unat_div div_eq_0_iff)
  show ?case
  proof (cases "x div base = 0")
    case True
    then show ?thesis
      using z b by (subst digit_loop.simps, subst numeral_of.simps) (simp add: unat_mod)
  next
    case False
    then have "rev (digit_loop (x div base) base) = numeral_of (unat base) (unat (x div base))"
      using "1.IH" "1.prems" by blast
    then show ?thesis
      using False z b "1.prems"
      by (subst digit_loop.simps, subst numeral_of.simps) (simp add: unat_mod unat_div)
  qed
qed

lemma uint_of_int_small: "0 \<le> k \<Longrightarrow> k < 2 ^ 64 \<Longrightarrow> uint (of_int k :: u64) = k"
  by (simp add: uint_word_of_int take_bit_int_eq_self)

lemma unat_neg:
  fixes x :: u64
  assumes "sint x < 0"
  shows "unat (- x) = nat (- sint x)" "nat (- sint x) \<le> 2 ^ 63"
proof -
  have l: "- (2 ^ 63) \<le> sint x" using sint_greater_eq [of x] by simp
  have "uint (of_int (- sint x) :: u64) = - sint x"
    by (rule uint_of_int_small) (use assms l in simp_all)
  moreover have "of_int (- sint x) = - x" by simp
  ultimately show "unat (- x) = nat (- sint x)" by (metis unat_eq_nat_uint)
  show "nat (- sint x) \<le> 2 ^ 63" using l by simp
qed

lemma unat_nonneg:
  fixes x :: u64
  assumes "0 \<le> sint x"
  shows "unat x = nat (sint x)"
proof -
  have l: "sint x < 2 ^ 63" using sint_less [of x] by simp
  have "uint (of_int (sint x) :: u64) = sint x"
    by (rule uint_of_int_small) (use assms l in simp_all)
  moreover have "of_int (sint x) = x" by simp
  ultimately show ?thesis by (metis unat_eq_nat_uint)
qed

lemma unat_magnitude:
  fixes xx :: u64
  defines "v \<equiv> \<lambda>sign. if sign then sint xx else uint xx"
  shows "unat (if v sign < 0 then - xx else xx) = nat \<bar>v sign\<bar>"
proof (cases sign)
  case True
  then show ?thesis
    using unat_neg(1) [of xx] unat_nonneg [of xx] by (auto simp: v_def)
next
  case False
  then have "v sign = uint xx" by (simp add: v_def)
  moreover have "0 \<le> uint xx" by simp
  ultimately have "\<not> v sign < 0" "\<bar>v sign\<bar> = uint xx" by simp_all
  then show ?thesis by (simp only: if_False unat_eq_nat_uint)
qed

text \<open>
  C17: \<open>printint\<close>, as \<open>%d\<close>, \<open>%u\<close> and \<open>%x\<close> use it, prints the numeral of its argument with a minus
  sign if it is negative, from which the number can be read back, and writes at most the 20 bytes
  of its buffer, for every 64-bit argument, the least one included.
\<close>

theorem printint_numeral:
  assumes "base = 10 \<or> base = 16"
  shows "let v = (if sign then sint xx else uint xx) in
    printint xx base sign = (if v < 0 then [45] else []) @ numeral_of (unat base) (nat \<bar>v\<bar>) \<and>
    numeral_val (unat base) (numeral_of (unat base) (nat \<bar>v\<bar>)) = nat \<bar>v\<bar> \<and>
    length (printint xx base sign) \<le> 20"
proof -
  define v where "v = (if sign then sint xx else uint xx)"
  define x where "x = (if v < 0 then - xx else xx)"
  have b: "1 < base" "2 \<le> unat base" "unat base \<le> 16" "10 \<le> unat base" using assms by auto
  have neg: "sign \<and> sint xx < 0 \<longleftrightarrow> v < 0" by (simp add: v_def)
  have m: "ch CHR ''-'' = 45" by simp
  have ux: "unat x = nat \<bar>v\<bar>" unfolding x_def v_def by (rule unat_magnitude)
  have p: "printint xx base sign = (if v < 0 then [45] else []) @ numeral_of (unat base) (nat \<bar>v\<bar>)"
    unfolding printint_def printint_buf_def Let_def neg m x_def [symmetric]
    using digit_loop_numeral [OF b(1), of x, unfolded ux] by (cases "v < 0") simp_all
  have "length (numeral_of (unat base) (nat \<bar>v\<bar>)) \<le> (if v < 0 then 19 else 20)"
  proof (cases "v < 0")
    case True
    then have "nat \<bar>v\<bar> \<le> 2 ^ 63" using unat_neg(2) [of xx] by (simp add: v_def split: if_splits)
    also have "\<dots> < 10 ^ 19" by simp
    also have "\<dots> \<le> unat base ^ 19" by (rule power_mono [OF b(4)]) simp
    finally show ?thesis using True numeral_of_length [OF b(2), of _ 19] by simp
  next
    case False
    have "nat \<bar>v\<bar> < 2 ^ 64" using unat_lt2p64 [of x] unfolding ux .
    also have "\<dots> < 10 ^ 20" by simp
    also have "\<dots> \<le> unat base ^ 20" by (rule power_mono [OF b(4)]) simp
    finally show ?thesis using False numeral_of_length [OF b(2), of _ 20] by simp
  qed
  then show ?thesis
    using p numeral_val_of [OF b(2,3)] unfolding Let_def v_def [symmetric] by (simp split: if_splits)
qed

lemma printint_numeral_witness:
  "printint 0x8000000000000000 10 True = 45 # numeral_of 10 9223372036854775808"
  using printint_numeral [of 10 True "0x8000000000000000"] by (simp add: Let_def)

end
