(* ===== verification/Fsdata.thy ===== *)
theory Fsdata
  imports Fs
begin

text \<open>
  The data formats of \<^verbatim>\<open>kernel/fs.c\<close>: on-disk inodes, and the elements of a path.
\<close>

section \<open>On-disk inodes\<close>

lemma put_addrs_field:
  "k < n \<Longrightarrow> get32 (put_addrs d off a n) (off + 12 + 4 * k) = a k"
  "off' + 4 \<le> off + 12 \<Longrightarrow> get32 (put_addrs d off a n) off' = get32 d off'"
  "off' + 2 \<le> off + 12 \<Longrightarrow> get16 (put_addrs d off a n) off' = get16 d off'"
  "i < off + 12 \<or> off + 12 + 4 * n \<le> i \<Longrightarrow> put_addrs d off a n i = d i"
proof (induction n)
  case 0
  { case 1 then show ?case by simp next case 2 show ?case by simp next case 3 show ?case by simp next case 4 show ?case by simp }
next
  case (Suc n)
  { case 1 then show ?case by (cases "k = n") (simp_all add: byte_simps Suc)
  next case 2 then show ?case by (simp add: byte_simps Suc)
  next case 3 then show ?case by (simp add: byte_simps Suc)
  next case 4 then show ?case using Suc(4) by (auto simp: put32_def splice_def) }
qed

lemma put_dinode_outside: "i < off \<or> off + 64 \<le> i \<Longrightarrow> put_dinode d off ino i = d i"
  by (auto simp: put_dinode_def Let_def put_addrs_field NDIRECT_def byte_simps)

lemma put_dinode_fields:
  "get16 (put_dinode d off ino) off = i_type ino"
  "get16 (put_dinode d off ino) (off + 2) = i_major ino"
  "get16 (put_dinode d off ino) (off + 4) = i_minor ino"
  "get16 (put_dinode d off ino) (off + 6) = i_nlink ino"
  "get32 (put_dinode d off ino) (off + 8) = i_size ino"
  "k \<le> NDIRECT \<Longrightarrow> get32 (put_dinode d off ino) (off + 12 + 4 * k) = i_addrs ino k"
  by (simp_all add: put_dinode_def Let_def put_addrs_field byte_simps less_Suc_eq_le del: put_addrs.simps)

lemma get_dinode_other: "off + 64 \<le> o' \<or> o' + 64 \<le> off \<Longrightarrow> get_dinode (put_dinode d o' ino) off j = get_dinode d off j"
proof -
  assume o: "off + 64 \<le> o' \<or> o' + 64 \<le> off"
  have s: "put_dinode d o' ino i = d i" if "off \<le> i" "i < off + 64" for i
    by (rule put_dinode_outside) (use o that in auto)
  have "get16 (put_dinode d o' ino) a = get16 d a" if "off \<le> a" "a + 2 \<le> off + 64" for a
    by (rule get16_cong, rule s) (use that in auto)
  moreover have "get32 (put_dinode d o' ino) a = get32 d a" if "off \<le> a" "a + 4 \<le> off + 64" for a
    by (rule get32_cong, rule s) (use that in auto)
  ultimately show ?thesis by (simp add: get_dinode_def NDIRECT_def cong: if_cong)
qed

lemma dino_off_block: "dino_off a + 64 \<le> BSIZE"
proof -
  have "unat a mod 16 < 16" by simp
  then show ?thesis by (simp add: dino_off_def IPB_def BSIZE_def)
qed

lemma dino_off_disjoint:
  assumes "a \<noteq> b" "IBLOCK a sp = IBLOCK b sp"
  shows "dino_off a + 64 \<le> dino_off b \<or> dino_off b + 64 \<le> dino_off a"
proof -
  have d: "a div 16 = b div 16" using assms(2) by (simp add: IBLOCK_def IPB_def BSIZE_def)
  have "unat a div 16 = unat b div 16" using arg_cong [OF d, of unat] by (simp add: unat_div)
  moreover have "unat a \<noteq> unat b" using assms(1) by (simp add: word_unat_eq_iff)
  ultimately have "unat a mod 16 \<noteq> unat b mod 16" by (metis mult_div_mod_eq)
  then have "unat a mod 16 < unat b mod 16 \<or> unat b mod 16 < unat a mod 16" by linarith
  then show ?thesis unfolding dino_off_def IPB_def BSIZE_def by auto
qed

text \<open>
  The bytes of an inode in its block are read back as the inode, every
  field and every address, and the other inodes that share the block stay as they are, as do
  all the bytes of the block outside the 64 of the inode.
\<close>

theorem dinode_roundtrip:
  assumes "b \<noteq> a" "IBLOCK b sp = IBLOCK a sp" "\<forall>k>NDIRECT. i_addrs j k = i_addrs ino k"
  shows "get_dinode (put_dinode d (dino_off a) ino) (dino_off a) j =
      j\<lparr>i_type := i_type ino, i_major := i_major ino, i_minor := i_minor ino, i_nlink := i_nlink ino,
        i_size := i_size ino, i_addrs := i_addrs ino\<rparr> \<and>
    get_dinode (put_dinode d (dino_off a) ino) (dino_off b) j = get_dinode d (dino_off b) j \<and>
    (\<forall>i. i < dino_off a \<or> dino_off a + 64 \<le> i \<longrightarrow> put_dinode d (dino_off a) ino i = d i) \<and>
    dino_off a + 64 \<le> BSIZE"
proof -
  have "(\<lambda>k. if k \<le> NDIRECT then i_addrs ino k else i_addrs j k) = i_addrs ino"
    using assms(3) by (auto simp: fun_eq_iff not_le)
  then have "get_dinode (put_dinode d (dino_off a) ino) (dino_off a) j =
      j\<lparr>i_type := i_type ino, i_major := i_major ino, i_minor := i_minor ino, i_nlink := i_nlink ino,
        i_size := i_size ino, i_addrs := i_addrs ino\<rparr>"
    unfolding get_dinode_def put_dinode_fields(1-5) by (simp add: put_dinode_fields(6) cong: if_cong)
  then show ?thesis
    using dino_off_disjoint [OF assms(1,2)] get_dinode_other dino_off_block [of a] put_dinode_outside by blast
qed

lemma dinode_roundtrip_witness:
  "let ino = \<lparr>i_dev = 1, i_inum = 17, i_ref = 1, i_lock = initsleeplock, i_valid = True, i_type = T_FILE, i_major = 0,
      i_minor = 0, i_nlink = 1, i_size = 5, i_addrs = (\<lambda>k. of_nat (min k 12) + 100)\<rparr>
   in get_dinode (put_dinode (\<lambda>_. 7) (dino_off 17) ino) (dino_off 17) ino = ino \<and> dino_off 17 + 64 \<le> BSIZE"
  using dinode_roundtrip [of 18 17 "\<lparr>sb_magic = 0, sb_size = 0, sb_nblocks = 0, sb_ninodes = 0, sb_nlog = 0, sb_logstart = 0,
      sb_inodestart = 32, sb_bmapstart = 0\<rparr>"
    "\<lparr>i_dev = 1, i_inum = 17, i_ref = 1, i_lock = initsleeplock, i_valid = True, i_type = T_FILE, i_major = 0,
      i_minor = 0, i_nlink = 1, i_size = 5, i_addrs = (\<lambda>k. of_nat (min k 12) + 100)\<rparr>"
    "\<lparr>i_dev = 1, i_inum = 17, i_ref = 1, i_lock = initsleeplock, i_valid = True, i_type = T_FILE, i_major = 0,
      i_minor = 0, i_nlink = 1, i_size = 5, i_addrs = (\<lambda>k. of_nat (min k 12) + 100)\<rparr>" "\<lambda>_. 7"]
  by (simp add: IBLOCK_def IPB_def BSIZE_def Let_def)

section \<open>Paths\<close>

text \<open>The elements of a path: what is between its slashes, the empty pieces dropped.\<close>

fun split_at :: "'a \<Rightarrow> 'a list \<Rightarrow> 'a list list" where
  "split_at c [] = [[]]"
| "split_at c (x # xs) = (if x = c then [] # split_at c xs else (x # hd (split_at c xs)) # tl (split_at c xs))"

definition path_elems :: "u8 list \<Rightarrow> u8 list list" where
  "path_elems path = filter (\<lambda>e. e \<noteq> []) (split_at slash path)"

lemma split_at_nonempty: "split_at c xs \<noteq> []"
  by (cases xs) simp_all

lemma split_at_takeWhile:
  "split_at c xs = takeWhile (\<lambda>x. x \<noteq> c) xs #
    (case dropWhile (\<lambda>x. x \<noteq> c) xs of [] \<Rightarrow> [] | y # ys \<Rightarrow> split_at c ys)"
  by (induction xs) auto

lemma path_elems_slashes: "path_elems (dropWhile (\<lambda>c. c = slash) p) = path_elems p"
  by (induction p) (simp_all add: path_elems_def)

lemma path_elems_first:
  assumes "p \<noteq> []" "hd p \<noteq> slash"
  shows "path_elems p = takeWhile (\<lambda>c. c \<noteq> slash) p # path_elems (dropWhile (\<lambda>c. c \<noteq> slash) p)"
proof -
  have n: "takeWhile (\<lambda>c. c \<noteq> slash) p \<noteq> []" using assms by (cases p) auto
  define d where "d = dropWhile (\<lambda>c. c \<noteq> slash) p"
  have s: "split_at slash p = takeWhile (\<lambda>c. c \<noteq> slash) p # (case d of [] \<Rightarrow> [] | y # ys \<Rightarrow> split_at slash ys)"
    unfolding d_def by (rule split_at_takeWhile)
  have "path_elems p = takeWhile (\<lambda>c. c \<noteq> slash) p # path_elems d"
  proof (cases d)
    case Nil
    then show ?thesis using n by (simp add: path_elems_def s)
  next
    case (Cons y ys)
    then have "y = slash" using hd_dropWhile [of "\<lambda>c. c \<noteq> slash" p] by (simp add: d_def)
    then show ?thesis using n Cons by (simp add: path_elems_def s)
  qed
  then show ?thesis by (simp add: d_def)
qed

text \<open>What \<open>namex\<close> takes from the path, one element after the other, as strings of at most 14 bytes.\<close>

function walk_elems :: "u8 list \<Rightarrow> bytes \<Rightarrow> u8 list list" where
  "walk_elems path name =
    (case skipelem path name of None \<Rightarrow> []
     | Some (path', name') \<Rightarrow> cstr DIRSIZ name' # walk_elems path' name')"
  by pat_completeness auto
termination
  by (relation "measure (\<lambda>(path, name). length path)") (auto dest: skipelem_shorter)

declare walk_elems.simps [simp del]

lemma cstr_cong:
  "(\<And>i. i < n \<Longrightarrow> \<forall>j<i. t j \<noteq> 0 \<Longrightarrow> s i = t i) \<Longrightarrow> cstr n s = cstr n t"
proof (induction n arbitrary: s t)
  case (Suc n)
  have z: "s 0 = t 0" by (rule Suc.prems) simp_all
  show ?case
  proof (cases "t 0 = 0")
    case False
    have "cstr n (adv s) = cstr n (adv t)"
    proof (rule Suc.IH)
      fix i assume i: "i < n" "\<forall>j<i. adv t j \<noteq> 0"
      have "\<forall>j<Suc i. t j \<noteq> 0" using i(2) False by (auto simp: less_Suc_eq_0_disj adv_apply)
      then show "adv s i = adv t i" using Suc.prems [of "Suc i"] i(1) by (simp add: adv_apply)
    qed
    then show ?thesis using z by simp
  qed (simp add: z)
qed simp

lemma cstr_name:
  assumes "0 \<notin> set elem"
  shows "cstr DIRSIZ (if DIRSIZ \<le> length elem then splice name 0 (str elem) DIRSIZ
    else (splice name 0 (str elem) (length elem))(length elem := 0)) = take DIRSIZ elem"
proof (cases "DIRSIZ \<le> length elem")
  case True
  have "cstr DIRSIZ (splice name 0 (str elem) DIRSIZ) = cstr DIRSIZ (str elem)"
    by (rule cstr_cong) (simp add: splice_def)
  then show ?thesis using True assms by (simp add: cstr_str)
next
  case False
  have "cstr DIRSIZ ((splice name 0 (str elem) (length elem))(length elem := 0)) = cstr DIRSIZ (str elem)"
  proof (rule cstr_cong)
    fix i assume "\<forall>j<i. str elem j \<noteq> 0"
    then have "\<not> length elem < i" by (auto simp: str_def)
    then show "((splice name 0 (str elem) (length elem))(length elem := 0)) i = str elem i"
      by (auto simp: splice_def str_def)
  qed
  then show ?thesis using False assms by (simp add: cstr_str)
qed

text \<open>
  C19: the loop of \<open>namex\<close> over \<open>skipelem\<close> takes exactly the elements of the path, in order:
  the pieces between its slashes, empty ones skipped, each cut at \<open>DIRSIZ\<close> characters.
\<close>

theorem skipelem_elems:
  assumes "0 \<notin> set path"
  shows "walk_elems path name = map (take DIRSIZ) (path_elems path)"
  using assms
proof (induction path name rule: walk_elems.induct)
  case (1 path name)
  define p where "p = dropWhile (\<lambda>c. c = slash) path"
  have e: "path_elems path = path_elems p" by (simp add: p_def path_elems_slashes)
  show ?case
  proof (cases "p = []")
    case True
    then show ?thesis
      unfolding e by (subst walk_elems.simps) (simp add: skipelem_def Let_def p_def [symmetric] path_elems_def)
  next
    case False
    let ?e = "takeWhile (\<lambda>c. c \<noteq> slash) p" and ?r = "dropWhile (\<lambda>c. c \<noteq> slash) p"
    have h: "hd p \<noteq> slash" using False hd_dropWhile [of "\<lambda>c. c = slash" path] by (simp add: p_def)
    obtain name' where s: "skipelem path name = Some (dropWhile (\<lambda>c. c = slash) ?r, name')"
      and n: "name' = (if DIRSIZ \<le> length ?e then splice name 0 (str ?e) DIRSIZ
        else (splice name 0 (str ?e) (length ?e))(length ?e := 0))"
      using False by (simp add: skipelem_def Let_def p_def)
    have sub: "set p \<subseteq> set path" by (auto simp: p_def dest: set_dropWhileD)
    have z: "0 \<notin> set ?e" "0 \<notin> set (dropWhile (\<lambda>c. c = slash) ?r)"
      using sub "1.prems" by (auto dest: set_takeWhileD set_dropWhileD)
    have "walk_elems (dropWhile (\<lambda>c. c = slash) ?r) name' = map (take DIRSIZ) (path_elems ?r)"
      using "1.IH" [OF s] z(2) by (simp add: path_elems_slashes)
    then show ?thesis
      unfolding e path_elems_first [OF False h]
      by (subst walk_elems.simps) (simp add: s n cstr_name [OF z(1)])
  qed
qed

lemma skipelem_elems_witness:
  "walk_elems [47, 97, 47, 47, 98, 99, 47] (\<lambda>_. 0) = [[97], [98, 99]]"
  using skipelem_elems [of "[47, 97, 47, 47, 98, 99, 47]" "\<lambda>_. 0"] by (simp add: path_elems_def DIRSIZ_def)

end
