(* ===== verification/Logadm.thy ===== *)
theory Logadm
  imports Commit
begin

text \<open>
  The room in the log: how \<open>begin_op\<close>, \<open>log_write\<close> and \<open>end_op\<close> of \<^verbatim>\<open>kernel/log.c\<close> keep the
  transactions within it, and the one bound that they do not keep.
\<close>

section \<open>What does not touch the log's state\<close>

definition keeps_log :: "logst \<Rightarrow> ('a, 'z klog_scheme) kres \<Rightarrow> bool" where
  "keeps_log l m \<longleftrightarrow> pwp m (\<lambda>_ t. lg t = l)"

named_theorems keeps

lemma keeps_kbind:
  assumes "keeps_log l m" "\<And>a t. lg t = l \<Longrightarrow> keeps_log l (f a t)"
  shows "keeps_log l (kbind m f)"
  using assms unfolding keeps_log_def pwp_kbind by (auto elim!: pwp_mono)

lemma keeps_if: "keeps_log l m \<Longrightarrow> keeps_log l m' \<Longrightarrow> keeps_log l (if c then m else m')"
  by simp

lemma keeps_basic [keeps]:
  "lg t = l \<Longrightarrow> keeps_log l (Ok a t)" "keeps_log l (Panic msg)" "keeps_log l (Block u)"
  by (simp_all add: keeps_log_def wp_simps)

lemma keeps_locks [keeps]: "lg s = l \<Longrightarrow> keeps_log l (acquire k s)" "lg s = l \<Longrightarrow> keeps_log l (release k s)"
  by (auto simp: keeps_log_def wp_simps)

lemma keeps_myproc [keeps]: "lg s = l \<Longrightarrow> keeps_log l (myproc s)"
  by (auto simp: keeps_log_def myproc_def wp_simps split: option.split)

lemma keeps_foreach: "(\<And>i s. lg s = l \<Longrightarrow> keeps_log l (f i s)) \<Longrightarrow> lg s = l \<Longrightarrow> keeps_log l (foreach f xs s)"
  by (induction xs arbitrary: s) (simp_all add: keeps keeps_kbind)

lemma keeps_wakeup [keeps]: "lg s = l \<Longrightarrow> keeps_log l (wakeup c s)"
  unfolding wakeup_def
  by (rule keeps_foreach) (auto simp: wakeup_one_def wakeup_code_def intro!: keeps keeps_kbind)

lemma keeps_sleep [keeps]: "keeps_log l (sleep c k s)"
  by (simp add: keeps_log_def wp_simps)

lemma lg_buf_upd [simp]: "lg (buf_upd i f s) = lg s"
  by (simp add: buf_upd_def)

lemma lg_buf_links [simp]: "lg (unlink i s) = lg s" "lg (link_front i s) = lg s"
  by (simp_all add: unlink_def link_front_def Let_def)

lemma lg_buf_slock [simp]: "lg (buf_slock_upd i f s) = lg s"
  by (simp add: buf_slock_upd_def)

lemma keeps_sleeplock [keeps]:
  "lg s = l \<Longrightarrow> keeps_log l (acquire_buf i s)" "lg s = l \<Longrightarrow> keeps_log l (release_buf i s)"
  "lg s = l \<Longrightarrow> keeps_log l (holding_buf i s)"
  unfolding acquiresleep_def releasesleep_def holdingsleep_def Let_def
  by (auto intro!: keeps keeps_kbind)

lemma keeps_bio [keeps]:
  "lg s = l \<Longrightarrow> keeps_log l (bread d n s)" "lg s = l \<Longrightarrow> keeps_log l (bwrite i s)"
  "lg s = l \<Longrightarrow> keeps_log l (brelse i s)" "lg s = l \<Longrightarrow> keeps_log l (bunpin i s)"
  "lg s = l \<Longrightarrow> keeps_log l (bpin i s)"
  unfolding bread_def bget_def bwrite_def brelse_def bunpin_def bpin_def virtio_disk_rw_def Let_def
  by (auto intro!: keeps keeps_kbind split: option.split)

lemma keeps_write_log [keeps]: "lg s = l \<Longrightarrow> keeps_log l (write_log s)"
  unfolding write_log_def
  by (rule keeps_foreach)
    (auto simp: write_log_one_def set_data_def Let_def intro!: keeps keeps_kbind)

lemma keeps_write_head [keeps]: "lg s = l \<Longrightarrow> keeps_log l (write_head s)"
  by (auto simp: write_head_def set_data_def Let_def intro!: keeps keeps_kbind)

lemma keeps_install_trans [keeps]: "lg s = l \<Longrightarrow> keeps_log l (install_trans r s)"
  unfolding install_trans_def
  by (rule keeps_foreach)
    (auto simp: install_one_def set_data_def Let_def intro!: keeps keeps_kbind)

lemma keeps_then:
  assumes "keeps_log l m" "\<And>a t. lg t = l \<Longrightarrow> pwp (f a t) Q"
  shows "pwp (kbind m f) Q"
  using assms unfolding keeps_log_def pwp_kbind by (auto elim!: pwp_mono)

lemma commit_empties:
  fixes s :: "'z klog_scheme"
  shows "pwp (commit s) (\<lambda>_ t. lg t = (if 0 < lh_n (lg s) then (lg s)\<lparr>lh_n := 0\<rparr> else lg s))"
proof (cases "0 < lh_n (lg s)")
  case True
  have w: "pwp (write_head (lg_upd (\<lambda>l. l\<lparr>lh_n := 0\<rparr>) t)) (\<lambda>_ u. lg u = (lg s)\<lparr>lh_n := 0\<rparr>)"
    if "lg t = lg s" for t :: "'z klog_scheme"
    using keeps_write_head [of "lg_upd (\<lambda>l. l\<lparr>lh_n := 0\<rparr>) t", OF refl] that
    by (simp add: keeps_log_def lg_upd_def)
  show ?thesis
    unfolding commit_def using True
    by (simp, intro keeps_then [where l = "lg s"] keeps w) simp_all
qed (simp add: commit_def wp_simps)

section \<open>Transactions\<close>

text \<open>
  The kernel as the log sees it, with the number of blocks that each outstanding operation may
  still add: an operation begins with \<open>MAXOPBLOCKS\<close>, every \<open>log_write\<close> uses one up, and anything
  else may happen that leaves the log's state alone. \<open>end_op\<close> is one step, with its commit: while
  it commits, \<open>begin_op\<close> waits.
\<close>

inductive log_step :: "klog \<times> nat list \<Rightarrow> klog \<times> nat list \<Rightarrow> bool" where
  begin_step: "begin_op s = Ok () t \<Longrightarrow> log_step (s, us) (t, MAXOPBLOCKS # us)"
| write_step: "k < length us \<Longrightarrow> us ! k = Suc u \<Longrightarrow> log_write b s = Ok () t \<Longrightarrow> log_step (s, us) (t, us[k := u])"
| end_step: "end_op s = Ok () t \<Longrightarrow> log_step (s, us @ u # vs) (t, us @ vs)"
| other_step: "lg t = lg s \<Longrightarrow> log_step (s, us) (t, us)"

definition log_room :: "logst \<Rightarrow> nat list \<Rightarrow> bool" where
  "log_room l us \<longleftrightarrow> l_outstanding l = int (length us) \<and> 0 \<le> lh_n l \<and> (\<forall>u\<in>set us. u \<le> MAXOPBLOCKS) \<and>
    lh_n l + int (sum_list us) \<le> int LOGBLOCKS"

lemma sum_list_bound: "\<forall>u\<in>set us. u \<le> m \<Longrightarrow> sum_list us \<le> length us * m" for us :: "nat list"
  by (induction us) auto

lemma begin_op_lg:
  assumes "begin_op s = Ok () t"
  shows "lg t = (lg s)\<lparr>l_outstanding := l_outstanding (lg s) + 1\<rparr> \<and>
    lh_n (lg s) + (l_outstanding (lg s) + 1) * int MAXOPBLOCKS \<le> int LOGBLOCKS"
proof -
  have "pwp (begin_op s) (\<lambda>_ t. lg t = (lg s)\<lparr>l_outstanding := l_outstanding (lg s) + 1\<rparr> \<and>
    lh_n (lg s) + (l_outstanding (lg s) + 1) * int MAXOPBLOCKS \<le> int LOGBLOCKS)"
    by (simp add: begin_op_def wp_simps lg_upd_def)
  with assms show ?thesis by (simp add: wp_simps)
qed

lemma log_index_le: "0 \<le> lh_n l \<Longrightarrow> int (log_index l n) \<le> lh_n l"
  by (auto simp: log_index_def scan_Some split: option.split)

lemma log_write_lg:
  assumes "log_write b s = Ok () t" "0 \<le> lh_n (lg s)"
  shows "l_outstanding (lg t) = l_outstanding (lg s) \<and> lh_n (lg s) \<le> lh_n (lg t) \<and> lh_n (lg t) \<le> lh_n (lg s) + 1"
proof -
  have "pwp (log_write b s) (\<lambda>_ t. l_outstanding (lg t) = l_outstanding (lg s) \<and> lh_n (lg s) \<le> lh_n (lg t) \<and>
    lh_n (lg t) \<le> lh_n (lg s) + 1)"
    by (simp add: log_write_def bpin_def wp_simps lg_upd_def Let_def)
  with assms show ?thesis by (simp add: wp_simps)
qed

lemma kbind_unit: "kbind m (\<lambda>_. Ok ()) = (m :: (unit, 's) kres)"
  by (cases m) simp_all

lemma keeps_pwp: "keeps_log l m \<Longrightarrow> (\<And>t. lg t = l \<Longrightarrow> Q t) \<Longrightarrow> pwp m (\<lambda>_ t. Q t)"
  unfolding keeps_log_def by (auto elim!: pwp_mono)

lemma end_op_lg:
  fixes s :: "'z klog_scheme"
  assumes "end_op s = Ok () t"
  shows "l_outstanding (lg t) = l_outstanding (lg s) - 1 \<and> (lh_n (lg t) = lh_n (lg s) \<or> lh_n (lg t) = 0)"
proof -
  let ?Q = "\<lambda>t. l_outstanding (lg t) = l_outstanding (lg s) - 1 \<and> (lh_n (lg t) = lh_n (lg s) \<or> lh_n (lg t) = 0)"
  let ?l = "(lg s)\<lparr>l_outstanding := l_outstanding (lg s) - 1\<rparr>"
  have finish: "pwp (kbind (acquire LLog v) (\<lambda>_ s. kbind (wakeup ChLog (lg_upd (\<lambda>l. l\<lparr>l_committing := False\<rparr>) s))
      (\<lambda>_ s. release LLog s))) (\<lambda>_ t. ?Q t)" if "?Q v" for v :: "'z klog_scheme"
  proof -
    have q: "?Q u" if "lg u = (lg v)\<lparr>l_committing := False\<rparr>" for u :: "'z klog_scheme"
      using that \<open>?Q v\<close> by simp
    show ?thesis
      by (intro keeps_then [OF keeps_locks(1) [OF refl]] keeps_then [OF keeps_wakeup] keeps_pwp [OF keeps_locks(2)] q)
        (simp_all add: lg_upd_def)
  qed
  have committed: "pwp (kbind (release LLog v) (\<lambda>_ s. kbind (commit s) (\<lambda>_ s. kbind (acquire LLog s) (\<lambda>_ s.
      kbind (wakeup ChLog (lg_upd (\<lambda>l. l\<lparr>l_committing := False\<rparr>) s)) (\<lambda>_ s. release LLog s))))) (\<lambda>_ t. ?Q t)"
    if v: "lg v = ?l\<lparr>l_committing := True\<rparr>" for v :: "'z klog_scheme"
  proof (rule keeps_then [OF keeps_locks(2) [OF v]])
    fix u :: "'z klog_scheme" assume u: "lg u = ?l\<lparr>l_committing := True\<rparr>"
    show "pwp (kbind (commit u) (\<lambda>_ s. kbind (acquire LLog s) (\<lambda>_ s.
      kbind (wakeup ChLog (lg_upd (\<lambda>l. l\<lparr>l_committing := False\<rparr>) s)) (\<lambda>_ s. release LLog s)))) (\<lambda>_ t. ?Q t)"
      unfolding pwp_kbind
      by (rule pwp_mono [OF commit_empties], rule finish [unfolded pwp_kbind]) (simp add: u split: if_splits)
  qed
  have open_yet: "pwp (kbind (wakeup ChLog v) (\<lambda>_ s. release LLog s)) (\<lambda>_ t. ?Q t)"
    if v: "lg v = ?l" for v :: "'z klog_scheme"
  proof (rule keeps_then [OF keeps_wakeup [OF v]], rule keeps_pwp [OF keeps_locks(2)])
    fix t u :: "'z klog_scheme" assume "lg t = ?l" "lg u = ?l"
    then show "?Q u" by simp
  qed
  have "pwp (end_op s) (\<lambda>_ t. ?Q t)"
    unfolding end_op_def Let_def
  proof (rule keeps_then [OF keeps_locks(1) [OF refl]])
    fix u :: "'z klog_scheme" assume u: "lg u = lg s"
    let ?v = "lg_upd (\<lambda>l. l\<lparr>l_outstanding := l_outstanding l - 1\<rparr>) u"
    have v: "lg ?v = ?l" by (simp add: lg_upd_def u)
    show "pwp (if l_committing (lg ?v) then Panic ''log.committing''
      else
      kbind (if l_outstanding (lg ?v) = 0
             then Ok True (lg_upd (\<lambda>l. l\<lparr>l_committing := True\<rparr>) ?v)
             else kbind (wakeup ChLog ?v) (\<lambda>_ s. Ok False s)) (\<lambda>do_commit s.
      kbind (release LLog s) (\<lambda>_ s.
        if do_commit then
          kbind (commit s) (\<lambda>_ s.
          kbind (acquire LLog s) (\<lambda>_ s.
          kbind (wakeup ChLog (lg_upd (\<lambda>l. l\<lparr>l_committing := False\<rparr>) s)) (\<lambda>_ s.
          release LLog s)))
        else Ok () s))) (\<lambda>_ t. ?Q t)"
    proof (cases "l_committing (lg ?v)")
      case False
      have w: "lg (lg_upd (\<lambda>l. l\<lparr>l_committing := True\<rparr>) ?v) = ?l\<lparr>l_committing := True\<rparr>"
        by (simp add: lg_upd_def u)
      show ?thesis
        using committed [OF w] open_yet [OF v] False
        by (cases "l_outstanding (lg ?v) = 0") (simp_all only: if_False if_True kbind_simps kbind_assoc simp_thms kbind_unit)
    qed (simp add: wp_simps)
  qed
  with assms show ?thesis by (simp add: wp_simps)
qed

lemma log_step_room: "log_step (s, us) (t, vs) \<Longrightarrow> log_room (lg s) us \<Longrightarrow> log_room (lg t) vs"
proof (induction "(s, us)" "(t, vs)" rule: log_step.induct)
  case begin_step
  have "sum_list us \<le> length us * MAXOPBLOCKS"
    using begin_step.prems by (intro sum_list_bound) (simp add: log_room_def)
  then have "int (sum_list us) \<le> l_outstanding (lg s) * int MAXOPBLOCKS"
    using begin_step.prems by (simp add: log_room_def flip: of_nat_mult)
  then show ?case
    using begin_op_lg [OF begin_step.hyps(1)] begin_step.prems begin_step.hyps(2)
    by (auto simp: log_room_def algebra_simps)
next
  case (write_step k u b)
  have s: "sum_list us = sum_list (us[k := u]) + 1"
    using write_step.hyps(1,2)
  proof (induction us arbitrary: k)
    case (Cons x xs)
    then show ?case by (cases k) auto
  qed simp
  have "\<forall>x\<in>set (us[k := u]). x \<le> MAXOPBLOCKS"
    using write_step.prems write_step.hyps(1,2) set_update_subset_insert [of us k u] nth_mem [OF write_step.hyps(1)]
    by (force simp: log_room_def)
  then show ?case
    using log_write_lg [OF write_step.hyps(3)] write_step.prems s write_step.hyps(4)
    by (auto simp: log_room_def)
next
  case (end_step us' u vs')
  then show ?case
    using end_op_lg [OF end_step.hyps(1)] by (auto simp: log_room_def)
next
  case other_step
  then show ?case by simp
qed

inductive log_reach :: "klog \<times> nat list \<Rightarrow> bool" where
  log_start: "lh_n (lg s) = 0 \<Longrightarrow> l_outstanding (lg s) = 0 \<Longrightarrow> log_reach (s, [])"
| log_more: "log_reach x \<Longrightarrow> log_step x y \<Longrightarrow> log_reach y"

lemma log_reach_room: "log_reach (s, us) \<Longrightarrow> log_room (lg s) us"
proof (induction "(s, us)" arbitrary: s us rule: log_reach.induct)
  case log_start
  then show ?case by (simp add: log_room_def)
next
  case (log_more x)
  obtain s' us' where "x = (s', us')" by (cases x)
  with log_more log_step_room show ?case by blast
qed

text \<open>
  C21: the log has room for every operation that \<open>begin_op\<close> has let in. In whatever order
  operations begin, write and end, as long as each writes at most \<open>MAXOPBLOCKS\<close> blocks, the header
  never holds more than \<open>LOGBLOCKS\<close> of them and a \<open>log_write\<close> by an operation that has some left
  returns: neither of its panics can be reached.
\<close>

theorem log_admission:
  fixes s :: klog
  assumes "log_reach (s, us)" "k < length us" "0 < us ! k" "held s = {}"
  shows "lh_n (lg s) + int (sum_list us) \<le> int LOGBLOCKS \<and> (\<exists>t. log_write b s = Ok () t)"
proof -
  have r: "log_room (lg s) us" by (rule log_reach_room [OF assms(1)])
  have "us ! k \<le> sum_list us" using assms(2) by (simp add: elem_le_sum_list)
  then have n: "\<not> int LOGBLOCKS \<le> lh_n (lg s)" "\<not> l_outstanding (lg s) < 1"
    using r assms(2,3) by (auto simp: log_room_def)
  then have "\<exists>t. log_write b s = Ok () t"
    using assms(4) by (simp add: log_write_def Let_def acquire_free release_held bpin_eq buf_upd_def lg_upd_def)
  then show ?thesis using r by (simp add: log_room_def)
qed

definition demo_op :: klog where
  "demo_op = demo_boot\<lparr>lg := demo_log\<lparr>l_committing := False, lh_n := 0\<rparr>\<rparr>"

lemma demo_boot_held: "held demo_boot = {}"
  using demo_boot_inv by (simp add: bio_inv_def)

lemma log_admission_witness:
  "\<exists>t. begin_op demo_op = Ok () t \<and> lh_n (lg t) + 10 \<le> int LOGBLOCKS \<and> (\<exists>u. log_write 0 t = Ok () u)"
proof -
  let ?t = "lg_upd (\<lambda>l. l\<lparr>l_outstanding := 1\<rparr>) demo_op"
  have b: "begin_op demo_op = Ok () ?t"
    by (simp add: begin_op_def demo_op_def demo_log_def demo_boot_held acquire_free release_held lg_upd_def
        LOGBLOCKS_def MAXOPBLOCKS_def)
  have "log_reach (demo_op, [])"
    by (rule log_start) (simp_all add: demo_op_def demo_log_def)
  then have r: "log_reach (?t, [MAXOPBLOCKS])"
    by (rule log_more) (rule log_step.begin_step [OF b])
  have "held ?t = {}" by (simp add: lg_upd_def demo_op_def demo_boot_held)
  with log_admission [OF r, of 0 0] b show ?thesis by (simp add: MAXOPBLOCKS_def)
qed

section \<open>The full log\<close>

lemma pinned_all:
  assumes b: "binv B D pid {} L" and c: "card L = NBUF" and i: "i < NBUF"
  shows "b_dev (B i) = ROOTDEV \<and> b_blockno (B i) \<in> L"
proof -
  define h where "h m = (SOME i. hit B i m)" for m
  have h: "hit B (h m) m" if "m \<in> L" for m
    unfolding h_def using binvD(11) [OF b that] by (rule someI_ex)
  have "inj_on h L"
    by (rule inj_onI) (metis h hit_def)
  then have "card (h ` L) = NBUF" using c by (simp add: card_image)
  moreover have "h ` L \<subseteq> {..<NBUF}" using h by (auto simp: hit_def)
  ultimately have "h ` L = {..<NBUF}" by (metis card_lessThan card_subset_eq finite_lessThan)
  then obtain m where "m \<in> L" "i = h m" using i by auto
  then show ?thesis using h [of m] by (simp add: hit_def)
qed

lemma bread_exhausted:
  fixes s :: "'z kbio_scheme"
  assumes inv: "bio_inv s {} L" and c: "card L = NBUF" and n: "n \<notin> L"
  shows "bread ROOTDEV n s = Panic ''bget: no buffers''"
proof -
  let ?B = "bufs s"
  have b: "binv ?B (disk s) (mypid s) {} L" and h: "held s = {}" using inv by (auto simp: bio_inv_def)
  obtain xs where r: "ring ?B xs" using binvD(1) [OF b] by blast
  have mem: "set xs = {..<NBUF}" using r by (simp add: ring_def)
  have p: "b_dev (?B i) = ROOTDEV \<and> b_blockno (?B i) \<in> L" if "i < NBUF" for i
    by (rule pinned_all [OF b c that])
  have ref: "b_refcnt (?B i) \<noteq> 0" if "i < NBUF" for i
    using binvD(5) [OF b that] p [OF that] by auto
  have "find (\<lambda>i. b_dev (?B i) = ROOTDEV \<and> b_blockno (?B i) = n) xs = None"
    using p n mem by (auto simp: find_None_iff)
  moreover have "find (\<lambda>i. b_refcnt (?B i) = 0) (rev xs) = None"
    using ref mem by (auto simp: find_None_iff)
  ultimately show ?thesis
    using h ring_find_next [OF r, of "\<lambda>i. b_dev (?B i) = ROOTDEV \<and> b_blockno (?B i) = n"]
      ring_find_prev [OF r, of "\<lambda>i. b_refcnt (?B i) = 0"]
    by (simp add: bread_def bget_def acquire_free)
qed

text \<open>
  C22: a transaction that fills the log cannot be committed. \<open>LOGBLOCKS\<close> is \<open>NBUF\<close>, so when the
  header has all the blocks that \<open>log_write\<close> allows, every buffer is pinned by it, and the first
  \<open>bread\<close> of \<open>commit\<close> panics for want of a buffer.
\<close>

theorem commit_full_log:
  fixes s :: "'z klog_scheme"
  assumes "bio_inv s {} (set bl)" "log_ok (lg s) bl" "length bl = LOGBLOCKS"
  shows "commit s = Panic ''bget: no buffers''"
proof -
  have e: "LOGBLOCKS = NBUF" "0 < NBUF" by (simp_all add: LOGBLOCKS_def NBUF_def MAXOPBLOCKS_def)
  have c: "card (set bl) = NBUF" using assms(2,3) e by (simp add: log_ok_def distinct_card)
  have "in_log (lg s) (log_slot (lg s) 0)" using slot_in_log [OF assms(2), of 0] e by simp
  then have n: "log_slot (lg s) 0 \<notin> set bl" using assms(2) by (auto simp: log_ok_def)
  have lh: "lh_n (lg s) = int NBUF" "l_dev (lg s) = ROOTDEV" using assms(2,3) e by (simp_all add: log_ok_def)
  have "write_log_one 0 s = Panic ''bget: no buffers''"
    using bread_exhausted [OF assms(1) c n] lh by (simp add: write_log_one_def)
  then show ?thesis
    using e(2) lh by (simp add: commit_def write_log_def upt_conv_Cons)
qed

text \<open>A log with the blocks 100 to 129 in it.\<close>

lemma pin_one:
  fixes s :: "'z klog_scheme"
  assumes "bio_inv s {} L" "card L < NBUF" "n \<notin> L"
  shows "\<exists>t :: 'z klog_scheme. bio_inv t {} (insert n L) \<and> lg t = lg s"
proof -
  obtain i t1 where i: "bio_inv t1 {i} L" "bframe {} s t1" "b_blockno (bufs t1 i) = n"
    using bread_spec [OF assms(1), of n] assms(2) by (auto simp: wp_iff)
  obtain t2 where p: "bio_inv t2 {i} (insert n L)" "bframe {i} t1 t2"
    using bpin_spec [OF i(1) singletonI] i(3) assms(3) by (auto simp: wp_iff)
  have b: "b_blockno (bufs t2 i) = n" using p(2) i(3) by (simp add: bframe_def)
  have "wp (brelse i t2) (\<lambda>_ t. bio_inv t ({i} - {i}) (insert n L) \<and> bframe ({i} - {i}) t2 t \<and> blk t = blk t2)"
    by (rule brelse_spec [OF p(1)]) (use b in auto)
  then obtain t3 where r: "bio_inv t3 {} (insert n L)" "bframe {} t2 t3" by (auto simp: wp_iff)
  have "cframe s t3" using i(2) p(2) r(2) bframe_cframe cframe_trans by metis
  with r(1) show ?thesis using cframe_lg by blast
qed

lemma pin_list:
  fixes s :: klog
  assumes "bio_inv s {} {}" "distinct bl" "length bl \<le> NBUF"
  shows "\<exists>t :: klog. bio_inv t {} (set bl)"
  using assms(2,3)
proof (induction bl)
  case Nil
  then show ?case using assms(1) by auto
next
  case (Cons n bl)
  then obtain t :: klog where "bio_inv t {} (set bl)" by auto
  from pin_one [OF this, of n] Cons.prems show ?case by (auto simp: distinct_card)
qed

lemma commit_full_log_witness:
  "\<exists>s :: klog. lh_n (lg s) = int LOGBLOCKS \<and> commit s = Panic ''bget: no buffers''"
proof -
  define bl :: "u32 list" where "bl = map of_nat [100..<130]"
  have n: "length bl = LOGBLOCKS" "length bl = NBUF" by (simp_all add: bl_def LOGBLOCKS_def NBUF_def MAXOPBLOCKS_def)
  have u: "unat (of_nat i :: u32) = i" if "i < 130" for i using that by (simp add: unat_of_nat)
  have d: "distinct bl"
  proof -
    have "inj_on (of_nat :: nat \<Rightarrow> u32) {100..<130}"
      by (rule inj_onI) (metis u atLeastLessThan_iff)
    then show ?thesis by (simp add: bl_def distinct_map)
  qed
  obtain s :: klog where s: "bio_inv s {} (set bl)"
    using pin_list [OF demo_boot_inv d] n by auto
  define l where "l = demo_log\<lparr>lh_n := 30, lh_block := (\<lambda>i. bl ! i)\<rparr>"
  let ?s = "lg_upd (\<lambda>_. l) s"
  have out: "\<not> in_log l m" if "m \<in> set bl" for m
    using that u by (auto simp: bl_def in_log_def l_def demo_log_def LOGBLOCKS_def MAXOPBLOCKS_def)
  have "log_ok (lg ?s) bl"
    using n d out by (simp add: log_ok_def l_def demo_log_def LOGBLOCKS_def MAXOPBLOCKS_def)
  from commit_full_log [OF _ this n(1)] s have "commit ?s = Panic ''bget: no buffers''" by simp
  moreover have "lh_n (lg ?s) = int LOGBLOCKS" by (simp add: l_def LOGBLOCKS_def MAXOPBLOCKS_def)
  ultimately show ?thesis by blast
qed

end
