(* ===== verification/Transact.thy ===== *)
theory Transact
  imports Logadm Fs
begin

text \<open>
  A block changed within a transaction: \<open>bread\<close>, a change of the data, \<open>log_write\<close>, \<open>brelse\<close>. This is
  how every operation of \<^verbatim>\<open>kernel/fs.c\<close> writes, and the allocation of blocks is the first of them.
\<close>

section \<open>Blocks in a transaction\<close>

text \<open>The blocks whose numbers the in-memory log header holds.\<close>

definition logged :: "logst \<Rightarrow> u32 set" where
  "logged l = lh_block l ` {..<nat (lh_n l)}"

text \<open>
  Inside an operation that has the buffers \<open>H\<close> in use, with room for \<open>k\<close> more blocks in the log and one
  more buffer.
\<close>

definition log_open :: "nat \<Rightarrow> logst \<Rightarrow> bool" where
  "log_open k l \<longleftrightarrow> 0 \<le> lh_n l \<and> lh_n l + int k < int LOGBLOCKS \<and> 1 \<le> l_outstanding l"

definition tx :: "nat set \<Rightarrow> nat \<Rightarrow> 'z klog_scheme \<Rightarrow> bool" where
  "tx H k s \<longleftrightarrow> bio_inv s H (logged (lg s)) \<and> log_open k (lg s)"

abbreviation busy :: "nat set \<Rightarrow> 'z klog_scheme \<Rightarrow> u32 set" where
  "busy H s \<equiv> (\<lambda>i. b_blockno (bufs s i)) ` H"

lemma log_open_less: "log_open k l \<Longrightarrow> j \<le> k \<Longrightarrow> log_open j l"
  by (auto simp: log_open_def)

lemma tx_less: "tx H k s \<Longrightarrow> j \<le> k \<Longrightarrow> tx H j s"
  by (auto simp: tx_def intro: log_open_less)

lemma card_logged: "log_open k l \<Longrightarrow> k + card (logged l) < NBUF"
proof -
  assume l: "log_open k l"
  have "card (logged l) \<le> nat (lh_n l)"
    unfolding logged_def by (rule order_trans [OF card_image_le]) simp_all
  moreover have "k + nat (lh_n l) < NBUF" using l by (auto simp: log_open_def LOGBLOCKS_def NBUF_def MAXOPBLOCKS_def)
  ultimately show ?thesis by linarith
qed

text \<open>One more block in the header, when it is not there yet.\<close>

definition log_add :: "u32 \<Rightarrow> logst \<Rightarrow> logst" where
  "log_add n l = (if n \<in> logged l then l else l\<lparr>lh_block := (lh_block l)(nat (lh_n l) := n), lh_n := lh_n l + 1\<rparr>)"

lemma logged_add: "0 \<le> lh_n l \<Longrightarrow> logged (log_add n l) = insert n (logged l)"
proof -
  assume n: "0 \<le> lh_n l"
  then have "{..<nat (lh_n l + 1)} = insert (nat (lh_n l)) {..<nat (lh_n l)}" by (auto simp: nat_add_distrib)
  then show ?thesis by (auto simp: log_add_def logged_def)
qed

lemma log_add_open: "log_open (Suc k) l \<Longrightarrow> log_open k (log_add n l)"
  by (auto simp: log_open_def log_add_def)

lemma log_index_logged:
  "0 \<le> lh_n l \<Longrightarrow> int (log_index l n) = lh_n l \<longleftrightarrow> n \<notin> logged l"
  "n \<in> logged l \<Longrightarrow> lh_block l (log_index l n) = n"
  by (auto simp: log_index_def logged_def scan_Some scan_None split: option.split)

lemma log_write_eq:
  fixes s :: "'z klog_scheme"
  assumes "held s = {}" "log_open (Suc k) (lg s)" "n = b_blockno (bufs s i)"
  shows "log_write i s = Ok () (lg_upd (\<lambda>_. log_add n (lg s))
    (if n \<in> logged (lg s) then s else buf_upd i (\<lambda>b. b\<lparr>b_refcnt := b_refcnt b + 1\<rparr>) s))"
proof -
  have o: "0 \<le> lh_n (lg s)" "\<not> int LOGBLOCKS \<le> lh_n (lg s)" "\<not> l_outstanding (lg s) < 1"
    using assms(2) by (auto simp: log_open_def)
  show ?thesis
  proof (cases "n \<in> logged (lg s)")
    case True
    then have "(lh_block (lg s))(log_index (lg s) n := n) = lh_block (lg s)"
      using log_index_logged(2) [OF True] by (auto simp: fun_eq_iff)
    then show ?thesis
      using True o log_index_logged(1) [OF o(1), of n] assms(1)
      by (simp add: log_write_def acquire_free release_held Let_def assms(3) [symmetric] lg_upd_def log_add_def)
  next
    case False
    then have e: "int (log_index (lg s) n) = lh_n (lg s)" using log_index_logged(1) [OF o(1)] by simp
    then have "log_index (lg s) n = nat (lh_n (lg s))" by (metis nat_int)
    then show ?thesis
      using False o e assms(1)
      by (simp add: log_write_def acquire_free release_held Let_def assms(3) [symmetric] lg_upd_def log_add_def
          bpin_eq buf_upd_def)
  qed
qed

definition tframe :: "nat set \<Rightarrow> 'z klog_scheme \<Rightarrow> 'z klog_scheme \<Rightarrow> bool" where
  "tframe H s t \<longleftrightarrow> klog.more t = klog.more s \<and> held t = held s \<and> curproc t = curproc s \<and> disk t = disk s \<and>
    l_start (lg t) = l_start (lg s) \<and> l_dev (lg t) = l_dev (lg s) \<and> l_outstanding (lg t) = l_outstanding (lg s) \<and>
    pmem t = pmem s \<and> logged (lg s) \<subseteq> logged (lg t) \<and> (\<forall>p. \<exists>st. procs t p = (procs s p)\<lparr>p_state := st\<rparr>) \<and>
    (\<forall>j\<in>H. b_data (bufs t j) = b_data (bufs s j) \<and> b_blockno (bufs t j) = b_blockno (bufs s j))"

lemma tframe_refl [simp]: "tframe H s s"
proof -
  have "\<exists>st. procs s p = (procs s p)\<lparr>p_state := st\<rparr>" for p by (rule exI [of _ "p_state (procs s p)"]) simp
  then show ?thesis by (simp add: tframe_def)
qed

lemma tframe_trans: "tframe H s t \<Longrightarrow> tframe H t u \<Longrightarrow> tframe H s u"
proof -
  assume a: "tframe H s t" "tframe H t u"
  have "\<exists>st. procs u p = (procs s p)\<lparr>p_state := st\<rparr>" for p
  proof -
    obtain st where st: "procs t p = (procs s p)\<lparr>p_state := st\<rparr>" using a(1) unfolding tframe_def by blast
    obtain st' where "procs u p = (procs t p)\<lparr>p_state := st'\<rparr>" using a(2) unfolding tframe_def by blast
    with st have "procs u p = (procs s p)\<lparr>p_state := st'\<rparr>" by simp
    then show ?thesis by blast
  qed
  then show ?thesis using a by (simp add: tframe_def) blast
qed

lemma tframe_mono: "tframe H s t \<Longrightarrow> K \<subseteq> H \<Longrightarrow> tframe K s t"
  by (auto simp: tframe_def)

lemma tframe_busy: "tframe H s t \<Longrightarrow> busy H t = busy H s"
  by (auto simp: tframe_def)

lemma klog_more: "kbio.more t = kbio.more s \<Longrightarrow> lg t = lg s \<and> klog.more t = klog.more s"
  for s t :: "'z klog_scheme"
  by (cases s; cases t) simp

lemma bframe_tframe: "bframe H s t \<Longrightarrow> tframe H s t \<and> lg t = lg s"
  for s t :: "'z klog_scheme"
  using bframe_fields [of H s t] klog_more [of t s] by (simp add: tframe_def) (simp add: bframe_def)

lemma tx_bread:
  fixes s :: "'z klog_scheme"
  assumes "tx H k s" "card H \<le> k" "n \<notin> busy H s"
  shows "wp (bread ROOTDEV n s) (\<lambda>i t. i \<notin> H \<and> tx (insert i H) k t \<and> b_blockno (bufs t i) = n \<and>
    b_data (bufs t i) = blk s n \<and> blk t = blk s \<and> tframe H s t \<and> lg t = lg s)"
proof -
  have "wp (bread ROOTDEV n s) (\<lambda>i t. i < NBUF \<and> i \<notin> H \<and> bio_inv t (insert i H) (logged (lg s)) \<and> bframe H s t \<and>
    b_blockno (bufs t i) = n \<and> b_data (bufs t i) = blk s n \<and> blk t = blk s)"
    using assms card_logged [of k "lg s"] by (intro bread_spec) (auto simp: tx_def)
  then show ?thesis
    by (rule wp_mono) (use assms in \<open>auto simp: tx_def dest: bframe_tframe\<close>)
qed

lemma tx_log_write:
  fixes s :: "'z klog_scheme"
  assumes "tx (insert i H) (Suc k) s" "i \<notin> H" "b_blockno (bufs s i) = n"
  shows "wp (log_write i (set_data i d s)) (\<lambda>_ t. tx (insert i H) k t \<and>
    b_blockno (bufs t i) = n \<and> b_data (bufs t i) = d \<and> blk t = (blk s)(n := d) \<and> tframe H s t \<and> lg t = log_add n (lg s))"
proof -
  have a: "bio_inv s (insert i H) (logged (lg s))" "log_open (Suc k) (lg s)" using assms(1) by (simp_all add: tx_def)
  have H: "insert i H - {i} = H" using assms(2) by simp
  define u where "u = set_data i d s"
  note u = buf_update_spec [OF a(1) insertI1 u_def [unfolded set_data_def], unfolded H]
  have lu: "lg u = lg s" using bframe_tframe [OF u(3)] by simp
  have hu: "held u = {}" using u(1) by (simp add: bio_inv_def)
  have nu: "b_blockno (bufs u i) = n" using u(4) assms(3) by simp
  have o: "0 \<le> lh_n (lg s)" using a(2) by (simp add: log_open_def)
  define v where "v = (if n \<in> logged (lg s) then u else buf_upd i (\<lambda>b. b\<lparr>b_refcnt := b_refcnt b + 1\<rparr>) u)"
  have w: "log_write i u = Ok () (lg_upd (\<lambda>_. log_add n (lg s)) v)"
    using log_write_eq [OF hu, of k n i] a(2) lu nu by (simp add: v_def)
  have v: "bio_inv v (insert i H) (insert n (logged (lg s))) \<and> blk v = blk u \<and> bframe (insert i H) u v"
  proof (cases "n \<in> logged (lg s)")
    case True
    then show ?thesis using u(1) by (simp add: v_def insert_absorb)
  next
    case False
    have "bpin i u = Ok () v" using hu False by (simp add: bpin_eq v_def)
    then show ?thesis using bpin_spec [OF u(1) insertI1] False nu by (simp add: wp_simps)
  qed
  have bv: "b_blockno (bufs v i) = n" "b_data (bufs v i) = d" using v nu u(5) by (simp_all add: bframe_def)
  have "tframe H s u" "tframe H u v" using bframe_tframe [OF u(3)] v bframe_tframe [of "insert i H" u v] tframe_mono by blast+
  then have sv: "tframe H s v" by (rule tframe_trans)
  have st: "\<exists>st. procs s p = (procs s p)\<lparr>p_state := st\<rparr>" for s :: "'z klog_scheme" and p
    by (rule exI [of _ "p_state (procs s p)"]) simp
  have "tframe H v (lg_upd (\<lambda>l. log_add n (lg s)) v)"
  proof -
    have "lg v = lg s" by (simp add: v_def lu buf_upd_def)
    moreover have "logged (lg s) \<subseteq> logged (log_add n (lg s))" using logged_add [OF o] by blast
    moreover have "l_start (log_add n l) = l_start l" "l_dev (log_add n l) = l_dev l" "l_outstanding (log_add n l) = l_outstanding l" for l
      by (simp_all add: log_add_def)
    ultimately show ?thesis using st [of v] by (simp add: tframe_def) (simp add: lg_upd_def)
  qed
  with sv have "tframe H s (lg_upd (\<lambda>_. log_add n (lg s)) v)" by (rule tframe_trans)
  then show ?thesis
    using w v bv u(2) assms(3) logged_add [OF o] log_add_open [OF a(2)]
    by (simp add: u_def [symmetric] wp_simps tx_def) (simp add: lg_upd_def)
qed

lemma tx_brelse:
  fixes s :: "'z klog_scheme"
  assumes "tx (insert i H) k s" "i \<notin> H"
    and "b_blockno (bufs s i) \<in> logged (lg s) \<or> b_data (bufs s i) = disk s (b_blockno (bufs s i))"
  shows "wp (brelse i s) (\<lambda>_ t. tx H k t \<and> blk t = blk s \<and> tframe H s t \<and> lg t = lg s)"
proof -
  have H: "insert i H - {i} = H" using assms(2) by simp
  have "bio_inv s (insert i H) (logged (lg s))" using assms(1) by (simp add: tx_def)
  note b = brelse_spec [OF this insertI1 assms(3), unfolded H]
  show ?thesis
    by (rule wp_mono [OF b]) (use assms(1) in \<open>auto simp: tx_def dest: bframe_tframe\<close>)
qed

text \<open>A buffer that was only read.\<close>

lemma clean_other:
  assumes "bio_inv s H L" "m \<notin> L" "m \<notin> (\<lambda>i. b_blockno (bufs s i)) ` H"
  shows "blk s m = disk s m"
proof -
  have "i \<notin> H" if "hit (bufs s) i m" for i using that assms(3) by (auto simp: hit_def)
  then show ?thesis
    using assms(1,2) lblk_cases [of "bufs s" "disk s" m] binvD(10) [of "bufs s" "disk s" "mypid s" H L _ m]
    unfolding bio_inv_def blk_def by auto
qed

lemma tx_clean:
  fixes s t :: "'z klog_scheme"
  assumes "tx H k s" "n \<notin> busy H s" "b_data (bufs t i) = blk s n" "b_blockno (bufs t i) = n" "lg t = lg s" "disk t = disk s"
  shows "b_blockno (bufs t i) \<in> logged (lg t) \<or> b_data (bufs t i) = disk t (b_blockno (bufs t i))"
proof (cases "n \<in> logged (lg s)")
  case False
  then show ?thesis using assms clean_other [of s H "logged (lg s)" n] by (simp add: tx_def)
qed (simp add: assms)

text \<open>The whole sequence: a block becomes \<open>f\<close> of what it was.\<close>

lemma tx_modify:
  fixes s :: "'z klog_scheme"
  assumes "tx H (Suc k) s" "card H \<le> Suc k" "n \<notin> busy H s"
  shows "wp (kbind (bread ROOTDEV n s) (\<lambda>i s.
      kbind (log_write i (set_data i (f (b_data (bufs s i))) s)) (\<lambda>_ s. brelse i s)))
    (\<lambda>_ t. tx H k t \<and> blk t = (blk s)(n := f (blk s n)) \<and> tframe H s t \<and> lg t = log_add n (lg s))"
  unfolding wp_kbind
proof (rule wp_mono [OF tx_bread [OF assms]], elim conjE)
  fix i and t :: "'z klog_scheme"
  assume t: "i \<notin> H" "tx (insert i H) (Suc k) t" "b_blockno (bufs t i) = n"
    "b_data (bufs t i) = blk s n" "blk t = blk s" "tframe H s t" "lg t = lg s"
  show "wp (log_write i (set_data i (f (b_data (bufs t i))) t)) (\<lambda>_ u. wp (brelse i u)
    (\<lambda>_ t. tx H k t \<and> blk t = (blk s)(n := f (blk s n)) \<and> tframe H s t \<and> lg t = log_add n (lg s)))"
  proof (rule wp_mono [OF tx_log_write [OF t(2,1,3)]], elim conjE)
    fix u :: "'z klog_scheme"
    assume u: "tx (insert i H) k u" "b_blockno (bufs u i) = n"
      "blk u = (blk t)(n := f (b_data (bufs t i)))" "tframe H t u" "lg u = log_add n (lg t)"
    have "n \<in> logged (lg u)" using t(2) by (simp add: u(5) logged_add log_open_def tx_def)
    then have c: "b_blockno (bufs u i) \<in> logged (lg u) \<or> b_data (bufs u i) = disk u (b_blockno (bufs u i))"
      by (simp add: u(2))
    show "wp (brelse i u) (\<lambda>_ t. tx H k t \<and> blk t = (blk s)(n := f (blk s n)) \<and> tframe H s t \<and> lg t = log_add n (lg s))"
      by (rule wp_mono [OF tx_brelse [OF u(1) t(1) c]]) (use t u in \<open>auto intro: tframe_trans\<close>)
  qed
qed

section \<open>The block bitmap\<close>

lemma sb_more: "klog.more t = klog.more s \<Longrightarrow> sb t = sb s \<and> itab t = itab s \<and> printed t = printed s"
  for s t :: "'z kfs_scheme"
  by (cases s; cases t) simp

lemma tframe_sb: "tframe H s t \<Longrightarrow> sb t = sb s \<and> itab t = itab s" for s t :: "'z kfs_scheme"
  using sb_more [of t s] by (simp add: tframe_def)

lemma bit_mask_bits: "bit (bit_mask a) n \<longleftrightarrow> n = a mod 8"
  by (auto simp: bit_mask_def bit_exp_iff)

lemma bit_mask_and: "bit_mask a AND bit_mask b = (if a mod 8 = b mod 8 then bit_mask a else 0)"
  by (rule bit_word_eqI) (auto simp: bit_and_iff bit_mask_bits)

lemma bit_mask_nonzero: "bit_mask a \<noteq> 0"
  using bit_mask_bits [of a "a mod 8"] by auto

lemma bit_clear_set: "bit_clear (d(b div 8 := d (b div 8) OR bit_mask b)) j \<longleftrightarrow> j \<noteq> b \<and> bit_clear d j"
proof (cases "j div 8 = b div 8")
  case True
  have "j = b \<longleftrightarrow> j mod 8 = b mod 8" using True by (metis mult_div_mod_eq)
  moreover have "(bit_mask b AND bit_mask j = 0) \<longleftrightarrow> j mod 8 \<noteq> b mod 8"
    by (simp add: bit_mask_and bit_mask_nonzero)
  moreover have "(x OR y) AND z = 0 \<longleftrightarrow> x AND z = 0 \<and> y AND z = 0" for x y z :: u8
    by (simp add: bit_eq_iff bit_simps) blast
  ultimately show ?thesis using True by (auto simp: bit_clear_def)
qed (auto simp: bit_clear_def)

lemma bit_clear_clear: "bit_clear (d(b div 8 := d (b div 8) AND NOT (bit_mask b))) j \<longleftrightarrow> j = b \<or> bit_clear d j"
proof (cases "j div 8 = b div 8")
  case True
  have e: "j = b \<longleftrightarrow> j mod 8 = b mod 8" using True by (metis mult_div_mod_eq)
  show ?thesis
  proof (cases "j = b")
    case True
    then show ?thesis by (simp add: bit_clear_def and.assoc)
  next
    case False
    then have "bit_mask b AND bit_mask j = 0" using e by (simp add: bit_mask_and)
    then have "(x AND NOT (bit_mask b)) AND bit_mask j = x AND bit_mask j" for x
      by (simp add: bit_eq_iff bit_simps) blast
    then show ?thesis using True False by (simp add: bit_clear_def)
  qed
qed (auto simp: bit_clear_def)

text \<open>A block is free when its bit is clear, in the cache or on the disk.\<close>

definition block_free :: "'z kfs_scheme \<Rightarrow> u32 \<Rightarrow> bool" where
  "block_free s n \<longleftrightarrow> bit_clear (blk s (BBLOCK n (sb s))) (unat n mod BPB)"

lemma BPB_eq: "BPB = 8192"
  by (simp add: BPB_def BSIZE_def)

lemma BBLOCK_eq:
  assumes "k * BPB + i < 2 ^ 32" "i < BPB"
  shows "BBLOCK (of_nat (k * BPB + i)) sp = of_nat k + sb_bmapstart sp" "unat (of_nat (k * BPB + i) :: u32) mod BPB = i"
proof -
  have "unat (of_nat (k * BPB + i) :: u32) = (k * BPB + i) mod 2 ^ 32"
    by (simp only: unat_of_nat take_bit_eq_mod) simp
  then have u: "unat (of_nat (k * BPB + i) :: u32) = k * BPB + i" using assms(1) by simp
  have k: "k < 2 ^ 32" using assms(1) by (simp add: BPB_eq)
  have "unat (of_nat (k * BPB + i) div of_nat BPB :: u32) = k"
    using u assms(2) by (simp add: unat_div BPB_eq)
  also have "\<dots> = unat (of_nat k :: u32)" using k by (simp add: unat_of_nat take_bit_eq_mod)
  finally have "of_nat (k * BPB + i) div of_nat BPB = (of_nat k :: u32)" by (simp add: word_unat_eq_iff)
  then show "BBLOCK (of_nat (k * BPB + i)) sp = of_nat k + sb_bmapstart sp" by (simp add: BBLOCK_def)
  show "unat (of_nat (k * BPB + i) :: u32) mod BPB = i" unfolding u using assms(2) by simp
qed

lemma bzero_spec:
  fixes s :: "'z kfs_scheme"
  assumes "tx H (Suc k) s" "card H \<le> Suc k" "n \<notin> busy H s"
  shows "wp (bzero ROOTDEV n s) (\<lambda>_ t. tx H k t \<and> blk t = (blk s)(n := splice (blk s n) 0 (\<lambda>_. 0) BSIZE) \<and>
    tframe H s t \<and> lg t = log_add n (lg s))"
  unfolding bzero_def Let_def by (rule tx_modify [OF assms, where f = "\<lambda>d. splice d 0 (\<lambda>_. 0) BSIZE"])

lemma same_bitmap_block:
  assumes "BBLOCK m sp = BBLOCK b sp" "unat m mod BPB = unat b mod BPB"
  shows "m = b"
proof -
  have e: "m div of_nat BPB = b div of_nat BPB" using assms(1) by (simp add: BBLOCK_def)
  have "unat m div 8192 = unat b div 8192" using arg_cong [OF e, of unat] by (simp add: unat_div BPB_eq)
  then have "unat m = unat b" using assms(2) by (metis BPB_eq mult_div_mod_eq)
  then show ?thesis by (simp add: word_unat_eq_iff)
qed

text \<open>
  C24: \<open>bfree\<close> panics on a block that is free already. Otherwise, inside an operation with room in
  the log, it returns; the block is free afterwards, every other block is free or in use as
  before, and no block but the one with the bit has changed.
\<close>

theorem bfree_frees:
  fixes s :: "'z kfs_scheme"
  assumes "tx {} (Suc k) s"
  shows "if block_free s b then bfree ROOTDEV b s = Panic ''freeing free block''
    else wp (bfree ROOTDEV b s) (\<lambda>_ t. tx {} k t \<and> (\<forall>m. block_free t m \<longleftrightarrow> m = b \<or> block_free s m) \<and>
      (\<forall>n. n \<noteq> BBLOCK b (sb s) \<longrightarrow> blk t n = blk s n))"
proof -
  let ?n = "BBLOCK b (sb s)" and ?bi = "unat b mod BPB"
  obtain i t where r: "bread ROOTDEV ?n s = Ok i t" and t: "b_data (bufs t i) = blk s ?n"
    using tx_bread [OF assms, of ?n] unfolding wp_iff by auto
  show ?thesis
  proof (cases "block_free s b")
    case True
    then show ?thesis using r t by (simp add: bfree_def Let_def block_free_def)
  next
    case False
    define f where "f d = d(?bi div 8 := d (?bi div 8) AND NOT (bit_mask ?bi))" for d :: bytes
    have "bfree ROOTDEV b s = kbind (bread ROOTDEV ?n s) (\<lambda>i s.
        kbind (log_write i (set_data i (f (b_data (bufs s i))) s)) (\<lambda>_ s. brelse i s))"
      using False r t by (simp add: bfree_def Let_def block_free_def f_def)
    then have w: "wp (bfree ROOTDEV b s) (\<lambda>_ t. tx {} k t \<and> blk t = (blk s)(?n := f (blk s ?n)) \<and> tframe {} s t \<and>
        lg t = log_add ?n (lg s))"
      using tx_modify [OF assms, of ?n f] by simp
    have fr: "block_free u m \<longleftrightarrow> m = b \<or> block_free s m"
      if u: "blk u = (blk s)(?n := f (blk s ?n))" "tframe {} s u" for u :: "'z kfs_scheme" and m
    proof (cases "BBLOCK m (sb s) = ?n")
      case True
      then have "m = b \<longleftrightarrow> unat m mod BPB = ?bi" using same_bitmap_block by blast
      then show ?thesis
        using tframe_sb [OF u(2)] True by (simp add: block_free_def u(1) f_def bit_clear_clear)
    next
      case False
      then show ?thesis using tframe_sb [OF u(2)] by (auto simp: block_free_def u(1))
    qed
    show ?thesis using False by (simp, intro wp_mono [OF w]) (use fr in auto)
  qed
qed

section \<open>Allocation of a block\<close>

abbreviation fs_size :: "'z kfs_scheme \<Rightarrow> nat" where "fs_size s \<equiv> unat (sb_size (sb s))"

definition set_bit :: "nat \<Rightarrow> bytes \<Rightarrow> bytes" where
  "set_bit bi d = d(bi div 8 := d (bi div 8) OR bit_mask bi)"

definition zeroed :: "bytes \<Rightarrow> bytes" where
  "zeroed d = splice d 0 (\<lambda>_. 0) BSIZE"

text \<open>The state after the allocation of \<open>b\<close>: its bit set, and then the block zeroed.\<close>

definition allocated :: "u32 \<Rightarrow> 'z kfs_scheme \<Rightarrow> u32 \<Rightarrow> bytes" where
  "allocated b s = (let D = (blk s)(BBLOCK b (sb s) := set_bit (unat b mod BPB) (blk s (BBLOCK b (sb s)))) in D(b := zeroed (D b)))"

text \<open>The buffers in use hold blocks that are neither free nor of the bitmap.\<close>

definition busy_ok :: "nat set \<Rightarrow> nat \<Rightarrow> 'z kfs_scheme \<Rightarrow> bool" where
  "busy_ok H k s \<longleftrightarrow> card H \<le> Suc k \<and> (\<forall>m\<in>busy H s. \<not> block_free s m \<and>
    (\<forall>q. q * BPB < fs_size s \<longrightarrow> BBLOCK (of_nat (q * BPB)) (sb s) \<noteq> m))"

lemma busy_ok_empty [simp]: "busy_ok {} k s"
  by (simp add: busy_ok_def)

lemma unat_lt32: "unat (a :: u32) < 2 ^ 32"
  using unsigned_less [of a] by simp

lemma balloc_block_spec:
  fixes s :: "'z kfs_scheme"
  assumes "tx H (Suc (Suc k)) s" "q * BPB < fs_size s" "busy_ok H k s"
  shows "wp (balloc_block ROOTDEV (q * BPB) s) (\<lambda>r t. case r of
      None \<Rightarrow> tx H (Suc (Suc k)) t \<and> blk t = blk s \<and> tframe H s t \<and>
        (\<forall>i<BPB. q * BPB + i < fs_size s \<longrightarrow> \<not> block_free s (of_nat (q * BPB + i)))
    | Some b \<Rightarrow> tx H k t \<and> tframe H s t \<and> blk t = allocated b s \<and> block_free s b \<and>
        (\<exists>i<BPB. b = of_nat (q * BPB + i) \<and> q * BPB + i < fs_size s \<and>
          (\<forall>j<i. \<not> block_free s (of_nat (q * BPB + j)))))"
proof -
  have card: "card H \<le> Suc k" and busy: "BBLOCK (of_nat (q * BPB)) (sb s) \<notin> busy H s" "\<And>m. m \<in> busy H s \<Longrightarrow> \<not> block_free s m"
    using assms(2,3) unfolding busy_ok_def by blast+
  have small: "q * BPB + i < 2 ^ 32" if "q * BPB + i < fs_size s" for i
    using that unat_lt32 [of "sb_size (sb s)"] by linarith
  let ?n = "BBLOCK (of_nat (q * BPB)) (sb s)"
  have n: "BBLOCK (of_nat (q * BPB + i)) (sb s) = ?n" "unat (of_nat (q * BPB + i) :: u32) mod BPB = i"
    if "q * BPB + i < fs_size s" "i < BPB" for i
    using BBLOCK_eq(1) [OF small [OF that(1)] that(2), of "sb s"] BBLOCK_eq(2) [OF small [OF that(1)] that(2)]
      BBLOCK_eq(1) [of q 0 "sb s"] small [of 0] assms(2)
    by (simp_all add: BPB_eq del: of_nat_add of_nat_mult)
  have free: "block_free s (of_nat (q * BPB + i)) \<longleftrightarrow> bit_clear (blk s ?n) i" if "q * BPB + i < fs_size s" "i < BPB" for i
    unfolding block_free_def n [OF that] ..
  obtain i t where r: "bread ROOTDEV ?n s = Ok i t" and t: "i \<notin> H" "tx (insert i H) (Suc (Suc k)) t"
    "b_blockno (bufs t i) = ?n" "b_data (bufs t i) = blk s ?n" "blk t = blk s" "tframe H s t" "lg t = lg s"
    using tx_bread [OF assms(1) _ busy(1)] card unfolding wp_iff by auto
  have sb: "sb t = sb s" using tframe_sb [OF t(6)] by simp
  let ?sc = "scan (\<lambda>bi. q * BPB + bi < fs_size s \<and> bit_clear (blk s ?n) bi) BPB"
  show ?thesis
  proof (cases ?sc)
    case None
    have c: "b_blockno (bufs t i) \<in> logged (lg t) \<or> b_data (bufs t i) = disk t (b_blockno (bufs t i))"
      by (rule tx_clean [OF assms(1) busy(1) t(4,3,7)]) (use t(6) in \<open>simp add: tframe_def\<close>)
    have "\<forall>i<BPB. q * BPB + i < fs_size s \<longrightarrow> \<not> block_free s (of_nat (q * BPB + i))"
      using None free by (auto simp: scan_None simp del: of_nat_add of_nat_mult)
    then show ?thesis
      using tx_brelse [OF t(2,1) c] None t
      by (auto simp: balloc_block_def r sb Let_def wp_kbind wp_simps elim!: wp_mono intro: tframe_trans
          simp del: of_nat_add of_nat_mult)
  next
    case (Some bi)
    then have bi: "bi < BPB" "q * BPB + bi < fs_size s" "bit_clear (blk s ?n) bi"
      "\<And>j. j < bi \<Longrightarrow> q * BPB + j < fs_size s \<Longrightarrow> \<not> bit_clear (blk s ?n) j"
      by (auto simp: scan_Some)
    let ?b = "of_nat (q * BPB + bi) :: u32"
    have bm: "BBLOCK ?b (sb s) = ?n" "unat ?b mod BPB = bi" by (rule n [OF bi(2,1)])+
    have lowest: "\<forall>j<bi. \<not> block_free s (of_nat (q * BPB + j))"
      using bi free by (simp del: of_nat_add of_nat_mult)
    obtain u where lw: "log_write i (set_data i (set_bit bi (blk s ?n)) t) = Ok () u"
      and u: "tx (insert i H) (Suc k) u" "b_blockno (bufs u i) = ?n"
        "blk u = (blk t)(?n := set_bit bi (blk s ?n))" "tframe H t u" "lg u = log_add ?n (lg t)"
      using tx_log_write [OF t(2,1,3), of "set_bit bi (blk s ?n)"] unfolding wp_iff by auto
    have "?n \<in> logged (lg u)" using t(2) by (simp add: u(5) logged_add log_open_def tx_def)
    then have c: "b_blockno (bufs u i) \<in> logged (lg u) \<or> b_data (bufs u i) = disk u (b_blockno (bufs u i))"
      by (simp add: u(2))
    obtain v where br: "brelse i u = Ok () v" and v: "tx H (Suc k) v" "blk v = blk u" "tframe H u v"
      using tx_brelse [OF u(1) t(1) c] unfolding wp_iff by auto
    have "tframe H s v" using t(6) u(4) v(3) tframe_trans by blast
    then have nb: "?b \<notin> busy H v" using busy(2) [of ?b] free [OF bi(2,1)] bi(3) tframe_busy by blast
    obtain w where bz: "bzero ROOTDEV ?b v = Ok () w" and w: "tx H k w" "blk w = (blk v)(?b := zeroed (blk v ?b))" "tframe H v w"
      using bzero_spec [OF v(1) card, of ?b] nb unfolding wp_iff zeroed_def by auto
    have "balloc_block ROOTDEV (q * BPB) s = Ok (Some ?b) w"
      using Some by (simp add: balloc_block_def r sb Let_def t(4) lw [unfolded set_bit_def] br bz del: of_nat_add of_nat_mult)
    moreover have "blk w = allocated ?b s"
      by (simp add: allocated_def Let_def bm w(2) v(2) u(3) t(5) del: of_nat_add of_nat_mult)
    moreover have "tframe H s w" using t(6) u(4) v(3) w(3) tframe_trans by blast
    moreover have "block_free s ?b" using free [OF bi(2,1)] bi(3) by simp
    ultimately show ?thesis using w(1) bi(1,2) lowest by (auto simp: wp_simps simp del: of_nat_add of_nat_mult)
  qed
qed

lemma free_below:
  assumes "\<forall>q<Q. \<forall>i<BPB. q * BPB + i < fs_size s \<longrightarrow> \<not> block_free s (of_nat (q * BPB + i))"
    and "unat n < Q * BPB" "unat n < fs_size s"
  shows "\<not> block_free s n"
proof -
  have "n = of_nat (unat n div BPB * BPB + unat n mod BPB)" by simp
  moreover have "unat n div BPB < Q" using assms(2) by (simp add: less_mult_imp_div_less)
  moreover have "unat n mod BPB < BPB" by (simp add: BPB_eq)
  ultimately show ?thesis using assms(1,3) by (metis div_mult_mod_eq)
qed

lemma block_free_cong: "blk t = blk s \<Longrightarrow> sb t = sb s \<Longrightarrow> block_free t n = block_free s n"
  by (simp add: block_free_def)

lemma allocated_cong: "blk t = blk s \<Longrightarrow> sb t = sb s \<Longrightarrow> allocated n t = allocated n s"
  by (simp add: allocated_def)

lemma allocated_free:
  assumes "blk t = allocated b s" "sb t = sb s" "b \<noteq> BBLOCK m (sb s)"
  shows "block_free t m \<longleftrightarrow> m \<noteq> b \<and> block_free s m"
proof (cases "BBLOCK m (sb s) = BBLOCK b (sb s)")
  case True
  then have "m = b \<longleftrightarrow> unat m mod BPB = unat b mod BPB" using same_bitmap_block by blast
  then show ?thesis using True assms by (simp add: block_free_def allocated_def Let_def set_bit_def bit_clear_set)
next
  case False
  then show ?thesis using assms by (auto simp: block_free_def allocated_def Let_def)
qed

text \<open>The bitmap block \<open>q\<close> has no free block; the lowest free block.\<close>

definition bitmap_full :: "'z kfs_scheme \<Rightarrow> nat \<Rightarrow> bool" where
  "bitmap_full s q \<longleftrightarrow> (\<forall>i<BPB. q * BPB + i < fs_size s \<longrightarrow> \<not> block_free s (of_nat (q * BPB + i)))"

definition lowest_free :: "'z kfs_scheme \<Rightarrow> u32 \<Rightarrow> bool" where
  "lowest_free s b \<longleftrightarrow> block_free s b \<and> unat b < fs_size s \<and> (\<forall>n<b. \<not> block_free s n)"

lemma lowest_free_found:
  assumes "\<forall>p<q. bitmap_full s p" "block_free s a" "a = of_nat (q * BPB + i)" "i < BPB" "q * BPB + i < fs_size s"
    and "\<forall>j<i. \<not> block_free s (of_nat (q * BPB + j))"
  shows "lowest_free s a"
proof -
  have "unat a = (q * BPB + i) mod 2 ^ 32" unfolding assms(3) by (simp only: unat_of_nat take_bit_eq_mod) simp
  then have ua: "unat a = q * BPB + i" using assms(5) unat_lt32 [of "sb_size (sb s)"] by simp
  have "\<not> block_free s n" if n: "n < a" for n
  proof (cases "unat n < q * BPB")
    case True
    have "unat n < fs_size s" using True assms(5) by linarith
    with True show ?thesis using assms(1) free_below [of q s n] by (auto simp: bitmap_full_def)
  next
    case False
    then obtain m where m: "unat n = q * BPB + m" by (metis le_iff_add not_less)
    then have "m < i" using n ua by (simp add: word_less_nat_alt)
    moreover have "n = of_nat (q * BPB + m)" unfolding m [symmetric] by simp
    ultimately show ?thesis using assms(6) by blast
  qed
  then show ?thesis using assms(2,5) ua by (simp add: lowest_free_def)
qed

lemma blk_printk [simp]: "blk (printk msg s) = blk s"
  by (rule ext) (simp add: blk_def printk_def)

lemma bitmap_cong:
  assumes "blk t = blk s" "sb t = sb s"
  shows "bitmap_full t q = bitmap_full s q" "lowest_free t b = lowest_free s b" "allocated b t = allocated b s"
  using assms block_free_cong [OF assms] by (simp_all add: bitmap_full_def lowest_free_def allocated_def)

definition scanned :: "nat set \<Rightarrow> nat \<Rightarrow> 'z kfs_scheme \<Rightarrow> nat \<Rightarrow> 'z kfs_scheme \<Rightarrow> bool" where
  "scanned H k s q t \<longleftrightarrow> tx H (Suc (Suc k)) t \<and> blk t = blk s \<and> tframe H s t \<and> (\<forall>p<q. bitmap_full s p)"

lemma balloc_step:
  fixes s :: "'z kfs_scheme"
  assumes "scanned H k s q t" "q * BPB < fs_size s" "busy_ok H k s"
  shows "wp (balloc_block ROOTDEV (q * BPB) t) (\<lambda>r u. case r of
    None \<Rightarrow> scanned H k s (Suc q) u | Some b \<Rightarrow> tx H k u \<and> tframe H s u \<and> blk u = allocated b s \<and> lowest_free s b)"
proof -
  have t: "tx H (Suc (Suc k)) t" "blk t = blk s" "tframe H s t" "\<forall>p<q. bitmap_full s p"
    using assms(1) by (simp_all add: scanned_def)
  have sb: "sb t = sb s" using tframe_sb [OF t(3)] by simp
  note eqs = sb block_free_cong [OF t(2) sb] bitmap_cong(3) [OF t(2) sb]
  have "q * BPB < fs_size t" using assms(2) sb by simp
  moreover have "busy_ok H k t" using assms(3) tframe_busy [OF t(3)] by (simp add: busy_ok_def eqs)
  ultimately have w: "q * BPB < fs_size t" "busy_ok H k t" by simp_all
  from balloc_block_spec [OF t(1) w] show ?thesis
  proof (rule wp_mono)
    fix r and u :: "'z kfs_scheme"
    assume c: "case r of
      None \<Rightarrow> tx H (Suc (Suc k)) u \<and> blk u = blk t \<and> tframe H t u \<and>
        (\<forall>i<BPB. q * BPB + i < fs_size t \<longrightarrow> \<not> block_free t (of_nat (q * BPB + i)))
    | Some b \<Rightarrow> tx H k u \<and> tframe H t u \<and> blk u = allocated b t \<and> block_free t b \<and>
        (\<exists>i<BPB. b = of_nat (q * BPB + i) \<and> q * BPB + i < fs_size t \<and>
          (\<forall>j<i. \<not> block_free t (of_nat (q * BPB + j))))"
    show "case r of None \<Rightarrow> scanned H k s (Suc q) u
      | Some b \<Rightarrow> tx H k u \<and> tframe H s u \<and> blk u = allocated b s \<and> lowest_free s b"
    proof (cases r)
      case None
      then have "bitmap_full s q" using c by (simp add: bitmap_full_def eqs del: of_nat_add of_nat_mult)
      then show ?thesis using None c t by (auto simp: scanned_def less_Suc_eq intro: tframe_trans)
    next
      case (Some a)
      then obtain i where "i < BPB" "a = of_nat (q * BPB + i)" "q * BPB + i < fs_size s" "block_free s a"
        "\<forall>j<i. \<not> block_free s (of_nat (q * BPB + j))"
        using c by (auto simp: eqs simp del: of_nat_add of_nat_mult)
      then have "lowest_free s a" using lowest_free_found [OF t(4)] by blast
      then show ?thesis using Some c t(3) by (auto simp: eqs intro: tframe_trans)
    qed
  qed
qed

lemma balloc_scan:
  fixes s :: "'z kfs_scheme"
  assumes "tx H (Suc (Suc k)) s" "busy_ok H k s"
  shows "wp (kscan (balloc_block ROOTDEV) (map (\<lambda>k. k * BPB) [0..<(fs_size s + BPB - 1) div BPB]) s) (\<lambda>r t. case r of
    None \<Rightarrow> scanned H k s ((fs_size s + BPB - 1) div BPB) t
  | Some b \<Rightarrow> tx H k t \<and> tframe H s t \<and> blk t = allocated b s \<and> lowest_free s b)"
proof -
  define Q where "Q = (fs_size s + BPB - 1) div BPB"
  let ?xs = "map (\<lambda>k. k * BPB) [0..<Q]"
  have "wp (kscan (balloc_block ROOTDEV) ?xs s) (\<lambda>r t. case r of None \<Rightarrow> scanned H k s (length ?xs) t
    | Some b \<Rightarrow> tx H k t \<and> tframe H s t \<and> blk t = allocated b s \<and> lowest_free s b)"
  proof (rule wp_kscan [where I = "\<lambda>ys t. scanned H k s (length ys) t"])
    fix ys b zs t
    assume x: "?xs = ys @ b # zs" and i: "scanned H k s (length ys) t"
    have l: "length ys < Q" using arg_cong [OF x, of length] by simp
    have "?xs ! length ys = b" unfolding x by simp
    then have b: "b = length ys * BPB" using l by simp
    have "length ys * BPB + BPB \<le> Q * BPB" using l by (metis Suc_leI mult_Suc add.commute mult_le_mono1)
    also have "\<dots> \<le> fs_size s + BPB - 1" by (simp add: Q_def)
    finally have "length ys * BPB < fs_size s" by (simp add: BPB_eq)
    have len: "length (ys @ [b]) = Suc (length ys)" by simp
    from balloc_step [OF i \<open>length ys * BPB < fs_size s\<close> assms(2)] show "wp (balloc_block ROOTDEV b t) (\<lambda>r u. case r of
        None \<Rightarrow> scanned H k s (length (ys @ [b])) u | Some b \<Rightarrow> tx H k u \<and> tframe H s u \<and> blk u = allocated b s \<and> lowest_free s b)"
      unfolding len unfolding b .
  qed (use assms in \<open>simp add: scanned_def\<close>)
  moreover have "length ?xs = Q" by simp
  ultimately show ?thesis unfolding Q_def by metis
qed

text \<open>What \<open>balloc\<close> does, for its callers; it prints a message when there is no free block.\<close>

lemma balloc_spec:
  fixes s :: "'z kfs_scheme"
  assumes "tx H (Suc (Suc k)) s" "busy_ok H k s"
  shows "wp (balloc ROOTDEV s) (\<lambda>b t. if \<forall>n. unat n < fs_size s \<longrightarrow> \<not> block_free s n
    then b = 0 \<and> (\<exists>u. t = printk ''balloc: out of blocks'' u \<and> tx H (Suc (Suc k)) u \<and> blk u = blk s \<and> tframe H s u)
    else lowest_free s b \<and> tx H k t \<and> blk t = allocated b s \<and> tframe H s t)"
proof -
  define Q where "Q = (fs_size s + BPB - 1) div BPB"
  have Q: "n < Q * BPB" if "n < fs_size s" for n
  proof -
    have "fs_size s + BPB - 1 < Q * BPB + BPB"
      using div_mult_mod_eq [of "fs_size s + BPB - 1" BPB] mod_less_divisor [of BPB "fs_size s + BPB - 1"]
      unfolding Q_def by (simp add: BPB_eq)
    then show ?thesis using that by (simp add: BPB_eq)
  qed
  obtain r t where sc: "kscan (balloc_block ROOTDEV) (map (\<lambda>k. k * BPB) [0..<Q]) s = Ok r t"
    and t: "case r of None \<Rightarrow> scanned H k s Q t | Some b \<Rightarrow> tx H k t \<and> tframe H s t \<and> blk t = allocated b s \<and> lowest_free s b"
    using balloc_scan [OF assms] unfolding wp_iff Q_def by blast
  have bal: "balloc ROOTDEV s = (case r of Some b \<Rightarrow> Ok b t | None \<Rightarrow> Ok 0 (printk ''balloc: out of blocks'' t))"
    using sc by (simp add: balloc_def Q_def)
  show ?thesis
  proof (cases r)
    case None
    then have t: "scanned H k s Q t" using t by simp
    then have "\<forall>n. unat n < fs_size s \<longrightarrow> \<not> block_free s n"
      using free_below [of Q s] Q by (auto simp: bitmap_full_def scanned_def)
    then show ?thesis using None t by (auto simp: bal wp_simps scanned_def)
  next
    case (Some b)
    then show ?thesis using t by (auto simp: bal wp_simps lowest_free_def)
  qed
qed

text \<open>
  C23: \<open>balloc\<close>, inside an operation with room for two blocks in the log, returns. When no block
  below the size of the file system is free it returns 0 and has changed no block. Otherwise it
  returns the lowest free one, which then is in use and full of zeros, while every other block
  keeps its state and all blocks but this one and the one with its bit keep their contents. The
  bitmap itself is taken to be marked as in use.
\<close>

theorem balloc_lowest_free:
  fixes s :: "'z kfs_scheme"
  assumes "tx {} (Suc (Suc k)) s" "\<forall>m. unat m < fs_size s \<longrightarrow> \<not> block_free s (BBLOCK m (sb s))"
  shows "wp (balloc ROOTDEV s) (\<lambda>b t.
    if \<forall>n. unat n < fs_size s \<longrightarrow> \<not> block_free s n then b = 0 \<and> blk t = blk s
    else unat b < fs_size s \<and> block_free s b \<and> (\<forall>n<b. \<not> block_free s n) \<and>
      (\<forall>n. unat n < fs_size s \<longrightarrow> (block_free t n \<longleftrightarrow> n \<noteq> b \<and> block_free s n)) \<and>
      (\<forall>j<BSIZE. blk t b j = 0) \<and> (\<forall>n. n \<noteq> b \<and> n \<noteq> BBLOCK b (sb s) \<longrightarrow> blk t n = blk s n))"
proof (rule wp_mono [OF balloc_spec [OF assms(1) busy_ok_empty]])
  fix b and t :: "'z kfs_scheme"
  assume t: "if \<forall>n. unat n < fs_size s \<longrightarrow> \<not> block_free s n
    then b = 0 \<and> (\<exists>u. t = printk ''balloc: out of blocks'' u \<and> tx {} (Suc (Suc k)) u \<and> blk u = blk s \<and> tframe {} s u)
    else lowest_free s b \<and> tx {} k t \<and> blk t = allocated b s \<and> tframe {} s t"
  show "if \<forall>n. unat n < fs_size s \<longrightarrow> \<not> block_free s n then b = 0 \<and> blk t = blk s
    else unat b < fs_size s \<and> block_free s b \<and> (\<forall>n<b. \<not> block_free s n) \<and>
      (\<forall>n. unat n < fs_size s \<longrightarrow> (block_free t n \<longleftrightarrow> n \<noteq> b \<and> block_free s n)) \<and>
      (\<forall>j<BSIZE. blk t b j = 0) \<and> (\<forall>n. n \<noteq> b \<and> n \<noteq> BBLOCK b (sb s) \<longrightarrow> blk t n = blk s n)"
  proof (cases "\<forall>n. unat n < fs_size s \<longrightarrow> \<not> block_free s n")
    case True
    then show ?thesis using t by auto
  next
    case False
    then have l: "lowest_free s b" "blk t = allocated b s" "tframe {} s t" unfolding if_not_P [OF False] using t by auto
    then have "b \<noteq> BBLOCK m (sb s)" if "unat m < fs_size s" for m using assms(2) that by (auto simp: lowest_free_def)
    then have "\<forall>n. unat n < fs_size s \<longrightarrow> (block_free t n \<longleftrightarrow> n \<noteq> b \<and> block_free s n)"
      using allocated_free [OF l(2)] tframe_sb [OF l(3)] by blast
    moreover have "\<forall>j<BSIZE. blk t b j = 0" by (simp add: l(2) allocated_def Let_def zeroed_def splice_def)
    moreover have "\<forall>n. n \<noteq> b \<and> n \<noteq> BBLOCK b (sb s) \<longrightarrow> blk t n = blk s n" by (simp add: l(2) allocated_def Let_def)
    ultimately show ?thesis using l(1) unfolding if_not_P [OF False] by (simp add: lowest_free_def)
  qed
qed

section \<open>A concrete file system\<close>

text \<open>
  A disk whose first 47 blocks, the ones in front of the data, are marked as in use, and the state
  in which \<open>begin_op\<close> has just let an operation in.
\<close>

definition demo_bitmap :: bytes where
  "demo_bitmap = (\<lambda>i. if i < 5 then mask 8 else if i = 5 then mask 7 else 0)"

definition demo_fs :: kfs where
  "demo_fs = binit \<lparr>held = {}, pmem = (\<lambda>_. 0), freelist = 0, kend = 0x80022000,
    procs = (\<lambda>_. demo_proc), curproc = Some 0, nextpid = 2, initproc = Some 0,
    kernel_pagetable = 0, satp = 0, etext = 0x80008000, trampoline = 0x80007000, forkret_addr = 0x80001000,
    bufs = (\<lambda>_. \<lparr>b_valid = False, b_disk = False, b_dev = 0, b_blockno = 0, b_lock = initsleeplock,
      b_refcnt = 0, b_prev = 0, b_next = 0, b_data = (\<lambda>_. 0)\<rparr>),
    disk = (\<lambda>n. if n = 46 then demo_bitmap else (\<lambda>_. 7)), writes = [],
    lg = \<lparr>l_start = 2, l_outstanding = 1, l_committing = False, l_dev = ROOTDEV, lh_n = 0, lh_block = (\<lambda>_. 0)\<rparr>,
    sb = \<lparr>sb_magic = FSMAGIC, sb_size = 2000, sb_nblocks = 1953, sb_ninodes = 200, sb_nlog = 31,
      sb_logstart = 2, sb_inodestart = 33, sb_bmapstart = 46\<rparr>,
    itab = (\<lambda>_. \<lparr>i_dev = 0, i_inum = 0, i_ref = 0, i_lock = initsleeplock, i_valid = False, i_type = 0,
      i_major = 0, i_minor = 0, i_nlink = 0, i_size = 0, i_addrs = (\<lambda>_. 0)\<rparr>),
    printed = []\<rparr>"

lemma demo_fs_fields:
  "bio_inv demo_fs {} {}" "blk demo_fs n = (if n = 46 then demo_bitmap else (\<lambda>_. 7))"
  "sb_size (sb demo_fs) = 2000" "sb_bmapstart (sb demo_fs) = 46" "lh_n (lg demo_fs) = 0" "l_outstanding (lg demo_fs) = 1"
proof -
  show i: "bio_inv demo_fs {} {}" unfolding demo_fs_def by (rule binit_inv) simp_all
  have d: "disk (binit s) = disk s" "kbio.more (binit s) = kbio.more s" for s :: "'z kbio_scheme"
    by (simp_all add: binit_def Let_def binit_loop_disk buf_upd_def)
  have "disk demo_fs = (\<lambda>n. if n = 46 then demo_bitmap else (\<lambda>_. 7))"
    unfolding demo_fs_def d(1) by simp
  with clean_block [OF i, of n] show "blk demo_fs n = (if n = 46 then demo_bitmap else (\<lambda>_. 7))" by simp
  have "lg (binit s) = lg s \<and> sb (binit s) = sb s" for s :: kfs
    using klog_more [of "binit s" s] sb_more [of "binit s" s] d(2) [of s] by simp
  then show "sb_size (sb demo_fs) = 2000" "sb_bmapstart (sb demo_fs) = 46" "lh_n (lg demo_fs) = 0"
    "l_outstanding (lg demo_fs) = 1"
    by (simp_all add: demo_fs_def)
qed

lemma demo_tx: "tx {} (Suc (Suc 0)) demo_fs"
  by (simp add: tx_def logged_def log_open_def demo_fs_fields LOGBLOCKS_def MAXOPBLOCKS_def)

lemma bit_clear_bit: "bit_clear d i \<longleftrightarrow> \<not> bit (d (i div 8)) (i mod 8)"
proof
  assume "bit_clear d i"
  then have "\<not> bit (d (i div 8) AND bit_mask i) (i mod 8)" by (simp add: bit_clear_def)
  then show "\<not> bit (d (i div 8)) (i mod 8)" by (simp add: bit_and_iff bit_mask_bits)
next
  assume n: "\<not> bit (d (i div 8)) (i mod 8)"
  have "d (i div 8) AND bit_mask i = 0"
    by (rule bit_word_eqI) (use n in \<open>auto simp: bit_and_iff bit_mask_bits\<close>)
  then show "bit_clear d i" by (simp add: bit_clear_def)
qed

lemma demo_bitmap_clear: "i < 2000 \<Longrightarrow> bit_clear demo_bitmap i \<longleftrightarrow> 47 \<le> i"
proof -
  assume "i < 2000"
  have b: "bit_clear demo_bitmap i \<longleftrightarrow> \<not> bit (demo_bitmap (i div 8)) (i mod 8)"
    by (rule bit_clear_bit)
  have "bit (demo_bitmap (i div 8)) (i mod 8) \<longleftrightarrow> i div 8 < 5 \<or> i div 8 = 5 \<and> i mod 8 < 7"
    by (auto simp: demo_bitmap_def bit_mask_iff)
  moreover have "\<not> (i div 8 < 5 \<or> i div 8 = 5 \<and> i mod 8 < 7) \<longleftrightarrow> 47 \<le> i" by presburger
  ultimately show ?thesis unfolding b by blast
qed

lemma demo_free: "unat n < 2000 \<Longrightarrow> block_free demo_fs n \<longleftrightarrow> 47 \<le> unat n"
proof -
  assume n: "unat n < 2000"
  have "unat n div 8192 = 0" using n by simp
  then have "n div 8192 = 0" by (simp add: word_unat_eq_iff unat_div)
  then have "BBLOCK n (sb demo_fs) = 46" by (simp add: BBLOCK_def BPB_eq demo_fs_fields)
  moreover have "unat n mod BPB = unat n" using n by (simp add: BPB_eq)
  ultimately show ?thesis using n by (simp add: block_free_def demo_fs_fields demo_bitmap_clear)
qed

lemma balloc_lowest_free_witness:
  "\<exists>t. balloc ROOTDEV demo_fs = Ok 47 t \<and> \<not> block_free t 47 \<and> blk t 47 0 = 0"
proof -
  have "BBLOCK m (sb demo_fs) = 46" if m: "unat m < 2000" for m
  proof -
    have "unat m div 8192 = 0" using m by simp
    then have "m div 8192 = 0" by (simp add: word_unat_eq_iff unat_div)
    then show ?thesis by (simp add: BBLOCK_def BPB_eq demo_fs_fields)
  qed
  then have u: "\<forall>m. unat m < fs_size demo_fs \<longrightarrow> \<not> block_free demo_fs (BBLOCK m (sb demo_fs))"
    by (simp add: demo_fs_fields demo_free)
  have f: "\<not> (\<forall>n. unat n < fs_size demo_fs \<longrightarrow> \<not> block_free demo_fs n)"
    by (auto simp: demo_fs_fields demo_free intro!: exI [of _ 47])
  have "wp (balloc ROOTDEV demo_fs) (\<lambda>b t. unat b < fs_size demo_fs \<and> block_free demo_fs b \<and>
      (\<forall>n<b. \<not> block_free demo_fs n) \<and>
      (\<forall>n. unat n < fs_size demo_fs \<longrightarrow> (block_free t n \<longleftrightarrow> n \<noteq> b \<and> block_free demo_fs n)) \<and>
      (\<forall>j<BSIZE. blk t b j = 0) \<and> (\<forall>n. n \<noteq> b \<and> n \<noteq> BBLOCK b (sb demo_fs) \<longrightarrow> blk t n = blk demo_fs n))"
    using balloc_lowest_free [OF demo_tx u] unfolding if_not_P [OF f] .
  then obtain b t where t: "balloc ROOTDEV demo_fs = Ok b t" "unat b < 2000" "block_free demo_fs b"
    "\<forall>n<b. \<not> block_free demo_fs n" "\<forall>n. unat n < 2000 \<longrightarrow> (block_free t n \<longleftrightarrow> n \<noteq> b \<and> block_free demo_fs n)"
    "\<forall>j<BSIZE. blk t b j = 0"
    unfolding wp_iff demo_fs_fields(3) by auto
  have "block_free demo_fs 47" by (simp add: demo_free)
  then have "\<not> 47 < b" using t(4) by blast
  moreover have "47 \<le> unat b" using t(2,3) demo_free by blast
  ultimately have "b = 47" by (simp add: word_unat_eq_iff word_less_nat_alt)
  then show ?thesis using t by (auto simp: BSIZE_def)
qed

lemma bfree_frees_witness:
  "bfree ROOTDEV 100 demo_fs = Panic ''freeing free block'' \<and>
    (\<exists>t. bfree ROOTDEV 3 demo_fs = Ok () t \<and> block_free t 3)"
proof -
  have "block_free demo_fs 100" "\<not> block_free demo_fs 3" by (simp_all add: demo_free)
  with bfree_frees [OF demo_tx, of 100] bfree_frees [OF demo_tx, of 3] show ?thesis
    by (auto simp: wp_iff)
qed

end
