(* ===== verification/Filedata.thy ===== *)
theory Filedata
  imports Transact
begin

text \<open>
  The contents of a file as \<^verbatim>\<open>kernel/fs.c\<close> keeps them: the blocks that an inode lists, directly and in its
  indirect block, seen through the buffer cache; and \<open>bmap\<close>, which finds or allocates them.
\<close>

section \<open>The blocks of a file\<close>

text \<open>
  The address of block \<open>k\<close> of a file with the addresses \<open>a\<close>, where \<open>D\<close> are the blocks of the disk; 0 is
  a hole. \<open>fbyte a D\<close> are the bytes of the file.
\<close>

definition iaddr :: "(nat \<Rightarrow> u32) \<Rightarrow> (u32 \<Rightarrow> bytes) \<Rightarrow> nat \<Rightarrow> u32" where
  "iaddr a D k = (if k < NDIRECT then a k else if a NDIRECT = 0 then 0 else get32 (D (a NDIRECT)) (4 * (k - NDIRECT)))"

definition fbyte :: "(nat \<Rightarrow> u32) \<Rightarrow> (u32 \<Rightarrow> bytes) \<Rightarrow> nat \<Rightarrow> u8" where
  "fbyte a D i = (if iaddr a D (i div BSIZE) = 0 then 0 else D (iaddr a D (i div BSIZE)) (i mod BSIZE))"

definition fblocks :: "(nat \<Rightarrow> u32) \<Rightarrow> (u32 \<Rightarrow> bytes) \<Rightarrow> u32 set" where
  "fblocks a D = (iaddr a D ` {..<MAXFILE} \<union> {a NDIRECT}) - {0}"

text \<open>No block is listed twice.\<close>

definition listed_once :: "(nat \<Rightarrow> u32) \<Rightarrow> u32 \<Rightarrow> bool" where
  "listed_once f c \<longleftrightarrow> (\<forall>j<MAXFILE. \<forall>k<MAXFILE. f j \<noteq> 0 \<longrightarrow> f j = f k \<longrightarrow> j = k) \<and> (\<forall>k<MAXFILE. f k \<noteq> 0 \<longrightarrow> f k \<noteq> c)"

lemma iaddr_cong:
  "(\<And>b. b \<in> fblocks a D \<Longrightarrow> D' b = D b) \<Longrightarrow> iaddr a D' = iaddr a D"
  "(\<And>b. b \<in> fblocks a D \<Longrightarrow> D' b = D b) \<Longrightarrow> fblocks a D' = fblocks a D"
  "(\<And>b. b \<in> fblocks a D \<Longrightarrow> D' b = D b) \<Longrightarrow> i < MAXFILE * BSIZE \<Longrightarrow> fbyte a D' i = fbyte a D i"
proof -
  assume D: "\<And>b. b \<in> fblocks a D \<Longrightarrow> D' b = D b"
  have "a NDIRECT \<noteq> 0 \<Longrightarrow> D' (a NDIRECT) = D (a NDIRECT)" by (rule D) (simp add: fblocks_def)
  then show i: "iaddr a D' = iaddr a D" by (intro ext) (auto simp: iaddr_def)
  then show "fblocks a D' = fblocks a D" by (simp add: fblocks_def)
  show "fbyte a D' i = fbyte a D i" if "i < MAXFILE * BSIZE"
  proof -
    have "i div BSIZE < MAXFILE" using that by (simp add: less_mult_imp_div_less)
    then have "iaddr a D (i div BSIZE) \<noteq> 0 \<Longrightarrow> iaddr a D (i div BSIZE) \<in> fblocks a D" by (auto simp: fblocks_def)
    then show ?thesis using D by (simp add: fbyte_def i)
  qed
qed

lemma listed_once_upd:
  assumes "listed_once f c" "b \<noteq> 0" "b \<notin> (f ` {..<MAXFILE} \<union> {c}) - {0}"
  shows "listed_once (f(k := b)) c" "c = 0 \<Longrightarrow> listed_once f b"
  using assms unfolding listed_once_def by (auto 0 3)

text \<open>A file in the state: its blocks are in use, and none of them holds a part of the bitmap.\<close>

abbreviation addrs :: "'z kfs_scheme \<Rightarrow> nat \<Rightarrow> nat \<Rightarrow> u32" where
  "addrs s ip \<equiv> i_addrs (itab s ip)"

abbreviation bitmap_block :: "'z kfs_scheme \<Rightarrow> u32 \<Rightarrow> bool" where
  "bitmap_block s b \<equiv> (\<exists>m. unat m < fs_size s \<and> b = BBLOCK m (sb s))"

definition in_use :: "'z kfs_scheme \<Rightarrow> u32 \<Rightarrow> bool" where
  "in_use s b \<longleftrightarrow> unat b < fs_size s \<and> \<not> block_free s b \<and> \<not> bitmap_block s b"

definition file_ok :: "'z kfs_scheme \<Rightarrow> nat \<Rightarrow> bool" where
  "file_ok s ip \<longleftrightarrow> i_dev (itab s ip) = ROOTDEV \<and> listed_once (iaddr (addrs s ip) (blk s)) (addrs s ip NDIRECT) \<and>
    (\<forall>b\<in>fblocks (addrs s ip) (blk s). in_use s b) \<and>
    \<not> block_free s 0 \<and>
    (\<forall>m. unat m < fs_size s \<longrightarrow> unat (BBLOCK m (sb s)) < fs_size s \<and> \<not> block_free s (BBLOCK m (sb s)))"

section \<open>What operations on a file leave alone\<close>

definition fframe :: "nat set \<Rightarrow> 'z kfs_scheme \<Rightarrow> 'z kfs_scheme \<Rightarrow> bool" where
  "fframe H s t \<longleftrightarrow> sb t = sb s \<and> kfs.more t = kfs.more s \<and> held t = held s \<and> curproc t = curproc s \<and> disk t = disk s \<and>
    pmem t = pmem s \<and> logged (lg s) \<subseteq> logged (lg t) \<and> (\<forall>p. \<exists>st. procs t p = (procs s p)\<lparr>p_state := st\<rparr>) \<and>
    (\<forall>j\<in>H. b_data (bufs t j) = b_data (bufs s j) \<and> b_blockno (bufs t j) = b_blockno (bufs s j))"

lemma kfs_more: "klog.more t = klog.more s \<Longrightarrow> kfs.more t = kfs.more s \<and> sb t = sb s \<and> itab t = itab s"
  for s t :: "'z kfs_scheme"
  by (cases s; cases t) simp

lemma tframe_fframe: "tframe H s t \<Longrightarrow> fframe H s t \<and> itab t = itab s" for s t :: "'z kfs_scheme"
  using kfs_more [of t s] by (simp add: tframe_def fframe_def)

lemma fframe_refl [simp]: "fframe H s s"
  using tframe_fframe [OF tframe_refl] by blast

lemma same_procs_trans:
  assumes "\<forall>p. \<exists>st. P p = (Q p)\<lparr>p_state := st\<rparr>" "\<forall>p. \<exists>st. R p = (P p)\<lparr>p_state := st\<rparr>"
  shows "\<forall>p. \<exists>st. R p = (Q p)\<lparr>p_state := st\<rparr>"
proof
  fix p
  obtain st st' where "P p = (Q p)\<lparr>p_state := st\<rparr>" "R p = (P p)\<lparr>p_state := st'\<rparr>" using assms by blast
  then have "R p = (Q p)\<lparr>p_state := st'\<rparr>" by simp
  then show "\<exists>st. R p = (Q p)\<lparr>p_state := st\<rparr>" by blast
qed

lemma fframe_trans: "fframe H s t \<Longrightarrow> fframe H t u \<Longrightarrow> fframe H s u"
  using same_procs_trans [of "procs t" "procs s" "procs u"] unfolding fframe_def by auto

lemma fframe_mono: "fframe H s t \<Longrightarrow> K \<subseteq> H \<Longrightarrow> fframe K s t"
  by (auto simp: fframe_def)

lemma fframe_upd [simp]:
  "fframe H s (printk m t) = fframe H s t" "fframe H s (ino_upd ip f t) = fframe H s t"
  by (simp_all add: fframe_def printk_def ino_upd_def)

lemma tx_upd [simp]: "tx H k (printk m s) = tx H k s" "tx H k (ino_upd ip f s) = tx H k s"
  by (simp_all add: tx_def bio_inv_def mypid_def printk_def ino_upd_def split: option.split)

lemma blk_ino [simp]: "blk (ino_upd ip f s) = blk s"
  by (rule ext) (simp add: blk_def ino_upd_def)

lemma ino_fields [simp]:
  "itab (ino_upd ip f s) = (itab s)(ip := f (itab s ip))" "sb (ino_upd ip f s) = sb s" "lg (ino_upd ip f s) = lg s"
  "bufs (ino_upd ip f s) = bufs s" "itab (printk m s) = itab s" "sb (printk m s) = sb s" "lg (printk m s) = lg s"
  "bufs (printk m s) = bufs s"
  by (simp_all add: ino_upd_def printk_def)

section \<open>Allocation\<close>

text \<open>
  From \<open>s\<close> to \<open>t\<close> the file may have got more blocks, all zero; its bytes, the blocks in use that are not
  its own, and everything else are as before.
\<close>

definition extended :: "'z kfs_scheme \<Rightarrow> nat \<Rightarrow> 'z kfs_scheme \<Rightarrow> bool" where
  "extended s ip t \<longleftrightarrow> file_ok t ip \<and> itab t = (itab s)(ip := (itab s ip)\<lparr>i_addrs := addrs t ip\<rparr>) \<and> fframe {} s t \<and>
    (\<forall>i<MAXFILE * BSIZE. fbyte (addrs t ip) (blk t) i = fbyte (addrs s ip) (blk s) i) \<and>
    (\<forall>k<MAXFILE. iaddr (addrs s ip) (blk s) k \<noteq> 0 \<longrightarrow> iaddr (addrs t ip) (blk t) k = iaddr (addrs s ip) (blk s) k) \<and>
    (\<forall>b. in_use s b \<longrightarrow> in_use t b \<and> (b \<in> fblocks (addrs t ip) (blk t) \<longleftrightarrow> b \<in> fblocks (addrs s ip) (blk s)) \<and>
      (b \<notin> fblocks (addrs s ip) (blk s) \<longrightarrow> blk t b = blk s b))"

lemma extended_refl: "file_ok s ip \<Longrightarrow> extended s ip s"
  by (simp add: extended_def)

lemma extended_trans:
  assumes "extended s ip t" "extended t ip u"
  shows "extended s ip u"
proof -
  obtain A B where t: "itab t = (itab s)(ip := (itab s ip)\<lparr>i_addrs := A\<rparr>)" "itab u = (itab t)(ip := (itab t ip)\<lparr>i_addrs := B\<rparr>)"
    using assms unfolding extended_def by blast
  have "itab u = (itab s)(ip := (itab s ip)\<lparr>i_addrs := B\<rparr>)" unfolding t(2) by (simp add: t(1))
  then have "itab u = (itab s)(ip := (itab s ip)\<lparr>i_addrs := addrs u ip\<rparr>)" by simp
  then show ?thesis using assms fframe_trans [of "{}" s t u] unfolding extended_def by simp
qed

lemma extended_alloc:
  fixes s t :: "'z kfs_scheme" and ip :: nat
  defines "f \<equiv> iaddr (addrs s ip) (blk s)" and "f' \<equiv> iaddr (addrs t ip) (blk t)"
    and "c \<equiv> addrs s ip NDIRECT" and "c' \<equiv> addrs t ip NDIRECT"
  assumes ok: "file_ok s ip" and b: "lowest_free s b" and fr: "fframe {} s t"
    and it: "itab t = (itab s)(ip := (itab s ip)\<lparr>i_addrs := addrs t ip\<rparr>)"
    and free: "\<And>m. unat m < fs_size s \<Longrightarrow> block_free t m \<longleftrightarrow> m \<noteq> b \<and> block_free s m"
    and other: "\<And>n. n \<noteq> b \<Longrightarrow> n \<noteq> BBLOCK b (sb s) \<Longrightarrow> n \<noteq> c \<or> c = 0 \<Longrightarrow> blk t n = blk s n"
    and zero: "\<And>j. j < BSIZE \<Longrightarrow> blk t b j = 0"
    and new: "(\<exists>k. f k = 0 \<and> (\<forall>j<MAXFILE. f' j = (f(k := b)) j) \<and> c' = c) \<or> ((\<forall>j<MAXFILE. f' j = f j) \<and> c = 0 \<and> c' = b)"
  shows "extended s ip t"
proof -
  have sb: "sb t = sb s" using fr by (simp add: fframe_def)
  have lb: "block_free s b" "unat b < fs_size s" using b by (simp_all add: lowest_free_def)
  have oks: "i_dev (itab s ip) = ROOTDEV" "listed_once f c" "\<And>n. n \<in> fblocks (addrs s ip) (blk s) \<Longrightarrow> in_use s n" "\<not> block_free s 0"
      "\<And>m. unat m < fs_size s \<Longrightarrow> unat (BBLOCK m (sb s)) < fs_size s \<and> \<not> block_free s (BBLOCK m (sb s))"
    using ok by (auto simp: file_ok_def f_def c_def)
  have F: "fblocks (addrs s ip) (blk s) = (f ` {..<MAXFILE} \<union> {c}) - {0}"
      "fblocks (addrs t ip) (blk t) = (f' ` {..<MAXFILE} \<union> {c'}) - {0}" by (simp_all add: fblocks_def f_def f'_def c_def c'_def)
  have b0: "b \<noteq> 0" "b \<notin> (f ` {..<MAXFILE} \<union> {c}) - {0}" using lb(1) oks(3,4) F(1) by (auto simp: in_use_def)
  have use: "in_use t n" if "in_use s n" for n using that free [of n] lb(1) sb by (auto simp: in_use_def)
  have same: "f' k = f k" if "k < MAXFILE" "f k \<noteq> 0" for k using new that by auto
  have "c \<noteq> 0 \<Longrightarrow> c' = c" using new by auto
  then have F': "fblocks (addrs t ip) (blk t) \<subseteq> insert b (fblocks (addrs s ip) (blk s))"
      "fblocks (addrs s ip) (blk s) \<subseteq> fblocks (addrs t ip) (blk t)"
    unfolding F using new same by (auto simp: image_iff split: if_splits) (metis lessThan_iff)+
  have "listed_once f' c'"
  proof -
    have e: "listed_once f' c' = listed_once g c'" if "\<forall>j<MAXFILE. f' j = g j" for g
      using that by (simp add: listed_once_def)
    from new show ?thesis using e listed_once_upd [OF oks(2) b0] oks(2) by blast
  qed
  moreover have "in_use t b" using lb free [of b] oks(5) sb by (auto simp: in_use_def)
  moreover have "i_dev (itab t ip) = ROOTDEV" using arg_cong [OF it, of "\<lambda>f. i_dev (f ip)"] oks(1) by simp
  ultimately have okt: "file_ok t ip"
    using use oks(3-5) F' free sb lb(2) unfolding file_ok_def f'_def c'_def by auto
  have bytes: "fbyte (addrs t ip) (blk t) i = fbyte (addrs s ip) (blk s) i" if "i < MAXFILE * BSIZE" for i
  proof -
    have k: "i div BSIZE < MAXFILE" using that by (simp add: less_mult_imp_div_less)
    show ?thesis
    proof (cases "f (i div BSIZE) = 0")
      case True
      then have "f' (i div BSIZE) = 0 \<or> f' (i div BSIZE) = b" using new k by auto
      then show ?thesis using True zero [of "i mod BSIZE"] by (auto simp: fbyte_def f_def f'_def BSIZE_def)
    next
      case False
      then have u: "in_use s (f (i div BSIZE))" using oks(3) k F(1) by blast
      have "f (i div BSIZE) \<noteq> c" using oks(2) k False by (simp add: listed_once_def)
      then have "blk t (f (i div BSIZE)) = blk s (f (i div BSIZE))"
        using u lb by (intro other) (auto simp: in_use_def)
      then show ?thesis using False same [OF k False] by (simp add: fbyte_def f_def [symmetric] f'_def [symmetric])
    qed
  qed
  have rest: "in_use t n \<and> (n \<in> fblocks (addrs t ip) (blk t) \<longleftrightarrow> n \<in> fblocks (addrs s ip) (blk s)) \<and>
      (n \<notin> fblocks (addrs s ip) (blk s) \<longrightarrow> blk t n = blk s n)" if n: "in_use s n" for n
  proof -
    have nb: "n \<noteq> b" "n \<noteq> BBLOCK b (sb s)" using n lb by (auto simp: in_use_def)
    then have "n \<notin> fblocks (addrs s ip) (blk s) \<longrightarrow> blk t n = blk s n" using other [of n] F(1) by auto
    then show ?thesis using use [OF n] F' nb(1) by blast
  qed
  show ?thesis using okt it fr bytes same rest unfolding extended_def f_def f'_def by blast
qed

definition disk_full :: "'z kfs_scheme \<Rightarrow> bool" where
  "disk_full s \<longleftrightarrow> (\<forall>n. unat n < fs_size s \<longrightarrow> \<not> block_free s n)"

lemma extended_same:
  assumes "file_ok s ip" "fframe {} s t" "itab t = itab s" "blk t = blk s"
  shows "extended s ip t" "disk_full t = disk_full s"
proof -
  have sb: "sb t = sb s" using assms(2) by (simp add: fframe_def)
  have fr: "block_free t n = block_free s n" for n by (rule block_free_cong [OF assms(4) sb])
  have "file_ok t ip" using assms(1) unfolding file_ok_def by (simp add: sb fr assms(3,4) in_use_def)
  then show "extended s ip t" using assms by (simp add: extended_def sb fr in_use_def)
  show "disk_full t = disk_full s" by (simp add: disk_full_def sb fr)
qed

lemma in_use_allocated:
  assumes "in_use s n" "lowest_free s b"
  shows "n \<noteq> b" "n \<noteq> BBLOCK b (sb s)" "allocated b s n = blk s n"
  using assms by (auto simp: in_use_def lowest_free_def allocated_def Let_def)

lemma allocated_facts:
  assumes ok: "file_ok s ip" and b: "lowest_free s b" and t: "blk t = allocated b s" "sb t = sb s"
  shows "b \<noteq> 0" "\<not> disk_full s" "unat m < fs_size s \<Longrightarrow> block_free t m \<longleftrightarrow> m \<noteq> b \<and> block_free s m" "\<And>j. j < BSIZE \<Longrightarrow> allocated b s b j = 0"
    "n \<noteq> b \<Longrightarrow> n \<noteq> BBLOCK b (sb s) \<Longrightarrow> allocated b s n = blk s n"
proof -
  show "b \<noteq> 0" using ok b by (auto simp: file_ok_def lowest_free_def)
  show "\<not> disk_full s" using b by (auto simp: lowest_free_def disk_full_def)
  have "b \<noteq> BBLOCK m (sb s)" if "unat m < fs_size s" for m using ok b that by (auto simp: file_ok_def lowest_free_def)
  then show "unat m < fs_size s \<Longrightarrow> block_free t m \<longleftrightarrow> m \<noteq> b \<and> block_free s m" by (intro allocated_free [OF t]) blast
  show "allocated b s b j = 0" if "j < BSIZE" for j using that by (simp add: allocated_def Let_def zeroed_def splice_def)
  show "n \<noteq> b \<Longrightarrow> n \<noteq> BBLOCK b (sb s) \<Longrightarrow> allocated b s n = blk s n" by (simp add: allocated_def Let_def)
qed

text \<open>A new address in the inode itself.\<close>

lemma extended_slot:
  fixes s t :: "'z kfs_scheme" and ip :: nat
  assumes ok: "file_ok s ip" and j: "j \<le> NDIRECT" "addrs s ip j = 0" and b: "lowest_free s b"
    and t: "blk t = allocated b s" "tframe {} s t"
  shows "extended s ip (ino_upd ip (\<lambda>i. i\<lparr>i_addrs := (i_addrs i)(j := b)\<rparr>) t)"
proof -
  let ?t = "ino_upd ip (\<lambda>i. i\<lparr>i_addrs := (i_addrs i)(j := b)\<rparr>) t"
  have fr: "fframe {} s t" "itab t = itab s" using tframe_fframe [OF t(2)] by simp_all
  then have sb: "sb t = sb s" by (simp add: fframe_def)
  note al = allocated_facts [OF ok b t(1) sb]
  have bt: "blk ?t = allocated b s" by (simp add: t(1))
  have at: "addrs ?t ip = (addrs s ip)(j := b)" by (simp add: fr(2))
  have c: "allocated b s (addrs s ip NDIRECT) = blk s (addrs s ip NDIRECT)" if "addrs s ip NDIRECT \<noteq> 0"
  proof -
    have "addrs s ip NDIRECT \<in> fblocks (addrs s ip) (blk s)" using that by (simp add: fblocks_def)
    then have "in_use s (addrs s ip NDIRECT)" using ok by (simp add: file_ok_def)
    then show ?thesis by (rule in_use_allocated(3) [OF _ b])
  qed
  show ?thesis
  proof (rule extended_alloc [OF ok b])
    show "fframe {} s ?t" using fr(1) by simp
    show "itab ?t = (itab s)(ip := (itab s ip)\<lparr>i_addrs := addrs ?t ip\<rparr>)" by (simp add: fr(2))
    show "block_free ?t m \<longleftrightarrow> m \<noteq> b \<and> block_free s m" if "unat m < fs_size s" for m
      using al(3) [OF that] by (simp add: block_free_def)
    show "blk ?t n = blk s n" if "n \<noteq> b" "n \<noteq> BBLOCK b (sb s)" for n using al(5) [OF that] by (simp add: t(1))
    show "blk ?t b i = 0" if "i < BSIZE" for i using al(4) [OF that] by (simp add: t(1))
    show "(\<exists>k. iaddr (addrs s ip) (blk s) k = 0 \<and>
        (\<forall>i<MAXFILE. iaddr (addrs ?t ip) (blk ?t) i = ((iaddr (addrs s ip) (blk s))(k := b)) i) \<and>
        addrs ?t ip NDIRECT = addrs s ip NDIRECT) \<or>
      ((\<forall>i<MAXFILE. iaddr (addrs ?t ip) (blk ?t) i = iaddr (addrs s ip) (blk s) i) \<and>
        addrs s ip NDIRECT = 0 \<and> addrs ?t ip NDIRECT = b)"
    proof (cases "j = NDIRECT")
      case False
      then have "\<forall>i. iaddr ((addrs s ip)(j := b)) (allocated b s) i = ((iaddr (addrs s ip) (blk s))(j := b)) i"
        using j c by (auto simp: iaddr_def)
      moreover have "iaddr (addrs s ip) (blk s) j = 0" using False j by (simp add: iaddr_def)
      ultimately show ?thesis using False unfolding bt at by auto
    next
      case True
      have "iaddr ((addrs s ip)(NDIRECT := b)) (allocated b s) i = iaddr (addrs s ip) (blk s) i" if "i < MAXFILE" for i
      proof -
        have "get32 (allocated b s b) (4 * (i - NDIRECT)) = 0" if "\<not> i < NDIRECT"
          using \<open>i < MAXFILE\<close> that by (intro get32_zero allI impI al(4)) (simp add: MAXFILE_def NDIRECT_def NINDIRECT_def BSIZE_def)
        then show ?thesis using j True by (simp add: iaddr_def)
      qed
      then show ?thesis using True j(2) unfolding bt at by auto
    qed
  qed
qed

lemma bmap_slot_spec:
  fixes s :: "'z kfs_scheme"
  assumes tx: "tx {} (Suc (Suc k)) s" and ok: "file_ok s ip" and j: "j \<le> NDIRECT"
  shows "wp (bmap_slot ip j s) (\<lambda>a t. tx {} k t \<and> extended s ip t \<and> a = addrs t ip j \<and> (a = 0 \<longrightarrow> disk_full t))"
proof (cases "addrs s ip j = 0")
  case False
  then show ?thesis using tx_less [OF tx] extended_refl [OF ok] by (simp add: bmap_slot_def Let_def wp_simps)
next
  case True
  have dev: "i_dev (itab s ip) = ROOTDEV" using ok by (simp add: file_ok_def)
  show ?thesis
    unfolding bmap_slot_def Let_def if_P [OF True] dev wp_kbind
  proof (rule wp_mono [OF balloc_spec [OF tx busy_ok_empty]])
    fix b and t :: "'z kfs_scheme"
    assume t: "if \<forall>n. unat n < fs_size s \<longrightarrow> \<not> block_free s n
      then b = 0 \<and> (\<exists>u. t = printk ''balloc: out of blocks'' u \<and> tx {} (Suc (Suc k)) u \<and> blk u = blk s \<and> tframe {} s u)
      else lowest_free s b \<and> tx {} k t \<and> blk t = allocated b s \<and> tframe {} s t"
    show "wp (if b = 0 then Ok 0 t else Ok b (ino_upd ip (\<lambda>i. i\<lparr>i_addrs := (i_addrs i)(j := b)\<rparr>) t))
      (\<lambda>a t. tx {} k t \<and> extended s ip t \<and> a = addrs t ip j \<and> (a = 0 \<longrightarrow> disk_full t))"
    proof (cases "disk_full s")
      case F: True
      then obtain u where u: "b = 0" "t = printk ''balloc: out of blocks'' u" "tx {} (Suc (Suc k)) u" "blk u = blk s" "tframe {} s u"
        using t by (auto simp: disk_full_def)
      have "fframe {} s t" "itab t = itab s" "blk t = blk s" using u tframe_fframe [OF u(5)] by simp_all
      note g = extended_same [OF ok this]
      show ?thesis using u g F True tx_less [OF u(3)] \<open>itab t = itab s\<close> by (simp add: wp_simps)
    next
      case F: False
      then have b: "lowest_free s b" "tx {} k t" "blk t = allocated b s" "tframe {} s t"
        using t unfolding disk_full_def by (auto split: if_splits)
      note g = extended_slot [OF ok j True b(1,3,4)]
      have "b \<noteq> 0" using allocated_facts(1) [OF ok b(1,3)] tframe_sb [OF b(4)] by simp
      then show ?thesis using g b(2) tframe_fframe [OF b(4)] by (simp add: wp_simps)
    qed
  qed
qed

text \<open>A new address in the indirect block \<open>c\<close>.\<close>

lemma extended_entry:
  fixes s t :: "'z kfs_scheme" and ip :: nat
  defines "c \<equiv> addrs s ip NDIRECT"
  assumes ok: "file_ok s ip" and j: "NDIRECT \<le> j" "j < MAXFILE" "c \<noteq> 0" "iaddr (addrs s ip) (blk s) j = 0" and b: "lowest_free s b"
    and t: "blk t = (allocated b s)(c := put32 (blk s c) (4 * (j - NDIRECT)) b)" "fframe {} s t" "itab t = itab s"
  shows "extended s ip t" "iaddr (addrs t ip) (blk t) j = b" "b \<noteq> 0"
proof -
  define u where "u = ino_upd 0 (\<lambda>i. i) s"
  have sb: "sb t = sb s" using t(2) by (simp add: fframe_def)
  have "c \<in> fblocks (addrs s ip) (blk s)" using j(3) by (simp add: fblocks_def c_def)
  then have use: "in_use s c" using ok by (simp add: file_ok_def)
  note cb = in_use_allocated [OF use b]
  have free: "block_free t m \<longleftrightarrow> m \<noteq> b \<and> block_free s m" if m: "unat m < fs_size s" for m
  proof -
    have "b \<noteq> BBLOCK m (sb s)" using ok b m by (auto simp: file_ok_def lowest_free_def)
    moreover have "BBLOCK m (sb s) \<noteq> c" using use m by (auto simp: in_use_def)
    ultimately show ?thesis
      by (cases "BBLOCK m (sb s) = BBLOCK b (sb s)")
        (auto simp: block_free_def t(1) sb allocated_def Let_def set_bit_def bit_clear_set dest: same_bitmap_block)
  qed
  have z: "allocated b s b i = 0" if "i < BSIZE" for i using that by (simp add: allocated_def Let_def zeroed_def splice_def)
  have o: "allocated b s n = blk s n" if "n \<noteq> b" "n \<noteq> BBLOCK b (sb s)" for n using that by (simp add: allocated_def Let_def)
  have f: "iaddr (addrs t ip) (blk t) i = ((iaddr (addrs s ip) (blk s))(j := b)) i" for i
  proof (cases "i < NDIRECT")
    case True
    then show ?thesis using j(1) by (simp add: iaddr_def t(3))
  next
    case False
    have "i = j \<or> 4 * (i - NDIRECT) + 4 \<le> 4 * (j - NDIRECT) \<or> 4 * (j - NDIRECT) + 4 \<le> 4 * (i - NDIRECT)" using False j(1) by auto
    then show ?thesis using False j(3) by (auto simp: iaddr_def t(1,3) c_def get32_put32 put_other)
  qed
  show "iaddr (addrs t ip) (blk t) j = b" using f [of j] by simp
  show "b \<noteq> 0" using ok b by (auto simp: file_ok_def lowest_free_def)
  show "extended s ip t"
  proof (rule extended_alloc [OF ok b t(2) _ free])
    show "blk t n = blk s n" if "n \<noteq> b" "n \<noteq> BBLOCK b (sb s)" "n \<noteq> addrs s ip NDIRECT \<or> addrs s ip NDIRECT = 0" for n
      using that o j(3) by (auto simp: t(1) c_def)
    show "blk t b i = 0" if "i < BSIZE" for i using z [OF that] cb(1) by (simp add: t(1))
    show "(\<exists>k. iaddr (addrs s ip) (blk s) k = 0 \<and>
        (\<forall>i<MAXFILE. iaddr (addrs t ip) (blk t) i = ((iaddr (addrs s ip) (blk s))(k := b)) i) \<and>
        addrs t ip NDIRECT = addrs s ip NDIRECT) \<or>
      ((\<forall>i<MAXFILE. iaddr (addrs t ip) (blk t) i = iaddr (addrs s ip) (blk s) i) \<and>
        addrs s ip NDIRECT = 0 \<and> addrs t ip NDIRECT = b)"
      using f j(4) t(3) by auto
  qed (simp add: t(3))
qed

text \<open>The part of \<open>bmap\<close> that looks at the indirect block, which it holds meanwhile.\<close>

definition bmap_entry :: "nat \<Rightarrow> nat \<Rightarrow> nat \<Rightarrow> 'z kfs_scheme \<Rightarrow> (u32, 'z kfs_scheme) kres" where
  "bmap_entry ip j bp s =
    (let addr = get32 (b_data (bufs s bp)) (4 * j) in
     kbind (if addr = 0 then
              kbind (balloc (i_dev (itab s ip)) s) (\<lambda>addr s.
                if addr \<noteq> 0 then
                  let s = set_data bp (put32 (b_data (bufs s bp)) (4 * j) addr) s
                  in kbind (log_write bp s) (\<lambda>_ s. Ok addr s)
                else Ok addr s)
            else Ok addr s) (\<lambda>addr s.
     kbind (brelse bp s) (\<lambda>_ s. Ok addr s)))"

lemma bmap_entry_spec:
  fixes s t :: "'z kfs_scheme" and ip :: nat
  defines "c \<equiv> addrs s ip NDIRECT"
  assumes ok: "file_ok s ip" and j: "NDIRECT \<le> j" "j < MAXFILE" "c \<noteq> 0" and s: "tx {} (k + 3) s"
    and t: "tx {bp} (k + 3) t" "b_blockno (bufs t bp) = c" "b_data (bufs t bp) = blk s c" "blk t = blk s" "tframe {} s t" "lg t = lg s"
  shows "wp (bmap_entry ip (j - NDIRECT) bp t) (\<lambda>a t. tx {} k t \<and> extended s ip t \<and>
    a = iaddr (addrs t ip) (blk t) j \<and> (a = 0 \<longrightarrow> disk_full t))"
proof -
  have fr: "fframe {} s t" "itab t = itab s" using tframe_fframe [OF t(5)] by simp_all
  then have sb: "sb t = sb s" "i_dev (itab s ip) = ROOTDEV" using ok by (simp_all add: fframe_def file_ok_def)
  have "c \<in> fblocks (addrs s ip) (blk s)" using j(3) by (simp add: fblocks_def c_def)
  then have use: "in_use s c" using ok by (simp add: file_ok_def)
  have clean: "c \<in> logged (lg s) \<or> blk s c = disk s c"
    using s clean_other [of s "{}" "logged (lg s)" c] by (auto simp: tx_def)
  have a: "get32 (blk s c) (4 * (j - NDIRECT)) = iaddr (addrs s ip) (blk s) j" using j by (simp add: iaddr_def c_def)
  note eqs = fr(2) t(3,4) a sb(2)
  have rel: "wp (brelse bp u) (\<lambda>_ t. tx {} m t \<and> blk t = blk u \<and> tframe {} u t \<and> lg t = lg u)"
    if "tx {bp} m u" "fframe {bp} t u" for m and u :: "'z kfs_scheme"
  proof -
    have "b_blockno (bufs u bp) = c" "b_data (bufs u bp) = blk s c" "disk u = disk s" "logged (lg s) \<subseteq> logged (lg u)"
      using that(2) t(2,3,5,6) by (auto simp: fframe_def tframe_def)
    then show ?thesis using clean that(1) by (intro tx_brelse) auto
  qed
  show ?thesis
  proof (cases "iaddr (addrs s ip) (blk s) j = 0")
    case False
    have "wp (brelse bp t) (\<lambda>_ u. tx {} k u \<and> extended s ip u \<and> iaddr (addrs s ip) (blk s) j = iaddr (addrs u ip) (blk u) j)"
    proof (rule wp_mono [OF rel [OF t(1) fframe_refl]], elim conjE)
      fix u :: "'z kfs_scheme"
      assume u: "tx {} (k + 3) u" "blk u = blk t" "tframe {} t u"
      have "fframe {} s u" "itab u = itab s" using tframe_fframe [OF u(3)] fr fframe_trans [of "{}" s t u] by auto
      then show "tx {} k u \<and> extended s ip u \<and> iaddr (addrs s ip) (blk s) j = iaddr (addrs u ip) (blk u) j"
        using extended_same(1) [OF ok, of u] u(2) t(4) tx_less [OF u(1)] by simp
    qed
    then show ?thesis using False by (simp add: bmap_entry_def Let_def wp_simps eqs)
  next
    case True
    have bok: "busy_ok {bp} (Suc k) t"
    proof -
      have fl: "block_free t n = block_free s n" for n by (rule block_free_cong [OF t(4) sb(1)])
      have "unat (of_nat (q * BPB) :: u32) = q * BPB" if "q * BPB < fs_size s" for q
      proof -
        have "q * BPB < 2 ^ 32" using that unat_lt32 [of "sb_size (sb s)"] by linarith
        then show ?thesis by (simp only: unat_of_nat take_bit_nat_eq_self_iff) simp
      qed
      then have "BBLOCK (of_nat (q * BPB)) (sb s) \<noteq> c" if "q * BPB < fs_size s" for q
        using use that unfolding in_use_def by metis
      then show ?thesis using use by (simp add: busy_ok_def t(2) fl sb(1) in_use_def del: of_nat_mult)
    qed
    have tx3: "tx {bp} (Suc (Suc (Suc k))) t" using t(1) by (simp add: numeral_3_eq_3)
    show ?thesis
      unfolding bmap_entry_def Let_def wp_kbind eqs if_P [OF True]
    proof (rule wp_mono [OF balloc_spec [OF tx3 bok]])
      fix b and u :: "'z kfs_scheme"
      assume u: "if \<forall>n. unat n < fs_size t \<longrightarrow> \<not> block_free t n
        then b = 0 \<and> (\<exists>v. u = printk ''balloc: out of blocks'' v \<and> tx {bp} (Suc (Suc (Suc k))) v \<and> blk v = blk t \<and> tframe {bp} t v)
        else lowest_free t b \<and> tx {bp} (Suc k) u \<and> blk u = allocated b t \<and> tframe {bp} t u"
      show "wp (if b \<noteq> 0 then kbind (log_write bp (set_data bp (put32 (b_data (bufs u bp)) (4 * (j - NDIRECT)) b) u)) (\<lambda>_ s. Ok b s) else Ok b u)
        (\<lambda>a t. wp (brelse bp t) (\<lambda>_ s'. wp (Ok a s') (\<lambda>a t. tx {} k t \<and> extended s ip t \<and>
          a = iaddr (addrs t ip) (blk t) j \<and> (a = 0 \<longrightarrow> disk_full t))))"
      proof (cases "disk_full t")
        case F: True
        then obtain v where v: "b = 0" "u = printk ''balloc: out of blocks'' v" "tx {bp} (Suc (Suc (Suc k))) v" "blk v = blk t" "tframe {bp} t v"
          using u by (auto simp: disk_full_def)
        have fu: "fframe {bp} t u" "itab u = itab t" "blk u = blk t" "tx {bp} (Suc (Suc (Suc k))) u"
          using v tframe_fframe [OF v(5)] by simp_all
        have "wp (brelse bp u) (\<lambda>_ w. tx {} k w \<and> extended s ip w \<and> 0 = iaddr (addrs w ip) (blk w) j \<and> disk_full w)"
        proof (rule wp_mono [OF rel [OF fu(4,1)]], elim conjE)
          fix w :: "'z kfs_scheme"
          assume w: "tx {} (Suc (Suc (Suc k))) w" "blk w = blk u" "tframe {} u w"
          have "fframe {} t u" by (rule fframe_mono [OF fu(1)]) simp
          then have fw: "fframe {} s w" "itab w = itab s" "blk w = blk s"
            using tframe_fframe [OF w(3)] fr fu(2,3) w(2) t(4) fframe_trans [of "{}" s t u] fframe_trans [of "{}" s u w] by auto
          note g = extended_same [OF ok fw]
          have "disk_full s" using F extended_same(2) [OF ok fr(1,2) t(4)] by simp
          then show "tx {} k w \<and> extended s ip w \<and> 0 = iaddr (addrs w ip) (blk w) j \<and> disk_full w"
            using g True fw tx_less [OF w(1)] by simp
        qed
        then show ?thesis using v(1) by (simp add: wp_simps)
      next
        case F: False
        then have b: "lowest_free t b" "tx {bp} (Suc k) u" "blk u = allocated b t" "tframe {bp} t u"
          using u unfolding disk_full_def by (auto split: if_splits)
        have bs: "lowest_free s b" "allocated b t = allocated b s"
          using b(1) bitmap_cong(2,3) [OF t(4) sb(1)] by simp_all
        have ub: "b_blockno (bufs u bp) = c" "b_data (bufs u bp) = blk s c" using b(4) t(2,3) by (simp_all add: tframe_def)
        have b0: "b \<noteq> 0" using ok bs(1) by (auto simp: file_ok_def lowest_free_def)
        define d where "d = put32 (blk s c) (4 * (j - NDIRECT)) b"
        have "wp (log_write bp (set_data bp d u)) (\<lambda>_ v. wp (brelse bp v) (\<lambda>_ w. tx {} k w \<and> extended s ip w \<and> b = iaddr (addrs w ip) (blk w) j))"
        proof (rule wp_mono [OF tx_log_write [OF b(2) _ ub(1)]], simp, elim conjE)
          fix v :: "'z kfs_scheme"
          assume v: "tx {bp} k v" "b_blockno (bufs v bp) = c" "blk v = (blk u)(c := d)" "tframe {} u v" "lg v = log_add c (lg u)"
          have "c \<in> logged (lg v)" using b(2) by (simp add: v(5) logged_add log_open_def tx_def)
          then have cl: "b_blockno (bufs v bp) \<in> logged (lg v) \<or> b_data (bufs v bp) = disk v (b_blockno (bufs v bp))"
            by (simp add: v(2))
          show "wp (brelse bp v) (\<lambda>_ w. tx {} k w \<and> extended s ip w \<and> b = iaddr (addrs w ip) (blk w) j)"
          proof (rule wp_mono [OF tx_brelse [OF v(1) _ cl]], simp, elim conjE)
            fix w :: "'z kfs_scheme"
            assume w: "tx {} k w" "blk w = blk v" "tframe {} v w"
            have "tframe {} t u" by (rule tframe_mono [OF b(4)]) simp
            from tframe_fframe [OF tframe_trans [OF tframe_trans [OF this v(4)] w(3)]]
            have tw: "fframe {} t w" "itab w = itab t" by blast+
            have fw: "fframe {} s w" "itab w = itab s" using fframe_trans [OF fr(1) tw(1)] tw(2) fr(2) by simp_all
            have "blk w = (allocated b s)(c := put32 (blk s c) (4 * (j - NDIRECT)) b)"
              using w(2) v(3) b(3) bs(2) by (simp add: d_def)
            from extended_entry [OF ok j(1,2) j(3) [unfolded c_def] True bs(1) this [unfolded c_def] fw]
            show "tx {} k w \<and> extended s ip w \<and> b = iaddr (addrs w ip) (blk w) j" using w(1) by simp
          qed
        qed
        then show ?thesis using b0 by (simp add: wp_simps ub(2) d_def)
      qed
    qed
  qed
qed

lemma bmap_spec:
  fixes s :: "'z kfs_scheme"
  assumes tx: "tx {} (k + 5) s" and ok: "file_ok s ip" and bn: "bn < MAXFILE"
  shows "wp (bmap ip (of_nat bn) s) (\<lambda>a t. tx {} k t \<and> extended s ip t \<and>
    a = iaddr (addrs t ip) (blk t) bn \<and> (a = 0 \<longrightarrow> disk_full t))"
proof -
  have u: "unat (of_nat bn :: u32) = bn"
    using bn by (simp add: unsigned_of_nat take_bit_nat_eq_self MAXFILE_def NDIRECT_def NINDIRECT_def BSIZE_def)
  have tx5: "tx {} (Suc (Suc (k + 3))) s" using tx by (simp add: eval_nat_numeral)
  show ?thesis
  proof (cases "bn < NDIRECT")
    case True
    then have "bn \<le> NDIRECT" by simp
    then have "wp (bmap_slot ip bn s) (\<lambda>a t. tx {} k t \<and> extended s ip t \<and> a = iaddr (addrs t ip) (blk t) bn \<and> (a = 0 \<longrightarrow> disk_full t))"
      by (rule wp_mono [OF bmap_slot_spec [OF tx5 ok]]) (use True in \<open>auto simp: iaddr_def intro: tx_less\<close>)
    then show ?thesis using True by (simp add: bmap_def u)
  next
    case False
    have e: "bmap ip (of_nat bn) s = kbind (bmap_slot ip NDIRECT s) (\<lambda>addr s. if addr = 0 then Ok 0 s
        else kbind (bread (i_dev (itab s ip)) addr s) (bmap_entry ip (bn - NDIRECT)))"
    proof -
      have "bn - NDIRECT < NINDIRECT" using False bn unfolding MAXFILE_def by linarith
      then show ?thesis using False unfolding bmap_def u Let_def bmap_entry_def [abs_def] by simp
    qed
    show ?thesis
      unfolding e wp_kbind
    proof (rule wp_mono [OF bmap_slot_spec [OF tx5 ok order_refl]], elim conjE)
      fix c and t :: "'z kfs_scheme"
      assume t: "tx {} (k + 3) t" "extended s ip t" "c = addrs t ip NDIRECT" "c = 0 \<longrightarrow> disk_full t"
      have okt: "file_ok t ip" using t(2) by (simp add: extended_def)
      show "wp (if c = 0 then Ok 0 t else kbind (bread (i_dev (itab t ip)) c t) (bmap_entry ip (bn - NDIRECT)))
        (\<lambda>a t. tx {} k t \<and> extended s ip t \<and> a = iaddr (addrs t ip) (blk t) bn \<and> (a = 0 \<longrightarrow> disk_full t))"
      proof (cases "c = 0")
        case True
        then show ?thesis using t False tx_less [OF t(1)] by (simp add: wp_simps iaddr_def)
      next
        case c: False
        have dev: "i_dev (itab t ip) = ROOTDEV" using okt by (simp add: file_ok_def)
        have "wp (bread ROOTDEV c t) (\<lambda>bp u. wp (bmap_entry ip (bn - NDIRECT) bp u)
          (\<lambda>a t. tx {} k t \<and> extended s ip t \<and> a = iaddr (addrs t ip) (blk t) bn \<and> (a = 0 \<longrightarrow> disk_full t)))"
        proof (rule wp_mono [OF tx_bread [OF t(1)]], simp, simp, elim conjE)
          fix bp and u :: "'z kfs_scheme"
          assume u: "tx {bp} (k + 3) u" "b_blockno (bufs u bp) = c" "b_data (bufs u bp) = blk t c" "blk u = blk t"
            "tframe {} t u" "lg u = lg t"
          have "addrs t ip NDIRECT \<noteq> 0" using c t(3) by simp
          from bmap_entry_spec [OF okt _ bn this t(1) u(1) u(2,3) [unfolded t(3)] u(4-6)] False
          show "wp (bmap_entry ip (bn - NDIRECT) bp u)
            (\<lambda>a t. tx {} k t \<and> extended s ip t \<and> a = iaddr (addrs t ip) (blk t) bn \<and> (a = 0 \<longrightarrow> disk_full t))"
            by (auto elim!: wp_mono intro: extended_trans [OF t(2)])
        qed
        then show ?thesis using c by (simp add: wp_kbind dev)
      qed
    qed
  qed
qed

end
