(* ===== verification/Fileio.thy ===== *)
theory Fileio
  imports Filedata Fsdata
begin

text \<open>
  \<open>writei\<close> and \<open>readi\<close> of \<^verbatim>\<open>kernel/fs.c\<close>: writing to and reading from the bytes of a file.
\<close>

section \<open>Where the bytes come from\<close>

text \<open>
  What \<open>writei\<close> relies on: as long as \<open>ok\<close> holds, \<open>either_copyin\<close> yields the bytes \<open>p\<close> from \<open>src\<close> on, at
  most \<open>n\<close> of them, and changes nothing; and the operations on the file keep \<open>ok\<close>.
\<close>

locale copy_source =
  fixes src :: cursor and p :: bytes and n :: nat and ok :: "'z kfs_scheme \<Rightarrow> bool"
  assumes copy: "ok s \<Longrightarrow> j + m \<le> n \<Longrightarrow> either_copyin dst o' (cur_add src j) m s = Ok (0, splice dst o' (at p j) m) s"
    and kept: "ok s \<Longrightarrow> fframe {} s t \<Longrightarrow> ok t"

lemma at_at [simp]: "at (at b i) j = at b (i + j)" "at b 0 = b"
  by (auto simp: at_def add.assoc)

lemma cur_add_add [simp]: "cur_add (cur_add c j) m = cur_add c (j + m)" "cur_add c 0 = c"
  by (cases c; simp add: add.assoc)+

interpretation kernel_source: copy_source "VarAt b off" "at b off" n "\<lambda>s. curproc s \<noteq> None"
proof
  fix s t :: "'z kfs_scheme" and j m dst o'
  show "curproc s \<noteq> None \<Longrightarrow> j + m \<le> n \<Longrightarrow>
      either_copyin dst o' (cur_add (VarAt b off) j) m s = Ok (0, splice dst o' (at (at b off) j) m) s"
    by (auto simp: either_copyin_def myproc_Some at_def add.assoc)
  show "curproc s \<noteq> None \<Longrightarrow> fframe {} s t \<Longrightarrow> curproc t \<noteq> None" by (simp add: fframe_def)
qed

text \<open>The address space of the process, with the page table \<open>pt\<close> and the memory \<open>M\<close>.\<close>

definition user_at :: "mem \<Rightarrow> u64 \<Rightarrow> 'z kfs_scheme \<Rightarrow> bool" where
  "user_at M pt s \<longleftrightarrow> pmem s = M \<and> (\<exists>q. curproc s = Some q \<and> p_pagetable (procs s q) = pt)"

lemma user_at_frame: "user_at M pt s \<Longrightarrow> fframe {} s t \<Longrightarrow> user_at M pt t"
proof -
  assume u: "user_at M pt s" and f: "fframe {} s t"
  obtain q where q: "curproc s = Some q" "p_pagetable (procs s q) = pt" using u by (auto simp: user_at_def)
  obtain st where "procs t q = (procs s q)\<lparr>p_state := st\<rparr>" using f unfolding fframe_def by blast
  then show ?thesis using u f q by (simp add: user_at_def fframe_def)
qed

definition user_bytes :: "mem \<Rightarrow> u64 \<Rightarrow> u64 \<Rightarrow> bytes" where
  "user_bytes M pt a = (\<lambda>i. the (uread M pt (a + of_nat i)))"

lemma umapped_part:
  assumes "umapped m pt a n" "j + k \<le> n"
  shows "umapped m pt (a + of_nat j) k"
proof -
  have "unat (a + of_nat j) = unat a + j"
    using assms by (intro unat_plus_small) (simp add: umapped_def MAXVA_small)
  moreover have "\<exists>pa. upage m pt (PGROUNDDOWN (a + of_nat j + of_nat i)) = Some pa \<and> pa \<noteq> 0" if "i < k" for i
  proof -
    have "a + of_nat j + of_nat i = a + of_nat (j + i)" by simp
    then show ?thesis using assms that by (metis add_less_cancel_left order_less_le_trans umapped_def)
  qed
  ultimately show ?thesis using assms by (simp add: umapped_def)
qed

interpretation user_source: copy_source "UserAt a" "user_bytes M pt a" n
  "\<lambda>s. user_at M pt s \<and> pt_wf 2 M pt \<and> umapped M pt a n \<and> n < 2 ^ 32"
proof
  fix s t :: "'z kfs_scheme" and j m dst o'
  assume ok: "user_at M pt s \<and> pt_wf 2 M pt \<and> umapped M pt a n \<and> n < 2 ^ 32"
  show "fframe {} s t \<Longrightarrow> user_at M pt t \<and> pt_wf 2 M pt \<and> umapped M pt a n \<and> n < 2 ^ 32" using ok user_at_frame by blast
  assume j: "j + m \<le> n"
  obtain q where q: "curproc s = Some q" "p_pagetable (procs s q) = pt" "pmem s = M" using ok by (auto simp: user_at_def)
  have um: "unat (of_nat m :: u64) = m"
    using ok j by (simp add: unsigned_of_nat take_bit_nat_eq_self)
  have "umapped M pt (a + of_nat j) m" using ok j umapped_part by blast
  then have "copyin_from pt dst o' (a + of_nat j) (of_nat m) s = Ok (0, \<lambda>i. if o' \<le> i \<and> i < o' + m
      then the (uread M pt (a + of_nat j + of_nat (i - o'))) else dst i) s"
    using copyin_from_mapped [of s pt "a + of_nat j" "of_nat m" dst o'] ok unfolding q(3) um by simp
  then show "either_copyin dst o' (cur_add (UserAt a) j) m s = Ok (0, splice dst o' (at (user_bytes M pt a) j) m) s"
    using q(1,2) by (simp add: either_copyin_def myproc_Some splice_def at_def user_bytes_def add.assoc cong: if_cong)
qed

section \<open>Writing\<close>

text \<open>
  From \<open>s\<close> to \<open>t\<close>, the \<open>w\<close> bytes from \<open>off\<close> on of the file have become those of \<open>q\<close>, and have blocks; its
  other bytes and blocks, all blocks in use that are not its own, and everything else are as before.
\<close>

definition wrote_file :: "'z kfs_scheme \<Rightarrow> nat \<Rightarrow> nat \<Rightarrow> bytes \<Rightarrow> nat \<Rightarrow> 'z kfs_scheme \<Rightarrow> bool" where
  "wrote_file s ip off q w t \<longleftrightarrow> file_ok t ip \<and> itab t = (itab s)(ip := (itab s ip)\<lparr>i_addrs := addrs t ip\<rparr>) \<and> fframe {} s t \<and>
    (\<forall>i<MAXFILE * BSIZE. fbyte (addrs t ip) (blk t) i =
      (if off \<le> i \<and> i < off + w then q (i - off) else fbyte (addrs s ip) (blk s) i)) \<and>
    (\<forall>k<MAXFILE. iaddr (addrs s ip) (blk s) k \<noteq> 0 \<or> (\<exists>i. off \<le> i \<and> i < off + w \<and> k = i div BSIZE) \<longrightarrow>
      iaddr (addrs t ip) (blk t) k \<noteq> 0) \<and>
    (\<forall>b. in_use s b \<longrightarrow> in_use t b \<and> (b \<in> fblocks (addrs t ip) (blk t) \<longleftrightarrow> b \<in> fblocks (addrs s ip) (blk s)) \<and>
      (b \<notin> fblocks (addrs s ip) (blk s) \<longrightarrow> blk t b = blk s b))"

lemma extended_wrote: "extended s ip t \<Longrightarrow> wrote_file s ip off q 0 t"
  by (auto simp: extended_def wrote_file_def)

lemma wrote_file_trans:
  assumes "wrote_file s ip off q w t" "wrote_file t ip (off + w) (at q w) w' u"
  shows "wrote_file s ip off q (w + w') u"
proof -
  obtain A B where t: "itab t = (itab s)(ip := (itab s ip)\<lparr>i_addrs := A\<rparr>)" "itab u = (itab t)(ip := (itab t ip)\<lparr>i_addrs := B\<rparr>)"
    using assms unfolding wrote_file_def by blast
  have "itab u = (itab s)(ip := (itab s ip)\<lparr>i_addrs := B\<rparr>)" unfolding t(2) by (simp add: t(1))
  then have it: "itab u = (itab s)(ip := (itab s ip)\<lparr>i_addrs := addrs u ip\<rparr>)" by simp
  have "fbyte (addrs u ip) (blk u) i = (if off \<le> i \<and> i < off + (w + w') then q (i - off) else fbyte (addrs s ip) (blk s) i)"
    if i: "i < MAXFILE * BSIZE" for i
  proof -
    have "fbyte (addrs u ip) (blk u) i = (if off + w \<le> i \<and> i < off + w + w' then at q w (i - (off + w)) else fbyte (addrs t ip) (blk t) i)"
      and "fbyte (addrs t ip) (blk t) i = (if off \<le> i \<and> i < off + w then q (i - off) else fbyte (addrs s ip) (blk s) i)"
      using assms i unfolding wrote_file_def by blast+
    then show ?thesis by (auto simp: at_def)
  qed
  moreover have "iaddr (addrs u ip) (blk u) k \<noteq> 0"
    if k: "k < MAXFILE" "iaddr (addrs s ip) (blk s) k \<noteq> 0 \<or> (\<exists>i. off \<le> i \<and> i < off + (w + w') \<and> k = i div BSIZE)" for k
  proof -
    have "iaddr (addrs t ip) (blk t) k \<noteq> 0 \<or> (\<exists>i. off + w \<le> i \<and> i < off + w + w' \<and> k = i div BSIZE)"
      using k(2) assms(1) k(1) unfolding wrote_file_def by (metis add.assoc not_le_imp_less)
    then show ?thesis using assms(2) k(1) unfolding wrote_file_def by blast
  qed
  ultimately show ?thesis using assms it fframe_trans [of "{}" s t u] unfolding wrote_file_def by simp
qed

text \<open>A change to a block in use that is not the indirect block of the file.\<close>

lemma block_change:
  fixes s t :: "'z kfs_scheme" and ip :: nat
  assumes ok: "file_ok s ip" and b: "in_use s b" "b \<noteq> addrs s ip NDIRECT" and t: "blk t = (blk s)(b := d)" "tframe {} s t"
  shows "file_ok t ip" "iaddr (addrs s ip) (blk t) = iaddr (addrs s ip) (blk s)" "in_use t = in_use s" "itab t = itab s"
    "disk_full t = disk_full s"
proof -
  show it: "itab t = itab s" and iad: "iaddr (addrs s ip) (blk t) = iaddr (addrs s ip) (blk s)"
    using tframe_fframe [OF t(2)] by simp_all (intro ext, simp add: iaddr_def t(1) b(2) [symmetric])
  have sb: "sb t = sb s" using tframe_fframe [OF t(2)] by (simp add: fframe_def)
  have free: "block_free t n = block_free s n" if "unat n < fs_size s" for n
    using b(1) that by (auto simp: block_free_def sb t(1) in_use_def)
  show iu: "in_use t = in_use s" by (rule ext) (use free in \<open>auto simp: in_use_def sb\<close>)
  show "disk_full t = disk_full s" using free by (simp add: disk_full_def sb)
  have "unat (0 :: u32) < fs_size s" using b(1) by (auto simp: in_use_def)
  then show "file_ok t ip" using ok free unfolding file_ok_def it fblocks_def iad iu sb by simp
qed

lemma same_block:
  fixes off i :: nat
  assumes "off mod BSIZE + i < BSIZE"
  shows "(off + i) div BSIZE = off div BSIZE" "(off + i) mod BSIZE = off mod BSIZE + i"
proof -
  have e: "off + i = BSIZE * (off div BSIZE) + (off mod BSIZE + i)" using mult_div_mod_eq [of BSIZE off] by linarith
  have "(BSIZE * k + x) div BSIZE = k \<and> (BSIZE * k + x) mod BSIZE = x" if "x < BSIZE" for k x
  proof
    show "(BSIZE * k + x) div BSIZE = k" using that by (intro div_nat_eqI) simp_all
    show "(BSIZE * k + x) mod BSIZE = x" using that by simp
  qed
  from this [OF assms, of "off div BSIZE"] show "(off + i) div BSIZE = off div BSIZE" "(off + i) mod BSIZE = off mod BSIZE + i"
    by (simp_all only: e [symmetric])
qed

text \<open>Some bytes of one block.\<close>

lemma wrote_block:
  fixes s t :: "'z kfs_scheme" and ip off :: nat
  defines "a \<equiv> iaddr (addrs s ip) (blk s) (off div BSIZE)"
  assumes ok: "file_ok s ip" and a: "a \<noteq> 0" "off div BSIZE < MAXFILE" and m: "off mod BSIZE + m \<le> BSIZE"
    and t: "blk t = (blk s)(a := splice (blk s a) (off mod BSIZE) q m)" "tframe {} s t"
  shows "wrote_file s ip off q m t"
proof -
  let ?f = "iaddr (addrs s ip) (blk s)" and ?k = "off div BSIZE"
  have fr: "fframe {} s t" "itab t = itab s" using tframe_fframe [OF t(2)] by simp_all
  have once: "listed_once ?f (addrs s ip NDIRECT)" and use: "\<And>b. b \<in> fblocks (addrs s ip) (blk s) \<Longrightarrow> in_use s b"
    using ok by (auto simp: file_ok_def)
  have "a \<in> fblocks (addrs s ip) (blk s)" using a by (auto simp: fblocks_def a_def)
  note ua = use [OF this] this
  have "a \<noteq> addrs s ip NDIRECT" using once a by (auto simp: listed_once_def a_def)
  note ch = block_change [OF ok ua(1) this t]
  have fb: "fblocks (addrs s ip) (blk t) = fblocks (addrs s ip) (blk s)" by (simp add: fblocks_def ch(2))
  have bytes: "fbyte (addrs t ip) (blk t) i = (if off \<le> i \<and> i < off + m then q (i - off) else fbyte (addrs s ip) (blk s) i)"
    if i: "i < MAXFILE * BSIZE" for i
  proof -
    have ik: "i div BSIZE < MAXFILE" using i by (simp add: less_mult_imp_div_less)
    have io: "i = BSIZE * (i div BSIZE) + i mod BSIZE" "off = BSIZE * ?k + off mod BSIZE" "i mod BSIZE < BSIZE" "off mod BSIZE < BSIZE"
      by (simp_all add: BSIZE_def)
    show ?thesis
    proof (cases "i div BSIZE = ?k")
      case True
      have i': "i = BSIZE * ?k + i mod BSIZE" using io(1) unfolding True .
      have "i - off = i mod BSIZE - off mod BSIZE" "off \<le> i \<longleftrightarrow> off mod BSIZE \<le> i mod BSIZE"
          "i < off + m \<longleftrightarrow> i mod BSIZE < off mod BSIZE + m" using i' io(2) by linarith+
      then show ?thesis using True a(1) by (simp add: fbyte_def fr(2) ch(2)) (simp add: a_def [symmetric] t(1) splice_def)
    next
      case False
      then have "?f (i div BSIZE) \<noteq> 0 \<Longrightarrow> ?f (i div BSIZE) \<noteq> a" using once ik a unfolding listed_once_def a_def by metis
      moreover have "\<not> (off \<le> i \<and> i < off + m)"
      proof
        assume a: "off \<le> i \<and> i < off + m"
        then have "off div BSIZE \<le> i div BSIZE" by (simp add: div_le_mono)
        moreover have "i < BSIZE * ?k + BSIZE" using a io(2) m by linarith
        then have "i div BSIZE < ?k + 1" by (intro less_mult_imp_div_less) (simp add: mult.commute)
        ultimately show False using False by simp
      qed
      moreover have "blk t b = blk s b" if "b \<noteq> a" for b using that by (simp add: t(1))
      ultimately show ?thesis by (auto simp: fbyte_def fr(2) ch(2))
    qed
  qed
  have blocks: "?f (i div BSIZE) \<noteq> 0" if "off \<le> i" "i < off + m" for i
  proof -
    have "off mod BSIZE + (i - off) < BSIZE" using that m by linarith
    from same_block(1) [OF this] show ?thesis using a(1) that(1) by (simp add: a_def)
  qed
  show ?thesis
    unfolding wrote_file_def using ch(1) fr bytes ua(2) blocks by (simp add: fb ch(2,3)) (auto simp: t(1))
qed

text \<open>The arithmetic of the loops, and the number of blocks that \<open>n\<close> bytes from \<open>off\<close> on touch.\<close>

definition blocks_for :: "nat \<Rightarrow> nat \<Rightarrow> nat" where
  "blocks_for off n = (if n = 0 then 0 else (off mod BSIZE + n + (BSIZE - 1)) div BSIZE)"

lemma unat_small32: "k < 2 ^ 32 \<Longrightarrow> unat (of_nat k :: u32) = k"
  by (simp add: unsigned_of_nat take_bit_nat_eq_self)

lemma BSIZE_small: "unat (of_nat BSIZE :: u32) = BSIZE"
  by (simp add: BSIZE_def)

lemma step_nat:
  fixes tot n off :: nat
  assumes "tot < n" "n < 2 ^ 32" "off < 2 ^ 32"
  defines "m \<equiv> min (n - tot) (BSIZE - off mod BSIZE)"
  shows "step_len (of_nat n) (of_nat tot) (of_nat off) = of_nat m" "0 < m" "m \<le> n - tot" "off mod BSIZE + m \<le> BSIZE" "unat (of_nat m :: u32) = m"
    "(of_nat off :: u32) div of_nat BSIZE = of_nat (off div BSIZE)" "unat (of_nat off :: u32) mod BSIZE = off mod BSIZE"
proof -
  have b: "off mod BSIZE < BSIZE" "BSIZE = 1024" by (simp_all add: BSIZE_def)
  have "m \<le> BSIZE - off mod BSIZE" by (simp add: m_def)
  with b show m: "off mod BSIZE + m \<le> BSIZE" "0 < m" "m \<le> n - tot" using assms(1) by (linarith, simp_all add: m_def)
  show um: "unat (of_nat m :: u32) = m" using m(3) assms(2) by (intro unat_small32) simp
  have o: "unat (of_nat off :: u32) = off" by (rule unat_small32 [OF assms(3)])
  then show "unat (of_nat off :: u32) mod BSIZE = off mod BSIZE" by simp
  show "(of_nat off :: u32) div of_nat BSIZE = of_nat (off div BSIZE)"
  proof (rule word_unat_eq_iff [THEN iffD2])
    have "off div BSIZE < 2 ^ 32" using assms(3) div_le_dividend [of off BSIZE] by linarith
    then show "unat ((of_nat off :: u32) div of_nat BSIZE) = unat (of_nat (off div BSIZE) :: u32)"
      by (simp only: unat_div o unat_small32 BSIZE_small)
  qed
  have d: "(of_nat n :: u32) - of_nat tot = of_nat (n - tot)" using assms(1) by (simp add: of_nat_diff)
  have "(of_nat off :: u32) mod of_nat BSIZE = of_nat (off mod BSIZE)"
  proof (rule word_unat_eq_iff [THEN iffD2])
    have "off mod BSIZE < 2 ^ 32" by (rule less_trans [OF b(1)]) (simp add: BSIZE_def)
    then show "unat ((of_nat off :: u32) mod of_nat BSIZE) = unat (of_nat (off mod BSIZE) :: u32)"
      by (simp only: unat_mod o unat_small32 BSIZE_small)
  qed
  then have "(of_nat BSIZE :: u32) - of_nat off mod of_nat BSIZE = of_nat (BSIZE - off mod BSIZE)"
    using b by (simp add: of_nat_diff)
  then show "step_len (of_nat n) (of_nat tot) (of_nat off) = of_nat m"
    using assms(2) b unfolding step_len_def d m_def by (simp add: min_def word_le_nat_alt unat_small32 del: of_nat_diff)
qed

lemma blocks_step:
  fixes n off :: nat
  assumes "0 < n"
  defines "m \<equiv> min n (BSIZE - off mod BSIZE)"
  shows "blocks_for off n = Suc (blocks_for (off + m) (n - m))"
proof -
  have b: "off mod 1024 < (1024 :: nat)" by simp
  show ?thesis
  proof (cases "n \<le> 1024 - off mod 1024")
    case True
    then have m: "m = n" by (simp add: m_def BSIZE_def)
    have "(off mod 1024 + n + 1023) div 1024 = 1" by (intro div_nat_eqI) (use True b assms(1) in auto)
    then show ?thesis using assms(1) by (simp add: blocks_for_def BSIZE_def m)
  next
    case False
    then have m: "m = 1024 - off mod 1024" by (simp add: m_def BSIZE_def)
    define q r where "q = off div 1024" and "r = off mod 1024"
    have "off = 1024 * q + r" by (simp add: q_def r_def)
    then have "off + m = 1024 * (q + 1)" using m b unfolding r_def [symmetric] by simp
    then have z: "(off + m) mod 1024 = 0" by simp
    have n: "0 < n - m" using False m b by linarith
    have "off mod 1024 + n + 1023 = (n - m + 1023) + 1024" using False m b by linarith
    then have "(off mod 1024 + n + 1023) div 1024 = Suc ((n - m + 1023) div 1024)" by simp
    then show ?thesis using n z assms(1) by (simp add: blocks_for_def BSIZE_def)
  qed
qed

context copy_source begin

lemma writei_block:
  fixes s :: "'z kfs_scheme" and ip off :: nat
  defines "a \<equiv> iaddr (addrs s ip) (blk s) (off div BSIZE)"
  assumes "ok s" "file_ok s ip" "tx {} (Suc K) s" and a: "a \<noteq> 0" "off div BSIZE < MAXFILE"
    and m: "off mod BSIZE + m \<le> BSIZE" "tot + m \<le> n"
    and G: "\<And>t. tx {} K t \<Longrightarrow> wrote_file s ip off (at p tot) m t \<Longrightarrow> wp (G t) Q"
  shows "wp (kbind (bread (i_dev (itab s ip)) a s) (\<lambda>bp s.
      kbind (either_copyin (b_data (bufs s bp)) (off mod BSIZE) (cur_add src tot) m s) (\<lambda>(r, d) s.
        let s = set_data bp d s in
        if r = - 1 then F bp s else kbind (log_write bp s) (\<lambda>_ s. kbind (brelse bp s) (\<lambda>_ s. G s))))) Q"
proof -
  have dev: "i_dev (itab s ip) = ROOTDEV" using assms(3) by (simp add: file_ok_def)
  let ?d = "splice (blk s a) (off mod BSIZE) (at p tot) m"
  show ?thesis
    unfolding wp_kbind dev
  proof (rule wp_mono [OF tx_bread [OF assms(4)]], simp, simp, elim conjE)
    fix bp and t :: "'z kfs_scheme"
    assume t: "tx {bp} (Suc K) t" "b_blockno (bufs t bp) = a" "b_data (bufs t bp) = blk s a" "blk t = blk s"
      "tframe {} s t" "lg t = lg s"
    have "ok t" using kept [OF assms(2)] tframe_fframe [OF t(5)] by blast
    note c = copy [OF this m(2), of "blk s a" "off mod BSIZE"]
    have "wp (log_write bp (set_data bp ?d t)) (\<lambda>_ u. wp (brelse bp u) (\<lambda>_ u. wp (G u) Q))"
    proof (rule wp_mono [OF tx_log_write [OF t(1) _ t(2)]], simp, elim conjE)
      fix u :: "'z kfs_scheme"
      assume u: "tx {bp} K u" "b_blockno (bufs u bp) = a" "b_data (bufs u bp) = ?d" "blk u = (blk t)(a := ?d)"
        "tframe {} t u" "lg u = log_add a (lg t)"
      have l: "b_blockno (bufs u bp) \<in> logged (lg u)"
        using t(1) by (simp add: u(2,6) logged_add tx_def log_open_def)
      have "tframe {} s u" using t(5) u(5) by (rule tframe_trans)
      show "wp (brelse bp u) (\<lambda>_ u. wp (G u) Q)"
      proof (rule wp_mono [OF tx_brelse [OF u(1) _ disjI1 [OF l]]], simp, elim conjE)
        fix v :: "'z kfs_scheme"
        assume v: "tx {} K v" "blk v = blk u" "tframe {} u v"
        have "blk v = (blk s)(a := ?d)" using t(4) u(4) v(2) by simp
        moreover have "tframe {} s v" using \<open>tframe {} s u\<close> v(3) by (rule tframe_trans)
        ultimately have "wrote_file s ip off (at p tot) m v"
          using assms(3) a m(1) unfolding a_def by (intro wrote_block)
        with v(1) show "wp (G v) Q" by (rule G)
      qed
    qed
    then show "wp (either_copyin (b_data (bufs t bp)) (off mod BSIZE) (cur_add src tot) m t) (\<lambda>x u. wp ((case x of (r, d) \<Rightarrow> \<lambda>s.
        let s = set_data bp d s in
        if r = - 1 then F bp s else kbind (log_write bp s) (\<lambda>_ s. kbind (brelse bp s) (\<lambda>_ s. G s))) u) Q)"
      by (simp add: t(3) c wp_simps Let_def)
  qed
qed

lemma writei_loop_spec:
  assumes "ok s" "file_ok s ip" "tx {} (6 * blocks_for off (n - tot) + k) s" "tot \<le> n" "n < 2 ^ 31" "off + (n - tot) \<le> MAXFILE * BSIZE"
  shows "wp (writei_loop ip (of_nat n) (of_nat tot) (of_nat off) (cur_add src tot) s) (\<lambda>(tot', off') t. \<exists>w. tot + w \<le> n \<and>
    tot' = of_nat (tot + w) \<and> off' = of_nat (off + w) \<and> tx {} k t \<and> wrote_file s ip off (at p tot) w t \<and>
    (tot + w < n \<longrightarrow> disk_full t))"
  using assms
proof (induction "n - tot" arbitrary: s tot off rule: less_induct)
  case less
  note pre = less.prems
  have n32: "n < 2 ^ 32" "off < 2 ^ 32" using pre(4-6) by (simp_all add: MAXFILE_def NDIRECT_def NINDIRECT_def BSIZE_def)
  have lt: "(of_nat tot :: u32) < of_nat n \<longleftrightarrow> tot < n" using pre(4) n32 by (simp add: word_less_nat_alt unat_small32)
  show ?case
  proof (cases "tot < n")
    case False
    then have "wrote_file s ip off (at p tot) 0 s" by (intro extended_wrote extended_refl pre(2))
    then show ?thesis
      using False pre(3,4) lt by (subst writei_loop.simps) (auto simp: wp_simps intro: tx_less)
  next
    case True
    define m where "m = min (n - tot) (BSIZE - off mod BSIZE)"
    note st = step_nat [OF True n32, folded m_def]
    have bl: "blocks_for off (n - tot) = Suc (blocks_for (off + m) (n - (tot + m)))"
      using blocks_step [of "n - tot" off] True by (simp add: m_def)
    define K where "K = 6 * blocks_for (off + m) (n - (tot + m)) + k"
    have tx6: "tx {} (Suc K + 5) s" using pre(3) unfolding bl by (simp add: K_def algebra_simps)
    have kb: "off div BSIZE < MAXFILE" using pre(6) True by (simp add: less_mult_imp_div_less)
    let ?Q = "\<lambda>(tot', off') t. \<exists>w. tot + w \<le> n \<and> tot' = of_nat (tot + w) \<and> off' = of_nat (off + w) \<and> tx {} k t \<and>
      wrote_file s ip off (at p tot) w t \<and> (tot + w < n \<longrightarrow> disk_full t)"
    let ?C = "\<lambda>a s. wp (if a = 0 then Ok (of_nat tot, of_nat off) s else
        kbind (bread (i_dev (itab s ip)) a s) (\<lambda>bp s.
        kbind (either_copyin (b_data (bufs s bp)) (off mod BSIZE) (cur_add src tot) m s) (\<lambda>(r, d) s.
          let s = set_data bp d s in
          if r = - 1 then kbind (brelse bp s) (\<lambda>_ s. Ok (of_nat tot, of_nat off) s)
          else kbind (log_write bp s) (\<lambda>_ s. kbind (brelse bp s) (\<lambda>_ s.
            writei_loop ip (of_nat n) (of_nat tot + of_nat m) (of_nat off + of_nat m) (cur_add (cur_add src tot) m) s))))) ?Q"
    have "wp (bmap ip (of_nat (off div BSIZE)) s) ?C"
    proof (rule wp_mono [OF bmap_spec [OF tx6 pre(2) kb]], elim conjE)
      fix a and t :: "'z kfs_scheme"
      assume t: "tx {} (Suc K) t" "extended s ip t" "a = iaddr (addrs t ip) (blk t) (off div BSIZE)" "a = 0 \<longrightarrow> disk_full t"
      have f: "file_ok t ip" "ok t" using t(2) kept [OF pre(1)] by (simp_all add: extended_def)
      show "?C a t"
      proof (cases "a = 0")
        case a: True
        show ?thesis
          using tx_less [OF t(1), of k] t(4) a pre(4) extended_wrote [OF t(2), of off "at p tot"]
          by (auto simp: wp_simps K_def intro: exI [of _ 0])
      next
        case a: False
        show ?thesis
          unfolding if_not_P [OF a] unfolding t(3)
        proof (rule writei_block [OF f(2,1) t(1) a [unfolded t(3)] kb st(4)])
          show "tot + m \<le> n" using st(3) True by simp
          fix u :: "'z kfs_scheme"
          assume u: "tx {} K u" "wrote_file t ip off (at p tot) m u"
          then have wu: "wrote_file s ip off (at p tot) m u"
            using wrote_file_trans [OF extended_wrote [OF t(2)], of off "at p tot" m u] by simp
          show "wp (writei_loop ip (of_nat n) (of_nat tot + of_nat m) (of_nat off + of_nat m) (cur_add (cur_add src tot) m) u) ?Q"
          proof -
            have ou: "ok u" using wu kept [OF pre(1)] by (simp add: wrote_file_def)
            have fu: "file_ok u ip" using wu by (simp add: wrote_file_def)
            have tm: "tot + m \<le> n" using st(3) True by simp
            have sum: "off + m + (n - (tot + m)) = off + (n - tot)" using tm by simp
            have dec: "n - (tot + m) < n - tot" using st(2) True by simp
            note IH = less.hyps [OF dec ou fu u(1) [unfolded K_def] tm pre(5), unfolded sum, OF pre(6)]
            have "wp (writei_loop ip (of_nat n) (of_nat (tot + m)) (of_nat (off + m)) (cur_add src (tot + m)) u) ?Q"
            proof (rule wp_mono [OF IH], clarify)
              fix w and v :: "'z kfs_scheme"
              assume w: "tot + m + w \<le> n" "tx {} k v" "wrote_file u ip (off + m) (at p (tot + m)) w v"
                "tot + m + w < n \<longrightarrow> disk_full v"
              have "wrote_file s ip off (at p tot) (m + w) v" using wrote_file_trans [OF wu, of w v] w(3) by simp
              then show "\<exists>w'. tot + w' \<le> n \<and> of_nat (tot + m + w) = of_nat (tot + w') \<and> of_nat (off + m + w) = of_nat (off + w') \<and>
                  tx {} k v \<and> wrote_file s ip off (at p tot) w' v \<and> (tot + w' < n \<longrightarrow> disk_full v)"
                using w by (intro exI [of _ "m + w"]) (simp add: add.assoc)
            qed
            then show ?thesis by simp
          qed
        qed
      qed
    qed
    then show ?thesis
      by (subst writei_loop.simps) (simp only: True lt if_True st(1,5-7) Let_def wp_kbind [of "bmap ip (of_nat (off div BSIZE)) s"])
  qed
qed

end

section \<open>The inode, and the whole of \<open>writei\<close>\<close>

abbreviation inode_block :: "'z kfs_scheme \<Rightarrow> nat \<Rightarrow> u32" where
  "inode_block s ip \<equiv> IBLOCK (i_inum (itab s ip)) (sb s)"

text \<open>The inode in the table is the one on the disk, or on its way there.\<close>

definition inode_stored :: "'z kfs_scheme \<Rightarrow> nat \<Rightarrow> bool" where
  "inode_stored s ip \<longleftrightarrow> get_dinode (blk s (inode_block s ip)) (dino_off (i_inum (itab s ip))) (itab s ip) = itab s ip"

lemma iupdate_block:
  fixes s :: "'z kfs_scheme"
  assumes "tx {} (Suc k) s" "i_dev (itab s ip) = ROOTDEV"
  shows "wp (iupdate ip s) (\<lambda>_ t. tx {} k t \<and> tframe {} s t \<and> inode_block s ip \<in> logged (lg t) \<and>
    blk t = (blk s)(inode_block s ip := put_dinode (blk s (inode_block s ip)) (dino_off (i_inum (itab s ip))) (itab s ip)))"
proof -
  define f where "f d = put_dinode d (dino_off (i_inum (itab s ip))) (itab s ip)" for d
  obtain i t where "bread ROOTDEV (inode_block s ip) s = Ok i t" "itab t = itab s" "sb t = sb s"
    using tx_bread [OF assms(1), of "inode_block s ip"] by (auto simp: wp_iff dest: tframe_sb)
  then have "iupdate ip s = kbind (bread ROOTDEV (inode_block s ip) s) (\<lambda>i s.
      kbind (log_write i (set_data i (f (b_data (bufs s i))) s)) (\<lambda>_ s. brelse i s))"
    by (simp add: iupdate_def Let_def assms(2) f_def)
  moreover have "0 \<le> lh_n (lg s)" using assms(1) by (simp add: tx_def log_open_def)
  ultimately show ?thesis
    using tx_modify [OF assms(1), of "inode_block s ip" f] by (auto simp: f_def logged_add elim!: wp_mono)
qed

lemma iupdate_spec:
  fixes s :: "'z kfs_scheme"
  assumes "tx {} (Suc k) s" "i_dev (itab s ip) = ROOTDEV"
  shows "wp (iupdate ip s) (\<lambda>_ t. tx {} k t \<and> tframe {} s t \<and> inode_stored t ip \<and>
    (\<exists>d. blk t = (blk s)(inode_block s ip := d)))"
proof -
  have "get_dinode (put_dinode d a i) a i = i" for d a i
    unfolding get_dinode_def put_dinode_fields(1-5) by (simp add: put_dinode_fields(6) cong: if_cong)
  then show ?thesis
    by (intro wp_mono [OF iupdate_block [OF assms]]) (auto simp: inode_stored_def dest: tframe_sb)
qed

text \<open>The contents of a file, and a list with \<open>ys\<close> written at \<open>off\<close>.\<close>

definition contents :: "'z kfs_scheme \<Rightarrow> nat \<Rightarrow> u8 list" where
  "contents s ip = map (fbyte (addrs s ip) (blk s)) [0..<unat (i_size (itab s ip))]"

definition write_at :: "nat \<Rightarrow> 'a list \<Rightarrow> 'a list \<Rightarrow> 'a list" where
  "write_at off ys xs = take off xs @ ys @ drop (off + length ys) xs"

lemma length_write_at: "off \<le> length xs \<Longrightarrow> length (write_at off ys xs) = max (length xs) (off + length ys)"
  by (auto simp: write_at_def)

lemma nth_write_at:
  "off \<le> length xs \<Longrightarrow> i < max (length xs) (off + length ys) \<Longrightarrow>
    write_at off ys xs ! i = (if off \<le> i \<and> i < off + length ys then ys ! (i - off) else xs ! i)"
  by (auto simp: write_at_def nth_append min_def)

text \<open>The file is no longer than a file may be, and its inode has a block of its own.\<close>

definition may_write :: "'z kfs_scheme \<Rightarrow> nat \<Rightarrow> bool" where
  "may_write s ip \<longleftrightarrow> unat (i_size (itab s ip)) \<le> MAXFILE * BSIZE \<and> inode_block s ip \<noteq> 0 \<and> in_use s (inode_block s ip) \<and>
    inode_block s ip \<notin> fblocks (addrs s ip) (blk s)"

text \<open>Every byte of the file has a block.\<close>

definition no_holes :: "'z kfs_scheme \<Rightarrow> nat \<Rightarrow> bool" where
  "no_holes s ip \<longleftrightarrow> (\<forall>k<MAXFILE. k * BSIZE < unat (i_size (itab s ip)) \<longrightarrow> iaddr (addrs s ip) (blk s) k \<noteq> 0)"

text \<open>
  From \<open>s\<close> to \<open>t\<close>, \<open>w\<close> of \<open>n\<close> bytes \<open>q\<close> have been written at \<open>off\<close>: fewer than \<open>n\<close> only if the disk is full.
  Blocks in use that are neither the file's nor the one of its inode are as before.
\<close>

definition wrote_bytes :: "'z kfs_scheme \<Rightarrow> nat \<Rightarrow> nat \<Rightarrow> bytes \<Rightarrow> nat \<Rightarrow> nat \<Rightarrow> 'z kfs_scheme \<Rightarrow> bool" where
  "wrote_bytes s ip off q n w t \<longleftrightarrow> w \<le> n \<and> (w < n \<longrightarrow> disk_full t) \<and>
    contents t ip = write_at off (map q [0..<w]) (contents s ip) \<and> file_ok t ip \<and> may_write t ip \<and> inode_stored t ip \<and> (no_holes s ip \<longrightarrow> no_holes t ip) \<and>
    (\<forall>b. in_use s b \<and> b \<notin> fblocks (addrs s ip) (blk s) \<and> b \<noteq> inode_block s ip \<longrightarrow> blk t b = blk s b)"

lemma contents_wrote:
  assumes w: "wrote_file s ip off q w t" and sz: "unat (i_size (itab s ip)) \<le> MAXFILE * BSIZE" "off \<le> unat (i_size (itab s ip))"
    "off + w \<le> MAXFILE * BSIZE"
    and u: "\<And>i. i < MAXFILE * BSIZE \<Longrightarrow> fbyte (addrs u ip) (blk u) i = fbyte (addrs t ip) (blk t) i"
    "unat (i_size (itab u ip)) = max (unat (i_size (itab s ip))) (off + w)"
  shows "contents u ip = write_at off (map q [0..<w]) (contents s ip)"
proof (rule nth_equalityI)
  have l: "off \<le> length (contents s ip)" using sz(2) by (simp add: contents_def)
  show "length (contents u ip) = length (write_at off (map q [0..<w]) (contents s ip))"
    unfolding length_write_at [OF l] by (simp add: contents_def u(2))
  fix i
  assume "i < length (contents u ip)"
  then have i: "i < max (length (contents s ip)) (off + length (map q [0..<w]))" by (simp add: contents_def u(2))
  then have im: "i < MAXFILE * BSIZE" using sz by (auto simp: contents_def)
  have "contents u ip ! i = (if off \<le> i \<and> i < off + w then q (i - off) else fbyte (addrs s ip) (blk s) i)"
    using i u(1) [OF im] w im by (simp add: contents_def u(2) wrote_file_def)
  then show "contents u ip ! i = write_at off (map q [0..<w]) (contents s ip) ! i"
    unfolding nth_write_at [OF l i] using i sz(2) by (cases "i < unat (i_size (itab s ip))") (auto simp: contents_def nth_append)
qed

lemma wrote_iupdate:
  fixes s t :: "'z kfs_scheme" and ip off w :: nat
  defines "t' \<equiv> if i_size (itab t ip) < of_nat (off + w) then ino_upd ip (\<lambda>i. i\<lparr>i_size := of_nat (off + w)\<rparr>) t else t"
  assumes t: "tx {} (Suc k) t" "wrote_file s ip off q w t" "w < n \<longrightarrow> disk_full t" and n: "w \<le> n" "off + w \<le> MAXFILE * BSIZE"
    and s: "may_write s ip" "off \<le> unat (i_size (itab s ip))"
  shows "wp (iupdate ip t') (\<lambda>_ u. tx {} k u \<and> wrote_bytes s ip off q n w u)"
proof -
  let ?IB = "inode_block s ip"
  have ok: "file_ok t ip" and sb: "sb t = sb s" using t(2) by (simp_all add: wrote_file_def fframe_def)
  obtain A where itab: "itab t = (itab s)(ip := (itab s ip)\<lparr>i_addrs := A\<rparr>)" using t(2) unfolding wrote_file_def by blast
  have i1: "i_inum (itab t ip) = i_inum (itab s ip)" "i_size (itab t ip) = i_size (itab s ip)" unfolding itab by simp_all
  have f: "addrs t' ip = addrs t ip" "i_dev (itab t' ip) = i_dev (itab t ip)" "i_inum (itab t' ip) = i_inum (itab t ip)"
    "blk t' = blk t" "sb t' = sb t" "tx {} (Suc k) t'" "file_ok t' ip" "in_use t' = in_use t" "disk_full t' = disk_full t"
    using t(1) ok by (simp_all add: t'_def file_ok_def in_use_def [abs_def] block_free_def disk_full_def)
  have sz: "unat (i_size (itab t' ip)) = max (unat (i_size (itab s ip))) (off + w)"
  proof -
    have "off + w < 2 ^ 32" using n(2) by (simp add: MAXFILE_def NDIRECT_def NINDIRECT_def BSIZE_def)
    then show ?thesis by (simp add: t'_def i1(2) word_less_nat_alt unat_small32 del: of_nat_add)
  qed
  have IB: "in_use t ?IB" "?IB \<notin> fblocks (addrs t ip) (blk t)" using s(1) t(2) unfolding may_write_def wrote_file_def by blast+
  then have ni: "?IB \<noteq> addrs t ip NDIRECT" using s(1) by (auto simp: fblocks_def may_write_def)
  have dev: "i_dev (itab t' ip) = ROOTDEV" using f(7) by (simp add: file_ok_def)
  have ib: "inode_block t' ip = ?IB" by (simp add: f i1 sb)
  show ?thesis
  proof (rule wp_mono [OF iupdate_spec [OF f(6) dev]], elim conjE exE, unfold ib)
    fix u :: "'z kfs_scheme" and d
    assume u: "tx {} k u" "tframe {} t' u" "inode_stored u ip" "blk u = (blk t')(?IB := d)"
    have "in_use t' ?IB" "?IB \<noteq> addrs t' ip NDIRECT" using IB ni by (simp_all add: f)
    note ch = block_change [OF f(7) this u(4,2)]
    have fb: "fbyte (addrs u ip) (blk u) i = fbyte (addrs t ip) (blk t) i" if "i < MAXFILE * BSIZE" for i
    proof -
      have "fbyte (addrs t ip) (blk u) i = fbyte (addrs t ip) (blk t) i"
        using IB(2) by (intro iaddr_cong(3) that) (auto simp: u(4) f)
      then show ?thesis by (simp add: ch(4) f)
    qed
    have "contents u ip = write_at off (map q [0..<w]) (contents s ip)"
      using s fb sz n(2) by (intro contents_wrote [OF t(2)]) (simp_all add: may_write_def ch(4))
    moreover have "disk_full u = disk_full t" using ch(5) f(9) by simp
    moreover have "blk u b = blk s b" if "in_use s b" "b \<notin> fblocks (addrs s ip) (blk s)" "b \<noteq> ?IB" for b
      using t(2) that by (simp add: u(4) f wrote_file_def)
    moreover have ia: "iaddr (addrs u ip) (blk u) = iaddr (addrs t ip) (blk t)" using ch(2) by (simp add: ch(4) f)
    moreover have "no_holes u ip" if "no_holes s ip"
      unfolding no_holes_def ia
    proof (intro allI impI)
      fix k
      assume k: "k < MAXFILE" "k * BSIZE < unat (i_size (itab u ip))"
      then have "k * BSIZE < unat (i_size (itab s ip)) \<or> off \<le> k * BSIZE \<and> k * BSIZE < off + w"
        using s(2) sz by (auto simp: ch(4))
      moreover have "k = k * BSIZE div BSIZE" by (simp add: BSIZE_def)
      ultimately have "iaddr (addrs s ip) (blk s) k \<noteq> 0 \<or> (\<exists>i. off \<le> i \<and> i < off + w \<and> k = i div BSIZE)"
        using that k(1) unfolding no_holes_def by blast
      then show "iaddr (addrs t ip) (blk t) k \<noteq> 0" using t(2) k(1) unfolding wrote_file_def by blast
    qed
    moreover have "may_write u ip"
    proof -
      have "fblocks (addrs u ip) (blk u) = fblocks (addrs t ip) (blk t)" unfolding fblocks_def ia by (simp add: ch(4) f)
      moreover have "inode_block u ip = ?IB" using tframe_sb [OF u(2)] ib by simp
      moreover have "unat (i_size (itab u ip)) \<le> MAXFILE * BSIZE" using s(1) n(2) sz by (simp add: ch(4) may_write_def)
      ultimately show ?thesis using IB s(1) by (simp add: may_write_def ch(3) f(8))
    qed
    ultimately show "tx {} k u \<and> wrote_bytes s ip off q n w u"
      using u ch(1) n(1) t(3) by (simp add: wrote_bytes_def)
  qed
qed

lemma writei_eq:
  assumes "i_size (itab s ip) \<ge> off" "unat off + unat n \<le> MAXFILE * BSIZE"
  shows "writei ip src off n s = kbind (writei_loop ip n 0 off src s) (\<lambda>(tot, off) s.
    let s = (if i_size (itab s ip) < off then ino_upd ip (\<lambda>i. i\<lparr>i_size := off\<rparr>) s else s)
    in kbind (iupdate ip s) (\<lambda>_ s. Ok (sint tot) s))"
proof -
  have "unat off + unat n < 2 ^ 32" using assms(2) by (simp add: MAXFILE_def NDIRECT_def NINDIRECT_def BSIZE_def)
  then have "unat (off + n) = unat off + unat n" by (simp add: unat_plus_simple [THEN iffD1] no_olen_add_nat)
  with assms have "\<not> (i_size (itab s ip) < off \<or> off + n < off)" "\<not> MAXFILE * BSIZE < unat (off + n)"
    by (auto simp: word_less_nat_alt word_le_nat_alt)
  then show ?thesis by (simp only: writei_def if_False)
qed

lemma writei_rejects:
  assumes "i_size (itab s ip) < off \<or> MAXFILE * BSIZE < unat off + unat n"
  shows "writei ip src off n s = Ok (- 1) s"
proof (cases "off + n < off")
  case False
  then have "unat (off + n) = unat off + unat n"
    by (simp add: no_olen_add_nat unat_plus_simple [symmetric] not_less word_le_nat_alt)
  then show ?thesis using assms by (auto simp: writei_def)
qed (simp add: writei_def)

context copy_source begin

lemma writei_spec:
  assumes ok: "ok s" "file_ok s ip" "may_write s ip" and room: "tx {} (6 * blocks_for off n + Suc k) s"
    and off: "off \<le> unat (i_size (itab s ip))" "off + n \<le> MAXFILE * BSIZE"
  shows "wp (writei ip src (of_nat off) (of_nat n) s) (\<lambda>r t. \<exists>w. r = int w \<and> tx {} k t \<and> wrote_bytes s ip off p n w t)"
proof -
  have small: "off < 2 ^ 32" "n < 2 ^ 31" using off(2) by (simp_all add: MAXFILE_def NDIRECT_def NINDIRECT_def BSIZE_def)
  then have u: "unat (of_nat off :: u32) = off" "unat (of_nat n :: u32) = n" by (simp_all add: unat_small32)
  have "(of_nat off :: u32) \<le> i_size (itab s ip)" using off(1) u(1) by (simp add: word_le_nat_alt)
  note e = writei_eq [OF this, of "of_nat n", unfolded u, OF off(2)]
  have L: "wp (writei_loop ip (of_nat n) 0 (of_nat off) src s) (\<lambda>(tot', off') t. \<exists>w. w \<le> n \<and> tot' = of_nat w \<and>
      off' = of_nat (off + w) \<and> tx {} (Suc k) t \<and> wrote_file s ip off p w t \<and> (w < n \<longrightarrow> disk_full t))"
    using writei_loop_spec [OF ok(1,2), of off 0 "Suc k"] room small off by simp
  show ?thesis
    unfolding e wp_kbind
  proof (rule wp_mono [OF L], clarify)
    fix w and t :: "'z kfs_scheme"
    assume w: "w \<le> n" "tx {} (Suc k) t" "wrote_file s ip off p w t" "w < n \<longrightarrow> disk_full t"
    have "off + w \<le> MAXFILE * BSIZE" using w(1) off(2) by simp
    note i = wrote_iupdate [OF w(2-4,1) this ok(3) off(1)]
    have "sint (of_nat w :: u32) = int w" using w(1) small(2) by (simp add: signed_of_nat signed_take_bit_int_eq_self)
    then show "wp (let s = if i_size (itab t ip) < of_nat (off + w) then ino_upd ip (\<lambda>i. i\<lparr>i_size := of_nat (off + w)\<rparr>) t else t
      in kbind (iupdate ip s) (\<lambda>_ s. Ok (sint (of_nat w :: u32)) s)) (\<lambda>r t. \<exists>w. r = int w \<and> tx {} k t \<and> wrote_bytes s ip off p n w t)"
      unfolding Let_def wp_kbind by (intro wp_mono [OF i]) (auto simp: wp_simps)
  qed
qed

end

text \<open>Where \<open>writei\<close> may read \<open>n\<close> bytes from, and what they are.\<close>

fun can_read :: "'z kfs_scheme \<Rightarrow> cursor \<Rightarrow> nat \<Rightarrow> bool" where
  "can_read s (VarAt b i) n \<longleftrightarrow> curproc s \<noteq> None"
| "can_read s (UserAt a) n \<longleftrightarrow> (\<exists>q. curproc s = Some q \<and> pt_wf 2 (pmem s) (p_pagetable (procs s q)) \<and>
    umapped (pmem s) (p_pagetable (procs s q)) a n)"
| "can_read s (PhysAt a) n \<longleftrightarrow> False"

fun cur_bytes :: "'z kfs_scheme \<Rightarrow> cursor \<Rightarrow> bytes" where
  "cur_bytes s (VarAt b i) = at b i"
| "cur_bytes s (UserAt a) = (\<lambda>i. the (uread (pmem s) (p_pagetable (procs s (the (curproc s)))) (a + of_nat i)))"
| "cur_bytes s (PhysAt a) = (\<lambda>_. 0)"

lemma writei_written:
  fixes s :: "'z kfs_scheme"
  assumes "file_ok s ip" "may_write s ip" "can_read s src (unat n)" "tx {} (6 * blocks_for (unat off) (unat n) + Suc k) s"
    and "\<not> (i_size (itab s ip) < off \<or> MAXFILE * BSIZE < unat off + unat n)"
  shows "wp (writei ip src off n s) (\<lambda>r t. \<exists>w. r = int w \<and> tx {} k t \<and> wrote_bytes s ip (unat off) (cur_bytes s src) (unat n) w t)"
proof -
  have off: "unat off \<le> unat (i_size (itab s ip))" "unat off + unat n \<le> MAXFILE * BSIZE"
    using assms(5) by (simp_all add: word_less_nat_alt)
  show ?thesis
  proof (cases src)
    case (VarAt b i)
    then show ?thesis using kernel_source.writei_spec [OF _ assms(1,2,4) off, of b i] assms(3) by simp
  next
    case (UserAt a)
    then obtain q where q: "curproc s = Some q" "pt_wf 2 (pmem s) (p_pagetable (procs s q))"
      "umapped (pmem s) (p_pagetable (procs s q)) a (unat n)" using assms(3) by auto
    have "user_at (pmem s) (p_pagetable (procs s q)) s" using q(1) by (simp add: user_at_def)
    then show ?thesis
      using user_source.writei_spec [OF _ assms(1,2,4) off, of "pmem s" "p_pagetable (procs s q)" a] q unsigned_less [where 'a = nat, of n]
      by (simp add: UserAt user_bytes_def)
  next
    case (PhysAt a)
    then show ?thesis using assms(3) by simp
  qed
qed

text \<open>
  C9: \<open>writei\<close> refuses to write behind the end of the file or beyond the largest file, and changes
  nothing then. Otherwise, inside an operation with enough room in the log and with a source that
  can be read, it returns the number \<open>w\<close> of bytes written: all of them unless the disk is full. The
  contents of the file are as before with these bytes written at \<open>off\<close>, its inode is in its
  block, no other block in use has changed, and the file is again one that can be written to; it
  gets no holes.
\<close>

theorem writei_contents:
  fixes s :: "'z kfs_scheme"
  assumes "file_ok s ip" "may_write s ip" "can_read s src (unat n)" "tx {} (6 * blocks_for (unat off) (unat n) + Suc k) s"
  shows "if i_size (itab s ip) < off \<or> MAXFILE * BSIZE < unat off + unat n then writei ip src off n s = Ok (- 1) s
    else wp (writei ip src off n s) (\<lambda>r t. \<exists>w\<le>unat n. r = int w \<and> (w < unat n \<longrightarrow> disk_full t) \<and>
      contents t ip = write_at (unat off) (map (cur_bytes s src) [0..<w]) (contents s ip) \<and>
      inode_stored t ip \<and> file_ok t ip \<and> may_write t ip \<and> (no_holes s ip \<longrightarrow> no_holes t ip) \<and> tx {} k t \<and>
      (\<forall>b. in_use s b \<and> b \<notin> fblocks (addrs s ip) (blk s) \<and> b \<noteq> inode_block s ip \<longrightarrow> blk t b = blk s b))"
proof (cases "i_size (itab s ip) < off \<or> MAXFILE * BSIZE < unat off + unat n")
  case True
  then show ?thesis using writei_rejects by simp
next
  case False
  show ?thesis
    unfolding if_not_P [OF False] by (rule wp_mono [OF writei_written [OF assms False]]) (auto simp: wrote_bytes_def)
qed

text \<open>An empty file on the disk of \<open>demo_fs\<close>.\<close>

definition demo_file :: kfs where
  "demo_file = ino_upd 0 (\<lambda>i. i\<lparr>i_dev := ROOTDEV, i_inum := 1\<rparr>) demo_fs"

lemma demo_file_fields:
  "blk demo_file = blk demo_fs" "sb_inodestart (sb demo_file) = 33" "sb demo_file = sb demo_fs" "i_size (itab demo_file 0) = 0"
  "addrs demo_file 0 = (\<lambda>_. 0)" "i_inum (itab demo_file 0) = 1" "i_dev (itab demo_file 0) = ROOTDEV" "curproc demo_file \<noteq> None"
proof -
  have d: "kbio.more (binit s) = kbio.more s" for s :: "'z kbio_scheme"
    by (simp add: binit_def Let_def binit_loop_disk buf_upd_def)
  have "sb (binit s) = sb s \<and> itab (binit s) = itab s" for s :: kfs
    using klog_more [of "binit s" s] sb_more [of "binit s" s] d [of s] by simp
  then show "sb_inodestart (sb demo_file) = 33" "i_size (itab demo_file 0) = 0" "addrs demo_file 0 = (\<lambda>_. 0)"
    by (simp_all add: demo_file_def demo_fs_def)
  show "curproc demo_file \<noteq> None"
    using demo_fs_fields(1) by (simp add: demo_file_def bio_inv_def ino_upd_def)
qed (simp_all add: demo_file_def)

lemma demo_file_ok: "file_ok demo_file 0" "may_write demo_file 0" "tx {} 7 demo_file"
proof -
  have free: "block_free demo_file n \<longleftrightarrow> 47 \<le> unat n" if "unat n < 2000" for n
    using demo_free [OF that] by (simp add: block_free_def demo_file_fields)
  have bb: "BBLOCK m (sb demo_file) = 46" if "unat m < 2000" for m
  proof -
    have "unat m div 8192 = 0" using that by simp
    then have "m div 8192 = 0" by (simp add: word_unat_eq_iff unat_div)
    then show ?thesis by (simp add: BBLOCK_def BPB_eq demo_fs_fields demo_file_fields)
  qed
  have sz: "fs_size demo_file = 2000" by (simp add: demo_file_fields demo_fs_fields)
  have none: "iaddr (\<lambda>_. 0) D = (\<lambda>_. 0)" for D by (auto simp: iaddr_def)
  show "file_ok demo_file 0"
    by (auto simp: file_ok_def demo_file_fields(4-7) none listed_once_def fblocks_def sz free bb)
  have "IBLOCK 1 (sb demo_file) = 33" by (simp add: IBLOCK_def IPB_def BSIZE_def demo_file_fields(2))
  then show "may_write demo_file 0"
    by (auto simp: may_write_def demo_file_fields(4-7) fblocks_def none in_use_def sz free bb)
  show "tx {} 7 demo_file"
    by (simp add: demo_file_def) (simp add: tx_def logged_def log_open_def demo_fs_fields LOGBLOCKS_def MAXOPBLOCKS_def)
qed

lemma writei_contents_witness:
  "\<exists>w t. writei 0 (VarAt (\<lambda>i. of_nat i + 65) 0) 0 3 demo_file = Ok (int w) t \<and> contents t 0 = take w [65, 66, 67] \<and>
    writei 0 (VarAt (\<lambda>i. of_nat i + 65) 0) 1 3 demo_file = Ok (- 1) demo_file"
proof -
  have b: "blocks_for 0 3 = 1" by (simp add: blocks_for_def BSIZE_def)
  let ?src = "VarAt (\<lambda>i. of_nat i + 65) 0"
  have r: "can_read demo_file ?src n" for n by (simp add: demo_file_fields(8))
  have c: "contents demo_file 0 = []" by (simp add: contents_def demo_file_fields)
  have e: "take w [65, 66, 67] = map (\<lambda>i. of_nat i + 65 :: u8) [0..<w]" if "w \<le> 3" for w
  proof -
    have "w \<in> {0, 1, 2, 3}" using that by auto
    then show ?thesis by (auto simp: upt_rec)
  qed
  have b1: "blocks_for (Suc 0) 3 = 1" by (simp add: blocks_for_def BSIZE_def)
  have tx: "tx {} (6 * blocks_for (unat (0 :: u32)) (unat (3 :: u32)) + Suc 0) demo_file"
    "tx {} (6 * blocks_for (unat (1 :: u32)) (unat (3 :: u32)) + Suc 0) demo_file" using demo_file_ok(3) by (simp_all add: b b1)
  have "\<exists>w t. writei 0 ?src 0 3 demo_file = Ok (int w) t \<and> w \<le> 3 \<and> contents t 0 = write_at 0 (map (cur_bytes demo_file ?src) [0..<w]) []"
    using writei_contents [OF demo_file_ok(1,2) r tx(1)]
    by (auto simp: wp_iff c demo_file_fields MAXFILE_def NDIRECT_def NINDIRECT_def BSIZE_def)
  moreover have "writei 0 ?src 1 3 demo_file = Ok (- 1) demo_file"
    using writei_contents [OF demo_file_ok(1,2) r tx(2)] by (simp add: demo_file_fields)
  moreover have "cur_bytes demo_file ?src = (\<lambda>i. of_nat i + 65)" by (simp add: at_def)
  ultimately show ?thesis by (auto simp: write_at_def e)
qed

end
