(* ===== verification/Fileread.thy ===== *)
theory Fileread
  imports Fileio
begin

text \<open>
  \<open>readi\<close> of \<^verbatim>\<open>kernel/fs.c\<close> on a file without holes, inside or outside of a transaction, and what it
  reads after \<open>writei\<close>.
\<close>

section \<open>Blocks that are only read\<close>

definition rframe :: "'z kfs_scheme \<Rightarrow> 'z kfs_scheme \<Rightarrow> bool" where
  "rframe s t \<longleftrightarrow> blk t = blk s \<and> itab t = itab s \<and> sb t = sb s \<and> lg t = lg s \<and> disk t = disk s \<and> curproc t = curproc s \<and>
    (\<forall>p. \<exists>st. procs t p = (procs s p)\<lparr>p_state := st\<rparr>)"

lemma same_procs_refl: "\<forall>p. \<exists>st. P p = (P p)\<lparr>p_state := st\<rparr>"
proof
  fix p
  show "\<exists>st. P p = (P p)\<lparr>p_state := st\<rparr>" by (rule exI [of _ "p_state (P p)"]) simp
qed

lemma rframe_refl [simp]: "rframe s s"
  by (simp add: rframe_def same_procs_refl)

lemma rframe_trans: "rframe s t \<Longrightarrow> rframe t u \<Longrightarrow> rframe s u"
  using same_procs_trans [of "procs t" "procs s" "procs u"] unfolding rframe_def by auto

lemma rframe_process: "rframe s t \<Longrightarrow> p_pagetable (procs t p) = p_pagetable (procs s p) \<and> curproc t = curproc s"
proof -
  assume r: "rframe s t"
  obtain st where "procs t p = (procs s p)\<lparr>p_state := st\<rparr>" using r unfolding rframe_def by blast
  then show ?thesis using r by (simp add: rframe_def)
qed

lemma bframe_rframe: "bframe H s t \<Longrightarrow> blk t = blk s \<Longrightarrow> fframe H s t \<and> rframe s t" for s t :: "'z kfs_scheme"
  using bframe_tframe [of H s t] tframe_fframe [of H s t] by (simp add: rframe_def) (simp add: fframe_def)

lemma pmem_upd [simp]:
  "bio_inv (s\<lparr>pmem := m\<rparr>) H L = bio_inv s H L" "rframe s (s\<lparr>pmem := m\<rparr>)" "bufs (s\<lparr>pmem := m\<rparr>) = bufs s" "disk (s\<lparr>pmem := m\<rparr>) = disk s"
  for s :: "'z kfs_scheme"
  by (simp_all add: same_procs_refl bio_inv_def mypid_def rframe_def blk_def [abs_def] split: option.split)

text \<open>A buffer that holds its block, and may be released.\<close>

definition clean_buf :: "nat \<Rightarrow> u32 set \<Rightarrow> 'z kfs_scheme \<Rightarrow> bool" where
  "clean_buf i L s \<longleftrightarrow> bio_inv s {i} L \<and> (b_blockno (bufs s i) \<in> L \<or> b_data (bufs s i) = disk s (b_blockno (bufs s i)))"

lemma read_block:
  fixes s :: "'z kfs_scheme"
  assumes "bio_inv s {} L" "card L < NBUF"
  shows "wp (bread ROOTDEV n s) (\<lambda>i t. clean_buf i L t \<and> b_data (bufs t i) = blk s n \<and> fframe {} s t \<and> rframe s t)"
proof (rule wp_mono [OF bread_spec [OF assms(1)]], use assms(2) in simp, simp, elim conjE)
  fix i and t :: "'z kfs_scheme"
  assume t: "bio_inv t {i} L" "bframe {} s t" "b_blockno (bufs t i) = n" "b_data (bufs t i) = blk s n" "blk t = blk s"
  have "n \<notin> L \<Longrightarrow> blk s n = disk s n" using assms(1) by (rule clean_other) simp_all
  then show "clean_buf i L t \<and> b_data (bufs t i) = blk s n \<and> fframe {} s t \<and> rframe s t"
    using t bframe_rframe [OF t(2,5)] bframe_fields(1) [OF t(2)] by (auto simp: clean_buf_def)
qed

lemma release_block:
  fixes s :: "'z kfs_scheme"
  assumes "clean_buf i L s"
  shows "wp (brelse i s) (\<lambda>_ t. bio_inv t {} L \<and> fframe {} s t \<and> rframe s t)"
proof -
  have "bio_inv s {i} L" using assms by (simp add: clean_buf_def)
  note b = brelse_spec [OF this singletonI, simplified]
  show ?thesis
    by (rule wp_mono [OF b]) (use assms in \<open>auto simp: clean_buf_def dest: bframe_rframe\<close>)
qed

text \<open>\<open>bmap\<close> of a block that the file has.\<close>

lemma bmap_present:
  fixes s :: "'z kfs_scheme"
  assumes s: "bio_inv s {} L" "card L < NBUF" "i_dev (itab s ip) = ROOTDEV"
    and bn: "bn < MAXFILE" "iaddr (addrs s ip) (blk s) bn \<noteq> 0"
  shows "wp (bmap ip (of_nat bn) s) (\<lambda>a t. a = iaddr (addrs s ip) (blk s) bn \<and> bio_inv t {} L \<and> fframe {} s t \<and> rframe s t)"
proof -
  have u: "unat (of_nat bn :: u32) = bn"
    using bn(1) by (intro unat_small32) (simp add: MAXFILE_def NDIRECT_def NINDIRECT_def BSIZE_def)
  show ?thesis
  proof (cases "bn < NDIRECT")
    case True
    then show ?thesis using s(1) bn(2) by (simp add: bmap_def u bmap_slot_def Let_def wp_simps iaddr_def)
  next
    case False
    let ?c = "addrs s ip NDIRECT" and ?j = "4 * (bn - NDIRECT)"
    have c: "?c \<noteq> 0" "get32 (blk s ?c) ?j \<noteq> 0" using bn(2) False by (auto simp: iaddr_def split: if_splits)
    have j: "bn - NDIRECT < NINDIRECT" using False bn(1) unfolding MAXFILE_def by linarith
    have a: "iaddr (addrs s ip) (blk s) bn = get32 (blk s ?c) ?j" using False c(1) by (simp add: iaddr_def)
    have "wp (bread ROOTDEV ?c s) (\<lambda>bp t. get32 (b_data (bufs t bp)) ?j = get32 (blk s ?c) ?j \<and>
        wp (brelse bp t) (\<lambda>_ t. bio_inv t {} L \<and> fframe {} s t \<and> rframe s t))"
    proof (rule wp_mono [OF read_block [OF s(1,2)]], elim conjE, intro conjI)
      fix bp and t :: "'z kfs_scheme"
      assume t: "clean_buf bp L t" "fframe {} s t" "rframe s t"
      show "wp (brelse bp t) (\<lambda>_ t. bio_inv t {} L \<and> fframe {} s t \<and> rframe s t)"
        by (rule wp_mono [OF release_block [OF t(1)]]) (use t in \<open>auto intro: fframe_trans rframe_trans\<close>)
    qed simp
    then show ?thesis
      unfolding a using False j c
      by (simp add: bmap_def u bmap_slot_def Let_def wp_simps s(3) wp_kbind) (erule wp_mono, auto simp: wp_simps elim: wp_mono)
  qed
qed

section \<open>Where the bytes go\<close>

text \<open>
  What \<open>readi\<close> relies on: while \<open>ok j\<close> holds, \<open>either_copyout\<close> to the cursor \<open>cur j\<close> stores the next \<open>m\<close> of
  the bytes \<open>q\<close>, which leads to \<open>ok (j + m)\<close> and the cursor \<open>cur (j + m)\<close>.
\<close>

locale copy_target =
  fixes cur :: "nat \<Rightarrow> cursor" and q :: bytes and n :: nat and ok :: "nat \<Rightarrow> 'z kfs_scheme \<Rightarrow> bool"
  assumes copy: "ok j s \<Longrightarrow> j + m \<le> n \<Longrightarrow> \<forall>i<m. src i = q (j + i) \<Longrightarrow> wp (either_copyout (cur j) src m s)
      (\<lambda>(r, c) t. r = 0 \<and> cur_add c m = cur (j + m) \<and> ok (j + m) t \<and> t = s\<lparr>pmem := pmem t\<rparr>)"
    and kept: "ok j s \<Longrightarrow> fframe {} s t \<Longrightarrow> ok j t"

lemma splice_splice: "\<forall>i<m. src i = q (j + i) \<Longrightarrow> splice (splice b i q j) (i + j) src m = splice b i q (j + m)"
  by (auto simp: splice_def fun_eq_iff)

interpretation kernel_target: copy_target "\<lambda>j. VarAt (splice b i q j) (i + j)" q n "\<lambda>j s. curproc s \<noteq> None"
proof
  fix s t :: "'z kfs_scheme" and j m :: nat and src
  show "curproc s \<noteq> None \<Longrightarrow> j + m \<le> n \<Longrightarrow> \<forall>k<m. src k = q (j + k) \<Longrightarrow> wp (either_copyout (VarAt (splice b i q j) (i + j)) src m s)
      (\<lambda>(r, c) t. r = 0 \<and> cur_add c m = VarAt (splice b i q (j + m)) (i + (j + m)) \<and> curproc t \<noteq> None \<and> t = s\<lparr>pmem := pmem t\<rparr>)"
    by (simp add: wp_simps splice_splice add.assoc)
  show "curproc s \<noteq> None \<Longrightarrow> fframe {} s t \<Longrightarrow> curproc t \<noteq> None" by (simp add: fframe_def)
qed

text \<open>User memory that was \<open>M\<close> and now has the first \<open>j\<close> bytes of \<open>q\<close> at \<open>a\<close>.\<close>

definition user_has :: "mem \<Rightarrow> u64 \<Rightarrow> nat \<Rightarrow> bytes \<Rightarrow> nat \<Rightarrow> 'z kfs_scheme \<Rightarrow> bool" where
  "user_has M a n q j s \<longleftrightarrow> (\<exists>p pt. curproc s = Some p \<and> p_pagetable (procs s p) = pt \<and> uspace (pmem s) pt \<and> uwritable (pmem s) pt a n \<and>
    (\<forall>x<MAXVA. uread (pmem s) pt x =
      (if unat a \<le> unat x \<and> unat x < unat a + j then Some (q (unat x - unat a)) else uread M pt x)))"

lemma user_has_frame: "user_has M a n q j s \<Longrightarrow> fframe {} s t \<Longrightarrow> user_has M a n q j t"
proof -
  assume u: "user_has M a n q j s" and f: "fframe {} s t"
  obtain p where p: "curproc s = Some p" using u by (auto simp: user_has_def)
  obtain st where "procs t p = (procs s p)\<lparr>p_state := st\<rparr>" using f unfolding fframe_def by blast
  then show ?thesis using u f p by (simp add: user_has_def fframe_def)
qed

lemma user_has_copy:
  fixes s :: "'z kfs_scheme"
  assumes "user_has M a n q j s" "n < 2 ^ 32" "j + m \<le> n" "\<forall>k<m. src k = q (j + k)"
  shows "wp (either_copyout (UserAt (a + of_nat j)) src m s)
    (\<lambda>(r, c) t. r = 0 \<and> cur_add c m = UserAt (a + of_nat (j + m)) \<and> user_has M a n q (j + m) t \<and> t = s\<lparr>pmem := pmem t\<rparr>)"
proof -
  obtain p pt where p: "curproc s = Some p" "p_pagetable (procs s p) = pt" and sp: "uspace (pmem s) pt"
    and w: "uwritable (pmem s) pt a n" and r: "\<And>x. x < MAXVA \<Longrightarrow> uread (pmem s) pt x =
      (if unat a \<le> unat x \<and> unat x < unat a + j then Some (q (unat x - unat a)) else uread M pt x)"
    using assms(1) unfolding user_has_def by blast
  let ?a = "a + of_nat j"
  have um: "unat (of_nat m :: u64) = m" using assms(2,3) by (simp add: unsigned_of_nat take_bit_nat_eq_self)
  have ua: "unat ?a = unat a + j"
    using w assms(3) by (intro unat_plus_small) (simp add: uwritable_def umapped_def MAXVA_small)
  have "uwritable (pmem s) pt ?a (unat (of_nat m :: u64))"
    using uwritable_rest [OF w, of j] assms(3) unfolding um by (auto simp: uwritable_def umapped_def)
  note c = copyout_mapped [OF sp this, of src, unfolded um ua]
  have e: "either_copyout (UserAt ?a) src m s = kbind (copyout pt ?a src (of_nat m) s) (\<lambda>r s. Ok (r, UserAt ?a) s)"
    using p by (simp add: either_copyout_def myproc_Some)
  show ?thesis
    unfolding e wp_kbind
  proof (rule wp_mono [OF c], elim conjE)
    fix r and t :: "'z kfs_scheme"
    assume t: "r = 0" "t = s\<lparr>pmem := pmem t\<rparr>" "uspace (pmem t) pt" "\<forall>va. leaf_pte 2 (pmem t) pt va = leaf_pte 2 (pmem s) pt va"
      and rd: "\<forall>x<MAXVA. uread (pmem t) pt x =
        (if unat a + j \<le> unat x \<and> unat x < unat a + j + m then Some (src (unat x - (unat a + j))) else uread (pmem s) pt x)"
    have pt: "curproc t = Some p" "p_pagetable (procs t p) = pt"
      using p arg_cong [OF t(2), of curproc] arg_cong [OF t(2), of procs] by simp_all
    have src: "src (x - (unat a + j)) = q (x - unat a)" if "unat a + j \<le> x" "x < unat a + j + m" for x
    proof -
      have "j + (x - (unat a + j)) = x - unat a" using that by linarith
      then show ?thesis using assms(4) that by (metis add.commute less_diff_conv2)
    qed
    have "uread (pmem t) pt x = (if unat a \<le> unat x \<and> unat x < unat a + (j + m) then Some (q (unat x - unat a)) else uread M pt x)"
      if "x < MAXVA" for x
      using rd r that src by auto
    then have "user_has M a n q (j + m) t"
      using pt t(3) w uwritable_cong [of "pmem t" pt "pmem s"] t(4) unfolding user_has_def by blast
    then show "wp (Ok (r, UserAt ?a) t) (\<lambda>(r, c) t. r = 0 \<and> cur_add c m = UserAt (a + of_nat (j + m)) \<and> user_has M a n q (j + m) t \<and> t = s\<lparr>pmem := pmem t\<rparr>)"
      using t(1,2) by (simp add: wp_simps add.assoc)
  qed
qed

interpretation user_target: copy_target "\<lambda>j. UserAt (a + of_nat j)" q n "\<lambda>j s. user_has M a n q j s \<and> n < 2 ^ 32"
  by unfold_locales (auto intro: user_has_frame wp_mono [OF user_has_copy])

section \<open>Reading\<close>

context copy_target begin

lemma readi_block:
  fixes s :: "'z kfs_scheme" and ip off :: nat
  assumes s: "ok tot s" "bio_inv s {} L" "card L < NBUF" "i_dev (itab s ip) = ROOTDEV"
    and m: "tot + m \<le> n" "\<forall>i<m. blk s a (off mod BSIZE + i) = q (tot + i)"
    and G: "\<And>t. ok (tot + m) t \<Longrightarrow> bio_inv t {} L \<Longrightarrow> rframe s t \<Longrightarrow> wp (G (cur (tot + m)) t) Q"
  shows "wp (kbind (bread (i_dev (itab s ip)) a s) (\<lambda>bp s.
      kbind (either_copyout (cur tot) (at (b_data (bufs s bp)) (off mod BSIZE)) m s) (\<lambda>(r, dst) s.
        if r = - 1 then F dst bp s else kbind (brelse bp s) (\<lambda>_ s. G (cur_add dst m) s)))) Q"
  unfolding wp_kbind s(4)
proof (rule wp_mono [OF read_block [OF s(2,3)]], elim conjE)
  fix bp and t :: "'z kfs_scheme"
  assume t: "clean_buf bp L t" "b_data (bufs t bp) = blk s a" "fframe {} s t" "rframe s t"
  have ok: "ok tot t" by (rule kept [OF s(1) t(3)])
  have src: "\<forall>i<m. at (b_data (bufs t bp)) (off mod BSIZE) i = q (tot + i)" using m(2) by (simp add: t(2) at_def)
  show "wp (either_copyout (cur tot) (at (b_data (bufs t bp)) (off mod BSIZE)) m t) (\<lambda>x u. wp ((case x of (r, dst) \<Rightarrow> \<lambda>s.
      if r = - 1 then F dst bp s else kbind (brelse bp s) (\<lambda>_ s. G (cur_add dst m) s)) u) Q)"
  proof (rule wp_mono [OF copy [OF ok m(1) src]], clarify)
    fix c and u :: "'z kfs_scheme"
    assume u: "cur_add c m = cur (tot + m)" "ok (tot + m) u" "u = t\<lparr>pmem := pmem u\<rparr>"
    have "clean_buf bp L u" using t(1) by (subst u(3)) (simp add: clean_buf_def)
    moreover have "rframe t u" by (subst u(3)) simp
    then have "rframe s u" using t(4) by (blast intro: rframe_trans)
    ultimately have "wp (brelse bp u) (\<lambda>_ v. wp (G (cur (tot + m)) v) Q)"
      by (intro wp_mono [OF release_block]) (auto intro: G kept [OF u(2)] rframe_trans)
    then show "wp (if (0 :: int) = - 1 then F c bp u else kbind (brelse bp u) (\<lambda>_ s. G (cur_add c m) s)) Q"
      by (simp add: wp_kbind u(1))
  qed
qed

lemma readi_loop_spec:
  assumes "ok tot s" "bio_inv s {} L" "card L < NBUF" "i_dev (itab s ip) = ROOTDEV"
    and "tot \<le> n" "n < 2 ^ 31" "off + (n - tot) \<le> MAXFILE * BSIZE"
    and "\<forall>i<n - tot. iaddr (addrs s ip) (blk s) ((off + i) div BSIZE) \<noteq> 0 \<and> fbyte (addrs s ip) (blk s) (off + i) = q (tot + i)"
  shows "wp (readi_loop ip (of_nat n) (of_nat tot) (of_nat off) (cur tot) s) (\<lambda>(r, c) t.
    r = of_nat n \<and> c = cur n \<and> ok n t \<and> bio_inv t {} L \<and> rframe s t)"
  using assms
proof (induction "n - tot" arbitrary: s tot off rule: less_induct)
  case less
  note pre = less.prems
  have n32: "n < 2 ^ 32" "off < 2 ^ 32" using pre(5-7) by (simp_all add: MAXFILE_def NDIRECT_def NINDIRECT_def BSIZE_def)
  have lt: "(of_nat tot :: u32) < of_nat n \<longleftrightarrow> tot < n" using pre(5) n32 by (simp add: word_less_nat_alt unat_small32)
  show ?case
  proof (cases "tot < n")
    case False
    then have "tot = n" using pre(5) by simp
    then show ?thesis using lt pre(1,2) by (subst readi_loop.simps) (simp add: wp_simps)
  next
    case True
    define m where "m = min (n - tot) (BSIZE - off mod BSIZE)"
    note st = step_nat [OF True n32, folded m_def]
    define a where "a = iaddr (addrs s ip) (blk s) (off div BSIZE)"
    let ?Q = "\<lambda>(r, c) t. r = of_nat n \<and> c = cur n \<and> ok n t \<and> bio_inv t {} L \<and> rframe s t"
    have kb: "off div BSIZE < MAXFILE" using pre(7) True by (simp add: less_mult_imp_div_less)
    have a: "a \<noteq> 0" using pre(8) True unfolding a_def by (metis add.right_neutral zero_less_diff)
    have tm: "tot + m \<le> n" using st(3) True by simp
    have bytes: "\<forall>i<m. blk s a (off mod BSIZE + i) = q (tot + i)"
    proof (intro allI impI)
      fix i
      assume i: "i < m"
      then have "off mod BSIZE + i < BSIZE" "i < n - tot" using st(3,4) by linarith+
      then show "blk s a (off mod BSIZE + i) = q (tot + i)"
        using pre(8) a by (metis a_def fbyte_def same_block)
    qed
    let ?C = "\<lambda>x u. wp (if x = 0 then Ok (of_nat tot, cur tot) u else
        kbind (bread (i_dev (itab u ip)) x u) (\<lambda>bp s.
        kbind (either_copyout (cur tot) (at (b_data (bufs s bp)) (off mod BSIZE)) m s) (\<lambda>(r, dst) s.
          if r = - 1 then kbind (brelse bp s) (\<lambda>_ s. Ok (- 1, dst) s)
          else kbind (brelse bp s) (\<lambda>_ s.
            readi_loop ip (of_nat n) (of_nat tot + of_nat m) (of_nat off + of_nat m) (cur_add dst m) s)))) ?Q"
    have "wp (bmap ip (of_nat (off div BSIZE)) s) ?C"
    proof (rule wp_mono [OF bmap_present [OF pre(2-4) kb a [unfolded a_def]]], elim conjE)
      fix x and u :: "'z kfs_scheme"
      assume u: "x = iaddr (addrs s ip) (blk s) (off div BSIZE)" "bio_inv u {} L" "fframe {} s u" "rframe s u"
      have x: "x = a" using u(1) by (simp add: a_def)
      have f: "blk u = blk s" "itab u = itab s" using u(4) by (simp_all add: rframe_def)
      have dev: "i_dev (itab u ip) = ROOTDEV" using pre(4) f(2) by simp
      show "?C x u"
        unfolding x if_not_P [OF a]
      proof (rule readi_block [OF kept [OF pre(1) u(3)] u(2) pre(3) dev tm])
        show "\<forall>i<m. blk u a (off mod BSIZE + i) = q (tot + i)" using bytes f(1) by simp
        fix t :: "'z kfs_scheme"
        assume t: "ok (tot + m) t" "bio_inv t {} L" "rframe u t"
        have g: "blk t = blk s" "itab t = itab s" using t(3) f by (simp_all add: rframe_def)
        have rest: "\<forall>i<n - (tot + m). iaddr (addrs t ip) (blk t) ((off + m + i) div BSIZE) \<noteq> 0 \<and>
            fbyte (addrs t ip) (blk t) (off + m + i) = q (tot + m + i)"
          unfolding g using pre(8) by (auto simp: add.assoc dest: spec [of _ "m + _"])
        have dec: "n - (tot + m) < n - tot" "off + m + (n - (tot + m)) = off + (n - tot)" using st(2) True tm by simp_all
        have "i_dev (itab t ip) = ROOTDEV" using pre(4) g by simp
        from less.hyps [OF dec(1) t(1,2) pre(3) this tm pre(6) _ rest] dec(2) pre(7)
        have "wp (readi_loop ip (of_nat n) (of_nat (tot + m)) (of_nat (off + m)) (cur (tot + m)) t)
            (\<lambda>(r, c) v. r = of_nat n \<and> c = cur n \<and> ok n v \<and> bio_inv v {} L \<and> rframe t v)" by simp
        then have "wp (readi_loop ip (of_nat n) (of_nat (tot + m)) (of_nat (off + m)) (cur (tot + m)) t) ?Q"
          by (rule wp_mono) (use u(4) t(3) in \<open>auto intro: rframe_trans\<close>)
        then show "wp (readi_loop ip (of_nat n) (of_nat tot + of_nat m) (of_nat off + of_nat m) (cur (tot + m)) t) ?Q" by simp
      qed
    qed
    then show ?thesis
      by (subst readi_loop.simps) (simp only: True lt if_True st(1,5-7) Let_def wp_kbind [of "bmap ip (of_nat (off div BSIZE)) s"])
  qed
qed

end

text \<open>Where \<open>readi\<close> may store \<open>n\<close> bytes, and what it means that it has stored the bytes \<open>ys\<close> there.\<close>

fun can_write :: "'z kfs_scheme \<Rightarrow> cursor \<Rightarrow> nat \<Rightarrow> bool" where
  "can_write s (VarAt b i) n \<longleftrightarrow> curproc s \<noteq> None"
| "can_write s (UserAt a) n \<longleftrightarrow> (\<exists>p. curproc s = Some p \<and> uspace (pmem s) (p_pagetable (procs s p)) \<and>
    uwritable (pmem s) (p_pagetable (procs s p)) a n)"
| "can_write s (PhysAt a) n \<longleftrightarrow> False"

fun stored :: "'z kfs_scheme \<Rightarrow> cursor \<Rightarrow> u8 list \<Rightarrow> 'z kfs_scheme \<Rightarrow> cursor \<Rightarrow> bool" where
  "stored s (VarAt b i) ys t c \<longleftrightarrow> c = VarAt (splice b i (\<lambda>k. ys ! k) (length ys)) (i + length ys)"
| "stored s (UserAt a) ys t c \<longleftrightarrow> (\<forall>p x. curproc s = Some p \<longrightarrow> x < MAXVA \<longrightarrow>
    uread (pmem t) (p_pagetable (procs s p)) x = (if unat a \<le> unat x \<and> unat x < unat a + length ys then Some (ys ! (unat x - unat a))
      else uread (pmem s) (p_pagetable (procs s p)) x))"
| "stored s (PhysAt a) ys t c \<longleftrightarrow> False"

definition read_at :: "nat \<Rightarrow> nat \<Rightarrow> 'a list \<Rightarrow> 'a list" where
  "read_at off n xs = take n (drop off xs)"

lemma readi_eq:
  assumes "off \<le> i_size (itab s ip)" "unat off + unat n < 2 ^ 32"
  shows "readi ip dst off n s = kbind (readi_loop ip (of_nat (length (read_at (unat off) (unat n) (contents s ip)))) 0 off dst s)
    (\<lambda>(tot, dst) s. Ok (sint tot, dst) s)"
proof -
  let ?sz = "i_size (itab s ip)"
  have u: "unat (off + n) = unat off + unat n" using assms(2) by (simp add: unat_plus_simple [THEN iffD1] no_olen_add_nat)
  then have c: "\<not> (?sz < off \<or> off + n < off)" using assms(1) by (simp add: word_less_nat_alt word_le_nat_alt)
  have "(if ?sz < off + n then ?sz - off else n) = of_nat (length (read_at (unat off) (unat n) (contents s ip)))"
  proof (rule word_unat_eq_iff [THEN iffD2])
    have "unat ?sz < 2 ^ 32" using unsigned_less [where 'a = nat, of ?sz] by simp
    then have "unat (of_nat (length (read_at (unat off) (unat n) (contents s ip))) :: u32) = min (unat n) (unat ?sz - unat off)"
      by (subst unat_small32) (simp_all add: read_at_def contents_def min.commute)
    then show "unat (if ?sz < off + n then ?sz - off else n) = unat (of_nat (length (read_at (unat off) (unat n) (contents s ip))) :: u32)"
      using assms(1) u by (auto simp: word_less_nat_alt unat_sub)
  qed
  then show ?thesis by (simp only: readi_def Let_def c if_False)
qed

lemma readi_read:
  fixes s :: "'z kfs_scheme"
  assumes s: "bio_inv s {} L" "card L < NBUF" "i_dev (itab s ip) = ROOTDEV"
    and f: "no_holes s ip" "unat (i_size (itab s ip)) \<le> MAXFILE * BSIZE"
    and w: "can_write s dst (length (read_at (unat off) (unat n) (contents s ip)))"
    and range: "\<not> (i_size (itab s ip) < off \<or> 2 ^ 32 \<le> unat off + unat n)"
  shows "wp (readi ip dst off n s) (\<lambda>(r, c) t. r = int (length (read_at (unat off) (unat n) (contents s ip))) \<and>
    stored s dst (read_at (unat off) (unat n) (contents s ip)) t c \<and> rframe s t \<and> bio_inv t {} L)"
proof -
  define ys where "ys = read_at (unat off) (unat n) (contents s ip)"
  let ?q = "\<lambda>k. ys ! k" and ?N = "length ys" and ?sz = "unat (i_size (itab s ip))"
  have off: "unat off \<le> ?sz" using range by (simp add: word_less_nat_alt)
  have N: "?N = min (?sz - unat off) (unat n)" by (simp add: ys_def read_at_def contents_def)
  have N31: "?N < 2 ^ 31" "unat off + (?N - 0) \<le> MAXFILE * BSIZE" using f(2) off N by (simp_all add: MAXFILE_def NDIRECT_def NINDIRECT_def BSIZE_def)
  have bytes: "\<forall>i<?N - 0. iaddr (addrs s ip) (blk s) ((unat off + i) div BSIZE) \<noteq> 0 \<and> fbyte (addrs s ip) (blk s) (unat off + i) = ?q (0 + i)"
  proof (intro allI impI conjI)
    fix i
    assume i: "i < ?N - 0"
    then have l: "unat off + i < ?sz" using N by linarith
    then have "(unat off + i) div BSIZE < MAXFILE" using f(2) by (simp add: less_mult_imp_div_less)
    moreover have "(unat off + i) div BSIZE * BSIZE < ?sz" using l div_times_less_eq_dividend [of "unat off + i" BSIZE] by linarith
    ultimately show "iaddr (addrs s ip) (blk s) ((unat off + i) div BSIZE) \<noteq> 0" using f(1) by (simp add: no_holes_def)
    show "fbyte (addrs s ip) (blk s) (unat off + i) = ?q (0 + i)"
      using i l N off by (simp add: ys_def read_at_def contents_def)
  qed
  have sint: "sint (of_nat ?N :: u32) = int ?N" using N31(1) by (simp add: signed_of_nat signed_take_bit_int_eq_self)
  have e: "readi ip dst off n s = kbind (readi_loop ip (of_nat ?N) 0 off dst s) (\<lambda>(tot, dst) s. Ok (sint tot, dst) s)"
    using range unfolding ys_def by (intro readi_eq) (simp_all add: not_less not_le)
  have "wp (readi_loop ip (of_nat ?N) 0 off dst s) (\<lambda>(r, c) t. r = of_nat ?N \<and> stored s dst ys t c \<and> bio_inv t {} L \<and> rframe s t)"
  proof (cases dst)
    case (VarAt b i)
    have "curproc s \<noteq> None" using w VarAt by simp
    from kernel_target.readi_loop_spec [OF this s le0 N31 bytes, of b i]
    have "wp (readi_loop ip (of_nat ?N) 0 off (VarAt b i) s) (\<lambda>(r, c) t. r = of_nat ?N \<and> c = VarAt (splice b i ?q ?N) (i + ?N) \<and>
      curproc t \<noteq> None \<and> bio_inv t {} L \<and> rframe s t)" by simp
    then show ?thesis unfolding VarAt by (rule wp_mono) auto
  next
    case (UserAt a)
    then have "user_has (pmem s) a ?N ?q 0 s \<and> ?N < 2 ^ 32" using w N31(1) unfolding user_has_def ys_def [symmetric] by auto
    from user_target.readi_loop_spec [OF this s le0 N31 bytes]
    have "wp (readi_loop ip (of_nat ?N) 0 off (UserAt a) s) (\<lambda>(r, c) t. r = of_nat ?N \<and> c = UserAt (a + of_nat ?N) \<and>
      (user_has (pmem s) a ?N ?q ?N t \<and> ?N < 2 ^ 32) \<and> bio_inv t {} L \<and> rframe s t)" by simp
    then show ?thesis unfolding UserAt by (rule wp_mono) (auto simp: user_has_def rframe_process)
  next
    case (PhysAt a)
    then show ?thesis using w by simp
  qed
  then show ?thesis
    unfolding ys_def [symmetric] e wp_kbind
    by (rule wp_mono) (auto simp: wp_simps sint)
qed

text \<open>
  C10: \<open>readi\<close> of a file without holes, in a transaction or outside of one, to a place that can be
  stored to: it returns the number of bytes of the file from \<open>off\<close> on, at most \<open>n\<close>, and stores
  exactly them, in a kernel variable or in the memory of the process. The file system is as
  before. It returns 0 when the offset is behind the end of the file, or when \<open>off + n\<close> wraps around.
\<close>

theorem readi_contents:
  fixes s :: "'z kfs_scheme"
  assumes s: "bio_inv s {} L" "card L < NBUF" "i_dev (itab s ip) = ROOTDEV"
    and f: "no_holes s ip" "unat (i_size (itab s ip)) \<le> MAXFILE * BSIZE"
    and w: "can_write s dst (length (read_at (unat off) (unat n) (contents s ip)))"
  shows "if i_size (itab s ip) < off \<or> 2 ^ 32 \<le> unat off + unat n then readi ip dst off n s = Ok (0, dst) s
    else wp (readi ip dst off n s) (\<lambda>(r, c) t. r = int (length (read_at (unat off) (unat n) (contents s ip))) \<and>
      stored s dst (read_at (unat off) (unat n) (contents s ip)) t c \<and> rframe s t \<and> bio_inv t {} L)"
proof (cases "i_size (itab s ip) < off \<or> 2 ^ 32 \<le> unat off + unat n")
  case True
  have "off + n < off" if "2 ^ 32 \<le> unat off + unat n"
    using that no_olen_add_nat [of off n] by (auto simp: not_le [symmetric])
  then have "i_size (itab s ip) < off \<or> off + n < off" using True by blast
  then show ?thesis using True by (simp add: readi_def)
next
  case False
  show ?thesis unfolding if_not_P [OF False] by (rule readi_read [OF s f w False])
qed

text \<open>A file of three bytes on the disk of \<open>demo_fs\<close>.\<close>

definition demo_old :: kfs where
  "demo_old = ino_upd 0 (\<lambda>i. i\<lparr>i_dev := ROOTDEV, i_size := 3, i_addrs := (\<lambda>_. 0)(0 := 50)\<rparr>) demo_fs"

lemma demo_old_fields:
  "bio_inv demo_old {} (logged (lg demo_old))" "card (logged (lg demo_old)) < NBUF" "i_dev (itab demo_old 0) = ROOTDEV"
  "i_size (itab demo_old 0) = 3" "contents demo_old 0 = [7, 7, 7]" "no_holes demo_old 0" "curproc demo_old \<noteq> None"
proof -
  have t: "tx {} 2 demo_old" using demo_tx by (simp add: demo_old_def numeral_2_eq_2)
  then show b: "bio_inv demo_old {} (logged (lg demo_old))" by (simp add: tx_def)
  then show "curproc demo_old \<noteq> None" by (simp add: bio_inv_def)
  show "card (logged (lg demo_old)) < NBUF" using t card_logged [of 2 "lg demo_old"] by (simp add: tx_def)
  show sz: "i_size (itab demo_old 0) = 3" "i_dev (itab demo_old 0) = ROOTDEV" by (simp_all add: demo_old_def)
  have a: "iaddr (addrs demo_old 0) (blk demo_old) 0 = 50" by (simp add: demo_old_def iaddr_def NDIRECT_def)
  have "blk demo_old 50 = (\<lambda>_. 7)" by (simp add: demo_old_def demo_fs_fields)
  then have "fbyte (addrs demo_old 0) (blk demo_old) i = 7" if "i < 3" for i
    using that a by (simp add: fbyte_def BSIZE_def)
  then have "contents demo_old 0 = map (\<lambda>_. 7) [0..<3]" unfolding contents_def sz by simp
  then show "contents demo_old 0 = [7, 7, 7]" by (simp add: upt_rec)
  have "k = 0" if "k * BSIZE < unat (3 :: u32)" for k using that by (cases k) (simp_all add: BSIZE_def)
  then show "no_holes demo_old 0" using a unfolding no_holes_def sz by force
qed

lemma readi_contents_witness:
  "\<exists>c t. readi 0 (VarAt (\<lambda>_. 0) 0) 1 5 demo_old = Ok (2, VarAt (splice (\<lambda>_. 0) 0 (\<lambda>k. [7, 7] ! k) 2) 2) t \<and>
    readi 0 (VarAt (\<lambda>_. 0) 0) 4 1 demo_old = Ok (0, VarAt (\<lambda>_. 0) 0) demo_old"
proof -
  have w: "can_write demo_old (VarAt (\<lambda>_. 0) 0) m" for m by (simp add: demo_old_fields(7))
  have sz: "unat (i_size (itab demo_old 0)) \<le> MAXFILE * BSIZE"
    by (simp add: demo_old_fields(4) MAXFILE_def NDIRECT_def NINDIRECT_def BSIZE_def)
  note R = readi_contents [OF demo_old_fields(1-3,6) sz w]
  show ?thesis
    using R [of 1 5] R [of 4 1] by (auto simp: demo_old_fields(4,5) wp_iff read_at_def) (simp add: numeral_2_eq_2)
qed

section \<open>Reading back what was written\<close>

lemma read_at_write_at: "off \<le> length xs \<Longrightarrow> read_at off (length ys) (write_at off ys xs) = ys"
  by (simp add: read_at_def write_at_def)

text \<open>
  C11: a \<open>readi\<close> of as many bytes as a \<open>writei\<close> has written, from where it has written them, reads
  these bytes, be the file longer than before or not, and whether they came from the kernel or
  from a process. A \<open>writei\<close> that is refused leaves the file as it was.
\<close>

theorem write_read:
  fixes s :: "'z kfs_scheme"
  assumes "file_ok s ip" "may_write s ip" "no_holes s ip" "can_read s src (unat n)"
    "tx {} (6 * blocks_for (unat off) (unat n) + Suc k) s"
  shows "wp (writei ip src off n s) (\<lambda>r t. r = - 1 \<and> t = s \<or> r \<ge> 0 \<and>
    wp (readi ip (VarAt b 0) off (of_int r) t) (\<lambda>(r', c) u. r' = r \<and> contents u ip = contents t ip \<and>
      c = VarAt (splice b 0 (cur_bytes s src) (nat r)) (nat r)))"
proof (cases "i_size (itab s ip) < off \<or> MAXFILE * BSIZE < unat off + unat n")
  case True
  then have "writei ip src off n s = Ok (- 1) s" by (rule writei_rejects)
  then show ?thesis by (simp add: wp_simps)
next
  case False
  show ?thesis
  proof (rule wp_mono [OF writei_written [OF assms(1,2,4,5) False]], elim exE conjE)
    fix r w and t :: "'z kfs_scheme"
    assume r: "r = int w" and t: "tx {} k t" "wrote_bytes s ip (unat off) (cur_bytes s src) (unat n) w t"
    define ys where "ys = map (cur_bytes s src) [0..<w]"
    have w: "w \<le> unat n" "contents t ip = write_at (unat off) ys (contents s ip)" "file_ok t ip" "may_write t ip" "no_holes t ip"
      using t(2) assms(3) by (simp_all add: wrote_bytes_def ys_def)
    have l: "unat off \<le> length (contents s ip)" using False by (simp add: contents_def word_less_nat_alt)
    have "unat n < 2 ^ 32" using unsigned_less [where 'a = nat, of n] by simp
    then have u: "unat (of_int r :: u32) = w" using w(1) by (simp add: r unat_small32)
    have rd: "read_at (unat off) (unat (of_int r :: u32)) (contents t ip) = ys"
      unfolding u w(2) using read_at_write_at [OF l, of ys] by (simp add: ys_def)
    have sz: "unat (i_size (itab t ip)) = max (length (contents s ip)) (unat off + w)"
    proof -
      have "length (contents t ip) = max (length (contents s ip)) (unat off + w)"
        unfolding w(2) length_write_at [OF l] by (simp add: ys_def)
      then show ?thesis by (simp add: contents_def)
    qed
    have "unat off + unat n < 2 ^ 32" using False by (simp add: MAXFILE_def NDIRECT_def NINDIRECT_def BSIZE_def)
    then have range: "\<not> (i_size (itab t ip) < off \<or> 2 ^ 32 \<le> unat off + unat (of_int r :: u32))"
      using w(1) l sz unfolding u by (simp add: word_less_nat_alt)
    have b: "bio_inv t {} (logged (lg t))" "card (logged (lg t)) < NBUF"
      using t(1) card_logged [of k "lg t"] by (simp_all add: tx_def)
    have "curproc t \<noteq> None" using b(1) by (simp add: bio_inv_def)
    then have "can_write t (VarAt b 0) m" for m by simp
    moreover have "i_dev (itab t ip) = ROOTDEV" "unat (i_size (itab t ip)) \<le> MAXFILE * BSIZE"
      using w(3,4) by (simp_all add: file_ok_def may_write_def)
    ultimately have "wp (readi ip (VarAt b 0) off (of_int r) t) (\<lambda>(r', c) u. r' = int (length ys) \<and>
        stored t (VarAt b 0) ys u c \<and> rframe t u \<and> bio_inv u {} (logged (lg t)))"
      using readi_read [OF b, of ip "VarAt b 0" off "of_int r"] w(5) range unfolding rd by blast
    moreover have "splice b 0 (\<lambda>k. ys ! k) (length ys) = splice b 0 (cur_bytes s src) w"
      by (auto simp: splice_def ys_def fun_eq_iff)
    ultimately have "wp (readi ip (VarAt b 0) off (of_int r) t) (\<lambda>(r', c) u. r' = r \<and> contents u ip = contents t ip \<and>
        c = VarAt (splice b 0 (cur_bytes s src) (nat r)) (nat r))"
      by (elim wp_mono) (auto simp: r ys_def rframe_def contents_def)
    then show "r = - 1 \<and> t = s \<or> r \<ge> 0 \<and> wp (readi ip (VarAt b 0) off (of_int r) t) (\<lambda>(r', c) u. r' = r \<and>
        contents u ip = contents t ip \<and> c = VarAt (splice b 0 (cur_bytes s src) (nat r)) (nat r))"
      by (simp add: r)
  qed
qed

lemma write_read_witness:
  "\<exists>r t c u. writei 0 (VarAt (\<lambda>i. of_nat i + 65) 0) 0 3 demo_file = Ok r t \<and> (r = - 1 \<and> t = demo_file \<or>
    readi 0 (VarAt (\<lambda>_. 0) 0) 0 (of_int r) t = Ok (r, VarAt (splice (\<lambda>_. 0) 0 (\<lambda>i. of_nat i + 65) (nat r)) (nat r)) u)"
proof -
  let ?src = "VarAt (\<lambda>i. of_nat i + 65) 0"
  have r: "can_read demo_file ?src (unat (3 :: u32))" by (simp add: demo_file_fields(8))
  have h: "no_holes demo_file 0" by (simp add: no_holes_def demo_file_fields(4))
  have "blocks_for 0 3 = 1" by (simp add: blocks_for_def BSIZE_def)
  then have tx: "tx {} (6 * blocks_for (unat (0 :: u32)) (unat (3 :: u32)) + Suc 0) demo_file" using demo_file_ok(3) by simp
  have "cur_bytes demo_file ?src = (\<lambda>i. of_nat i + 65)" by (simp add: at_def)
  then show ?thesis using write_read [OF demo_file_ok(1,2) h r tx, of "\<lambda>_. 0"] by (auto simp: wp_iff)
qed

end
