(* ===== verification/Inodeio.thy ===== *)
theory Inodeio
  imports Fileread
begin

text \<open>
  An inode on its way to the disk and back: \<open>iupdate\<close> and \<open>ilock\<close> of \<^verbatim>\<open>kernel/fs.c\<close>.
\<close>

section \<open>Locking an inode that is not loaded\<close>

text \<open>An entry of the inode table that refers to an inode of the disk, is not loaded and not locked.\<close>

definition unloaded :: "inode \<Rightarrow> u32 \<Rightarrow> bool" where
  "unloaded e inum \<longleftrightarrow> i_dev e = ROOTDEV \<and> i_inum e = inum \<and> 1 \<le> i_ref e \<and> \<not> i_valid e \<and> \<not> sl_locked (i_lock e)"

lemma inv_ino [simp]: "bio_inv (ino_upd ip f s) H L = bio_inv s H L"
  by (simp add: bio_inv_def mypid_def ino_upd_def split: option.split)

lemma clean_ino [simp]: "clean_buf i L (ino_upd ip f s) = clean_buf i L s"
  by (simp add: clean_buf_def) (simp add: ino_upd_def)

lemma acquire_inode_eq:
  fixes s :: "'z kfs_scheme"
  assumes "LInode ip \<notin> held s" "curproc s = Some p" "\<not> sl_locked (i_lock (itab s ip))"
  shows "acquire_inode ip s = Ok () (ino_upd ip (\<lambda>i. i\<lparr>i_lock := \<lparr>sl_locked = True, sl_pid = mypid s\<rparr>\<rparr>) s)"
  using assms
  by (simp add: acquiresleep_def acquire_free release_held Let_def ino_slock_def ino_slock_upd_def ino_upd_def myproc_def mypid_def)

lemma get_dinode_valid:
  "get_dinode d a (e\<lparr>i_valid := v\<rparr>) = (get_dinode d a e)\<lparr>i_valid := v\<rparr>" "i_type (get_dinode d a e) = get16 d a"
  by (cases e; simp add: get_dinode_def cong: if_cong)+

lemma ilock_loads:
  fixes s :: "'z kfs_scheme"
  assumes s: "bio_inv s {} L" "card L < NBUF" and e: "unloaded (itab s jp) inum"
    and ty: "get16 (blk s (IBLOCK inum (sb s))) (dino_off inum) \<noteq> 0"
  shows "wp (ilock jp s) (\<lambda>_ t. bio_inv t {} L \<and> blk t = blk s \<and> lg t = lg s \<and>
    itab t = (itab s)(jp := get_dinode (blk s (IBLOCK inum (sb s))) (dino_off inum)
      ((itab s jp)\<lparr>i_lock := \<lparr>sl_locked = True, sl_pid = mypid s\<rparr>, i_valid := True\<rparr>)))"
proof -
  obtain p where p: "curproc s = Some p" "LInode jp \<notin> held s" using s(1) by (auto simp: bio_inv_def)
  define u where "u = ino_upd jp (\<lambda>i. i\<lparr>i_lock := \<lparr>sl_locked = True, sl_pid = mypid s\<rparr>\<rparr>) s"
  have a: "acquire_inode jp s = Ok () u" using acquire_inode_eq [OF p(2,1)] e by (simp add: u_def unloaded_def)
  have u: "bio_inv u {} L" "blk u = blk s" "sb u = sb s" "lg u = lg s" using s(1) by (simp_all add: u_def)
  let ?n = "IBLOCK inum (sb s)" and ?o = "dino_off inum"
  let ?G = "\<lambda>bp s. let off = dino_off (i_inum (itab s jp)); s = ino_upd jp (get_dinode (b_data (bufs s bp)) off) s
      in kbind (brelse bp s) (\<lambda>_ s. let s = ino_upd jp (\<lambda>i. i\<lparr>i_valid := True\<rparr>) s in
        if i_type (itab s jp) = 0 then Panic ''ilock: no type'' else Ok () s)"
  let ?Q = "\<lambda>t. bio_inv t {} L \<and> blk t = blk s \<and> lg t = lg s \<and>
    itab t = (itab s)(jp := get_dinode (blk s ?n) ?o ((itab s jp)\<lparr>i_lock := \<lparr>sl_locked = True, sl_pid = mypid s\<rparr>, i_valid := True\<rparr>))"
  have "wp (bread ROOTDEV ?n u) (\<lambda>bp t. wp (?G bp t) (\<lambda>_. ?Q))"
  proof (rule wp_mono [OF read_block [OF u(1) s(2)]], elim conjE)
    fix bp and t :: "'z kfs_scheme"
    assume t: "clean_buf bp L t" "b_data (bufs t bp) = blk u ?n" "rframe u t"
    let ?v = "ino_upd jp (get_dinode (blk s ?n) ?o) t"
    have "clean_buf bp L ?v" using t(1) by simp
    then have "wp (brelse bp ?v) (\<lambda>_ w. wp (let s = ino_upd jp (\<lambda>i. i\<lparr>i_valid := True\<rparr>) w in
        if i_type (itab s jp) = 0 then Panic ''ilock: no type'' else Ok () s) (\<lambda>_. ?Q))"
    proof (rule wp_mono [OF release_block], elim conjE)
      fix w :: "'z kfs_scheme"
      assume w: "bio_inv w {} L" "rframe ?v w"
      have it: "itab w = (itab s)(jp := get_dinode (blk s ?n) ?o ((itab s jp)\<lparr>i_lock := \<lparr>sl_locked = True, sl_pid = mypid s\<rparr>\<rparr>))"
        using w(2) t(3) by (simp add: rframe_def u_def)
      have "blk w = blk s" "lg w = lg s" using w(2) t(3) u(2,4) by (simp_all add: rframe_def)
      then show "wp (let s = ino_upd jp (\<lambda>i. i\<lparr>i_valid := True\<rparr>) w in
          if i_type (itab s jp) = 0 then Panic ''ilock: no type'' else Ok () s) (\<lambda>_. ?Q)"
        using w(1) ty by (simp add: it wp_simps get_dinode_valid)
    qed
    moreover have "i_inum (itab t jp) = inum" using t(3) e by (simp add: rframe_def u_def unloaded_def)
    ultimately show "wp (?G bp t) (\<lambda>_. ?Q)" by (simp only: t(2) u(2) wp_kbind Let_def)
  qed
  moreover have "ilock jp s = kbind (bread ROOTDEV ?n u) ?G"
    using e by (simp add: ilock_def a unloaded_def) (simp add: u_def)
  ultimately show ?thesis by (simp only: wp_kbind)
qed

section \<open>Writing an inode and reading it back\<close>

text \<open>The entry \<open>e\<close> with the contents of the inode \<open>i\<close>, and the lock \<open>l\<close>.\<close>

definition loaded :: "inode \<Rightarrow> inode \<Rightarrow> sleeplock \<Rightarrow> inode" where
  "loaded i e l = e\<lparr>i_lock := l, i_valid := True, i_type := i_type i, i_major := i_major i, i_minor := i_minor i,
    i_nlink := i_nlink i, i_size := i_size i, i_addrs := (\<lambda>k. if k \<le> NDIRECT then i_addrs i k else i_addrs e k)\<rparr>"

lemma get_put_loaded: "get_dinode (put_dinode d a i) a (e\<lparr>i_lock := l, i_valid := True\<rparr>) = loaded i e l"
  unfolding get_dinode_def put_dinode_fields(1-5) loaded_def by (simp add: put_dinode_fields(6) cong: if_cong)

text \<open>
  C18: \<open>iupdate\<close>, in an operation with room in the log, writes the inode into its block of the
  log: the block is in the transaction, all other blocks and the other inodes of the block are as
  before. Afterwards \<open>ilock\<close> of any entry of the table that refers to the inode but has not loaded it
  yields every field and every address of it, locks the entry and changes no other one.
\<close>

theorem iupdate_ilock:
  fixes s :: "'z kfs_scheme"
  assumes "tx {} (Suc k) s" "i_dev (itab s ip) = ROOTDEV" "i_type (itab s ip) \<noteq> 0"
  shows "wp (iupdate ip s) (\<lambda>_ t. tx {} k t \<and> itab t = itab s \<and> inode_block s ip \<in> logged (lg t) \<and>
    (\<forall>b. b \<noteq> inode_block s ip \<longrightarrow> blk t b = blk s b) \<and>
    (\<forall>m e. m \<noteq> i_inum (itab s ip) \<longrightarrow>
      get_dinode (blk t (IBLOCK m (sb s))) (dino_off m) e = get_dinode (blk s (IBLOCK m (sb s))) (dino_off m) e) \<and>
    (\<forall>jp e. unloaded e (i_inum (itab s ip)) \<longrightarrow> wp (ilock jp (ino_upd jp (\<lambda>_. e) t)) (\<lambda>_ u. \<exists>l. sl_locked l \<and> blk u = blk t \<and>
      itab u = (itab s)(jp := loaded (itab s ip) e l))))"
proof (rule wp_mono [OF iupdate_block [OF assms(1,2)]], elim conjE)
  fix t :: "'z kfs_scheme"
  let ?i = "i_inum (itab s ip)"
  assume t: "tx {} k t" "tframe {} s t" "inode_block s ip \<in> logged (lg t)"
    and b: "blk t = (blk s)(inode_block s ip := put_dinode (blk s (inode_block s ip)) (dino_off ?i) (itab s ip))"
  have f: "sb t = sb s" "itab t = itab s" using tframe_sb [OF t(2)] by simp_all
  have other: "get_dinode (blk t (IBLOCK m (sb s))) (dino_off m) e = get_dinode (blk s (IBLOCK m (sb s))) (dino_off m) e"
    if "m \<noteq> ?i" for m e
    using dino_off_disjoint [OF that, of "sb s"] get_dinode_other by (cases "IBLOCK m (sb s) = inode_block s ip") (auto simp: b)
  have ilock: "wp (ilock jp (ino_upd jp (\<lambda>_. e) t)) (\<lambda>_ u. \<exists>l. sl_locked l \<and> blk u = blk t \<and>
      itab u = (itab s)(jp := loaded (itab s ip) e l))" if e: "unloaded e ?i" for jp e
  proof -
    let ?u = "ino_upd jp (\<lambda>_. e) t"
    have u: "bio_inv ?u {} (logged (lg t))" "card (logged (lg t)) < NBUF" "unloaded (itab ?u jp) ?i"
      using t(1) card_logged [of k "lg t"] e by (simp_all add: tx_def)
    have d: "blk t (inode_block s ip) = put_dinode (blk s (inode_block s ip)) (dino_off ?i) (itab s ip)" by (simp add: b)
    show ?thesis
      by (rule wp_mono [OF ilock_loads [OF u]])
        (use assms(3) in \<open>auto simp: d put_dinode_fields(1) get_put_loaded f
          intro!: exI [of _ "\<lparr>sl_locked = True, sl_pid = mypid (ino_upd jp (\<lambda>_. e) t)\<rparr>"]\<close>)
  qed
  show "tx {} k t \<and> itab t = itab s \<and> inode_block s ip \<in> logged (lg t) \<and> (\<forall>b. b \<noteq> inode_block s ip \<longrightarrow> blk t b = blk s b) \<and>
    (\<forall>m e. m \<noteq> ?i \<longrightarrow> get_dinode (blk t (IBLOCK m (sb s))) (dino_off m) e = get_dinode (blk s (IBLOCK m (sb s))) (dino_off m) e) \<and>
    (\<forall>jp e. unloaded e ?i \<longrightarrow> wp (ilock jp (ino_upd jp (\<lambda>_. e) t)) (\<lambda>_ u. \<exists>l. sl_locked l \<and> blk u = blk t \<and>
      itab u = (itab s)(jp := loaded (itab s ip) e l)))"
    using t f other ilock b by auto
qed

text \<open>An inode on the disk of \<open>demo_fs\<close>.\<close>

definition inode_fs :: kfs where
  "inode_fs = ino_upd 0 (\<lambda>i. i\<lparr>i_dev := ROOTDEV, i_inum := 17, i_ref := 1, i_valid := True, i_type := T_FILE, i_size := 5\<rparr>) demo_fs"

lemma iupdate_ilock_witness:
  "\<exists>t u. iupdate 0 inode_fs = Ok () t \<and>
    ilock 1 (ino_upd 1 (\<lambda>_. \<lparr>i_dev = ROOTDEV, i_inum = 17, i_ref = 1, i_lock = initsleeplock, i_valid = False, i_type = 0, i_major = 0,
      i_minor = 0, i_nlink = 0, i_size = 0, i_addrs = (\<lambda>_. 9)\<rparr>) t) = Ok () u \<and> i_size (itab u 1) = 5"
proof -
  let ?e = "\<lparr>i_dev = ROOTDEV, i_inum = 17, i_ref = 1, i_lock = initsleeplock, i_valid = False, i_type = 0, i_major = 0,
      i_minor = 0, i_nlink = 0, i_size = 0, i_addrs = (\<lambda>_. 9)\<rparr>"
  have f: "tx {} (Suc 1) inode_fs" "i_dev (itab inode_fs 0) = ROOTDEV" "i_type (itab inode_fs 0) \<noteq> 0"
    using demo_tx by (simp_all add: inode_fs_def T_FILE_def)
  have i: "i_inum (itab inode_fs 0) = 17" "i_size (itab inode_fs 0) = 5" by (simp_all add: inode_fs_def)
  have e: "unloaded ?e 17" by (simp add: unloaded_def initsleeplock_def)
  obtain a t where t: "iupdate 0 inode_fs = Ok a t"
      "\<forall>jp e. unloaded e 17 \<longrightarrow> wp (ilock jp (ino_upd jp (\<lambda>_. e) t)) (\<lambda>_ u. \<exists>l. sl_locked l \<and> blk u = blk t \<and>
        itab u = (itab inode_fs)(jp := loaded (itab inode_fs 0) e l))"
    using iupdate_ilock [OF f, unfolded i] by (subst (asm) wp_iff) blast
  have "wp (ilock 1 (ino_upd 1 (\<lambda>_. ?e) t)) (\<lambda>_ u. \<exists>l. sl_locked l \<and> blk u = blk t \<and>
      itab u = (itab inode_fs)(1 := loaded (itab inode_fs 0) ?e l))" using t(2) e by blast
  then show ?thesis using t(1) i(2) by (auto simp: wp_iff loaded_def)
qed

end
