(* ===== verification/File.thy ===== *)
theory File
  imports Pipe
begin

text \<open>
  Open files: \<^verbatim>\<open>kernel/file.c\<close>, and \<open>pipealloc\<close> of \<^verbatim>\<open>kernel/pipe.c\<close>.

  A file is named by its index in \<open>ftable\<close>. The only device in \<open>devsw\<close> is the console.
\<close>

definition file_upd :: "nat \<Rightarrow> (openfile \<Rightarrow> openfile) \<Rightarrow> 'z kfile_scheme \<Rightarrow> 'z kfile_scheme" where
  "file_upd f g s = s\<lparr>ftable := (ftable s)(f := g (ftable s f))\<rparr>"

text \<open>Dereferencing a pointer; a null pointer is a fault in the kernel.\<close>

definition deref :: "'a option \<Rightarrow> 's \<Rightarrow> ('a, 's) kres" where
  "deref p s = (case p of None \<Rightarrow> Panic ''kerneltrap'' | Some a \<Rightarrow> Ok a s)"

lemma deref_Some [simp]: "deref (Some a) s = Ok a s"
  by (simp add: deref_def)

definition fileinit :: "'z kfile_scheme \<Rightarrow> 'z kfile_scheme" where
  "fileinit s = s\<lparr>held := held s - {LFtable}\<rparr>"

definition filealloc :: "'z kfile_scheme \<Rightarrow> (nat option, 'z kfile_scheme) kres" where
  "filealloc s =
    kbind (acquire LFtable s) (\<lambda>_ s.
    case scan (\<lambda>f. f_ref (ftable s f) = 0) NFILE of
      Some f \<Rightarrow> kbind (release LFtable (file_upd f (\<lambda>x. x\<lparr>f_ref := 1\<rparr>) s)) (\<lambda>_ s. Ok (Some f) s)
    | None \<Rightarrow> kbind (release LFtable s) (\<lambda>_ s. Ok None s))"

definition filedup :: "nat \<Rightarrow> 'z kfile_scheme \<Rightarrow> (nat, 'z kfile_scheme) kres" where
  "filedup f s =
    kbind (acquire LFtable s) (\<lambda>_ s.
      if f_ref (ftable s f) < 1 then Panic ''filedup''
      else kbind (release LFtable (file_upd f (\<lambda>x. x\<lparr>f_ref := f_ref x + 1\<rparr>) s)) (\<lambda>_ s. Ok f s))"

definition fileclose :: "nat \<Rightarrow> 'z kfile_scheme \<Rightarrow> (unit, 'z kfile_scheme) kres" where
  "fileclose f s =
    kbind (acquire LFtable s) (\<lambda>_ s.
      if f_ref (ftable s f) < 1 then Panic ''fileclose''
      else
        let s = file_upd f (\<lambda>x. x\<lparr>f_ref := f_ref x - 1\<rparr>) s in
        if 0 < f_ref (ftable s f) then release LFtable s
        else
          let ff = ftable s f;
              s = file_upd f (\<lambda>x. x\<lparr>f_ref := 0, f_type := FD_NONE\<rparr>) s
          in kbind (release LFtable s) (\<lambda>_ s.
               if f_type ff = FD_PIPE then pipeclose (f_pipe ff) (f_writable ff) s
               else if f_type ff = FD_INODE \<or> f_type ff = FD_DEVICE then
                 kbind (begin_op s) (\<lambda>_ s.
                 kbind (deref (f_ip ff) s) (\<lambda>ip s.
                 kbind (iput ip s) (\<lambda>_ s.
                 end_op s)))
               else Ok () s))"

definition close_opt :: "nat option \<Rightarrow> 'z kfile_scheme \<Rightarrow> (unit, 'z kfile_scheme) kres" where
  "close_opt f s = (case f of None \<Rightarrow> Ok () s | Some f \<Rightarrow> fileclose f s)"

text \<open>The label \<open>bad\<close> of \<open>pipealloc\<close>; no page has been allocated when it is reached.\<close>

definition pipealloc_bad ::
  "nat option \<Rightarrow> nat option \<Rightarrow> 'z kfile_scheme \<Rightarrow> (int \<times> nat option \<times> nat option, 'z kfile_scheme) kres" where
  "pipealloc_bad f0 f1 s =
    kbind (close_opt f0 s) (\<lambda>_ s. kbind (close_opt f1 s) (\<lambda>_ s. Ok (- 1, f0, f1) s))"

definition pipealloc :: "'z kfile_scheme \<Rightarrow> (int \<times> nat option \<times> nat option, 'z kfile_scheme) kres" where
  "pipealloc s =
    kbind (filealloc s) (\<lambda>r0 s.
    case r0 of None \<Rightarrow> pipealloc_bad None None s
    | Some f0 \<Rightarrow>
        kbind (filealloc s) (\<lambda>r1 s.
        case r1 of None \<Rightarrow> pipealloc_bad (Some f0) None s
        | Some f1 \<Rightarrow>
            kbind (kalloc s) (\<lambda>pi s.
              if pi = 0 then pipealloc_bad (Some f0) (Some f1) s
              else
                let s = pipe_upd pi (\<lambda>p. p\<lparr>p_readopen := True, p_writeopen := True, p_nwrite := 0, p_nread := 0\<rparr>) s;
                    s = s\<lparr>held := held s - {LPipe pi}\<rparr>;
                    s = file_upd f0 (\<lambda>x. x\<lparr>f_type := FD_PIPE, f_readable := True, f_writable := False, f_pipe := pi\<rparr>) s;
                    s = file_upd f1 (\<lambda>x. x\<lparr>f_type := FD_PIPE, f_readable := False, f_writable := True, f_pipe := pi\<rparr>) s
                in Ok (0, Some f0, Some f1) s)))"

text \<open>The bytes of a \<open>struct stat\<close> (24 of them, with 4 of padding).\<close>

definition stat_bytes :: "stat \<Rightarrow> bytes" where
  "stat_bytes st =
    put64 (put16 (put16 (put32 (put32 (\<lambda>_. 0) 0 (st_dev st)) 4 (st_ino st)) 8 (st_type st)) 10 (st_nlink st)) 16 (st_size st)"

definition filestat :: "nat \<Rightarrow> u64 \<Rightarrow> 'z kfile_scheme \<Rightarrow> (int, 'z kfile_scheme) kres" where
  "filestat f addr s =
    kbind (myproc s) (\<lambda>p s.
      if f_type (ftable s f) = FD_INODE \<or> f_type (ftable s f) = FD_DEVICE then
        kbind (deref (f_ip (ftable s f)) s) (\<lambda>ip s.
        kbind (ilock ip s) (\<lambda>_ s.
        let st = stati ip s in
        kbind (iunlock ip s) (\<lambda>_ s.
        kbind (copyout (p_pagetable (procs s p)) addr (stat_bytes st) 24 s) (\<lambda>r s.
          if r < 0 then Ok (- 1) s else Ok 0 s))))
      else Ok (- 1) s)"

text \<open>\<open>devsw[major]\<close> has functions.\<close>

definition has_device :: "u16 \<Rightarrow> 'z kfile_scheme \<Rightarrow> bool" where
  "has_device major s \<longleftrightarrow> 0 \<le> sint major \<and> sint major < NDEV \<and> sint major = CONSOLE \<and> devsw_console s"

definition fileread :: "nat \<Rightarrow> u64 \<Rightarrow> int \<Rightarrow> 'z kfile_scheme \<Rightarrow> (int, 'z kfile_scheme) kres" where
  "fileread f addr n s =
    (if \<not> f_readable (ftable s f) then Ok (- 1) s
     else
       case f_type (ftable s f) of
         FD_PIPE \<Rightarrow> piperead (f_pipe (ftable s f)) addr n s
       | FD_DEVICE \<Rightarrow>
           if \<not> has_device (f_major (ftable s f)) s then Ok (- 1) s
           else kbind (consoleread (UserAt addr) n s) (\<lambda>(r, _) s. Ok r s)
       | FD_INODE \<Rightarrow>
           kbind (deref (f_ip (ftable s f)) s) (\<lambda>ip s.
           kbind (ilock ip s) (\<lambda>_ s.
           kbind (readi ip (UserAt addr) (f_off (ftable s f)) (of_int n) s) (\<lambda>(r, _) s.
           let s = (if 0 < r then file_upd f (\<lambda>x. x\<lparr>f_off := f_off x + of_int r\<rparr>) s else s) in
           kbind (iunlock ip s) (\<lambda>_ s. Ok r s))))
       | FD_NONE \<Rightarrow> Panic ''fileread'')"

definition write_max :: int where
  "write_max = int (((MAXOPBLOCKS - 1 - 1 - 2) div 2) * BSIZE)"

text \<open>The loop of \<open>filewrite\<close> over an inode: how far it came.\<close>

function filewrite_loop :: "nat \<Rightarrow> nat \<Rightarrow> u64 \<Rightarrow> int \<Rightarrow> int \<Rightarrow> 'z kfile_scheme \<Rightarrow> (int, 'z kfile_scheme) kres" where
  "filewrite_loop f ip addr i n s =
    (if i < n then
       let n1 = (if write_max < n - i then write_max else n - i) in
       kbind (begin_op s) (\<lambda>_ s.
       kbind (ilock ip s) (\<lambda>_ s.
       kbind (writei ip (UserAt (addr + of_int i)) (f_off (ftable s f)) (of_int n1) s) (\<lambda>r s.
       let s = (if 0 < r then file_upd f (\<lambda>x. x\<lparr>f_off := f_off x + of_int r\<rparr>) s else s) in
       kbind (iunlock ip s) (\<lambda>_ s.
       kbind (end_op s) (\<lambda>_ s.
         if r \<noteq> n1 then Ok i s else filewrite_loop f ip addr (i + r) n s)))))
     else Ok i s)"
  by pat_completeness auto
termination
  by (relation "measure (\<lambda>(f, ip, addr, i, n, s). nat (n - i))")
    (auto simp: write_max_def MAXOPBLOCKS_def BSIZE_def split: if_splits)

declare filewrite_loop.simps [simp del]

definition filewrite :: "nat \<Rightarrow> u64 \<Rightarrow> int \<Rightarrow> 'z kfile_scheme \<Rightarrow> (int, 'z kfile_scheme) kres" where
  "filewrite f addr n s =
    (if \<not> f_writable (ftable s f) then Ok (- 1) s
     else
       case f_type (ftable s f) of
         FD_PIPE \<Rightarrow> pipewrite (f_pipe (ftable s f)) addr n s
       | FD_DEVICE \<Rightarrow>
           if \<not> has_device (f_major (ftable s f)) s then Ok (- 1) s
           else consolewrite (UserAt addr) n s
       | FD_INODE \<Rightarrow>
           kbind (deref (f_ip (ftable s f)) s) (\<lambda>ip s.
           kbind (filewrite_loop f ip addr 0 n s) (\<lambda>i s. Ok (if i = n then n else - 1) s))
       | FD_NONE \<Rightarrow> Panic ''filewrite'')"

end
