(* ===== verification/Proc.thy ===== *)
theory Proc
  imports File
begin

text \<open>
  Processes: the rest of \<^verbatim>\<open>kernel/proc.c\<close>.

  \<open>initlock\<close> makes a lock free. Where the code keeps a lock over a function's return (\<open>allocproc\<close>)
  the model's state does so too. The scheduler's \<open>swtch\<close> to a process is a parameter: what that
  process does until it switches back.
\<close>

section \<open>Allocation and release\<close>

definition procinit_one :: "nat \<Rightarrow> 'z kfile_scheme \<Rightarrow> 'z kfile_scheme" where
  "procinit_one i s =
    (let s = s\<lparr>held := held s - {LProc i}\<rparr>;
         s = proc_upd i (\<lambda>p. p\<lparr>p_state := UNUSED\<rparr>) s
     in proc_upd i (\<lambda>p. p\<lparr>p_kstack := KSTACK i\<rparr>) s)"

definition procinit :: "'z kfile_scheme \<Rightarrow> 'z kfile_scheme" where
  "procinit s = fold procinit_one [0..<NPROC] (s\<lparr>held := held s - {LPid, LWait}\<rparr>)"

definition allocpid :: "'z kfile_scheme \<Rightarrow> (int, 'z kfile_scheme) kres" where
  "allocpid s =
    kbind (acquire LPid s) (\<lambda>_ s.
    let pid = nextpid s;
        s = s\<lparr>nextpid := nextpid s + 1\<rparr>
    in kbind (release LPid s) (\<lambda>_ s. Ok pid s))"

definition proc_pagetable :: "nat \<Rightarrow> 'z kfile_scheme \<Rightarrow> (u64, 'z kfile_scheme) kres" where
  "proc_pagetable p s =
    kbind (uvmcreate s) (\<lambda>pagetable s.
      if pagetable = 0 then Ok 0 s
      else
        kbind (mappages pagetable TRAMPOLINE PGSIZE (trampoline s) (PTE_R OR PTE_X) s) (\<lambda>r s.
          if r < 0 then kbind (uvmfree pagetable 0 s) (\<lambda>_ s. Ok 0 s)
          else
            kbind (mappages pagetable TRAPFRAME PGSIZE (p_trapframe (procs s p)) (PTE_R OR PTE_W) s) (\<lambda>r s.
              if r < 0 then
                kbind (uvmunmap pagetable TRAMPOLINE 1 False s) (\<lambda>_ s.
                kbind (uvmfree pagetable 0 s) (\<lambda>_ s. Ok 0 s))
              else Ok pagetable s)))"

definition proc_freepagetable :: "u64 \<Rightarrow> u64 \<Rightarrow> 'z kfile_scheme \<Rightarrow> (unit, 'z kfile_scheme) kres" where
  "proc_freepagetable pagetable sz s =
    kbind (uvmunmap pagetable TRAMPOLINE 1 False s) (\<lambda>_ s.
    kbind (uvmunmap pagetable TRAPFRAME 1 False s) (\<lambda>_ s.
    uvmfree pagetable sz s))"

definition freeproc :: "nat \<Rightarrow> 'z kfile_scheme \<Rightarrow> (unit, 'z kfile_scheme) kres" where
  "freeproc p s =
    kbind (if p_trapframe (procs s p) \<noteq> 0 then kfree (p_trapframe (procs s p)) s else Ok () s) (\<lambda>_ s.
    let s = proc_upd p (\<lambda>q. q\<lparr>p_trapframe := 0\<rparr>) s in
    kbind (if p_pagetable (procs s p) \<noteq> 0
           then proc_freepagetable (p_pagetable (procs s p)) (p_sz (procs s p)) s else Ok () s) (\<lambda>_ s.
    Ok () (proc_upd p (\<lambda>q. q\<lparr>p_pagetable := 0, p_sz := 0, p_pid := 0, p_parent := None,
      p_name := (p_name q)(0 := 0), p_chan := None, p_killed := 0, p_xstate := 0, p_state := UNUSED\<rparr>) s)))"

text \<open>The search leaves the lock of the entry it found held.\<close>

definition find_unused :: "nat \<Rightarrow> 'z kfile_scheme \<Rightarrow> (nat option, 'z kfile_scheme) kres" where
  "find_unused p s =
    kbind (acquire (LProc p) s) (\<lambda>_ s.
      if p_state (procs s p) = UNUSED then Ok (Some p) s
      else kbind (release (LProc p) s) (\<lambda>_ s. Ok None s))"

definition alloc_failed :: "nat \<Rightarrow> 'z kfile_scheme \<Rightarrow> (nat option, 'z kfile_scheme) kres" where
  "alloc_failed p s =
    kbind (freeproc p s) (\<lambda>_ s. kbind (release (LProc p) s) (\<lambda>_ s. Ok None s))"

definition allocproc :: "'z kfile_scheme \<Rightarrow> (nat option, 'z kfile_scheme) kres" where
  "allocproc s =
    kbind (kscan find_unused [0..<NPROC] s) (\<lambda>r s.
    case r of None \<Rightarrow> Ok None s
    | Some p \<Rightarrow>
        kbind (allocpid s) (\<lambda>pid s.
        let s = proc_upd p (\<lambda>q. q\<lparr>p_pid := pid, p_state := USED\<rparr>) s in
        kbind (kalloc s) (\<lambda>tf s.
        let s = proc_upd p (\<lambda>q. q\<lparr>p_trapframe := tf\<rparr>) s in
        if tf = 0 then alloc_failed p s
        else
          kbind (proc_pagetable p s) (\<lambda>pt s.
          let s = proc_upd p (\<lambda>q. q\<lparr>p_pagetable := pt\<rparr>) s in
          if pt = 0 then alloc_failed p s
          else
            let s = proc_upd p (\<lambda>q. q\<lparr>p_context := \<lparr>ctx_ra = 0, ctx_sp = 0, ctx_s = (\<lambda>_. 0)\<rparr>\<rparr>) s;
                s = proc_upd p (\<lambda>q. q\<lparr>p_context := (p_context q)\<lparr>ctx_ra := forkret_addr s\<rparr>\<rparr>) s;
                s = proc_upd p (\<lambda>q. q\<lparr>p_context := (p_context q)\<lparr>ctx_sp := p_kstack q + PGSIZE\<rparr>\<rparr>) s
            in Ok (Some p) s))))"

definition userinit :: "'z kfile_scheme \<Rightarrow> (unit, 'z kfile_scheme) kres" where
  "userinit s =
    kbind (allocproc s) (\<lambda>p s.
    let s = s\<lparr>initproc := p\<rparr> in
    kbind (namei [slash] s) (\<lambda>cwd s.
    kbind (deref p s) (\<lambda>p s.
    let s = proc_upd p (\<lambda>q. q\<lparr>p_cwd := cwd\<rparr>) s;
        s = proc_upd p (\<lambda>q. q\<lparr>p_state := RUNNABLE\<rparr>) s
    in release (LProc p) s)))"

section \<open>Growing, forking, exiting, waiting\<close>

definition growproc :: "int \<Rightarrow> 'z kfile_scheme \<Rightarrow> (int, 'z kfile_scheme) kres" where
  "growproc n s =
    kbind (myproc s) (\<lambda>p s.
    let sz = p_sz (procs s p); pt = p_pagetable (procs s p);
        set_sz = (\<lambda>sz s. Ok 0 (proc_upd p (\<lambda>q. q\<lparr>p_sz := sz\<rparr>) s)) in
    if 0 < n then
      kbind (uvmalloc pt sz (sz + of_int n) PTE_W s) (\<lambda>sz s. if sz = 0 then Ok (- 1) s else set_sz sz s)
    else if n < 0 then kbind (uvmdealloc pt sz (sz + of_int n) s) (\<lambda>sz s. set_sz sz s)
    else set_sz sz s)"

text \<open>\<open>if(p->ofile[i]) np->ofile[i] = filedup(p->ofile[i])\<close>\<close>

definition fork_file :: "nat \<Rightarrow> nat \<Rightarrow> nat \<Rightarrow> 'z kfile_scheme \<Rightarrow> (unit, 'z kfile_scheme) kres" where
  "fork_file p np i s =
    (case p_ofile (procs s p) i of None \<Rightarrow> Ok () s
     | Some f \<Rightarrow>
         kbind (filedup f s) (\<lambda>f s.
         Ok () (proc_upd np (\<lambda>q. q\<lparr>p_ofile := (p_ofile q)(i := Some f)\<rparr>) s)))"

definition kfork :: "'z kfile_scheme \<Rightarrow> (int, 'z kfile_scheme) kres" where
  "kfork s =
    kbind (myproc s) (\<lambda>p s.
    kbind (allocproc s) (\<lambda>r s.
    case r of None \<Rightarrow> Ok (- 1) s
    | Some np \<Rightarrow>
        kbind (uvmcopy (p_pagetable (procs s p)) (p_pagetable (procs s np)) (p_sz (procs s p)) s) (\<lambda>r s.
        if r < 0 then kbind (freeproc np s) (\<lambda>_ s. kbind (release (LProc np) s) (\<lambda>_ s. Ok (- 1) s))
        else
          let s = proc_upd np (\<lambda>q. q\<lparr>p_sz := p_sz (procs s p)\<rparr>) s;
              s = s\<lparr>pmem := store_bytes (pmem s) (p_trapframe (procs s np))
                     (view (pmem s) (p_trapframe (procs s p))) tf_size\<rparr>;
              s = tf_write np (tf_a 0) 0 s
          in kbind (foreach (fork_file p np) [0..<NOFILE] s) (\<lambda>_ s.
             kbind (deref (p_cwd (procs s p)) s) (\<lambda>cwd s.
             kbind (idup cwd s) (\<lambda>cwd s.
             let s = proc_upd np (\<lambda>q. q\<lparr>p_cwd := Some cwd\<rparr>) s;
                 s = proc_upd np (\<lambda>q. q\<lparr>p_name := safestrcpy (p_name q) (p_name (procs s p)) 16\<rparr>) s;
                 pid = p_pid (procs s np)
             in kbind (release (LProc np) s) (\<lambda>_ s.
                kbind (acquire LWait s) (\<lambda>_ s.
                let s = proc_upd np (\<lambda>q. q\<lparr>p_parent := Some p\<rparr>) s in
                kbind (release LWait s) (\<lambda>_ s.
                kbind (acquire (LProc np) s) (\<lambda>_ s.
                let s = proc_upd np (\<lambda>q. q\<lparr>p_state := RUNNABLE\<rparr>) s in
                kbind (release (LProc np) s) (\<lambda>_ s. Ok pid s)))))))))))"

text \<open>\<open>wakeup\<close> on a process; nothing sleeps on the null channel.\<close>

definition wakeup_proc :: "nat option \<Rightarrow> 'z kfile_scheme \<Rightarrow> (unit, 'z kfile_scheme) kres" where
  "wakeup_proc p s = (case p of None \<Rightarrow> Ok () s | Some p \<Rightarrow> wakeup (ChProc p) s)"

definition reparent_one :: "nat \<Rightarrow> nat \<Rightarrow> 'z kfile_scheme \<Rightarrow> (unit, 'z kfile_scheme) kres" where
  "reparent_one p pp s =
    (if p_parent (procs s pp) = Some p then
       let s = proc_upd pp (\<lambda>q. q\<lparr>p_parent := initproc s\<rparr>) s
       in wakeup_proc (initproc s) s
     else Ok () s)"

definition reparent :: "nat \<Rightarrow> 'z kfile_scheme \<Rightarrow> (unit, 'z kfile_scheme) kres" where
  "reparent p s = foreach (reparent_one p) [0..<NPROC] s"

definition exit_file :: "nat \<Rightarrow> nat \<Rightarrow> 'z kfile_scheme \<Rightarrow> (unit, 'z kfile_scheme) kres" where
  "exit_file p fd s =
    (case p_ofile (procs s p) fd of None \<Rightarrow> Ok () s
     | Some f \<Rightarrow>
         kbind (fileclose f s) (\<lambda>_ s.
         Ok () (proc_upd p (\<lambda>q. q\<lparr>p_ofile := (p_ofile q)(fd := None)\<rparr>) s)))"

definition kexit :: "int \<Rightarrow> 'z kfile_scheme \<Rightarrow> ('a, 'z kfile_scheme) kres" where
  "kexit status s =
    kbind (myproc s) (\<lambda>p s.
    if initproc s = Some p then Panic ''init exiting''
    else
      kbind (foreach (exit_file p) [0..<NOFILE] s) (\<lambda>_ s.
      kbind (begin_op s) (\<lambda>_ s.
      kbind (deref (p_cwd (procs s p)) s) (\<lambda>cwd s.
      kbind (iput cwd s) (\<lambda>_ s.
      kbind (end_op s) (\<lambda>_ s.
      let s = proc_upd p (\<lambda>q. q\<lparr>p_cwd := None\<rparr>) s in
      kbind (acquire LWait s) (\<lambda>_ s.
      kbind (reparent p s) (\<lambda>_ s.
      kbind (wakeup_proc (p_parent (procs s p)) s) (\<lambda>_ s.
      kbind (acquire (LProc p) s) (\<lambda>_ s.
      let s = proc_upd p (\<lambda>q. q\<lparr>p_xstate := status\<rparr>) s;
          s = proc_upd p (\<lambda>q. q\<lparr>p_state := ZOMBIE\<rparr>) s
      in kbind (release LWait s) (\<lambda>_ s.
         kbind (sched s :: (unit, 'z kfile_scheme) kres) (\<lambda>_ s. Panic ''zombie exit''))))))))))))"

text \<open>The scan of \<open>kwait\<close>: the return value, if it found an exited child, and \<open>havekids\<close>.\<close>

fun kwait_scan :: "nat \<Rightarrow> u64 \<Rightarrow> nat list \<Rightarrow> bool \<Rightarrow> 'z kfile_scheme \<Rightarrow> (int option \<times> bool, 'z kfile_scheme) kres" where
  "kwait_scan p addr [] havekids s = Ok (None, havekids) s"
| "kwait_scan p addr (pp # pps) havekids s =
    (if p_parent (procs s pp) = Some p then
       kbind (acquire (LProc pp) s) (\<lambda>_ s.
         if p_state (procs s pp) = ZOMBIE then
           let pid = p_pid (procs s pp) in
           kbind (if addr \<noteq> 0 then copyout (p_pagetable (procs s p)) addr
                    (put32 (\<lambda>_. 0) 0 (of_int (p_xstate (procs s pp)))) 4 s
                  else Ok 0 s) (\<lambda>r s.
             if r < 0 then
               kbind (release (LProc pp) s) (\<lambda>_ s. kbind (release LWait s) (\<lambda>_ s. Ok (Some (- 1), True) s))
             else
               kbind (freeproc pp s) (\<lambda>_ s.
               kbind (release (LProc pp) s) (\<lambda>_ s.
               kbind (release LWait s) (\<lambda>_ s.
               Ok (Some pid, True) s))))
         else kbind (release (LProc pp) s) (\<lambda>_ s. kwait_scan p addr pps True s))
     else kwait_scan p addr pps havekids s)"

text \<open>One round of the loop; woken from the sleep at its end, the process starts the next one.\<close>

definition kwait_round :: "nat \<Rightarrow> u64 \<Rightarrow> 'z kfile_scheme \<Rightarrow> (int, 'z kfile_scheme) kres" where
  "kwait_round p addr s =
    kbind (kwait_scan p addr [0..<NPROC] False s) (\<lambda>(r, havekids) s.
    case r of Some v \<Rightarrow> Ok v s
    | None \<Rightarrow>
        kbind (if \<not> havekids then Ok 1 s else killed p s) (\<lambda>k s.
          if k \<noteq> 0 then kbind (release LWait s) (\<lambda>_ s. Ok (- 1) s)
          else sleep (ChProc p) LWait s))"

definition kwait :: "u64 \<Rightarrow> 'z kfile_scheme \<Rightarrow> (int, 'z kfile_scheme) kres" where
  "kwait addr s =
    kbind (myproc s) (\<lambda>p s.
    kbind (acquire LWait s) (\<lambda>_ s.
    kwait_round p addr s))"

section \<open>Scheduling\<close>

text \<open>\<open>run p\<close> is what the process \<open>p\<close> does until it switches back, with its own lock held.\<close>

definition scheduler_one ::
  "(nat \<Rightarrow> 'z kfile_scheme \<Rightarrow> 'z kfile_scheme) \<Rightarrow> nat \<Rightarrow> 'z kfile_scheme \<Rightarrow> (bool, 'z kfile_scheme) kres" where
  "scheduler_one run p s =
    kbind (acquire (LProc p) s) (\<lambda>_ s.
    kbind (if p_state (procs s p) = RUNNABLE then
             let s = proc_upd p (\<lambda>q. q\<lparr>p_state := RUNNING\<rparr>) s;
                 s = s\<lparr>curproc := Some p\<rparr>;
                 s = run p s;
                 s = s\<lparr>curproc := None\<rparr>
             in Ok True s
           else Ok False s) (\<lambda>found s.
    kbind (release (LProc p) s) (\<lambda>_ s. Ok found s)))"

fun scheduler_loop ::
  "(nat \<Rightarrow> 'z kfile_scheme \<Rightarrow> 'z kfile_scheme) \<Rightarrow> nat list \<Rightarrow> bool \<Rightarrow> 'z kfile_scheme \<Rightarrow> (bool, 'z kfile_scheme) kres" where
  "scheduler_loop run [] found s = Ok found s"
| "scheduler_loop run (p # ps) found s =
    kbind (scheduler_one run p s) (\<lambda>f s. scheduler_loop run ps (found \<or> f) s)"

text \<open>One round of the scheduler: whether a process has run. If none has, the hart waits for an interrupt.\<close>

definition scheduler :: "(nat \<Rightarrow> 'z kfile_scheme \<Rightarrow> 'z kfile_scheme) \<Rightarrow> 'z kfile_scheme \<Rightarrow> (bool, 'z kfile_scheme) kres" where
  "scheduler run s = scheduler_loop run [0..<NPROC] False (s\<lparr>curproc := None\<rparr>)"

definition yield :: "'z kfile_scheme \<Rightarrow> (unit, 'z kfile_scheme) kres" where
  "yield s =
    kbind (myproc s) (\<lambda>p s.
    kbind (acquire (LProc p) s) (\<lambda>_ s.
    let s = proc_upd p (\<lambda>q. q\<lparr>p_state := RUNNABLE\<rparr>) s in
    kbind (sched s :: (unit, 'z kfile_scheme) kres) (\<lambda>_ s. release (LProc p) s)))"

end
