(* ===== verification/Procflow.thy ===== *)
theory Procflow
  imports Proc Pipeflow
begin

text \<open>
  What the process table promises: a process that sleeps on a channel runs again after a wakeup
  of the channel, \<open>kill\<close> finds its process, \<open>wait\<close> does not return or sleep for the wrong reason,
  and the children of a process that exits go to \<open>init\<close>.
\<close>

section \<open>Searches that leave the state as it is\<close>

lemma kscan_scan:
  assumes "\<And>i. i < n \<Longrightarrow> body i s = (if P i then Ok (Some (v i)) (g i) else Ok None s)"
  shows "kscan body [0..<n] s = (case scan P n of Some i \<Rightarrow> Ok (Some (v i)) (g i) | None \<Rightarrow> Ok None s)"
proof -
  have "kscan body [j..<j + k] s = (case scan_from P k j of Some i \<Rightarrow> Ok (Some (v i)) (g i) | None \<Rightarrow> Ok None s)"
    if "j + k \<le> n" for j k
    using that
  proof (induction k arbitrary: j)
    case 0
    then show ?case by simp
  next
    case (Suc k)
    have u: "[j..<j + Suc k] = j # [Suc j..<Suc j + k]" by (simp add: upt_conv_Cons)
    show ?case unfolding u using assms [of j] Suc.IH [of "Suc j"] Suc.prems by (simp del: upt_Suc)
  qed
  from this [of 0 n] show ?thesis by (simp add: scan_def)
qed

text \<open>
  \<open>kill\<close> marks the first process of the table with the given pid as killed and makes it
  runnable if it sleeps, and changes no other process; with no such process it returns -1 and
  changes nothing.
\<close>

theorem kkill_first:
  fixes s :: "'z kprocs_scheme"
  assumes "\<And>i. LProc i \<notin> held s"
  shows "kkill pid s = (case scan (\<lambda>i. p_pid (procs s i) = pid) NPROC of
      None \<Rightarrow> Ok (- 1) s
    | Some i \<Rightarrow> Ok 0 (proc_upd i (\<lambda>p. p\<lparr>p_killed := 1,
        p_state := if p_state p = SLEEPING then RUNNABLE else p_state p\<rparr>) s))"
proof -
  have "kkill_one pid i s = (if p_pid (procs s i) = pid
      then Ok (Some 0) (proc_upd i (\<lambda>p. p\<lparr>p_killed := 1, p_state := if p_state p = SLEEPING then RUNNABLE else p_state p\<rparr>) s)
      else Ok None s)" for i
    using assms
    by (auto simp: kkill_one_def acquire_free release_held proc_upd_def Let_def held_upd_id intro!: kprocs.fold_congs)
  then have "kscan (kkill_one pid) [0..<NPROC] s = (case scan (\<lambda>i. p_pid (procs s i) = pid) NPROC of
      Some i \<Rightarrow> Ok (Some 0) (proc_upd i (\<lambda>p. p\<lparr>p_killed := 1,
        p_state := if p_state p = SLEEPING then RUNNABLE else p_state p\<rparr>) s)
    | None \<Rightarrow> Ok None s)"
    by (intro kscan_scan) simp
  then show ?thesis by (simp add: kkill_def split: option.split)
qed

lemma kkill_first_witness:
  "(\<exists>t. kkill 1 demo_files = Ok 0 t \<and> p_killed (procs t 0) = 1) \<and> kkill 5 demo_files = Ok (- 1) demo_files"
proof -
  have p: "p_pid demo_proc = 1" "p_state demo_proc = RUNNING" by (simp_all add: demo_proc_def)
  have "scan (\<lambda>i. p_pid (procs demo_files i) = 1) NPROC = Some 0"
    "scan (\<lambda>i. p_pid (procs demo_files i) = 5) NPROC = None"
    by (simp_all add: scan_Some scan_None p NPROC_def)
  then show ?thesis
    using kkill_first [of demo_files 1] kkill_first [of demo_files 5] p
    by (simp add: proc_upd_def)
qed

section \<open>Sleeping, waking and running\<close>

text \<open>
  What the scheduler relies on: a process that it switches to comes back with its own lock held
  and no other, and does not stop another one that is runnable from being so. \<open>did p\<close> is what
  its running leaves in memory, for good.
\<close>

definition switches :: "(nat \<Rightarrow> 'z kfile_scheme \<Rightarrow> 'z kfile_scheme) \<Rightarrow> (nat \<Rightarrow> mem \<Rightarrow> bool) \<Rightarrow> bool" where
  "switches run did \<longleftrightarrow> (\<forall>p u. curproc u = Some p \<and> held u = {LProc p} \<longrightarrow>
    held (run p u) = {LProc p} \<and> did p (pmem (run p u)) \<and>
    (\<forall>q. q \<noteq> p \<longrightarrow> p_state (procs u q) = RUNNABLE \<longrightarrow> p_state (procs (run p u) q) = RUNNABLE) \<and>
    (\<forall>q. did q (pmem u) \<longrightarrow> did q (pmem (run p u))))"

lemma scheduler_one_runs:
  fixes s :: "'z kfile_scheme"
  assumes "switches run did" "held s = {}"
  shows "\<exists>f t. scheduler_one run p s = Ok f t \<and> held t = {} \<and>
    (p_state (procs s p) = RUNNABLE \<longrightarrow> f \<and> did p (pmem t)) \<and>
    (\<forall>q. q \<noteq> p \<longrightarrow> p_state (procs s q) = RUNNABLE \<longrightarrow> p_state (procs t q) = RUNNABLE) \<and>
    (\<forall>q. did q (pmem s) \<longrightarrow> did q (pmem t))"
proof (cases "p_state (procs s p) = RUNNABLE")
  case True
  define u where "u = (proc_upd p (\<lambda>q. q\<lparr>p_state := RUNNING\<rparr>) (s\<lparr>held := {LProc p}\<rparr>))\<lparr>curproc := Some p\<rparr>"
  have u: "curproc u = Some p" "held u = {LProc p}" "pmem u = pmem s" "\<And>q. q \<noteq> p \<Longrightarrow> procs u q = procs s q"
    by (simp_all add: u_def proc_upd_def)
  from assms(1) u(1,2) have r: "held (run p u) = {LProc p}" "did p (pmem (run p u))"
    "\<And>q. q \<noteq> p \<Longrightarrow> p_state (procs u q) = RUNNABLE \<Longrightarrow> p_state (procs (run p u) q) = RUNNABLE"
    "\<And>q. did q (pmem u) \<Longrightarrow> did q (pmem (run p u))"
    unfolding switches_def by blast+
  have "scheduler_one run p s = Ok True ((run p u)\<lparr>curproc := None, held := {}\<rparr>)"
    using True assms(2) r(1) by (simp add: scheduler_one_def acquire_free release_held Let_def u_def)
  then show ?thesis using True r u(3,4) by auto
next
  case False
  then have "scheduler_one run p s = Ok False s"
    using assms(2) by (simp add: scheduler_one_def acquire_free release_held held_upd_id)
  then show ?thesis using False assms(2) by auto
qed

lemma scheduler_loop_runs:
  fixes s :: "'z kfile_scheme"
  assumes "switches run did" "held s = {}"
  shows "\<exists>f t. scheduler_loop run ps found s = Ok f t \<and> held t = {} \<and> (found \<longrightarrow> f) \<and>
    (\<forall>q. did q (pmem s) \<longrightarrow> did q (pmem t)) \<and>
    (\<forall>q\<in>set ps. p_state (procs s q) = RUNNABLE \<longrightarrow> f \<and> did q (pmem t))"
  using assms(2)
proof (induction ps arbitrary: found s)
  case Nil
  then show ?case by simp
next
  case (Cons p ps)
  obtain f t where t: "scheduler_one run p s = Ok f t" "held t = {}"
    "p_state (procs s p) = RUNNABLE \<longrightarrow> f \<and> did p (pmem t)"
    "\<forall>q. q \<noteq> p \<longrightarrow> p_state (procs s q) = RUNNABLE \<longrightarrow> p_state (procs t q) = RUNNABLE"
    "\<forall>q. did q (pmem s) \<longrightarrow> did q (pmem t)"
    using scheduler_one_runs [OF assms(1) Cons.prems, of p] by blast
  obtain g u where u: "scheduler_loop run ps (found \<or> f) t = Ok g u" "held u = {}" "found \<or> f \<longrightarrow> g"
    "\<forall>q. did q (pmem t) \<longrightarrow> did q (pmem u)"
    "\<forall>q\<in>set ps. p_state (procs t q) = RUNNABLE \<longrightarrow> g \<and> did q (pmem u)"
    using Cons.IH [OF t(2), of "found \<or> f"] by blast
  show ?case
    by (intro exI [of _ g] exI [of _ u]) (use t u in auto)
qed

lemma scheduler_runs:
  fixes s :: "'z kfile_scheme"
  assumes "switches run did" "held s = {}" "p < NPROC" "p_state (procs s p) = RUNNABLE"
  shows "\<exists>t. scheduler run s = Ok True t \<and> did p (pmem t)"
  using scheduler_loop_runs [OF assms(1), of "s\<lparr>curproc := None\<rparr>" "[0..<NPROC]" False] assms(2-4)
  by (auto simp: scheduler_def)

text \<open>
  A process that goes to sleep on a channel has given up its lock \<open>lk\<close> by the time another
  process can run; when that one then wakes the channel, under whatever locks, the sleeper is
  runnable, and once the locks are released the next round of the scheduler switches to it.
\<close>

theorem sleep_wakeup_run:
  fixes s u :: "'z kfile_scheme"
  assumes "curproc s = Some p" "p < NPROC" "held s = {lk}" "lk \<noteq> LProc p"
    and "curproc u = Some q" "q \<noteq> p" "\<forall>i. LProc i \<notin> held u" "switches run did"
  shows "\<exists>t. (sleep chn lk s :: (unit, 'z kfile_scheme) kres) = Block t \<and> lk \<notin> held t \<and>
    (procs u p = procs t p \<longrightarrow>
      (\<exists>v w. wakeup chn u = Ok () v \<and> held v = held u \<and> p_state (procs v p) = RUNNABLE \<and>
        scheduler run (v\<lparr>held := {}\<rparr>) = Ok True w \<and> did p (pmem w)))"
proof -
  define t where "t = s\<lparr>held := {LProc p}, procs := (procs s)(p := (procs s p)\<lparr>p_chan := Some chn, p_state := SLEEPING\<rparr>)\<rparr>"
  have t: "(sleep chn lk s :: (unit, 'z kfile_scheme) kres) = Block t" using sleep_eq [OF assms(1,3,4)] by (simp add: t_def)
  let ?v = "u\<lparr>procs := woken chn (curproc u) (procs u)\<rparr>"
  have w: "wakeup chn u = Ok () ?v" using assms(7) by (intro wakeup_eq) blast
  have "p_state (procs ?v p) = RUNNABLE" if "procs u p = procs t p"
    using that assms(2,5,6) by (simp add: woken_def t_def)
  then have "\<exists>x. scheduler run (?v\<lparr>held := {}\<rparr>) = Ok True x \<and> did p (pmem x)" "p_state (procs ?v p) = RUNNABLE" if "procs u p = procs t p"
    using that scheduler_runs [OF assms(8) _ assms(2), of "?v\<lparr>held := {}\<rparr>"] by simp_all
  then show ?thesis using t w assms(4) by (auto simp: t_def)
qed

text \<open>A process that writes its number at an address of its own and gives up the hart.\<close>

definition demo_run :: "nat \<Rightarrow> 'z kfile_scheme \<Rightarrow> 'z kfile_scheme" where
  "demo_run p s = proc_upd p (\<lambda>q. q\<lparr>p_state := RUNNABLE\<rparr>) (s\<lparr>pmem := (pmem s)(of_nat p := 1)\<rparr>)"

lemma demo_switches: "switches demo_run (\<lambda>p m. m (of_nat p) = 1)"
  by (simp add: switches_def demo_run_def proc_upd_def)

lemma sleep_wakeup_run_witness:
  "\<exists>t. (sleep ChTicks LTicks (demo_files\<lparr>held := {LTicks}\<rparr>) :: (unit, kfile) kres) = Block t \<and>
    (\<exists>v w. wakeup ChTicks (t\<lparr>held := {LTicks}, curproc := Some 1\<rparr>) = Ok () v \<and>
      scheduler demo_run (v\<lparr>held := {}\<rparr>) = Ok True w \<and> pmem w 0 = 1)"
proof -
  obtain t where t: "(sleep ChTicks LTicks (demo_files\<lparr>held := {LTicks}\<rparr>) :: (unit, kfile) kres) = Block t"
    using sleep_eq [of "demo_files\<lparr>held := {LTicks}\<rparr>" 0 LTicks ChTicks] by simp
  let ?u = "t\<lparr>held := {LTicks}, curproc := Some 1\<rparr>"
  have "\<exists>t'. (sleep ChTicks LTicks (demo_files\<lparr>held := {LTicks}\<rparr>) :: (unit, kfile) kres) = Block t' \<and> LTicks \<notin> held t' \<and>
    (procs ?u 0 = procs t' 0 \<longrightarrow>
      (\<exists>v w. wakeup ChTicks ?u = Ok () v \<and> held v = held ?u \<and> p_state (procs v 0) = RUNNABLE \<and>
        scheduler demo_run (v\<lparr>held := {}\<rparr>) = Ok True w \<and> pmem w (of_nat 0) = 1))"
    by (rule sleep_wakeup_run [OF _ _ _ _ _ _ _ demo_switches, where q = 1]) (simp_all add: NPROC_def)
  with t show ?thesis by auto
qed

section \<open>Waiting for a child\<close>

definition has_child :: "nat \<Rightarrow> 'z kprocs_scheme \<Rightarrow> bool" where
  "has_child p s \<longleftrightarrow> (\<exists>i<NPROC. p_parent (procs s i) = Some p)"

lemma kwait_scan_idle:
  fixes s :: "'z kfile_scheme"
  assumes "\<And>i. LProc i \<notin> held s" "\<forall>i\<in>set pps. p_parent (procs s i) = Some p \<longrightarrow> p_state (procs s i) \<noteq> ZOMBIE"
  shows "kwait_scan p addr pps hk s = Ok (None, hk \<or> (\<exists>i\<in>set pps. p_parent (procs s i) = Some p)) s"
  using assms(2)
  by (induction pps arbitrary: hk) (auto simp: acquire_free release_held assms(1) held_upd_id)

text \<open>
  \<open>wait\<close> without an exited child. It returns -1, with nothing changed, when the process has
  no child or has been killed; otherwise it sleeps on its own channel, the one that a child wakes
  when it exits, and \<open>wait_lock\<close>, under which it has looked, is given up only with that.
\<close>

theorem kwait_idle:
  fixes s :: "'z kfile_scheme"
  assumes "curproc s = Some p" "held s = {}"
    and "\<forall>i<NPROC. p_parent (procs s i) = Some p \<longrightarrow> p_state (procs s i) \<noteq> ZOMBIE"
  shows "if has_child p s \<and> p_killed (procs s p) = 0
    then \<exists>t. kwait addr s = Block t \<and> LWait \<notin> held t \<and> p_state (procs t p) = SLEEPING \<and>
      p_chan (procs t p) = Some (ChProc p)
    else kwait addr s = Ok (- 1) s"
proof -
  let ?s = "s\<lparr>held := {LWait}\<rparr>"
  have sc: "kwait_scan p addr [0..<NPROC] False ?s = Ok (None, has_child p s) ?s"
    using kwait_scan_idle [of ?s "[0..<NPROC]" p addr False] assms(3) by (auto simp: has_child_def)
  have k: "kwait addr s = kwait_round p addr ?s"
    using assms(1,2) by (simp add: kwait_def myproc_def acquire_free)
  show ?thesis
    using assms(1,2) unfolding k kwait_round_def sc
    by (auto simp: killed_eq release_held sleep_eq held_upd_id)
qed

lemma kwait_idle_witness:
  "kwait 0 demo_files = Ok (- 1) demo_files \<and>
    (\<exists>t. kwait 0 (proc_upd 3 (\<lambda>p. p\<lparr>p_parent := Some 0\<rparr>) demo_files) = Block t \<and> p_state (procs t 0) = SLEEPING)"
proof -
  have p: "p_parent demo_proc = None" "p_state demo_proc = RUNNING" by (simp_all add: demo_proc_def)
  have "\<not> has_child 0 demo_files" "has_child 0 (proc_upd 3 (\<lambda>p. p\<lparr>p_parent := Some 0\<rparr>) demo_files)"
    by (auto simp: has_child_def proc_upd_def p NPROC_def intro!: exI [of _ 3])
  moreover have "\<forall>i<NPROC. p_parent (procs (proc_upd 3 (\<lambda>p. p\<lparr>p_parent := Some 0\<rparr>) demo_files) i) = Some 0 \<longrightarrow>
      p_state (procs (proc_upd 3 (\<lambda>p. p\<lparr>p_parent := Some 0\<rparr>) demo_files) i) \<noteq> ZOMBIE"
    by (simp add: proc_upd_def p)
  ultimately show ?thesis
    using kwait_idle [of demo_files 0 0] p
      kwait_idle [of "proc_upd 3 (\<lambda>p. p\<lparr>p_parent := Some 0\<rparr>) demo_files" 0 0]
    by (auto simp: proc_upd_def)
qed

section \<open>Orphans\<close>

text \<open>
  A process before and after: with \<open>ip\<close> as its parent if \<open>c\<close>, and otherwise as it was, except
  that it is runnable if it slept on the channel of \<open>ip\<close>.
\<close>

definition orphaned :: "nat \<Rightarrow> bool \<Rightarrow> proc \<Rightarrow> proc \<Rightarrow> bool" where
  "orphaned ip c P Q \<longleftrightarrow> Q = P\<lparr>p_parent := (if c then Some ip else p_parent P), p_state := p_state Q\<rparr> \<and>
    (p_state Q = p_state P \<or> p_state P = SLEEPING \<and> p_chan P = Some (ChProc ip) \<and> p_state Q = RUNNABLE)"

lemma orphaned_refl: "orphaned ip False P P"
  by (simp add: orphaned_def)

lemma orphaned_parent: "orphaned ip False P Q \<Longrightarrow> orphaned ip True P (Q\<lparr>p_parent := Some ip\<rparr>)"
  by (cases P; cases Q) (auto simp: orphaned_def)

lemma orphaned_woken: "orphaned ip c P (ps i) \<Longrightarrow> orphaned ip c P (woken (ChProc ip) cur ps i)"
  by (cases P; cases "ps i") (auto simp: orphaned_def woken_def)

lemma orphaned_fields:
  assumes "orphaned ip c P Q"
  shows "p_parent Q = (if c then Some ip else p_parent P)"
proof -
  have "Q = P\<lparr>p_parent := (if c then Some ip else p_parent P), p_state := p_state Q\<rparr>"
    using assms by (simp add: orphaned_def)
  from arg_cong [OF this, of p_parent] show ?thesis by simp
qed

lemma reparent_step:
  fixes s t :: "'z kfile_scheme"
  assumes "held t = {LWait}" "initproc t = Some ip"
    and "\<And>i. orphaned ip (i < k \<and> p_parent (procs s i) = Some p) (procs s i) (procs t i)"
  shows "wp (reparent_one p k t) (\<lambda>_ u. held u = {LWait} \<and> initproc u = Some ip \<and>
    (\<forall>i. orphaned ip (i < Suc k \<and> p_parent (procs s i) = Some p) (procs s i) (procs u i)))"
proof (cases "p_parent (procs t k) = Some p")
  case True
  have pk: "p_parent (procs s k) = Some p" "orphaned ip False (procs s k) (procs t k)"
    using assms(3) [of k] True orphaned_fields [OF assms(3) [of k]] by simp_all
  define u where "u = proc_upd k (\<lambda>q. q\<lparr>p_parent := Some ip\<rparr>) t"
  have w: "wakeup (ChProc ip) u = Ok () (u\<lparr>procs := woken (ChProc ip) (curproc u) (procs u)\<rparr>)"
    using assms(1) by (intro wakeup_eq) (simp add: u_def proc_upd_def)
  have "orphaned ip (i < Suc k \<and> p_parent (procs s i) = Some p) (procs s i) (procs u i)" for i
  proof (cases "i = k")
    case True
    then show ?thesis using pk orphaned_parent [OF pk(2)] by (simp add: u_def proc_upd_def)
  next
    case False
    then show ?thesis using assms(3) [of i] by (simp add: u_def proc_upd_def less_Suc_eq)
  qed
  then have "\<forall>i. orphaned ip (i < Suc k \<and> p_parent (procs s i) = Some p) (procs s i)
      (woken (ChProc ip) (curproc u) (procs u) i)"
    using orphaned_woken by blast
  moreover have "held u = {LWait}" "initproc u = Some ip" using assms(1,2) by (simp_all add: u_def proc_upd_def)
  ultimately show ?thesis
    using True w assms(2) by (simp add: reparent_one_def wakeup_proc_def Let_def u_def [symmetric] wp_simps)
next
  case False
  have "p_parent (procs s k) \<noteq> Some p"
    using False orphaned_fields [OF assms(3) [of k]] by simp
  then have "orphaned ip (i < Suc k \<and> p_parent (procs s i) = Some p) (procs s i) (procs t i)" for i
    using assms(3) [of i] by (cases "i = k") (simp_all add: less_Suc_eq)
  then show ?thesis using False assms(1,2) by (simp add: reparent_one_def wp_simps)
qed

text \<open>
  When a process exits, \<open>reparent\<close> gives each of its children, and no other process, to
  \<open>init\<close>; no process changes otherwise, except that \<open>init\<close> is woken if it was waiting.
\<close>

theorem reparent_children:
  fixes s :: "'z kfile_scheme"
  assumes "held s = {LWait}" "initproc s = Some ip"
  shows "\<exists>t. reparent p s = Ok () t \<and>
    (\<forall>i. orphaned ip (i < NPROC \<and> p_parent (procs s i) = Some p) (procs s i) (procs t i))"
proof -
  have "wp (reparent p s) (\<lambda>_ t. held t = {LWait} \<and> initproc t = Some ip \<and>
    (\<forall>i. orphaned ip (i < length [0..<NPROC] \<and> p_parent (procs s i) = Some p) (procs s i) (procs t i)))"
    unfolding reparent_def
  proof (rule wp_foreach [where I = "\<lambda>ys t. held t = {LWait} \<and> initproc t = Some ip \<and>
      (\<forall>i. orphaned ip (i < length ys \<and> p_parent (procs s i) = Some p) (procs s i) (procs t i))"])
    fix ys k zs and t :: "'z kfile_scheme"
    assume x: "[0..<NPROC] = ys @ k # zs" and i: "held t = {LWait} \<and> initproc t = Some ip \<and>
      (\<forall>i. orphaned ip (i < length ys \<and> p_parent (procs s i) = Some p) (procs s i) (procs t i))"
    have l: "length ys < NPROC" using arg_cong [OF x, of length] by simp
    have "[0..<NPROC] ! length ys = k" unfolding x by simp
    then have "k = length ys" using l by simp
    moreover have "length (ys @ [k]) = Suc (length ys)" by simp
    ultimately show "wp (reparent_one p k t) (\<lambda>_ t. held t = {LWait} \<and> initproc t = Some ip \<and>
      (\<forall>i. orphaned ip (i < length (ys @ [k]) \<and> p_parent (procs s i) = Some p) (procs s i) (procs t i)))"
      using reparent_step [of t ip "length ys" s p] i by simp
  qed (use assms in \<open>simp add: orphaned_refl\<close>)
  then show ?thesis by (auto simp: wp_iff)
qed

lemma reparent_children_witness:
  "\<exists>t. reparent 2 (proc_upd 3 (\<lambda>p. p\<lparr>p_parent := Some 2\<rparr>) (demo_files\<lparr>held := {LWait}\<rparr>)) = Ok () t \<and>
    p_parent (procs t 3) = Some 0 \<and> p_parent (procs t 4) = None"
proof -
  let ?s = "proc_upd 3 (\<lambda>p. p\<lparr>p_parent := Some 2\<rparr>) (demo_files\<lparr>held := {LWait}\<rparr>)"
  have "held ?s = {LWait}" "initproc ?s = Some 0" by (simp_all add: proc_upd_def demo_files_def)
  from reparent_children [OF this, of 2] obtain t where t: "reparent 2 ?s = Ok () t"
    "\<And>i. orphaned 0 (i < NPROC \<and> p_parent (procs ?s i) = Some 2) (procs ?s i) (procs t i)" by blast
  have "p_parent (procs ?s 3) = Some 2" "p_parent (procs ?s 4) = None"
    by (simp_all add: proc_upd_def demo_proc_def)
  then show ?thesis
    using t(1) orphaned_fields [OF t(2) [of 3]] orphaned_fields [OF t(2) [of 4]] by (simp add: NPROC_def)
qed

end
