(* ===== verification/Wakeup.thy ===== *)
theory Wakeup
  imports Procflow
begin

text \<open>
  \<open>sleep\<close> and \<open>wakeup\<close> of \<^verbatim>\<open>kernel/proc.c\<close> on several harts: any number of processes wait for a condition
  under a lock, any number of others make it true and wake them, and their steps are interleaved
  between any two accesses to a lock or to the process table. No wakeup is lost.
\<close>

section \<open>Threads\<close>

text \<open>
  What a thread does next: a step of the code of Sched; the condition changed; the test at the
  head of the loop around \<open>sleep\<close>; in \<open>sched\<close>, the switch to the scheduler, which gives up
  \<open>p->lock\<close> for the process; and the switch back, by a scheduler that has taken \<open>p->lock\<close> and found
  the process runnable.
\<close>

datatype tstep = Do lstep | SetCond bool | Test | Switch | Resume

record wstate =
  tbl :: "nat \<Rightarrow> proc"
  owner :: "lockid \<Rightarrow> nat option"
  cnd :: bool
  todo :: "nat \<Rightarrow> tstep list"

text \<open>One round of the loop from \<open>sleep\<close> on, and what is left of \<open>wakeup\<close> from entry \<open>i\<close> of the table on.\<close>

definition sleep_round :: "lockid \<Rightarrow> chan \<Rightarrow> nat \<Rightarrow> tstep list" where
  "sleep_round lk chn p = map Do (sleep_code p chn lk) @ [Switch, Resume] @ map Do (sleep_return_code p lk) @ [Test]"

definition wakes :: "lockid \<Rightarrow> chan \<Rightarrow> nat \<Rightarrow> nat \<Rightarrow> tstep list" where
  "wakes lk chn q i = concat (map (\<lambda>i. if i = q then [] else map Do (wakeup_code i chn)) [i..<NPROC]) @ [Do (Release lk)]"

text \<open>These are the steps that \<open>wakeup\<close> of Sched runs, and then the caller's release of the lock.\<close>

lemma run_step_cur: "foreach run_step xs s = Ok () t \<Longrightarrow> curproc t = curproc s"
proof (induction xs arbitrary: s)
  case (Cons x xs)
  then obtain u where "run_step x s = Ok () u" "foreach run_step xs u = Ok () t" by (cases "run_step x s") auto
  moreover from this(1) have "curproc u = curproc s" by (cases x) (auto simp: acquire_def release_def split: if_splits)
  ultimately show ?case using Cons.IH by simp
qed simp

lemma wakeup_wakes:
  assumes "curproc s = Some q"
  shows "\<exists>ws. wakes lk chn q 0 = map Do (ws @ [Release lk]) \<and> wakeup chn s = foreach run_step ws s"
proof -
  let ?f = "\<lambda>i. if i = q then [] else wakeup_code i chn"
  have "foreach (wakeup_one chn) js s = foreach run_step (concat (map ?f js)) s" for js
    using assms
  proof (induction js arbitrary: s)
    case (Cons i js)
    have "wakeup_one chn i s = foreach run_step (?f i) s" using Cons.prems by (auto simp: wakeup_one_def)
    moreover have "foreach (wakeup_one chn) js u = foreach run_step (concat (map ?f js)) u"
      if "foreach run_step (?f i) s = Ok () u" for u
      using Cons run_step_cur [OF that] by simp
    ultimately show ?case by (cases "foreach run_step (?f i) s") (simp_all add: foreach_append)
  qed simp
  moreover have "wakes lk chn q 0 = map Do (concat (map ?f [0..<NPROC]) @ [Release lk])"
    by (simp add: wakes_def map_concat comp_def if_distrib cong: if_cong)
  ultimately show ?thesis unfolding wakeup_def by blast
qed

text \<open>
  A thread that has nothing to do may begin to wait, or to make the condition true and wake the
  waiting processes. One that finds the condition true may make it false again before it
  releases the lock, as a reader that empties a buffer does.
\<close>

inductive wstep :: "lockid \<Rightarrow> chan \<Rightarrow> wstate \<Rightarrow> wstate \<Rightarrow> bool" for lk chn where
  wait: "p < NPROC \<Longrightarrow> todo c p = [] \<Longrightarrow> wstep lk chn c (c\<lparr>todo := (todo c)(p := [Do (Acquire lk), Test])\<rparr>)"
| waker: "p < NPROC \<Longrightarrow> todo c p = [] \<Longrightarrow>
    wstep lk chn c (c\<lparr>todo := (todo c)(p := Do (Acquire lk) # SetCond True # wakes lk chn p 0)\<rparr>)"
| acquire: "todo c p = Do (Acquire l) # xs \<Longrightarrow> owner c l = None \<Longrightarrow>
    wstep lk chn c (c\<lparr>owner := (owner c)(l := Some p), todo := (todo c)(p := xs)\<rparr>)"
| release: "todo c p = Do (Release l) # xs \<Longrightarrow> owner c l = Some p \<Longrightarrow>
    wstep lk chn c (c\<lparr>owner := (owner c)(l := None), todo := (todo c)(p := xs)\<rparr>)"
| change: "todo c p = Do x # xs \<Longrightarrow> \<forall>l. x \<noteq> Acquire l \<and> x \<noteq> Release l \<Longrightarrow>
    wstep lk chn c (c\<lparr>tbl := step_procs x (tbl c), todo := (todo c)(p := xs)\<rparr>)"
| cond: "todo c p = SetCond b # xs \<Longrightarrow> wstep lk chn c (c\<lparr>cnd := b, todo := (todo c)(p := xs)\<rparr>)"
| leave: "todo c p = Test # xs \<Longrightarrow> cnd c \<Longrightarrow> ys = [Do (Release lk)] \<or> ys = [SetCond False, Do (Release lk)] \<Longrightarrow>
    wstep lk chn c (c\<lparr>todo := (todo c)(p := ys)\<rparr>)"
| again: "todo c p = Test # xs \<Longrightarrow> \<not> cnd c \<Longrightarrow> wstep lk chn c (c\<lparr>todo := (todo c)(p := sleep_round lk chn p)\<rparr>)"
| switch: "todo c p = Switch # xs \<Longrightarrow> owner c (LProc p) = Some p \<Longrightarrow>
    wstep lk chn c (c\<lparr>owner := (owner c)(LProc p := None), todo := (todo c)(p := xs)\<rparr>)"
| resume: "todo c p = Resume # xs \<Longrightarrow> owner c (LProc p) = None \<Longrightarrow> p_state (tbl c p) = RUNNABLE \<Longrightarrow>
    wstep lk chn c (c\<lparr>owner := (owner c)(LProc p := Some p),
      tbl := (tbl c)(p := (tbl c p)\<lparr>p_state := RUNNING\<rparr>), todo := (todo c)(p := xs)\<rparr>)"

inductive wreach :: "lockid \<Rightarrow> chan \<Rightarrow> wstate \<Rightarrow> bool" for lk chn where
  start: "\<forall>p. todo c p = [] \<Longrightarrow> \<forall>l. owner c l = None \<Longrightarrow> wreach lk chn c"
| step: "wreach lk chn c \<Longrightarrow> wstep lk chn c d \<Longrightarrow> wreach lk chn d"

section \<open>The discipline of the locks\<close>

text \<open>The locks that a thread with the program \<open>xs\<close> left must hold, for it releases them first.\<close>

fun owes :: "lockid \<Rightarrow> nat \<Rightarrow> tstep list \<Rightarrow> lockid set" where
  "owes lk p [] = {}"
| "owes lk p (Do (Acquire l) # xs) = owes lk p xs - {l}"
| "owes lk p (Do (Release l) # xs) = insert l (owes lk p xs)"
| "owes lk p (Test # xs) = insert lk (owes lk p xs)"
| "owes lk p (Switch # xs) = insert (LProc p) (owes lk p xs)"
| "owes lk p (Resume # xs) = owes lk p xs - {LProc p}"
| "owes lk p (x # xs) = owes lk p xs"

text \<open>
  Locks are taken and released in turn; the table is changed only under \<open>p->lock\<close>, the condition
  and, by a waker, the state of another process only under the lock of the condition as well; and
  who makes it true wakes every other process afterwards.
\<close>

fun proper :: "lockid \<Rightarrow> chan \<Rightarrow> nat \<Rightarrow> tstep list \<Rightarrow> bool" where
  "proper lk chn p [] \<longleftrightarrow> True"
| "proper lk chn p (Do (Acquire l) # xs) \<longleftrightarrow> l \<in> owes lk p xs \<and> proper lk chn p xs"
| "proper lk chn p (Do (Release l) # xs) \<longleftrightarrow> l \<notin> owes lk p xs \<and> proper lk chn p xs"
| "proper lk chn p (Do (SetChan i c) # xs) \<longleftrightarrow> i = p \<and> LProc p \<in> owes lk p xs \<and> proper lk chn p xs"
| "proper lk chn p (Do (SetState i st) # xs) \<longleftrightarrow> i = p \<and> LProc p \<in> owes lk p xs \<and> proper lk chn p xs"
| "proper lk chn p (Do (Wake i c) # xs) \<longleftrightarrow> i \<noteq> p \<and> c = chn \<and> LProc i \<in> owes lk p xs \<and> lk \<in> owes lk p xs \<and> proper lk chn p xs"
| "proper lk chn p (SetCond b # xs) \<longleftrightarrow> lk \<in> owes lk p xs \<and> Resume \<notin> set xs \<and>
    (b \<longrightarrow> (\<forall>i<NPROC. i \<noteq> p \<longrightarrow> Do (Wake i chn) \<in> set xs)) \<and> proper lk chn p xs"
| "proper lk chn p (Test # xs) \<longleftrightarrow> xs = []"
| "proper lk chn p (Switch # xs) \<longleftrightarrow> LProc p \<notin> owes lk p xs \<and> proper lk chn p xs"
| "proper lk chn p (Resume # xs) \<longleftrightarrow> LProc p \<in> owes lk p xs \<and> proper lk chn p xs"

lemma wakes_unfold:
  "i < NPROC \<Longrightarrow> wakes lk chn q i = (if i = q then [] else map Do (wakeup_code i chn)) @ wakes lk chn q (Suc i)"
  "wakes lk chn q NPROC = [Do (Release lk)]"
  by (simp_all add: wakes_def upt_conv_Cons)

lemma wakes_proper:
  assumes "\<forall>i. lk \<noteq> LProc i" "i \<le> NPROC"
  shows "proper lk chn q (wakes lk chn q i) \<and> owes lk q (wakes lk chn q i) = {lk}"
  using assms(2)
proof (induction "NPROC - i" arbitrary: i)
  case 0
  then have "i = NPROC" by simp
  then show ?case by (simp add: wakes_unfold)
next
  case (Suc k)
  then have i: "i < NPROC" by simp
  have "proper lk chn q (wakes lk chn q (Suc i)) \<and> owes lk q (wakes lk chn q (Suc i)) = {lk}"
    by (rule Suc.hyps(1)) (use Suc.hyps(2) i in auto)
  then show ?case using i assms(1) by (auto simp: wakes_unfold wakeup_code_def)
qed

lemma wakes_all: "i < NPROC \<Longrightarrow> i \<noteq> q \<Longrightarrow> Do (Wake i chn) \<in> set (wakes lk chn q 0)"
  by (force simp: wakes_def wakeup_code_def)

lemma wakes_no_resume: "Resume \<notin> set (wakes lk chn q i)"
  by (auto simp: wakes_def wakeup_code_def)

lemma sleep_round_proper:
  assumes "\<forall>i. lk \<noteq> LProc i"
  shows "proper lk chn p (sleep_round lk chn p)" "owes lk p (sleep_round lk chn p) = {lk}"
  using assms by (auto simp: sleep_round_def sleep_code_def sleep_return_code_def)

text \<open>Every lock has the owner that owes it.\<close>

definition locks_ok :: "lockid \<Rightarrow> chan \<Rightarrow> wstate \<Rightarrow> bool" where
  "locks_ok lk chn c \<longleftrightarrow> (\<forall>p. proper lk chn p (todo c p) \<and> (\<forall>l. owner c l = Some p \<longleftrightarrow> l \<in> owes lk p (todo c p)))"

lemma one_owner: "locks_ok lk chn c \<Longrightarrow> l \<in> owes lk p (todo c p) \<Longrightarrow> l \<in> owes lk q (todo c q) \<Longrightarrow> p = q"
  unfolding locks_ok_def by (metis option.inject)

lemma locks_ok_step:
  assumes "wstep lk chn c d" "locks_ok lk chn c" "\<forall>i. lk \<noteq> LProc i"
  shows "locks_ok lk chn d"
  using assms(1)
proof cases
  case (change p x xs)
  have "proper lk chn p (Do x # xs)" using assms(2) change(2) unfolding locks_ok_def by metis
  then have "proper lk chn p xs \<and> owes lk p xs = owes lk p (todo c p)" using change(2,3) by (cases x) auto
  then show ?thesis using assms(2) change(1) by (auto simp: locks_ok_def)
next
  case (cond p b xs)
  have "proper lk chn p (SetCond b # xs)" using assms(2) cond(2) unfolding locks_ok_def by metis
  then show ?thesis using assms(2) cond unfolding locks_ok_def by auto
next
  case (waker p)
  then show ?thesis
    using assms(2,3) wakes_proper [OF assms(3) le0] wakes_all wakes_no_resume unfolding locks_ok_def by auto
next
  case (again p xs)
  have "xs = []" using assms(2) again(2) unfolding locks_ok_def by (metis proper.simps(8))
  then show ?thesis using assms(2) again sleep_round_proper [OF assms(3)] unfolding locks_ok_def by auto
next
  case (leave p xs ys)
  have "xs = []" using assms(2) leave(2) unfolding locks_ok_def by (metis proper.simps(8))
  then show ?thesis using assms(2) leave unfolding locks_ok_def by auto
next
  case (acquire p l xs)
  have "proper lk chn p (Do (Acquire l) # xs)" using assms(2) acquire(2) unfolding locks_ok_def by metis
  moreover have "l \<notin> owes lk q (todo c q)" for q using assms(2) acquire(3) unfolding locks_ok_def by (metis option.distinct(1))
  ultimately show ?thesis using assms(2) acquire unfolding locks_ok_def by (auto split: if_splits)
next
  case (release p l xs)
  have "proper lk chn p (Do (Release l) # xs)" using assms(2) release(2) unfolding locks_ok_def by metis
  moreover have "l \<notin> owes lk q (todo c q)" if "q \<noteq> p" for q using that assms(2) release(3) unfolding locks_ok_def by (metis option.inject)
  ultimately show ?thesis using assms(2) release unfolding locks_ok_def by (auto split: if_splits)
next
  case (switch p xs)
  have "proper lk chn p (Switch # xs)" using assms(2) switch(2) unfolding locks_ok_def by metis
  moreover have "LProc p \<notin> owes lk q (todo c q)" if "q \<noteq> p" for q using that assms(2) switch(3) unfolding locks_ok_def by (metis option.inject)
  ultimately show ?thesis using assms(2) switch unfolding locks_ok_def by (auto split: if_splits)
next
  case (resume p xs)
  have "proper lk chn p (Resume # xs)" using assms(2) resume(2) unfolding locks_ok_def by metis
  moreover have "LProc p \<notin> owes lk q (todo c q)" for q using assms(2) resume(3) unfolding locks_ok_def by (metis option.distinct(1))
  ultimately show ?thesis using assms(2) resume unfolding locks_ok_def by (auto split: if_splits)
next
  case (wait p)
  then show ?thesis using assms(2) unfolding locks_ok_def by auto
qed

section \<open>Sleepers\<close>

definition wake_due :: "chan \<Rightarrow> wstate \<Rightarrow> nat \<Rightarrow> bool" where
  "wake_due chn c p \<longleftrightarrow> (\<exists>q. Do (Wake p chn) \<in> set (todo c q))"

text \<open>
  The process \<open>p\<close> has found the condition false and is \<open>k\<close> steps on its way through \<open>sleep\<close>; 5 steps
  on it is off its hart. From the second step on, the condition can become true, but then a
  wakeup of \<open>p\<close> is still to come, or has come after the switch.
\<close>

definition sleeper :: "lockid \<Rightarrow> chan \<Rightarrow> wstate \<Rightarrow> nat \<Rightarrow> nat \<Rightarrow> bool" where
  "sleeper lk chn c p k \<longleftrightarrow> todo c p = drop k (sleep_round lk chn p) \<and> p < NPROC \<and> (k \<le> 1 \<longrightarrow> \<not> cnd c) \<and>
    (3 \<le> k \<longrightarrow> p_chan (tbl c p) = Some chn) \<and> (k = 4 \<longrightarrow> p_state (tbl c p) = SLEEPING) \<and>
    (k = 5 \<longrightarrow> p_state (tbl c p) \<in> {SLEEPING, RUNNABLE}) \<and>
    (cnd c \<longrightarrow> wake_due chn c p \<or> k = 5 \<and> p_state (tbl c p) = RUNNABLE)"

lemma sleep_round_list:
  "sleep_round lk chn p = [Do (Acquire (LProc p)), Do (Release lk), Do (SetChan p (Some chn)), Do (SetState p SLEEPING),
    Switch, Resume, Do (SetChan p None), Do (Release (LProc p)), Do (Acquire lk), Test]"
  by (simp add: sleep_round_def sleep_code_def sleep_return_code_def)

lemma sleeper_locks:
  assumes "sleeper lk chn c p k" "k \<le> 5" "\<forall>i. lk \<noteq> LProc i"
  shows "k \<le> 1 \<longleftrightarrow> lk \<in> owes lk p (todo c p)" "k \<in> {1..4} \<longleftrightarrow> LProc p \<in> owes lk p (todo c p)"
proof -
  have "k \<in> {0, 1, 2, 3, 4, 5}" using assms(2) by auto
  moreover have "todo c p = drop k (sleep_round lk chn p)" using assms(1) by (simp add: sleeper_def)
  ultimately have "(k \<le> 1 \<longleftrightarrow> lk \<in> owes lk p (todo c p)) \<and> (k \<in> {1..4} \<longleftrightarrow> LProc p \<in> owes lk p (todo c p))"
    using assms(3) unfolding sleep_round_list by (elim insertE emptyE; simp)
  then show "k \<le> 1 \<longleftrightarrow> lk \<in> owes lk p (todo c p)" "k \<in> {1..4} \<longleftrightarrow> LProc p \<in> owes lk p (todo c p)" by blast+
qed

lemma sleeper_frame:
  "sleeper lk chn c p k \<Longrightarrow> todo d p = todo c p \<Longrightarrow> tbl d p = tbl c p \<Longrightarrow> cnd d = cnd c \<Longrightarrow>
    (wake_due chn c p \<Longrightarrow> wake_due chn d p) \<Longrightarrow> sleeper lk chn d p k"
  by (auto simp: sleeper_def)

lemma wake_due_upd:
  assumes "todo d = (todo c)(q := ys)" "Do (Wake p chn) \<in> set (todo c q) \<Longrightarrow> Do (Wake p chn) \<in> set ys" "wake_due chn c p"
  shows "wake_due chn d p"
proof -
  obtain r where r: "Do (Wake p chn) \<in> set (todo c r)" using assms(3) by (auto simp: wake_due_def)
  show ?thesis unfolding wake_due_def by (rule exI [of _ r]) (use r assms(1,2) in auto)
qed

text \<open>A step of another thread.\<close>

lemma sleeper_other:
  assumes "wstep lk chn c d" "todo d p = todo c p" "locks_ok lk chn c" "\<forall>i. lk \<noteq> LProc i" "sleeper lk chn c p k" "k \<le> 5"
  shows "sleeper lk chn d p k"
  using assms(1)
proof cases
  case (change q x xs)
  have q: "q \<noteq> p" using change assms(2) by auto
  have pr: "proper lk chn q (Do x # xs)" using assms(3) change(2) unfolding locks_ok_def by metis
  show ?thesis
  proof (cases "x = Wake p chn")
    case True
    then have "LProc p \<in> owes lk q (todo c q)" "lk \<in> owes lk q (todo c q)" using pr change(2) by auto
    then have "LProc p \<notin> owes lk p (todo c p)" "lk \<notin> owes lk p (todo c p)" using one_owner [OF assms(3)] q by blast+
    then have "k = 5" using sleeper_locks [OF assms(5,6,4)] assms(6) by auto
    then show ?thesis using assms(2,5) change True by (auto simp: sleeper_def)
  next
    case False
    then have t: "step_procs x (tbl c) p = tbl c p" using pr q change(3) by (cases x) auto
    show ?thesis
      by (rule sleeper_frame [OF assms(5,2)], use t change(1) in simp_all) (rule wake_due_upd [of _ _ q xs], use change False in auto)
  qed
next
  case (cond q b xs)
  have q: "q \<noteq> p" using cond assms(2) by auto
  have pr: "proper lk chn q (SetCond b # xs)" using assms(3) cond(2) unfolding locks_ok_def by metis
  then have "lk \<in> owes lk q (todo c q)" using cond(2) by simp
  then have "\<not> k \<le> 1" using one_owner [OF assms(3)] q sleeper_locks [OF assms(5,6,4)] by blast
  moreover have "b \<Longrightarrow> wake_due chn d p"
    using pr q cond assms(5) unfolding wake_due_def sleeper_def by (auto intro!: exI [of _ q])
  ultimately show ?thesis using assms(2,5) cond(1) by (auto simp: sleeper_def)
next
  case (wait q)
  then show ?thesis using wake_due_upd [of d c q] by (intro sleeper_frame [OF assms(5,2)]) auto
next
  case (waker q)
  then show ?thesis using wake_due_upd [of d c q] by (intro sleeper_frame [OF assms(5,2)]) auto
next
  case (acquire q l xs)
  then show ?thesis using wake_due_upd [of d c q xs] by (intro sleeper_frame [OF assms(5,2)]) auto
next
  case (release q l xs)
  then show ?thesis using wake_due_upd [of d c q xs] by (intro sleeper_frame [OF assms(5,2)]) auto
next
  case (leave q xs ys)
  have "xs = []" using assms(3) leave(2) unfolding locks_ok_def by (metis proper.simps(8))
  then show ?thesis using leave assms(2) wake_due_upd [of d c q ys] by (intro sleeper_frame [OF assms(5,2)]) auto
next
  case (again q xs)
  have "xs = []" using assms(3) again(2) unfolding locks_ok_def by (metis proper.simps(8))
  then show ?thesis using again assms(2) wake_due_upd [of d c q "sleep_round lk chn q"] by (intro sleeper_frame [OF assms(5,2)]) auto
next
  case (switch q xs)
  then show ?thesis using wake_due_upd [of d c q xs] by (intro sleeper_frame [OF assms(5,2)]) auto
next
  case (resume q xs)
  then have "q \<noteq> p" using assms(2) by auto
  then show ?thesis using resume wake_due_upd [of d c q xs] by (intro sleeper_frame [OF assms(5,2)]) auto
qed

text \<open>A step of the process itself.\<close>

lemma sleeper_next:
  assumes "sleeper lk chn c p k" "k \<le> 5" "todo c p = x # xs" "Resume \<in> set xs" "todo d = (todo c)(p := xs)"
    and "cnd d = cnd c" "tbl d = (case x of Do y \<Rightarrow> step_procs y (tbl c) | _ \<Rightarrow> tbl c)"
  shows "k < 5 \<and> sleeper lk chn d p (Suc k)"
proof -
  have k: "k \<in> {0, 1, 2, 3, 4, 5}" using assms(2) by auto
  have S: "x # xs = drop k (sleep_round lk chn p)" using assms(1,3) by (simp add: sleeper_def)
  then have x: "x \<noteq> Do (Wake p chn)" using k unfolding sleep_round_list by (elim insertE emptyE) simp_all
  have pend: "wake_due chn d p" if "wake_due chn c p"
    by (rule wake_due_upd [OF assms(5) _ that]) (use assms(3) x in auto)
  have "k < 5 \<and> xs = drop (Suc k) (sleep_round lk chn p)"
    using S assms(4) k unfolding sleep_round_list by (elim insertE emptyE) simp_all
  moreover have "k \<noteq> 5 \<Longrightarrow> (Suc k \<le> 1 \<longrightarrow> \<not> cnd d) \<and> (3 \<le> Suc k \<longrightarrow> p_chan (tbl d p) = Some chn) \<and>
    (Suc k = 4 \<longrightarrow> p_state (tbl d p) = SLEEPING) \<and> (Suc k = 5 \<longrightarrow> p_state (tbl d p) = SLEEPING)"
    using k S assms(1,6,7) unfolding sleep_round_list sleeper_def by (elim insertE emptyE) simp_all
  moreover have "cnd d \<longrightarrow> wake_due chn d p" using assms(1,6) pend calculation(1) unfolding sleeper_def by auto
  ultimately show ?thesis using assms(1,5) by (simp add: sleeper_def)
qed

definition winv :: "lockid \<Rightarrow> chan \<Rightarrow> wstate \<Rightarrow> bool" where
  "winv lk chn c \<longleftrightarrow> locks_ok lk chn c \<and> (\<forall>p. todo c p \<noteq> [] \<longrightarrow> p < NPROC) \<and>
    (\<forall>p. Resume \<in> set (todo c p) \<longrightarrow> (\<exists>k\<le>5. sleeper lk chn c p k))"

lemma sleeper_own:
  assumes "wstep lk chn c d" "winv lk chn c" "Resume \<in> set (todo d p)" "todo d p \<noteq> todo c p"
  shows "\<exists>k\<le>5. sleeper lk chn d p k"
proof -
  have nx: "\<exists>k\<le>5. sleeper lk chn d p k" if "todo c p = x # xs" "todo d = (todo c)(p := xs)" "cnd d = cnd c"
      "tbl d = (case x of Do y \<Rightarrow> step_procs y (tbl c) | _ \<Rightarrow> tbl c)" for x xs
  proof -
    have r: "Resume \<in> set xs" using assms(3) that(2) by simp
    then have "Resume \<in> set (todo c p)" using that(1) by simp
    then obtain k where "k \<le> 5" "sleeper lk chn c p k" using assms(2) unfolding winv_def by blast
    from sleeper_next [OF this(2,1) that(1) r that(2-4)] show ?thesis by (metis Suc_leI)
  qed
  show ?thesis
    using assms(1)
  proof cases
    case (acquire q l xs)
    moreover have "q = p" using acquire assms(4) by (cases "q = p") simp_all
    ultimately show ?thesis by (intro nx [of "Do (Acquire l)" xs]) simp_all
  next
    case (release q l xs)
    moreover have "q = p" using release assms(4) by (cases "q = p") simp_all
    ultimately show ?thesis by (intro nx [of "Do (Release l)" xs]) simp_all
  next
    case (change q x xs)
    moreover have "q = p" using change assms(4) by (cases "q = p") simp_all
    ultimately show ?thesis by (intro nx [of "Do x" xs]) simp_all
  next
    case (switch q xs)
    moreover have "q = p" using switch assms(4) by (cases "q = p") simp_all
    ultimately show ?thesis by (intro nx [of "Switch" xs]) simp_all
  next
    case (again q xs)
    then have q: "q = p" using assms(4) by (cases "q = p") auto
    have "p < NPROC" using assms(2) again(2) q unfolding winv_def by auto
    then have "sleeper lk chn d p 0" using again q by (simp add: sleeper_def)
    then show ?thesis by blast
  next
    case (cond q b xs)
    have "proper lk chn q (SetCond b # xs)" using assms(2) cond(2) unfolding winv_def locks_ok_def by metis
    then show ?thesis using assms(3,4) cond by (cases "q = p") auto
  next
    case (resume q xs)
    show ?thesis
    proof (cases "q = p")
      case True
      then have "Resume \<in> set (todo c p)" using resume(2) by simp
      then obtain k where "k \<le> 5" "sleeper lk chn c p k" using assms(2) unfolding winv_def by blast
      then have "k \<in> {0, 1, 2, 3, 4, 5}" "Resume # xs = drop k (sleep_round lk chn p)"
        using resume(2) True by (auto simp: sleeper_def)
      then have "Resume \<notin> set xs" unfolding sleep_round_list by (elim insertE emptyE) simp_all
      then show ?thesis using assms(3) resume(1) True by simp
    qed (use assms(4) resume in auto)
  next
    case (waker q)
    then show ?thesis using assms(3,4) wakes_no_resume by (cases "q = p") auto
  qed (use assms(3,4) in \<open>auto split: if_splits\<close>)
qed

lemma winv_step:
  assumes "wstep lk chn c d" "winv lk chn c" "\<forall>i. lk \<noteq> LProc i"
  shows "winv lk chn d"
proof -
  have L: "locks_ok lk chn c" using assms(2) by (simp add: winv_def)
  have "p < NPROC" if "todo d p \<noteq> []" for p
    using assms(1)
  proof cases
  qed (use that assms(2) in \<open>auto simp: winv_def split: if_splits\<close>)
  moreover have "\<exists>k\<le>5. sleeper lk chn d p k" if "Resume \<in> set (todo d p)" for p
  proof (cases "todo d p = todo c p")
    case True
    then have "Resume \<in> set (todo c p)" using that by simp
    then obtain k where "k \<le> 5" "sleeper lk chn c p k" using assms(2) unfolding winv_def by blast
    then show ?thesis using sleeper_other [OF assms(1) True L assms(3)] by blast
  next
    case False
    then show ?thesis using sleeper_own [OF assms(1,2) that] by blast
  qed
  ultimately show ?thesis using locks_ok_step [OF assms(1) L assms(3)] by (simp add: winv_def)
qed

lemma winv_reach: "wreach lk chn c \<Longrightarrow> \<forall>i. lk \<noteq> LProc i \<Longrightarrow> winv lk chn c"
proof (induction rule: wreach.induct)
  case (start c)
  then show ?case by (simp add: winv_def locks_ok_def)
next
  case (step c d)
  then show ?case using winv_step by blast
qed

section \<open>No wakeup is lost\<close>

text \<open>
  C25: no wakeup is lost. However the steps of any number of processes that wait for a condition
  and of others that make it true and wake them are interleaved: when the condition holds and
  every waker has passed the entry of \<open>p\<close>, a process \<open>p\<close> that has found the condition false and is
  still in \<open>sleep\<close> does not sleep. It is off its hart and runnable, and the next round of the
  scheduler of a hart switches to it.
\<close>

theorem no_lost_wakeup:
  fixes s :: "'z kfile_scheme"
  assumes "wreach lk chn c" "\<forall>i. lk \<noteq> LProc i" "cnd c" "Resume \<in> set (todo c p)"
    and "\<forall>q. Do (Wake p chn) \<notin> set (todo c q)"
    and "held s = {}" "procs s p = tbl c p" "switches run did"
  shows "(\<exists>xs. todo c p = Resume # xs) \<and> p_state (tbl c p) = RUNNABLE \<and> (\<exists>t. scheduler run s = Ok True t \<and> did p (pmem t))"
proof -
  obtain k where k: "k \<le> 5" "sleeper lk chn c p k"
    using winv_reach [OF assms(1,2)] assms(4) unfolding winv_def by blast
  have "\<not> wake_due chn c p" using assms(5) by (simp add: wake_due_def)
  then have "k = 5" and r: "p_state (tbl c p) = RUNNABLE" "p < NPROC"
    using k(2) assms(3) unfolding sleeper_def by blast+
  then have "todo c p = Resume # drop 6 (sleep_round lk chn p)" using k(2) by (simp add: sleeper_def sleep_round_list)
  then show ?thesis using r scheduler_runs [OF assms(8,6)] assms(7) by auto
qed

text \<open>A run: process 0 goes to sleep, and process 1 wakes it. The states are given by what the steps depend on.\<close>

definition reached :: "(nat \<Rightarrow> tstep list) \<Rightarrow> (lockid \<Rightarrow> nat option) \<Rightarrow> bool \<Rightarrow> bool" where
  "reached T Os b \<longleftrightarrow> (\<exists>c. wreach LTicks ChTicks c \<and> todo c = T \<and> owner c = Os \<and> cnd c = b)"

lemma reached_steps:
  "reached T Os b \<Longrightarrow> T p = Do (Acquire l) # xs \<Longrightarrow> Os l = None \<Longrightarrow> reached (T(p := xs)) (Os(l := Some p)) b"
  "reached T Os b \<Longrightarrow> T p = Do (Release l) # xs \<Longrightarrow> Os l = Some p \<Longrightarrow> reached (T(p := xs)) (Os(l := None)) b"
  "reached T Os b \<Longrightarrow> T p = Do x # xs \<Longrightarrow> \<forall>l. x \<noteq> Acquire l \<and> x \<noteq> Release l \<Longrightarrow> reached (T(p := xs)) Os b"
  "reached T Os b \<Longrightarrow> T p = Switch # xs \<Longrightarrow> Os (LProc p) = Some p \<Longrightarrow> reached (T(p := xs)) (Os(LProc p := None)) b"
  "reached T Os b \<Longrightarrow> T p = SetCond v # xs \<Longrightarrow> reached (T(p := xs)) Os v"
  "reached T Os b \<Longrightarrow> T p = Test # xs \<Longrightarrow> \<not> b \<Longrightarrow> reached (T(p := sleep_round LTicks ChTicks p)) Os b"
  "reached T Os b \<Longrightarrow> T p = [] \<Longrightarrow> p < NPROC \<Longrightarrow> reached (T(p := [Do (Acquire LTicks), Test])) Os b"
  "reached T Os b \<Longrightarrow> T p = [] \<Longrightarrow> p < NPROC \<Longrightarrow>
    reached (T(p := Do (Acquire LTicks) # SetCond True # wakes LTicks ChTicks p 0)) Os b"
  unfolding reached_def
  by (elim exE conjE, rule exI, rule conjI, erule wreach.step, rule wstep.intros, (simp; fail)+)+

lemma wakes_run:
  assumes "reached (T(q := wakes LTicks ChTicks q i)) Os b" "i \<le> NPROC" "\<forall>j. Os (LProc j) = None"
  shows "reached (T(q := [Do (Release LTicks)])) Os b"
  using assms
proof (induction "NPROC - i" arbitrary: i)
  case 0
  then have "i = NPROC" by simp
  then show ?case using 0 by (simp add: wakes_unfold)
next
  case (Suc k)
  then have i: "i < NPROC" "k = NPROC - Suc i" "Suc i \<le> NPROC" by simp_all
  let ?w = "wakes LTicks ChTicks q (Suc i)"
  have "reached (T(q := ?w)) Os b"
  proof (cases "i = q")
    case True
    then show ?thesis using Suc.prems(1) i(1) by (simp add: wakes_unfold)
  next
    case False
    then have "reached (T(q := Do (Acquire (LProc i)) # Do (Wake i ChTicks) # Do (Release (LProc i)) # ?w)) Os b"
      using Suc.prems(1) i(1) by (simp add: wakes_unfold wakeup_code_def)
    from reached_steps(1) [OF this, OF fun_upd_same] Suc.prems(3)
    have "reached (T(q := Do (Wake i ChTicks) # Do (Release (LProc i)) # ?w)) (Os(LProc i := Some q)) b" by simp
    from reached_steps(3) [OF this, OF fun_upd_same]
    have "reached (T(q := Do (Release (LProc i)) # ?w)) (Os(LProc i := Some q)) b" by simp
    from reached_steps(2) [OF this, OF fun_upd_same] Suc.prems(3) show ?thesis by (simp add: fun_upd_idem)
  qed
  then show ?case by (rule Suc.hyps(1) [OF i(2) _ i(3) Suc.prems(3)])
qed

lemma demo_run_wakes:
  "reached ((\<lambda>_. [])(0 := drop 5 (sleep_round LTicks ChTicks 0), 1 := [Do (Release LTicks)])) ((\<lambda>_. None)(LTicks := Some 1)) True"
proof -
  let ?S = "sleep_round LTicks ChTicks 0" and ?N = "\<lambda>_. None :: nat option" and ?T = "\<lambda>xs. (\<lambda>_. [])(0 := xs)"
  have "wreach LTicks ChTicks \<lparr>tbl = (\<lambda>_. demo_proc), owner = ?N, cnd = False, todo = (\<lambda>_. [])\<rparr>" by (rule wreach.start) simp_all
  then have "reached (\<lambda>_. []) ?N False" by (auto simp: reached_def)
  from reached_steps(7) [OF this, of 0] have "reached (?T [Do (Acquire LTicks), Test]) ?N False" by (simp add: NPROC_def)
  from reached_steps(1) [OF this, OF fun_upd_same] have "reached (?T [Test]) (?N(LTicks := Some 0)) False" by simp
  from reached_steps(6) [OF this, OF fun_upd_same] have "reached (?T ?S) (?N(LTicks := Some 0)) False" by simp
  from reached_steps(1) [OF this, of 0 "LProc 0" "drop 1 ?S"]
  have "reached (?T (drop 1 ?S)) (?N(LTicks := Some 0, LProc 0 := Some 0)) False" by (simp add: sleep_round_list)
  from reached_steps(2) [OF this, of 0 LTicks "drop 2 ?S"]
  have "reached (?T (drop 2 ?S)) (?N(LProc 0 := Some 0)) False" by (simp add: sleep_round_list fun_upd_twist)
  from reached_steps(3) [OF this, of 0 "SetChan 0 (Some ChTicks)" "drop 3 ?S"]
  have "reached (?T (drop 3 ?S)) (?N(LProc 0 := Some 0)) False" by (simp add: sleep_round_list)
  from reached_steps(3) [OF this, of 0 "SetState 0 SLEEPING" "drop 4 ?S"]
  have "reached (?T (drop 4 ?S)) (?N(LProc 0 := Some 0)) False" by (simp add: sleep_round_list)
  from reached_steps(4) [OF this, of 0 "drop 5 ?S"] have "reached (?T (drop 5 ?S)) ?N False" by (simp add: sleep_round_list)
  from reached_steps(8) [OF this, of 1]
  have "reached ((?T (drop 5 ?S))(1 := Do (Acquire LTicks) # SetCond True # wakes LTicks ChTicks 1 0)) ?N False" by (simp add: NPROC_def)
  from reached_steps(1) [OF this, OF fun_upd_same]
  have "reached ((?T (drop 5 ?S))(1 := SetCond True # wakes LTicks ChTicks 1 0)) (?N(LTicks := Some 1)) False" by simp
  from reached_steps(5) [OF this, OF fun_upd_same]
  have "reached ((?T (drop 5 ?S))(1 := wakes LTicks ChTicks 1 0)) (?N(LTicks := Some 1)) True" by simp
  from wakes_run [OF this] show ?thesis by simp
qed

lemma no_lost_wakeup_witness:
  "\<exists>c xs. wreach LTicks ChTicks c \<and> cnd c \<and> todo c 0 = Resume # xs \<and> p_state (tbl c 0) = RUNNABLE \<and>
    (\<exists>t. scheduler demo_run (demo_files\<lparr>procs := tbl c\<rparr>) = Ok True t \<and> pmem t 0 = 1)"
proof -
  obtain c where c: "wreach LTicks ChTicks c" "cnd c"
    "todo c = (\<lambda>_. [])(0 := drop 5 (sleep_round LTicks ChTicks 0), 1 := [Do (Release LTicks)])"
    using demo_run_wakes by (auto simp: reached_def)
  have "Resume \<in> set (todo c 0)" "\<forall>q. Do (Wake 0 ChTicks) \<notin> set (todo c q)" by (simp_all add: c(3) sleep_round_list)
  from no_lost_wakeup [OF c(1) _ c(2) this _ _ demo_switches, of "demo_files\<lparr>procs := tbl c\<rparr>"] c(1,2) show ?thesis
    by auto
qed

end
