(* ===== verification/Exec.thy ===== *)
theory Exec
  imports Proc
begin

text \<open>
  \<open>kexec\<close>: \<^verbatim>\<open>kernel/exec.c\<close>, with the structures of \<^verbatim>\<open>kernel/elf.h\<close> read at their offsets.

  The argument vector is a list of strings without their terminators.
\<close>

section \<open>ELF\<close>

definition ELF_MAGIC :: u32 where "ELF_MAGIC = 0x464C457F"
definition ELF_PROG_LOAD :: u32 where "ELF_PROG_LOAD = 1"
definition elfhdr_size :: nat where "elfhdr_size = 64"
definition proghdr_size :: nat where "proghdr_size = 56"

record elfhdr =
  e_magic :: u32
  e_entry :: u64
  e_phoff :: u64
  e_phnum :: u16

definition get_elfhdr :: "bytes \<Rightarrow> elfhdr" where
  "get_elfhdr b = \<lparr>e_magic = get32 b 0, e_entry = get64 b 24, e_phoff = get64 b 32, e_phnum = get16 b 56\<rparr>"

record proghdr =
  ph_type :: u32
  ph_flags :: u32
  ph_off :: u64
  ph_vaddr :: u64
  ph_paddr :: u64
  ph_filesz :: u64
  ph_memsz :: u64
  ph_align :: u64

definition get_proghdr :: "bytes \<Rightarrow> proghdr" where
  "get_proghdr b = \<lparr>ph_type = get32 b 0, ph_flags = get32 b 4, ph_off = get64 b 8, ph_vaddr = get64 b 16,
    ph_paddr = get64 b 24, ph_filesz = get64 b 32, ph_memsz = get64 b 40, ph_align = get64 b 48\<rparr>"

definition flags2perm :: "u32 \<Rightarrow> u64" where
  "flags2perm flags =
    (let perm = (if flags AND 1 \<noteq> 0 then PTE_X else 0)
     in if flags AND 2 \<noteq> 0 then perm OR PTE_W else perm)"

section \<open>Loading\<close>

definition loadseg_page :: "u64 \<Rightarrow> u64 \<Rightarrow> nat \<Rightarrow> u32 \<Rightarrow> u32 \<Rightarrow> nat \<Rightarrow> 'z kfile_scheme \<Rightarrow> (int option, 'z kfile_scheme) kres" where
  "loadseg_page pagetable va ip offset sz i s =
    kbind (walkaddr pagetable (va + of_nat i) s) (\<lambda>pa s.
      if pa = 0 then Panic ''loadseg: address should exist''
      else
        let n = (if unat sz - i < 4096 then sz - of_nat i else 4096) in
        kbind (readi ip (PhysAt pa) (offset + of_nat i) n s) (\<lambda>(r, _) s.
          if of_int r \<noteq> n then Ok (Some (- 1)) s else Ok None s))"

text \<open>
  The places are below \<open>2 ^ 32\<close>. For \<open>sz\<close> above \<open>2 ^ 32 - 4096\<close> the \<open>uint\<close> \<open>i\<close> of the loop would
  wrap around after the last of them; it does not come to that, since \<open>readi\<close> runs into the end of
  the largest file, 268 blocks, long before, and the loop ends.
\<close>

definition loadseg :: "u64 \<Rightarrow> u64 \<Rightarrow> nat \<Rightarrow> u32 \<Rightarrow> u32 \<Rightarrow> 'z kfile_scheme \<Rightarrow> (int, 'z kfile_scheme) kres" where
  "loadseg pagetable va ip offset sz s =
    kbind (kscan (loadseg_page pagetable va ip offset sz)
        (map (\<lambda>k. k * 4096) [0..<(unat sz + 4095) div 4096]) s) (\<lambda>r s.
      case r of Some v \<Rightarrow> Ok v s | None \<Rightarrow> Ok 0 s)"

text \<open>The loop over the \<open>k\<close> program headers from \<open>off\<close> on: whether it succeeded, and \<open>sz\<close>.\<close>

fun load_segments ::
  "u64 \<Rightarrow> nat \<Rightarrow> nat \<Rightarrow> u32 \<Rightarrow> u64 \<Rightarrow> 'z kfile_scheme \<Rightarrow> (bool \<times> u64, 'z kfile_scheme) kres" where
  "load_segments pagetable ip 0 off sz s = Ok (True, sz) s"
| "load_segments pagetable ip (Suc k) off sz s =
    kbind (readi ip (VarAt (\<lambda>_. 0) 0) off (of_nat proghdr_size) s) (\<lambda>(r, c) s.
      let ph = get_proghdr (cur_var c) in
      if r \<noteq> int proghdr_size then Ok (False, sz) s
      else if ph_type ph \<noteq> ELF_PROG_LOAD then load_segments pagetable ip k (off + of_nat proghdr_size) sz s
      else if ph_memsz ph < ph_filesz ph then Ok (False, sz) s
      else if ph_vaddr ph + ph_memsz ph < ph_vaddr ph then Ok (False, sz) s
      else if ph_vaddr ph mod PGSIZE \<noteq> 0 then Ok (False, sz) s
      else
        kbind (uvmalloc pagetable sz (ph_vaddr ph + ph_memsz ph) (flags2perm (ph_flags ph)) s) (\<lambda>sz1 s.
          if sz1 = 0 then Ok (False, sz) s
          else
            kbind (loadseg pagetable (ph_vaddr ph) ip (ucast (ph_off ph)) (ucast (ph_filesz ph)) s) (\<lambda>r s.
              if r < 0 then Ok (False, sz1) s
              else load_segments pagetable ip k (off + of_nat proghdr_size) sz1 s)))"

section \<open>The stack\<close>

text \<open>Copying the argument strings: the new \<open>sp\<close> and the addresses, in order, unless it failed.\<close>

fun push_args ::
  "u64 \<Rightarrow> u64 \<Rightarrow> nat \<Rightarrow> u8 list list \<Rightarrow> u64 \<Rightarrow> u64 list \<Rightarrow> 'z kfile_scheme \<Rightarrow>
    ((u64 \<times> u64 list) option, 'z kfile_scheme) kres" where
  "push_args pagetable stackbase argc [] sp ustack s = Ok (Some (sp, ustack)) s"
| "push_args pagetable stackbase argc (a # argv) sp ustack s =
    (if MAXARG \<le> argc then Ok None s
     else
       let sp = sp - (of_nat (length a) + 1);
           sp = sp - sp mod 16
       in if sp < stackbase then Ok None s
          else
            kbind (copyout pagetable sp (str a) (of_nat (length a) + 1) s) (\<lambda>r s.
              if r < 0 then Ok None s
              else push_args pagetable stackbase (Suc argc) argv sp (ustack @ [sp]) s))"

fun put_ptrs :: "bytes \<Rightarrow> nat \<Rightarrow> u64 list \<Rightarrow> bytes" where
  "put_ptrs b off [] = b"
| "put_ptrs b off (x # xs) = put_ptrs (put64 b off x) (off + 8) xs"

text \<open>The part of the path after the last slash.\<close>

fun path_last :: "u8 list \<Rightarrow> u8 list \<Rightarrow> u8 list" where
  "path_last last_s [] = last_s"
| "path_last last_s (c # cs) = path_last (if c = slash then cs else last_s) cs"

section \<open>kexec\<close>

text \<open>The label \<open>bad\<close>, before and after the inode is released.\<close>

definition exec_bad_open :: "u64 \<Rightarrow> u64 \<Rightarrow> nat \<Rightarrow> 'z kfile_scheme \<Rightarrow> (int, 'z kfile_scheme) kres" where
  "exec_bad_open pagetable sz ip s =
    kbind (if pagetable \<noteq> 0 then proc_freepagetable pagetable sz s else Ok () s) (\<lambda>_ s.
    kbind (iunlockput ip s) (\<lambda>_ s.
    kbind (end_op s) (\<lambda>_ s. Ok (- 1) s)))"

definition exec_bad :: "u64 \<Rightarrow> u64 \<Rightarrow> 'z kfile_scheme \<Rightarrow> (int, 'z kfile_scheme) kres" where
  "exec_bad pagetable sz s =
    kbind (if pagetable \<noteq> 0 then proc_freepagetable pagetable sz s else Ok () s) (\<lambda>_ s. Ok (- 1) s)"

text \<open>From the allocation of the stack on: \<open>sz\<close> is the size of the loaded program.\<close>

definition exec_commit ::
  "nat \<Rightarrow> u8 list \<Rightarrow> u8 list list \<Rightarrow> elfhdr \<Rightarrow> u64 \<Rightarrow> u64 \<Rightarrow> 'z kfile_scheme \<Rightarrow> (int, 'z kfile_scheme) kres" where
  "exec_commit p path argv elf pagetable sz s =
    (let oldsz = p_sz (procs s p);
         sz = PGROUNDUP sz
     in kbind (uvmalloc pagetable sz (sz + (USERSTACK + 1) * PGSIZE) PTE_W s) (\<lambda>sz1 s.
        if sz1 = 0 then exec_bad pagetable sz s
        else
          kbind (uvmclear pagetable (sz1 - (USERSTACK + 1) * PGSIZE) s) (\<lambda>_ s.
          let stackbase = sz1 - USERSTACK * PGSIZE in
          kbind (push_args pagetable stackbase 0 argv sz1 [] s) (\<lambda>r s.
          case r of None \<Rightarrow> exec_bad pagetable sz1 s
          | Some (sp, ustack) \<Rightarrow>
              let argc = length argv;
                  sp = sp - (of_nat argc + 1) * 8;
                  sp = sp - sp mod 16
              in if sp < stackbase then exec_bad pagetable sz1 s
                 else
                   kbind (copyout pagetable sp (put_ptrs (\<lambda>_. 0) 0 (ustack @ [0])) ((of_nat argc + 1) * 8) s) (\<lambda>r s.
                     if r < 0 then exec_bad pagetable sz1 s
                     else
                       let s = tf_write p (tf_a 1) sp s;
                           s = proc_upd p (\<lambda>q. q\<lparr>p_name := safestrcpy (p_name q) (str (path_last path path)) 16\<rparr>) s;
                           oldpagetable = p_pagetable (procs s p);
                           s = proc_upd p (\<lambda>q. q\<lparr>p_pagetable := pagetable, p_sz := sz1\<rparr>) s;
                           s = tf_write p tf_epc (e_entry elf) s;
                           s = tf_write p tf_sp sp s
                       in kbind (proc_freepagetable oldpagetable oldsz s) (\<lambda>_ s. Ok (int argc) s))))))"

definition kexec :: "u8 list \<Rightarrow> u8 list list \<Rightarrow> 'z kfile_scheme \<Rightarrow> (int, 'z kfile_scheme) kres" where
  "kexec path argv s =
    kbind (myproc s) (\<lambda>p s.
    kbind (begin_op s) (\<lambda>_ s.
    kbind (namei path s) (\<lambda>r s.
    case r of None \<Rightarrow> kbind (end_op s) (\<lambda>_ s. Ok (- 1) s)
    | Some ip \<Rightarrow>
        kbind (ilock ip s) (\<lambda>_ s.
        kbind (readi ip (VarAt (\<lambda>_. 0) 0) 0 (of_nat elfhdr_size) s) (\<lambda>(r, c) s.
        let elf = get_elfhdr (cur_var c) in
        if r \<noteq> int elfhdr_size then exec_bad_open 0 0 ip s
        else if e_magic elf \<noteq> ELF_MAGIC then exec_bad_open 0 0 ip s
        else
          kbind (proc_pagetable p s) (\<lambda>pagetable s.
          if pagetable = 0 then exec_bad_open 0 0 ip s
          else
            kbind (load_segments pagetable ip (unat (e_phnum elf)) (ucast (e_phoff elf)) 0 s) (\<lambda>(ok, sz) s.
              if \<not> ok then exec_bad_open pagetable sz ip s
              else
                kbind (iunlockput ip s) (\<lambda>_ s.
                kbind (end_op s) (\<lambda>_ s.
                kbind (myproc s) (\<lambda>p s.
                exec_commit p path argv elf pagetable sz s))))))))))"

end
