(* ===== verification/Sysargs.thy ===== *)
theory Sysargs
  imports Exec
begin

text \<open>
  Fetching the arguments of system calls: the first half of \<^verbatim>\<open>kernel/syscall.c\<close>. \<open>ticks\<close> is the
  clock of \<^verbatim>\<open>kernel/trap.c\<close>.
\<close>

record ksys = kfile +
  ticks :: u32

definition fetchaddr :: "u64 \<Rightarrow> 'z ksys_scheme \<Rightarrow> (int \<times> u64, 'z ksys_scheme) kres" where
  "fetchaddr addr s =
    kbind (myproc s) (\<lambda>p s.
      if p_sz (procs s p) \<le> addr \<or> p_sz (procs s p) < addr + 8 then Ok (- 1, 0) s
      else
        kbind (copyin (p_pagetable (procs s p)) (\<lambda>_. 0) addr 8 s) (\<lambda>(r, b) s.
          if r \<noteq> 0 then Ok (- 1, get64 b 0) s else Ok (0, get64 b 0) s))"

text \<open>\<open>strlen\<close> on a string that does not end is a fault when it leaves the memory of the kernel.\<close>

definition fetchstr :: "u64 \<Rightarrow> bytes \<Rightarrow> u64 \<Rightarrow> 'z ksys_scheme \<Rightarrow> (int \<times> bytes, 'z ksys_scheme) kres" where
  "fetchstr addr buf mx s =
    kbind (myproc s) (\<lambda>p s.
    kbind (copyinstr (p_pagetable (procs s p)) buf addr mx s) (\<lambda>(r, buf) s.
      if r < 0 then Ok (- 1, buf) s
      else case strlen buf of None \<Rightarrow> Panic ''kerneltrap'' | Some n \<Rightarrow> Ok (int n, buf) s))"

definition argraw :: "nat \<Rightarrow> 'z ksys_scheme \<Rightarrow> (u64, 'z ksys_scheme) kres" where
  "argraw n s =
    kbind (myproc s) (\<lambda>p s.
      if n \<le> 5 then Ok (tf_read p (tf_a n) s) s else Panic ''argraw'')"

text \<open>An \<open>int\<close> is the low half of the register, as a signed number.\<close>

definition to_int :: "u64 \<Rightarrow> int" where
  "to_int v = sint (ucast v :: u32)"

definition argint :: "nat \<Rightarrow> 'z ksys_scheme \<Rightarrow> (int, 'z ksys_scheme) kres" where
  "argint n s = kbind (argraw n s) (\<lambda>v s. Ok (to_int v) s)"

definition argaddr :: "nat \<Rightarrow> 'z ksys_scheme \<Rightarrow> (u64, 'z ksys_scheme) kres" where
  "argaddr n s = argraw n s"

definition argstr :: "nat \<Rightarrow> bytes \<Rightarrow> u64 \<Rightarrow> 'z ksys_scheme \<Rightarrow> (int \<times> bytes, 'z ksys_scheme) kres" where
  "argstr n buf mx s = kbind (argaddr n s) (\<lambda>addr s. fetchstr addr buf mx s)"

text \<open>
  A path argument, fetched into a buffer of \<open>MAXPATH\<close> bytes: the string, unless the fetch failed.
\<close>

definition argpath :: "nat \<Rightarrow> 'z ksys_scheme \<Rightarrow> (u8 list option, 'z ksys_scheme) kres" where
  "argpath n s =
    kbind (argstr n (\<lambda>_. 0) (of_nat MAXPATH) s) (\<lambda>(r, buf) s.
      if r < 0 then Ok None s else Ok (Some (cstr MAXPATH buf)) s)"

end
