(* ===== verification/Sysfile.thy ===== *)
theory Sysfile
  imports Sysargs
begin

text \<open>
  The system calls on files: \<^verbatim>\<open>kernel/sysfile.c\<close>. Each returns the value that \<open>syscall\<close> puts into
  the register \<open>a0\<close>.
\<close>

definition O_RDONLY :: int where "O_RDONLY = 0"
definition O_WRONLY :: u32 where "O_WRONLY = 1"
definition O_RDWR :: u32 where "O_RDWR = 2"
definition O_CREATE :: u32 where "O_CREATE = 0x200"
definition O_TRUNC :: u32 where "O_TRUNC = 0x400"

section \<open>Descriptors\<close>

text \<open>The descriptor and the file, unless the argument is not an open descriptor.\<close>

definition argfd :: "nat \<Rightarrow> 'z ksys_scheme \<Rightarrow> ((nat \<times> nat) option, 'z ksys_scheme) kres" where
  "argfd n s =
    kbind (argint n s) (\<lambda>fd s.
      if fd < 0 \<or> int NOFILE \<le> fd then Ok None s
      else
        kbind (myproc s) (\<lambda>p s.
          case p_ofile (procs s p) (nat fd) of None \<Rightarrow> Ok None s | Some f \<Rightarrow> Ok (Some (nat fd, f)) s))"

definition set_ofile :: "nat \<Rightarrow> nat \<Rightarrow> nat option \<Rightarrow> 'z ksys_scheme \<Rightarrow> 'z ksys_scheme" where
  "set_ofile p fd f s = proc_upd p (\<lambda>q. q\<lparr>p_ofile := (p_ofile q)(fd := f)\<rparr>) s"

definition fdalloc :: "nat \<Rightarrow> 'z ksys_scheme \<Rightarrow> (int, 'z ksys_scheme) kres" where
  "fdalloc f s =
    kbind (myproc s) (\<lambda>p s.
      case scan (\<lambda>fd. p_ofile (procs s p) fd = None) NOFILE of
        Some fd \<Rightarrow> Ok (int fd) (set_ofile p fd (Some f) s)
      | None \<Rightarrow> Ok (- 1) s)"

definition sys_dup :: "'z ksys_scheme \<Rightarrow> (u64, 'z ksys_scheme) kres" where
  "sys_dup s =
    kbind (argfd 0 s) (\<lambda>r s.
    case r of None \<Rightarrow> Ok (- 1) s
    | Some (_, f) \<Rightarrow>
        kbind (fdalloc f s) (\<lambda>fd s.
          if fd < 0 then Ok (- 1) s
          else kbind (filedup f s) (\<lambda>_ s. Ok (of_int fd) s)))"

definition sys_read :: "'z ksys_scheme \<Rightarrow> (u64, 'z ksys_scheme) kres" where
  "sys_read s =
    kbind (argaddr 1 s) (\<lambda>p s.
    kbind (argint 2 s) (\<lambda>n s.
    kbind (argfd 0 s) (\<lambda>r s.
    case r of None \<Rightarrow> Ok (- 1) s
    | Some (_, f) \<Rightarrow> kbind (fileread f p n s) (\<lambda>v s. Ok (of_int v) s))))"

definition sys_write :: "'z ksys_scheme \<Rightarrow> (u64, 'z ksys_scheme) kres" where
  "sys_write s =
    kbind (argaddr 1 s) (\<lambda>p s.
    kbind (argint 2 s) (\<lambda>n s.
    kbind (argfd 0 s) (\<lambda>r s.
    case r of None \<Rightarrow> Ok (- 1) s
    | Some (_, f) \<Rightarrow> kbind (filewrite f p n s) (\<lambda>v s. Ok (of_int v) s))))"

definition sys_close :: "'z ksys_scheme \<Rightarrow> (u64, 'z ksys_scheme) kres" where
  "sys_close s =
    kbind (argfd 0 s) (\<lambda>r s.
    case r of None \<Rightarrow> Ok (- 1) s
    | Some (fd, f) \<Rightarrow>
        kbind (myproc s) (\<lambda>p s.
        let s = set_ofile p fd None s in
        kbind (fileclose f s) (\<lambda>_ s. Ok 0 s)))"

definition sys_fstat :: "'z ksys_scheme \<Rightarrow> (u64, 'z ksys_scheme) kres" where
  "sys_fstat s =
    kbind (argaddr 1 s) (\<lambda>st s.
    kbind (argfd 0 s) (\<lambda>r s.
    case r of None \<Rightarrow> Ok (- 1) s
    | Some (_, f) \<Rightarrow> kbind (filestat f st s) (\<lambda>v s. Ok (of_int v) s)))"

section \<open>Links\<close>

text \<open>Leaving a system call in a transaction with the value \<open>-1\<close>.\<close>

definition fail_op :: "'z ksys_scheme \<Rightarrow> (u64, 'z ksys_scheme) kres" where
  "fail_op s = kbind (end_op s) (\<lambda>_ s. Ok (- 1) s)"

definition put_fail_op :: "nat \<Rightarrow> 'z ksys_scheme \<Rightarrow> (u64, 'z ksys_scheme) kres" where
  "put_fail_op ip s = kbind (iunlockput ip s) (\<lambda>_ s. fail_op s)"

definition add_nlink :: "nat \<Rightarrow> u16 \<Rightarrow> 'z ksys_scheme \<Rightarrow> (unit, 'z ksys_scheme) kres" where
  "add_nlink ip d s = iupdate ip (ino_upd ip (\<lambda>i. i\<lparr>i_nlink := i_nlink i + d\<rparr>) s)"

text \<open>The label \<open>bad\<close> of \<open>sys_link\<close>.\<close>

definition link_bad :: "nat \<Rightarrow> 'z ksys_scheme \<Rightarrow> (u64, 'z ksys_scheme) kres" where
  "link_bad ip s =
    kbind (ilock ip s) (\<lambda>_ s.
    kbind (add_nlink ip (- 1) s) (\<lambda>_ s.
    kbind (iunlockput ip s) (\<lambda>_ s.
    fail_op s)))"

definition sys_link :: "'z ksys_scheme \<Rightarrow> (u64, 'z ksys_scheme) kres" where
  "sys_link s =
    kbind (argpath 0 s) (\<lambda>old s.
    case old of None \<Rightarrow> Ok (- 1) s
    | Some old \<Rightarrow>
    kbind (argpath 1 s) (\<lambda>new s.
    case new of None \<Rightarrow> Ok (- 1) s
    | Some new \<Rightarrow>
    kbind (begin_op s) (\<lambda>_ s.
    kbind (namei old s) (\<lambda>r s.
    case r of None \<Rightarrow> fail_op s
    | Some ip \<Rightarrow>
    kbind (ilock ip s) (\<lambda>_ s.
    if i_type (itab s ip) = T_DIR then put_fail_op ip s
    else
    kbind (add_nlink ip 1 s) (\<lambda>_ s.
    kbind (iunlock ip s) (\<lambda>_ s.
    kbind (nameiparent new (\<lambda>_. 0) s) (\<lambda>(r, name) s.
    case r of None \<Rightarrow> link_bad ip s
    | Some dp \<Rightarrow>
    kbind (ilock dp s) (\<lambda>_ s.
    kbind (if i_dev (itab s dp) \<noteq> i_dev (itab s ip) then Ok (- 1) s
           else dirlink dp name (i_inum (itab s ip)) s) (\<lambda>r s.
    if r < 0 then kbind (iunlockput dp s) (\<lambda>_ s. link_bad ip s)
    else
    kbind (iunlockput dp s) (\<lambda>_ s.
    kbind (iput ip s) (\<lambda>_ s.
    kbind (end_op s) (\<lambda>_ s.
    Ok 0 s)))))))))))))"

definition isdirempty_one :: "nat \<Rightarrow> nat \<Rightarrow> 'z ksys_scheme \<Rightarrow> (bool option, 'z ksys_scheme) kres" where
  "isdirempty_one dp off s =
    kbind (read_dirent dp off ''isdirempty: readi'' s) (\<lambda>de s.
      if get16 de 0 \<noteq> 0 then Ok (Some False) s else Ok None s)"

definition isdirempty :: "nat \<Rightarrow> 'z ksys_scheme \<Rightarrow> (bool, 'z ksys_scheme) kres" where
  "isdirempty dp s =
    kbind (kscan (isdirempty_one dp) (drop 2 (dir_offsets (i_size (itab s dp)))) s) (\<lambda>r s.
      case r of Some b \<Rightarrow> Ok b s | None \<Rightarrow> Ok True s)"

definition sys_unlink :: "'z ksys_scheme \<Rightarrow> (u64, 'z ksys_scheme) kres" where
  "sys_unlink s =
    kbind (argpath 0 s) (\<lambda>path s.
    case path of None \<Rightarrow> Ok (- 1) s
    | Some path \<Rightarrow>
    kbind (begin_op s) (\<lambda>_ s.
    kbind (nameiparent path (\<lambda>_. 0) s) (\<lambda>(r, name) s.
    case r of None \<Rightarrow> fail_op s
    | Some dp \<Rightarrow>
    kbind (ilock dp s) (\<lambda>_ s.
    if namecmp name (str (map ch ''.'')) = 0 \<or> namecmp name (str (map ch ''..'')) = 0 then put_fail_op dp s
    else
    kbind (dirlookup dp name s) (\<lambda>r s.
    case r of None \<Rightarrow> put_fail_op dp s
    | Some (ip, off) \<Rightarrow>
    kbind (ilock ip s) (\<lambda>_ s.
    if sint (i_nlink (itab s ip)) < 1 then Panic ''unlink: nlink < 1''
    else
    kbind (if i_type (itab s ip) = T_DIR then isdirempty ip s else Ok True s) (\<lambda>empty s.
    if \<not> empty then kbind (iunlockput ip s) (\<lambda>_ s. put_fail_op dp s)
    else
    kbind (writei dp (VarAt (\<lambda>_. 0) 0) off (of_nat DIRENT) s) (\<lambda>r s.
    if r \<noteq> int DIRENT then Panic ''unlink: writei''
    else
    kbind (if i_type (itab s ip) = T_DIR then add_nlink dp (- 1) s else Ok () s) (\<lambda>_ s.
    kbind (iunlockput dp s) (\<lambda>_ s.
    kbind (add_nlink ip (- 1) s) (\<lambda>_ s.
    kbind (iunlockput ip s) (\<lambda>_ s.
    kbind (end_op s) (\<lambda>_ s.
    Ok 0 s)))))))))))))"

section \<open>Creating\<close>

text \<open>The label \<open>fail\<close> of \<open>create\<close>.\<close>

definition create_fail :: "nat \<Rightarrow> nat \<Rightarrow> 'z ksys_scheme \<Rightarrow> (nat option, 'z ksys_scheme) kres" where
  "create_fail ip dp s =
    (let s = ino_upd ip (\<lambda>i. i\<lparr>i_nlink := 0\<rparr>) s in
     kbind (iupdate ip s) (\<lambda>_ s.
     kbind (iunlockput ip s) (\<lambda>_ s.
     kbind (iunlockput dp s) (\<lambda>_ s.
     Ok None s))))"

text \<open>The entries \<open>.\<close> and \<open>..\<close> of a new directory.\<close>

definition create_dots :: "nat \<Rightarrow> nat \<Rightarrow> 'z ksys_scheme \<Rightarrow> (int, 'z ksys_scheme) kres" where
  "create_dots ip dp s =
    kbind (dirlink ip (str (map ch ''.'')) (i_inum (itab s ip)) s) (\<lambda>r s.
      if r < 0 then Ok r s
      else dirlink ip (str (map ch ''..'')) (i_inum (itab s dp)) s)"

definition create :: "u8 list \<Rightarrow> u16 \<Rightarrow> u16 \<Rightarrow> u16 \<Rightarrow> 'z ksys_scheme \<Rightarrow> (nat option, 'z ksys_scheme) kres" where
  "create path type major minor s =
    kbind (nameiparent path (\<lambda>_. 0) s) (\<lambda>(r, name) s.
    case r of None \<Rightarrow> Ok None s
    | Some dp \<Rightarrow>
    kbind (ilock dp s) (\<lambda>_ s.
    kbind (dirlookup dp name s) (\<lambda>r s.
    case r of
      Some (ip, _) \<Rightarrow>
        kbind (iunlockput dp s) (\<lambda>_ s.
        kbind (ilock ip s) (\<lambda>_ s.
          if type = T_FILE \<and> (i_type (itab s ip) = T_FILE \<or> i_type (itab s ip) = T_DEVICE) then Ok (Some ip) s
          else kbind (iunlockput ip s) (\<lambda>_ s. Ok None s)))
    | None \<Rightarrow>
    kbind (ialloc (i_dev (itab s dp)) type s) (\<lambda>r s.
    case r of None \<Rightarrow> kbind (iunlockput dp s) (\<lambda>_ s. Ok None s)
    | Some ip \<Rightarrow>
    kbind (ilock ip s) (\<lambda>_ s.
    let s = ino_upd ip (\<lambda>i. i\<lparr>i_major := major, i_minor := minor, i_nlink := 1\<rparr>) s in
    kbind (iupdate ip s) (\<lambda>_ s.
    kbind (if type = T_DIR then create_dots ip dp s else Ok 0 s) (\<lambda>r s.
    if r < 0 then create_fail ip dp s
    else
    kbind (dirlink dp name (i_inum (itab s ip)) s) (\<lambda>r s.
    if r < 0 then create_fail ip dp s
    else
    kbind (if type = T_DIR then add_nlink dp 1 s else Ok () s) (\<lambda>_ s.
    kbind (iunlockput dp s) (\<lambda>_ s.
    Ok (Some ip) s))))))))))"

text \<open>The first half of \<open>sys_open\<close>: the inode, locked, within a transaction that \<open>sys_open\<close> has begun.\<close>

definition open_inode :: "u8 list \<Rightarrow> int \<Rightarrow> 'z ksys_scheme \<Rightarrow> (nat option, 'z ksys_scheme) kres" where
  "open_inode path omode s =
    (if (of_int omode :: u32) AND O_CREATE \<noteq> 0 then
       kbind (create path T_FILE 0 0 s) (\<lambda>r s.
       case r of None \<Rightarrow> kbind (end_op s) (\<lambda>_ s. Ok None s) | Some ip \<Rightarrow> Ok (Some ip) s)
     else
       kbind (namei path s) (\<lambda>r s.
       case r of None \<Rightarrow> kbind (end_op s) (\<lambda>_ s. Ok None s)
       | Some ip \<Rightarrow>
           kbind (ilock ip s) (\<lambda>_ s.
             if i_type (itab s ip) = T_DIR \<and> omode \<noteq> O_RDONLY then
               kbind (iunlockput ip s) (\<lambda>_ s. kbind (end_op s) (\<lambda>_ s. Ok None s))
             else Ok (Some ip) s)))"

text \<open>Allocating the file and its descriptor.\<close>

definition open_file :: "'z ksys_scheme \<Rightarrow> ((nat \<times> nat) option, 'z ksys_scheme) kres" where
  "open_file s =
    kbind (filealloc s) (\<lambda>r s.
    case r of None \<Rightarrow> Ok None s
    | Some f \<Rightarrow>
        kbind (fdalloc f s) (\<lambda>fd s.
          if fd < 0 then kbind (fileclose f s) (\<lambda>_ s. Ok None s)
          else Ok (Some (f, nat fd)) s))"

definition sys_open :: "'z ksys_scheme \<Rightarrow> (u64, 'z ksys_scheme) kres" where
  "sys_open s =
    kbind (argint 1 s) (\<lambda>omode s.
    kbind (argpath 0 s) (\<lambda>path s.
    case path of None \<Rightarrow> Ok (- 1) s
    | Some path \<Rightarrow>
    kbind (begin_op s) (\<lambda>_ s.
    kbind (open_inode path omode s) (\<lambda>r s.
    case r of None \<Rightarrow> Ok (- 1) s
    | Some ip \<Rightarrow>
    if i_type (itab s ip) = T_DEVICE \<and> (sint (i_major (itab s ip)) < 0 \<or> NDEV \<le> sint (i_major (itab s ip)))
    then put_fail_op ip s
    else
    kbind (open_file s) (\<lambda>r s.
    case r of None \<Rightarrow> put_fail_op ip s
    | Some (f, fd) \<Rightarrow>
    let om = (of_int omode :: u32);
        s = (if i_type (itab s ip) = T_DEVICE
             then file_upd f (\<lambda>x. x\<lparr>f_type := FD_DEVICE, f_major := i_major (itab s ip)\<rparr>) s
             else file_upd f (\<lambda>x. x\<lparr>f_type := FD_INODE, f_off := 0\<rparr>) s);
        s = file_upd f (\<lambda>x. x\<lparr>f_ip := Some ip, f_readable := om AND O_WRONLY = 0,
              f_writable := om AND O_WRONLY \<noteq> 0 \<or> om AND O_RDWR \<noteq> 0\<rparr>) s
    in
    kbind (if om AND O_TRUNC \<noteq> 0 \<and> i_type (itab s ip) = T_FILE then itrunc ip s else Ok () s) (\<lambda>_ s.
    kbind (iunlock ip s) (\<lambda>_ s.
    kbind (end_op s) (\<lambda>_ s.
    Ok (of_nat fd) s))))))))"

definition finish_create :: "nat option \<Rightarrow> 'z ksys_scheme \<Rightarrow> (u64, 'z ksys_scheme) kres" where
  "finish_create r s =
    (case r of None \<Rightarrow> fail_op s
     | Some ip \<Rightarrow> kbind (iunlockput ip s) (\<lambda>_ s. kbind (end_op s) (\<lambda>_ s. Ok 0 s)))"

definition sys_mkdir :: "'z ksys_scheme \<Rightarrow> (u64, 'z ksys_scheme) kres" where
  "sys_mkdir s =
    kbind (begin_op s) (\<lambda>_ s.
    kbind (argpath 0 s) (\<lambda>path s.
    case path of None \<Rightarrow> fail_op s
    | Some path \<Rightarrow> kbind (create path T_DIR 0 0 s) finish_create))"

definition sys_mknod :: "'z ksys_scheme \<Rightarrow> (u64, 'z ksys_scheme) kres" where
  "sys_mknod s =
    kbind (begin_op s) (\<lambda>_ s.
    kbind (argint 1 s) (\<lambda>major s.
    kbind (argint 2 s) (\<lambda>minor s.
    kbind (argpath 0 s) (\<lambda>path s.
    case path of None \<Rightarrow> fail_op s
    | Some path \<Rightarrow> kbind (create path T_DEVICE (of_int major) (of_int minor) s) finish_create))))"

definition sys_chdir :: "'z ksys_scheme \<Rightarrow> (u64, 'z ksys_scheme) kres" where
  "sys_chdir s =
    kbind (myproc s) (\<lambda>p s.
    kbind (begin_op s) (\<lambda>_ s.
    kbind (argpath 0 s) (\<lambda>path s.
    case path of None \<Rightarrow> fail_op s
    | Some path \<Rightarrow>
    kbind (namei path s) (\<lambda>r s.
    case r of None \<Rightarrow> fail_op s
    | Some ip \<Rightarrow>
    kbind (ilock ip s) (\<lambda>_ s.
    if i_type (itab s ip) \<noteq> T_DIR then put_fail_op ip s
    else
    kbind (iunlock ip s) (\<lambda>_ s.
    kbind (deref (p_cwd (procs s p)) s) (\<lambda>cwd s.
    kbind (iput cwd s) (\<lambda>_ s.
    kbind (end_op s) (\<lambda>_ s.
    Ok 0 (proc_upd p (\<lambda>q. q\<lparr>p_cwd := Some ip\<rparr>) s))))))))))"

section \<open>exec and pipe\<close>

text \<open>
  Fetching the \<open>k\<close> arguments from number \<open>i\<close> on, each into a page of its own: whether it
  succeeded, and the pages.
\<close>

fun fetch_args :: "nat \<Rightarrow> nat \<Rightarrow> u64 \<Rightarrow> u64 list \<Rightarrow> 'z ksys_scheme \<Rightarrow> (bool \<times> u64 list, 'z ksys_scheme) kres" where
  "fetch_args 0 i uargv argv s = Ok (False, argv) s"
| "fetch_args (Suc k) i uargv argv s =
    kbind (fetchaddr (uargv + 8 * of_nat i) s) (\<lambda>(r, uarg) s.
      if r < 0 then Ok (False, argv) s
      else if uarg = 0 then Ok (True, argv) s
      else
        kbind (kalloc s) (\<lambda>pg s.
          if pg = 0 then Ok (False, argv) s
          else
            kbind (fetchstr uarg (view (pmem s) pg) PGSIZE s) (\<lambda>(r, buf) s.
              let s = s\<lparr>pmem := store_bytes (pmem s) pg buf 4096\<rparr>;
                  argv = argv @ [pg]
              in if r < 0 then Ok (False, argv) s else fetch_args k (Suc i) uargv argv s)))"

definition sys_exec :: "'z ksys_scheme \<Rightarrow> (u64, 'z ksys_scheme) kres" where
  "sys_exec s =
    kbind (argaddr 1 s) (\<lambda>uargv s.
    kbind (argpath 0 s) (\<lambda>path s.
    case path of None \<Rightarrow> Ok (- 1) s
    | Some path \<Rightarrow>
    kbind (fetch_args MAXARG 0 uargv [] s) (\<lambda>(ok, argv) s.
    if \<not> ok then kbind (foreach kfree argv s) (\<lambda>_ s. Ok (- 1) s)
    else
    kbind (kexec path (map (\<lambda>pg. cstr 4096 (view (pmem s) pg)) argv) s) (\<lambda>ret s.
    kbind (foreach kfree argv s) (\<lambda>_ s.
    Ok (of_int ret) s)))))"

definition close_two :: "nat \<Rightarrow> nat \<Rightarrow> 'z ksys_scheme \<Rightarrow> (u64, 'z ksys_scheme) kres" where
  "close_two rfd wfd s = kbind (fileclose rfd s) (\<lambda>_ s. kbind (fileclose wfd s) (\<lambda>_ s. Ok (- 1) s))"

definition int_bytes :: "int \<Rightarrow> bytes" where
  "int_bytes n = put32 (\<lambda>_. 0) 0 (of_int n)"

definition sys_pipe :: "'z ksys_scheme \<Rightarrow> (u64, 'z ksys_scheme) kres" where
  "sys_pipe s =
    kbind (myproc s) (\<lambda>p s.
    kbind (argaddr 0 s) (\<lambda>fdarray s.
    kbind (pipealloc s) (\<lambda>(r, rfd, wfd) s.
    if r < 0 then Ok (- 1) s
    else
    kbind (deref rfd s) (\<lambda>rfd s.
    kbind (deref wfd s) (\<lambda>wfd s.
    kbind (fdalloc rfd s) (\<lambda>fd0 s.
    if fd0 < 0 then close_two rfd wfd s
    else
    kbind (fdalloc wfd s) (\<lambda>fd1 s.
    if fd1 < 0 then close_two rfd wfd (set_ofile p (nat fd0) None s)
    else
    kbind (copyout (p_pagetable (procs s p)) fdarray (int_bytes fd0) 4 s) (\<lambda>r s.
    kbind (if r < 0 then Ok r s
           else copyout (p_pagetable (procs s p)) (fdarray + 4) (int_bytes fd1) 4 s) (\<lambda>r s.
    if r < 0 then close_two rfd wfd (set_ofile p (nat fd1) None (set_ofile p (nat fd0) None s))
    else Ok 0 s)))))))))"

end
