(* ===== verification/Syscall.thy ===== *)
theory Syscall
  imports Sysfile
begin

text \<open>
  The other system calls and the dispatcher: \<^verbatim>\<open>kernel/sysproc.c\<close> and the second half of
  \<^verbatim>\<open>kernel/syscall.c\<close>.
\<close>

section \<open>Processes\<close>

definition SBRK_EAGER :: int where "SBRK_EAGER = 1"

definition sys_exit :: "'z ksys_scheme \<Rightarrow> (u64, 'z ksys_scheme) kres" where
  "sys_exit s = kbind (argint 0 s) (\<lambda>n s. kbind (kexit n s :: (unit, 'z ksys_scheme) kres) (\<lambda>_ s. Ok 0 s))"

definition sys_getpid :: "'z ksys_scheme \<Rightarrow> (u64, 'z ksys_scheme) kres" where
  "sys_getpid s = kbind (myproc s) (\<lambda>p s. Ok (of_int (p_pid (procs s p))) s)"

definition sys_fork :: "'z ksys_scheme \<Rightarrow> (u64, 'z ksys_scheme) kres" where
  "sys_fork s = kbind (kfork s) (\<lambda>v s. Ok (of_int v) s)"

definition sys_wait :: "'z ksys_scheme \<Rightarrow> (u64, 'z ksys_scheme) kres" where
  "sys_wait s = kbind (argaddr 0 s) (\<lambda>p s. kbind (kwait p s) (\<lambda>v s. Ok (of_int v) s))"

definition sys_sbrk :: "'z ksys_scheme \<Rightarrow> (u64, 'z ksys_scheme) kres" where
  "sys_sbrk s =
    kbind (argint 0 s) (\<lambda>n s.
    kbind (argint 1 s) (\<lambda>t s.
    kbind (myproc s) (\<lambda>p s.
    let addr = p_sz (procs s p) in
    if t = SBRK_EAGER \<or> n < 0 then
      kbind (growproc n s) (\<lambda>r s. if r < 0 then Ok (- 1) s else Ok addr s)
    else if addr + of_int n < addr then Ok (- 1) s
    else Ok addr (proc_upd p (\<lambda>q. q\<lparr>p_sz := p_sz q + of_int n\<rparr>) s))))"

text \<open>One round of the loop of \<open>sys_pause\<close>; woken, the process starts the next one.\<close>

definition sys_pause_round :: "u32 \<Rightarrow> int \<Rightarrow> 'z ksys_scheme \<Rightarrow> (u64, 'z ksys_scheme) kres" where
  "sys_pause_round ticks0 n s =
    (if ticks s - ticks0 < of_int n then
       kbind (myproc s) (\<lambda>p s.
       kbind (killed p s) (\<lambda>k s.
         if k \<noteq> 0 then kbind (release LTicks s) (\<lambda>_ s. Ok (- 1) s)
         else sleep ChTicks LTicks s))
     else kbind (release LTicks s) (\<lambda>_ s. Ok 0 s))"

definition sys_pause :: "'z ksys_scheme \<Rightarrow> (u64, 'z ksys_scheme) kres" where
  "sys_pause s =
    kbind (argint 0 s) (\<lambda>n s.
    let n = (if n < 0 then 0 else n) in
    kbind (acquire LTicks s) (\<lambda>_ s. sys_pause_round (ticks s) n s))"

definition sys_kill :: "'z ksys_scheme \<Rightarrow> (u64, 'z ksys_scheme) kres" where
  "sys_kill s = kbind (argint 0 s) (\<lambda>pid s. kbind (kkill pid s) (\<lambda>v s. Ok (of_int v) s))"

definition sys_uptime :: "'z ksys_scheme \<Rightarrow> (u64, 'z ksys_scheme) kres" where
  "sys_uptime s =
    kbind (acquire LTicks s) (\<lambda>_ s.
    let xticks = ticks s in
    kbind (release LTicks s) (\<lambda>_ s. Ok (ucast xticks) s))"

definition sys_hello :: "'z ksys_scheme \<Rightarrow> (u64, 'z ksys_scheme) kres" where
  "sys_hello s =
    kbind (printf (map ch ''Hello from kernel syscall!'' @ [10]) [] s) (\<lambda>_ s.
    kbind (printf (map ch ''I am ICT1012!'' @ [10]) [] s) (\<lambda>_ s.
    Ok 0 s))"

section \<open>Dispatch\<close>

definition NSYSCALLS :: int where "NSYSCALLS = 24"

text \<open>The table \<open>syscalls\<close>; an entry that is not set is null.\<close>

definition syscalls :: "int \<Rightarrow> ('z ksys_scheme \<Rightarrow> (u64, 'z ksys_scheme) kres) option" where
  "syscalls num =
    (if num = 1 then Some sys_fork else if num = 2 then Some sys_exit
     else if num = 3 then Some sys_wait else if num = 4 then Some sys_pipe
     else if num = 5 then Some sys_read else if num = 6 then Some sys_kill
     else if num = 7 then Some sys_exec else if num = 8 then Some sys_fstat
     else if num = 9 then Some sys_chdir else if num = 10 then Some sys_dup
     else if num = 11 then Some sys_getpid else if num = 12 then Some sys_sbrk
     else if num = 13 then Some sys_pause else if num = 14 then Some sys_uptime
     else if num = 15 then Some sys_open else if num = 16 then Some sys_write
     else if num = 17 then Some sys_mknod else if num = 18 then Some sys_unlink
     else if num = 19 then Some sys_link else if num = 20 then Some sys_mkdir
     else if num = 21 then Some sys_close else if num = 23 then Some sys_hello
     else None)"

definition syscall :: "'z ksys_scheme \<Rightarrow> (unit, 'z ksys_scheme) kres" where
  "syscall s =
    kbind (myproc s) (\<lambda>p s.
    let num = to_int (tf_read p (tf_a 7) s) in
    case (if 0 < num \<and> num < NSYSCALLS then syscalls num else None) of
      Some f \<Rightarrow> kbind (f s) (\<lambda>v s. Ok () (tf_write p (tf_a 0) v s))
    | None \<Rightarrow>
        kbind (printf (map ch ''%d %s: unknown sys call %d'' @ [10])
          [PNum (of_int (p_pid (procs s p))), PStr (Some (cstr 16 (p_name (procs s p)))), PNum (of_int num)] s) (\<lambda>_ s.
        Ok () (tf_write p (tf_a 0) (- 1) s)))"

end
