(* ===== verification/Tables.thy ===== *)
theory Tables
  imports Syscall Procflow Transact Tty
begin

text \<open>
  What the tables of open files, descriptors and inodes promise, and the system calls on them.
\<close>

section \<open>Open files\<close>

text \<open>\<open>filealloc\<close> as an allocator of entries of the table.\<close>

definition file_take :: "'z kfile_scheme \<Rightarrow> nat option \<times> 'z kfile_scheme" where
  "file_take s = (case filealloc s of Ok r t \<Rightarrow> (r, t) | _ \<Rightarrow> (None, s))"

definition file_avail :: "'z kfile_scheme \<Rightarrow> nat set" where
  "file_avail s = {f. f < NFILE \<and> f_ref (ftable s f) = 0}"

lemma filealloc_eq:
  fixes s :: "'z kfile_scheme"
  assumes "LFtable \<notin> held s"
  shows "filealloc s = (case scan (\<lambda>f. f_ref (ftable s f) = 0) NFILE of
      Some f \<Rightarrow> Ok (Some f) (file_upd f (\<lambda>x. x\<lparr>f_ref := 1\<rparr>) s) | None \<Rightarrow> Ok None s)"
  using assms by (simp add: filealloc_def acquire_free release_held file_upd_def held_upd_id split: option.split)

interpretation files: allocator file_take file_avail "\<lambda>s. LFtable \<notin> held s"
proof
  fix s :: "'z kfile_scheme" and r t
  assume h: "LFtable \<notin> held s"
  { assume "file_take s = (Some r, t)"
    then have "scan (\<lambda>f. f_ref (ftable s f) = 0) NFILE = Some r" "t = file_upd r (\<lambda>x. x\<lparr>f_ref := 1\<rparr>) s"
      by (auto simp: file_take_def filealloc_eq [OF h] split: option.splits)
    then show "r \<in> file_avail s \<and> file_avail t = file_avail s - {r} \<and> LFtable \<notin> held t"
      using h by (auto simp: file_avail_def scan_Some file_upd_def) }
  { assume "file_take s = (None, t)"
    then show "file_avail s = {}"
      by (auto simp: file_take_def filealloc_eq [OF h] file_avail_def scan_None split: option.splits) }
qed

text \<open>
  \<open>filealloc\<close> hands out entries of the file table that were free, no entry twice, as long as
  there are free ones, however often it is called.
\<close>

theorem filealloc_distinct:
  assumes "LFtable \<notin> held s" "n \<le> card (file_avail s)"
  shows "\<exists>fs t. files.allocs n s = (Some fs, t) \<and> distinct fs \<and> set fs \<subseteq> file_avail s \<and>
    file_avail t = file_avail s - set fs"
proof -
  have "finite (file_avail s)" by (simp add: file_avail_def)
  from files.allocs_enough [OF assms(1) this assms(2)] obtain fs t where a: "files.allocs n s = (Some fs, t)" by blast
  then show ?thesis using files.allocs_distinct [OF assms(1) a] by blast
qed

lemma filealloc_distinct_witness:
  "\<exists>fs t. files.allocs 100 demo_files = (Some fs, t) \<and> distinct fs \<and> file_avail t = file_avail demo_files - set fs"
proof -
  have "file_avail demo_files = {..<100}" by (auto simp: file_avail_def demo_files_def NFILE_def)
  with filealloc_distinct [of demo_files 100] show ?thesis by auto
qed

section \<open>Descriptors\<close>

text \<open>How many descriptors of all processes are the open file \<open>f\<close>.\<close>

definition file_refs :: "'z kprocs_scheme \<Rightarrow> nat \<Rightarrow> nat" where
  "file_refs s f = card {(p, fd). p < NPROC \<and> fd < NOFILE \<and> p_ofile (procs s p) fd = Some f}"

lemma file_refs_set:
  assumes "p < NPROC" "fd < NOFILE" "p_ofile (procs s p) fd = None"
    and "procs t = (procs s)(p := (procs s p)\<lparr>p_ofile := (p_ofile (procs s p))(fd := Some f)\<rparr>)"
  shows "file_refs t g = (if g = f then Suc (file_refs s g) else file_refs s g)"
proof -
  let ?S = "\<lambda>s. {(p, fd). p < NPROC \<and> fd < NOFILE \<and> p_ofile (procs s p) fd = Some g}"
  have fin: "finite (?S s)" by (rule finite_subset [of _ "{..<NPROC} \<times> {..<NOFILE}"]) auto
  show ?thesis
  proof (cases "g = f")
    case True
    then have "?S t = insert (p, fd) (?S s)" "(p, fd) \<notin> ?S s" using assms by (auto split: if_splits)
    then show ?thesis using True fin by (simp add: file_refs_def)
  next
    case False
    then have "?S t = ?S s" using assms by (auto split: if_splits)
    then show ?thesis using False by (simp add: file_refs_def)
  qed
qed

lemma file_refs_pos:
  assumes "p < NPROC" "fd < NOFILE" "p_ofile (procs s p) fd = Some f"
  shows "0 < file_refs s f"
proof -
  let ?S = "{(p, fd). p < NPROC \<and> fd < NOFILE \<and> p_ofile (procs s p) fd = Some f}"
  have "finite ?S" by (rule finite_subset [of _ "{..<NPROC} \<times> {..<NOFILE}"]) auto
  moreover have "(p, fd) \<in> ?S" using assms by simp
  ultimately have "card ?S \<noteq> 0" using card_0_eq by blast
  then show ?thesis by (simp add: file_refs_def)
qed

definition refs_ok :: "'z kfile_scheme \<Rightarrow> bool" where
  "refs_ok s \<longleftrightarrow> (\<forall>f<NFILE. f_ref (ftable s f) = int (file_refs s f))"

lemma argfd_eq:
  fixes s :: "'z ksys_scheme"
  assumes "argint n s = Ok fd s" "curproc s = Some p"
  shows "argfd n s = Ok (if fd < 0 \<or> int NOFILE \<le> fd then None
    else map_option (Pair (nat fd)) (p_ofile (procs s p) (nat fd))) s"
  using assms by (simp add: argfd_def myproc_def split: option.split)

text \<open>
  C26: \<open>dup\<close>. On a descriptor that is not open, or with no descriptor free, it returns -1 and
  changes nothing. Otherwise it returns the lowest descriptor that was free; this now is the same
  open file, whose count of references is one higher, so that every open file still counts
  exactly the descriptors that refer to it.
\<close>

theorem sys_dup_lowest:
  fixes s :: "'z ksys_scheme"
  assumes "argint 0 s = Ok fd s" "curproc s = Some p" "p < NPROC" "held s = {}" "refs_ok s"
    and "\<forall>q<NPROC. \<forall>d<NOFILE. \<forall>f. p_ofile (procs s q) d = Some f \<longrightarrow> f < NFILE"
  shows "case (if fd < 0 \<or> int NOFILE \<le> fd then None else p_ofile (procs s p) (nat fd)) of
      None \<Rightarrow> sys_dup s = Ok (- 1) s
    | Some f \<Rightarrow> (case scan (\<lambda>d. p_ofile (procs s p) d = None) NOFILE of
        None \<Rightarrow> sys_dup s = Ok (- 1) s
      | Some d \<Rightarrow> \<exists>t. sys_dup s = Ok (of_nat d) t \<and> p_ofile (procs t p) = (p_ofile (procs s p))(d := Some f) \<and>
          f_ref (ftable t f) = f_ref (ftable s f) + 1 \<and> refs_ok t)"
proof (cases "if fd < 0 \<or> int NOFILE \<le> fd then None else p_ofile (procs s p) (nat fd)")
  case None
  then show ?thesis
    by (auto simp: sys_dup_def argfd_eq [OF assms(1,2)] split: if_splits)
next
  case (Some f)
  then have fd: "\<not> (fd < 0 \<or> int NOFILE \<le> fd)" "p_ofile (procs s p) (nat fd) = Some f"
    by (auto split: if_splits)
  then have "nat fd < NOFILE" by auto
  then have fN: "f < NFILE" using assms(3,6) fd(2) by blast
  have a: "argfd 0 s = Ok (Some (nat fd, f)) s" using argfd_eq [OF assms(1,2)] fd by simp
  show ?thesis
  proof (cases "scan (\<lambda>d. p_ofile (procs s p) d = None) NOFILE")
    case None
    then show ?thesis using Some a assms(2) by (simp add: sys_dup_def fdalloc_def myproc_def)
  next
    case (Some d)
    then have d: "d < NOFILE" "p_ofile (procs s p) d = None" by (auto simp: scan_Some)
    have pos: "\<not> f_ref (ftable s f) < 1"
    proof -
      have "0 < file_refs s f" using assms(3) \<open>nat fd < NOFILE\<close> fd(2) by (rule file_refs_pos)
      then show ?thesis using assms(5) fN by (simp add: refs_ok_def)
    qed
    let ?t = "file_upd f (\<lambda>x. x\<lparr>f_ref := f_ref x + 1\<rparr>) (set_ofile p d (Some f) s)"
    have "sys_dup s = Ok (of_int (int d)) ?t"
      using a Some assms(2,4) pos
      by (simp add: sys_dup_def fdalloc_def myproc_def filedup_def acquire_free release_held set_ofile_def proc_upd_def
          file_upd_def)
    moreover have "refs_ok ?t"
    proof -
      have p: "procs ?t = (procs s)(p := (procs s p)\<lparr>p_ofile := (p_ofile (procs s p))(d := Some f)\<rparr>)"
        by (simp add: set_ofile_def proc_upd_def file_upd_def)
      show ?thesis
        using assms(5) file_refs_set [OF assms(3) d(1) d(2) p]
        by (auto simp: refs_ok_def file_upd_def set_ofile_def proc_upd_def)
    qed
    ultimately show ?thesis
      using Some \<open>(if fd < 0 \<or> int NOFILE \<le> fd then None else p_ofile (procs s p) (nat fd)) = Some f\<close>
      by (simp add: set_ofile_def proc_upd_def file_upd_def)
  qed
qed

definition demo_sys :: ksys where
  "demo_sys = (kfile.extend demo_files (ksys.fields 0))\<lparr>pmem := (\<lambda>_. 0),
    procs := (\<lambda>_. demo_proc)(0 := demo_proc\<lparr>p_ofile := (\<lambda>_. None)(0 := Some 0)\<rparr>),
    ftable := (ftable demo_files)(0 := (ftable demo_files 0)\<lparr>f_ref := 1\<rparr>)\<rparr>"

lemma demo_sys_fields [simp]:
  "held demo_sys = {}" "pmem demo_sys = (\<lambda>_. 0)" "curproc demo_sys = Some 0" "ticks demo_sys = 0"
  "procs demo_sys = (\<lambda>_. demo_proc)(0 := demo_proc\<lparr>p_ofile := (\<lambda>_. None)(0 := Some 0)\<rparr>)"
  "panicked demo_sys = False" "panicking demo_sys = False"
  by (simp_all add: demo_sys_def kfile.defs ksys.defs demo_files_def)

lemma demo_sys_refs: "f_ref (ftable demo_sys f) = (if f = 0 then 1 else 0)"
  by (simp add: demo_sys_def kfile.defs ksys.defs demo_files_def)

lemma demo_sys_ofile: "p_ofile (procs demo_sys q) d = (if q = 0 \<and> d = 0 then Some 0 else None)"
  by (simp add: demo_proc_def)

lemma demo_sys_refs_ok: "refs_ok demo_sys"
proof -
  have "file_refs demo_sys f = (if f = 0 then 1 else 0)" for f
  proof -
    have "{(p, fd). p < NPROC \<and> fd < NOFILE \<and> p_ofile (procs demo_sys p) fd = Some f} = (if f = 0 then {(0, 0)} else {})"
      unfolding demo_sys_ofile by (auto simp: NPROC_def NOFILE_def split: if_splits)
    then show ?thesis by (simp add: file_refs_def)
  qed
  then show ?thesis by (simp add: refs_ok_def demo_sys_refs)
qed

lemma demo_argint: "argint n demo_sys = (if n \<le> 5 then Ok 0 demo_sys else Panic ''argraw'')"
  by (simp add: argint_def argraw_def myproc_def tf_read_def to_int_def read64_zero)

lemma sys_dup_lowest_witness:
  "\<exists>t. sys_dup demo_sys = Ok 1 t \<and> p_ofile (procs t 0) = (\<lambda>_. None)(0 := Some 0, 1 := Some 0) \<and>
    f_ref (ftable t 0) = 2 \<and> refs_ok t"
proof -
  have "scan (\<lambda>d. p_ofile (procs demo_sys 0) d = None) NOFILE = Some 1"
    unfolding scan_Some by (auto simp: NOFILE_def)
  moreover have "p_ofile (procs demo_sys 0) (nat 0) = Some 0" "int NOFILE > 0"
    by (simp_all add: NOFILE_def)
  ultimately show ?thesis
    using sys_dup_lowest [of demo_sys 0 0] demo_sys_refs_ok
    by (simp add: demo_argint NPROC_def demo_sys_refs demo_sys_ofile NFILE_def del: demo_sys_fields(5))
      (simp add: demo_proc_def)
qed

end
