(* ===== verification/Itable.thy ===== *)
theory Itable
  imports Fs Pipeflow
begin

text \<open>
  The table of inodes in memory: \<open>iget\<close> keeps one entry per inode of the disk, so that the entry
  (and its sleep lock) identifies the inode.
\<close>

definition itab_ok :: "(nat \<Rightarrow> inode) \<Rightarrow> bool" where
  "itab_ok it \<longleftrightarrow>
    (\<forall>i<NINODE. 0 \<le> i_ref (it i)) \<and>
    (\<forall>i<NINODE. \<forall>j<NINODE. 0 < i_ref (it i) \<and> 0 < i_ref (it j) \<and>
      i_dev (it i) = i_dev (it j) \<and> i_inum (it i) = i_inum (it j) \<longrightarrow> i = j)"

lemma itab_okD:
  assumes "itab_ok it" "i < NINODE" "j < NINODE" "0 < i_ref (it i)" "0 < i_ref (it j)"
    "i_dev (it i) = i_dev (it j)" "i_inum (it i) = i_inum (it j)"
  shows "i = j"
  using assms unfolding itab_ok_def by blast

text \<open>The entries in use for an inode, and what \<open>iget\<close> makes of its entry.\<close>

definition cached :: "(nat \<Rightarrow> inode) \<Rightarrow> u32 \<Rightarrow> u32 \<Rightarrow> nat \<Rightarrow> bool" where
  "cached it dev inum i \<longleftrightarrow> i < NINODE \<and> 0 < i_ref (it i) \<and> i_dev (it i) = dev \<and> i_inum (it i) = inum"

definition got :: "(nat \<Rightarrow> inode) \<Rightarrow> u32 \<Rightarrow> u32 \<Rightarrow> nat \<Rightarrow> inode" where
  "got it dev inum i =
    (if cached it dev inum i then (it i)\<lparr>i_ref := i_ref (it i) + 1\<rparr>
     else (it i)\<lparr>i_dev := dev, i_inum := inum, i_ref := 1, i_valid := False\<rparr>)"

lemma got_fields [simp]:
  "cached it dev inum i \<Longrightarrow> i_ref (got it dev inum i) = i_ref (it i) + 1"
  "\<not> cached it dev inum i \<Longrightarrow> i_ref (got it dev inum i) = 1"
  "i_dev (got it dev inum i) = dev" "i_inum (got it dev inum i) = inum"
  by (auto simp: got_def cached_def)

lemma cachedI: "i < NINODE \<Longrightarrow> 0 < i_ref (it i) \<Longrightarrow> i_dev (it i) = dev \<Longrightarrow> i_inum (it i) = inum \<Longrightarrow> cached it dev inum i"
  by (simp add: cached_def)

lemma cachedD: "cached it dev inum i \<Longrightarrow> i < NINODE \<and> 0 < i_ref (it i) \<and> i_dev (it i) = dev \<and> i_inum (it i) = inum"
  by (simp add: cached_def)

lemma cached_unique: "itab_ok it \<Longrightarrow> cached it dev inum ip \<Longrightarrow> cached it dev inum i \<longleftrightarrow> i = ip"
  using itab_okD [of it i ip] cachedD [of it dev inum i] cachedD [of it dev inum ip] by auto

lemma got_ref_pos: "0 < i_ref (got it dev inum ip)"
  by (cases "cached it dev inum ip") (auto dest: cachedD)

lemma cached_got: "ip < NINODE \<Longrightarrow> cached (it(ip := got it dev inum ip)) dev inum ip"
  by (rule cachedI) (simp_all add: got_ref_pos)

lemma iget_cases:
  fixes s :: "'z kfs_scheme"
  assumes "LItable \<notin> held s"
  shows "iget dev inum s =
    (case scan (\<lambda>i. 0 < i_ref (itab s i) \<and> i_dev (itab s i) = dev \<and> i_inum (itab s i) = inum) NINODE of
       Some ip \<Rightarrow> Ok ip (s\<lparr>itab := (itab s)(ip := got (itab s) dev inum ip)\<rparr>)
     | None \<Rightarrow> (case scan (\<lambda>i. i_ref (itab s i) = 0) NINODE of
         None \<Rightarrow> Panic ''iget: no inodes''
       | Some ip \<Rightarrow> Ok ip (s\<lparr>itab := (itab s)(ip := got (itab s) dev inum ip)\<rparr>)))"
proof (cases "scan (\<lambda>i. 0 < i_ref (itab s i) \<and> i_dev (itab s i) = dev \<and> i_inum (itab s i) = inum) NINODE")
  case (Some ip)
  then have "cached (itab s) dev inum ip" by (simp add: scan_Some cached_def)
  then show ?thesis
    using Some assms by (simp add: iget_def acquire_free release_held ino_upd_def got_def Let_def)
next
  case None
  then have "\<not> cached (itab s) dev inum ip" for ip by (auto simp: scan_None cached_def)
  then show ?thesis
    using None assms by (simp add: iget_def acquire_free release_held ino_upd_def got_def Let_def split: option.split)
qed

lemma itab_ok_got:
  assumes "itab_ok it" "ip < NINODE" "cached it dev inum ip \<or> (i_ref (it ip) = 0 \<and> (\<forall>i. \<not> cached it dev inum i))"
  shows "itab_ok (it(ip := got it dev inum ip))"
proof -
  let ?it = "it(ip := got it dev inum ip)"
  have other: "i = ip" if "i < NINODE" "0 < i_ref (it i)" "i_dev (it i) = dev" "i_inum (it i) = inum" for i
    using assms(3) cached_unique [OF assms(1)] cachedI [of i it dev inum] that by blast
  have "0 < i_ref (got it dev inum ip)" by (rule got_ref_pos)
  then have "0 \<le> i_ref (?it i)" if "i < NINODE" for i
    using assms(1) that by (simp add: itab_ok_def)
  moreover have "i = j" if "i < NINODE" "j < NINODE" "0 < i_ref (?it i)" "0 < i_ref (?it j)"
    "i_dev (?it i) = i_dev (?it j)" "i_inum (?it i) = i_inum (?it j)" for i j
  proof -
    consider "i = ip" "j = ip" | "i = ip" "j \<noteq> ip" | "i \<noteq> ip" "j = ip" | "i \<noteq> ip" "j \<noteq> ip" by blast
    then show ?thesis
    proof cases
      case 2
      then have "j = ip" using that by (intro other) simp_all
      then show ?thesis using 2 by simp
    next
      case 3
      then have "i = ip" using that by (intro other) simp_all
      then show ?thesis using 3 by simp
    next
      case 4
      then show ?thesis using itab_okD [OF assms(1), of i j] that by simp
    qed simp
  qed
  ultimately show ?thesis unfolding itab_ok_def by simp
qed

text \<open>
  C27: \<open>iget\<close> never gives an inode of the disk two entries of the table. It returns the entry that
  is in use for the inode, counting one more reference and leaving what is cached there, or takes
  the first free entry, marking it not read; it panics exactly if there is neither, and every
  other entry is left alone.
\<close>

theorem iget_unique:
  fixes s :: "'z kfs_scheme"
  assumes "itab_ok (itab s)" "LItable \<notin> held s"
  shows "case iget dev inum s of
      Ok ip t \<Rightarrow> t = s\<lparr>itab := (itab s)(ip := got (itab s) dev inum ip)\<rparr> \<and> itab_ok (itab t) \<and>
        (\<forall>i. cached (itab t) dev inum i \<longleftrightarrow> i = ip) \<and>
        (if \<exists>i. cached (itab s) dev inum i then cached (itab s) dev inum ip
         else i_ref (itab s ip) = 0 \<and> (\<forall>i<ip. 0 < i_ref (itab s i)))
    | Panic e \<Rightarrow> (\<forall>i. \<not> cached (itab s) dev inum i) \<and> (\<forall>i<NINODE. 0 < i_ref (itab s i))
    | Block t \<Rightarrow> False"
proof -
  have one: "\<forall>i. cached it dev inum i \<longleftrightarrow> i = ip" if "itab_ok it" "cached it dev inum ip" for it ip
    using cached_unique [OF that] by blast
  have nonneg: "0 < i_ref (itab s i)" if "i < NINODE" "i_ref (itab s i) \<noteq> 0" for i
    using assms(1) that by (simp add: itab_ok_def order_less_le)
  let ?C = "\<lambda>i. 0 < i_ref (itab s i) \<and> i_dev (itab s i) = dev \<and> i_inum (itab s i) = inum"
  show ?thesis
  proof (cases "scan ?C NINODE")
    case (Some ip)
    then have c: "cached (itab s) dev inum ip" "ip < NINODE" by (auto simp: scan_Some cached_def)
    then have ok: "itab_ok ((itab s)(ip := got (itab s) dev inum ip))" using assms(1) by (intro itab_ok_got) auto
    then show ?thesis using Some one [OF ok cached_got [OF c(2)]] c(1) by (auto simp: iget_cases [OF assms(2)])
  next
    case None
    then have nc: "\<forall>i. \<not> cached (itab s) dev inum i" by (auto simp: scan_None cached_def)
    show ?thesis
    proof (cases "scan (\<lambda>i. i_ref (itab s i) = 0) NINODE")
      case None
      then have "\<forall>i<NINODE. 0 < i_ref (itab s i)" using nonneg by (simp add: scan_None)
      then show ?thesis using nc None \<open>scan ?C NINODE = None\<close> by (simp add: iget_cases [OF assms(2)])
    next
      case (Some ip)
      then have f: "ip < NINODE" "i_ref (itab s ip) = 0" "\<forall>i<ip. i_ref (itab s i) \<noteq> 0" by (auto simp: scan_Some)
      then have ok: "itab_ok ((itab s)(ip := got (itab s) dev inum ip))" using assms(1) nc by (intro itab_ok_got) auto
      show ?thesis
        using one [OF ok cached_got [OF f(1)]] ok f nc nonneg \<open>scan ?C NINODE = None\<close> Some
        by (simp add: iget_cases [OF assms(2)])
    qed
  qed
qed

lemma iget_unique_witness:
  "\<exists>t. iget 1 7 demo_files = Ok 0 t \<and> cached (itab t) 1 7 0"
proof -
  have z: "i_ref (itab demo_files i) = 0" for i by (simp add: demo_files_def demo_inode_def)
  have "scan (\<lambda>i. i_ref (itab demo_files i) = 0) NINODE = Some 0"
    unfolding scan_Some by (simp add: z NINODE_def)
  moreover have "scan (\<lambda>i. 0 < i_ref (itab demo_files i) \<and> i_dev (itab demo_files i) = 1 \<and> i_inum (itab demo_files i) = 7) NINODE = None"
    unfolding scan_None by (simp add: z)
  ultimately have "iget 1 7 demo_files = Ok 0 (demo_files\<lparr>itab := (itab demo_files)(0 := got (itab demo_files) 1 7 0)\<rparr>)"
    by (simp add: iget_cases)
  moreover have "itab_ok (itab demo_files)" by (simp add: itab_ok_def z)
  ultimately show ?thesis using iget_unique [of demo_files 1 7] by simp
qed

end
