(* ===== verification/Sysedge.thy ===== *)
theory Sysedge
  imports Tables
begin

text \<open>
  System calls at the edges of what the kernel checks: numbers without an entry in the table, and
  the size of a process that allocates lazily.
\<close>

section \<open>Unknown system calls\<close>

lemma sent_trapframe:
  assumes "sent s t"
  shows "pmem t = pmem s" "procs t = procs s" "ftable t = ftable s" "itab t = itab s" "disk t = disk s" "bufs t = bufs s"
  using assms by (auto simp: sent_def)

text \<open>
  A system call number without an entry in the table \<open>syscalls\<close>, be it negative or the hole at
  22, prints a message and returns -1 to the process; it changes the console's output and the
  saved register \<open>a0\<close>, and nothing else of processes, files or disk.
\<close>

theorem syscall_unknown:
  fixes s :: "'z ksys_scheme"
  assumes "curproc s = Some p" "\<not> panicked s" "LPr \<notin> held s"
    and "to_int (tf_read p (tf_a 7) s) \<notin> {1..23} - {22}"
  shows "\<exists>t. syscall s = Ok () t \<and> tf_read p (tf_a 0) t = - 1 \<and>
    pmem t = write64 (pmem s) (p_trapframe (procs s p) + tf_a 0) (- 1) \<and>
    procs t = procs s \<and> held t = held s \<and> ftable t = ftable s \<and> itab t = itab s \<and> disk t = disk s \<and> bufs t = bufs s"
proof -
  let ?n = "to_int (tf_read p (tf_a 7) s)"
  have none: "(if 0 < ?n \<and> ?n < NSYSCALLS then syscalls ?n else None) = None"
  proof (cases "0 < ?n \<and> ?n < 24")
    case True
    with assms(4) have "?n = 22" by auto
    then show ?thesis by (simp add: syscalls_def)
  qed (auto simp: NSYSCALLS_def)
  have "wp (syscall s) (\<lambda>_ t. tf_read p (tf_a 0) t = - 1 \<and>
    pmem t = write64 (pmem s) (p_trapframe (procs s p) + tf_a 0) (- 1) \<and>
    procs t = procs s \<and> held t = held s \<and> ftable t = ftable s \<and> itab t = itab s \<and> disk t = disk s \<and> bufs t = bufs s)"
    unfolding syscall_def myproc_Some [OF assms(1)] kbind_simps Let_def none option.case wp_kbind
    by (rule wp_mono [OF printf_sent [OF assms(2,3)]])
      (simp add: wp_basic tf_read_def tf_write_def sent_trapframe sent_fields)
  then show ?thesis by (auto simp: wp_iff)
qed

lemma syscall_unknown_witness: "\<exists>t. syscall demo_sys = Ok () t \<and> tf_read 0 (tf_a 0) t = - 1"
proof -
  have "tf_read 0 (tf_a 7) demo_sys = 0"
    by (simp add: tf_read_def read64_zero)
  then show ?thesis using syscall_unknown [of demo_sys 0] by (auto simp: to_int_def)
qed

section \<open>Lazy allocation\<close>

lemma vmfault_beyond:
  assumes "curproc s = Some p" "va < p_sz (procs s p)" "MAXVA \<le> va"
  shows "vmfault pagetable va s = Panic ''walk''"
proof -
  have "MAXVA \<le> PGROUNDDOWN va" using assms(3)
    by (simp add: word_le_nat_alt unat_PGROUNDDOWN MAXVA_def PGSIZE_def)
  then show ?thesis using assms
    by (simp add: vmfault_def myproc_def not_le [symmetric] ismapped_def walk_def Let_def)
qed

text \<open>
  C28: a lazy \<open>sbrk\<close> accepts every size that does not wrap around, however far above the highest
  virtual address. Once a process is that large, it panics the kernel from user mode: any copy
  from an address at or above \<open>MAXVA\<close> (the buffer of a \<open>write\<close>, say) reaches \<open>walk\<close>, which
  panics. So does a page fault there.
\<close>

theorem sbrk_lazy_panic:
  fixes s :: "'z ksys_scheme"
  assumes "curproc s = Some p" "argint 0 s = Ok n s" "argint 1 s = Ok t s" "t \<noteq> SBRK_EAGER" "0 \<le> n"
    and "unat (p_sz (procs s p)) + nat n < 2 ^ 64"
    and "MAXVA \<le> va" "unat va < unat (p_sz (procs s p)) + nat n" "0 < len"
  shows "\<exists>u. sys_sbrk s = Ok (p_sz (procs s p)) u \<and> unat (p_sz (procs u p)) = unat (p_sz (procs s p)) + nat n \<and>
    pmem u = pmem s \<and> copyin (p_pagetable (procs u p)) buf va len u = Panic ''walk'' \<and>
    vmfault (p_pagetable (procs u p)) va u = Panic ''walk''"
proof -
  define u where "u = proc_upd p (\<lambda>q. q\<lparr>p_sz := p_sz q + of_int n\<rparr>) s"
  let ?sz = "p_sz (procs s p)"
  have n: "(of_int n :: u64) = of_nat (nat n)" using assms(5) by simp
  have sum: "unat (?sz + of_int n) = unat ?sz + nat n"
    unfolding n using assms(6) by (simp add: unat_word_ariths unat_of_nat)
  then have "\<not> ?sz + of_int n < ?sz" by (simp add: word_less_nat_alt)
  then have r: "sys_sbrk s = Ok ?sz u"
    using assms(1-5) by (simp add: sys_sbrk_def myproc_def Let_def u_def)
  have uf: "curproc u = Some p" "p_sz (procs u p) = ?sz + of_int n" "pmem u = pmem s"
    using assms(1) by (simp_all add: u_def proc_upd_def)
  have hi: "MAXVA \<le> PGROUNDDOWN va" using assms(7)
    by (simp add: word_le_nat_alt unat_PGROUNDDOWN MAXVA_def PGSIZE_def)
  have lt: "va < p_sz (procs u p)" using assms(8) by (simp add: uf word_less_nat_alt sum)
  then have "PGROUNDDOWN va < p_sz (procs u p)" using PGROUNDDOWN_le order_le_less_trans by blast
  then have "vmfault pt (PGROUNDDOWN va) u = Panic ''walk''" for pt
    using vmfault_beyond [OF uf(1)] hi by blast
  moreover have "walkaddr pt (PGROUNDDOWN va) u = Ok 0 u" for pt using hi by (simp add: walkaddr_def)
  ultimately have "copyin pt buf va len u = Panic ''walk''" for pt
    using assms(9) by (subst copyin_def, subst copyin_from.simps) (simp add: Let_def)
  then show ?thesis using r uf(2,3) sum vmfault_beyond [OF uf(1) lt assms(7)] by simp
qed

definition demo_lazy :: ksys where
  "demo_lazy = demo_sys\<lparr>procs := (\<lambda>_. demo_proc\<lparr>p_sz := 0x3fffffd000\<rparr>),
    pmem := write64 (\<lambda>_. 0) 0x87004070 0x10000\<rparr>"

lemma sbrk_lazy_panic_witness:
  "\<exists>u. sys_sbrk demo_lazy = Ok 0x3fffffd000 u \<and>
    copyin (p_pagetable (procs u 0)) (\<lambda>_. 0) 0x4000000000 1 u = Panic ''walk''"
proof -
  have p: "curproc demo_lazy = Some 0" "p_sz (procs demo_lazy 0) = 0x3fffffd000" "p_trapframe (procs demo_lazy 0) = 0x87004000"
    by (simp_all add: demo_lazy_def demo_proc_def)
  have "tf_read 0 (tf_a 0) demo_lazy = 0x10000"
    unfolding tf_read_def p by (simp add: demo_lazy_def tf_a_def)
  then have a0: "argint 0 demo_lazy = Ok 0x10000 demo_lazy"
    using p(1) by (simp add: argint_def argraw_def myproc_def to_int_def)
  have "read64 (write64 (\<lambda>_. 0) 0x87004070 0x10000) 0x87004078 = read64 (\<lambda>_. 0) 0x87004078"
    by (rule read64_cong) (auto simp: write64_def in_range_iff)
  then have "tf_read 0 (tf_a 1) demo_lazy = 0"
    unfolding tf_read_def p by (simp add: demo_lazy_def tf_a_def read64_zero)
  then have a1: "argint 1 demo_lazy = Ok 0 demo_lazy"
    using p(1) by (simp add: argint_def argraw_def myproc_def to_int_def)
  show ?thesis
    using sbrk_lazy_panic [OF p(1) a0 a1, of "0x4000000000" 1 "\<lambda>_. 0"]
    by (auto simp: p SBRK_EAGER_def MAXVA_def)
qed

end
