(* ===== verification/Virtio.thy ===== *)
theory Virtio
  imports Syscall
begin

text \<open>
  The disk driver: \<^verbatim>\<open>kernel/virtio_disk.c\<close>.

  \<open>vd\<close> is \<open>struct disk\<close>: the descriptor table, the rings shared with the device, and the
  driver's book-keeping. The device's registers are seen through \<open>vd_mmio\<close>: what a register
  reads as, given the stores to registers so far (\<open>vd_stores\<close>, oldest first). Buffers are numbered
  as in the theory \<open>Bio\<close>; the physical addresses that descriptors carry come from \<open>vd_addr_op\<close>
  (of a request header), \<open>vd_addr_data\<close> (of a buffer's data) and \<open>vd_addr_status\<close>. What the
  device does is not modelled here; \<open>Bio.virtio_disk_rw\<close> is the contract of a whole transfer.
\<close>

section \<open>State\<close>

definition NUM :: nat where "NUM = 8"

record virtq_desc =
  d_addr :: u64
  d_len :: u32
  d_flags :: u16
  d_next :: u16

record virtio_blk_req =
  rq_type :: u32
  rq_reserved :: u32
  rq_sector :: u64

record vdisk =
  vd_descp :: u64
  vd_availp :: u64
  vd_usedp :: u64
  vd_desc :: "nat \<Rightarrow> virtq_desc"
  av_idx :: u16
  av_ring :: "nat \<Rightarrow> u16"
  us_idx :: u16
  us_ring :: "nat \<Rightarrow> u32"
  vd_free :: "nat \<Rightarrow> bool"
  vd_used_idx :: u16
  vd_info_b :: "nat \<Rightarrow> nat option"
  vd_info_status :: "nat \<Rightarrow> u8"
  vd_ops :: "nat \<Rightarrow> virtio_blk_req"
  vd_mmio :: "(nat \<times> u32) list \<Rightarrow> nat \<Rightarrow> u32"
  vd_stores :: "(nat \<times> u32) list"
  vd_addr_op :: "nat \<Rightarrow> u64"
  vd_addr_data :: "nat \<Rightarrow> u64"
  vd_addr_status :: "nat \<Rightarrow> u64"

record kvirtio = ksys +
  vd :: vdisk

definition vd_upd :: "(vdisk \<Rightarrow> vdisk) \<Rightarrow> 'z kvirtio_scheme \<Rightarrow> 'z kvirtio_scheme" where
  "vd_upd f s = s\<lparr>vd := f (vd s)\<rparr>"

text \<open>\<open>*R(r)\<close>, read and written.\<close>

definition mmio_read :: "nat \<Rightarrow> 'z kvirtio_scheme \<Rightarrow> u32" where
  "mmio_read r s = vd_mmio (vd s) (vd_stores (vd s)) r"

definition mmio_write :: "nat \<Rightarrow> u32 \<Rightarrow> 'z kvirtio_scheme \<Rightarrow> 'z kvirtio_scheme" where
  "mmio_write r v s = vd_upd (\<lambda>d. d\<lparr>vd_stores := vd_stores d @ [(r, v)]\<rparr>) s"

definition VIRTIO_MMIO_MAGIC_VALUE :: nat where "VIRTIO_MMIO_MAGIC_VALUE = 0x000"
definition VIRTIO_MMIO_VERSION :: nat where "VIRTIO_MMIO_VERSION = 0x004"
definition VIRTIO_MMIO_DEVICE_ID :: nat where "VIRTIO_MMIO_DEVICE_ID = 0x008"
definition VIRTIO_MMIO_VENDOR_ID :: nat where "VIRTIO_MMIO_VENDOR_ID = 0x00c"
definition VIRTIO_MMIO_DEVICE_FEATURES :: nat where "VIRTIO_MMIO_DEVICE_FEATURES = 0x010"
definition VIRTIO_MMIO_DRIVER_FEATURES :: nat where "VIRTIO_MMIO_DRIVER_FEATURES = 0x020"
definition VIRTIO_MMIO_QUEUE_SEL :: nat where "VIRTIO_MMIO_QUEUE_SEL = 0x030"
definition VIRTIO_MMIO_QUEUE_NUM_MAX :: nat where "VIRTIO_MMIO_QUEUE_NUM_MAX = 0x034"
definition VIRTIO_MMIO_QUEUE_NUM :: nat where "VIRTIO_MMIO_QUEUE_NUM = 0x038"
definition VIRTIO_MMIO_QUEUE_READY :: nat where "VIRTIO_MMIO_QUEUE_READY = 0x044"
definition VIRTIO_MMIO_QUEUE_NOTIFY :: nat where "VIRTIO_MMIO_QUEUE_NOTIFY = 0x050"
definition VIRTIO_MMIO_INTERRUPT_STATUS :: nat where "VIRTIO_MMIO_INTERRUPT_STATUS = 0x060"
definition VIRTIO_MMIO_INTERRUPT_ACK :: nat where "VIRTIO_MMIO_INTERRUPT_ACK = 0x064"
definition VIRTIO_MMIO_STATUS :: nat where "VIRTIO_MMIO_STATUS = 0x070"
definition VIRTIO_MMIO_QUEUE_DESC_LOW :: nat where "VIRTIO_MMIO_QUEUE_DESC_LOW = 0x080"
definition VIRTIO_MMIO_QUEUE_DESC_HIGH :: nat where "VIRTIO_MMIO_QUEUE_DESC_HIGH = 0x084"
definition VIRTIO_MMIO_DRIVER_DESC_LOW :: nat where "VIRTIO_MMIO_DRIVER_DESC_LOW = 0x090"
definition VIRTIO_MMIO_DRIVER_DESC_HIGH :: nat where "VIRTIO_MMIO_DRIVER_DESC_HIGH = 0x094"
definition VIRTIO_MMIO_DEVICE_DESC_LOW :: nat where "VIRTIO_MMIO_DEVICE_DESC_LOW = 0x0a0"
definition VIRTIO_MMIO_DEVICE_DESC_HIGH :: nat where "VIRTIO_MMIO_DEVICE_DESC_HIGH = 0x0a4"
definition VIRTIO_CONFIG_S_ACKNOWLEDGE :: u32 where "VIRTIO_CONFIG_S_ACKNOWLEDGE = 1"
definition VIRTIO_CONFIG_S_DRIVER :: u32 where "VIRTIO_CONFIG_S_DRIVER = 2"
definition VIRTIO_CONFIG_S_DRIVER_OK :: u32 where "VIRTIO_CONFIG_S_DRIVER_OK = 4"
definition VIRTIO_CONFIG_S_FEATURES_OK :: u32 where "VIRTIO_CONFIG_S_FEATURES_OK = 8"
definition VIRTIO_BLK_F_RO :: nat where "VIRTIO_BLK_F_RO = 5"
definition VIRTIO_BLK_F_SCSI :: nat where "VIRTIO_BLK_F_SCSI = 7"
definition VIRTIO_BLK_F_CONFIG_WCE :: nat where "VIRTIO_BLK_F_CONFIG_WCE = 11"
definition VIRTIO_BLK_F_MQ :: nat where "VIRTIO_BLK_F_MQ = 12"
definition VIRTIO_F_ANY_LAYOUT :: nat where "VIRTIO_F_ANY_LAYOUT = 27"
definition VIRTIO_RING_F_INDIRECT_DESC :: nat where "VIRTIO_RING_F_INDIRECT_DESC = 28"
definition VIRTIO_RING_F_EVENT_IDX :: nat where "VIRTIO_RING_F_EVENT_IDX = 29"
definition VRING_DESC_F_NEXT :: u16 where "VRING_DESC_F_NEXT = 1"
definition VRING_DESC_F_WRITE :: u16 where "VRING_DESC_F_WRITE = 2"
definition VIRTIO_BLK_T_IN :: u32 where "VIRTIO_BLK_T_IN = 0"
definition VIRTIO_BLK_T_OUT :: u32 where "VIRTIO_BLK_T_OUT = 1"

section \<open>Initialisation\<close>

definition clear_bit :: "nat \<Rightarrow> u32 \<Rightarrow> u32" where
  "clear_bit n v = v AND NOT (push_bit n 1)"

definition negotiate :: "u32 \<Rightarrow> u32" where
  "negotiate features =
    (let features = clear_bit VIRTIO_BLK_F_RO features;
         features = clear_bit VIRTIO_BLK_F_SCSI features;
         features = clear_bit VIRTIO_BLK_F_CONFIG_WCE features;
         features = clear_bit VIRTIO_BLK_F_MQ features;
         features = clear_bit VIRTIO_F_ANY_LAYOUT features;
         features = clear_bit VIRTIO_RING_F_EVENT_IDX features
     in clear_bit VIRTIO_RING_F_INDIRECT_DESC features)"

text \<open>The memory of the queue, and its registration with the device.\<close>

definition virtio_queue_init :: "u32 \<Rightarrow> 'z kvirtio_scheme \<Rightarrow> (unit, 'z kvirtio_scheme) kres" where
  "virtio_queue_init status s =
    kbind (kalloc s) (\<lambda>desc s.
    kbind (kalloc s) (\<lambda>avail s.
    kbind (kalloc s) (\<lambda>used s.
      if desc = 0 \<or> avail = 0 \<or> used = 0 then Panic ''virtio disk kalloc''
      else
        let s = memset_page_k used 0 (memset_page_k avail 0 (memset_page_k desc 0 s));
            s = vd_upd (\<lambda>d. d\<lparr>vd_descp := desc, vd_availp := avail, vd_usedp := used,
                  vd_desc := (\<lambda>_. \<lparr>d_addr = 0, d_len = 0, d_flags = 0, d_next = 0\<rparr>),
                  av_idx := 0, av_ring := (\<lambda>_. 0), us_idx := 0, us_ring := (\<lambda>_. 0)\<rparr>) s;
            s = mmio_write VIRTIO_MMIO_QUEUE_NUM (of_nat NUM) s;
            s = mmio_write VIRTIO_MMIO_QUEUE_DESC_LOW (ucast desc) s;
            s = mmio_write VIRTIO_MMIO_QUEUE_DESC_HIGH (ucast (drop_bit 32 desc)) s;
            s = mmio_write VIRTIO_MMIO_DRIVER_DESC_LOW (ucast avail) s;
            s = mmio_write VIRTIO_MMIO_DRIVER_DESC_HIGH (ucast (drop_bit 32 avail)) s;
            s = mmio_write VIRTIO_MMIO_DEVICE_DESC_LOW (ucast used) s;
            s = mmio_write VIRTIO_MMIO_DEVICE_DESC_HIGH (ucast (drop_bit 32 used)) s;
            s = mmio_write VIRTIO_MMIO_QUEUE_READY 1 s;
            s = vd_upd (\<lambda>d. d\<lparr>vd_free := (\<lambda>i. if i < NUM then True else vd_free d i)\<rparr>) s
        in Ok () (mmio_write VIRTIO_MMIO_STATUS (status OR VIRTIO_CONFIG_S_DRIVER_OK) s))))"

definition virtio_disk_init :: "'z kvirtio_scheme \<Rightarrow> (unit, 'z kvirtio_scheme) kres" where
  "virtio_disk_init s =
    (let s = s\<lparr>held := held s - {LVdisk}\<rparr> in
     if mmio_read VIRTIO_MMIO_MAGIC_VALUE s \<noteq> 0x74726976 \<or> mmio_read VIRTIO_MMIO_VERSION s \<noteq> 2 \<or>
        mmio_read VIRTIO_MMIO_DEVICE_ID s \<noteq> 2 \<or> mmio_read VIRTIO_MMIO_VENDOR_ID s \<noteq> 0x554d4551
     then Panic ''could not find virtio disk''
     else
       let status = (0 :: u32);
           s = mmio_write VIRTIO_MMIO_STATUS status s;
           status = status OR VIRTIO_CONFIG_S_ACKNOWLEDGE;
           s = mmio_write VIRTIO_MMIO_STATUS status s;
           status = status OR VIRTIO_CONFIG_S_DRIVER;
           s = mmio_write VIRTIO_MMIO_STATUS status s;
           features = negotiate (mmio_read VIRTIO_MMIO_DEVICE_FEATURES s);
           s = mmio_write VIRTIO_MMIO_DRIVER_FEATURES features s;
           status = status OR VIRTIO_CONFIG_S_FEATURES_OK;
           s = mmio_write VIRTIO_MMIO_STATUS status s;
           status = mmio_read VIRTIO_MMIO_STATUS s
       in if status AND VIRTIO_CONFIG_S_FEATURES_OK = 0 then Panic ''virtio disk FEATURES_OK unset''
          else
            let s = mmio_write VIRTIO_MMIO_QUEUE_SEL 0 s in
            if mmio_read VIRTIO_MMIO_QUEUE_READY s \<noteq> 0 then Panic ''virtio disk should not be ready''
            else
              let max = mmio_read VIRTIO_MMIO_QUEUE_NUM_MAX s in
              if max = 0 then Panic ''virtio disk has no queue 0''
              else if max < of_nat NUM then Panic ''virtio disk max queue too short''
              else virtio_queue_init status s)"

section \<open>Descriptors\<close>

definition alloc_desc :: "'z kvirtio_scheme \<Rightarrow> nat option \<times> 'z kvirtio_scheme" where
  "alloc_desc s =
    (case scan (vd_free (vd s)) NUM of
       Some i \<Rightarrow> (Some i, vd_upd (\<lambda>d. d\<lparr>vd_free := (vd_free d)(i := False)\<rparr>) s)
     | None \<Rightarrow> (None, s))"

definition free_desc :: "nat \<Rightarrow> 'z kvirtio_scheme \<Rightarrow> (unit, 'z kvirtio_scheme) kres" where
  "free_desc i s =
    (if NUM \<le> i then Panic ''free_desc 1''
     else if vd_free (vd s) i then Panic ''free_desc 2''
     else
       let s = vd_upd (\<lambda>d. d\<lparr>vd_desc := (vd_desc d)(i := \<lparr>d_addr = 0, d_len = 0, d_flags = 0, d_next = 0\<rparr>)\<rparr>) s;
           s = vd_upd (\<lambda>d. d\<lparr>vd_free := (vd_free d)(i := True)\<rparr>) s
       in wakeup ChDisk s)"

text \<open>
  Each step frees a descriptor that was in use, so a chain has at most \<open>NUM\<close> of them; a cyclic
  one panics in \<open>free_desc\<close>, before the fuel \<open>NUM + 1\<close> of \<open>free_chain\<close> is used up.
\<close>

fun free_chain_loop :: "nat \<Rightarrow> nat \<Rightarrow> 'z kvirtio_scheme \<Rightarrow> (unit, 'z kvirtio_scheme) kres" where
  "free_chain_loop 0 i s = Panic ''free_desc 2''"
| "free_chain_loop (Suc k) i s =
    (let flag = d_flags (vd_desc (vd s) i);
         nx = unat (d_next (vd_desc (vd s) i))
     in kbind (free_desc i s) (\<lambda>_ s.
        if flag AND VRING_DESC_F_NEXT \<noteq> 0 then free_chain_loop k nx s else Ok () s))"

definition free_chain :: "nat \<Rightarrow> 'z kvirtio_scheme \<Rightarrow> (unit, 'z kvirtio_scheme) kres" where
  "free_chain i s = free_chain_loop (NUM + 1) i s"

fun alloc_descs :: "nat \<Rightarrow> nat list \<Rightarrow> 'z kvirtio_scheme \<Rightarrow> (nat list option, 'z kvirtio_scheme) kres" where
  "alloc_descs 0 idx s = Ok (Some idx) s"
| "alloc_descs (Suc k) idx s =
    (case alloc_desc s of
       (None, s) \<Rightarrow> kbind (foreach free_desc idx s) (\<lambda>_ s. Ok None s)
     | (Some i, s) \<Rightarrow> alloc_descs k (idx @ [i]) s)"

definition alloc3_desc :: "'z kvirtio_scheme \<Rightarrow> (nat list option, 'z kvirtio_scheme) kres" where
  "alloc3_desc s = alloc_descs 3 [] s"

section \<open>Transfers\<close>

definition set_desc :: "nat \<Rightarrow> u64 \<Rightarrow> u32 \<Rightarrow> u16 \<Rightarrow> u16 \<Rightarrow> 'z kvirtio_scheme \<Rightarrow> 'z kvirtio_scheme" where
  "set_desc i addr len flags nx s =
    vd_upd (\<lambda>d. d\<lparr>vd_desc := (vd_desc d)(i := \<lparr>d_addr = addr, d_len = len, d_flags = flags, d_next = nx\<rparr>)\<rparr>) s"

text \<open>Formatting the three descriptors and handing the chain to the device.\<close>

definition virtio_submit :: "nat \<Rightarrow> bool \<Rightarrow> nat \<Rightarrow> nat \<Rightarrow> nat \<Rightarrow> 'z kvirtio_scheme \<Rightarrow> 'z kvirtio_scheme" where
  "virtio_submit b wr i0 i1 i2 s =
    (let sector = ucast (b_blockno (bufs s b) * of_nat (BSIZE div 512));
         s = vd_upd (\<lambda>d. d\<lparr>vd_ops := (vd_ops d)(i0 :=
               \<lparr>rq_type = (if wr then VIRTIO_BLK_T_OUT else VIRTIO_BLK_T_IN), rq_reserved = 0, rq_sector = sector\<rparr>)\<rparr>) s;
         s = set_desc i0 (vd_addr_op (vd s) i0) 16 VRING_DESC_F_NEXT (of_nat i1) s;
         s = set_desc i1 (vd_addr_data (vd s) b) (of_nat BSIZE)
               ((if wr then 0 else VRING_DESC_F_WRITE) OR VRING_DESC_F_NEXT) (of_nat i2) s;
         s = vd_upd (\<lambda>d. d\<lparr>vd_info_status := (vd_info_status d)(i0 := 0xff)\<rparr>) s;
         s = set_desc i2 (vd_addr_status (vd s) i0) 1 VRING_DESC_F_WRITE 0 s;
         s = buf_upd b (\<lambda>x. x\<lparr>b_disk := True\<rparr>) s;
         s = vd_upd (\<lambda>d. d\<lparr>vd_info_b := (vd_info_b d)(i0 := Some b)\<rparr>) s;
         s = vd_upd (\<lambda>d. d\<lparr>av_ring := (av_ring d)(unat (av_idx d) mod NUM := of_nat i0)\<rparr>) s;
         s = vd_upd (\<lambda>d. d\<lparr>av_idx := av_idx d + 1\<rparr>) s
     in mmio_write VIRTIO_MMIO_QUEUE_NOTIFY 0 s)"

text \<open>
  \<open>virtio_rw_wait\<close> is the end of \<open>virtio_disk_rw\<close>, from the loop that waits for the interrupt
  on: where a process that slept there goes on.
\<close>

definition virtio_rw_wait :: "nat \<Rightarrow> nat \<Rightarrow> 'z kvirtio_scheme \<Rightarrow> (unit, 'z kvirtio_scheme) kres" where
  "virtio_rw_wait b i0 s =
    (if b_disk (bufs s b) then sleep (ChBufDisk b) LVdisk s
     else
       let s = vd_upd (\<lambda>d. d\<lparr>vd_info_b := (vd_info_b d)(i0 := None)\<rparr>) s
       in kbind (free_chain i0 s) (\<lambda>_ s. release LVdisk s))"

definition virtio_rw :: "nat \<Rightarrow> bool \<Rightarrow> 'z kvirtio_scheme \<Rightarrow> (unit, 'z kvirtio_scheme) kres" where
  "virtio_rw b wr s =
    kbind (acquire LVdisk s) (\<lambda>_ s.
    kbind (alloc3_desc s) (\<lambda>r s.
    case r of
      Some [i0, i1, i2] \<Rightarrow> virtio_rw_wait b i0 (virtio_submit b wr i0 i1 i2 s)
    | _ \<Rightarrow> sleep ChDisk LVdisk s))"

fun virtio_intr_loop :: "nat \<Rightarrow> 'z kvirtio_scheme \<Rightarrow> (unit, 'z kvirtio_scheme) kres" where
  "virtio_intr_loop 0 s = Ok () s"
| "virtio_intr_loop (Suc k) s =
    (if vd_used_idx (vd s) \<noteq> us_idx (vd s) then
       let i = unat (us_ring (vd s) (unat (vd_used_idx (vd s)) mod NUM)) in
       if vd_info_status (vd s) i \<noteq> 0 then Panic ''virtio_disk_intr status''
       else
         kbind (deref (vd_info_b (vd s) i) s) (\<lambda>b s.
         let s = buf_upd b (\<lambda>x. x\<lparr>b_disk := False\<rparr>) s in
         kbind (wakeup (ChBufDisk b) s) (\<lambda>_ s.
         virtio_intr_loop k (vd_upd (\<lambda>d. d\<lparr>vd_used_idx := vd_used_idx d + 1\<rparr>) s)))
     else Ok () s)"

text \<open>The number of entries that the device has added is fuel enough.\<close>

definition virtio_disk_intr :: "'z kvirtio_scheme \<Rightarrow> (unit, 'z kvirtio_scheme) kres" where
  "virtio_disk_intr s =
    kbind (acquire LVdisk s) (\<lambda>_ s.
    let s = mmio_write VIRTIO_MMIO_INTERRUPT_ACK (mmio_read VIRTIO_MMIO_INTERRUPT_STATUS s AND 3) s in
    kbind (virtio_intr_loop (unat (us_idx (vd s) - vd_used_idx (vd s))) s) (\<lambda>_ s.
    release LVdisk s))"

end
