(* ===== verification/Trap.thy ===== *)
theory Trap
  imports Virtio
begin

text \<open>
  Traps and interrupts: \<^verbatim>\<open>kernel/trap.c\<close> and \<^verbatim>\<open>kernel/plic.c\<close>, and \<open>forkret\<close> of \<^verbatim>\<open>kernel/proc.c\<close>.

  The supervisor's control registers are fields of the state; \<open>hartid\<close> is the register \<open>tp\<close>,
  \<open>plic_irq\<close> what a claim reads from the interrupt controller, and \<open>plic_stores\<close> the sequence of
  stores to it. \<open>uservec_off\<close>, \<open>usertrap_addr\<close> and \<open>kernelvec_addr\<close> are addresses that the linker
  fixes. The assembly of \<^verbatim>\<open>trampoline.S\<close> and \<^verbatim>\<open>kernelvec.S\<close> is not modelled.
\<close>

section \<open>State\<close>

record ktrap = kvirtio +
  sstatus :: u64
  sepc :: u64
  scause :: u64
  stval :: u64
  stvec :: u64
  stimecmp :: u64
  r_time :: u64
  hartid :: u64
  plic_irq :: u32
  plic_stores :: "(u64 \<times> u32) list"
  uservec_off :: u64
  usertrap_addr :: u64
  kernelvec_addr :: u64
  first_run :: bool

definition SSTATUS_SPP :: u64 where "SSTATUS_SPP = push_bit 8 1"
definition SSTATUS_SPIE :: u64 where "SSTATUS_SPIE = push_bit 5 1"
definition SSTATUS_SIE :: u64 where "SSTATUS_SIE = push_bit 1 1"

definition w_intr_on :: "'z ktrap_scheme \<Rightarrow> 'z ktrap_scheme" where
  "w_intr_on s = s\<lparr>sstatus := sstatus s OR SSTATUS_SIE\<rparr>"

definition w_intr_off :: "'z ktrap_scheme \<Rightarrow> 'z ktrap_scheme" where
  "w_intr_off s = s\<lparr>sstatus := sstatus s AND NOT SSTATUS_SIE\<rparr>"

definition r_intr_get :: "'z ktrap_scheme \<Rightarrow> bool" where
  "r_intr_get s \<longleftrightarrow> sstatus s AND SSTATUS_SIE \<noteq> 0"

section \<open>The interrupt controller\<close>

definition PLIC_SENABLE :: "u64 \<Rightarrow> u64" where "PLIC_SENABLE hart = PLIC + 0x2080 + hart * 0x100"
definition PLIC_SPRIORITY :: "u64 \<Rightarrow> u64" where "PLIC_SPRIORITY hart = PLIC + 0x201000 + hart * 0x2000"
definition PLIC_SCLAIM :: "u64 \<Rightarrow> u64" where "PLIC_SCLAIM hart = PLIC + 0x201004 + hart * 0x2000"

definition plic_write :: "u64 \<Rightarrow> u32 \<Rightarrow> 'z ktrap_scheme \<Rightarrow> 'z ktrap_scheme" where
  "plic_write a v s = s\<lparr>plic_stores := plic_stores s @ [(a, v)]\<rparr>"

definition plicinit :: "'z ktrap_scheme \<Rightarrow> 'z ktrap_scheme" where
  "plicinit s =
    (let s = plic_write (PLIC + of_int UART0_IRQ * 4) 1 s
     in plic_write (PLIC + of_int VIRTIO0_IRQ * 4) 1 s)"

definition plicinithart :: "'z ktrap_scheme \<Rightarrow> 'z ktrap_scheme" where
  "plicinithart s =
    (let hart = hartid s;
         s = plic_write (PLIC_SENABLE hart) (push_bit (nat UART0_IRQ) 1 OR push_bit (nat VIRTIO0_IRQ) 1) s
     in plic_write (PLIC_SPRIORITY hart) 0 s)"

definition plic_claim :: "'z ktrap_scheme \<Rightarrow> int" where
  "plic_claim s = sint (plic_irq s)"

definition plic_complete :: "int \<Rightarrow> 'z ktrap_scheme \<Rightarrow> 'z ktrap_scheme" where
  "plic_complete irq s = plic_write (PLIC_SCLAIM (hartid s)) (of_int irq) s"

section \<open>Interrupts\<close>

definition trapinit :: "'z ktrap_scheme \<Rightarrow> 'z ktrap_scheme" where
  "trapinit s = s\<lparr>held := held s - {LTicks}\<rparr>"

definition trapinithart :: "'z ktrap_scheme \<Rightarrow> 'z ktrap_scheme" where
  "trapinithart s = s\<lparr>stvec := kernelvec_addr s\<rparr>"

definition clockintr :: "'z ktrap_scheme \<Rightarrow> (unit, 'z ktrap_scheme) kres" where
  "clockintr s =
    kbind (if hartid s = 0 then
             kbind (acquire LTicks s) (\<lambda>_ s.
             kbind (wakeup ChTicks (s\<lparr>ticks := ticks s + 1\<rparr>)) (\<lambda>_ s.
             release LTicks s))
           else Ok () s) (\<lambda>_ s.
    Ok () (s\<lparr>stimecmp := r_time s + 1000000\<rparr>))"

definition devintr :: "'z ktrap_scheme \<Rightarrow> (int, 'z ktrap_scheme) kres" where
  "devintr s =
    (if scause s = 0x8000000000000009 then
       let irq = plic_claim s in
       kbind (if irq = UART0_IRQ then uartintr s
              else if irq = VIRTIO0_IRQ then virtio_disk_intr s
              else if irq \<noteq> 0 then
                printf (map ch ''unexpected interrupt irq=%d'' @ [10]) [PNum (of_int irq)] s
              else Ok () s) (\<lambda>_ s.
       let s = (if irq \<noteq> 0 then plic_complete irq s else s)
       in Ok 1 s)
     else if scause s = 0x8000000000000005 then kbind (clockintr s) (\<lambda>_ s. Ok 2 s)
     else Ok 0 s)"

section \<open>Traps\<close>

definition prepare_return :: "'z ktrap_scheme \<Rightarrow> (unit, 'z ktrap_scheme) kres" where
  "prepare_return s =
    kbind (myproc s) (\<lambda>p s.
    let s = w_intr_off s;
        s = s\<lparr>stvec := TRAMPOLINE + uservec_off s\<rparr>;
        s = tf_write p tf_kernel_satp (satp s) s;
        s = tf_write p tf_kernel_sp (p_kstack (procs s p) + PGSIZE) s;
        s = tf_write p tf_kernel_trap (usertrap_addr s) s;
        s = tf_write p tf_kernel_hartid (hartid s) s;
        x = sstatus s;
        x = x AND NOT SSTATUS_SPP;
        x = x OR SSTATUS_SPIE;
        s = s\<lparr>sstatus := x\<rparr>
    in Ok () (s\<lparr>sepc := tf_read p tf_epc s\<rparr>))"

text \<open>The dispatch on the cause; the result is \<open>which_dev\<close>.\<close>

definition usertrap_cause :: "nat \<Rightarrow> 'z ktrap_scheme \<Rightarrow> (int, 'z ktrap_scheme) kres" where
  "usertrap_cause p s =
    (if scause s = 8 then
       kbind (killed p s) (\<lambda>k s.
       kbind (if k \<noteq> 0 then kexit (- 1) s else Ok () s) (\<lambda>_ s.
       let s = tf_write p tf_epc (tf_read p tf_epc s + 4) s;
           s = w_intr_on s
       in kbind (syscall s) (\<lambda>_ s. Ok 0 s)))
     else
       kbind (devintr s) (\<lambda>which_dev s.
         if which_dev \<noteq> 0 then Ok which_dev s
         else
           kbind (if scause s = 15 \<or> scause s = 13 then vmfault (p_pagetable (procs s p)) (stval s) s
                  else Ok 0 s) (\<lambda>pa s.
             if pa \<noteq> 0 then Ok 0 s
             else
               kbind (printf (map ch ''usertrap(): unexpected scause 0x%lx pid=%d'' @ [10])
                 [PNum (scause s), PNum (of_int (p_pid (procs s p)))] s) (\<lambda>_ s.
               kbind (printf (map ch ''            sepc=0x%lx stval=0x%lx'' @ [10])
                 [PNum (sepc s), PNum (stval s)] s) (\<lambda>_ s.
               kbind (setkilled p s) (\<lambda>_ s. Ok 0 s))))))"

definition usertrap :: "'z ktrap_scheme \<Rightarrow> (u64, 'z ktrap_scheme) kres" where
  "usertrap s =
    (if sstatus s AND SSTATUS_SPP \<noteq> 0 then Panic ''usertrap: not from user mode''
     else
       let s = s\<lparr>stvec := kernelvec_addr s\<rparr> in
       kbind (myproc s) (\<lambda>p s.
       let s = tf_write p tf_epc (sepc s) s in
       kbind (usertrap_cause p s) (\<lambda>which_dev s.
       kbind (killed p s) (\<lambda>k s.
       kbind (if k \<noteq> 0 then kexit (- 1) s else Ok () s) (\<lambda>_ s.
       kbind (if which_dev = 2 then yield s else Ok () s) (\<lambda>_ s.
       kbind (prepare_return s) (\<lambda>_ s.
       Ok (MAKE_SATP (p_pagetable (procs s p))) s)))))))"

definition kerneltrap :: "'z ktrap_scheme \<Rightarrow> (unit, 'z ktrap_scheme) kres" where
  "kerneltrap s =
    (let sepc0 = sepc s; sstatus0 = sstatus s; scause0 = scause s in
     if sstatus0 AND SSTATUS_SPP = 0 then Panic ''kerneltrap: not from supervisor mode''
     else if r_intr_get s then Panic ''kerneltrap: interrupts enabled''
     else
       kbind (devintr s) (\<lambda>which_dev s.
         if which_dev = 0 then
           kbind (printf (map ch ''scause=0x%lx sepc=0x%lx stval=0x%lx'' @ [10])
             [PNum scause0, PNum (sepc s), PNum (stval s)] s) (\<lambda>_ s. Panic ''kerneltrap'')
         else
           kbind (if which_dev = 2 \<and> curproc s \<noteq> None then yield s else Ok () s) (\<lambda>_ s.
           Ok () (s\<lparr>sepc := sepc0, sstatus := sstatus0\<rparr>))))"

text \<open>The value that \<open>forkret\<close> passes to \<open>userret\<close>.\<close>

definition forkret :: "'z ktrap_scheme \<Rightarrow> (u64, 'z ktrap_scheme) kres" where
  "forkret s =
    kbind (myproc s) (\<lambda>p s.
    kbind (release (LProc p) s) (\<lambda>_ s.
    kbind (if first_run s then
             kbind (fsinit ROOTDEV s) (\<lambda>_ s.
             let s = s\<lparr>first_run := False\<rparr> in
             kbind (kexec (map ch ''/init'') [map ch ''/init''] s) (\<lambda>r s.
             let s = tf_write p (tf_a 0) (of_int r) s in
             if tf_read p (tf_a 0) s = - 1 then Panic ''exec'' else Ok () s))
           else Ok () s) (\<lambda>_ s.
    kbind (prepare_return s) (\<lambda>_ s.
    Ok (MAKE_SATP (p_pagetable (procs s p))) s))))"

end
