(* ===== verification/Boot.thy ===== *)
theory Boot
  imports Trap
begin

text \<open>
  Booting: \<^verbatim>\<open>kernel/start.c\<close> in machine mode, and \<^verbatim>\<open>kernel/main.c\<close>.
\<close>

section \<open>Machine mode\<close>

record mcsr =
  m_mstatus :: u64
  m_mepc :: u64
  m_satp :: u64
  m_medeleg :: u64
  m_mideleg :: u64
  m_sie :: u64
  m_pmpaddr0 :: u64
  m_pmpcfg0 :: u64
  m_mie :: u64
  m_menvcfg :: u64
  m_mcounteren :: u64
  m_stimecmp :: u64
  m_time :: u64
  m_hartid :: u64
  m_tp :: u64

definition MSTATUS_MPP_MASK :: u64 where "MSTATUS_MPP_MASK = push_bit 11 3"
definition MSTATUS_MPP_S :: u64 where "MSTATUS_MPP_S = push_bit 11 1"
definition SIE_SEIE :: u64 where "SIE_SEIE = push_bit 9 1"
definition SIE_STIE :: u64 where "SIE_STIE = push_bit 5 1"
definition MIE_STIE :: u64 where "MIE_STIE = push_bit 5 1"

definition timerinit :: "mcsr \<Rightarrow> mcsr" where
  "timerinit m =
    (let m = m\<lparr>m_mie := m_mie m OR MIE_STIE\<rparr>;
         m = m\<lparr>m_menvcfg := m_menvcfg m OR push_bit 63 1\<rparr>;
         m = m\<lparr>m_mcounteren := m_mcounteren m OR 2\<rparr>
     in m\<lparr>m_stimecmp := m_time m + 1000000\<rparr>)"

text \<open>The state at \<open>mret\<close>; \<open>main\<close> is the address of the function.\<close>

definition start :: "u64 \<Rightarrow> mcsr \<Rightarrow> mcsr" where
  "start main m =
    (let x = m_mstatus m;
         x = x AND NOT MSTATUS_MPP_MASK;
         x = x OR MSTATUS_MPP_S;
         m = m\<lparr>m_mstatus := x\<rparr>;
         m = m\<lparr>m_mepc := main\<rparr>;
         m = m\<lparr>m_satp := 0\<rparr>;
         m = m\<lparr>m_medeleg := 0xffff\<rparr>;
         m = m\<lparr>m_mideleg := 0xffff\<rparr>;
         m = m\<lparr>m_sie := m_sie m OR SIE_SEIE OR SIE_STIE\<rparr>;
         m = m\<lparr>m_pmpaddr0 := 0x3fffffffffffff\<rparr>;
         m = m\<lparr>m_pmpcfg0 := 0xf\<rparr>;
         m = timerinit m
     in m\<lparr>m_tp := m_hartid m\<rparr>)"

section \<open>The kernel\<close>

text \<open>The first hart, up to the call of \<open>scheduler\<close>.\<close>

definition main_first :: "'z ktrap_scheme \<Rightarrow> (unit, 'z ktrap_scheme) kres" where
  "main_first s =
    (let s = consoleinit s; s = printfinit s in
     kbind (printf [10] [] s) (\<lambda>_ s.
     kbind (printf (map ch ''xv6 kernel is booting'' @ [10]) [] s) (\<lambda>_ s.
     kbind (printf [10] [] s) (\<lambda>_ s.
     kbind (kinit s) (\<lambda>_ s.
     kbind (kvminit s) (\<lambda>_ s.
     let s = kvminithart s;
         s = procinit s;
         s = trapinit s;
         s = trapinithart s;
         s = plicinit s;
         s = plicinithart s;
         s = binit s;
         s = iinit s;
         s = fileinit s
     in kbind (virtio_disk_init s) (\<lambda>_ s. userinit s)))))))"

text \<open>Any other hart, once \<open>started\<close> is set.\<close>

definition main_other :: "'z ktrap_scheme \<Rightarrow> (unit, 'z ktrap_scheme) kres" where
  "main_other s =
    kbind (printf (map ch ''hart %d starting'' @ [10]) [PNum (hartid s)] s) (\<lambda>_ s.
    Ok () (plicinithart (trapinithart (kvminithart s))))"

end
