(* ===== verification/Usys.thy ===== *)
theory Usys
  imports Cstring
begin

text \<open>
  What a user program sees of the kernel: the system calls that the programs under \<^verbatim>\<open>user/\<close> make,
  on the state below, and the result of user code.

  A C string is the list of its characters without the terminating NUL; \<open>c0 s\<close> is \<open>*s\<close>, and
  \<open>tl s\<close> is \<open>s + 1\<close>. Code that writes outside an array ends in \<open>UFault\<close>.
\<close>

type_synonym cstring = "u8 list"

definition c0 :: "cstring \<Rightarrow> u8" where
  "c0 s = (case s of [] \<Rightarrow> 0 | c # _ \<Rightarrow> c)"

lemma c0_simps [simp]: "c0 [] = 0" "c0 (c # s) = c"
  by (simp_all add: c0_def)

lemma c0_nonzero: "c0 s \<noteq> 0 \<Longrightarrow> s = c0 s # tl s"
  by (cases s) simp_all

lemma c0_length [termination_simp]:
  "c0 s \<noteq> 0 \<Longrightarrow> length s - Suc 0 < length s"
  "48 \<le> c0 s \<Longrightarrow> length s - Suc 0 < length s"
  by (cases s; simp)+

lemma c0_zero: "0 \<notin> set s \<Longrightarrow> c0 s = 0 \<longleftrightarrow> s = []"
  by (cases s) auto

definition chars :: "string \<Rightarrow> cstring" where
  "chars s = map (\<lambda>c. of_nat (of_char c)) s"

section \<open>Results\<close>

text \<open>User code returns, calls \<open>exit\<close>, or faults.\<close>

datatype ('a, 's) ures = URet 'a 's | UExit int 's | UFault

definition ubind :: "('a, 's) ures \<Rightarrow> ('a \<Rightarrow> 's \<Rightarrow> ('b, 's) ures) \<Rightarrow> ('b, 's) ures" where
  "ubind m f = (case m of URet a s \<Rightarrow> f a s | UExit n s \<Rightarrow> UExit n s | UFault \<Rightarrow> UFault)"

lemma ubind_simps [simp]:
  "ubind (URet a s) f = f a s" "ubind (UExit n s) f = UExit n s" "ubind UFault f = UFault"
  by (simp_all add: ubind_def)

lemma ubind_cong [fundef_cong]:
  "m = m' \<Longrightarrow> (\<And>a s. m' = URet a s \<Longrightarrow> f a s = g a s) \<Longrightarrow> ubind m f = ubind m' g"
  by (cases m') simp_all

lemma ubind_eq_URet: "ubind m f = URet b t \<longleftrightarrow> (\<exists>a s. m = URet a s \<and> f a s = URet b t)"
  by (cases m) auto

text \<open>\<open>uwp m Q\<close>: the code neither faults nor exits, and \<open>Q\<close> holds of its result.\<close>

definition uwp :: "('a, 's) ures \<Rightarrow> ('a \<Rightarrow> 's \<Rightarrow> bool) \<Rightarrow> bool" where
  "uwp m Q = (case m of URet a s \<Rightarrow> Q a s | _ \<Rightarrow> False)"

lemma uwp_simps [wp_simps]:
  "uwp (URet a s) Q = Q a s" "uwp (UExit n s) Q = False" "uwp UFault Q = False"
  "uwp (ubind m f) Q = uwp m (\<lambda>a s. uwp (f a s) Q)"
  by (simp_all add: uwp_def ubind_def split: ures.split)

lemma uwp_mono: "uwp m P \<Longrightarrow> (\<And>a s. P a s \<Longrightarrow> Q a s) \<Longrightarrow> uwp m Q"
  by (simp add: uwp_def split: ures.splits)

lemma uwp_iff: "uwp m Q \<longleftrightarrow> (\<exists>a s. m = URet a s \<and> Q a s)"
  by (simp add: uwp_def split: ures.splits)

section \<open>Files\<close>

text \<open>
  \<open>u_fd fd\<close> is what the reads from an open descriptor deliver, one chunk per read: a read returns
  at most as many bytes as it asks for, and what it leaves of a chunk is left for the next one. So
  short reads from pipes and the console are covered; an empty chunk is an end of file that
  the console signals with \<^verbatim>\<open>^D\<close>. \<open>u_names\<close> are the files that can be opened, and \<open>u_out\<close> the
  writes in their order, those to the descriptors of \<open>u_bad\<close>, where a write fails, included.
  \<open>u_runs\<close> are the commands that child processes have executed, and \<open>u_fork\<close> says whether a
  \<open>fork\<close> succeeds.
\<close>

record usys =
  u_fd :: "nat \<Rightarrow> u8 list list option"
  u_names :: "cstring \<Rightarrow> u8 list list option"
  u_out :: "(int \<times> u8 list) list"
  u_runs :: "cstring list list"
  u_fork :: bool
  u_bad :: "int set"

definition UNOFILE :: nat where "UNOFILE = 16"

definition u_read :: "int \<Rightarrow> nat \<Rightarrow> usys \<Rightarrow> int \<times> u8 list \<times> usys" where
  "u_read fd n s =
    (if fd < 0 then (- 1, [], s)
     else case u_fd s (nat fd) of
       None \<Rightarrow> (- 1, [], s)
     | Some [] \<Rightarrow> (0, [], s)
     | Some (c # cs) \<Rightarrow>
        (int (length (take n c)), take n c,
         s\<lparr>u_fd := (u_fd s)(nat fd := Some (if length c \<le> n then cs else drop n c # cs))\<rparr>))"

definition u_write :: "int \<Rightarrow> u8 list \<Rightarrow> usys \<Rightarrow> usys" where
  "u_write fd b s = s\<lparr>u_out := u_out s @ [(fd, b)]\<rparr>"

text \<open>What \<open>write\<close> returns, for the code that looks at it.\<close>

definition u_write_ret :: "int \<Rightarrow> u8 list \<Rightarrow> usys \<Rightarrow> int" where
  "u_write_ret fd b s = (if fd \<in> u_bad s then - 1 else int (length b))"

definition u_open :: "cstring \<Rightarrow> usys \<Rightarrow> int \<times> usys" where
  "u_open name s =
    (case u_names s name of
       None \<Rightarrow> (- 1, s)
     | Some cs \<Rightarrow>
        (case scan (\<lambda>fd. u_fd s fd = None) UNOFILE of
           None \<Rightarrow> (- 1, s)
         | Some fd \<Rightarrow> (int fd, s\<lparr>u_fd := (u_fd s)(fd := Some cs)\<rparr>)))"

definition u_close :: "int \<Rightarrow> usys \<Rightarrow> usys" where
  "u_close fd s = s\<lparr>u_fd := (u_fd s)(nat fd := None)\<rparr>"

text \<open>\<open>if(fork() == 0){ exec(argv[0], argv); exit(1); } else wait(0);\<close>\<close>

definition u_run :: "cstring list \<Rightarrow> usys \<Rightarrow> usys" where
  "u_run argv s = (if u_fork s then s\<lparr>u_runs := u_runs s @ [argv]\<rparr> else s)"

text \<open>The bytes written to a descriptor.\<close>

definition written :: "int \<Rightarrow> usys \<Rightarrow> u8 list" where
  "written fd s = concat (map snd (filter (\<lambda>w. fst w = fd) (u_out s)))"

lemma written_u_write [simp]:
  "written fd (u_write fd b s) = written fd s @ b"
  "fd \<noteq> fd' \<Longrightarrow> written fd (u_write fd' b s) = written fd s"
  by (simp_all add: written_def u_write_def)

lemma u_write_fields [simp]:
  "u_fd (u_write fd b s) = u_fd s" "u_names (u_write fd b s) = u_names s" "u_runs (u_write fd b s) = u_runs s"
  "u_fork (u_write fd b s) = u_fork s" "u_bad (u_write fd b s) = u_bad s"
  by (simp_all add: u_write_def)

text \<open>What is still to be read from a descriptor, up to the next end of file.\<close>

definition pending :: "u8 list list option \<Rightarrow> u8 list" where
  "pending f = (case f of None \<Rightarrow> [] | Some cs \<Rightarrow> concat (takeWhile (\<lambda>c. c \<noteq> []) cs))"

lemma pending_simps [simp]:
  "pending None = []" "pending (Some []) = []" "pending (Some ([] # cs)) = []"
  by (simp_all add: pending_def)

lemma pending_Cons: "c \<noteq> [] \<Longrightarrow> pending (Some (c # cs)) = c @ pending (Some cs)"
  by (simp add: pending_def)

text \<open>
  A read for at least one byte takes a part of what is pending, and fails to deliver exactly if
  there is nothing.
\<close>

lemma u_read_pending:
  assumes "0 < n" "u_read (int fd) n s = (r, b, t)"
  shows "pending (u_fd s fd) = b @ (if b = [] then [] else pending (u_fd t fd))"
    and "length b \<le> n" and "b \<noteq> [] \<longleftrightarrow> 0 < r" and "r = int (length b) \<or> (r = - 1 \<and> u_fd s fd = None)"
    and "u_out t = u_out s" and "u_runs t = u_runs s" and "u_names t = u_names s" and "u_fork t = u_fork s" and "u_bad t = u_bad s"
    and "fd' \<noteq> fd \<Longrightarrow> u_fd t fd' = u_fd s fd'" and "u_fd t fd = None \<longleftrightarrow> u_fd s fd = None"
proof -
  show "pending (u_fd s fd) = b @ (if b = [] then [] else pending (u_fd t fd))"
  proof (cases "u_fd s fd")
    case None
    then show ?thesis using assms by (simp add: u_read_def)
  next
    case (Some cs)
    show ?thesis
    proof (cases cs)
      case Nil
      then show ?thesis using Some assms by (simp add: u_read_def)
    next
      case (Cons c cs')
      show ?thesis
      proof (cases "c = []")
        case True
        then show ?thesis using Some Cons assms by (auto simp: u_read_def)
      next
        case False
        then show ?thesis using Some Cons assms by (auto simp: u_read_def pending_Cons)
      qed
    qed
  qed
qed (use assms in \<open>auto simp: u_read_def split: if_splits option.splits list.splits\<close>)

end
