(* ===== verification/Ulib.thy ===== *)
theory Ulib
  imports Usys Numfmt
begin

text \<open>
  The C library of user programs: \<^verbatim>\<open>user/ulib.c\<close>. The routines that fill or move memory work on
  the memory of the process; those on strings on C strings.
\<close>

section \<open>Strings\<close>

text \<open>\<open>strcpy\<close>: the destination is an array, and \<open>i\<close> the index that both pointers have reached.\<close>

fun ustrcpy_from :: "bytes \<Rightarrow> nat \<Rightarrow> cstring \<Rightarrow> bytes" where
  "ustrcpy_from d i [] = d(i := 0)"
| "ustrcpy_from d i (c # t) = ustrcpy_from (d(i := c)) (Suc i) t"

definition ustrcpy :: "bytes \<Rightarrow> cstring \<Rightarrow> bytes" where
  "ustrcpy d t = ustrcpy_from d 0 t"

fun ustrcmp :: "cstring \<Rightarrow> cstring \<Rightarrow> int" where
  "ustrcmp p q =
    (if c0 p \<noteq> 0 \<and> c0 p = c0 q then ustrcmp (tl p) (tl q)
     else int (unat (c0 p)) - int (unat (c0 q)))"

declare ustrcmp.simps [simp del]

fun ustrlen_from :: "cstring \<Rightarrow> nat \<Rightarrow> nat" where
  "ustrlen_from s n = (if c0 s \<noteq> 0 then ustrlen_from (tl s) (n + 1) else n)"

declare ustrlen_from.simps [simp del]

definition ustrlen :: "cstring \<Rightarrow> nat" where
  "ustrlen s = ustrlen_from s 0"

text \<open>\<open>strchr\<close> returns a pointer into the string, here the rest from there on, or null.\<close>

fun ustrchr :: "cstring \<Rightarrow> u8 \<Rightarrow> cstring option" where
  "ustrchr s c = (if c0 s \<noteq> 0 then (if c0 s = c then Some s else ustrchr (tl s) c) else None)"

declare ustrchr.simps [simp del]

text \<open>\<open>gets\<close> reads byte by byte; \<open>buf\<close> is what is stored so far, \<open>k\<close> the room left before the NUL.\<close>

fun gets_loop :: "nat \<Rightarrow> u8 list \<Rightarrow> usys \<Rightarrow> u8 list \<times> usys" where
  "gets_loop 0 buf s = (buf, s)"
| "gets_loop (Suc k) buf s =
    (let (cc, b, s) = u_read 0 1 s in
     if cc < 1 then (buf, s)
     else let c = hd b; buf = buf @ [c] in
       if c = 10 \<or> c = 13 then (buf, s) else gets_loop k buf s)"

definition gets :: "int \<Rightarrow> usys \<Rightarrow> u8 list \<times> usys" where
  "gets mx s = gets_loop (nat (mx - 1)) [] s"

text \<open>An \<open>int\<close> is a 32-bit word; its arithmetic wraps around.\<close>

fun atoi_loop :: "cstring \<Rightarrow> u32 \<Rightarrow> u32" where
  "atoi_loop s n =
    (if 48 \<le> c0 s \<and> c0 s \<le> 57 then atoi_loop (tl s) (n * 10 + ucast (c0 s) - 48) else n)"

declare atoi_loop.simps [simp del]

definition atoi :: "cstring \<Rightarrow> int" where
  "atoi s = sint (atoi_loop s 0)"

section \<open>Memory\<close>

fun umemset_loop :: "mem \<Rightarrow> u64 \<Rightarrow> u8 \<Rightarrow> nat \<Rightarrow> nat \<Rightarrow> mem" where
  "umemset_loop m dst c i 0 = m"
| "umemset_loop m dst c i (Suc k) = umemset_loop (m(dst + of_nat i := c)) dst c (Suc i) k"

text \<open>
  The index \<open>i\<close> is an \<open>int\<close> compared with the unsigned \<open>n\<close>, so the comparison is unsigned and
  the loop runs \<open>n\<close> times; what is stored is the low byte of \<open>c\<close>. For \<open>n\<close> above \<open>2 ^ 31\<close> the
  increment of \<open>i\<close> overflows, which C leaves undefined; the definition goes on counting there.
\<close>

definition umemset :: "mem \<Rightarrow> u64 \<Rightarrow> int \<Rightarrow> u32 \<Rightarrow> mem" where
  "umemset m dst c n = umemset_loop m dst (of_int c) 0 (unat n)"

fun umove_up :: "mem \<Rightarrow> u64 \<Rightarrow> u64 \<Rightarrow> nat \<Rightarrow> mem" where
  "umove_up m d s 0 = m"
| "umove_up m d s (Suc n) = umove_up (m(d := m s)) (d + 1) (s + 1) n"

fun umove_down :: "mem \<Rightarrow> u64 \<Rightarrow> u64 \<Rightarrow> nat \<Rightarrow> mem" where
  "umove_down m d s 0 = m"
| "umove_down m d s (Suc n) = umove_down (m(d - 1 := m (s - 1))) (d - 1) (s - 1) n"

definition umemmove :: "mem \<Rightarrow> u64 \<Rightarrow> u64 \<Rightarrow> int \<Rightarrow> mem" where
  "umemmove m dst src n =
    (if dst < src then umove_up m dst src (nat n)
     else umove_down m (dst + of_int n) (src + of_int n) (nat n))"

fun umemcmp :: "bytes \<Rightarrow> bytes \<Rightarrow> nat \<Rightarrow> int" where
  "umemcmp p1 p2 0 = 0"
| "umemcmp p1 p2 (Suc n) =
     (if p1 0 \<noteq> p2 0 then int (unat (p1 0)) - int (unat (p2 0)) else umemcmp (adv p1) (adv p2) n)"

definition umemcpy :: "mem \<Rightarrow> u64 \<Rightarrow> u64 \<Rightarrow> u32 \<Rightarrow> mem" where
  "umemcpy m dst src n = umemmove m dst src (sint n)"

section \<open>What they compute\<close>

lemma ustrcpy_from_eq:
  "ustrcpy_from d i t =
    (\<lambda>j. if i \<le> j \<and> j < i + length t then t ! (j - i) else if j = i + length t then 0 else d j)"
proof (induction d i t rule: ustrcpy_from.induct)
  case (2 d i c t)
  have e: "(c # t) ! (x - i) = (if x = i then c else t ! (x - Suc i))" if "i \<le> x" for x
    using that by (cases "x = i") (simp_all add: nth_Cons Suc_diff_Suc [symmetric] split: nat.split)
  show ?case
    unfolding ustrcpy_from.simps 2 by (auto simp: fun_eq_iff e)
qed (auto simp: fun_eq_iff)

lemma ustrcpy_eq: "ustrcpy d t = (\<lambda>j. if j < length t then t ! j else if j = length t then 0 else d j)"
  by (rule ext) (simp add: ustrcpy_def ustrcpy_from_eq)

lemma ustrcpy_cstr: "0 \<notin> set t \<Longrightarrow> length t < n \<Longrightarrow> cstr n (ustrcpy d t) = t"
proof -
  assume t: "0 \<notin> set t" "length t < n"
  have "cstr n (\<lambda>j. if j < length t then t ! j else if j = length t then 0 else d j) = t"
    using t
  proof (induction t arbitrary: n d)
    case Nil
    then show ?case by (cases n) simp_all
  next
    case (Cons c t)
    then obtain k where n: "n = Suc k" by (cases n) simp_all
    have "adv (\<lambda>j. if j < length (c # t) then (c # t) ! j else if j = length (c # t) then 0 else d j)
      = (\<lambda>j. if j < length t then t ! j else if j = length t then 0 else adv d j)"
      by (auto simp: adv_def fun_eq_iff)
    with Cons show ?case by (simp add: n)
  qed
  then show ?thesis by (simp add: ustrcpy_eq)
qed

lemma byte_diff: "int (unat (a :: u8)) - int (unat b) = 0 \<longleftrightarrow> a = b"
  by (simp add: word_uint_eq_iff)

lemma ustrcmp_zero: "0 \<notin> set p \<Longrightarrow> 0 \<notin> set q \<Longrightarrow> ustrcmp p q = 0 \<longleftrightarrow> p = q"
proof (induction p q rule: ustrcmp.induct)
  case (1 p q)
  show ?case
  proof (cases "c0 p \<noteq> 0 \<and> c0 p = c0 q")
    case True
    then obtain c p' q' where "p = c # p'" "q = c # q'" using c0_nonzero by metis
    then show ?thesis using 1 True by (subst ustrcmp.simps) auto
  next
    case False
    then have "ustrcmp p q = 0 \<longleftrightarrow> c0 p = c0 q" by (subst ustrcmp.simps) (simp only: if_False byte_diff)
    also have "\<dots> \<longleftrightarrow> p = q" using False c0_zero [OF 1(2)] c0_zero [OF 1(3)] by metis
    finally show ?thesis .
  qed
qed

lemma ustrlen_from_eq: "0 \<notin> set s \<Longrightarrow> ustrlen_from s n = n + length s"
  by (induction s arbitrary: n) (auto simp: ustrlen_from.simps)

lemma ustrlen_eq: "0 \<notin> set s \<Longrightarrow> ustrlen s = length s"
  by (simp add: ustrlen_def ustrlen_from_eq)

text \<open>\<open>strchr\<close> finds the first occurrence, and no string contains its terminator.\<close>

lemma ustrchr_Cons: "ustrchr (c # s) d = (if c = 0 then None else if c = d then Some (c # s) else ustrchr s d)"
  by (subst ustrchr.simps) simp

lemma ustrchr_Nil [simp]: "ustrchr [] d = None"
  by (subst ustrchr.simps) simp

lemma ustrchr_None: "0 \<notin> set s \<Longrightarrow> ustrchr s c = None \<longleftrightarrow> c \<notin> set s"
  by (induction s) (auto simp: ustrchr_Cons)

lemma ustrchr_Some: "ustrchr s c = Some q \<Longrightarrow> \<exists>p. s = p @ q \<and> c \<notin> set p \<and> 0 \<notin> set p \<and> c0 q = c \<and> q \<noteq> []"
proof (induction s)
  case (Cons d s)
  then show ?case
  proof (cases "d = 0 \<or> d = c")
    case True
    with Cons.prems show ?thesis by (auto simp: ustrchr_Cons intro: exI [of _ "[]"] split: if_splits)
  next
    case False
    with Cons obtain p where "s = p @ q" "c \<notin> set p" "0 \<notin> set p" "c0 q = c" "q \<noteq> []"
      by (auto simp: ustrchr_Cons)
    with False show ?thesis by (intro exI [of _ "d # p"]) auto
  qed
qed simp

lemma ustrchr_split:
  assumes "ustrchr s c = Some q"
  obtains p r where "s = p @ c # r" "q = c # r" "c \<notin> set p" "0 \<notin> set p"
proof -
  obtain p where p: "s = p @ q" "c \<notin> set p" "0 \<notin> set p" "c0 q = c" "q \<noteq> []"
    using ustrchr_Some [OF assms] by blast
  then obtain r where "q = c # r" by (cases q) auto
  then show thesis using p by (intro that) simp_all
qed

lemma umemset_eq: "umemset m dst c n = memset m dst (of_int c) (unat n)"
proof -
  have "umemset_loop m dst c i k = memset_loop m dst c i k" for m c i k
    by (induction k arbitrary: m i) simp_all
  then show ?thesis by (simp add: umemset_def memset_def)
qed

lemma umemcmp_eq: "umemcmp p q n = memcmp p q n"
  by (induction p q n rule: umemcmp.induct) simp_all

lemma umove_eq: "umove_up m d s n = move_up m d s n" "umove_down m d s n = move_down m d s n"
proof -
  show "umove_up m d s n = move_up m d s n" by (induction m d s n rule: umove_up.induct) (simp_all del: fun_upd_apply)
  show "umove_down m d s n = move_down m d s n" by (induction m d s n rule: umove_down.induct) (simp_all del: fun_upd_apply)
qed

lemma umemmove_eq:
  assumes "unat dst + n < 2 ^ 64" "unat src + n < 2 ^ 64" "n < 2 ^ 31"
  shows "umemmove m dst src (int n) = (\<lambda>a. if in_range dst n a then m (src + (a - dst)) else m a)"
proof (cases "dst < src")
  case True
  then have "move_up m dst src n = (\<lambda>a. if in_range dst n a then m (src + (a - dst)) else m a)"
    using assms by (intro move_up_eq) auto
  then show ?thesis using True by (simp add: umemmove_def umove_eq)
next
  case False
  then show ?thesis using assms move_down_eq [of dst n src m] by (simp add: umemmove_def umove_eq)
qed

lemma gets_loop_length: "gets_loop k buf s = (r, t) \<Longrightarrow> length r \<le> length buf + k \<and> (\<exists>b. r = buf @ b)"
  by (induction k buf s arbitrary: r t rule: gets_loop.induct) (fastforce simp: Let_def split: prod.splits if_splits)+

section \<open>Numbers\<close>

lemma atoi_loop_digits:
  assumes "\<forall>c\<in>set ds. 48 \<le> c \<and> c \<le> 57" "\<not> (48 \<le> c0 r \<and> c0 r \<le> 57)"
  shows "atoi_loop (ds @ r) (of_nat a) = of_nat (foldl (\<lambda>n c. n * 10 + digit_val c) a ds)"
  using assms(1)
proof (induction ds arbitrary: a)
  case Nil
  have "atoi_loop r n = n" for n using assms(2) by (subst atoi_loop.simps) (rule if_not_P)
  then show ?case by simp
next
  case (Cons c ds)
  then have c: "48 \<le> c" "c \<le> 57" by simp_all
  have d: "of_nat a * 10 + ucast c - 48 = (of_nat (a * 10 + digit_val c) :: u32)"
  proof -
    have u: "48 \<le> unat c" "c < 58" using c by (simp_all add: word_le_nat_alt word_less_nat_alt)
    then have "(of_nat (digit_val c) :: u32) = of_nat (unat c) - of_nat 48"
      unfolding digit_val_def by (simp only: if_True of_nat_diff)
    moreover have "(of_nat (a * 10 + digit_val c) :: u32) = of_nat a * 10 + of_nat (digit_val c)" by simp
    ultimately show ?thesis by (simp only: of_nat_unat of_nat_numeral diff_conv_add_uminus add.assoc)
  qed
  have "atoi_loop ((c # ds) @ r) (of_nat a) = atoi_loop (ds @ r) (of_nat a * 10 + ucast c - 48)"
    using c by (subst atoi_loop.simps) simp
  then show ?case using Cons.IH [of "a * 10 + digit_val c"] Cons.prems by (simp add: d)
qed

lemma numeral_of_digits: "c \<in> set (numeral_of 10 n) \<Longrightarrow> 48 \<le> c \<and> c \<le> 57"
proof (induction n rule: less_induct)
  case (less n)
  have "\<forall>d\<in>set [0..<10]. 48 \<le> digits d \<and> digits d \<le> 57"
    by (simp add: digits_def upt_rec)
  then have dig: "48 \<le> digits d \<and> digits d \<le> 57" if "d < 10" for d
    using that by simp
  show ?case
  proof (cases "n < 10")
    case True
    then show ?thesis using less.prems by (subst (asm) numeral_of.simps) (simp add: dig)
  next
    case False
    then have "c \<in> set (numeral_of 10 (n div 10)) \<or> c = digits (n mod 10)"
      using less.prems by (subst (asm) numeral_of.simps) auto
    then show ?thesis using False dig [of "n mod 10"] less.IH [of "n div 10"] by auto
  qed
qed

lemma atoi_digits:
  assumes "\<forall>c\<in>set ds. 48 \<le> c \<and> c \<le> 57" "\<not> (48 \<le> c0 r \<and> c0 r \<le> 57)" "numeral_val 10 ds < 2 ^ 31"
  shows "atoi (ds @ r) = int (numeral_val 10 ds)"
proof -
  have "atoi_loop (ds @ r) 0 = of_nat (numeral_val 10 ds)"
    using atoi_loop_digits [OF assms(1,2), of 0] by (simp add: numeral_val_def)
  moreover have "sint (of_nat (numeral_val 10 ds) :: u32) = int (numeral_val 10 ds)"
    using assms(3) by (simp add: signed_of_nat signed_take_bit_int_eq_self)
  ultimately show ?thesis by (simp add: atoi_def)
qed

text \<open>
  C29: \<open>atoi\<close> reads back what \<open>printf\<close> prints for a non-negative \<open>int\<close>, whatever follows the
  number, as long as it is not a digit.
\<close>

theorem atoi_numeral:
  assumes "n < 2 ^ 31" "\<not> (48 \<le> c0 r \<and> c0 r \<le> 57)"
  shows "atoi (numeral_of 10 n @ r) = int n"
  using atoi_digits [of "numeral_of 10 n" r] assms numeral_of_digits numeral_val_of [of 10 n] by simp

lemma atoi_numeral_witness: "atoi (numeral_of 10 1234 @ chars '' ticks'') = 1234"
  using atoi_numeral [of 1234 "chars '' ticks''"] by (simp add: chars_def)

end
