(* ===== verification/Grep.thy ===== *)
theory Grep
  imports Ulib
begin

text \<open>
  \<^verbatim>\<open>user/grep.c\<close>: the pattern matcher of Kernighan and Pike, and the loop that reads a file into a
  buffer and prints the lines that match. The specification of the matcher is the language of
  the pattern; that of the loop is the list of the lines of the whole input.
\<close>

section \<open>The matcher\<close>

function matchhere :: "cstring \<Rightarrow> cstring \<Rightarrow> bool"
  and matchstar :: "u8 \<Rightarrow> cstring \<Rightarrow> cstring \<Rightarrow> bool" where
  "matchhere re s =
    (if c0 re = 0 then True
     else if c0 (tl re) = 42 then matchstar (c0 re) (tl (tl re)) s
     else if c0 re = 36 \<and> c0 (tl re) = 0 then c0 s = 0
     else if c0 s \<noteq> 0 \<and> (c0 re = 46 \<or> c0 re = c0 s) then matchhere (tl re) (tl s)
     else False)"
| "matchstar c re s =
    (if matchhere re s then True
     else if c0 s \<noteq> 0 \<and> (c0 s = c \<or> c = 46) then matchstar c re (tl s)
     else False)"
  by pat_completeness auto
termination
  by (relation "inv_image (less_than <*lex*> less_than <*lex*> less_than)
      (\<lambda>x. case x of Inl (re, t) \<Rightarrow> (length re, length t, 0) | Inr (c, re, t) \<Rightarrow> (length re, length t, 1 :: nat))")
    (auto simp: c0_def split: list.splits)

declare matchhere.simps [simp del] matchstar.simps [simp del]

fun match_from :: "cstring \<Rightarrow> cstring \<Rightarrow> bool" where
  "match_from re s =
    (if matchhere re s then True
     else if c0 s \<noteq> 0 then match_from re (tl s)
     else False)"

declare match_from.simps [simp del]

definition match :: "cstring \<Rightarrow> cstring \<Rightarrow> bool" where
  "match re s = (if c0 re = 94 then matchhere (tl re) s else match_from re s)"

section \<open>The language of a pattern\<close>

text \<open>A pattern is a sequence of characters or wildcards, each once or repeated, possibly anchored.\<close>

datatype atom = Dot | Chr u8
datatype piece = One atom | Many atom

fun fits :: "atom \<Rightarrow> u8 \<Rightarrow> bool" where
  "fits Dot c = True"
| "fits (Chr d) c = (c = d)"

fun piece_lang :: "piece \<Rightarrow> u8 list set" where
  "piece_lang (One a) = {[c] | c. fits a c}"
| "piece_lang (Many a) = {w. \<forall>c\<in>set w. fits a c}"

fun seq_lang :: "piece list \<Rightarrow> u8 list set" where
  "seq_lang [] = {[]}"
| "seq_lang (p # ps) = {u @ v | u v. u \<in> piece_lang p \<and> v \<in> seq_lang ps}"

lemma seq_langI: "u \<in> piece_lang p \<Longrightarrow> v \<in> seq_lang ps \<Longrightarrow> u @ v \<in> seq_lang (p # ps)"
  by auto

definition atom_of :: "u8 \<Rightarrow> atom" where
  "atom_of c = (if c = 46 then Dot else Chr c)"

text \<open>The pieces of a pattern, and whether a \<^verbatim>\<open>$\<close> ends it.\<close>

fun pieces :: "cstring \<Rightarrow> piece list \<times> bool" where
  "pieces [] = ([], False)"
| "pieces [c] = (if c = 36 then ([], True) else ([One (atom_of c)], False))"
| "pieces (c # d # re) =
    (if d = 42 then (let (ps, e) = pieces re in (Many (atom_of c) # ps, e))
     else (let (ps, e) = pieces (d # re) in (One (atom_of c) # ps, e)))"

text \<open>The texts that start with a word of the pattern; if it ends in \<^verbatim>\<open>$\<close>, that are one.\<close>

definition begins :: "cstring \<Rightarrow> cstring \<Rightarrow> bool" where
  "begins re s \<longleftrightarrow>
    (\<exists>v w. s = v @ w \<and> v \<in> seq_lang (fst (pieces re)) \<and> (snd (pieces re) \<longrightarrow> w = []))"

lemma fits_atom: "fits (atom_of c) d \<longleftrightarrow> c = 46 \<or> d = c"
  by (simp add: atom_of_def)

lemma begins_Nil: "begins [] s"
  by (simp add: begins_def)

lemma begins_end: "begins [36] s \<longleftrightarrow> s = []"
  by (auto simp: begins_def)

lemma begins_piece:
  assumes "pieces r = (p # fst (pieces re), snd (pieces re))"
  shows "begins r s \<longleftrightarrow> (\<exists>u t. s = u @ t \<and> u \<in> piece_lang p \<and> begins re t)"
proof
  assume "begins r s"
  then obtain u v w where "s = (u @ v) @ w" "u \<in> piece_lang p" "v \<in> seq_lang (fst (pieces re))"
      "snd (pieces re) \<longrightarrow> w = []"
    unfolding begins_def assms fst_conv snd_conv seq_lang.simps by blast
  then show "\<exists>u t. s = u @ t \<and> u \<in> piece_lang p \<and> begins re t"
    unfolding begins_def append_assoc by blast
next
  assume "\<exists>u t. s = u @ t \<and> u \<in> piece_lang p \<and> begins re t"
  then obtain u v w where "s = (u @ v) @ w" "u \<in> piece_lang p" "v \<in> seq_lang (fst (pieces re))"
      "snd (pieces re) \<longrightarrow> w = []"
    unfolding begins_def append_assoc by blast
  then show "begins r s"
    unfolding begins_def assms fst_conv snd_conv seq_lang.simps by blast
qed

lemma single_word: "(\<exists>u t. s = u @ t \<and> u \<in> {[c] | c. P c} \<and> Q t) \<longleftrightarrow> (\<exists>d t. s = d # t \<and> P d \<and> Q t)"
proof
  assume "\<exists>d t. s = d # t \<and> P d \<and> Q t"
  then obtain d t where "s = [d] @ t" "P d" "Q t" by auto
  then show "\<exists>u t. s = u @ t \<and> u \<in> {[c] | c. P c} \<and> Q t" by blast
qed auto

lemma begins_One:
  assumes "c0 re \<noteq> 42" "\<not> (c = 36 \<and> re = [])"
  shows "begins (c # re) s \<longleftrightarrow> (\<exists>d t. s = d # t \<and> (c = 46 \<or> d = c) \<and> begins re t)"
proof -
  have "pieces (c # re) = (One (atom_of c) # fst (pieces re), snd (pieces re))"
    using assms by (cases re) (auto split: prod.split)
  from begins_piece [OF this, of s] show ?thesis unfolding piece_lang.simps fits_atom single_word .
qed

lemma begins_Many:
  "begins (c # 42 # re) s \<longleftrightarrow> (\<exists>u t. s = u @ t \<and> (\<forall>d\<in>set u. c = 46 \<or> d = c) \<and> begins re t)"
proof -
  have "pieces (c # 42 # re) = (Many (atom_of c) # fst (pieces re), snd (pieces re))"
    by (simp split: prod.split)
  from begins_piece [OF this, of s] show ?thesis unfolding piece_lang.simps fits_atom by simp
qed

lemma begins_Many_step:
  "begins (c # 42 # re) s \<longleftrightarrow>
    begins re s \<or> (\<exists>d t. s = d # t \<and> (c = 46 \<or> d = c) \<and> begins (c # 42 # re) t)"
  (is "?l \<longleftrightarrow> ?r")
proof
  assume ?l
  then obtain u t where t: "s = u @ t" "\<forall>d\<in>set u. c = 46 \<or> d = c" "begins re t"
    unfolding begins_Many by blast
  show ?r
  proof (cases u)
    case Nil
    then show ?thesis using t by simp
  next
    case (Cons d u')
    then have "begins (c # 42 # re) (u' @ t)" using t unfolding begins_Many by auto
    then show ?thesis using t Cons by auto
  qed
next
  assume ?r
  then show ?l
  proof
    assume "begins re s"
    then show ?l unfolding begins_Many by (intro exI [of _ "[]"] exI [of _ s]) simp
  next
    assume "\<exists>d t. s = d # t \<and> (c = 46 \<or> d = c) \<and> begins (c # 42 # re) t"
    then obtain d u t where "s = d # u @ t" "c = 46 \<or> d = c" "\<forall>d\<in>set u. c = 46 \<or> d = c" "begins re t"
      unfolding begins_Many by blast
    then show ?l unfolding begins_Many by (intro exI [of _ "d # u"] exI [of _ t]) auto
  qed
qed

text \<open>\<open>matchhere\<close> decides whether the text starts with a word of the pattern.\<close>

lemma matchhere_begins:
  "0 \<notin> set re \<Longrightarrow> 0 \<notin> set s \<Longrightarrow> matchhere re s \<longleftrightarrow> begins re s"
  "0 \<notin> set re \<Longrightarrow> c \<noteq> 0 \<Longrightarrow> 0 \<notin> set s \<Longrightarrow> matchstar c re s \<longleftrightarrow> begins (c # 42 # re) s"
proof (induction re s and c re s rule: matchhere_matchstar.induct)
  case (1 re s)
  show ?case
  proof (cases re)
    case Nil
    then show ?thesis by (subst matchhere.simps) (simp add: begins_Nil)
  next
    case (Cons c r)
    with 1(3) have c: "c \<noteq> 0" "0 \<notin> set r" by auto
    consider (star) r' where "r = 42 # r'" | (dollar) "c = 36" "r = []" | (one) "c0 r \<noteq> 42" "\<not> (c = 36 \<and> r = [])"
      using c0_nonzero [of r] by fastforce
    then show ?thesis
    proof cases
      case star
      then show ?thesis using 1 c Cons by (subst matchhere.simps) simp
    next
      case dollar
      then show ?thesis using Cons 1(4) c0_zero by (subst matchhere.simps) (simp add: begins_end)
    next
      case one
      then have nd: "\<not> (c = 36 \<and> c0 r = 0)" using c c0_zero by blast
      have "matchhere re s \<longleftrightarrow> c0 s \<noteq> 0 \<and> (c = 46 \<or> c = c0 s) \<and> matchhere r (tl s)"
        using c one(1) nd unfolding Cons by (subst matchhere.simps) (auto split: if_splits)
      also have "\<dots> \<longleftrightarrow> begins re s"
      proof (cases s)
        case Nil
        then show ?thesis using one by (simp add: Cons begins_One)
      next
        case (Cons d t)
        then have "d \<noteq> 0" "0 \<notin> set t" using 1(4) by auto
        then show ?thesis
          using 1(2) c one nd Cons \<open>re = c # r\<close> by (auto simp: begins_One)
      qed
      finally show ?thesis .
    qed
  qed
next
  case (2 c re s)
  show ?case
  proof (cases s)
    case Nil
    then show ?thesis using 2(1) 2(3-5) by (subst matchstar.simps, subst begins_Many_step) simp
  next
    case (Cons d t)
    then have "d \<noteq> 0" "0 \<notin> set t" using 2(5) by auto
    then show ?thesis using 2 Cons by (subst matchstar.simps, subst begins_Many_step) auto
  qed
qed

lemma match_from_begins:
  "0 \<notin> set re \<Longrightarrow> 0 \<notin> set s \<Longrightarrow> match_from re s \<longleftrightarrow> (\<exists>u t. s = u @ t \<and> begins re t)"
proof (induction s)
  case Nil
  then show ?case by (subst match_from.simps) (simp add: matchhere_begins)
next
  case (Cons c s)
  then have "match_from re (c # s) \<longleftrightarrow> begins re (c # s) \<or> (\<exists>u t. s = u @ t \<and> begins re t)"
    by (subst match_from.simps) (auto simp: matchhere_begins)
  also have "\<dots> \<longleftrightarrow> (\<exists>u t. c # s = u @ t \<and> begins re t)"
    by (auto simp: Cons_eq_append_conv)
  finally show ?case .
qed

text \<open>
  C30: \<open>match\<close> of \<^verbatim>\<open>grep\<close> decides whether a word of the pattern's language occurs in the text:
  anywhere, or at its start if the pattern begins with \<^verbatim>\<open>^\<close>, and up to its end if it ends in \<^verbatim>\<open>$\<close>.
\<close>

theorem match_language:
  assumes "0 \<notin> set re" "0 \<notin> set s"
  shows "match re s \<longleftrightarrow>
    (let (anchored, re) = (if c0 re = 94 then (True, tl re) else (False, re)); (ps, ends) = pieces re in
     \<exists>u v w. s = u @ v @ w \<and> v \<in> seq_lang ps \<and> (anchored \<longrightarrow> u = []) \<and> (ends \<longrightarrow> w = []))"
proof -
  have tl: "0 \<notin> set (tl re)" using assms(1) by (cases re) auto
  show ?thesis
    using assms tl by (auto simp: match_def matchhere_begins match_from_begins begins_def split: prod.split)
qed

lemma match_language_witness:
  "match (chars ''^ab*.$'') (chars ''abbx'') \<and> \<not> match (chars ''^b'') (chars ''ab'')"
proof
  have p: "pieces (tl (chars ''^ab*.$'')) = ([One (Chr 97), Many (Chr 98), One Dot], True)"
    by (simp add: chars_def atom_of_def)
  have "chars ''abbx'' = [] @ [97, 98, 98, 120] @ []" by (simp add: chars_def)
  moreover have "[97, 98, 98, 120] \<in> seq_lang [One (Chr 97), Many (Chr 98), One Dot]"
    using seq_langI [of "[97]" "One (Chr 97)" "[98, 98, 120]"] seq_langI [of "[98, 98]" "Many (Chr 98)" "[120]" "[One Dot]"]
    by simp
  ultimately show "match (chars ''^ab*.$'') (chars ''abbx'')"
    using match_language [of "chars ''^ab*.$''" "chars ''abbx''"] p by (simp add: chars_def)
next
  show "\<not> match (chars ''^b'') (chars ''ab'')"
    using match_language [of "chars ''^b''" "chars ''ab''"] by (simp add: chars_def atom_of_def)
qed

section \<open>The loop over the input\<close>

text \<open>
  The loop over the lines in the buffer: \<open>r\<close> is what the buffer holds from \<open>p\<close> on, and the result
  what is left of it. \<open>strchr\<close> stops at a NUL in the buffer.
\<close>

function grep_lines :: "cstring \<Rightarrow> u8 list \<Rightarrow> usys \<Rightarrow> u8 list \<times> usys" where
  "grep_lines pattern r s =
    (case ustrchr r 10 of
       None \<Rightarrow> (r, s)
     | Some q \<Rightarrow>
        let line = take (length r - length q) r
        in grep_lines pattern (tl q) (if match pattern line then u_write 1 (line @ [10]) s else s))"
  by pat_completeness auto
termination
proof (relation "measure (\<lambda>(pattern, r, s). length r)")
  fix pattern r s q line
  assume "ustrchr r 10 = Some q"
  then obtain p where "r = p @ q" "q \<noteq> []" by (metis ustrchr_Some)
  then show "((pattern, tl q, if match pattern line then u_write 1 (line @ [10]) s else s), pattern, r, s)
      \<in> measure (\<lambda>(pattern, r, s). length r)" by (cases q) simp_all
qed simp

declare grep_lines.simps [simp del]

lemma grep_lines_fd [simp]: "u_fd (snd (grep_lines pattern r s)) = u_fd s"
proof (induction pattern r s rule: grep_lines.induct)
  case (1 pattern r s)
  then show ?case by (subst grep_lines.simps) (simp add: Let_def split: option.split)
qed

text \<open>
  \<open>grep\<close>: \<open>buf\<close> is the part of the buffer in use, of \<open>m\<close> bytes. The read asks for
  \<open>sizeof(buf) - m - 1\<close> bytes, which is 0 when a line fills the buffer.
\<close>

definition unread :: "u8 list list option \<Rightarrow> nat" where
  "unread f = (case f of None \<Rightarrow> 0 | Some cs \<Rightarrow> length (concat cs))"

lemma unread_less:
  assumes "u_read fd n s = (r, b, t)" "0 < r"
  shows "unread (u_fd t (nat fd)) < unread (u_fd s (nat fd))"
  using assms by (auto simp: u_read_def unread_def split: if_splits option.splits list.splits)

function grep :: "cstring \<Rightarrow> int \<Rightarrow> u8 list \<Rightarrow> usys \<Rightarrow> usys" where
  "grep pattern fd buf s =
    (let (n, b, s) = u_read fd (1024 - length buf - 1) s in
     if 0 < n then
       let (buf, s) = grep_lines pattern (buf @ b) s
       in grep pattern fd buf s
     else s)"
  by pat_completeness auto
termination
proof (relation "measure (\<lambda>(pattern, fd, buf, s). unread (u_fd s (nat fd)))")
  fix pattern fd buf s x n y b t z buf' u
  assume r: "x = u_read fd (1024 - length buf - 1) s" "(n, y) = x" "(b, t) = y" "0 < n"
    and l: "z = grep_lines pattern (buf @ b) t" "(buf', u) = z"
  have "u_fd u = u_fd t" using l grep_lines_fd by (metis snd_conv)
  moreover have "u_read fd (1024 - length buf - 1) s = (n, b, t)" using r by simp
  ultimately show "((pattern, fd, buf', u), pattern, fd, buf, s) \<in> measure (\<lambda>(pattern, fd, buf, s). unread (u_fd s (nat fd)))"
    using unread_less r(4) by fastforce
qed simp

declare grep.simps [simp del]

subsection \<open>Lines\<close>

text \<open>The complete lines of a text, without their newlines, and what follows the last newline.\<close>

fun ulines :: "u8 list \<Rightarrow> u8 list \<Rightarrow> u8 list list" where
  "ulines l [] = []"
| "ulines l (c # r) = (if c = 10 then l # ulines [] r else ulines (l @ [c]) r)"

fun rest_line :: "u8 list \<Rightarrow> u8 list \<Rightarrow> u8 list" where
  "rest_line l [] = l"
| "rest_line l (c # r) = (if c = 10 then rest_line [] r else rest_line (l @ [c]) r)"

lemma ulines_append: "ulines l (x @ y) = ulines l x @ ulines (rest_line l x) y"
  by (induction l x rule: ulines.induct) simp_all

lemma rest_line_append: "rest_line l (x @ y) = rest_line (rest_line l x) y"
  by (induction l x rule: rest_line.induct) simp_all

lemma ulines_none: "10 \<notin> set x \<Longrightarrow> ulines l (x @ y) = ulines (l @ x) y \<and> rest_line l x = l @ x"
  by (induction x arbitrary: l) simp_all

lemma rest_line_no_newline: "10 \<notin> set l \<Longrightarrow> 10 \<notin> set (rest_line l x)"
  by (induction l x rule: rest_line.induct) simp_all

lemma rest_line_sub: "set (rest_line l x) \<subseteq> set l \<union> set x"
  by (induction l x rule: rest_line.induct) auto

text \<open>What \<^verbatim>\<open>grep\<close> prints of a text.\<close>

definition grepped :: "cstring \<Rightarrow> u8 list list \<Rightarrow> u8 list" where
  "grepped pattern ls = concat (map (\<lambda>l. l @ [10]) (filter (match pattern) ls))"

lemma grepped_simps [simp]:
  "grepped pattern [] = []" "grepped pattern (ls @ ls') = grepped pattern ls @ grepped pattern ls'"
  "grepped pattern (l # ls) = (if match pattern l then l @ [10] else []) @ grepped pattern ls"
  by (simp_all add: grepped_def)

lemma grep_lines_correct:
  "0 \<notin> set r \<Longrightarrow> grep_lines pattern r s = (buf, t) \<Longrightarrow>
    buf = rest_line [] r \<and> written 1 t = written 1 s @ grepped pattern (ulines [] r) \<and> u_fd t = u_fd s"
proof (induction pattern r s arbitrary: buf t rule: grep_lines.induct)
  case (1 pattern r s)
  show ?case
  proof (cases "ustrchr r 10")
    case None
    then have "10 \<notin> set r" using 1(2) ustrchr_None by blast
    then show ?thesis
      using 1(3) None ulines_none [of r "[]" "[]"] by (subst (asm) grep_lines.simps) simp
  next
    case (Some q)
    then obtain l r' where r: "r = l @ 10 # r'" "q = 10 # r'" "10 \<notin> set l" by (rule ustrchr_split)
    then have "take (length r - length q) r = l" "0 \<notin> set r'" using 1(2) by auto
    moreover have "ulines [] r = l # ulines [] r'" "rest_line [] r = rest_line [] r'"
      using ulines_none [OF r(3), of "[]" "10 # r'"] by (simp_all add: r(1) rest_line_append)
    moreover have "grep_lines pattern r s = grep_lines pattern r' (if match pattern l then u_write 1 (l @ [10]) s else s)"
      using Some r(2) \<open>take (length r - length q) r = l\<close> by (subst grep_lines.simps) (simp add: Let_def)
    ultimately show ?thesis
      using 1(1) [OF Some refl, of buf t] 1(3) r(2) by (simp split: if_splits)
  qed
qed

lemma ulines_length: "l' \<in> set (take 1 (ulines l x)) \<Longrightarrow> length l \<le> length l'"
  by (induction l x rule: ulines.induct) (auto split: if_splits)

text \<open>
  C31: \<open>grep\<close> prints exactly the lines of its input that match, in order and whole, however the
  input is cut into reads, provided that the input has no NUL and no line of 1023 bytes or
  more. What follows the last newline is never printed, even if it matches.
\<close>

theorem grep_prints:
  assumes "0 \<notin> set (pending (u_fd s fd))" "\<forall>l\<in>set (ulines [] (pending (u_fd s fd))). length l < 1023"
  shows "written 1 (grep pattern (int fd) [] s) =
    written 1 s @ grepped pattern (ulines [] (pending (u_fd s fd)))"
proof -
  have "written 1 (grep pattern (int fd) buf s) = written 1 s @ grepped pattern (ulines buf (pending (u_fd s fd)))"
    if "0 \<notin> set buf \<union> set (pending (u_fd s fd))" "10 \<notin> set buf"
      "\<forall>l\<in>set (ulines buf (pending (u_fd s fd))). length l < 1023" for buf
    using that
  proof (induction "unread (u_fd s fd)" arbitrary: s buf rule: less_induct)
    case less
    obtain n b t where rd: "u_read (int fd) (1024 - length buf - 1) s = (n, b, t)" by (rule prod_cases3)
    show ?case
    proof (cases "0 < n")
      case True
      then have pos: "0 < 1024 - length buf - 1"
        using rd by (auto simp: u_read_def split: option.splits list.splits)
      note P = u_read_pending [OF pos rd]
      obtain buf' u where gl: "grep_lines pattern (buf @ b) t = (buf', u)" by fastforce
      have pend: "pending (u_fd s fd) = b @ pending (u_fd t fd)" using P(1,3) True by auto
      then have L: "buf' = rest_line [] (buf @ b)" "u_fd u = u_fd t"
          "written 1 u = written 1 s @ grepped pattern (ulines [] (buf @ b))"
        using grep_lines_correct [OF _ gl] less.prems(1) P(5) by (auto simp: written_def)
      have lines: "ulines buf (pending (u_fd s fd)) = ulines [] (buf @ b) @ ulines buf' (pending (u_fd u fd))"
        using ulines_none [OF less.prems(2), of "[]"] ulines_append [of "[]" "buf @ b" "pending (u_fd t fd)"]
        by (simp add: pend L(1,2))
      have "written 1 (grep pattern (int fd) buf' u) = written 1 u @ grepped pattern (ulines buf' (pending (u_fd u fd)))"
      proof (rule less.hyps)
        show "unread (u_fd u fd) < unread (u_fd s fd)" using unread_less [OF rd True] L(2) by simp
        show "0 \<notin> set buf' \<union> set (pending (u_fd u fd))"
          using less.prems(1) rest_line_sub [of "[]" "buf @ b"] by (auto simp: pend L)
        show "10 \<notin> set buf'" unfolding L(1) by (rule rest_line_no_newline) simp
        show "\<forall>l\<in>set (ulines buf' (pending (u_fd u fd))). length l < 1023"
          using less.prems(3) by (simp add: lines)
      qed
      then show ?thesis
        using True rd gl L(3) by (subst grep.simps) (simp add: lines)
    next
      case False
      have "ulines buf (pending (u_fd s fd)) = []"
      proof (cases "length buf < 1023")
        case True
        then have "pending (u_fd s fd) = []" using u_read_pending(1,3) [OF _ rd] False by auto
        then show ?thesis by simp
      next
        case False
        then show ?thesis
          using less.prems(3) ulines_length [of _ buf "pending (u_fd s fd)"]
          by (cases "ulines buf (pending (u_fd s fd))") fastforce+
      qed
      moreover have "written 1 t = written 1 s"
        using rd by (auto simp: u_read_def written_def split: option.splits list.splits)
      ultimately show ?thesis using False rd by (subst grep.simps) simp
    qed
  qed
  from this [of "[]"] assms show ?thesis by simp
qed

definition demo_usys :: "u8 list list \<Rightarrow> usys" where
  "demo_usys cs = \<lparr>u_fd = (\<lambda>fd. if fd = 0 then Some cs else if fd < 3 then Some [] else None), u_names = (\<lambda>_. None),
    u_out = [], u_runs = [], u_fork = True, u_bad = {}\<rparr>"

lemma grep_prints_witness:
  "written 1 (grep (chars ''^b'') 0 [] (demo_usys [chars ''a'', [10, 98], chars ''c'' @ [10, 98]])) = chars ''bc'' @ [10]"
proof -
  have p: "pending (u_fd (demo_usys [chars ''a'', [10, 98], chars ''c'' @ [10, 98]]) 0) = chars ''a'' @ [10] @ chars ''bc'' @ [10, 98]"
    by (simp add: demo_usys_def pending_def chars_def)
  have l: "ulines [] (chars ''a'' @ [10] @ chars ''bc'' @ [10, 98]) = [chars ''a'', chars ''bc'']"
    by (simp add: chars_def)
  have m: "\<not> match (chars ''^b'') (chars ''a'')" "match (chars ''^b'') (chars ''bc'')"
    by (simp_all add: match_def matchhere.simps chars_def)
  show ?thesis
    using grep_prints [of "demo_usys [chars ''a'', [10, 98], chars ''c'' @ [10, 98]]" 0 "chars ''^b''"]
    unfolding p l by (simp add: m) (simp add: chars_def demo_usys_def written_def)
qed

end
