(* ===== verification/Uprint.thy ===== *)
theory Uprint
  imports Ulib
begin

text \<open>
  \<^verbatim>\<open>user/printf.c\<close>: formatted output of user programs. The arguments of \<open>vprintf\<close> are those of the
  kernel's \<open>printf\<close>: registers and string pointers.
\<close>

text \<open>\<open>putc\<close> writes one byte; \<open>uputs\<close> is a sequence of them.\<close>

definition uputc :: "int \<Rightarrow> u8 \<Rightarrow> usys \<Rightarrow> usys" where
  "uputc fd c s = u_write fd [c] s"

definition uputs :: "int \<Rightarrow> u8 list \<Rightarrow> usys \<Rightarrow> usys" where
  "uputs fd cs s = fold (uputc fd) cs s"

definition udigits :: "nat \<Rightarrow> u8" where
  "udigits d = ch (''0123456789ABCDEF'' ! d)"

text \<open>The digits of a number, least significant first. The variable \<open>x\<close> is a 32-bit \<open>uint\<close>.\<close>

function udigit_loop :: "u32 \<Rightarrow> u32 \<Rightarrow> u8 list" where
  "udigit_loop x base =
    udigits (unat (x mod base)) # (if x div base \<noteq> 0 \<and> 1 < base then udigit_loop (x div base) base else [])"
  by pat_completeness auto
termination
proof (relation "measure (\<lambda>(x, base). unat x)")
  fix x base :: u32
  assume a: "x div base \<noteq> 0 \<and> 1 < base"
  then have "x \<noteq> 0" by auto
  then have "0 < unat x" by (simp add: unat_gt_0)
  moreover have "1 < unat base" using a by (simp add: word_less_nat_alt)
  ultimately have "unat x div unat base < unat x" by (rule div_less_dividend [rotated])
  then show "((x div base, base), (x, base)) \<in> measure (\<lambda>(x, base). unat x)"
    by (simp add: unat_div)
qed simp

declare udigit_loop.simps [simp del]

text \<open>\<open>printint\<close> fills \<open>buf\<close> and writes it backwards. \<open>x = -xx\<close> and \<open>x = xx\<close> drop the high half.\<close>

definition uprintint :: "u64 \<Rightarrow> u32 \<Rightarrow> bool \<Rightarrow> u8 list" where
  "uprintint xx base sign =
    (let neg = (sign \<and> sint xx < 0);
         x = (if neg then ucast (- xx) else ucast xx);
         buf = udigit_loop x base
     in rev (if neg then buf @ [ch CHR ''-''] else buf))"

fun uprintptr_loop :: "nat \<Rightarrow> u64 \<Rightarrow> u8 list" where
  "uprintptr_loop 0 x = []"
| "uprintptr_loop (Suc k) x = udigits (unat (drop_bit 60 x)) # uprintptr_loop k (push_bit 4 x)"

definition uprintptr :: "u64 \<Rightarrow> u8 list" where
  "uprintptr x = ch CHR ''0'' # ch CHR ''x'' # uprintptr_loop 16 x"

text \<open>
  What \<open>vprintf\<close> writes. After a \<^verbatim>\<open>%\<close> the state of the loop is \<^verbatim>\<open>'%'\<close> and \<open>cs\<close> is the format from
  \<open>c0\<close> on.
\<close>

function uformat :: "u8 list \<Rightarrow> parg list \<Rightarrow> u8 list" where
  "uformat fmt args =
    (case fmt of [] \<Rightarrow> []
     | c # cs \<Rightarrow>
       if c \<noteq> ch CHR ''%'' then c # uformat cs args
       else case cs of [] \<Rightarrow> []
       | k0 # rest \<Rightarrow>
         let k1 = (if k0 \<noteq> 0 then c0 rest else 0);
             k2 = (if k1 \<noteq> 0 then c0 (tl rest) else 0);
             n = num_arg args
         in if k0 = ch CHR ''d'' then uprintint (scast (ucast n :: u32)) 10 True @ uformat rest (tl args)
         else if k0 = ch CHR ''l'' \<and> k1 = ch CHR ''d'' then uprintint n 10 True @ uformat (drop 1 rest) (tl args)
         else if k0 = ch CHR ''l'' \<and> k1 = ch CHR ''l'' \<and> k2 = ch CHR ''d''
           then uprintint n 10 True @ uformat (drop 2 rest) (tl args)
         else if k0 = ch CHR ''u'' then uprintint (ucast (ucast n :: u32)) 10 False @ uformat rest (tl args)
         else if k0 = ch CHR ''l'' \<and> k1 = ch CHR ''u'' then uprintint n 10 False @ uformat (drop 1 rest) (tl args)
         else if k0 = ch CHR ''l'' \<and> k1 = ch CHR ''l'' \<and> k2 = ch CHR ''u''
           then uprintint n 10 False @ uformat (drop 2 rest) (tl args)
         else if k0 = ch CHR ''x'' then uprintint (ucast (ucast n :: u32)) 16 False @ uformat rest (tl args)
         else if k0 = ch CHR ''l'' \<and> k1 = ch CHR ''x'' then uprintint n 16 False @ uformat (drop 1 rest) (tl args)
         else if k0 = ch CHR ''l'' \<and> k1 = ch CHR ''l'' \<and> k2 = ch CHR ''x''
           then uprintint n 16 False @ uformat (drop 2 rest) (tl args)
         else if k0 = ch CHR ''p'' then uprintptr n @ uformat rest (tl args)
         else if k0 = ch CHR ''c'' then ucast n # uformat rest (tl args)
         else if k0 = ch CHR ''s'' then str_arg args @ uformat rest (tl args)
         else if k0 = ch CHR ''%'' then ch CHR ''%'' # uformat rest args
         else ch CHR ''%'' # k0 # uformat rest args)"
  by pat_completeness auto
termination
  by (relation "measure (\<lambda>(fmt, args). length fmt)") auto

declare uformat.simps [simp del]

definition uvprintf :: "int \<Rightarrow> u8 list \<Rightarrow> parg list \<Rightarrow> usys \<Rightarrow> usys" where
  "uvprintf fd fmt args s = uputs fd (uformat fmt args) s"

definition ufprintf :: "int \<Rightarrow> u8 list \<Rightarrow> parg list \<Rightarrow> usys \<Rightarrow> usys" where
  "ufprintf fd fmt args s = uvprintf fd fmt args s"

definition uprintf :: "u8 list \<Rightarrow> parg list \<Rightarrow> usys \<Rightarrow> usys" where
  "uprintf fmt args s = uvprintf 1 fmt args s"

section \<open>What they write\<close>

lemma uputs_simps [simp]: "uputs fd [] s = s" "uputs fd (c # cs) s = uputs fd cs (uputc fd c s)"
  by (simp_all add: uputs_def)

lemma uputs_fields [simp]:
  "u_fd (uputs fd cs s) = u_fd s" "u_names (uputs fd cs s) = u_names s" "u_runs (uputs fd cs s) = u_runs s"
  "u_fork (uputs fd cs s) = u_fork s" "u_bad (uputs fd cs s) = u_bad s"
  by (induction cs arbitrary: s) (simp_all add: uputc_def)

lemma written_uputs [simp]:
  "written fd (uputs fd cs s) = written fd s @ cs"
  "fd \<noteq> fd' \<Longrightarrow> written fd (uputs fd' cs s) = written fd s"
  by (induction cs arbitrary: s) (simp_all add: uputc_def)

lemma udigit_loop_numeral: "rev (udigit_loop x 10) = numeral_of 10 (unat x)"
proof -
  have dig: "udigits d = digits d" if "d < 10" for d
  proof -
    have "\<forall>d\<in>set [0..<10]. udigits d = digits d" by (simp add: digits_def udigits_def upt_rec)
    then show ?thesis using that by simp
  qed
  have "base = 10 \<Longrightarrow> rev (udigit_loop x base) = numeral_of 10 (unat x)" for base
  proof (induction x base rule: udigit_loop.induct)
    case (1 x base)
    have z: "x div 10 = 0 \<longleftrightarrow> unat x < 10" by (simp add: word_unat_eq_iff unat_div div_eq_0_iff)
    have d: "udigits (unat x mod 10) = digits (unat x mod 10)" by (rule dig) simp
    show ?case
    proof (cases "x div 10 = 0")
      case True
      then show ?thesis
        using z 1(2) d by (subst udigit_loop.simps, subst numeral_of.simps) (simp add: unat_mod)
    next
      case False
      then show ?thesis
        using z 1 d by (subst udigit_loop.simps, subst numeral_of.simps) (simp add: unat_mod unat_div)
    qed
  qed
  then show ?thesis by simp
qed

lemma numeral_of_inject: "numeral_of 10 m = numeral_of 10 n \<longleftrightarrow> m = n"
proof
  assume "numeral_of 10 m = numeral_of 10 n"
  then have "numeral_val 10 (numeral_of 10 m) = numeral_val 10 (numeral_of 10 n)" by simp
  then show "m = n" by (simp add: numeral_val_of)
qed simp

lemma uprintint_numeral:
  assumes "v = (if sign then sint xx else uint xx)"
  shows "uprintint xx 10 sign = (if v < 0 then [45] else []) @ numeral_of 10 (nat \<bar>v\<bar> mod 2 ^ 32)"
proof -
  define x where "x = (if v < 0 then - xx else xx)"
  have neg: "sign \<and> sint xx < 0 \<longleftrightarrow> v < 0" by (simp add: assms)
  have m: "ch CHR ''-'' = 45" by simp
  have ux: "unat x = nat \<bar>v\<bar>" unfolding x_def assms by (rule unat_magnitude)
  have "unat (ucast x :: u32) = nat \<bar>v\<bar> mod 2 ^ 32"
    by (simp add: unsigned_ucast_eq take_bit_eq_mod ux)
  then show ?thesis
    using udigit_loop_numeral [of "ucast x"]
    unfolding uprintint_def Let_def neg m by (cases "v < 0") (simp_all add: x_def)
qed

text \<open>
  C32: the user's \<^verbatim>\<open>%d\<close>, \<^verbatim>\<open>%ld\<close> and \<^verbatim>\<open>%lu\<close> print the numeral of the absolute value modulo \<open>2 ^ 32\<close>. So
  they print what the kernel's \<open>printf\<close> does exactly if the absolute value is below \<open>2 ^ 32\<close>:
  every \<open>int\<close> and \<open>uint\<close> is right, and every larger 64-bit number is wrong.
\<close>

theorem uprintint_truncates:
  "let v = (if sign then sint xx else uint xx) in
    uprintint xx 10 sign = (if v < 0 then [45] else []) @ numeral_of 10 (nat \<bar>v\<bar> mod 2 ^ 32) \<and>
    (uprintint xx 10 sign = printint xx 10 sign \<longleftrightarrow> nat \<bar>v\<bar> < 2 ^ 32)"
proof -
  define v where "v = (if sign then sint xx else uint xx)"
  define x where "x = (if v < 0 then - xx else xx)"
  have neg: "sign \<and> sint xx < 0 \<longleftrightarrow> v < 0" by (simp add: v_def)
  have m: "ch CHR ''-'' = 45" by simp
  have ux: "unat x = nat \<bar>v\<bar>" unfolding x_def v_def by (rule unat_magnitude)
  have p: "uprintint xx 10 sign = (if v < 0 then [45] else []) @ numeral_of 10 (nat \<bar>v\<bar> mod 2 ^ 32)"
    by (rule uprintint_numeral) (rule v_def)
  have "printint xx 10 sign = (if v < 0 then [45] else []) @ numeral_of 10 (nat \<bar>v\<bar>)"
    unfolding printint_def printint_buf_def Let_def neg m x_def [symmetric]
    using digit_loop_numeral [of 10 x, unfolded ux] by (cases "v < 0") simp_all
  then have "uprintint xx 10 sign = printint xx 10 sign \<longleftrightarrow> nat \<bar>v\<bar> mod 2 ^ 32 = nat \<bar>v\<bar>"
    using p by (simp add: numeral_of_inject)
  also have "\<dots> \<longleftrightarrow> nat \<bar>v\<bar> < 2 ^ 32" by (simp add: mod_eq_self_iff_div_eq_0 div_eq_0_iff)
  finally show ?thesis using p unfolding Let_def v_def by blast
qed

lemma uformat_chars: "37 \<notin> set x \<Longrightarrow> uformat (x @ r) args = x @ uformat r args"
  by (induction x) (simp, subst uformat.simps, simp)

lemma uformat_d: "uformat (37 # 100 # r) args = uprintint (scast (ucast (num_arg args) :: u32)) 10 True @ uformat r (tl args)"
  by (subst uformat.simps) simp

lemma uformat_s: "uformat (37 # 115 # r) args = str_arg args @ uformat r (tl args)"
  by (subst uformat.simps) simp

lemma uformat_Nil [simp]: "uformat [] args = []"
  by (subst uformat.simps) simp

lemma uformat_newline [simp]: "uformat [10] args = [10]"
  by (subst uformat.simps) simp

text \<open>A format that is a text, an \<^verbatim>\<open>%s\<close> and a newline.\<close>

lemma uformat_name: "37 \<notin> set x \<Longrightarrow> uformat (x @ [37, 115, 10]) args = x @ str_arg args @ [10]"
  by (simp add: uformat_chars uformat_s)

end
