(* ===== verification/Shparse.thy ===== *)
theory Shparse
  imports Ulib
begin

text \<open>
  The parser of the shell, \<^verbatim>\<open>user/sh.c\<close>. A pointer into the command line is the part of the line
  from there on, so that \<open>s < es\<close> is \<open>s \<noteq> []\<close>. A token is the pair of the pointers to its
  beginning and its end. \<open>panic\<close> ends the parser with a message. The constructors of commands call
  \<open>malloc\<close>, which is taken to succeed, and the recursion is taken to have enough stack.
\<close>

section \<open>Tokens\<close>

definition whitespace :: cstring where "whitespace = [32, 9, 13, 10, 11]"
definition symbols :: cstring where "symbols = [60, 124, 62, 38, 59, 40, 41]"

type_synonym token = "cstring \<times> cstring"

fun skipws :: "cstring \<Rightarrow> cstring" where
  "skipws [] = []"
| "skipws (c # s) = (if ustrchr whitespace c \<noteq> None then skipws s else c # s)"

fun tokend :: "cstring \<Rightarrow> cstring" where
  "tokend [] = []"
| "tokend (c # s) =
    (if ustrchr whitespace c = None \<and> ustrchr symbols c = None then tokend s else c # s)"

text \<open>
  \<open>gettoken\<close>: the kind of the token, \<open>q\<close> and \<open>eq\<close>, and the advanced pointer. The kinds are
  the characters of the code, with \<^verbatim>\<open>'+'\<close> (43) for \<^verbatim>\<open>>>\<close> and \<^verbatim>\<open>'a'\<close> (97) for a word.
\<close>

definition gettoken :: "cstring \<Rightarrow> u8 \<times> token \<times> cstring" where
  "gettoken ps =
    (let s = skipws ps; q = s;
         (ret, s) =
           (if c0 s = 0 then (0, s)
            else if c0 s = 124 \<or> c0 s = 40 \<or> c0 s = 41 \<or> c0 s = 59 \<or> c0 s = 38 \<or> c0 s = 60 then (c0 s, tl s)
            else if c0 s = 62 then (if c0 (tl s) = 62 then (43, tl (tl s)) else (62, tl s))
            else (97, tokend s));
         eq = s
     in (ret, (q, eq), skipws s))"

definition peek :: "cstring \<Rightarrow> cstring \<Rightarrow> bool \<times> cstring" where
  "peek ps toks = (let s = skipws ps in (c0 s \<noteq> 0 \<and> ustrchr toks (c0 s) \<noteq> None, s))"

section \<open>Commands\<close>

text \<open>
  The tagged union \<open>struct cmd\<close>. A redirection has the file, the mode of \<open>open\<close> and the
  descriptor.
\<close>

datatype 'w cmd =
    ExecC "'w list"
  | RedirC "'w cmd" 'w int int
  | PipeC "'w cmd" "'w cmd"
  | ListC "'w cmd" "'w cmd"
  | BackC "'w cmd"

definition MAXARGS :: nat where "MAXARGS = 10"

text \<open>The modes \<open>O_RDONLY\<close>, \<open>O_WRONLY|O_CREATE|O_TRUNC\<close> and \<open>O_WRONLY|O_CREATE\<close>.\<close>

definition redir_of :: "u8 \<Rightarrow> 'w cmd \<Rightarrow> 'w \<Rightarrow> 'w cmd" where
  "redir_of tok c w =
    (if tok = 60 then RedirC c w 0 0
     else if tok = 62 then RedirC c w 0x601 1
     else if tok = 43 then RedirC c w 0x201 1
     else c)"

text \<open>
  \<open>parseexec\<close> goes on filling the arguments of the \<open>execcmd\<close> after redirections have been wrapped
  around it: \<open>add_arg\<close> is \<open>cmd->argv[argc] = q; cmd->eargv[argc] = eq\<close> through that pointer.
\<close>

fun add_arg :: "'w \<Rightarrow> 'w cmd \<Rightarrow> 'w cmd" where
  "add_arg w (ExecC ws) = ExecC (ws @ [w])"
| "add_arg w (RedirC c f m fd) = RedirC (add_arg w c) f m fd"
| "add_arg w c = c"

section \<open>The parser\<close>

text \<open>
  The parser returns a command and the pointer behind it, or panics. The functions that call each
  other have a bound on the depth of their calls, which \<open>parsecmd\<close> chooses by the length of
  the line; \<open>PFuel\<close> is running out of it.
\<close>

datatype 'a pres = POk 'a cstring | PPanic string | PFuel

definition pbind :: "'a pres \<Rightarrow> ('a \<Rightarrow> cstring \<Rightarrow> 'b pres) \<Rightarrow> 'b pres" where
  "pbind m f = (case m of POk a s \<Rightarrow> f a s | PPanic e \<Rightarrow> PPanic e | PFuel \<Rightarrow> PFuel)"

lemma pbind_simps [simp]:
  "pbind (POk a s) f = f a s" "pbind (PPanic e) f = PPanic e" "pbind PFuel f = PFuel"
  by (simp_all add: pbind_def)

lemma pbind_cong [fundef_cong]:
  "m = m' \<Longrightarrow> (\<And>a s. m' = POk a s \<Longrightarrow> f a s = g a s) \<Longrightarrow> pbind m f = pbind m' g"
  by (cases m') simp_all

lemma skipws_length: "length (skipws s) \<le> length s"
  by (induction s) auto

lemma skipws_idem [simp]: "skipws (skipws s) = skipws s"
  by (induction s) auto

lemma tokend_length: "length (tokend s) \<le> length s"
  by (induction s) auto

lemma peek_length: "peek s toks = (b, t) \<Longrightarrow> length t \<le> length s"
  by (auto simp: peek_def Let_def skipws_length)

lemma gettoken_length: "gettoken s = (tok, w, t) \<Longrightarrow> length t \<le> length s"
proof -
  assume g: "gettoken s = (tok, w, t)"
  have k: "length (skipws (tl x)) \<le> length x" "length (skipws (tl (tl x))) \<le> length x"
    "length (skipws (tokend x)) \<le> length x" for x
    using skipws_length [of "tl x"] skipws_length [of "tl (tl x)"] skipws_length [of "tokend x"] tokend_length [of x]
    by auto
  show ?thesis
    using g k [of "skipws s"] skipws_length [of s] skipws_length [of "skipws s"]
    by (auto simp: gettoken_def Let_def split: if_splits intro: order.trans)
qed

lemma tokend_less:
  assumes "c0 s \<noteq> 0" "ustrchr whitespace (c0 s) = None" "ustrchr symbols (c0 s) = None"
  shows "length (tokend s) < length s"
  using assms tokend_length [of "tl s"] by (cases s) auto

text \<open>A token that is not the end of the line takes at least one character.\<close>

lemma skipws_start: "c0 (skipws s) \<noteq> 0 \<Longrightarrow> ustrchr whitespace (c0 (skipws s)) = None"
  by (induction s) auto

lemma gettoken_less:
  assumes "gettoken s = (tok, w, t)" "c0 (skipws s) \<noteq> 0"
  shows "length t < length s"
proof -
  let ?s = "skipws s"
  have ne: "length (tl ?s) < length ?s" using assms(2) by (cases ?s) auto
  consider "t = skipws (tl ?s)" | "t = skipws (tl (tl ?s))" | "t = skipws (tokend ?s)" "ustrchr symbols (c0 ?s) = None"
    using assms by (auto simp: gettoken_def Let_def symbols_def ustrchr_Cons split: if_splits)
  then have "length t < length ?s"
  proof cases
    case 1
    then show ?thesis using skipws_length [of "tl ?s"] ne by simp
  next
    case 2
    then show ?thesis using skipws_length [of "tl (tl ?s)"] ne by simp
  next
    case 3
    then show ?thesis
      using skipws_length [of "tokend ?s"] tokend_less [OF assms(2) skipws_start [OF assms(2)]] by simp
  qed
  then show ?thesis using skipws_length [of s] by simp
qed

function parseredirs :: "token cmd \<Rightarrow> cstring \<Rightarrow> token cmd pres" where
  "parseredirs cmd s =
    (let (b, s) = peek s [60, 62] in
     if b then
       let (tok, _, s) = gettoken s;
           (a, w, s) = gettoken s
       in if a \<noteq> 97 then PPanic ''missing file for redirection''
          else parseredirs (redir_of tok cmd w) s
     else POk cmd s)"
  by pat_completeness auto
termination
proof (relation "measure (\<lambda>(cmd, s). length s)")
  fix cmd s x b t y tok y' x1 t' z a z' w t''
  assume "x = peek s [60, 62]" "(b, t) = x" "b" "y = gettoken t" "(tok, y') = y" "(x1, t') = y'"
    "z = gettoken t'" "(a, z') = z" "(w, t'') = z'"
  then have "peek s [60, 62] = (True, t)" "gettoken t = (tok, x1, t')" "gettoken t' = (a, w, t'')" by simp_all
  moreover from this(1) have "c0 (skipws t) \<noteq> 0" "length t \<le> length s"
    by (auto simp: peek_def Let_def skipws_length)
  ultimately show "((redir_of tok cmd w, t''), cmd, s) \<in> measure (\<lambda>(cmd, s). length s)"
    using gettoken_less [of t tok x1 t'] gettoken_length [of t' a w t''] by simp
qed simp

declare parseredirs.simps [simp del]

lemma parseredirs_length: "parseredirs cmd s = POk c t \<Longrightarrow> length t \<le> length s"
proof (induction cmd s rule: parseredirs.induct)
  case (1 cmd s)
  obtain b s1 where p: "peek s [60, 62] = (b, s1)" by fastforce
  show ?case
  proof (cases b)
    case False
    then show ?thesis using 1(2) p peek_length [OF p] by (subst (asm) parseredirs.simps) simp
  next
    case True
    obtain tok w1 s2 where g1: "gettoken s1 = (tok, w1, s2)" by (rule prod_cases3)
    obtain a w s3 where g2: "gettoken s2 = (a, w, s3)" by (rule prod_cases3)
    have "a = 97" "parseredirs (redir_of tok cmd w) s3 = POk c t"
      using 1(2) p True g1 g2 by (subst (asm) parseredirs.simps, simp split: if_splits)+
    then have "length t \<le> length s3" using 1(1) [OF p [symmetric] refl True g1 [symmetric] refl refl g2 [symmetric] refl refl] by simp
    then show ?thesis
      using peek_length [OF p] gettoken_length [OF g1] gettoken_length [OF g2] by simp
  qed
qed

text \<open>The loop of \<open>parseexec\<close>; \<open>cmd\<close> is \<open>ret\<close>.\<close>

function exec_loop :: "token cmd \<Rightarrow> nat \<Rightarrow> cstring \<Rightarrow> token cmd pres" where
  "exec_loop cmd argc s =
    (let (b, s) = peek s [124, 41, 38, 59] in
     if b then POk cmd s
     else
       let (tok, w, s) = gettoken s in
       if tok = 0 then POk cmd s
       else if tok \<noteq> 97 then PPanic ''syntax''
       else if MAXARGS \<le> argc + 1 then PPanic ''too many args''
       else pbind (parseredirs (add_arg w cmd) s) (\<lambda>cmd s. exec_loop cmd (argc + 1) s))"
  by pat_completeness auto
termination
proof (relation "measure (\<lambda>(cmd, argc, s). length s)")
  fix cmd argc s x b t y tok y' w t' c t''
  assume "x = peek s [124, 41, 38, 59]" "(b, t) = x" "\<not> b" "y = gettoken t" "(tok, y') = y" "(w, t') = y'"
    and n: "tok \<noteq> 0" "parseredirs (add_arg w cmd) t' = POk c t''"
  then have p: "peek s [124, 41, 38, 59] = (b, t)" and g: "gettoken t = (tok, w, t')" by simp_all
  from g n(1) have "c0 (skipws t) \<noteq> 0" by (auto simp: gettoken_def Let_def)
  from gettoken_less [OF g this] peek_length [OF p] parseredirs_length [OF n(2)]
  show "((c, argc + 1, t''), cmd, argc, s) \<in> measure (\<lambda>(cmd, argc, s). length s)" by simp
qed simp

declare exec_loop.simps [simp del]

text \<open>The loop over \<^verbatim>\<open>&\<close> in \<open>parseline\<close>.\<close>

function back_loop :: "token cmd \<Rightarrow> cstring \<Rightarrow> token cmd \<times> cstring" where
  "back_loop cmd s =
    (let (b, s) = peek s [38] in
     if b then let (_, _, s) = gettoken s in back_loop (BackC cmd) s
     else (cmd, s))"
  by pat_completeness auto
termination
proof (relation "measure (\<lambda>(cmd, s). length s)")
  fix cmd :: "token cmd" and s x b t y x1 y' x2 t'
  assume "x = peek s [38]" "(b, t) = x" "b" "y = gettoken t" "(x1, y') = y" "(x2, t') = y'"
  then have p: "peek s [38] = (True, t)" and g: "gettoken t = (x1, x2, t')" by simp_all
  then have "c0 (skipws t) \<noteq> 0" by (auto simp: peek_def Let_def)
  from gettoken_less [OF g this] peek_length [OF p]
  show "((BackC cmd, t'), cmd, s) \<in> measure (\<lambda>(cmd, s). length s)" by simp
qed simp

declare back_loop.simps [simp del]

fun parseline :: "nat \<Rightarrow> cstring \<Rightarrow> token cmd pres"
  and parsepipe :: "nat \<Rightarrow> cstring \<Rightarrow> token cmd pres"
  and parseexec :: "nat \<Rightarrow> cstring \<Rightarrow> token cmd pres"
  and parseblock :: "nat \<Rightarrow> cstring \<Rightarrow> token cmd pres" where
  "parseline 0 s = PFuel"
| "parseline (Suc n) s =
    pbind (parsepipe n s) (\<lambda>cmd s.
    let (cmd, s) = back_loop cmd s;
        (b, s) = peek s [59] in
    if b then
      let (_, _, s) = gettoken s
      in pbind (parseline n s) (\<lambda>right s. POk (ListC cmd right) s)
    else POk cmd s)"
| "parsepipe 0 s = PFuel"
| "parsepipe (Suc n) s =
    pbind (parseexec n s) (\<lambda>cmd s.
    let (b, s) = peek s [124] in
    if b then
      let (_, _, s) = gettoken s
      in pbind (parsepipe n s) (\<lambda>right s. POk (PipeC cmd right) s)
    else POk cmd s)"
| "parseexec 0 s = PFuel"
| "parseexec (Suc n) s =
    (let (b, s) = peek s [40] in
     if b then parseblock n s
     else pbind (parseredirs (ExecC []) s) (\<lambda>ret s. exec_loop ret 0 s))"
| "parseblock 0 s = PFuel"
| "parseblock (Suc n) s =
    (let (b, s) = peek s [40] in
     if \<not> b then PPanic ''parseblock''
     else
       let (_, _, s) = gettoken s
       in pbind (parseline n s) (\<lambda>cmd s.
       let (b, s) = peek s [41] in
       if \<not> b then PPanic ''syntax - missing )''
       else let (_, _, s) = gettoken s in parseredirs cmd s))"

text \<open>\<open>parsecmd\<close> up to \<open>nulterminate\<close>: the whole line has to be used up.\<close>

definition parsecmd :: "cstring \<Rightarrow> token cmd pres" where
  "parsecmd s =
    pbind (parseline (4 * length s + 3) s) (\<lambda>cmd s.
    let (_, s) = peek s [] in
    if s \<noteq> [] then PPanic ''syntax'' else POk cmd s)"

text \<open>
  \<open>nulterminate\<close> stores a NUL at the end of every token of the line \<open>buf\<close>, whose length is
  \<open>n\<close> without the NUL that it ends in.
\<close>

definition put_nul :: "nat \<Rightarrow> token \<Rightarrow> cstring \<Rightarrow> cstring" where
  "put_nul n w buf = buf[n - length (snd w) := 0]"

fun nulterminate :: "nat \<Rightarrow> token cmd \<Rightarrow> cstring \<Rightarrow> cstring" where
  "nulterminate n (ExecC ws) buf = fold (put_nul n) ws buf"
| "nulterminate n (RedirC c f m fd) buf = put_nul n f (nulterminate n c buf)"
| "nulterminate n (PipeC l r) buf = nulterminate n r (nulterminate n l buf)"
| "nulterminate n (ListC l r) buf = nulterminate n r (nulterminate n l buf)"
| "nulterminate n (BackC c) buf = nulterminate n c buf"

section \<open>Every line is parsed or refused\<close>

lemma exec_loop_length: "exec_loop cmd argc s = POk c t \<Longrightarrow> length t \<le> length s"
proof (induction cmd argc s rule: exec_loop.induct)
  case (1 cmd argc s)
  obtain b s1 where p: "peek s [124, 41, 38, 59] = (b, s1)" by fastforce
  obtain tok w s2 where g: "gettoken s1 = (tok, w, s2)" by (rule prod_cases3)
  note L = peek_length [OF p] gettoken_length [OF g]
  show ?case
  proof (cases "b \<or> tok = 0")
    case True
    then show ?thesis using 1(2) p g L by (subst (asm) exec_loop.simps) (auto split: if_splits)
  next
    case False
    then obtain c' s3 where r: "parseredirs (add_arg w cmd) s2 = POk c' s3" "exec_loop c' (argc + 1) s3 = POk c t"
        "tok = 97" "\<not> MAXARGS \<le> argc + 1"
      using 1(2) p g by (subst (asm) exec_loop.simps) (auto simp: pbind_def split: pres.splits if_splits)
    then show ?thesis
      using 1(1) [OF p [symmetric] refl _ g [symmetric] refl refl] False L parseredirs_length [OF r(1)] by fastforce
  qed
qed

lemma back_loop_length: "back_loop cmd s = (c, t) \<Longrightarrow> length t \<le> length s"
proof (induction cmd s rule: back_loop.induct)
  case (1 cmd s)
  obtain b s1 where p: "peek s [38] = (b, s1)" by fastforce
  obtain tok w s2 where g: "gettoken s1 = (tok, w, s2)" by (rule prod_cases3)
  note L = peek_length [OF p] gettoken_length [OF g]
  show ?case
  proof (cases b)
    case True
    then show ?thesis using 1(1) [OF p [symmetric] refl True g [symmetric] refl] 1(2) p g L
      by (subst (asm) (2) back_loop.simps) simp
  next
    case False
    then show ?thesis using 1(2) p L by (subst (asm) back_loop.simps) simp
  qed
qed

text \<open>\<open>shrinks m s\<close>: the pointer that \<open>m\<close> returns is not before \<open>s\<close>.\<close>

definition shrinks :: "'a pres \<Rightarrow> cstring \<Rightarrow> bool" where
  "shrinks m s \<longleftrightarrow> (\<forall>c t. m = POk c t \<longrightarrow> length t \<le> length s)"

lemma shrinks_simps [simp]:
  "shrinks (PPanic e) s" "shrinks PFuel s" "shrinks (POk c t) s \<longleftrightarrow> length t \<le> length s"
  by (simp_all add: shrinks_def)

lemma shrinks_bind: "shrinks m s \<Longrightarrow> (\<And>c t. m = POk c t \<Longrightarrow> length t \<le> length s \<Longrightarrow> shrinks (f c t) s) \<Longrightarrow> shrinks (pbind m f) s"
  by (cases m) simp_all

lemma shrinks_mono: "shrinks m s \<Longrightarrow> length s \<le> length s' \<Longrightarrow> shrinks m s'"
  unfolding shrinks_def using order.trans by blast

lemma shrinks_parts: "shrinks (parseredirs cmd s) s" "shrinks (exec_loop cmd argc s) s"
  using parseredirs_length exec_loop_length unfolding shrinks_def by blast+

lemma parse_shrinks:
  "shrinks (parseline n s) s" "shrinks (parsepipe n s) s" "shrinks (parseexec n s) s" "shrinks (parseblock n s) s"
proof (induction n s and n s and n s and n s rule: parseline_parsepipe_parseexec_parseblock.induct)
  case (2 n s)
  show ?case
    unfolding parseline.simps
  proof (rule shrinks_bind [OF 2(1)])
    fix c t assume t: "length t \<le> length s" "parsepipe n s = POk c t"
    obtain c' t1 where b: "back_loop c t = (c', t1)" by fastforce
    obtain p t2 where p: "peek t1 [59] = (p, t2)" by fastforce
    obtain k w t3 where g: "gettoken t2 = (k, w, t3)" by (rule prod_cases3)
    note L = back_loop_length [OF b] peek_length [OF p] gettoken_length [OF g]
    then show "shrinks (let (cmd, s) = back_loop c t; (b, s) = peek s [59] in
        if b then let (_, _, s) = gettoken s in pbind (parseline n s) (\<lambda>right s. POk (ListC cmd right) s)
        else POk cmd s) s"
      using t 2(2) [OF t(2) b [symmetric] refl p [symmetric] refl _ g [symmetric] refl]
      by (cases w) (auto simp: b p g intro!: shrinks_bind shrinks_mono [of _ t3 s])
  qed
next
  case (4 n s)
  show ?case
    unfolding parsepipe.simps
  proof (rule shrinks_bind [OF 4(1)])
    fix c t assume t: "length t \<le> length s" "parseexec n s = POk c t"
    obtain p t2 where p: "peek t [124] = (p, t2)" by fastforce
    obtain k w t3 where g: "gettoken t2 = (k, w, t3)" by (rule prod_cases3)
    note L = peek_length [OF p] gettoken_length [OF g]
    then show "shrinks (let (b, s) = peek t [124] in
        if b then let (_, _, s) = gettoken s in pbind (parsepipe n s) (\<lambda>right s. POk (PipeC c right) s)
        else POk c s) s"
      using t 4(2) [OF t(2) p [symmetric] refl _ g [symmetric] refl]
      by (cases w) (auto simp: p g intro!: shrinks_bind shrinks_mono [of _ t3 s])
  qed
next
  case (6 n s)
  obtain p t where p: "peek s [40] = (p, t)" by fastforce
  note L = peek_length [OF p]
  show ?case
    using 6 [OF p [symmetric] refl] L
    by (auto simp: p intro!: shrinks_bind intro: shrinks_mono shrinks_parts)
next
  case (8 n s)
  obtain p t where p: "peek s [40] = (p, t)" by fastforce
  obtain k w t1 where g: "gettoken t = (k, w, t1)" by (rule prod_cases3)
  note L = peek_length [OF p] gettoken_length [OF g]
  have "shrinks (let (b, s) = peek t2 [41] in if \<not> b then PPanic ''syntax - missing )''
      else let (_, _, s) = gettoken s in parseredirs c s) s" if "length t2 \<le> length s" for c t2
  proof -
    obtain p t3 where p: "peek t2 [41] = (p, t3)" by fastforce
    obtain k w t4 where g: "gettoken t3 = (k, w, t4)" by (rule prod_cases3)
    show ?thesis
      using that peek_length [OF p] gettoken_length [OF g]
      by (auto simp: p g intro!: shrinks_mono [OF shrinks_parts(1), of t4 s])
  qed
  moreover have "p \<Longrightarrow> shrinks (parseline n t1) t1"
    using 8 [OF p [symmetric] refl _ g [symmetric]] by (cases w) simp
  ultimately show ?case
    using L shrinks_mono [of "parseline n t1" t1 s] by (auto simp: p g intro!: shrinks_bind)
qed simp_all

lemma peek_open: "peek s toks = (True, t) \<Longrightarrow> c0 (skipws t) \<noteq> 0"
  by (auto simp: peek_def Let_def)

text \<open>\<open>fine m\<close>: \<open>m\<close> does not run out of fuel, and panics only with a message of the parser.\<close>

definition fine :: "'a pres \<Rightarrow> bool" where
  "fine m \<longleftrightarrow> (case m of POk c t \<Rightarrow> True | PFuel \<Rightarrow> False | PPanic e \<Rightarrow>
    e = ''syntax'' \<or> e = ''missing file for redirection'' \<or> e = ''too many args'' \<or> e = ''syntax - missing )'')"

lemma fine_simps [simp]:
  "fine (POk c t)" "\<not> fine PFuel" "fine (PPanic ''syntax'')" "fine (PPanic ''missing file for redirection'')"
  "fine (PPanic ''too many args'')" "fine (PPanic ''syntax - missing )'')"
  by (simp_all add: fine_def)

lemma fine_bind: "fine m \<Longrightarrow> (\<And>c t. m = POk c t \<Longrightarrow> fine (f c t)) \<Longrightarrow> fine (pbind m f)"
  by (cases m) (simp_all add: fine_def)

lemma parseredirs_fine: "fine (parseredirs cmd s)"
proof (induction cmd s rule: parseredirs.induct)
  case (1 cmd s)
  obtain b s1 where p: "peek s [60, 62] = (b, s1)" by fastforce
  obtain tok w1 s2 where g1: "gettoken s1 = (tok, w1, s2)" by (rule prod_cases3)
  obtain a w s3 where g2: "gettoken s2 = (a, w, s3)" by (rule prod_cases3)
  show ?case
    using 1 [OF p [symmetric] refl _ g1 [symmetric] refl refl g2 [symmetric] refl refl] p g1 g2
    by (subst parseredirs.simps) simp
qed

lemma exec_loop_fine: "fine (exec_loop cmd argc s)"
proof (induction cmd argc s rule: exec_loop.induct)
  case (1 cmd argc s)
  obtain b s1 where p: "peek s [124, 41, 38, 59] = (b, s1)" by fastforce
  obtain tok w s2 where g: "gettoken s1 = (tok, w, s2)" by (rule prod_cases3)
  show ?case
    using 1 [OF p [symmetric] refl _ g [symmetric] refl refl] p g parseredirs_fine [of "add_arg w cmd" s2]
    by (subst exec_loop.simps) (auto intro!: fine_bind)
qed

text \<open>
  The depth of the calls: a parenthesis that has been read pays for the four calls until the next.
\<close>

lemma parse_fine:
  "4 * length s + 3 \<le> n \<Longrightarrow> fine (parseline n s)"
  "4 * length s + 2 \<le> n \<Longrightarrow> fine (parsepipe n s)"
  "4 * length s + 1 \<le> n \<Longrightarrow> fine (parseexec n s)"
  "c0 (skipws s) = 40 \<Longrightarrow> 4 * length s \<le> n \<Longrightarrow> fine (parseblock n s)"
proof (induction n arbitrary: s)
  case (Suc n)
  { case 1
    have "fine (let (cmd, s) = back_loop c t; (b, s) = peek s [59] in
        if b then let (_, _, s) = gettoken s in pbind (parseline n s) (\<lambda>right s. POk (ListC cmd right) s)
        else POk cmd s)" if c: "parsepipe n s = POk c t" for c t
    proof -
      obtain c' t1 where b: "back_loop c t = (c', t1)" by fastforce
      obtain p t2 where p: "peek t1 [59] = (p, t2)" by fastforce
      obtain k w t3 where g: "gettoken t2 = (k, w, t3)" by (rule prod_cases3)
      have "length t \<le> length s" using parse_shrinks(2) [of n s] c by simp
      then have "p \<Longrightarrow> length t3 < length s"
        using back_loop_length [OF b] peek_length [OF p] gettoken_less [OF g] p peek_open [of t1 "[59]" t2] by fastforce
      then have "p \<Longrightarrow> fine (parseline n t3)" using 1 by (intro Suc.IH(1)) fastforce
      then show ?thesis by (auto simp: b p g intro: fine_bind)
    qed
    then show ?case using Suc.IH(2) [of s] 1 by (auto intro!: fine_bind)
  next
    case 2
    have "fine (let (b, s) = peek t [124] in
        if b then let (_, _, s) = gettoken s in pbind (parsepipe n s) (\<lambda>right s. POk (PipeC c right) s)
        else POk c s)" if c: "parseexec n s = POk c t" for c t
    proof -
      obtain p t2 where p: "peek t [124] = (p, t2)" by fastforce
      obtain k w t3 where g: "gettoken t2 = (k, w, t3)" by (rule prod_cases3)
      have "length t \<le> length s" using parse_shrinks(3) [of n s] c by simp
      then have "p \<Longrightarrow> length t3 < length s"
        using peek_length [OF p] gettoken_less [OF g] p peek_open [of t "[124]" t2] by fastforce
      then have "p \<Longrightarrow> fine (parsepipe n t3)" using 2 by (intro Suc.IH(2)) fastforce
      then show ?thesis by (auto simp: p g intro: fine_bind)
    qed
    then show ?case using Suc.IH(3) [of s] 2 by (auto intro!: fine_bind)
  next
    case 3
    obtain p t where p: "peek s [40] = (p, t)" by fastforce
    have "p \<Longrightarrow> c0 (skipws t) = 40"
      using p by (auto simp: peek_def Let_def ustrchr_Cons split: if_splits)
    then have "p \<Longrightarrow> fine (parseblock n t)" using 3 peek_length [OF p] by (intro Suc.IH(4)) auto
    then show ?case
      by (auto simp: p parseredirs_fine exec_loop_fine intro!: fine_bind)
  next
    case 4
    obtain p t where p: "peek s [40] = (p, t)" by fastforce
    obtain k w t1 where g: "gettoken t = (k, w, t1)" by (rule prod_cases3)
    have "p \<Longrightarrow> length t1 < length s"
      using peek_length [OF p] gettoken_less [OF g] p peek_open [of s "[40]" t] by fastforce
    then have "p \<Longrightarrow> fine (parseline n t1)" using 4 by (intro Suc.IH(1)) fastforce
    moreover have "fine (let (b, s) = peek t2 [41] in if \<not> b then PPanic ''syntax - missing )''
        else let (_, _, s) = gettoken s in parseredirs c s)" for c t2
      by (simp add: parseredirs_fine split: prod.split)
    moreover have p using 4(1) p by (auto simp: peek_def Let_def ustrchr_Cons)
    ultimately show ?case by (auto simp: p g intro!: fine_bind) }
qed (auto simp: c0_def split: list.splits)

text \<open>
  C33: the parser of the shell comes to an end on every line: the bound on the depth of its calls
  that \<open>parsecmd\<close> uses is never reached, so it returns a command for the whole line or panics
  with one of its messages.
\<close>

theorem parsecmd_total:
  "(\<exists>cmd. parsecmd s = POk cmd []) \<or>
    (\<exists>e. parsecmd s = PPanic e \<and> e \<in> {''syntax'', ''missing file for redirection'', ''too many args'', ''syntax - missing )''})"
proof -
  have f: "fine (parsecmd s)"
    unfolding parsecmd_def by (rule fine_bind [OF parse_fine(1)]) (simp_all split: prod.split)
  moreover have "t = []" if "parsecmd s = POk cmd t" for cmd t
    using that by (auto simp: parsecmd_def pbind_def split: pres.splits prod.splits if_splits)
  ultimately show ?thesis by (cases "parsecmd s") (auto simp: fine_def)
qed

end
