(* ===== verification/Shtype.thy ===== *)
theory Shtype
  imports Shparse "HOL-Library.Sublist"
begin

text \<open>
  What the parser of the shell promises of the commands that it builds: their tags, arrays and
  descriptors are well formed, and every string is a word of the line that \<open>nulterminate\<close>
  cuts out exactly.
\<close>

section \<open>Words\<close>

definition wordc :: "u8 \<Rightarrow> bool" where
  "wordc c \<longleftrightarrow> c \<noteq> 0 \<and> ustrchr whitespace c = None \<and> ustrchr symbols c = None"

definition tok_text :: "token \<Rightarrow> cstring" where
  "tok_text w = take (length (fst w) - length (snd w)) (fst w)"

definition tok_ok :: "cstring \<Rightarrow> token \<Rightarrow> bool" where
  "tok_ok s w \<longleftrightarrow> suffix (fst w) s \<and> fst w = tok_text w @ snd w \<and> tok_text w \<noteq> [] \<and>
    (\<forall>c\<in>set (tok_text w). wordc c) \<and> \<not> wordc (c0 (snd w))"

fun typed :: "cstring \<Rightarrow> token cmd \<Rightarrow> bool" where
  "typed s (ExecC ws) \<longleftrightarrow> length ws < MAXARGS \<and> (\<forall>w\<in>set ws. tok_ok s w)"
| "typed s (RedirC c f m fd) \<longleftrightarrow> typed s c \<and> tok_ok s f \<and> (m, fd) \<in> {(0, 0), (0x601, 1), (0x201, 1)}"
| "typed s (PipeC l r) \<longleftrightarrow> typed s l \<and> typed s r"
| "typed s (ListC l r) \<longleftrightarrow> typed s l \<and> typed s r"
| "typed s (BackC c) \<longleftrightarrow> typed s c"

lemma tok_ok_mono: "tok_ok p w \<Longrightarrow> suffix p s \<Longrightarrow> tok_ok s w"
  by (auto simp: tok_ok_def intro: suffix_order.trans)

lemma typed_toks: "typed s c \<Longrightarrow> w \<in> set_cmd c \<Longrightarrow> tok_ok s w"
  by (induction c) auto

section \<open>Tokens\<close>

lemma skipws_suffix [simp]: "suffix (skipws s) s"
  by (induction s) (auto intro: suffix_ConsI)

lemma tokend_split: "0 \<notin> set s \<Longrightarrow> \<exists>w. s = w @ tokend s \<and> (\<forall>c\<in>set w. wordc c)"
proof (induction s)
  case (Cons c s)
  then obtain w where w: "s = w @ tokend s" "\<forall>c\<in>set w. wordc c" by auto
  show ?case
  proof (cases "wordc c")
    case True
    then have "tokend (c # s) = tokend s" by (simp add: wordc_def)
    then show ?thesis using w True by (intro exI [of _ "c # w"]) simp
  next
    case False
    then have "tokend (c # s) = c # s" using Cons.prems by (auto simp: wordc_def)
    then show ?thesis by (intro exI [of _ "[]"]) simp
  qed
qed simp

lemma tokend_stop: "\<not> wordc (c0 (tokend s))"
proof -
  have "\<not> wordc 0" by (simp add: wordc_def)
  then show ?thesis by (induction s) (auto simp: wordc_def)
qed

lemma tl_suffix [simp]: "suffix (tl s) s" by (cases s) (auto intro: suffix_ConsI)

lemma zero_suffix: "0 \<notin> set s \<Longrightarrow> suffix t s \<Longrightarrow> 0 \<notin> set t"
  using set_mono_suffix by blast

lemma peek_suffix: "peek s toks = (b, t) \<Longrightarrow> suffix t s"
  by (auto simp: peek_def Let_def)

lemma gettoken_suffix:
  assumes "0 \<notin> set s" "gettoken s = (tok, w, t)"
  shows "suffix t s"
proof -
  let ?s = "skipws s"
  have nz: "0 \<notin> set ?s" by (rule zero_suffix [OF assms(1)]) simp
  consider "t = skipws ?s" | "t = skipws (tl ?s)" | "t = skipws (tl (tl ?s))" | "t = skipws (tokend ?s)"
    using assms(2) by (auto simp: gettoken_def Let_def split: if_splits)
  then obtain r where r: "t = skipws r" "r = ?s \<or> r = tl ?s \<or> r = tl (tl ?s) \<or> r = tokend ?s" by blast
  have "suffix (tl (tl ?s)) ?s" by (rule suffix_order.trans [of _ "tl ?s"]) simp_all
  moreover have "suffix (tokend ?s) ?s" using tokend_split [OF nz] by (auto simp: suffix_def)
  ultimately have "suffix r ?s" using r(2) by auto
  then show ?thesis using r(1) skipws_suffix suffix_order.trans by metis
qed

lemma gettoken_word:
  assumes "0 \<notin> set s" "gettoken s = (97, w, t)"
  shows "tok_ok s w"
proof -
  let ?s = "skipws s"
  have nz: "0 \<notin> set ?s" by (rule zero_suffix [OF assms(1)]) simp
  have w: "w = (?s, tokend ?s)" "c0 ?s \<noteq> 0" "ustrchr symbols (c0 ?s) = None"
    using assms(2) by (auto simp: gettoken_def Let_def symbols_def ustrchr_Cons split: if_splits)
  obtain v where v: "?s = v @ tokend ?s" "\<forall>c\<in>set v. wordc c" using tokend_split [OF nz] by blast
  have tx: "tok_text w = v" using v(1) by (simp add: tok_text_def w(1)) (metis append_eq_conv_conj diff_add_inverse2 length_append)
  have "wordc (c0 ?s)" using w skipws_start [OF w(2)] by (simp add: wordc_def)
  then have "v \<noteq> []" using v(1) tokend_stop [of ?s] by (metis append_Nil)
  then show ?thesis using v tx tokend_stop [of ?s] by (simp add: tok_ok_def w(1))
qed

lemma gettoken_redir: "gettoken s = (tok, w, t) \<Longrightarrow> peek s' [60, 62] = (True, s) \<Longrightarrow> tok = 60 \<or> tok = 62 \<or> tok = 43"
  by (auto simp: gettoken_def peek_def Let_def ustrchr_Cons split: if_splits)

section \<open>The parser\<close>

definition sound :: "cstring \<Rightarrow> token cmd pres \<Rightarrow> bool" where
  "sound s m \<longleftrightarrow> (\<forall>c t. m = POk c t \<longrightarrow> typed s c \<and> suffix t s)"

lemma sound_simps [simp]:
  "sound s (PPanic e)" "sound s PFuel" "sound s (POk c t) \<longleftrightarrow> typed s c \<and> suffix t s"
  by (simp_all add: sound_def)

lemma sound_bind: "sound s m \<Longrightarrow> (\<And>c t. typed s c \<Longrightarrow> suffix t s \<Longrightarrow> sound s (f c t)) \<Longrightarrow> sound s (pbind m f)"
  by (cases m) simp_all

text \<open>The number of arguments of the \<open>execcmd\<close> that \<open>parseexec\<close> fills.\<close>

fun nargs :: "'w cmd \<Rightarrow> nat" where
  "nargs (ExecC ws) = length ws"
| "nargs (RedirC c f m fd) = nargs c"
| "nargs c = 0"

lemma add_arg_typed: "typed s c \<Longrightarrow> tok_ok s w \<Longrightarrow> nargs c + 1 < MAXARGS \<Longrightarrow> typed s (add_arg w c) \<and> nargs (add_arg w c) \<le> nargs c + 1"
  by (induction c) auto

lemma redir_typed:
  "typed s c \<Longrightarrow> tok_ok s w \<Longrightarrow> tok = 60 \<or> tok = 62 \<or> tok = 43 \<Longrightarrow> typed s (redir_of tok c w) \<and> nargs (redir_of tok c w) = nargs c"
  by (auto simp: redir_of_def)

lemma parseredirs_sound:
  assumes "0 \<notin> set s"
  shows "typed s cmd \<Longrightarrow> suffix p s \<Longrightarrow> parseredirs cmd p = POk c t \<Longrightarrow>
    typed s c \<and> suffix t s \<and> nargs c = nargs cmd"
proof (induction cmd p rule: parseredirs.induct)
  case (1 cmd p)
  obtain b s1 where p: "peek p [60, 62] = (b, s1)" by fastforce
  obtain tok w1 s2 where g1: "gettoken s1 = (tok, w1, s2)" by (rule prod_cases3)
  obtain a w s3 where g2: "gettoken s2 = (a, w, s3)" by (rule prod_cases3)
  have s1: "suffix s1 s" using peek_suffix [OF p] 1(3) suffix_order.trans by blast
  have s2: "suffix s2 s" using gettoken_suffix [OF zero_suffix [OF assms s1] g1] s1 suffix_order.trans by blast
  have s3: "suffix s3 s" using gettoken_suffix [OF zero_suffix [OF assms s2] g2] s2 suffix_order.trans by blast
  show ?case
  proof (cases b)
    case False
    then show ?thesis using 1(2-4) p s1 by (subst (asm) parseredirs.simps) simp
  next
    case True
    have a: "a = 97" "parseredirs (redir_of tok cmd w) s3 = POk c t"
      using 1(4) p True g1 g2 by (subst (asm) parseredirs.simps, simp split: if_splits)+
    have "tok_ok s w" using gettoken_word [OF zero_suffix [OF assms s2]] g2 a(1) s2 tok_ok_mono by blast
    then have "typed s (redir_of tok cmd w) \<and> nargs (redir_of tok cmd w) = nargs cmd"
      by (rule redir_typed [OF 1(2)]) (rule gettoken_redir [OF g1 p [unfolded eqTrueI [OF True]]])
    then show ?thesis
      using 1(1) [OF p [symmetric] refl True g1 [symmetric] refl refl g2 [symmetric] refl refl] a s3 by simp
  qed
qed

lemma exec_loop_sound:
  assumes "0 \<notin> set s"
  shows "typed s cmd \<Longrightarrow> suffix p s \<Longrightarrow> nargs cmd \<le> argc \<Longrightarrow> sound s (exec_loop cmd argc p)"
proof (induction cmd argc p rule: exec_loop.induct)
  case (1 cmd argc p)
  obtain b s1 where p: "peek p [124, 41, 38, 59] = (b, s1)" by fastforce
  obtain tok w s2 where g: "gettoken s1 = (tok, w, s2)" by (rule prod_cases3)
  have s1: "suffix s1 s" using peek_suffix [OF p] 1(3) suffix_order.trans by blast
  have s2: "suffix s2 s" using gettoken_suffix [OF zero_suffix [OF assms s1] g] s1 suffix_order.trans by blast
  have "sound s (pbind (parseredirs (add_arg w cmd) s2) (\<lambda>cmd s. exec_loop cmd (argc + 1) s))"
    if n: "\<not> b" "tok \<noteq> 0" "tok = 97" "\<not> MAXARGS \<le> argc + 1"
  proof (cases "parseredirs (add_arg w cmd) s2")
    case (POk c t)
    have "tok_ok s w" using gettoken_word [OF zero_suffix [OF assms s1]] g n(3) s1 tok_ok_mono by blast
    then have a: "typed s (add_arg w cmd)" "nargs (add_arg w cmd) \<le> argc + 1"
      using add_arg_typed [OF 1(2)] 1(4) n(4) by fastforce+
    have "typed s c \<and> suffix t s \<and> nargs c \<le> argc + 1"
      using parseredirs_sound [OF assms a(1) s2 POk] a(2) by simp
    then show ?thesis
      using 1(1) [OF p [symmetric] refl n(1) g [symmetric] refl refl n(2) _ n(4) POk] n(3) POk by simp
  qed simp_all
  then show ?case using p g 1(2) s1 s2 by (subst exec_loop.simps) simp
qed

lemma back_loop_sound:
  assumes "0 \<notin> set s"
  shows "typed s cmd \<Longrightarrow> suffix p s \<Longrightarrow> back_loop cmd p = (c, t) \<Longrightarrow> typed s c \<and> suffix t s"
proof (induction cmd p rule: back_loop.induct)
  case (1 cmd p)
  obtain b s1 where p: "peek p [38] = (b, s1)" by fastforce
  obtain tok w s2 where g: "gettoken s1 = (tok, w, s2)" by (rule prod_cases3)
  have s1: "suffix s1 s" using peek_suffix [OF p] 1(3) suffix_order.trans by blast
  have s2: "suffix s2 s" using gettoken_suffix [OF zero_suffix [OF assms s1] g] s1 suffix_order.trans by blast
  show ?case
  proof (cases b)
    case True
    then have "back_loop cmd p = back_loop (BackC cmd) s2" using p g by (subst back_loop.simps) simp
    moreover have "typed s (BackC cmd)" using 1(2) by simp
    ultimately show ?thesis
      using 1(1) [OF p [symmetric] refl True g [symmetric]] 1(4) s2 by (cases w) simp
  next
    case False
    then show ?thesis using 1(2,4) p s1 by (subst (asm) back_loop.simps) simp
  qed
qed

lemma sound_redirs: "0 \<notin> set s \<Longrightarrow> typed s c \<Longrightarrow> suffix p s \<Longrightarrow> sound s (parseredirs c p)"
  unfolding sound_def using parseredirs_sound by blast

lemma parse_sound:
  assumes "0 \<notin> set s"
  shows "suffix p s \<Longrightarrow> sound s (parseline n p)" "suffix p s \<Longrightarrow> sound s (parsepipe n p)"
    "suffix p s \<Longrightarrow> sound s (parseexec n p)" "suffix p s \<Longrightarrow> sound s (parseblock n p)"
proof (induction n arbitrary: p)
  case (Suc n)
  have peek: "suffix t' s" if "suffix t s" "peek t toks = (b, t')" for t toks b t'
    using peek_suffix [OF that(2)] that(1) suffix_order.trans by blast
  have get: "suffix t' s" if "suffix t s" "gettoken t = (k, w, t')" for t k w t'
    using gettoken_suffix [OF zero_suffix [OF assms that(1)] that(2)] that(1) suffix_order.trans by blast
  { case 1
    show ?case
      unfolding parseline.simps
    proof (rule sound_bind [OF Suc.IH(2) [OF 1]])
      fix c t assume c: "typed s c" "suffix t s"
      obtain c' t1 where b: "back_loop c t = (c', t1)" by fastforce
      obtain q t2 where p: "peek t1 [59] = (q, t2)" by fastforce
      obtain k w t3 where g: "gettoken t2 = (k, w, t3)" by (rule prod_cases3)
      have c': "typed s c'" "suffix t1 s" using back_loop_sound [OF assms c b] by simp_all
      note S = c' peek [OF c'(2) p] get [OF peek [OF c'(2) p] g]
      then show "sound s (let (cmd, s) = back_loop c t; (b, s) = peek s [59] in
          if b then let (_, _, s) = gettoken s in pbind (parseline n s) (\<lambda>right s. POk (ListC cmd right) s)
          else POk cmd s)"
        using Suc.IH(1) [OF S(4)] by (auto simp: b p g intro!: sound_bind)
    qed
  next
    case 2
    show ?case
      unfolding parsepipe.simps
    proof (rule sound_bind [OF Suc.IH(3) [OF 2]])
      fix c t assume c: "typed s c" "suffix t s"
      obtain q t2 where p: "peek t [124] = (q, t2)" by fastforce
      obtain k w t3 where g: "gettoken t2 = (k, w, t3)" by (rule prod_cases3)
      note S = c peek [OF c(2) p] get [OF peek [OF c(2) p] g]
      then show "sound s (let (b, s) = peek t [124] in
          if b then let (_, _, s) = gettoken s in pbind (parsepipe n s) (\<lambda>right s. POk (PipeC c right) s)
          else POk c s)"
        using Suc.IH(2) [OF S(4)] by (auto simp: p g intro!: sound_bind)
    qed
  next
    case 3
    obtain q t where p: "peek p [40] = (q, t)" by fastforce
    have t: "suffix t s" by (rule peek [OF 3 p])
    have "sound s (pbind (parseredirs (ExecC []) t) (\<lambda>ret s. exec_loop ret 0 s))"
    proof (cases "parseredirs (ExecC []) t")
      case (POk c u)
      then have "typed s c \<and> suffix u s \<and> nargs c = 0"
        using parseredirs_sound [OF assms, of "ExecC []" t c u] t by (simp add: MAXARGS_def)
      then show ?thesis using exec_loop_sound [OF assms, of c u 0] POk by simp
    qed simp_all
    then show ?case using Suc.IH(4) [OF t] by (simp add: p)
  next
    case 4
    obtain q t where p: "peek p [40] = (q, t)" by fastforce
    obtain k w t1 where g: "gettoken t = (k, w, t1)" by (rule prod_cases3)
    note S = get [OF peek [OF 4 p] g]
    have "sound s (let (b, s) = peek t2 [41] in if \<not> b then PPanic ''syntax - missing )''
        else let (_, _, s) = gettoken s in parseredirs c s)" if c: "typed s c" "suffix t2 s" for c t2
    proof -
      obtain q t3 where p: "peek t2 [41] = (q, t3)" by fastforce
      obtain k w t4 where g: "gettoken t3 = (k, w, t4)" by (rule prod_cases3)
      have "suffix t4 s" using get [OF peek [OF c(2) p] g] .
      then show ?thesis using c by (simp add: p g sound_redirs [OF assms])
    qed
    then show ?case using Suc.IH(1) [OF S] by (auto simp: p g intro!: sound_bind) }
qed simp_all

section \<open>Strings\<close>

text \<open>\<open>nulterminate\<close> stores NULs at the ends of the tokens and nowhere else.\<close>

definition ends :: "nat \<Rightarrow> token cmd \<Rightarrow> nat set" where
  "ends n c = (\<lambda>w. n - length (snd w)) ` set_cmd c"

lemma ends_simps [simp]:
  "ends n (ExecC ws) = (\<lambda>w. n - length (snd w)) ` set ws"
  "ends n (RedirC c f m fd) = insert (n - length (snd f)) (ends n c)"
  "ends n (PipeC l r) = ends n l \<union> ends n r" "ends n (ListC l r) = ends n l \<union> ends n r"
  "ends n (BackC c) = ends n c"
  by (auto simp: ends_def)

lemma nth_put: "i < length xs \<Longrightarrow> xs[j := x] ! i = (if i = j then x else xs ! i)"
  by (cases "i = j") simp_all

lemma fold_put_nul:
  "length (fold (put_nul n) ws buf) = length buf \<and>
   (i < length buf \<longrightarrow> fold (put_nul n) ws buf ! i = (if i \<in> (\<lambda>w. n - length (snd w)) ` set ws then 0 else buf ! i))"
  by (induction ws arbitrary: buf) (auto simp: put_nul_def nth_put)

lemma nulterminate_nth:
  "length (nulterminate n c buf) = length buf \<and>
   (i < length buf \<longrightarrow> nulterminate n c buf ! i = (if i \<in> ends n c then 0 else buf ! i))"
  by (induction n c buf rule: nulterminate.induct)
    (auto simp: put_nul_def fold_put_nul nth_put)

lemma takeWhile_cut:
  assumes "n < length xs" "xs ! n = 0" "\<forall>i<n. xs ! i \<noteq> 0"
  shows "takeWhile (\<lambda>c. c \<noteq> 0) xs = take n xs"
  using assms by (intro takeWhile_eq_take_P_nth) auto

lemma parsed_typed:
  assumes "0 \<notin> set s" "parsecmd s = POk c t"
  shows "typed s c"
proof -
  obtain u where "parseline (4 * length s + 3) s = POk c u"
    using assms(2) by (auto simp: parsecmd_def pbind_def split: pres.splits prod.splits if_splits)
  then show ?thesis using parse_sound(1) [OF assms(1), of s "4 * length s + 3"] by simp
qed

text \<open>
  C34: in a command that the parser returns every tag, descriptor and mode is one that \<open>runcmd\<close>
  knows, and every argument vector is within its array with room for the null that ends it. After
  \<open>nulterminate\<close> every pointer to a token is a C string, which is exactly that word of the
  line: ends of other tokens never cut it.
\<close>

theorem parsecmd_typed:
  assumes "0 \<notin> set s" "parsecmd s = POk c t"
  shows "typed s c \<and>
    (\<forall>w\<in>set_cmd c. takeWhile (\<lambda>c. c \<noteq> 0) (drop (length s - length (fst w)) (nulterminate (length s) c (s @ [0]))) = tok_text w)"
proof -
  have ty: "typed s c" by (rule parsed_typed [OF assms])
  let ?b = "nulterminate (length s) c (s @ [0])"
  have at_end: "\<not> wordc ((s @ [0]) ! i)" if "i \<in> ends (length s) c" for i
  proof -
    obtain w where w: "w \<in> set_cmd c" "i = length s - length (snd w)" using \<open>i \<in> _\<close> by (auto simp: ends_def)
    then have "tok_ok s w" using typed_toks [OF ty] by blast
    then obtain a where "s = a @ snd w" "\<not> wordc (c0 (snd w))"
      unfolding tok_ok_def suffix_def by (metis append.assoc)
    moreover then have "(s @ [0]) ! i = c0 (snd w)"
      using w(2) by (cases "snd w") (simp_all add: nth_append)
    ultimately show ?thesis by simp
  qed
  have "takeWhile (\<lambda>c. c \<noteq> 0) (drop (length s - length (fst w)) ?b) = tok_text w" if w: "w \<in> set_cmd c" for w
  proof -
    have ok: "tok_ok s w" using typed_toks [OF ty w] .
    then obtain a where a: "s = a @ tok_text w @ snd w" "length s - length (fst w) = length a"
      unfolding tok_ok_def suffix_def by (metis append.assoc length_append add_diff_cancel_right')
    have len: "length ?b = length s + 1" using nulterminate_nth [of "length s" c "s @ [0]" 0] by simp
    have nth: "?b ! i = (if i \<in> ends (length s) c then 0 else (s @ [0]) ! i)" if "i \<le> length s" for i
      using nulterminate_nth [of "length s" c "s @ [0]" i] that by simp
    let ?n = "length (tok_text w)"
    have inside: "?b ! (length a + i) = tok_text w ! i \<and> wordc (tok_text w ! i)" if "i < ?n" for i
    proof -
      have "(s @ [0]) ! (length a + i) = tok_text w ! i" using that by (simp add: a(1) nth_append)
      moreover have "wordc (tok_text w ! i)" using ok that by (simp add: tok_ok_def)
      moreover have "length a + i \<le> length s" using that arg_cong [OF a(1), of length] by simp
      ultimately show ?thesis using nth at_end by metis
    qed
    have e: "length a + ?n \<in> ends (length s) c" using w arg_cong [OF a(1), of length] by (force simp: ends_def)
    have "takeWhile (\<lambda>c. c \<noteq> 0) (drop (length a) ?b) = take ?n (drop (length a) ?b)"
    proof (rule takeWhile_cut)
      show "?n < length (drop (length a) ?b)" using len arg_cong [OF a(1), of length] by simp
      show "drop (length a) ?b ! ?n = 0" using len arg_cong [OF a(1), of length] nth [of "length a + ?n"] e by simp
      show "\<forall>i<?n. drop (length a) ?b ! i \<noteq> 0"
        using inside len arg_cong [OF a(1), of length] by (simp add: wordc_def)
    qed
    also have "\<dots> = tok_text w"
      using inside len arg_cong [OF a(1), of length] by (intro nth_equalityI) simp_all
    finally show ?thesis by (simp only: a(2))
  qed
  then show ?thesis using ty by blast
qed

lemma parsecmd_typed_witness:
  "let s = chars ''ls >f''; c = RedirC (ExecC [(s, drop 2 s)]) (drop 4 s, []) 0x601 1 in
    parsecmd s = POk c [] \<and> typed s c \<and> takeWhile (\<lambda>c. c \<noteq> 0) (nulterminate 5 c (s @ [0])) = chars ''ls''"
proof -
  define s where "s = chars ''ls >f''"
  define c where "c = RedirC (ExecC [(s, drop 2 s)]) (drop 4 s, []) 0x601 1"
  have p: "parsecmd s = POk c []" unfolding s_def c_def by code_simp
  have n: "0 \<notin> set s" "length s = 5" "tok_text (s, drop 2 s) = chars ''ls''"
    by (simp_all add: s_def chars_def tok_text_def)
  have "(s, drop 2 s) \<in> set_cmd c" by (simp add: c_def)
  with parsecmd_typed [OF n(1) p] n have "takeWhile (\<lambda>c. c \<noteq> 0) (nulterminate 5 c (s @ [0])) = chars ''ls''"
    by fastforce
  then show ?thesis using parsecmd_typed [OF n(1) p] p unfolding Let_def s_def c_def by blast
qed

end
