(* ===== verification/Shround.thy ===== *)
theory Shround
  imports Shtype
begin

text \<open>
  A printer of commands in the syntax of the shell, and the proof that the parser inverts it: every
  command that \<open>runcmd\<close> can be given is the parse of a line.
\<close>

section \<open>The printer\<close>

definition word :: "cstring \<Rightarrow> bool" where
  "word w \<longleftrightarrow> w \<noteq> [] \<and> (\<forall>c\<in>set w. wordc c)"

fun plain :: "cstring cmd \<Rightarrow> bool" where
  "plain (ExecC ws) \<longleftrightarrow> length ws < MAXARGS \<and> (\<forall>w\<in>set ws. word w)"
| "plain (RedirC c f m fd) \<longleftrightarrow> plain c \<and> word f \<and> (m, fd) \<in> {(0, 0), (0x601, 1), (0x201, 1)}"
| "plain (PipeC l r) \<longleftrightarrow> plain l \<and> plain r"
| "plain (ListC l r) \<longleftrightarrow> plain l \<and> plain r"
| "plain (BackC c) \<longleftrightarrow> plain c"

fun spine :: "'w cmd \<Rightarrow> bool" where
  "spine (ExecC ws) \<longleftrightarrow> True"
| "spine (RedirC c f m fd) \<longleftrightarrow> True"
| "spine c \<longleftrightarrow> False"

definition opsym :: "int \<Rightarrow> cstring" where
  "opsym m = (if m = 0 then [60] else if m = 0x601 then [62] else [62, 62])"

definition words :: "cstring list \<Rightarrow> cstring" where
  "words ws = concat (map (\<lambda>w. w @ [32]) ws)"

fun show_cmd :: "cstring cmd \<Rightarrow> cstring" where
  "show_cmd (ExecC ws) = words ws"
| "show_cmd (RedirC c f m fd) = (if spine c then show_cmd c else 40 # show_cmd c @ [41]) @ opsym m @ f @ [32]"
| "show_cmd (PipeC l r) =
    (if spine l then show_cmd l else 40 # show_cmd l @ [41]) @ [124] @ (if spine r then show_cmd r else 40 # show_cmd r @ [41])"
| "show_cmd (ListC l r) =
    (if spine l then show_cmd l else 40 # show_cmd l @ [41]) @ [59] @ (if spine r then show_cmd r else 40 # show_cmd r @ [41])"
| "show_cmd (BackC c) = (if spine c then show_cmd c else 40 # show_cmd c @ [41]) @ [38]"

definition paren :: "cstring cmd \<Rightarrow> cstring" where
  "paren c = (if spine c then show_cmd c else 40 # show_cmd c @ [41])"

definition redirs :: "(cstring \<times> int \<times> int) list \<Rightarrow> cstring" where
  "redirs rs = concat (map (\<lambda>(f, m, fd). opsym m @ f @ [32]) rs)"

definition wraps :: "'w cmd \<Rightarrow> ('w \<times> int \<times> int) list \<Rightarrow> 'w cmd" where
  "wraps c rs = foldl (\<lambda>c (f, m, fd). RedirC c f m fd) c rs"

definition redir_ok :: "cstring \<times> int \<times> int \<Rightarrow> bool" where
  "redir_ok r \<longleftrightarrow> word (fst r) \<and> snd r \<in> {(0, 0), (0x601, 1), (0x201, 1)}"

lemma opsym_start: "c0 (opsym m @ s) \<noteq> 40"
  by (simp add: opsym_def)

lemma words_simps [simp]: "words [] = []" "words (w # ws) = w @ 32 # words ws"
  by (simp_all add: words_def)

lemma redirs_simps [simp]: "redirs [] = []" "redirs ((f, m, fd) # rs) = opsym m @ f @ 32 # redirs rs"
  "redirs (rs @ rs') = redirs rs @ redirs rs'"
  by (simp_all add: redirs_def)

lemma wraps_simps [simp]: "wraps c [] = c" "wraps c ((f, m, fd) # rs) = wraps (RedirC c f m fd) rs"
  "wraps c (rs @ [(f, m, fd)]) = RedirC (wraps c rs) f m fd"
  by (simp_all add: wraps_def)

text \<open>A command in parentheses where the grammar wants them: arguments or a block, and redirections.\<close>

lemma paren_cases:
  assumes "plain c"
  obtains (exec) ws rs where "paren c = words ws @ redirs rs" "c = wraps (ExecC ws) rs" "length ws < MAXARGS"
      "\<forall>w\<in>set ws. word w" "\<forall>r\<in>set rs. redir_ok r"
  | (block) b rs where "paren c = 40 # show_cmd b @ 41 # redirs rs" "c = wraps b rs" "plain b" "\<not> spine b"
      "b = c \<or> size b < size c" "\<forall>r\<in>set rs. redir_ok r"
proof -
  have "(\<exists>ws rs. paren c = words ws @ redirs rs \<and> c = wraps (ExecC ws) rs \<and> length ws < MAXARGS \<and>
      (\<forall>w\<in>set ws. word w) \<and> (\<forall>r\<in>set rs. redir_ok r)) \<or>
    (\<exists>b rs. paren c = 40 # show_cmd b @ 41 # redirs rs \<and> c = wraps b rs \<and> plain b \<and> \<not> spine b \<and>
      (b = c \<or> size b < size c) \<and> (\<forall>r\<in>set rs. redir_ok r))"
    using assms
  proof (induction c)
    case (ExecC ws)
    then show ?case
      by (intro disjI1 exI [of _ ws] exI [of _ "[]"]) (simp add: paren_def)
  next
    case (RedirC c f m fd)
    then have r: "redir_ok (f, m, fd)" and p: "plain c" by (simp_all add: redir_ok_def)
    have s: "paren (RedirC c f m fd) = paren c @ redirs [(f, m, fd)]" by (simp add: paren_def)
    from RedirC.IH [OF p] show ?case
    proof (elim disjE [of "\<exists>ws rs. Q ws rs" for Q] exE conjE)
      fix ws rs
      assume "paren c = words ws @ redirs rs" "c = wraps (ExecC ws) rs" "length ws < MAXARGS"
        "\<forall>w\<in>set ws. word w" "\<forall>r\<in>set rs. redir_ok r"
      then show ?thesis using r s by (intro disjI1 exI [of _ ws] exI [of _ "rs @ [(f, m, fd)]"]) simp
    next
      fix b rs
      assume b: "paren c = 40 # show_cmd b @ 41 # redirs rs" "c = wraps b rs" "plain b" "\<not> spine b"
        "\<forall>r\<in>set rs. redir_ok r" and sz: "b = c \<or> size b < size c"
      have "paren (RedirC c f m fd) = 40 # show_cmd b @ 41 # redirs (rs @ [(f, m, fd)])"
        unfolding s b(1) by simp
      moreover have "RedirC c f m fd = wraps b (rs @ [(f, m, fd)])"
        unfolding wraps_simps b(2) [symmetric] by (rule refl)
      moreover have "size b < size (RedirC c f m fd)" using sz by auto
      moreover have "\<forall>r\<in>set (rs @ [(f, m, fd)]). redir_ok r" using b(5) r by auto
      ultimately show ?thesis using b(3,4) by blast
    qed
  next
    case (PipeC l r)
    then show ?case
      by (intro disjI2 exI [of _ "PipeC l r"] exI [of _ "[]"]) (simp add: paren_def)
  next
    case (ListC l r)
    then show ?case
      by (intro disjI2 exI [of _ "ListC l r"] exI [of _ "[]"]) (simp add: paren_def)
  next
    case (BackC c)
    then show ?case
      by (intro disjI2 exI [of _ "BackC c"] exI [of _ "[]"]) (simp add: paren_def)
  qed
  then show thesis using that by blast
qed

section \<open>Tokens of printed commands\<close>

definition nws :: "cstring \<Rightarrow> bool" where
  "nws s \<longleftrightarrow> s = [] \<or> ustrchr whitespace (c0 s) = None"

lemma nws_skipws: "nws s \<Longrightarrow> skipws s = s"
  by (cases s) (auto simp: nws_def)

lemma nws_symbol [simp]: "c \<in> {40, 41, 124, 59, 38, 60, 62} \<Longrightarrow> nws (c # s)"
  by (auto simp: nws_def whitespace_def ustrchr_Cons)

lemma nws_Nil [simp]: "nws []"
  by (simp add: nws_def)

lemma nws_word: "word w \<Longrightarrow> nws (w @ s)"
  by (cases w) (auto simp: word_def nws_def wordc_def)

lemma nws_words: "\<forall>w\<in>set ws. word w \<Longrightarrow> nws s \<Longrightarrow> nws (words ws @ s)"
  by (cases ws) (auto simp: nws_word)

lemma nws_redirs: "nws s \<Longrightarrow> nws (redirs rs @ s)"
  by (cases rs) (auto simp: opsym_def)

lemma nws_paren: "plain c \<Longrightarrow> nws s \<Longrightarrow> nws (paren c @ s)"
  by (erule paren_cases) (auto simp: nws_words nws_redirs)

lemma nws_show: "plain c \<Longrightarrow> nws s \<Longrightarrow> nws (show_cmd c @ s)"
proof (cases "spine c")
  case True
  moreover assume "plain c" "nws s"
  ultimately show ?thesis using nws_paren [of c s] by (simp add: paren_def)
next
  case False
  moreover assume "plain c" "nws s"
  ultimately show ?thesis
    by (cases c) (auto simp: paren_def [symmetric] nws_paren)
qed

lemma peek_nws: "nws s \<Longrightarrow> peek s toks = (c0 s \<noteq> 0 \<and> ustrchr toks (c0 s) \<noteq> None, s)"
  by (simp add: peek_def nws_skipws)

lemma gettoken_symbol:
  assumes "c \<in> {124, 40, 41, 59, 38, 60}" "nws s"
  shows "\<exists>w. gettoken (c # s) = (c, w, s)"
proof -
  have "skipws (c # s) = c # s" by (rule nws_skipws, rule nws_symbol) (use assms(1) in auto)
  moreover have "c \<noteq> 0" using assms(1) by auto
  ultimately show ?thesis using assms by (auto simp: gettoken_def nws_skipws)
qed

lemma tokend_word: "\<forall>c\<in>set w. wordc c \<Longrightarrow> tokend (w @ 32 # s) = 32 # s"
  by (induction w) (auto simp: wordc_def whitespace_def ustrchr_Cons)

lemma word_start:
  assumes "word w"
  shows "wordc (c0 (w @ s))" "c0 (w @ s) \<noteq> 0"
    "c0 (w @ s) \<notin> {124, 40, 41, 59, 38, 60, 62}"
  using assms by (cases w; auto simp: word_def wordc_def symbols_def ustrchr_Cons)+

lemma gettoken_text:
  assumes "word w" "nws s"
  shows "\<exists>t. gettoken (w @ 32 # s) = (97, t, s) \<and> tok_text t = w"
proof -
  let ?x = "w @ 32 # s"
  have sk: "skipws ?x = ?x" by (rule nws_skipws) (rule nws_word [OF assms(1)])
  have te: "tokend ?x = 32 # s" using assms(1) by (intro tokend_word) (simp add: word_def)
  have "skipws (32 # s) = s" using nws_skipws [OF assms(2)] by (simp add: whitespace_def ustrchr_Cons)
  then have "gettoken ?x = (97, (?x, 32 # s), s)"
    using word_start [OF assms(1), of "32 # s"] by (simp add: gettoken_def sk te Let_def)
  then show ?thesis by (simp add: tok_text_def)
qed

section \<open>Parsing printed commands\<close>

text \<open>\<open>outcome m c r\<close>: \<open>m\<close> returns a parse of \<open>c\<close> with \<open>r\<close> left, if its fuel is enough.\<close>

abbreviation cmd_text :: "token cmd \<Rightarrow> cstring cmd" where
  "cmd_text \<equiv> map_cmd tok_text"

definition outcome :: "token cmd pres \<Rightarrow> cstring cmd \<Rightarrow> cstring \<Rightarrow> bool" where
  "outcome m c r \<longleftrightarrow> m = PFuel \<or> (\<exists>t. m = POk t r \<and> cmd_text t = c)"

lemma outcome_simps [simp]: "outcome PFuel c r" "outcome (POk t s) c r \<longleftrightarrow> s = r \<and> cmd_text t = c"
  by (auto simp: outcome_def)

lemma outcome_bind: "outcome m c r \<Longrightarrow> (\<And>t. cmd_text t = c \<Longrightarrow> outcome (f t r) c' r') \<Longrightarrow> outcome (pbind m f) c' r'"
  unfolding outcome_def by (cases m) fastforce+

text \<open>What may follow an argument list: the end of the line or a symbol.\<close>

definition stop :: "cstring \<Rightarrow> bool" where
  "stop r \<longleftrightarrow> r = [] \<or> c0 r \<in> {124, 41, 38, 59}"

lemma stop_nws: "stop r \<Longrightarrow> nws r"
  by (cases r) (auto simp: stop_def)

lemma redirs_parsed:
  assumes "nws r" "c0 r \<notin> {60, 62}"
  shows "\<forall>x\<in>set rs. redir_ok x \<Longrightarrow> outcome (parseredirs t (redirs rs @ r)) (wraps (cmd_text t) rs) r"
proof (induction rs arbitrary: t)
  case Nil
  have "peek r [60, 62] = (False, r)" using assms by (auto simp: peek_nws ustrchr_Cons)
  then show ?case by (subst parseredirs.simps) simp
next
  case (Cons x rs)
  obtain f m fd where x: "x = (f, m, fd)" by (rule prod_cases3)
  let ?y = "redirs rs @ r"
  have ok: "word f" "(m, fd) \<in> {(0, 0), (0x601, 1), (0x201, 1)}" using Cons.prems by (simp_all add: x redir_ok_def)
  have ny: "nws ?y" by (rule nws_redirs [OF assms(1)])
  have nf: "nws (f @ 32 # ?y)" by (rule nws_word [OF ok(1)])
  obtain k where k: "k = (if m = 0 then 60 else if m = 0x601 then 62 else 43)" "redir_of k t w = RedirC t w m fd" for w
    using ok(2) by (auto simp: redir_of_def)
  have "skipws (opsym m @ f @ 32 # ?y) = opsym m @ f @ 32 # ?y" by (rule nws_skipws) (simp add: opsym_def)
  then have g: "\<exists>w. gettoken (opsym m @ f @ 32 # ?y) = (k, w, f @ 32 # ?y)"
    using ok(2) word_start [OF ok(1), of "32 # ?y"] nws_skipws [OF nf]
    by (auto simp: gettoken_def opsym_def k(1))
  obtain tw where tw: "gettoken (f @ 32 # ?y) = (97, tw, ?y)" "tok_text tw = f"
    using gettoken_text [OF ok(1) ny] by blast
  have "peek (opsym m @ f @ 32 # ?y) [60, 62] = (True, opsym m @ f @ 32 # ?y)"
    by (subst peek_nws) (simp_all add: opsym_def ustrchr_Cons)
  then have "parseredirs t (redirs (x # rs) @ r) = parseredirs (RedirC t tw m fd) ?y"
    using g tw(1) k(2) [of tw] by (subst parseredirs.simps) (auto simp: x)
  then show ?case using Cons.IH [of "RedirC t tw m fd"] Cons.prems tw(2) by (simp add: x)
qed

lemma exec_loop_stop:
  assumes "stop r"
  shows "exec_loop t argc r = POk t r"
proof (cases "r = []")
  case True
  then show ?thesis by (subst exec_loop.simps) (simp add: peek_def gettoken_def)
next
  case False
  then have "peek r [124, 41, 38, 59] = (True, r)"
    using assms by (auto simp: peek_nws [OF stop_nws [OF assms]] stop_def ustrchr_Cons)
  then show ?thesis by (subst exec_loop.simps) simp
qed

lemma add_arg_text: "cmd_text t = ExecC vs \<Longrightarrow> cmd_text (add_arg w t) = ExecC (vs @ [tok_text w])"
  by (cases t) auto

lemma exec_loop_parsed:
  assumes "stop r" "\<forall>x\<in>set rs. redir_ok x"
  shows "\<forall>w\<in>set ws. word w \<Longrightarrow> argc + length ws < MAXARGS \<Longrightarrow> cmd_text t = ExecC vs \<Longrightarrow> ws \<noteq> [] \<Longrightarrow>
    outcome (exec_loop t argc (words ws @ redirs rs @ r)) (wraps (ExecC (vs @ ws)) rs) r"
proof (induction ws arbitrary: t argc vs)
  case (Cons w ws)
  let ?y = "words ws @ redirs rs @ r"
  have w: "word w" using Cons.prems(1) by simp
  have ny: "nws ?y" using Cons.prems(1) by (intro nws_words nws_redirs stop_nws assms) simp
  obtain tw where tw: "gettoken (w @ 32 # ?y) = (97, tw, ?y)" "tok_text tw = w"
    using gettoken_text [OF w ny] by blast
  have "peek (w @ 32 # ?y) [124, 41, 38, 59] = (False, w @ 32 # ?y)"
    using word_start [OF w, of "32 # ?y"] by (subst peek_nws [OF nws_word [OF w]]) (auto simp: ustrchr_Cons)
  then have e: "exec_loop t argc (words (w # ws) @ redirs rs @ r) =
      pbind (parseredirs (add_arg tw t) ?y) (\<lambda>cmd s. exec_loop cmd (argc + 1) s)"
    using tw(1) Cons.prems(2) by (subst exec_loop.simps) simp
  have a: "cmd_text (add_arg tw t) = ExecC (vs @ [w])" using add_arg_text [OF Cons.prems(3)] tw(2) by simp
  show ?case
  proof (cases ws)
    case Nil
    have "outcome (parseredirs (add_arg tw t) (redirs rs @ r)) (wraps (ExecC (vs @ [w])) rs) r"
      using redirs_parsed [OF stop_nws [OF assms(1)] _ assms(2), of "add_arg tw t"] assms(1) a by (auto simp: stop_def)
    then show ?thesis
      unfolding e using Nil by (auto intro!: outcome_bind simp: exec_loop_stop [OF assms(1)])
  next
    case (Cons w' ws')
    then have w': "word w'" using Cons.prems(1) by simp
    have "outcome (parseredirs (add_arg tw t) ?y) (ExecC (vs @ [w])) ?y"
      using redirs_parsed [OF ny, of "[]" "add_arg tw t"] word_start [OF w'] a Cons by auto
    then show ?thesis
      unfolding e using Cons.IH [of "argc + 1" _ "vs @ [w]"] Cons.prems Cons by (auto intro!: outcome_bind)
  qed
qed simp

lemma exec_parsed:
  assumes "stop r" "\<forall>x\<in>set rs. redir_ok x" "\<forall>w\<in>set ws. word w" "length ws < MAXARGS"
  shows "outcome (parseexec n (words ws @ redirs rs @ r)) (wraps (ExecC ws) rs) r"
proof (cases n)
  case (Suc k)
  let ?x = "words ws @ redirs rs @ r"
  have nx: "nws ?x" by (intro nws_words nws_redirs stop_nws assms)
  have "c0 ?x \<noteq> 40"
  proof (cases ws)
    case Nil
    then show ?thesis using assms(1) opsym_start by (cases rs) (auto simp: stop_def)
  next
    case (Cons w ws')
    then have "word w" using assms(3) by simp
    from word_start(3) [OF this] show ?thesis using Cons by simp
  qed
  then have p: "peek ?x [40] = (False, ?x)" by (simp add: peek_nws [OF nx] ustrchr_Cons)
  show ?thesis
  proof (cases ws)
    case Nil
    have "outcome (parseredirs (ExecC []) (redirs rs @ r)) (wraps (ExecC []) rs) r"
      using redirs_parsed [OF stop_nws [OF assms(1)] _ assms(2), of "ExecC []"] assms(1) by (auto simp: stop_def)
    then show ?thesis
      using p Nil by (auto simp: Suc intro!: outcome_bind simp: exec_loop_stop [OF assms(1)])
  next
    case (Cons w ws')
    then have w: "word w" using assms(3) by simp
    have "outcome (parseredirs (ExecC []) ?x) (ExecC []) ?x"
      using redirs_parsed [OF nx, of "[]" "ExecC []"] word_start [OF w] Cons by auto
    then show ?thesis
      using p exec_loop_parsed [OF assms(1-3), of 0 _ "[]"] assms(4) Cons by (auto simp: Suc intro!: outcome_bind)
  qed
qed simp

text \<open>A command in parentheses is parsed by \<open>parseexec\<close>, if its block is by \<open>parseline\<close>.\<close>

definition line_parsed :: "cstring cmd \<Rightarrow> bool" where
  "line_parsed c \<longleftrightarrow> (\<forall>n r. r = [] \<or> c0 r = 41 \<longrightarrow> outcome (parseline n (show_cmd c @ r)) c r)"

lemma tail_stop: "r = [] \<or> c0 r = 41 \<Longrightarrow> stop r"
  by (auto simp: stop_def)

lemma paren_parsed:
  assumes "plain c" "\<And>b. plain b \<Longrightarrow> \<not> spine b \<Longrightarrow> b = c \<or> size b < size c \<Longrightarrow> line_parsed b" "stop r"
  shows "outcome (parseexec n (paren c @ r)) c r"
  using assms(1)
proof (cases rule: paren_cases)
  case (exec ws rs)
  then show ?thesis using exec_parsed [OF assms(3), of rs ws n] by simp
next
  case (block b rs)
  let ?rest = "redirs rs @ r"
  have nrest: "nws ?rest" by (intro nws_redirs stop_nws assms)
  have L: "line_parsed b" using assms(2) block by blast
  have n40: "nws (40 # show_cmd b @ 41 # ?rest)" by simp
  obtain w where g: "gettoken (40 # show_cmd b @ 41 # ?rest) = (40, w, show_cmd b @ 41 # ?rest)"
    using gettoken_symbol [of 40, OF _ nws_show [OF block(3)], of "41 # ?rest"] by auto
  obtain w' where g': "gettoken (41 # ?rest) = (41, w', ?rest)"
    using gettoken_symbol [of 41, OF _ nrest] by auto
  have p: "peek (40 # show_cmd b @ 41 # ?rest) [40] = (True, 40 # show_cmd b @ 41 # ?rest)"
    "peek (41 # ?rest) [41] = (True, 41 # ?rest)"
    by (simp_all add: peek_nws ustrchr_Cons)
  have "outcome (parseblock k (40 # show_cmd b @ 41 # ?rest)) c r" for k
  proof (cases k)
    case (Suc m)
    have "outcome (parseline m (show_cmd b @ 41 # ?rest)) b (41 # ?rest)"
      using L unfolding line_parsed_def by simp
    moreover have "outcome (parseredirs t ?rest) c r" if "cmd_text t = b" for t
      using redirs_parsed [OF stop_nws [OF assms(3)] _ block(6), of t] assms(3) that block(2) by (auto simp: stop_def)
    ultimately show ?thesis
      by (cases w, cases w') (auto simp: Suc p g g' intro!: outcome_bind)
  qed simp
  then show ?thesis by (cases n) (simp_all add: block(1) p)
qed

lemma no_op: "r = [] \<or> c0 r \<in> {41} \<Longrightarrow> peek r [124] = (False, r) \<and> back_loop t r = (t, r) \<and> peek r [59] = (False, r)"
proof -
  assume r: "r = [] \<or> c0 r \<in> {41}"
  then have "nws r" by (intro stop_nws) (auto simp: stop_def)
  then have p: "peek r [124] = (False, r)" "peek r [38] = (False, r)" "peek r [59] = (False, r)"
    using r by (auto simp: peek_nws ustrchr_Cons)
  moreover have "back_loop t r = (t, r)" using p(2) by (subst back_loop.simps) simp
  ultimately show ?thesis by blast
qed

lemma pipe_parsed:
  assumes "\<And>n. outcome (parseexec n (x @ r)) c r" "r = [] \<or> c0 r = 41"
  shows "outcome (parsepipe n (x @ r)) c r" and "outcome (parseline n (x @ r)) c r"
proof -
  show P: "outcome (parsepipe n (x @ r)) c r" for n
    by (cases n) (use no_op [of r] assms(2) in \<open>auto intro!: outcome_bind [OF assms(1)]\<close>)
  show "outcome (parseline n (x @ r)) c r"
    by (cases n) (use no_op [of r] assms(2) in \<open>auto intro!: outcome_bind [OF P]\<close>)
qed

text \<open>One step of \<open>parsepipe\<close> or \<open>parseline\<close> over an operator.\<close>

lemma op_peek:
  assumes "k \<in> {124, 59, 38}" "nws s"
  shows "peek (k # s) [d] = (k = d, k # s)" "\<exists>w. gettoken (k # s) = (k, w, s)"
proof -
  have "nws (k # s)" using assms(1) by (intro nws_symbol) auto
  then show "peek (k # s) [d] = (k = d, k # s)" using assms(1) by (auto simp: peek_nws ustrchr_Cons)
  show "\<exists>w. gettoken (k # s) = (k, w, s)" by (rule gettoken_symbol) (use assms in auto)
qed

lemma show_parsed: "plain c \<Longrightarrow> line_parsed c"
proof (induction c rule: measure_induct_rule [of size])
  case (less c)
  have B: "outcome (parseexec n (paren x @ r)) x r" if "plain x" "size x < size c" "stop r" for x n r
    by (rule paren_parsed [OF that(1) _ that(3)]) (use less.IH that(2) in auto)
  show ?case
    unfolding line_parsed_def
  proof (intro allI impI)
    fix n r assume r: "r = [] \<or> c0 r = 41"
    note S = tail_stop [OF r]
    have nr: "nws r" by (rule stop_nws [OF S])
    show "outcome (parseline n (show_cmd c @ r)) c r"
    proof (cases "spine c")
      case True
      have "outcome (parseexec n (paren c @ r)) c r" for n
        by (rule paren_parsed [OF less.prems _ S]) (use less.IH True in auto)
      from pipe_parsed(2) [OF this r] True show ?thesis by (simp add: paren_def)
    next
      case False
      show ?thesis
      proof (cases c)
        case (PipeC l q)
        then have pl: "plain l" "plain q" using less.prems by simp_all
        have nq: "nws (paren q @ r)" by (rule nws_paren [OF pl(2) nr])
        obtain w where g: "gettoken (124 # paren q @ r) = (124, w, paren q @ r)" using op_peek(2) [OF _ nq, of 124] by auto
        have Bq: "outcome (parseexec n (paren q @ r)) q r" for n using PipeC by (intro B [OF pl(2) _ S]) simp
        have Bl: "outcome (parseexec n (paren l @ 124 # paren q @ r)) l (124 # paren q @ r)" for n
          using PipeC by (intro B [OF pl(1)]) (simp_all add: stop_def)
        have P: "outcome (parsepipe n (paren l @ 124 # paren q @ r)) c r" for n
          by (cases n; cases w)
            (use op_peek(1) [OF _ nq, of 124] g PipeC in
              \<open>auto intro!: outcome_bind [OF Bl] outcome_bind [OF pipe_parsed(1) [OF Bq r]]\<close>)
        have "outcome (parseline n (paren l @ 124 # paren q @ r)) c r"
          by (cases n) (use no_op [of r] r in \<open>auto intro!: outcome_bind [OF P]\<close>)
        then show ?thesis using PipeC by (simp add: paren_def)
      next
        case (ListC l q)
        then have pl: "plain l" "plain q" using less.prems by simp_all
        have nq: "nws (paren q @ r)" by (rule nws_paren [OF pl(2) nr])
        obtain w where g: "gettoken (59 # paren q @ r) = (59, w, paren q @ r)" using op_peek(2) [OF _ nq, of 59] by auto
        have Bq: "outcome (parseexec n (paren q @ r)) q r" for n using ListC by (intro B [OF pl(2) _ S]) simp
        have Bl: "outcome (parseexec n (paren l @ 59 # paren q @ r)) l (59 # paren q @ r)" for n
          using ListC by (intro B [OF pl(1)]) (simp_all add: stop_def)
        have P: "outcome (parsepipe n (paren l @ 59 # paren q @ r)) l (59 # paren q @ r)" for n
          by (cases n) (use op_peek(1) [OF _ nq, of 59] in \<open>auto intro!: outcome_bind [OF Bl]\<close>)
        have "back_loop t (59 # paren q @ r) = (t, 59 # paren q @ r)" for t
          using op_peek(1) [OF _ nq, of 59 38] by (subst back_loop.simps) simp
        then have "outcome (parseline n (paren l @ 59 # paren q @ r)) c r"
          by (cases n; cases w)
            (use op_peek(1) [OF _ nq, of 59] g ListC in
              \<open>auto intro!: outcome_bind [OF P] outcome_bind [OF pipe_parsed(2) [OF Bq r]]\<close>)
        then show ?thesis using ListC by (simp add: paren_def)
      next
        case (BackC l)
        then have pl: "plain l" using less.prems by simp
        obtain w where g: "gettoken (38 # r) = (38, w, r)" using op_peek(2) [OF _ nr, of 38] by auto
        have Bl: "outcome (parseexec n (paren l @ 38 # r)) l (38 # r)" for n
          using BackC by (intro B [OF pl]) (simp_all add: stop_def)
        have P: "outcome (parsepipe n (paren l @ 38 # r)) l (38 # r)" for n
          by (cases n) (use op_peek(1) [OF _ nr, of 38] in \<open>auto intro!: outcome_bind [OF Bl]\<close>)
        have "back_loop t (38 # r) = (BackC t, r)" for t
          using op_peek(1) [OF _ nr, of 38 38] g no_op [of r "BackC t"] r by (subst back_loop.simps) (cases w, simp)
        then have "outcome (parseline n (paren l @ 38 # r)) c r"
          by (cases n) (use no_op [of r] r BackC in \<open>auto intro!: outcome_bind [OF P]\<close>)
        then show ?thesis using BackC by (simp add: paren_def)
      qed (use False in simp_all)
    qed
  qed
qed

text \<open>
  C35: the parser inverts the printer: for every command with words as its strings, argument
  vectors that fit and the redirections of the syntax, \<open>parsecmd\<close> reads the printed line back to
  exactly this command, whatever the nesting of pipes, lists, blocks, redirections and \<^verbatim>\<open>&\<close>.
\<close>

theorem parsecmd_show:
  assumes "plain c"
  shows "\<exists>t. parsecmd (show_cmd c) = POk t [] \<and> map_cmd tok_text t = c"
proof -
  let ?s = "show_cmd c"
  have "outcome (parseline (4 * length ?s + 3) (?s @ [])) c []"
    using show_parsed [OF assms] unfolding line_parsed_def by blast
  moreover have "fine (parseline (4 * length ?s + 3) ?s)" by (rule parse_fine(1)) simp
  ultimately obtain t where "parseline (4 * length ?s + 3) ?s = POk t []" "cmd_text t = c"
    by (auto simp: outcome_def)
  then show ?thesis by (simp add: parsecmd_def peek_def)
qed

lemma parsecmd_show_witness:
  "let c = PipeC (BackC (ExecC [chars ''a''])) (RedirC (ExecC [chars ''b'', chars ''c'']) (chars ''f'') 0x201 1) in
    show_cmd c = chars ''(a &)|b c >>f '' \<and> (\<exists>t. parsecmd (chars ''(a &)|b c >>f '') = POk t [] \<and> map_cmd tok_text t = c)"
proof -
  define c where "c = PipeC (BackC (ExecC [chars ''a''])) (RedirC (ExecC [chars ''b'', chars ''c'']) (chars ''f'') 0x201 1)"
  have "plain c"
    by (simp add: c_def MAXARGS_def chars_def word_def wordc_def whitespace_def symbols_def ustrchr_Cons)
  moreover have "show_cmd c = chars ''(a &)|b c >>f ''" by (simp add: c_def chars_def opsym_def)
  ultimately show ?thesis using parsecmd_show [of c] unfolding Let_def c_def [symmetric] by simp
qed

end
