(* ===== verification/Shrun.thy ===== *)
theory Shrun
  imports Shtype Grep
begin

text \<open>
  How the shell runs a command, \<^verbatim>\<open>runcmd\<close> of \<^verbatim>\<open>user/sh.c\<close>, and its main loop.

  A process of the shell is its table of descriptors. \<open>runcmd\<close> is given by what the process and the
  processes it forks come to: each executes a program with its arguments, or waits for its children,
  and has its descriptors then. Waiting orders the processes in time and changes no descriptor. A
  pipe is named by the place of its command in the whole command.
\<close>

section \<open>Descriptors\<close>

datatype fobj = Inherited nat | Opened cstring int | PipeR "bool list" | PipeW "bool list"

type_synonym fds = "nat \<Rightarrow> fobj option"

definition lowest :: "fds \<Rightarrow> nat option" where
  "lowest T = scan (\<lambda>d. T d = None) UNOFILE"

definition sh_close :: "nat \<Rightarrow> fds \<Rightarrow> fds" where
  "sh_close d T = T(d := None)"

text \<open>\<open>dup\<close> and \<open>open\<close> take the lowest descriptor that is free; without one they fail.\<close>

definition sh_dup :: "nat \<Rightarrow> fds \<Rightarrow> fds" where
  "sh_dup d T = (case lowest T of None \<Rightarrow> T | Some d' \<Rightarrow> if T d = None then T else T(d' := T d))"

definition sh_open :: "(cstring \<Rightarrow> int \<Rightarrow> bool) \<Rightarrow> cstring \<Rightarrow> int \<Rightarrow> fds \<Rightarrow> fds option" where
  "sh_open opens f m T =
    (if opens f m then map_option (\<lambda>d. T(d := Some (Opened f m))) (lowest T) else None)"

definition sh_pipe :: "bool list \<Rightarrow> fds \<Rightarrow> (nat \<times> nat \<times> fds) option" where
  "sh_pipe pl T =
    (case lowest T of None \<Rightarrow> None
     | Some p0 \<Rightarrow>
        let T = T(p0 := Some (PipeR pl)) in
        (case lowest T of None \<Rightarrow> None
         | Some p1 \<Rightarrow> Some (p0, p1, T(p1 := Some (PipeW pl)))))"

section \<open>Running a command\<close>

text \<open>
  A failed \<open>fork\<close>, \<open>pipe\<close> or \<open>open\<close> ends the process. \<open>opens\<close> says which files can be opened, and
  \<open>forks\<close> whether \<open>fork\<close> succeeds. Both children of a pipe have the parent's descriptors, which
  closes both ends of the pipe before it waits.
\<close>

datatype sh_act = Execs "cstring list" | Waits

fun runcmd :: "(cstring \<Rightarrow> int \<Rightarrow> bool) \<Rightarrow> bool \<Rightarrow> bool list \<Rightarrow> cstring cmd \<Rightarrow> fds \<Rightarrow> (sh_act \<times> fds) list" where
  "runcmd opens forks pl (ExecC ws) T = (if ws = [] then [] else [(Execs ws, T)])"
| "runcmd opens forks pl (RedirC c f m fd) T =
    (case sh_open opens f m (sh_close (nat fd) T) of
       None \<Rightarrow> []
     | Some T \<Rightarrow> runcmd opens forks pl c T)"
| "runcmd opens forks pl (ListC l r) T =
    (if \<not> forks then []
     else runcmd opens forks (True # pl) l T @ (Waits, T) # runcmd opens forks (False # pl) r T)"
| "runcmd opens forks pl (PipeC l r) T =
    (case sh_pipe pl T of
       None \<Rightarrow> []
     | Some (p0, p1, T) \<Rightarrow>
        if \<not> forks then []
        else
          runcmd opens forks (True # pl) l (sh_close p1 (sh_close p0 (sh_dup p1 (sh_close 1 T)))) @
          runcmd opens forks (False # pl) r (sh_close p1 (sh_close p0 (sh_dup p0 (sh_close 0 T)))) @
          [(Waits, sh_close p1 (sh_close p0 T))])"
| "runcmd opens forks pl (BackC c) T = (if \<not> forks then [] else runcmd opens forks pl c T)"

section \<open>Reading commands\<close>

text \<open>\<open>getcmd\<close>: the line, unless nothing was read. A NUL ends the line early.\<close>

definition getcmd :: "int \<Rightarrow> usys \<Rightarrow> cstring option \<times> usys" where
  "getcmd nbuf s =
    (let (buf, s) = gets nbuf (u_write 2 [36, 32] s);
         line = takeWhile (\<lambda>c. c \<noteq> 0) buf
     in if c0 line = 0 then (None, s) else (Some line, s))"

text \<open>What the body of the main loop does with a line.\<close>

datatype shact = Blank | Chdir cstring | Run cstring

fun skip_blanks :: "cstring \<Rightarrow> cstring" where
  "skip_blanks [] = []"
| "skip_blanks (c # s) = (if c = 32 \<or> c = 9 then skip_blanks s else c # s)"

definition sh_line :: "cstring \<Rightarrow> shact" where
  "sh_line buf =
    (let cmd = skip_blanks buf in
     if c0 cmd = 10 then Blank
     else if c0 cmd = 99 \<and> c0 (tl cmd) = 100 \<and> c0 (tl (tl cmd)) = 32
     then Chdir (drop 3 (take (ustrlen cmd - 1) cmd))
     else Run cmd)"

lemma gets_loop_read:
  "gets_loop k buf s = (r, t) \<Longrightarrow> unread (u_fd t 0) \<le> unread (u_fd s 0) \<and>
    (length r \<noteq> length buf \<longrightarrow> unread (u_fd t 0) < unread (u_fd s 0))"
proof (induction k buf s arbitrary: r t rule: gets_loop.induct)
  case (2 k buf s)
  obtain cc b u where rd: "u_read 0 1 s = (cc, b, u)" by (rule prod_cases3)
  show ?case
  proof (cases "cc < 1")
    case True
    then have "unread (u_fd u 0) \<le> unread (u_fd s 0)"
      using rd by (auto simp: u_read_def unread_def split: option.splits list.splits if_splits)
    then show ?thesis using True 2(2) rd by auto
  next
    case False
    then have l: "unread (u_fd u 0) < unread (u_fd s 0)" using unread_less [OF rd] by simp
    show ?thesis
    proof (cases "hd b = 10 \<or> hd b = 13")
      case True
      then show ?thesis using 2(2) rd False l by auto
    next
      case c: False
      then have g: "gets_loop k (buf @ [hd b]) u = (r, t)" using 2(2) rd False by auto
      show ?thesis using 2(1) [OF rd [symmetric] refl refl False refl refl c g] l by linarith
    qed
  qed
qed simp

lemma getcmd_read:
  assumes "getcmd nbuf s = (Some line, t)"
  shows "unread (u_fd t 0) < unread (u_fd s 0)"
proof -
  obtain buf u where g: "gets nbuf (u_write 2 [36, 32] s) = (buf, u)" by fastforce
  then have "buf \<noteq> []" "t = u" using assms by (auto simp: getcmd_def Let_def split: if_splits)
  then show ?thesis using gets_loop_read [OF g [unfolded gets_def]] by simp
qed

text \<open>The main loop, as the lines that it handles; the buffer holds 100 bytes.\<close>

function sh_loop :: "usys \<Rightarrow> shact list" where
  "sh_loop s =
    (case getcmd 100 s of
       (None, s) \<Rightarrow> []
     | (Some line, s) \<Rightarrow> sh_line line # sh_loop s)"
  by pat_completeness auto
termination
  by (relation "measure (\<lambda>s. unread (u_fd s 0))") (auto intro: getcmd_read [OF sym])

declare sh_loop.simps [simp del]

section \<open>Pipelines\<close>

text \<open>
  The specification: the standard input and output of every process, where it executes a program or
  waits. A redirection replaces one of them, and a pipe the output of its left and the input of its
  right command; the process that waits for the two keeps its own.
\<close>

fun wiring :: "(cstring \<Rightarrow> int \<Rightarrow> bool) \<Rightarrow> bool list \<Rightarrow> cstring cmd \<Rightarrow> fobj \<times> fobj \<Rightarrow> (sh_act \<times> fobj \<times> fobj) list" where
  "wiring opens pl (ExecC ws) io = (if ws = [] then [] else [(Execs ws, io)])"
| "wiring opens pl (RedirC c f m fd) io =
    (if opens f m then wiring opens pl c (if fd = 0 then (Opened f m, snd io) else (fst io, Opened f m)) else [])"
| "wiring opens pl (ListC l r) io = wiring opens (True # pl) l io @ (Waits, io) # wiring opens (False # pl) r io"
| "wiring opens pl (PipeC l r) io =
    wiring opens (True # pl) l (fst io, PipeW pl) @ wiring opens (False # pl) r (PipeR pl, snd io) @ [(Waits, io)]"
| "wiring opens pl (BackC c) io = wiring opens pl c io"

definition three :: "fobj \<Rightarrow> fobj \<times> fobj \<Rightarrow> fds" where
  "three e io = (\<lambda>_. None)(0 := Some (fst io), 1 := Some (snd io), 2 := Some e)"

lemma lowest_Some: "d < UNOFILE \<Longrightarrow> T d = None \<Longrightarrow> (\<And>d'. d' < d \<Longrightarrow> T d' \<noteq> None) \<Longrightarrow> lowest T = Some d"
  by (auto simp: lowest_def scan_Some)

lemma three_open:
  "sh_open opens f m (sh_close 0 (three e io)) = (if opens f m then Some (three e (Opened f m, snd io)) else None)"
  "sh_open opens f m (sh_close 1 (three e io)) = (if opens f m then Some (three e (fst io, Opened f m)) else None)"
proof -
  have "lowest (sh_close 0 (three e io)) = Some 0" "lowest (sh_close 1 (three e io)) = Some 1"
    by (rule lowest_Some; simp add: UNOFILE_def sh_close_def three_def less_Suc_eq)+
  then show "sh_open opens f m (sh_close 0 (three e io)) = (if opens f m then Some (three e (Opened f m, snd io)) else None)"
    "sh_open opens f m (sh_close 1 (three e io)) = (if opens f m then Some (three e (fst io, Opened f m)) else None)"
    by (auto simp: sh_open_def sh_close_def three_def fun_eq_iff)
qed

lemma three_pipe:
  "\<exists>T. sh_pipe pl (three e io) = Some (3, 4, T) \<and>
    sh_close 4 (sh_close 3 (sh_dup 4 (sh_close 1 T))) = three e (fst io, PipeW pl) \<and>
    sh_close 4 (sh_close 3 (sh_dup 3 (sh_close 0 T))) = three e (PipeR pl, snd io) \<and>
    sh_close 4 (sh_close 3 T) = three e io"
proof -
  let ?R = "(three e io)(3 := Some (PipeR pl))"
  let ?T = "?R(4 := Some (PipeW pl))"
  have L: "lowest (three e io) = Some 3" "lowest ?R = Some 4" "lowest (sh_close 1 ?T) = Some 1" "lowest (sh_close 0 ?T) = Some 0"
    by (rule lowest_Some; auto simp: UNOFILE_def sh_close_def three_def less_Suc_eq eval_nat_numeral)+
  have "sh_pipe pl (three e io) = Some (3, 4, ?T)" by (simp add: sh_pipe_def L(1,2))
  moreover have "sh_dup 4 (sh_close 1 ?T) = (sh_close 1 ?T)(1 := Some (PipeW pl))"
    unfolding sh_dup_def L(3) by (simp add: sh_close_def)
  moreover have "sh_dup 3 (sh_close 0 ?T) = (sh_close 0 ?T)(0 := Some (PipeR pl))"
    unfolding sh_dup_def L(4) by (simp add: sh_close_def)
  moreover have "sh_close 4 (sh_close 3 ((sh_close 1 ?T)(1 := Some (PipeW pl)))) = three e (fst io, PipeW pl)"
    "sh_close 4 (sh_close 3 ((sh_close 0 ?T)(0 := Some (PipeR pl)))) = three e (PipeR pl, snd io)"
    "sh_close 4 (sh_close 3 ?T) = three e io"
    by (auto simp: sh_close_def three_def fun_eq_iff)
  ultimately show ?thesis by simp
qed

fun redirs_std :: "cstring cmd \<Rightarrow> bool" where
  "redirs_std (ExecC ws) \<longleftrightarrow> True"
| "redirs_std (RedirC c f m fd) \<longleftrightarrow> (fd = 0 \<or> fd = 1) \<and> redirs_std c"
| "redirs_std (PipeC l r) \<longleftrightarrow> redirs_std l \<and> redirs_std r"
| "redirs_std (ListC l r) \<longleftrightarrow> redirs_std l \<and> redirs_std r"
| "redirs_std (BackC c) \<longleftrightarrow> redirs_std c"

lemma runcmd_wiring:
  assumes "redirs_std c"
  shows "runcmd opens True pl c (three e io) =
    map (\<lambda>(a, io). (a, three e io)) (wiring opens pl c io)"
  using assms
proof (induction c arbitrary: pl io)
  case (RedirC c f m fd)
  then show ?case using three_open [of opens f m e io] by auto
next
  case (PipeC l r)
  obtain T where "sh_pipe pl (three e io) = Some (3, 4, T)"
      "sh_close 4 (sh_close 3 (sh_dup 4 (sh_close 1 T))) = three e (fst io, PipeW pl)"
      "sh_close 4 (sh_close 3 (sh_dup 3 (sh_close 0 T))) = three e (PipeR pl, snd io)"
      "sh_close 4 (sh_close 3 T) = three e io"
    using three_pipe by blast
  then show ?case using PipeC by simp
qed auto

lemma typed_redirs_std: "typed s c \<Longrightarrow> redirs_std (map_cmd tok_text c)"
  by (induction c) auto

text \<open>
  C36: in a shell with just the three standard descriptors, every program of a command line is
  executed with just three descriptors again, input and output wired as the command says, and no end
  of a pipe besides. The same holds of the processes of the shell that wait for them: the parent of
  a pipe has closed both of its ends. So the only processes of the command that hold the write end
  of a pipe are those whose standard output it is.
\<close>

theorem sh_pipelines:
  assumes "0 \<notin> set s" "parsecmd s = POk c t"
  shows "runcmd opens True pl (map_cmd tok_text c) (three e io) =
    map (\<lambda>(a, io). (a, three e io)) (wiring opens pl (map_cmd tok_text c) io)"
  by (rule runcmd_wiring) (rule typed_redirs_std [OF parsed_typed [OF assms]])

lemma sh_pipelines_witness:
  "\<exists>c. parsecmd (chars ''ls|wc'') = POk c [] \<and>
    runcmd (\<lambda>_ _. True) True [] (map_cmd tok_text c) (three (Inherited 2) (Inherited 0, Inherited 1)) =
      [(Execs [chars ''ls''], three (Inherited 2) (Inherited 0, PipeW [])),
       (Execs [chars ''wc''], three (Inherited 2) (PipeR [], Inherited 1)),
       (Waits, three (Inherited 2) (Inherited 0, Inherited 1))]"
proof -
  let ?s = "chars ''ls|wc''"
  let ?c = "PipeC (ExecC [(?s, drop 2 ?s)]) (ExecC [(drop 3 ?s, [])])"
  have p: "parsecmd ?s = POk ?c []" by code_simp
  have m: "map_cmd tok_text ?c = PipeC (ExecC [chars ''ls'']) (ExecC [chars ''wc''])" by (simp add: tok_text_def chars_def)
  have "0 \<notin> set ?s" by (simp add: chars_def)
  note r = sh_pipelines [OF this p, of "\<lambda>_ _. True" "[]" "Inherited 2" "(Inherited 0, Inherited 1)"]
  show ?thesis by (intro exI [of _ ?c] conjI p) (unfold r, unfold m, simp)
qed

end
