(* ===== verification/Umalloc.thy ===== *)
theory Umalloc
  imports Usys
begin

text \<open>
  The allocator of user programs, \<^verbatim>\<open>user/umalloc.c\<close>: a circular list of free blocks in the order of
  their addresses.

  A pointer to a \<open>Header\<close> is its address divided by \<open>sizeof(Header)\<close>, 16, so that the
  arithmetic of such pointers is that of the numbers; 0 is null. The memory is the union \<open>Header\<close>
  of every such unit of 16 bytes, whether it is in use as a header or holds data of the program: the
  8 bytes of \<open>ptr\<close> and the 4 bytes of \<open>size\<close>. The last 4 bytes of a unit are padding of the
  struct, which no assignment of the file touches, and are left out. The break and what \<open>sbrk\<close>
  returns are in bytes. A call that does not return, because it loops or touches memory above the break, is
  \<open>None\<close>.
\<close>

section \<open>The allocator\<close>

record heap =
  h_ptr :: "nat \<Rightarrow> nat"
  h_size :: "nat \<Rightarrow> nat"
  freep :: nat
  h_base :: nat
  brk :: nat
  brk_max :: nat

definition set_ptr :: "nat \<Rightarrow> nat \<Rightarrow> heap \<Rightarrow> heap" where
  "set_ptr p q h = h\<lparr>h_ptr := (h_ptr h)(p := q)\<rparr>"

definition set_size :: "nat \<Rightarrow> nat \<Rightarrow> heap \<Rightarrow> heap" where
  "set_size p n h = h\<lparr>h_size := (h_size h)(p := n mod 2 ^ 32)\<rparr>"

text \<open>The loop of \<open>free\<close>.\<close>

partial_function (option) free_search :: "heap \<Rightarrow> nat \<Rightarrow> nat \<Rightarrow> nat option" where
  "free_search h bp p =
    (if p < bp \<and> bp < h_ptr h p then Some p
     else if h_ptr h p \<le> p \<and> (p < bp \<or> bp < h_ptr h p) then Some p
     else free_search h bp (h_ptr h p))"

definition free_link :: "nat \<Rightarrow> nat \<Rightarrow> heap \<Rightarrow> heap" where
  "free_link bp p h =
    (let h = (if bp + h_size h bp = h_ptr h p
              then set_ptr bp (h_ptr h (h_ptr h p)) (set_size bp (h_size h bp + h_size h (h_ptr h p)) h)
              else set_ptr bp (h_ptr h p) h);
         h = (if p + h_size h p = bp
              then set_ptr p (h_ptr h bp) (set_size p (h_size h p + h_size h bp) h)
              else set_ptr p bp h)
     in h\<lparr>freep := p\<rparr>)"

definition free :: "nat \<Rightarrow> heap \<Rightarrow> heap option" where
  "free ap h =
    (let bp = ap - 1
     in map_option (\<lambda>p. free_link bp p h) (free_search h bp (freep h)))"

text \<open>
  \<open>sbrk\<close>, whose argument is an \<open>int\<close>. The kernel's \<open>growproc\<close> fails above the limit; it ignores
  a shrinking by more than there is.
\<close>

definition sbrk :: "int \<Rightarrow> heap \<Rightarrow> nat option \<times> heap" where
  "sbrk n h =
    (if 0 \<le> n then
       if brk h + nat n \<le> brk_max h then (Some (brk h), h\<lparr>brk := brk h + nat n\<rparr>) else (None, h)
     else (Some (brk h), h\<lparr>brk := (if nat (- n) \<le> brk h then brk h - nat (- n) else brk h)\<rparr>))"

definition morecore :: "nat \<Rightarrow> heap \<Rightarrow> (nat \<times> heap) option" where
  "morecore nu h =
    (let nu = (if nu < 4096 then 4096 else nu);
         (r, h) = sbrk (sint (of_nat (nu * 16) :: u32)) h
     in case r of
          None \<Rightarrow> Some (0, h)
        | Some p \<Rightarrow>
            let hp = p div 16
            in if brk h < p + 16 then None
               else map_option (\<lambda>h. (freep h, h)) (free (hp + 1) (set_size hp nu h)))"

text \<open>The loop of \<open>malloc\<close>; \<open>p\<close> is the block behind \<open>prevp\<close>.\<close>

partial_function (option) malloc_loop :: "nat \<Rightarrow> nat \<Rightarrow> heap \<Rightarrow> (nat \<times> heap) option" where
  "malloc_loop nunits prevp h =
    (let p = h_ptr h prevp in
     if nunits \<le> h_size h p then
       let (p, h) =
         (if h_size h p = nunits then (p, set_ptr prevp (h_ptr h p) h)
          else
            let h = set_size p (h_size h p - nunits) h;
                p = p + h_size h p
            in (p, set_size p nunits h))
       in Some (p + 1, h\<lparr>freep := prevp\<rparr>)
     else if p = freep h then
       Option.bind (morecore nunits h) (\<lambda>(p, h).
       if p = 0 then Some (0, h) else malloc_loop nunits p h)
     else malloc_loop nunits p h)"

text \<open>The sum is computed in 64 bits, since \<open>sizeof\<close> is a \<open>size_t\<close>.\<close>

definition units :: "nat \<Rightarrow> nat" where
  "units nbytes = ((nbytes + 16 - 1) div 16 + 1) mod 2 ^ 32"

definition malloc :: "nat \<Rightarrow> heap \<Rightarrow> (nat \<times> heap) option" where
  "malloc nbytes h =
    (let h = (if freep h = 0
              then set_size (h_base h) 0 (set_ptr (h_base h) (h_base h) (h\<lparr>freep := h_base h\<rparr>))
              else h)
     in malloc_loop (units nbytes) (freep h) h)"

section \<open>The free list\<close>

text \<open>
  \<open>path h a L b\<close>: following the pointers from \<open>a\<close> visits \<open>L\<close> and arrives at \<open>b\<close>. The heap
  represents the list \<open>B\<close> of the addresses and sizes of its blocks, the base first.
\<close>

fun path :: "heap \<Rightarrow> nat \<Rightarrow> nat list \<Rightarrow> nat \<Rightarrow> bool" where
  "path h a [] b \<longleftrightarrow> a = b"
| "path h a (x # xs) b \<longleftrightarrow> a = x \<and> path h (h_ptr h x) xs b"

definition rep :: "heap \<Rightarrow> (nat \<times> nat) list \<Rightarrow> bool" where
  "rep h B \<longleftrightarrow> path h (h_base h) (map fst B) (h_base h) \<and> (\<forall>x\<in>set B. h_size h (fst x) = snd x)"

text \<open>Blocks in the order of their addresses, no two of them touching; the base has no room.\<close>

definition blocks_ok :: "heap \<Rightarrow> (nat \<times> nat) list \<Rightarrow> bool" where
  "blocks_ok h B \<longleftrightarrow> B \<noteq> [] \<and> hd B = (h_base h, 0) \<and> sorted_wrt (\<lambda>x y. fst x + snd x < fst y) B \<and>
    (\<forall>x\<in>set (tl B). 0 < snd x \<and> fst x + snd x \<le> brk h div 16)"

definition heap_inv :: "heap \<Rightarrow> (nat \<times> nat) list \<Rightarrow> bool" where
  "heap_inv h B \<longleftrightarrow> rep h B \<and> blocks_ok h B \<and> freep h \<in> fst ` set B \<and> 0 < h_base h \<and>
    h_base h < brk h div 16 \<and> brk h mod 16 = 0 \<and> brk h \<le> brk_max h \<and> brk_max h < 2 ^ 36"

text \<open>The units in free blocks.\<close>

definition room :: "(nat \<times> nat) list \<Rightarrow> nat set" where
  "room B = (\<Union>(p, n)\<in>set B. {p..<p + n})"

lemma path_append: "path h a (xs @ ys) b \<longleftrightarrow> (\<exists>c. path h a xs c \<and> path h c ys b)"
  by (induction xs arbitrary: a) auto

lemma path_cong: "(\<And>x. x \<in> set xs \<Longrightarrow> h_ptr h x = h_ptr h' x) \<Longrightarrow> path h a xs b = path h' a xs b"
  by (induction xs arbitrary: a) auto

lemma path_frame: "path h a xs b \<Longrightarrow> (\<And>x. x \<in> set xs \<Longrightarrow> h_ptr h x = h_ptr h' x) \<Longrightarrow> path h' a xs b"
  using path_cong by blast

lemma set_fields [simp]:
  "h_ptr (set_ptr p q h) = (h_ptr h)(p := q)" "h_size (set_ptr p q h) = h_size h" "h_base (set_ptr p q h) = h_base h"
  "h_ptr (set_size p n h) = h_ptr h" "h_size (set_size p n h) = (h_size h)(p := n mod 2 ^ 32)"
  "h_base (set_size p n h) = h_base h" "freep (set_ptr p q h) = freep h" "freep (set_size p n h) = freep h"
  "brk (set_ptr p q h) = brk h" "brk (set_size p n h) = brk h"
  "brk_max (set_ptr p q h) = brk_max h" "brk_max (set_size p n h) = brk_max h"
  by (simp_all add: set_ptr_def set_size_def)

lemma path_freep [simp]: "path (h\<lparr>freep := p\<rparr>) a xs b = path h a xs b"
  by (rule path_cong) simp

lemma rep_freep [simp]: "rep (h\<lparr>freep := p\<rparr>) B = rep h B"
  by (simp add: rep_def)

text \<open>Of two heaps: the words of a unit are the same.\<close>

definition same_unit :: "heap \<Rightarrow> heap \<Rightarrow> nat \<Rightarrow> bool" where
  "same_unit h h' x \<longleftrightarrow> h_ptr h' x = h_ptr h x \<and> h_size h' x = h_size h x"

lemma same_unit_trans: "same_unit h h1 x \<Longrightarrow> same_unit h1 h2 x \<Longrightarrow> same_unit h h2 x"
  by (simp add: same_unit_def)

text \<open>Linking a block behind another, and merging a block with the one behind it.\<close>

lemma rep_link:
  assumes "rep h (us @ (p, n) # vs)" "distinct (map fst (us @ (p, n) # vs))" "bp \<notin> fst ` set (us @ (p, n) # vs)"
  shows "rep (set_ptr p bp (set_ptr bp (h_ptr h p) h)) (us @ (p, n) # (bp, h_size h bp) # vs)"
proof -
  let ?h = "set_ptr p bp (set_ptr bp (h_ptr h p) h)"
  let ?us = "map fst us" and ?vs = "map fst vs"
  have P: "path h (h_base h) ?us p" "path h (h_ptr h p) ?vs (h_base h)"
    using assms(1) by (auto simp: rep_def path_append)
  have d: "p \<notin> set ?us" "p \<notin> set ?vs" "bp \<notin> set ?us" "bp \<notin> set ?vs" "bp \<noteq> p" using assms(2,3) by auto
  have "path ?h (h_base h) ?us p" "path ?h (h_ptr h p) ?vs (h_base h)"
    by (rule path_frame [OF P(1)]; use d in auto) (rule path_frame [OF P(2)]; use d in auto)
  then show ?thesis using assms(1) d(5) by (auto simp: rep_def path_append)
qed

lemma rep_merge:
  assumes "rep h (us @ (a, n) # (b, m) # vs)" "distinct (map fst (us @ (a, n) # (b, m) # vs))" "n + m < 2 ^ 32"
  shows "rep (set_ptr a (h_ptr h b) (set_size a (n + m) h)) (us @ (a, n + m) # vs)"
proof -
  let ?h = "set_ptr a (h_ptr h b) (set_size a (n + m) h)"
  let ?us = "map fst us" and ?vs = "map fst vs"
  have P: "path h (h_base h) ?us a" "path h (h_ptr h b) ?vs (h_base h)"
    using assms(1) by (auto simp: rep_def path_append)
  have d: "a \<notin> set ?us" "a \<notin> set ?vs" using assms(2) by auto
  have "path ?h (h_base h) ?us a" "path ?h (h_ptr h b) ?vs (h_base h)"
    by (rule path_frame [OF P(1)]; use d in auto) (rule path_frame [OF P(2)]; use d in auto)
  moreover have "\<forall>x\<in>set us \<union> set vs. h_size h (fst x) = snd x \<and> fst x \<noteq> a"
    using assms(1) d by (force simp: rep_def)
  ultimately show ?thesis using assms(3) by (fastforce simp: rep_def path_append)
qed

lemma in_room: "blocks_ok h B \<Longrightarrow> q \<in> fst ` set B \<Longrightarrow> q \<noteq> h_base h \<Longrightarrow> q \<in> room B"
  by (cases B) (force simp: blocks_ok_def room_def)+

section \<open>\<open>free\<close>\<close>

lemma search_path:
  assumes "path h a zs b"
    and "\<And>z. z \<in> set zs \<Longrightarrow> \<not> (z < bp \<and> bp < h_ptr h z) \<and> \<not> (h_ptr h z \<le> z \<and> (z < bp \<or> bp < h_ptr h z))"
  shows "free_search h bp a = free_search h bp b"
  using assms
proof (induction zs arbitrary: a)
  case (Cons z zs)
  then have "free_search h bp a = free_search h bp (h_ptr h z)" by (subst free_search.simps) auto
  then show ?case using Cons by simp
qed simp

lemma ptr_next: "path h a (xs @ z # ys) b \<Longrightarrow> h_ptr h z = (case ys of [] \<Rightarrow> b | y # _ \<Rightarrow> y)"
  by (auto simp: path_append split: list.split)

lemma search_found:
  assumes "path h base (us @ p # vs) base" "sorted_wrt (<) (us @ p # vs)" "f \<in> set (us @ p # vs)"
    and "p < bp" "\<forall>q\<in>set vs. bp < q" "base \<le> p"
  shows "free_search h bp f = Some p"
proof -
  have stop: "free_search h bp p = Some p"
  proof (cases vs)
    case Nil
    then have "h_ptr h p = base" using ptr_next [OF assms(1)] by simp
    then show ?thesis using assms by (subst free_search.simps) auto
  next
    case (Cons v vs')
    then have "h_ptr h p = v" using ptr_next [OF assms(1)] by simp
    then show ?thesis using assms Cons by (subst free_search.simps) auto
  qed
  have go: "\<not> (z < bp \<and> bp < h_ptr h z) \<and> \<not> (h_ptr h z \<le> z \<and> (z < bp \<or> bp < h_ptr h z))"
    if z: "z \<in> set us \<union> set vs" for z
  proof (cases "z \<in> set us")
    case True
    then obtain u1 u2 where u: "us = u1 @ z # u2" by (meson split_list)
    have "h_ptr h z = (case u2 @ p # vs of [] \<Rightarrow> base | y # _ \<Rightarrow> y)"
      using ptr_next [of h base u1 z "u2 @ p # vs" base] assms(1) u by simp
    then have "z < h_ptr h z" "h_ptr h z \<le> p"
      using assms(2) u by (cases u2; auto simp: sorted_wrt_append)+
    then show ?thesis using assms(4) by auto
  next
    case False
    then have "z \<in> set vs" using z by simp
    then obtain v1 v2 where v: "vs = v1 @ z # v2" by (meson split_list)
    have "h_ptr h z = (case v2 of [] \<Rightarrow> base | y # _ \<Rightarrow> y)"
      using ptr_next [of h base "us @ p # v1" z v2 base] assms(1) v by simp
    then have "h_ptr h z = base \<or> z < h_ptr h z" using assms(2) v by (auto simp: sorted_wrt_append split: list.split)
    moreover have "bp < z" using assms(5) v by simp
    ultimately show ?thesis using assms(4,6) by auto
  qed
  have from_base: "free_search h bp base = Some p"
    using search_path [of h base us p bp] assms(1) go stop by (auto simp: path_append)
  show ?thesis
  proof (cases "f \<in> set us \<or> f = p")
    case True
    then have "\<exists>zs. path h f zs p \<and> set zs \<subseteq> set us"
    proof
      assume "f \<in> set us"
      then obtain u1 u2 where u: "us = u1 @ f # u2" by (meson split_list)
      then have "path h f (f # u2) p" using assms(1) by (auto simp: path_append)
      then show ?thesis using u by (intro exI [of _ "f # u2"]) auto
    qed (auto intro: exI [of _ "[]"])
    then show ?thesis using search_path [of h f _ p bp] go stop by fastforce
  next
    case False
    then have "f \<in> set vs" using assms(3) by auto
    then obtain v1 v2 where v: "vs = v1 @ f # v2" by (meson split_list)
    then have "path h f (f # v2) base" using assms(1) by (auto simp: path_append)
    then show ?thesis using search_path [of h f "f # v2" base bp] go v from_base by fastforce
  qed
qed

text \<open>The block \<open>bp\<close> lies between two neighbours of the list.\<close>

lemma block_place:
  assumes "blocks_ok h B" "h_base h < bp" "0 < n" "{bp..<bp + n} \<inter> room B = {}"
  obtains us p k vs where "B = us @ (p, k) # vs" "p < bp" "p + k \<le> bp" "\<forall>(q, m)\<in>set vs. bp + n \<le> q"
proof -
  let ?P = "\<lambda>(q, m). q < bp"
  have "B \<noteq> []" "?P (hd B)" using assms(1,2) by (auto simp: blocks_ok_def)
  then have ne: "takeWhile ?P B \<noteq> []" by (cases B) auto
  then obtain us p k where u: "takeWhile ?P B = us @ [(p, k)]" by (metis prod.exhaust rev_exhaust)
  define vs where "vs = dropWhile ?P B"
  have B: "B = us @ (p, k) # vs" using takeWhile_dropWhile_id [of ?P B] u by (simp add: vs_def)
  have pos: "0 < m" if "(q, m) \<in> set B" "q \<noteq> h_base h" for q m
    using assms(1) that by (cases B) (auto simp: blocks_ok_def)
  have in_room: "q \<in> room B" if "(q, m) \<in> set B" "q \<noteq> h_base h" for q m
    using pos [OF that] that(1) by (force simp: room_def)
  have pb: "p < bp" using set_takeWhileD [of "(p, k)" ?P B] u by simp
  have "p + k \<le> bp"
  proof (rule ccontr)
    assume "\<not> p + k \<le> bp"
    then have "bp \<in> {p..<p + k}" using pb by simp
    then have "bp \<in> room B" by (auto simp: room_def B)
    then have "bp \<in> {bp..<bp + n} \<inter> room B" using assms(3) by simp
    then show False using assms(4) by blast
  qed
  moreover have "bp + n \<le> q" if q: "(q, m) \<in> set vs" for q m
  proof -
    have qB: "(q, m) \<in> set B" using q B by simp
    have srt: "sorted_wrt (\<lambda>x y. fst x + snd x < fst y) vs"
      using assms(1) by (simp add: B blocks_ok_def sorted_wrt_append)
    have "vs \<noteq> []" using q by auto
    then have "\<not> ?P (hd vs)" unfolding vs_def by (rule hd_dropWhile)
    then have "bp \<le> q" using q srt by (cases vs) force+
    then have "q \<in> room B" using in_room [OF qB] assms(2) by simp
    then have "q \<notin> {bp..<bp + n}" using assms(4) by blast
    then show ?thesis using \<open>bp \<le> q\<close> by simp
  qed
  ultimately show thesis using that B pb by blast
qed

text \<open>The second half of \<open>free_link\<close>: merging with the block in front.\<close>

lemma rep_join:
  assumes "rep (set_ptr p bp h) (us @ (p, k) # (bp, n) # vs)" "distinct (map fst (us @ (p, k) # (bp, n) # vs))"
    and "k + n < 2 ^ 32"
  shows "rep (if p + h_size h p = bp then set_ptr p (h_ptr h bp) (set_size p (h_size h p + h_size h bp) h) else set_ptr p bp h)
    (us @ (if p + k = bp then (p, k + n) # vs else (p, k) # (bp, n) # vs))"
proof -
  have sz: "h_size h p = k" "h_size h bp = n" "p \<noteq> bp" using assms(1,2) by (auto simp: rep_def)
  have e: "set_ptr p (h_ptr h bp) (set_size p (k + n) h) =
      set_ptr p (h_ptr (set_ptr p bp h) bp) (set_size p (k + n) (set_ptr p bp h))"
    using sz(3) by (simp add: set_ptr_def set_size_def)
  show ?thesis using rep_merge [OF assms, folded e] assms(1) sz by simp
qed

text \<open>What \<open>free_link\<close> makes of the list: the block is linked in, and merged with what it touches.\<close>

definition absorb :: "nat \<Rightarrow> nat \<Rightarrow> (nat \<times> nat) list \<Rightarrow> nat \<times> (nat \<times> nat) list" where
  "absorb bp n vs = (case vs of [] \<Rightarrow> (n, []) | x # vs' \<Rightarrow> if bp + n = fst x then (n + snd x, vs') else (n, vs))"

definition link_blocks :: "(nat \<times> nat) list \<Rightarrow> nat \<Rightarrow> nat \<Rightarrow> nat \<Rightarrow> nat \<Rightarrow> (nat \<times> nat) list \<Rightarrow> (nat \<times> nat) list" where
  "link_blocks us p k bp n vs =
    (let (n, vs) = absorb bp n vs
     in us @ (if p + k = bp then (p, k + n) # vs else (p, k) # (bp, n) # vs))"

lemma rep_free_link:
  assumes "rep h (us @ (p, k) # vs)" "distinct (map fst (us @ (p, k) # vs))" "bp \<notin> fst ` set (us @ (p, k) # vs)"
    and "h_size h bp = n" "h_base h < bp"
    and "k + fst (absorb bp n vs) < 2 ^ 32"
  shows "rep (free_link bp p h) (link_blocks us p k bp n vs)"
proof -
  define h1 where "h1 = set_ptr p bp (set_ptr bp (h_ptr h p) h)"
  define h2 where "h2 = (if bp + h_size h bp = h_ptr h p
    then set_ptr bp (h_ptr h (h_ptr h p)) (set_size bp (h_size h bp + h_size h (h_ptr h p)) h)
    else set_ptr bp (h_ptr h p) h)"
  obtain n2 vs2 where ab: "absorb bp n vs = (n2, vs2)" by fastforce
  have r1: "rep h1 (us @ (p, k) # (bp, n) # vs)"
    using rep_link [OF assms(1-3)] assms(4) by (simp add: h1_def)
  have q: "h_ptr h p = (case vs of [] \<Rightarrow> h_base h | x # _ \<Rightarrow> fst x)"
    using assms(1) ptr_next [of h "h_base h" "map fst us" p "map fst vs" "h_base h"]
    by (auto simp: rep_def split: list.splits)
  have r2: "rep (set_ptr p bp h2) (us @ (p, k) # (bp, n2) # vs2) \<and> distinct (map fst (us @ (p, k) # (bp, n2) # vs2))"
  proof (cases "vs \<noteq> [] \<and> bp + n = fst (hd vs)")
    case True
    then obtain x vs' where vs: "vs = x # vs'" "bp + n = fst x" by (cases vs) auto
    then have n2: "n2 = n + snd x" "vs2 = vs'" using ab by (simp_all add: absorb_def)
    have "h_size h (fst x) = snd x" using assms(1) vs(1) by (simp add: rep_def)
    then have "set_ptr p bp h2 = set_ptr bp (h_ptr h1 (fst x)) (set_size bp (n + snd x) h1)"
      using q vs assms(2-4) by (auto simp: h1_def h2_def set_ptr_def set_size_def fun_upd_twist)
    moreover have "rep (set_ptr bp (h_ptr h1 (fst x)) (set_size bp (n + snd x) h1)) ((us @ [(p, k)]) @ (bp, n + snd x) # vs')"
      by (rule rep_merge) (use r1 assms vs n2 ab in auto)
    ultimately show ?thesis using assms(2,3) vs n2 by auto
  next
    case False
    then have n2: "n2 = n" "vs2 = vs" using ab by (auto simp: absorb_def split: list.splits)
    have "bp + n \<noteq> h_ptr h p" using q False assms(5) by (auto split: list.splits)
    then have "set_ptr p bp h2 = h1" using assms(4) by (simp add: h1_def h2_def)
    then show ?thesis using r1 assms(2,3) n2 by auto
  qed
  have "k + n2 < 2 ^ 32" using assms(6) ab by simp
  from rep_join [OF conjunct1 [OF r2] conjunct2 [OF r2] this] show ?thesis
    unfolding free_link_def Let_def h2_def [symmetric] link_blocks_def ab by simp
qed

lemma free_link_fields [simp]:
  "h_base (free_link bp p h) = h_base h" "brk (free_link bp p h) = brk h" "brk_max (free_link bp p h) = brk_max h"
  "freep (free_link bp p h) = p"
  by (simp_all add: free_link_def Let_def)

lemma sorted_distinct: "sorted_wrt (\<lambda>x y. fst x + snd x < fst y) B \<Longrightarrow> sorted_wrt (<) (map fst (B :: (nat \<times> nat) list))"
  by (induction B) auto

lemma blocks_distinct: "blocks_ok h B \<Longrightarrow> distinct (map fst B)"
  using sorted_distinct strict_sorted_iff by (auto simp: blocks_ok_def)

lemma room_append: "room (us @ vs) = room us \<union> room vs" "room ((p, n) # vs) = {p..<p + n} \<union> room vs" "room [] = {}"
  by (auto simp: room_def)

lemma blocks_ok_split:
  "blocks_ok h (us @ x # vs) \<longleftrightarrow> hd (us @ [x]) = (h_base h, 0) \<and>
    sorted_wrt (\<lambda>x y. fst x + snd x < fst y) us \<and> sorted_wrt (\<lambda>x y. fst x + snd x < fst y) vs \<and>
    (\<forall>y\<in>set us. fst y + snd y < fst x) \<and> (\<forall>z\<in>set vs. fst x + snd x < fst z) \<and>
    (\<forall>y\<in>set us. \<forall>z\<in>set vs. fst y + snd y < fst z) \<and>
    (\<forall>y\<in>set (tl (us @ [x])) \<union> set vs. 0 < snd y \<and> fst y + snd y \<le> brk h div 16)"
  by (cases us) (auto simp: blocks_ok_def sorted_wrt_append)

text \<open>The linked list is in order again and has the room of the block.\<close>

lemma absorb_facts:
  assumes "absorb bp n vs = (n', vs')" "sorted_wrt (\<lambda>x y. fst x + snd x < fst y) vs" "\<forall>x\<in>set vs. bp + n \<le> fst x"
    and "\<forall>x\<in>set vs. fst x + snd x \<le> m" "bp + n \<le> m"
  shows "n \<le> n'" "sorted_wrt (\<lambda>x y. fst x + snd x < fst y) vs'" "\<forall>x\<in>set vs'. bp + n' < fst x" "set vs' \<subseteq> set vs"
    and "bp + n' \<le> m" "room ((bp, n') # vs') = {bp..<bp + n} \<union> room vs"
proof -
  consider "vs = []" | x xs where "vs = x # xs" "bp + n = fst x" | x xs where "vs = x # xs" "bp + n \<noteq> fst x"
    by (cases vs) auto
  then have "n \<le> n' \<and> sorted_wrt (\<lambda>x y. fst x + snd x < fst y) vs' \<and> (\<forall>x\<in>set vs'. bp + n' < fst x) \<and> set vs' \<subseteq> set vs \<and>
    bp + n' \<le> m \<and> room ((bp, n') # vs') = {bp..<bp + n} \<union> room vs"
  proof cases
    case (2 x xs)
    then have "n' = n + snd x" "vs' = xs" using assms(1) by (auto simp: absorb_def)
    moreover have "{bp..<bp + (n + snd x)} = {bp..<bp + n} \<union> {fst x..<fst x + snd x}" using 2(2) by auto
    ultimately show ?thesis using assms(2-5) 2 by (cases x) (auto simp: room_append)
  next
    case (3 x xs)
    then have n: "n' = n" "vs' = vs" using assms(1) by (auto simp: absorb_def)
    have "bp + n < fst x" using assms(3) 3 by (simp add: order_less_le)
    then have "\<forall>y\<in>set vs. bp + n < fst y" using assms(2) 3(1) by fastforce
    then show ?thesis using assms(2,5) n by (simp add: room_append)
  qed (use assms in \<open>auto simp: absorb_def room_append\<close>)
  then show "n \<le> n'" "sorted_wrt (\<lambda>x y. fst x + snd x < fst y) vs'" "\<forall>x\<in>set vs'. bp + n' < fst x" "set vs' \<subseteq> set vs"
    and "bp + n' \<le> m" "room ((bp, n') # vs') = {bp..<bp + n} \<union> room vs" by blast+
qed

lemma link_blocks_ok:
  assumes "blocks_ok h (us @ (p, k) # vs)" "p < bp" "p + k \<le> bp" "\<forall>x\<in>set vs. bp + n \<le> fst x" "0 < n" "bp + n \<le> brk h div 16"
    and "h_base h' = h_base h" "brk h' = brk h"
  shows "blocks_ok h' (link_blocks us p k bp n vs)"
    and "room (link_blocks us p k bp n vs) = room (us @ (p, k) # vs) \<union> {bp..<bp + n}"
    and "bp + fst (absorb bp n vs) \<le> brk h div 16"
proof -
  obtain n' vs' where ab: "absorb bp n vs = (n', vs')" by fastforce
  note S = assms(1) [unfolded blocks_ok_split]
  have "\<forall>x\<in>set vs. fst x + snd x \<le> brk h div 16" using S by simp
  note F = absorb_facts [OF ab _ assms(4) this assms(6)]
  have srt: "sorted_wrt (\<lambda>x y. fst x + snd x < fst y) vs" using S by simp
  have U: "\<forall>y\<in>set us. \<forall>z\<in>set vs'. fst y + snd y < fst z" "\<forall>y\<in>set vs'. 0 < snd y \<and> fst y + snd y \<le> brk h div 16"
    using S F(4) [OF srt] by blast+
  show "bp + fst (absorb bp n vs) \<le> brk h div 16" using F(5) [OF srt] by (simp add: ab)
  show "room (link_blocks us p k bp n vs) = room (us @ (p, k) # vs) \<union> {bp..<bp + n}"
  proof -
    have "{p..<p + k} \<union> {bp..<bp + n'} = {p..<p + (k + n')}" if "p + k = bp" using that by auto
    then show ?thesis
      using F(6) [OF srt] by (auto simp: link_blocks_def ab room_append)
  qed
  show "blocks_ok h' (link_blocks us p k bp n vs)"
  proof (cases "p + k = bp")
    case True
    then have "(p, k) \<noteq> (h_base h, 0)" using assms(2) by auto
    then have "us \<noteq> []" using S by (cases us) auto
    then have us: "hd (us @ [(p, k + n')]) = hd (us @ [(p, k)])" "set (tl (us @ [(p, k + n')])) = insert (p, k + n') (set (tl us))"
        "set (tl (us @ [(p, k)])) = insert (p, k) (set (tl us))"
      by (cases us; simp)+
    have "blocks_ok h' (us @ (p, k + n') # vs')"
      unfolding blocks_ok_split assms(7,8) us
      using S U F(1,2,3,5) [OF srt] True assms(5) unfolding us by auto
    then show ?thesis using True by (simp add: link_blocks_def ab)
  next
    case False
    have "blocks_ok h' (us @ (p, k) # (bp, n') # vs')"
      unfolding blocks_ok_split assms(7,8)
      using S U F(1,2,3,5) [OF srt] False assms(2,3,5) by auto
    then show ?thesis using False by (simp add: link_blocks_def ab)
  qed
qed

text \<open>
  \<open>free\<close>: a block that is not in the list becomes part of it. The list is in order and without
  touching blocks again, its room has grown by the block, and no header elsewhere changes.
\<close>

definition block :: "heap \<Rightarrow> (nat \<times> nat) list \<Rightarrow> nat \<Rightarrow> nat \<Rightarrow> bool" where
  "block h B bp n \<longleftrightarrow> h_size h bp = n \<and> 0 < n \<and> h_base h < bp \<and> bp + n \<le> brk h div 16 \<and> {bp..<bp + n} \<inter> room B = {}"

lemma free_correct:
  assumes "heap_inv h B" "block h B bp n"
  shows "\<exists>h' B'. free (bp + 1) h = Some h' \<and> heap_inv h' B' \<and> room B' = room B \<union> {bp..<bp + n} \<and>
    h_base h' = h_base h \<and> brk h' = brk h \<and> brk_max h' = brk_max h \<and>
    (\<forall>x. x \<notin> room B' \<and> x \<noteq> h_base h \<longrightarrow> same_unit h h' x) \<and> (\<exists>x\<in>set B'. n \<le> snd x)"
proof -
  have I: "rep h B" "blocks_ok h B" "freep h \<in> fst ` set B" "0 < h_base h" "h_base h < brk h div 16"
      "brk h mod 16 = 0" "brk h \<le> brk_max h" "brk_max h < 2 ^ 36" using assms(1) by (simp_all add: heap_inv_def)
  have K: "h_size h bp = n" "0 < n" "h_base h < bp" "bp + n \<le> brk h div 16" "{bp..<bp + n} \<inter> room B = {}"
    using assms(2) by (simp_all add: block_def)
  obtain us p k vs where B: "B = us @ (p, k) # vs" "p < bp" "p + k \<le> bp" and vs: "\<forall>(q, m)\<in>set vs. bp + n \<le> q"
    by (rule block_place [OF I(2) K(3,2,5)])
  have d: "distinct (map fst (us @ (p, k) # vs))" using blocks_distinct [OF I(2)] by (simp add: B(1))
  have srt: "sorted_wrt (<) (map fst us @ p # map fst vs)"
    using I(2) sorted_distinct [of B] by (simp add: blocks_ok_def B(1))
  have base: "h_base h \<le> p" using I(2) srt by (cases us) (auto simp: blocks_ok_def B(1))
  have nin: "bp \<notin> fst ` set (us @ (p, k) # vs)"
    using srt B(2) vs K(2) by (fastforce simp: sorted_wrt_append)
  have "free_search h bp (freep h) = Some p"
  proof (rule search_found)
    show "path h (h_base h) (map fst us @ p # map fst vs) (h_base h)" using I(1) by (simp add: rep_def B(1))
    show "freep h \<in> set (map fst us @ p # map fst vs)" using I(3) by (auto simp: B(1))
    show "\<forall>q\<in>set (map fst vs). bp < q" using vs K(2) by fastforce
  qed (use srt B(2) base in auto)
  then have f: "free (bp + 1) h = Some (free_link bp p h)" by (simp add: free_def)
  let ?B = "link_blocks us p k bp n vs"
  have vs': "\<forall>x\<in>set vs. bp + n \<le> fst x" using vs by auto
  note L = link_blocks_ok [OF I(2) [unfolded B(1)] B(2,3) vs' K(2,4) free_link_fields(1,2)]
  have small: "k + fst (absorb bp n vs) < 2 ^ 32"
  proof -
    have "brk h div 16 < 2 ^ 32" using I(7,8) by simp
    moreover have "k + fst (absorb bp n vs) \<le> brk h div 16" using L(3) B(3) by linarith
    ultimately show ?thesis by linarith
  qed
  have rep: "rep (free_link bp p h) ?B"
    using rep_free_link [OF _ d nin K(1,3) small] I(1) by (simp add: B(1))
  have ok: "blocks_ok (free_link bp p h) ?B" and room: "room ?B = room B \<union> {bp..<bp + n}"
    using L(1,2) by (simp_all add: B(1))
  have "p \<in> fst ` set ?B" by (cases "absorb bp n vs") (auto simp: link_blocks_def)
  then have inv: "heap_inv (free_link bp p h) ?B" using rep ok I by (simp add: heap_inv_def)
  have "same_unit h (free_link bp p h) x" if x: "x \<notin> room ?B" "x \<noteq> h_base h" for x
  proof -
    have "x \<noteq> bp" using x K(2) by (auto simp: room)
    moreover have "x \<noteq> p" using in_room [OF I(2), of p] x by (auto simp: room B(1))
    ultimately show ?thesis by (simp add: same_unit_def free_link_def Let_def)
  qed
  moreover have "\<exists>x\<in>set ?B. n \<le> snd x"
  proof -
    obtain n' vs' where ab: "absorb bp n vs = (n', vs')" by fastforce
    then have "n \<le> n'" by (auto simp: absorb_def split: list.splits if_splits)
    then show ?thesis by (auto simp: link_blocks_def ab)
  qed
  ultimately show ?thesis using f inv room by (intro exI [of _ "free_link bp p h"] exI [of _ ?B]) simp
qed

section \<open>\<open>malloc\<close>\<close>

text \<open>\<open>morecore\<close> adds the memory between the old and the new break, at least as much as is asked.\<close>

definition grown :: "heap \<Rightarrow> (nat \<times> nat) list \<Rightarrow> heap \<Rightarrow> (nat \<times> nat) list \<Rightarrow> bool" where
  "grown h B h' B' \<longleftrightarrow> heap_inv h' B' \<and> h_base h' = h_base h \<and> brk h \<le> brk h' \<and>
    room B' = room B \<union> {brk h div 16..<brk h' div 16} \<and>
    (\<forall>x. x \<notin> room B' \<and> x \<noteq> h_base h \<longrightarrow> same_unit h h' x)"

lemma grown_refl: "heap_inv h B \<Longrightarrow> grown h B h B"
  by (simp add: grown_def same_unit_def)

definition more :: "nat \<Rightarrow> nat" where
  "more nu = (if nu < 4096 then 4096 else nu)"

lemma room_below: "blocks_ok h B \<Longrightarrow> x \<in> room B \<Longrightarrow> h_base h < x \<and> x < brk h div 16"
  by (cases B) (fastforce simp: blocks_ok_def room_def)+

lemma morecore_correct:
  assumes "heap_inv h B" "more nu * 16 < 2 ^ 31"
  shows "morecore nu h = Some (0, h) \<and> brk_max h < brk h + more nu * 16 \<or>
    (\<exists>h' B'. morecore nu h = Some (freep h', h') \<and> freep h' \<noteq> 0 \<and> grown h B h' B' \<and> (\<exists>x\<in>set B'. nu \<le> snd x) \<and>
      brk h + more nu * 16 \<le> brk_max h)"
proof -
  define m where "m = more nu"
  have m: "0 < m" "nu \<le> m" "m * 16 < 2 ^ 31" using assms(2) by (auto simp: m_def more_def)
  have sint: "sint (of_nat (m * 16) :: u32) = int (m * 16)"
    using m(3) by (simp only: signed_of_nat) (simp add: signed_take_bit_int_eq_self del: of_nat_mult)
  have I: "blocks_ok h B" "brk h mod 16 = 0" "brk h \<le> brk_max h" "brk_max h < 2 ^ 36" "h_base h < brk h div 16" "0 < h_base h"
    using assms(1) by (simp_all add: heap_inv_def)
  show ?thesis
  proof (cases "brk h + m * 16 \<le> brk_max h")
    case False
    then show ?thesis
      by (simp add: morecore_def sbrk_def Let_def more_def [symmetric] m_def [symmetric] sint del: of_nat_mult)
  next
    case True
    define hp where "hp = brk h div 16"
    define h1 where "h1 = set_size hp m (h\<lparr>brk := brk h + m * 16\<rparr>)"
    have b: "brk h = hp * 16" using I(2) div_mult_mod_eq [of "brk h" 16] by (simp add: hp_def)
    have e: "morecore nu h = map_option (\<lambda>h. (freep h, h)) (free (hp + 1) h1)"
      using True m(1)
      by (simp add: morecore_def sbrk_def Let_def more_def [symmetric] m_def [symmetric] sint h1_def hp_def del: of_nat_mult)
    have out: "\<forall>x\<in>room B. x < hp" using room_below [OF I(1)] by (auto simp: hp_def)
    have nin: "fst x \<noteq> hp" if "x \<in> set B" for x
      using I(1,5) that by (cases B) (auto simp: blocks_ok_def hp_def)
    have f1: "h_ptr h1 = h_ptr h" "h_base h1 = h_base h" "freep h1 = freep h" "brk h1 = brk h + m * 16" "brk_max h1 = brk_max h"
        "h_size h1 = (h_size h)(hp := m)"
      using m(3) by (simp_all add: h1_def)
    have inv1: "heap_inv h1 B"
    proof -
      have "rep h1 B"
        using assms(1) nin path_frame [of h "h_base h" "map fst B" "h_base h" h1] by (auto simp: heap_inv_def rep_def f1)
      moreover have "blocks_ok h1 B" using I(1) by (auto simp: blocks_ok_def f1 dest!: bspec)
      ultimately show ?thesis using assms(1) True by (auto simp: heap_inv_def f1)
    qed
    have "block h1 B hp m"
      using m(1) I(5) out by (fastforce simp: block_def f1 b hp_def [symmetric])
    from free_correct [OF inv1 this] obtain h' B' where F: "free (hp + 1) h1 = Some h'" "heap_inv h' B'"
        "room B' = room B \<union> {hp..<hp + m}" "h_base h' = h_base h1" "brk h' = brk h1"
        "\<forall>x. x \<notin> room B' \<and> x \<noteq> h_base h1 \<longrightarrow> same_unit h1 h' x" "\<exists>x\<in>set B'. m \<le> snd x" by blast
    have "same_unit h h1 x" if "x \<notin> room B'" for x using that m(1) by (auto simp: F(3) f1 same_unit_def)
    then have "same_unit h h' x" if "x \<notin> room B'" "x \<noteq> h_base h" for x
      using F(6) that same_unit_trans f1(2) by metis
    then have "grown h B h' B'" using F by (simp add: grown_def f1 b)
    moreover have "freep h' \<noteq> 0"
    proof -
      have "h_base h' \<le> fst x" if "x \<in> set B'" for x
        using F(2) that by (cases B') (auto simp: heap_inv_def blocks_ok_def)
      then show ?thesis using F(2) by (fastforce simp: heap_inv_def)
    qed
    ultimately show ?thesis using e F(1,7) m(2) True unfolding m_def by (fastforce intro: order.trans)
  qed
qed

lemma base_least: "blocks_ok h B \<Longrightarrow> x \<in> set B \<Longrightarrow> h_base h \<le> fst x"
  by (cases B) (auto simp: blocks_ok_def)

text \<open>Taking the block \<open>p\<close> behind \<open>prevp\<close>, as the loop of \<open>malloc\<close> does: whole, or its end.\<close>

definition take_block :: "nat \<Rightarrow> nat \<Rightarrow> heap \<Rightarrow> nat \<times> heap" where
  "take_block nunits prevp h =
    (let p = h_ptr h prevp;
         (p, h) =
         (if h_size h p = nunits then (p, set_ptr prevp (h_ptr h p) h)
          else
            let h = set_size p (h_size h p - nunits) h;
                p = p + h_size h p
            in (p, set_size p nunits h))
     in (p + 1, h\<lparr>freep := prevp\<rparr>))"

lemma loop_take: "nunits \<le> h_size h (h_ptr h prevp) \<Longrightarrow> malloc_loop nunits prevp h = Some (take_block nunits prevp h)"
  by (subst malloc_loop.simps) (simp add: take_block_def Let_def split: prod.split)

lemma loop_path:
  "path h (h_ptr h a) zs c \<Longrightarrow> \<forall>z\<in>set zs. h_size h z < nunits \<and> z \<noteq> freep h \<Longrightarrow>
    malloc_loop nunits a h = malloc_loop nunits (last (a # zs)) h \<and> h_ptr h (last (a # zs)) = c"
proof (induction zs arbitrary: a)
  case (Cons z zs)
  then have "malloc_loop nunits a h = malloc_loop nunits z h"
    by (subst malloc_loop.simps) auto
  then show ?case using Cons by auto
qed simp

text \<open>The block behind another one, which is not the base, is its neighbour in the list.\<close>

lemma neighbour:
  assumes "rep h B" "blocks_ok h B" "prev \<in> fst ` set B" "h_ptr h prev = p" "p \<noteq> h_base h"
  obtains xs k0 k ys where "B = xs @ (prev, k0) # (p, k) # ys" "h_size h p = k" "0 < k"
proof -
  obtain xs k0 zs where B: "B = xs @ (prev, k0) # zs" using assms(3) by (metis imageE prod.collapse split_list)
  have "h_ptr h prev = (case map fst zs of [] \<Rightarrow> h_base h | y # _ \<Rightarrow> y)"
    using assms(1) ptr_next [of h "h_base h" "map fst xs" prev "map fst zs"] by (simp add: rep_def B)
  then obtain k ys where zs: "zs = (p, k) # ys" using assms(4,5) by (cases zs) auto
  have "h_size h p = k" using assms(1) by (simp add: rep_def B zs)
  moreover have "0 < k" using assms(2) by (cases xs) (auto simp: blocks_ok_def B zs)
  ultimately show thesis using that B zs by blast
qed

lemma take_correct:
  assumes "heap_inv h B" "prev \<in> fst ` set B" "nu \<le> h_size h (h_ptr h prev)" "0 < nu" "take_block nu prev h = (r, h')"
  shows "r \<noteq> 0 \<and> (\<exists>B'. heap_inv h' B' \<and> block h' B' (r - 1) nu \<and> {r - 1..<r - 1 + nu} \<subseteq> room B \<and>
    room B' = room B - {r - 1..<r - 1 + nu} \<and> h_base h' = h_base h \<and> brk h' = brk h \<and>
    (\<forall>x. x \<notin> room B \<and> x \<noteq> h_base h \<longrightarrow> same_unit h h' x))"
proof -
  let ?p = "h_ptr h prev"
  have I: "rep h B" "blocks_ok h B" "freep h \<in> fst ` set B" "brk h \<le> brk_max h" "brk_max h < 2 ^ 36"
    using assms(1) by (simp_all add: heap_inv_def)
  have "h_size h (h_base h) = 0" using I(1,2) by (cases B) (auto simp: rep_def blocks_ok_def)
  then have "?p \<noteq> h_base h" using assms(3,4) by auto
  then obtain xs k0 k ys where B: "B = xs @ (prev, k0) # (?p, k) # ys" "h_size h ?p = k" "0 < k"
    using neighbour [OF I(1,2) assms(2) refl] by blast
  have k: "nu \<le> k" using assms(3) B(2) by simp
  define us where "us = xs @ [(prev, k0)]"
  have B': "B = us @ (?p, k) # ys" by (simp add: B(1) us_def)
  have ne: "us \<noteq> []" by (simp add: us_def)
  note S = I(2) [unfolded B' blocks_ok_split hd_append2 [OF ne] tl_append2 [OF ne]]
  have d: "distinct (map fst B)" by (rule blocks_distinct [OF I(2)])
  have P: "path h (h_base h) (map fst xs) prev" "path h (h_ptr h ?p) (map fst ys) (h_base h)"
    using I(1) by (auto simp: rep_def B(1) path_append)
  have sz: "\<forall>x\<in>set us \<union> set ys. h_size h (fst x) = snd x" using I(1) by (auto simp: rep_def B')
  have bnd: "?p + k \<le> brk h div 16" "h_base h < ?p"
    using S base_least [OF I(2), of "(?p, k)"] \<open>?p \<noteq> h_base h\<close> by (auto simp: B')
  have disj: "x \<notin> {?p..<?p + k}" if "x \<in> room us \<or> x \<in> room ys" for x
    using S that by (fastforce simp: room_def)
  have room: "room B = room us \<union> {?p..<?p + k} \<union> room ys" by (auto simp: B' room_append)
  define q where "q = ?p + (k - nu)"
  have q: "{q..<q + nu} \<subseteq> {?p..<?p + k}" "{?p..<?p + (k - nu)} = {?p..<?p + k} - {q..<q + nu}" "q + nu = ?p + k"
    using k by (auto simp: q_def)
  have small: "k < 2 ^ 32" using bnd(1) I(4,5) by auto
  obtain B2 where B2: "rep h' B2" "blocks_ok h' B2" "prev \<in> fst ` set B2" "room B2 = room B - {q..<q + nu}"
    and h': "r = q + 1" "freep h' = prev" "h_base h' = h_base h" "brk h' = brk h" "brk_max h' = brk_max h"
      "h_size h' q = nu" "\<forall>x. x \<notin> room B \<and> x \<noteq> prev \<longrightarrow> same_unit h h' x"
  proof (cases "k = nu")
    case True
    have h': "r = q + 1" "h' = (set_ptr prev (h_ptr h ?p) h)\<lparr>freep := prev\<rparr>"
      using assms(5) True B(2) by (auto simp: take_block_def q_def Let_def)
    have "path (set_ptr prev (h_ptr h ?p) h) (h_base h) (map fst xs) prev"
      by (rule path_frame [OF P(1)]) (use d in \<open>auto simp: B(1)\<close>)
    moreover have "path (set_ptr prev (h_ptr h ?p) h) (h_ptr h ?p) (map fst ys) (h_base h)"
      by (rule path_frame [OF P(2)]) (use d in \<open>auto simp: B(1)\<close>)
    ultimately have rep: "rep h' (us @ ys)" using sz by (auto simp: h' rep_def path_append us_def)
    have "blocks_ok h' (us @ ys)"
      using I(2) by (auto simp: blocks_ok_def B' us_def sorted_wrt_append h' hd_append)
    moreover have "room (us @ ys) = room B - {q..<q + nu}"
      using disj True by (auto simp: room_append room q_def)
    ultimately show ?thesis using that [OF rep] h' True B(2) q_def by (auto simp: us_def same_unit_def)
  next
    case False
    have h': "r = q + 1" "h' = (set_size q nu (set_size ?p (k - nu) h))\<lparr>freep := prev\<rparr>" 
      using assms(5) False B(2) k small by (auto simp: take_block_def q_def Let_def)
    have qp: "q \<noteq> ?p" "q \<in> {?p..<?p + k}" using False k assms(4) by (auto simp: q_def)
    have "\<forall>x\<in>set us \<union> set ys. fst x \<noteq> q \<and> fst x \<noteq> ?p" using S qp(2) by fastforce
    then have rep: "rep h' (us @ (?p, k - nu) # ys)"
      using I(1) sz qp small k path_frame [of h "h_base h" "map fst B" "h_base h" h']
      by (auto simp: rep_def h' B')
    have "blocks_ok h' (us @ (?p, k - nu) # ys)"
      unfolding blocks_ok_split hd_append2 [OF ne] tl_append2 [OF ne] using S False k by (auto simp: h')
    moreover have "room (us @ (?p, k - nu) # ys) = room B - {q..<q + nu}"
      using disj q by (auto simp: room_append room)
    ultimately show ?thesis using that [OF rep] h' qp small k by (auto simp: us_def room same_unit_def)
  qed
  have T: "\<forall>x. x \<notin> room B \<and> x \<noteq> h_base h \<longrightarrow> same_unit h h' x" using h'(7) in_room [OF I(2) assms(2)] by metis
  have "heap_inv h' B2" using assms(1) B2(1-3) h'(2-5) by (simp add: heap_inv_def)
  moreover have "block h' B2 q nu"
    using h' assms(4) bnd q(1,3) k B2(4) by (auto simp: block_def q_def)
  moreover have "{q..<q + nu} \<subseteq> room B" using q(1) room by blast
  moreover have "r \<noteq> 0" "r - 1 = q" using h'(1) by simp_all
  ultimately show ?thesis using h'(3,4) B2(4) T by metis
qed

text \<open>Going round the list: the loop finds the first block that is large enough.\<close>

lemma cycle:
  assumes "heap_inv h B"
  obtains cyc k where "set (cyc @ [(freep h, k)]) = set B" "distinct (map fst (cyc @ [(freep h, k)]))"
    "path h (h_ptr h (freep h)) (map fst cyc @ [freep h]) (h_ptr h (freep h))"
proof -
  obtain us k vs where B: "B = us @ (freep h, k) # vs"
    using assms unfolding heap_inv_def by (metis imageE prod.collapse split_list)
  have "path h (h_base h) (map fst us @ freep h # map fst vs) (h_base h)" using assms by (simp add: heap_inv_def rep_def B)
  then have "path h (h_ptr h (freep h)) (map fst (vs @ us) @ [freep h]) (h_ptr h (freep h))"
    by (auto simp: path_append)
  moreover have "distinct (map fst B)" using assms by (intro blocks_distinct [of h]) (simp add: heap_inv_def)
  then have "distinct (map fst ((vs @ us) @ [(freep h, k)]))" by (auto simp: B)
  ultimately show thesis by (intro that [of "vs @ us" k]) (auto simp: B)
qed

lemma loop_found:
  assumes "heap_inv h B" "\<exists>x\<in>set B. nu \<le> snd x"
  shows "\<exists>prev. prev \<in> fst ` set B \<and> nu \<le> h_size h (h_ptr h prev) \<and> malloc_loop nu (freep h) h = Some (take_block nu prev h)"
proof -
  obtain cyc k where C: "set (cyc @ [(freep h, k)]) = set B" "distinct (map fst (cyc @ [(freep h, k)]))"
      "path h (h_ptr h (freep h)) (map fst cyc @ [freep h]) (h_ptr h (freep h))" by (rule cycle [OF assms(1)])
  obtain zs x rest where Z: "cyc @ [(freep h, k)] = zs @ x # rest" "nu \<le> snd x" "\<forall>z\<in>set zs. \<not> nu \<le> snd z"
    using assms(2) C(1) split_list_first_propE [of "cyc @ [(freep h, k)]" "\<lambda>x. nu \<le> snd x"] by metis
  have sz: "\<forall>y\<in>set B. h_size h (fst y) = snd y" using assms(1) by (simp add: heap_inv_def rep_def)
  have sub: "set zs \<union> {x} \<subseteq> set B" using C(1) Z(1) by auto
  have "path h (h_ptr h (freep h)) (map fst (zs @ x # rest)) (h_ptr h (freep h))"
    using C(3) unfolding Z(1) [symmetric] by simp
  then have p: "path h (h_ptr h (freep h)) (map fst zs) (fst x)" by (auto simp: path_append)
  have "freep h \<in> fst ` set (x # rest)"
    using arg_cong [OF Z(1), of last] by (metis last_appendR last_in_set last_snoc fst_conv image_eqI list.distinct(1))
  then have "freep h \<in> set (map fst (x # rest))" by simp
  then have "freep h \<notin> set (map fst zs)"
    using C(2) unfolding Z(1) map_append distinct_append by blast
  then have "\<forall>z\<in>set (map fst zs). z \<noteq> freep h" by blast
  moreover have "\<forall>z\<in>set (map fst zs). h_size h z < nu" using Z(3) sub sz by fastforce
  ultimately have L: "malloc_loop nu (freep h) h = malloc_loop nu (last (freep h # map fst zs)) h"
      "h_ptr h (last (freep h # map fst zs)) = fst x"
    using loop_path [OF p, of nu] by auto
  have "last (freep h # map fst zs) \<in> fst ` set B"
    using sub assms(1) by (cases zs rule: rev_cases) (auto simp: heap_inv_def)
  moreover have "nu \<le> h_size h (h_ptr h (last (freep h # map fst zs)))" using L(2) Z(2) sz sub by simp
  ultimately show ?thesis using L(1) loop_take by metis
qed

lemma loop_round:
  assumes "heap_inv h B" "\<forall>x\<in>set B. snd x < nu"
  shows "malloc_loop nu (freep h) h =
    Option.bind (morecore nu h) (\<lambda>(p, h). if p = 0 then Some (0, h) else malloc_loop nu p h)"
proof -
  obtain cyc k where C: "set (cyc @ [(freep h, k)]) = set B" "distinct (map fst (cyc @ [(freep h, k)]))"
      "path h (h_ptr h (freep h)) (map fst cyc @ [freep h]) (h_ptr h (freep h))" by (rule cycle [OF assms(1)])
  have sz: "\<forall>y\<in>set B. h_size h (fst y) < nu" using assms by (simp add: heap_inv_def rep_def)
  then have "\<forall>z\<in>set (map fst cyc). h_size h z < nu" using C(1) by auto
  moreover have "freep h \<notin> set (map fst cyc)" using C(2) by simp
  ultimately have "\<forall>z\<in>set (map fst cyc). h_size h z < nu \<and> z \<noteq> freep h" by blast
  moreover have "path h (h_ptr h (freep h)) (map fst cyc) (freep h)" using C(3) by (auto simp: path_append)
  ultimately have L: "malloc_loop nu (freep h) h = malloc_loop nu (last (freep h # map fst cyc)) h"
      "h_ptr h (last (freep h # map fst cyc)) = freep h"
    using loop_path by blast+
  have "(freep h, k) \<in> set B" using C(1) by auto
  then have "h_size h (freep h) < nu" using sz by fastforce
  then show ?thesis unfolding L(1) using L(2) by (subst malloc_loop.simps) simp
qed

text \<open>The state before the first call, as the loader leaves it.\<close>

definition heap_fresh :: "heap \<Rightarrow> bool" where
  "heap_fresh h \<longleftrightarrow> freep h = 0 \<and> 0 < h_base h \<and> h_base h < brk h div 16 \<and> brk h mod 16 = 0 \<and>
    brk h \<le> brk_max h \<and> brk_max h < 2 ^ 36"

lemma fresh_init:
  assumes "heap_fresh h"
  shows "heap_inv (set_size (h_base h) 0 (set_ptr (h_base h) (h_base h) (h\<lparr>freep := h_base h\<rparr>))) [(h_base h, 0)]"
  using assms by (simp add: heap_fresh_def heap_inv_def rep_def blocks_ok_def)

text \<open>The block that is taken after the memory has grown, or has not, is new and leaves the others alone.\<close>

lemma take_grown:
  assumes "heap_inv h B" "grown h B h2 B2" "prev \<in> fst ` set B2" "nu \<le> h_size h2 (h_ptr h2 prev)" "0 < nu"
    and "take_block nu prev h2 = (r, h')"
  shows "r \<noteq> 0 \<and> (\<exists>B'. heap_inv h' B' \<and> block h' B' (r - 1) nu \<and>
    room B' \<union> {r - 1..<r - 1 + nu} = room B \<union> {brk h div 16..<brk h' div 16} \<and>
    (\<forall>b n. block h B b n \<longrightarrow> block h' B' b n \<and> {b..<b + n} \<inter> {r - 1..<r - 1 + nu} = {} \<and>
      (\<forall>x\<in>{b..<b + n}. same_unit h h' x)))"
proof -
  have G: "heap_inv h2 B2" "h_base h2 = h_base h" "brk h \<le> brk h2" "room B2 = room B \<union> {brk h div 16..<brk h2 div 16}"
      "\<forall>x. x \<notin> room B2 \<and> x \<noteq> h_base h \<longrightarrow> same_unit h h2 x" using assms(2) by (simp_all add: grown_def)
  obtain B' where T: "r \<noteq> 0" "heap_inv h' B'" "block h' B' (r - 1) nu" "{r - 1..<r - 1 + nu} \<subseteq> room B2"
      "room B' = room B2 - {r - 1..<r - 1 + nu}" "h_base h' = h_base h2" "brk h' = brk h2"
      "\<forall>x. x \<notin> room B2 \<and> x \<noteq> h_base h2 \<longrightarrow> same_unit h2 h' x"
    using take_correct [OF G(1) assms(3-6)] by blast
  have "block h' B' b n \<and> {b..<b + n} \<inter> {r - 1..<r - 1 + nu} = {} \<and> (\<forall>x\<in>{b..<b + n}. same_unit h h' x)"
    if b: "block h B b n" for b n
  proof -
    have out: "x \<notin> room B2" if "b \<le> x" "x < b + n" for x
      using b that by (auto simp: block_def G(4))
    moreover have "x \<noteq> h_base h" if "b \<le> x" for x using b that by (simp add: block_def)
    ultimately have U: "\<forall>x\<in>{b..<b + n}. same_unit h h' x"
      using T(8) G(2,5) same_unit_trans by (metis atLeastLessThan_iff)
    then have "h_size h' b = n" using b by (simp add: block_def same_unit_def)
    moreover have "b + n \<le> brk h' div 16" using b T(7) div_le_mono [OF G(3), of 16] by (simp add: block_def)
    ultimately have "block h' B' b n \<and> {b..<b + n} \<inter> {r - 1..<r - 1 + nu} = {}"
      using b out T(4,5,6) G(2) by (fastforce simp: block_def)
    then show ?thesis using U by blast
  qed
  moreover have "room B' \<union> {r - 1..<r - 1 + nu} = room B \<union> {brk h div 16..<brk h' div 16}"
    using T(4,5,7) G(4) by auto
  ultimately show ?thesis using T(1-3) by blast
qed

text \<open>
  C37: \<open>malloc\<close> returns for every request that fits an \<open>int\<close>, on the first call or a later
  one. It returns null exactly if no free block is large enough and the memory cannot grow by what
  is asked; then nothing changes. Otherwise it returns a block of its own: at least as long as
  asked, from the room of the free list or above the old break, disjoint from all free blocks and
  all blocks in use. The pointer word and the size word of every unit of the blocks in use, headers
  and data, stay as they were.
\<close>

theorem malloc_fresh_block:
  assumes "heap_inv h B \<or> heap_fresh h \<and> B = [(h_base h, 0)]" "nbytes < 2 ^ 32" "more (units nbytes) * 16 < 2 ^ 31"
  shows "\<exists>r h' B'. malloc nbytes h = Some (r, h') \<and> heap_inv h' B' \<and> nbytes \<le> 16 * (units nbytes - 1) \<and>
    (if (\<forall>x\<in>set B. snd x < units nbytes) \<and> brk_max h < brk h + more (units nbytes) * 16
     then r = 0 \<and> B' = B \<and> brk h' = brk h
     else r \<noteq> 0 \<and> block h' B' (r - 1) (units nbytes) \<and>
       room B' \<union> {r - 1..<r - 1 + units nbytes} = room B \<union> {brk h div 16..<brk h' div 16} \<and>
       (\<forall>b n. block h B b n \<longrightarrow> block h' B' b n \<and> {b..<b + n} \<inter> {r - 1..<r - 1 + units nbytes} = {} \<and>
         (\<forall>x\<in>{b..<b + n}. h_ptr h' x = h_ptr h x \<and> h_size h' x = h_size h x)))"
proof -
  let ?nu = "units nbytes"
  have nu: "0 < ?nu" "nbytes \<le> 16 * (?nu - 1)"
    using assms(2) by (simp_all add: units_def)
  define h1 where "h1 = (if freep h = 0
    then set_size (h_base h) 0 (set_ptr (h_base h) (h_base h) (h\<lparr>freep := h_base h\<rparr>)) else h)"
  have inv1: "heap_inv h1 B"
    using assms(1)
  proof
    assume i: "heap_inv h B"
    then have "h_base h \<le> freep h" "0 < h_base h" using base_least by (auto simp: heap_inv_def)
    then show ?thesis using i by (simp add: h1_def)
  qed (use fresh_init in \<open>auto simp: h1_def heap_fresh_def\<close>)
  have same: "brk h1 = brk h" "brk_max h1 = brk_max h" "h_base h1 = h_base h" "\<And>b n. block h B b n \<Longrightarrow> block h1 B b n"
    by (auto simp: h1_def block_def)
  have unit1: "same_unit h h1 x" if "x \<noteq> h_base h" for x using that by (simp add: same_unit_def h1_def)
  have m: "malloc nbytes h = malloc_loop ?nu (freep h1) h1" by (simp add: malloc_def h1_def Let_def)
  have served: "\<exists>B'. heap_inv h' B' \<and> r \<noteq> 0 \<and> block h' B' (r - 1) ?nu \<and>
       room B' \<union> {r - 1..<r - 1 + ?nu} = room B \<union> {brk h div 16..<brk h' div 16} \<and>
       (\<forall>b n. block h B b n \<longrightarrow> block h' B' b n \<and> {b..<b + n} \<inter> {r - 1..<r - 1 + ?nu} = {} \<and>
         (\<forall>x\<in>{b..<b + n}. h_ptr h' x = h_ptr h x \<and> h_size h' x = h_size h x))"
    if g: "grown h1 B h2 B2" and e: "\<exists>x\<in>set B2. ?nu \<le> snd x" and r: "malloc_loop ?nu (freep h2) h2 = Some (r, h')"
    for h2 B2 r h'
  proof -
    have "heap_inv h2 B2" using g by (simp add: grown_def)
    from loop_found [OF this e] obtain prev where P: "prev \<in> fst ` set B2" "?nu \<le> h_size h2 (h_ptr h2 prev)"
        "malloc_loop ?nu (freep h2) h2 = Some (take_block ?nu prev h2)" by blast
    then have "take_block ?nu prev h2 = (r, h')" using r by simp
    from take_grown [OF inv1 g P(1,2) nu(1) this] obtain B' where T: "r \<noteq> 0" "heap_inv h' B'" "block h' B' (r - 1) ?nu"
        "room B' \<union> {r - 1..<r - 1 + ?nu} = room B \<union> {brk h div 16..<brk h' div 16}"
        "\<forall>b n. block h1 B b n \<longrightarrow> block h' B' b n \<and> {b..<b + n} \<inter> {r - 1..<r - 1 + ?nu} = {} \<and>
          (\<forall>x\<in>{b..<b + n}. same_unit h1 h' x)"
      unfolding same(1) by blast
    have "h_ptr h' x = h_ptr h x \<and> h_size h' x = h_size h x" if b: "block h B b n" "x \<in> {b..<b + n}" for b n x
    proof -
      have "x \<noteq> h_base h" using b by (auto simp: block_def)
      then show ?thesis using T(5) same(4) b unit1 same_unit_trans by (metis same_unit_def)
    qed
    then show ?thesis using T same(4) by blast
  qed
  have returns: "\<exists>r h'. malloc_loop ?nu (freep h2) h2 = Some (r, h')"
    if "grown h1 B h2 B2" "\<exists>x\<in>set B2. ?nu \<le> snd x" for h2 B2
    using loop_found [of h2 B2 ?nu] that by (auto simp: grown_def)
  show ?thesis
  proof (cases "\<exists>x\<in>set B. ?nu \<le> snd x")
    case True
    obtain r h' where r: "malloc_loop ?nu (freep h1) h1 = Some (r, h')" using returns [OF grown_refl [OF inv1] True] by blast
    have "\<not> (\<forall>x\<in>set B. snd x < ?nu)" using True by (simp add: not_less)
    then show ?thesis using served [OF grown_refl [OF inv1] True r] m r nu(2) by auto
  next
    case False
    then have small: "\<forall>x\<in>set B. snd x < ?nu" by (simp add: not_le)
    note R = loop_round [OF inv1 small]
    consider "morecore ?nu h1 = Some (0, h1)" "brk_max h < brk h + more ?nu * 16"
      | h2 B2 where "morecore ?nu h1 = Some (freep h2, h2)" "freep h2 \<noteq> 0" "grown h1 B h2 B2"
        "\<exists>x\<in>set B2. ?nu \<le> snd x" "brk h + more ?nu * 16 \<le> brk_max h"
      using morecore_correct [OF inv1 assms(3)] unfolding same(1,2) by blast
    then show ?thesis
    proof cases
      case 1
      then show ?thesis using R m small inv1 same(1) nu(2) by auto
    next
      case (2 h2 B2)
      obtain r h' where r: "malloc_loop ?nu (freep h2) h2 = Some (r, h')" using returns [OF 2(3,4)] by blast
      then have "malloc nbytes h = Some (r, h')" using R m 2(1,2) by simp
      then show ?thesis using served [OF 2(3,4) r] 2(5) nu(2) by auto
    qed
  qed
qed

definition demo_heap :: heap where
  "demo_heap = \<lparr>h_ptr = (\<lambda>_. 0), h_size = (\<lambda>_. 0), freep = 0, h_base = 0x100, brk = 0x4000, brk_max = 0x8000000\<rparr>"

lemma malloc_fresh_block_witness:
  "\<exists>r h' B'. malloc 100 demo_heap = Some (r, h') \<and> r \<noteq> 0 \<and> block h' B' (r - 1) 8"
proof -
  have "heap_fresh demo_heap" by (simp add: heap_fresh_def demo_heap_def)
  moreover have "units 100 = 8" by (simp add: units_def)
  ultimately show ?thesis
    using malloc_fresh_block [of demo_heap "[(h_base demo_heap, 0)]" 100]
    by (auto simp: more_def) (auto simp: demo_heap_def)
qed

text \<open>
  C38: \<open>free\<close> takes back any block in use: its search ends, the block is merged with the free
  blocks that it touches, and the room of the list grows by exactly the block. The other blocks in
  use stay in use, and the pointer word and the size word of every unit of theirs, headers and
  data, stay as they were.
\<close>

theorem free_returns_block:
  assumes "heap_inv h B" "block h B bp n"
  shows "\<exists>h' B'. free (bp + 1) h = Some h' \<and> heap_inv h' B' \<and> room B' = room B \<union> {bp..<bp + n} \<and> brk h' = brk h \<and>
    (\<forall>b m. block h B b m \<and> {b..<b + m} \<inter> {bp..<bp + n} = {} \<longrightarrow>
      block h' B' b m \<and> (\<forall>x\<in>{b..<b + m}. h_ptr h' x = h_ptr h x \<and> h_size h' x = h_size h x))"
proof -
  obtain h' B' where F: "free (bp + 1) h = Some h'" "heap_inv h' B'" "room B' = room B \<union> {bp..<bp + n}"
      "h_base h' = h_base h" "brk h' = brk h" "\<forall>x. x \<notin> room B' \<and> x \<noteq> h_base h \<longrightarrow> same_unit h h' x"
    using free_correct [OF assms] by blast
  have "block h' B' b m \<and> (\<forall>x\<in>{b..<b + m}. h_ptr h' x = h_ptr h x \<and> h_size h' x = h_size h x)"
    if b: "block h B b m" "{b..<b + m} \<inter> {bp..<bp + n} = {}" for b m
  proof -
    have d: "{b..<b + m} \<inter> room B' = {}" using b by (auto simp: block_def F(3))
    then have U: "\<forall>x\<in>{b..<b + m}. h_ptr h' x = h_ptr h x \<and> h_size h' x = h_size h x"
      using F(6) b(1) by (fastforce simp: block_def same_unit_def)
    moreover have "b \<in> {b..<b + m}" using b(1) by (simp add: block_def)
    ultimately show ?thesis using b(1) F(4,5) d by (simp add: block_def)
  qed
  then show ?thesis using F by blast
qed

lemma free_returns_block_witness:
  "\<exists>h' B'. free 0x201 (demo_heap\<lparr>h_ptr := (\<lambda>_. 0x100), freep := 0x100, h_size := (\<lambda>_. 0)(0x200 := 8)\<rparr>) = Some h' \<and>
    heap_inv h' B' \<and> room B' = {0x200..<0x208}"
proof -
  let ?h = "demo_heap\<lparr>h_ptr := (\<lambda>_. 0x100), freep := 0x100, h_size := (\<lambda>_. 0)(0x200 := 8)\<rparr>"
  have "heap_inv ?h [(0x100, 0)]" by (simp add: heap_inv_def rep_def blocks_ok_def demo_heap_def)
  moreover have "block ?h [(0x100, 0)] 0x200 8" by (simp add: block_def room_def demo_heap_def)
  ultimately show ?thesis using free_returns_block [of ?h "[(0x100, 0)]" "0x200" 8] by (auto simp: room_def)
qed

text \<open>
  The size that \<open>morecore\<close> asks for is cut to an \<open>int\<close>. A request of \<open>2 ^ 32 - 16\<close> bytes asks the kernel
  for none, and \<open>malloc\<close> writes the header of the new block above the break.
\<close>

lemma malloc_wraps:
  assumes "heap_inv h B" "\<forall>x\<in>set B. snd x < 2 ^ 28"
  shows "malloc (2 ^ 32 - 16) h = None"
proof -
  have "h_base h \<le> freep h" "0 < h_base h" using assms(1) base_least by (auto simp: heap_inv_def)
  then have "freep h \<noteq> 0" by simp
  moreover have u: "units (2 ^ 32 - 16) = 2 ^ 28" by (simp add: units_def)
  moreover have "brk h \<le> brk_max h" using assms(1) by (simp add: heap_inv_def)
  then have "morecore (2 ^ 28) h = None" by (simp add: morecore_def sbrk_def)
  ultimately show ?thesis using loop_round [OF assms] by (simp add: malloc_def)
qed

end
