(* ===== verification/Uprogs.thy ===== *)
theory Uprogs
  imports Uprint Grep
begin

text \<open>
  Loops that read a file to its end, and the programs \<^verbatim>\<open>cat.c\<close> and \<^verbatim>\<open>wc.c\<close>, which are shown to depend on
  the bytes of their input only, not on how they are cut into reads; \<^verbatim>\<open>echo.c\<close>, and \<^verbatim>\<open>sleep.c\<close> of \<^verbatim>\<open>lab1\<close>.
\<close>

section \<open>Reading\<close>

text \<open>A loop that reads to the end of the file: the next read takes part of what is pending.\<close>

lemma pending_step:
  assumes "0 < k" "u_read (int fd) k s = (n, b, t)"
  shows "if 0 < n then pending (u_fd s fd) = b @ pending (u_fd t fd) \<and> b \<noteq> [] \<and> length b \<le> k \<and>
      unread (u_fd t fd) < unread (u_fd s fd)
    else pending (u_fd s fd) = [] \<and> b = []"
proof (cases "0 < n")
  case True
  then have "b \<noteq> []" using u_read_pending(3) [OF assms] by simp
  then show ?thesis
    using True u_read_pending(1,2) [OF assms] unread_less [OF assms(2) True] by simp
next
  case False
  then have "b = []" using u_read_pending(3) [OF assms] by simp
  then show ?thesis using False u_read_pending(1) [OF assms] by simp
qed

text \<open>What reading from a descriptor and printing leave alone.\<close>

definition same_env :: "usys \<Rightarrow> usys \<Rightarrow> bool" where
  "same_env s t \<longleftrightarrow> u_names t = u_names s \<and> u_bad t = u_bad s \<and> u_fork t = u_fork s \<and>
    (\<forall>fd. u_fd t fd = None \<longleftrightarrow> u_fd s fd = None)"

lemma same_env_refl [simp]: "same_env s s"
  by (simp add: same_env_def)

lemma same_env_trans: "same_env s t \<Longrightarrow> same_env t u \<Longrightarrow> same_env s u"
  by (simp add: same_env_def)

lemma same_env_print [simp]:
  "same_env s (u_write fd b t) = same_env s t" "same_env s (uputs fd b t) = same_env s t"
  "same_env (u_write fd b s) t = same_env s t" "same_env (uputs fd b s) t = same_env s t"
  by (simp_all add: same_env_def)

lemma read_env: "u_read fd k s = (n, b, t) \<Longrightarrow> same_env s t \<and> u_out t = u_out s \<and> u_runs t = u_runs s"
  by (auto simp: u_read_def same_env_def split: option.splits list.splits if_splits)

lemma written_cong: "u_out t = u_out s \<Longrightarrow> written i t = written i s"
  by (simp add: written_def)

text \<open>
  A loop that reads until a read delivers nothing meets its postcondition if each turn of it
  does, where the next state has less to read.
\<close>

lemma read_loop:
  assumes "u_fd s fd \<noteq> None" "0 < k"
    and step: "\<And>x s b t. u_read (int fd) k s = (int (length b), b, t) \<Longrightarrow> b \<noteq> [] \<Longrightarrow> length b \<le> k \<Longrightarrow>
      same_env s t \<Longrightarrow> u_out t = u_out s \<Longrightarrow> u_runs t = u_runs s \<Longrightarrow> pending (u_fd s fd) = b @ pending (u_fd t fd) \<Longrightarrow>
      (\<And>x s'. u_fd s' = u_fd t \<Longrightarrow> P x s') \<Longrightarrow> P x s"
    and stop: "\<And>x s t. u_read (int fd) k s = (0, [], t) \<Longrightarrow> pending (u_fd s fd) = [] \<Longrightarrow>
      same_env s t \<Longrightarrow> u_out t = u_out s \<Longrightarrow> u_runs t = u_runs s \<Longrightarrow> P x s"
  shows "P x s"
  using assms(1)
proof (induction "unread (u_fd s fd)" arbitrary: x s rule: less_induct)
  case less
  obtain n b t where rd: "u_read (int fd) k s = (n, b, t)" by (rule prod_cases3)
  note pend = pending_step [OF assms(2) rd] and env = read_env [OF rd]
  have n: "n = int (length b)" using u_read_pending(4) [OF assms(2) rd] less.prems by simp
  show ?case
  proof (cases "0 < n")
    case True
    then have pt: "pending (u_fd s fd) = b @ pending (u_fd t fd)" "b \<noteq> []" "length b \<le> k"
        "unread (u_fd t fd) < unread (u_fd s fd)" using pend by auto
    have "u_fd t fd \<noteq> None" using env less.prems by (simp add: same_env_def)
    then have "P x s'" if "u_fd s' = u_fd t" for x s' using less.hyps [of s' x] that pt(4) by simp
    with step [OF rd [unfolded n] pt(2,3)] env pt(1) show ?thesis by blast
  next
    case False
    then have "b = []" "pending (u_fd s fd) = []" using pend by auto
    then show ?thesis using stop [of s t x] rd n env by simp
  qed
qed

lemma open_free:
  assumes "u_names s a = Some cs" "u_fd s f = None" "f < UNOFILE"
  obtains fd where "u_open a s = (int fd, s\<lparr>u_fd := (u_fd s)(fd := Some cs)\<rparr>)" "u_fd s fd = None"
proof (cases "scan (\<lambda>fd. u_fd s fd = None) UNOFILE")
  case None
  then have "u_fd s f \<noteq> None" using assms(3) by (simp add: scan_def scan_from_None)
  then show ?thesis using assms(2) by simp
next
  case (Some fd)
  then have "u_fd s fd = None" by (simp add: scan_def scan_from_Some)
  then show ?thesis using that [of fd] Some assms(1) by (simp add: u_open_def)
qed

text \<open>
  A file that is opened, read and closed again leaves the descriptors as they were.
\<close>

lemma close_env:
  assumes "u_fd s fd = None" "same_env (s\<lparr>u_fd := (u_fd s)(fd := Some cs)\<rparr>) t"
  shows "same_env s (u_close (int fd) t)"
  using assms by (simp add: same_env_def u_close_def)

lemma written_close [simp]: "written i (u_close fd s) = written i s"
  by (simp add: written_def u_close_def)

lemma written_fd [simp]: "written i (s\<lparr>u_fd := f\<rparr>) = written i s"
  by (simp add: written_def)

text \<open>The pieces of a text between separators.\<close>

fun pieces_of :: "(u8 \<Rightarrow> bool) \<Rightarrow> u8 list \<Rightarrow> u8 list \<Rightarrow> u8 list list" where
  "pieces_of sep cur [] = [cur]"
| "pieces_of sep cur (c # r) = (if sep c then cur # pieces_of sep [] r else pieces_of sep (cur @ [c]) r)"

section \<open>\<open>cat\<close>\<close>

function cat :: "int \<Rightarrow> usys \<Rightarrow> (unit, usys) ures" where
  "cat fd s =
    (let (n, b, s) = u_read fd 512 s in
     if 0 < n then
       (if u_write_ret 1 b s \<noteq> n then UExit 1 (ufprintf 2 (chars ''cat: write error'' @ [10]) [] (u_write 1 b s))
        else cat fd (u_write 1 b s))
     else if n < 0 then UExit 1 (ufprintf 2 (chars ''cat: read error'' @ [10]) [] s)
     else URet () s)"
  by pat_completeness auto
termination
  by (relation "measure (\<lambda>(fd, s). unread (u_fd s (nat fd)))") (auto dest: unread_less [OF sym])

declare cat.simps [simp del]

fun cat_files :: "cstring list \<Rightarrow> usys \<Rightarrow> (unit, usys) ures" where
  "cat_files [] s = UExit 0 s"
| "cat_files (a # r) s =
    (let (fd, s) = u_open a s in
     if fd < 0 then UExit 1 (ufprintf 2 (chars ''cat: cannot open %s'' @ [10]) [PStr (Some a)] s)
     else ubind (cat fd s) (\<lambda>_ s. cat_files r (u_close fd s)))"

definition cat_main :: "cstring list \<Rightarrow> usys \<Rightarrow> (unit, usys) ures" where
  "cat_main argv s =
    (if length argv \<le> 1 then ubind (cat 0 s) (\<lambda>_ s. UExit 0 s) else cat_files (tl argv) s)"

lemma cat_copies:
  assumes "u_fd s fd \<noteq> None" "1 \<notin> u_bad s"
  shows "\<exists>t. cat (int fd) s = URet () t \<and> written 1 t = written 1 s @ pending (u_fd s fd) \<and> same_env s t"
proof -
  have "1 \<notin> u_bad s \<longrightarrow>
      (\<exists>t. cat (int fd) s = URet () t \<and> written 1 t = written 1 s @ pending (u_fd s fd) \<and> same_env s t)"
    using assms(1)
  proof (rule read_loop [where x = True and k = 512])
    fix x :: bool and s b t
    assume rd: "u_read (int fd) 512 s = (int (length b), b, t)" "b \<noteq> []" "same_env s t" "u_out t = u_out s"
      "pending (u_fd s fd) = b @ pending (u_fd t fd)"
      and IH: "\<And>(x :: bool) s'. u_fd s' = u_fd t \<Longrightarrow> 1 \<notin> u_bad s' \<longrightarrow>
        (\<exists>u. cat (int fd) s' = URet () u \<and> written 1 u = written 1 s' @ pending (u_fd s' fd) \<and> same_env s' u)"
    have w: "written 1 t = written 1 s" by (rule written_cong [OF rd(4)])
    show "1 \<notin> u_bad s \<longrightarrow>
      (\<exists>t. cat (int fd) s = URet () t \<and> written 1 t = written 1 s @ pending (u_fd s fd) \<and> same_env s t)"
    proof
      assume "1 \<notin> u_bad s"
      then have bad: "1 \<notin> u_bad t" using rd(3) by (simp add: same_env_def)
      then obtain u where "cat (int fd) (u_write 1 b t) = URet () u"
          "written 1 u = written 1 s @ b @ pending (u_fd t fd)" "same_env t u"
        using IH [of "u_write 1 b t"] w by auto
      then show "\<exists>t. cat (int fd) s = URet () t \<and> written 1 t = written 1 s @ pending (u_fd s fd) \<and> same_env s t"
        using rd bad by (subst cat.simps) (auto simp: u_write_ret_def intro: same_env_trans)
    qed
  qed (simp, subst cat.simps, auto intro: written_cong)
  with assms(2) show ?thesis by blast
qed

text \<open>The files are written in the order of the arguments, each up to its end.\<close>

lemma cat_files_copies:
  assumes "\<forall>a\<in>set args. u_names s a \<noteq> None" "1 \<notin> u_bad s" "u_fd s f = None" "f < UNOFILE"
  shows "\<exists>t. cat_files args s = UExit 0 t \<and>
    written 1 t = written 1 s @ concat (map (\<lambda>a. pending (u_names s a)) args)"
  using assms
proof (induction args arbitrary: s)
  case (Cons a args)
  then obtain cs where cs: "u_names s a = Some cs" by auto
  then obtain fd where fd: "u_open a s = (int fd, s\<lparr>u_fd := (u_fd s)(fd := Some cs)\<rparr>)" "u_fd s fd = None"
    using Cons.prems(3,4) by (rule open_free)
  obtain t where t: "cat (int fd) (s\<lparr>u_fd := (u_fd s)(fd := Some cs)\<rparr>) = URet () t"
      "written 1 t = written 1 s @ pending (Some cs)" "same_env (s\<lparr>u_fd := (u_fd s)(fd := Some cs)\<rparr>) t"
    using cat_copies [of "s\<lparr>u_fd := (u_fd s)(fd := Some cs)\<rparr>" fd] Cons.prems(2) by auto
  note env = close_env [OF fd(2) t(3)]
  then obtain u where "cat_files args (u_close (int fd) t) = UExit 0 u"
      "written 1 u = written 1 (u_close (int fd) t) @ concat (map (\<lambda>a. pending (u_names s a)) args)"
    using Cons.IH [of "u_close (int fd) t"] Cons.prems by (auto simp: same_env_def)
  then show ?case using fd(1) t cs by simp
qed simp

section \<open>\<open>wc\<close>\<close>

text \<open>
  The counters \<open>l\<close>, \<open>w\<close>, \<open>c\<close> and \<open>inword\<close>; one byte of the buffer, and the buffers. The counters are
  \<open>int\<close>s in C; that they wrap around makes no difference to what \<^verbatim>\<open>%d\<close> prints, their low 32 bits.
\<close>

type_synonym wcst = "int \<times> int \<times> int \<times> bool"

definition wc_byte :: "u8 \<Rightarrow> wcst \<Rightarrow> wcst" where
  "wc_byte b st =
    (let (l, w, c, inword) = st;
         c = c + 1;
         l = (if b = 10 then l + 1 else l)
     in if ustrchr [32, 13, 9, 10, 11] b \<noteq> None then (l, w, c, False)
        else if \<not> inword then (l, w + 1, c, True)
        else (l, w, c, inword))"

function wc_loop :: "int \<Rightarrow> wcst \<Rightarrow> usys \<Rightarrow> int \<times> wcst \<times> usys" where
  "wc_loop fd st s =
    (let (n, b, s) = u_read fd 512 s in
     if 0 < n then wc_loop fd (fold wc_byte b st) s else (n, st, s))"
  by pat_completeness auto
termination
  by (relation "measure (\<lambda>(fd, st, s). unread (u_fd s (nat fd)))") (auto dest: unread_less [OF sym])

declare wc_loop.simps [simp del]

definition wc :: "int \<Rightarrow> cstring \<Rightarrow> usys \<Rightarrow> (unit, usys) ures" where
  "wc fd name s =
    (let (n, (l, w, c, inword), s) = wc_loop fd (0, 0, 0, False) s in
     if n < 0 then UExit 1 (uprintf (chars ''wc: read error'' @ [10]) [] s)
     else URet () (uprintf (chars ''%d %d %d %s'' @ [10])
       [PNum (of_int l), PNum (of_int w), PNum (of_int c), PStr (Some name)] s))"

definition wsep :: "u8 \<Rightarrow> bool" where
  "wsep b \<longleftrightarrow> b \<in> {32, 13, 9, 10, 11}"

lemma wc_sep: "ustrchr [32, 13, 9, 10, 11] b \<noteq> None \<longleftrightarrow> wsep b"
  by (auto simp: ustrchr_Cons wsep_def)

lemma pieces_of_ne [simp]: "pieces_of sep cur x \<noteq> []"
  by (induction x arbitrary: cur) simp_all

lemma wc_byte_sep: "wc_byte b (l, w, c, i) =
    (l + (if b = 10 then 1 else 0), if wsep b \<or> i then w else w + 1, c + 1, \<not> wsep b)"
  unfolding wc_byte_def Let_def wc_sep by simp

lemma wc_fold:
  "fold wc_byte x (l, w, c, cur \<noteq> []) =
    (l + int (length (filter (\<lambda>b. b = 10) x)),
     w + int (length (filter (\<lambda>t. t \<noteq> []) (pieces_of wsep cur x))) - (if cur \<noteq> [] then 1 else 0),
     c + int (length x), last (pieces_of wsep cur x) \<noteq> [])"
proof (induction x arbitrary: l w c cur)
  case (Cons b x)
  show ?case
    using Cons [where cur = "[]"] Cons [where cur = "cur @ [b]"] by (auto simp: wc_byte_sep)
qed simp

lemma wc_counts:
  assumes "u_fd s fd \<noteq> None"
  shows "\<exists>t. wc_loop (int fd) st s = (0, fold wc_byte (pending (u_fd s fd)) st, t) \<and> u_out t = u_out s \<and> same_env s t"
  using assms
proof (rule read_loop [where x = st and k = 512])
  fix st s b t
  assume rd: "u_read (int fd) 512 s = (int (length b), b, t)" "b \<noteq> []" "same_env s t" "u_out t = u_out s"
    "pending (u_fd s fd) = b @ pending (u_fd t fd)"
    and IH: "\<And>st s'. u_fd s' = u_fd t \<Longrightarrow> \<exists>u. wc_loop (int fd) st s' = (0, fold wc_byte (pending (u_fd s' fd)) st, u) \<and>
      u_out u = u_out s' \<and> same_env s' u"
  from IH [OF refl, of "fold wc_byte b st"] rd
  show "\<exists>t. wc_loop (int fd) st s = (0, fold wc_byte (pending (u_fd s fd)) st, t) \<and> u_out t = u_out s \<and> same_env s t"
    by (subst wc_loop.simps) (auto intro: same_env_trans)
qed (simp, subst wc_loop.simps, auto)

text \<open>The numbers of lines, words and bytes, whatever the reads.\<close>

lemma wc_prints:
  assumes "u_fd s fd \<noteq> None"
  shows "\<exists>t. wc (int fd) name s = URet () t \<and> same_env s t \<and>
    (let x = pending (u_fd s fd) in
     written 1 t = written 1 s @ uformat (chars ''%d %d %d %s'' @ [10])
      [PNum (of_nat (length (filter (\<lambda>b. b = 10) x))),
       PNum (of_nat (length (filter (\<lambda>t. t \<noteq> []) (pieces_of wsep [] x)))),
       PNum (of_nat (length x)), PStr (Some name)])"
proof -
  obtain t where t: "wc_loop (int fd) (0, 0, 0, False) s = (0, fold wc_byte (pending (u_fd s fd)) (0, 0, 0, False), t)"
      "u_out t = u_out s" "same_env s t"
    using wc_counts [OF assms] by blast
  show ?thesis
    using t written_cong [OF t(2)] wc_fold [of "pending (u_fd s fd)" 0 0 0 "[]"]
    by (simp add: wc_def uprintf_def uvprintf_def Let_def)
qed

fun wc_files :: "cstring list \<Rightarrow> usys \<Rightarrow> (unit, usys) ures" where
  "wc_files [] s = UExit 0 s"
| "wc_files (a # r) s =
    (let (fd, s) = u_open a s in
     if fd < 0 then UExit 1 (uprintf (chars ''wc: cannot open %s'' @ [10]) [PStr (Some a)] s)
     else ubind (wc fd a s) (\<lambda>_ s. wc_files r (u_close fd s)))"

definition wc_main :: "cstring list \<Rightarrow> usys \<Rightarrow> (unit, usys) ures" where
  "wc_main argv s =
    (if length argv \<le> 1 then ubind (wc 0 [] s) (\<lambda>_ s. UExit 0 s) else wc_files (tl argv) s)"

section \<open>\<open>echo\<close> and \<open>sleep\<close>\<close>

fun echo_args :: "cstring list \<Rightarrow> usys \<Rightarrow> usys" where
  "echo_args [] s = s"
| "echo_args [a] s = u_write 1 [10] (u_write 1 a s)"
| "echo_args (a # r) s = echo_args r (u_write 1 [32] (u_write 1 a s))"

definition echo :: "cstring list \<Rightarrow> usys \<Rightarrow> (unit, usys) ures" where
  "echo argv s = UExit 0 (echo_args (tl argv) s)"

text \<open>
  \<open>sleep\<close> of \<^verbatim>\<open>lab1\<close>: the number of ticks for which it pauses, if it does. It converts \<open>*argv\<close>,
  the name of the program.
\<close>

definition sleep_ticks :: "cstring list \<Rightarrow> int option" where
  "sleep_ticks argv = (if length argv < 2 then None else if length argv \<noteq> 2 then None else Some (atoi (hd argv)))"

lemma sleep_ignores: "sleep_ticks [chars ''sleep'', a] = Some 0"
  by (simp add: sleep_ticks_def atoi_def chars_def atoi_loop.simps)

end
