(* ===== verification/Sixfive.thy ===== *)
theory Sixfive
  imports Uprogs
begin

text \<open>
  \<^verbatim>\<open>user/sixfive.c\<close>: prints the numbers of the files that are multiples of 5 or of 6. The file is
  read byte by byte; \<open>buf\<close> is \<open>num_buf\<close> up to \<open>i\<close>, and \<open>valid\<close> is \<open>isValid\<close>.
\<close>

definition six_separators :: cstring where
  "six_separators = [32, 45, 13, 9, 10, 46, 47, 44]"

text \<open>A remainder of C is zero exactly if \<open>mod\<close> is. The array has room for 31 digits and a NUL.\<close>

definition six_flush :: "u8 list \<Rightarrow> bool \<Rightarrow> usys \<Rightarrow> usys" where
  "six_flush buf valid s =
    (if 0 < length buf \<and> valid then
       let n = atoi buf in
       if n mod 5 = 0 \<or> n mod 6 = 0 then uprintf (chars ''%d'' @ [10]) [PNum (of_int n)] s else s
     else s)"

lemma six_flush_fields [simp]:
  "u_fd (six_flush buf valid s) = u_fd s" "same_env s (six_flush buf valid t) = same_env s t"
  "same_env (six_flush buf valid s) t = same_env s t"
  by (simp_all add: six_flush_def uprintf_def uvprintf_def Let_def)

function six_loop :: "int \<Rightarrow> u8 list \<Rightarrow> bool \<Rightarrow> usys \<Rightarrow> usys" where
  "six_loop fd buf valid s =
    (let (n, b, s) = u_read fd 1 s in
     if 0 < n then
       let c = hd b in
       if ustrchr six_separators c \<noteq> None then six_loop fd [] True (six_flush buf valid s)
       else if 48 \<le> c \<and> c \<le> 57 then six_loop fd (if length buf < 31 then buf @ [c] else buf) valid s
       else six_loop fd buf False s
     else six_flush buf valid s)"
  by pat_completeness auto
termination
  by (relation "measure (\<lambda>(fd, buf, valid, s). unread (u_fd s (nat fd)))")
    (auto dest: unread_less [OF sym])

declare six_loop.simps [simp del]

definition six_file :: "cstring \<Rightarrow> usys \<Rightarrow> usys" where
  "six_file a s =
    (let (fd, s) = u_open a s in
     if fd < 0 then ufprintf 2 (chars ''Error: cannot open file %s'' @ [10]) [PStr (Some a)] s
     else u_close fd (six_loop fd [] True
       (uprintf (chars ''Successfully found and opened: %s'' @ [10]) [PStr (Some a)] s)))"

definition sixfive :: "cstring list \<Rightarrow> usys \<Rightarrow> (unit, usys) ures" where
  "sixfive argv s =
    (if length argv < 2 then UExit 1 (ufprintf 2 (chars ''Usage: sixfive <filename1> <filename2> ...'' @ [10]) [] s)
     else UExit 0 (fold six_file (tl argv) s))"

section \<open>What it prints\<close>

definition six_sep :: "u8 \<Rightarrow> bool" where
  "six_sep c \<longleftrightarrow> c \<in> set six_separators"

definition digit :: "u8 \<Rightarrow> bool" where
  "digit c \<longleftrightarrow> 48 \<le> c \<and> c \<le> 57"

text \<open>The numbers of a text are its nonempty pieces between separators that consist of digits.\<close>

definition numbers :: "u8 list \<Rightarrow> u8 list list" where
  "numbers x = filter (\<lambda>p. p \<noteq> [] \<and> (\<forall>c\<in>set p. digit c)) (pieces_of six_sep [] x)"

definition six_print :: "u8 list \<Rightarrow> u8 list" where
  "six_print p =
    (let n = atoi (take 31 p) in
     if n mod 5 = 0 \<or> n mod 6 = 0 then uformat (chars ''%d'' @ [10]) [PNum (of_int n)] else [])"

lemma six_separator: "ustrchr six_separators c = None \<longleftrightarrow> \<not> six_sep c"
  using ustrchr_None [of six_separators c] by (simp add: six_sep_def six_separators_def)

lemma sep_not_digit: "six_sep c \<Longrightarrow> \<not> digit c"
  by (auto simp: six_sep_def six_separators_def digit_def)

lemma written_flush:
  "written 1 (six_flush buf valid s) = written 1 s @ (if buf \<noteq> [] \<and> valid then six_print (take 31 buf) else [])"
  if "length buf \<le> 31"
  using that by (simp add: six_flush_def six_print_def uprintf_def uvprintf_def Let_def)

lemma written_flush_err: "written 2 (six_flush buf valid s) = written 2 s"
  by (simp add: six_flush_def uprintf_def uvprintf_def Let_def)


lemma six_loop_prints:
  assumes "u_fd s fd \<noteq> None"
  shows "let t = six_loop (int fd) (take 31 (filter digit cur)) (\<forall>c\<in>set cur. digit c) s in
    written 1 t = written 1 s @
      concat (map six_print (filter (\<lambda>p. p \<noteq> [] \<and> (\<forall>c\<in>set p. digit c)) (pieces_of six_sep cur (pending (u_fd s fd))))) \<and>
    written 2 t = written 2 s \<and> same_env s t"
  using assms
proof (rule read_loop [where x = cur and k = 1])
  let ?P = "\<lambda>cur s. let t = six_loop (int fd) (take 31 (filter digit cur)) (\<forall>c\<in>set cur. digit c) s in
    written 1 t = written 1 s @
      concat (map six_print (filter (\<lambda>p. p \<noteq> [] \<and> (\<forall>c\<in>set p. digit c)) (pieces_of six_sep cur (pending (u_fd s fd))))) \<and>
    written 2 t = written 2 s \<and> same_env s t"
  have flush: "written 1 (six_flush (take 31 (filter digit cur)) (\<forall>c\<in>set cur. digit c) s) =
      written 1 s @ (if cur \<noteq> [] \<and> (\<forall>c\<in>set cur. digit c) then six_print cur else [])" for cur s
  proof (cases "\<forall>c\<in>set cur. digit c")
    case True
    then have "filter digit cur = cur" by simp
    then show ?thesis using True by (simp add: written_flush six_print_def)
  next
    case False
    then show ?thesis by (subst written_flush) auto
  qed
  {
    fix cur s b t
    assume rd: "u_read (int fd) 1 s = (int (length b), b, t)" and b: "b \<noteq> []" "length b \<le> 1" and env: "same_env s t"
      and out: "u_out t = u_out s" and pend: "pending (u_fd s fd) = b @ pending (u_fd t fd)"
      and IH: "\<And>cur s'. u_fd s' = u_fd t \<Longrightarrow> ?P cur s'"
    obtain c where c: "b = [c]" using b by (cases b) auto
    have w: "written i t = written i s" for i by (rule written_cong [OF out])
    let ?buf = "take 31 (filter digit cur)" and ?valid = "\<forall>c\<in>set cur. digit c"
    consider "six_sep c" | "\<not> six_sep c" "digit c" | "\<not> six_sep c" "\<not> digit c" by blast
    then show "?P cur s"
    proof cases
      case 1
      then have "six_loop (int fd) ?buf ?valid s = six_loop (int fd) [] True (six_flush ?buf ?valid t)"
        by (subst six_loop.simps) (simp add: rd [simplified] c six_separator)
      then show ?thesis
        using IH [of "six_flush ?buf ?valid t" "[]"] same_env_trans [OF env] 1
        by (simp add: Let_def c w flush written_flush_err pend)
    next
      case 2
      then have "six_loop (int fd) ?buf ?valid s = six_loop (int fd) (take 31 (filter digit (cur @ [c]))) ?valid t"
        by (subst six_loop.simps) (simp add: rd [simplified] c six_separator digit_def [symmetric])
      then show ?thesis
        using IH [of t "cur @ [c]"] same_env_trans [OF env] 2 by (simp add: Let_def c w pend)
    next
      case 3
      then have "six_loop (int fd) ?buf ?valid s = six_loop (int fd) ?buf False t"
        by (subst six_loop.simps) (simp add: rd [simplified] c six_separator digit_def [symmetric])
      then show ?thesis
        using IH [of t "cur @ [c]"] same_env_trans [OF env] 3 by (simp add: Let_def c w pend)
    qed
  }
  {
    fix cur s t
    assume "u_read (int fd) 1 s = (0, [], t)" "pending (u_fd s fd) = []" "same_env s t" "u_out t = u_out s"
    then show "?P cur s"
      using written_cong [of t s]
      by (subst six_loop.simps) (simp add: flush written_flush_err)
  }
qed simp

lemma six_print_number:
  assumes "\<forall>c\<in>set p. digit c" "length p \<le> 31" "numeral_val 10 p < 2 ^ 31" "v = numeral_val 10 p"
  shows "six_print p = (if 5 dvd v \<or> 6 dvd v then numeral_of 10 v @ [10] else [])"
proof -
  have "atoi p = int v"
    using atoi_digits [of p "[]"] assms by (simp add: digit_def)
  moreover have "uformat (chars ''%d'' @ [10]) [PNum (of_int (int v))] = numeral_of 10 v @ [10]"
  proof -
    have u: "uint (of_nat v :: u64) = int v"
      using assms(3,4) by (simp add: unsigned_of_nat take_bit_nat_eq_self)
    then have "uint (ucast (of_nat v :: u64) :: u32) = int v"
      using assms(3,4) by (simp add: unsigned_ucast_eq take_bit_int_eq_self)
    then have "sint (ucast (of_nat v :: u64) :: u32) = int v"
      using assms(3,4) by (simp add: sint_uint signed_take_bit_int_eq_self)
    then have "scast (ucast (of_nat v :: u64) :: u32) = (of_nat v :: u64)" by (simp add: scast_eq)
    moreover have "sint (of_nat v :: u64) = int v"
      using u assms(3,4) by (simp add: sint_uint signed_take_bit_int_eq_self)
    ultimately show ?thesis
      using assms(3,4) uprintint_numeral [OF refl, of "of_nat v" True]
      by (simp add: chars_def uformat_d)
  qed
  moreover have "int v mod 5 = 0 \<longleftrightarrow> 5 dvd v" "int v mod 6 = 0 \<longleftrightarrow> 6 dvd v" by presburger+
  ultimately show ?thesis
    using assms(2,4) by (simp add: six_print_def)
qed

lemma six_messages:
  "uformat (chars ''Error: cannot open file %s'' @ [10]) [PStr (Some a)] = chars ''Error: cannot open file '' @ a @ [10]"
  "uformat (chars ''Successfully found and opened: %s'' @ [10]) [PStr (Some a)] =
    chars ''Successfully found and opened: '' @ a @ [10]"
  using uformat_name [of "chars ''Error: cannot open file ''" "[PStr (Some a)]"]
    uformat_name [of "chars ''Successfully found and opened: ''" "[PStr (Some a)]"]
  by (simp_all add: chars_def)

lemma six_file_prints:
  assumes "u_fd s f = None" "f < UNOFILE"
  shows "let t = six_file a s in same_env s t \<and>
    written 1 t = written 1 s @ (case u_names s a of None \<Rightarrow> []
      | Some cs \<Rightarrow> chars ''Successfully found and opened: '' @ a @ [10] @ concat (map six_print (numbers (pending (Some cs))))) \<and>
    written 2 t = written 2 s @ (case u_names s a of None \<Rightarrow> chars ''Error: cannot open file '' @ a @ [10] | Some cs \<Rightarrow> [])"
proof (cases "u_names s a")
  case None
  then show ?thesis
    using six_messages(1) [of a] by (simp add: six_file_def u_open_def ufprintf_def uvprintf_def)
next
  case (Some cs)
  then obtain fd where fd: "u_open a s = (int fd, s\<lparr>u_fd := (u_fd s)(fd := Some cs)\<rparr>)" "u_fd s fd = None"
    using assms by (rule open_free)
  show ?thesis
    using six_loop_prints [of "uprintf (chars ''Successfully found and opened: %s'' @ [10]) [PStr (Some a)]
        (s\<lparr>u_fd := (u_fd s)(fd := Some cs)\<rparr>)" fd "[]"] fd Some close_env [OF fd(2), of cs]
    six_messages(2) [of a]
    by (simp add: six_file_def Let_def uprintf_def uvprintf_def numbers_def)
qed

lemma six_files_print:
  assumes "u_fd s f = None" "f < UNOFILE"
  shows "let t = fold six_file args s in same_env s t \<and>
    written 1 t = written 1 s @ concat (map (\<lambda>a. case u_names s a of None \<Rightarrow> []
      | Some cs \<Rightarrow> chars ''Successfully found and opened: '' @ a @ [10] @
          concat (map six_print (numbers (pending (Some cs))))) args) \<and>
    written 2 t = written 2 s @ concat (map (\<lambda>a. case u_names s a of
        None \<Rightarrow> chars ''Error: cannot open file '' @ a @ [10] | Some cs \<Rightarrow> []) args)"
  using assms
proof (induction args arbitrary: s)
  case (Cons a args)
  note first = six_file_prints [OF Cons.prems, of a, unfolded Let_def]
  then have "u_fd (six_file a s) f = None" "u_names (six_file a s) = u_names s"
    using Cons.prems(1) by (simp_all add: same_env_def)
  then show ?case
    using Cons.IH [of "six_file a s"] Cons.prems(2) first same_env_trans [of s "six_file a s"]
    by (simp add: Let_def)
qed simp

text \<open>The numbers among the multiples of 5 and 6, as they are printed.\<close>

definition multiples :: "u8 list \<Rightarrow> u8 list" where
  "multiples x = concat (map (\<lambda>p. numeral_of 10 (numeral_val 10 p) @ [10])
    (filter (\<lambda>p. 5 dvd numeral_val 10 p \<or> 6 dvd numeral_val 10 p) (numbers x)))"

lemma six_prints_multiples:
  assumes "\<forall>p\<in>set (numbers x). length p \<le> 31 \<and> numeral_val 10 p < 2 ^ 31"
  shows "concat (map six_print (numbers x)) = multiples x"
proof -
  have "concat (map six_print ps) = concat (map (\<lambda>p. numeral_of 10 (numeral_val 10 p) @ [10])
      (filter (\<lambda>p. 5 dvd numeral_val 10 p \<or> 6 dvd numeral_val 10 p) ps))"
    if "\<forall>p\<in>set ps. length p \<le> 31 \<and> numeral_val 10 p < 2 ^ 31 \<and> (\<forall>c\<in>set p. digit c)" for ps
    using that
  proof (induction ps)
    case (Cons p ps)
    then have "six_print p = (if 5 dvd numeral_val 10 p \<or> 6 dvd numeral_val 10 p
        then numeral_of 10 (numeral_val 10 p) @ [10] else [])"
      by (intro six_print_number) auto
    with Cons show ?case by simp
  qed simp
  moreover have "\<forall>p\<in>set (numbers x). \<forall>c\<in>set p. digit c" by (simp add: numbers_def)
  ultimately show ?thesis using assms by (simp add: multiples_def)
qed

text \<open>
  C40: what \<open>sixfive\<close> prints when every number in its files is an \<open>int\<close> of at most 31 digits. For each
  file that it can open: the line \<open>Successfully found and opened:\<close> with the name of the file, which is
  not part of the manual's sample run, and then exactly the numbers of the file that are multiples of 5 or
  of 6, in order, one on a line. A run of digits next to another character than a separator is not
  a number. For each other file, it writes a line of complaint to the standard error and goes on.
\<close>

theorem sixfive_prints:
  assumes "args \<noteq> []" "u_fd s f = None" "f < UNOFILE"
    and "\<forall>a\<in>set args. \<forall>p\<in>set (numbers (pending (u_names s a))). length p \<le> 31 \<and> numeral_val 10 p < 2 ^ 31"
  shows "\<exists>t. sixfive (name # args) s = UExit 0 t \<and>
    written 1 t = written 1 s @ concat (map (\<lambda>a. case u_names s a of None \<Rightarrow> []
      | Some cs \<Rightarrow> chars ''Successfully found and opened: '' @ a @ [10] @ multiples (pending (Some cs))) args) \<and>
    written 2 t = written 2 s @ concat (map (\<lambda>a. case u_names s a of
        None \<Rightarrow> chars ''Error: cannot open file '' @ a @ [10] | Some cs \<Rightarrow> []) args)"
proof -
  have "map (\<lambda>a. case u_names s a of None \<Rightarrow> []
      | Some cs \<Rightarrow> chars ''Successfully found and opened: '' @ a @ [10] @
          concat (map six_print (numbers (pending (Some cs))))) args =
    map (\<lambda>a. case u_names s a of None \<Rightarrow> []
      | Some cs \<Rightarrow> chars ''Successfully found and opened: '' @ a @ [10] @ multiples (pending (Some cs))) args"
    using assms(4) by (auto split: option.split intro!: six_prints_multiples)
  note six_files_print [OF assms(2,3), of args, unfolded Let_def this]
  then show ?thesis using assms(1) by (simp add: sixfive_def Let_def)
qed

text \<open>
  A larger number is judged by what \<open>atoi\<close> makes of it: 4294967306 is a multiple neither of 5
  nor of 6, and a 10 is printed for it.
\<close>

lemma six_overflow:
  "six_print (numeral_of 10 4294967306) = chars ''10'' @ [10]" "\<not> 5 dvd (4294967306 :: nat)" "\<not> 6 dvd (4294967306 :: nat)"
proof -
  have "numeral_of 10 4294967306 = chars ''4294967306''"
    by (simp add: numeral_of.simps digits_def chars_def)
  moreover have "atoi (chars ''4294967306'') = 10"
    by (simp add: atoi_def chars_def atoi_loop.simps)
  moreover have "uformat (chars ''%d'' @ [10]) [PNum 10] = chars ''10'' @ [10]"
    using uprintint_numeral [OF refl, of 10 True] by (simp add: chars_def uformat_d numeral_of.simps digits_def)
  ultimately show "six_print (numeral_of 10 4294967306) = chars ''10'' @ [10]"
    by (simp add: six_print_def chars_def)
qed simp_all

lemma sixfive_prints_witness:
  "let s = (demo_usys [])\<lparr>u_names := (\<lambda>_. None)(chars ''f'' := Some [chars ''6,v5 1'', chars ''2 7''])\<rparr> in
    \<exists>t. sixfive [chars ''sixfive'', chars ''f'', chars ''g''] s = UExit 0 t \<and>
      written 1 t = chars ''Successfully found and opened: f'' @ [10] @ chars ''6'' @ [10] @ chars ''12'' @ [10] \<and>
      written 2 t = chars ''Error: cannot open file g'' @ [10]"
proof -
  define s where "s = (demo_usys [])\<lparr>u_names := (\<lambda>_. None)(chars ''f'' := Some [chars ''6,v5 1'', chars ''2 7''])\<rparr>"
  have names: "u_names s (chars ''f'') = Some [chars ''6,v5 1'', chars ''2 7'']" "u_names s (chars ''g'') = None"
    by (simp_all add: s_def chars_def)
  have pend: "pending (Some [chars ''6,v5 1'', chars ''2 7'']) = chars ''6,v5 12 7''"
    by (simp add: pending_def chars_def)
  have nums: "numbers (chars ''6,v5 12 7'') = [chars ''6'', chars ''12'', chars ''7'']"
    by (simp add: numbers_def six_sep_def six_separators_def chars_def digit_def)
  have vals: "numeral_val 10 (chars ''6'') = 6" "numeral_val 10 (chars ''12'') = 12" "numeral_val 10 (chars ''7'') = 7"
    by (simp_all add: numeral_val_def chars_def digit_val_def)
  have lens: "length (chars x) = length x" for x by (simp add: chars_def)
  have mult: "multiples (chars ''6,v5 12 7'') = chars ''6'' @ [10] @ chars ''12'' @ [10]"
    by (simp add: multiples_def nums vals) (simp add: numeral_of.simps digits_def chars_def)
  have "\<exists>t. sixfive (chars ''sixfive'' # [chars ''f'', chars ''g'']) s = UExit 0 t \<and>
    written 1 t = written 1 s @ concat (map (\<lambda>a. case u_names s a of None \<Rightarrow> []
      | Some cs \<Rightarrow> chars ''Successfully found and opened: '' @ a @ [10] @ multiples (pending (Some cs))) [chars ''f'', chars ''g'']) \<and>
    written 2 t = written 2 s @ concat (map (\<lambda>a. case u_names s a of
        None \<Rightarrow> chars ''Error: cannot open file '' @ a @ [10] | Some cs \<Rightarrow> []) [chars ''f'', chars ''g''])"
  proof (rule sixfive_prints)
    show "u_fd s 3 = None" by (simp add: s_def demo_usys_def)
    show "\<forall>a\<in>set [chars ''f'', chars ''g'']. \<forall>p\<in>set (numbers (pending (u_names s a))). length p \<le> 31 \<and> numeral_val 10 p < 2 ^ 31"
      by (simp add: names pend nums vals lens) (simp add: numbers_def)
  qed (simp_all add: UNOFILE_def)
  moreover have "written 1 s = []" "written 2 s = []" by (simp_all add: s_def demo_usys_def written_def)
  moreover have "chars ''Successfully found and opened: f'' = chars ''Successfully found and opened: '' @ chars ''f''"
    "chars ''Error: cannot open file g'' = chars ''Error: cannot open file '' @ chars ''g''"
    by (simp_all add: chars_def)
  ultimately show ?thesis
    unfolding Let_def s_def [symmetric] by (simp add: names pend mult)
qed

end
