(* ===== verification/Xargs.thy ===== *)
theory Xargs
  imports Uprogs
begin

text \<open>
  \<^verbatim>\<open>user/xargs.c\<close>: runs a command on the words of its input, a batch of them at a time. The array
  \<open>xargv\<close> has 32 entries, strings or null; what it holds at first is \<open>xs0\<close>, and a store outside it
  is a fault. \<open>buf\<close> holds the bytes of the word that has been read so far. \<open>malloc\<close> is taken to
  succeed.
\<close>

definition XMAXARG :: nat where "XMAXARG = 32"

definition xset :: "nat \<Rightarrow> cstring option \<Rightarrow> cstring option list \<Rightarrow> usys \<Rightarrow> (cstring option list, usys) ures" where
  "xset i v xs s = (if i < length xs then URet (xs[i := v]) s else UFault)"

text \<open>\<open>fork\<close>, and in the child \<open>exec(xargv[0], xargv)\<close>, which takes the strings up to a null.\<close>

definition xrun :: "cstring option list \<Rightarrow> usys \<Rightarrow> (unit, usys) ures" where
  "xrun xs s = (if None \<in> set xs then URet () (u_run (map the (takeWhile (\<lambda>a. a \<noteq> None) xs)) s) else UFault)"

text \<open>\<open>strcpy(new_arg, buf); xargv[current_argc] = new_arg; current_argc++\<close>.\<close>

definition xargs_add :: "cstring option list \<Rightarrow> nat \<Rightarrow> u8 list \<Rightarrow> usys \<Rightarrow> (cstring option list \<times> nat, usys) ures" where
  "xargs_add xs cur buf s =
    ubind (xset cur (Some (takeWhile (\<lambda>c. c \<noteq> 0) buf)) xs s) (\<lambda>xs s. URet (xs, cur + 1) s)"

definition xargs_word ::
  "nat \<Rightarrow> bool \<Rightarrow> cstring option list \<Rightarrow> nat \<Rightarrow> u8 list \<Rightarrow> usys \<Rightarrow> (cstring option list \<times> nat, usys) ures" where
  "xargs_word static rt xs cur buf s =
    ubind (xargs_add xs cur buf s) (\<lambda>(xs, cur) s.
    ubind (xset cur None xs s) (\<lambda>xs s.
      if rt \<or> XMAXARG - 1 \<le> cur then ubind (xrun xs s) (\<lambda>_ s. URet (xs, static) s)
      else URet (xs, cur) s))"

lemma xargs_word_fd: "xargs_word static rt xs cur buf s = URet r t \<Longrightarrow> u_fd t = u_fd s"
  by (auto simp: xargs_word_def xargs_add_def xset_def xrun_def u_run_def split: if_splits)

function xargs_loop ::
  "nat \<Rightarrow> bool \<Rightarrow> cstring option list \<Rightarrow> nat \<Rightarrow> u8 list \<Rightarrow> usys \<Rightarrow>
    (cstring option list \<times> nat \<times> u8 list, usys) ures" where
  "xargs_loop static rt xs cur buf s =
    (let (n, b, s) = u_read 0 1 s in
     if 0 < n then
       let c = hd b in
       if c = 10 \<or> c = 32 \<or> c = 9 then
         if 0 < length buf then
           ubind (xargs_word static rt xs cur buf s) (\<lambda>r s. xargs_loop static rt (fst r) (snd r) [] s)
         else xargs_loop static rt xs cur buf s
       else xargs_loop static rt xs cur (if length buf < 1023 then buf @ [c] else buf) s
     else URet (xs, cur, buf) s)"
  by pat_completeness auto
termination
  by (relation "measure (\<lambda>(static, rt, xs, cur, buf, s). unread (u_fd s 0))")
    (auto dest!: xargs_word_fd dest: unread_less [OF sym])

declare xargs_loop.simps [simp del]

text \<open>The last word and the last batch, after the end of the input.\<close>

definition xargs_last :: "nat \<Rightarrow> cstring option list \<Rightarrow> nat \<Rightarrow> u8 list \<Rightarrow> usys \<Rightarrow> (unit, usys) ures" where
  "xargs_last static xs cur buf s =
    ubind (if 0 < length buf then xargs_add xs cur buf s else URet (xs, cur) s) (\<lambda>(xs, cur) s.
    if static < cur then ubind (xset cur None xs s) xrun else URet () s)"

fun xargs_copy :: "nat \<Rightarrow> cstring list \<Rightarrow> cstring option list \<Rightarrow> usys \<Rightarrow> (cstring option list, usys) ures" where
  "xargs_copy i [] xs s = URet xs s"
| "xargs_copy i (a # r) xs s = ubind (xset i (Some a) xs s) (xargs_copy (i + 1) r)"

definition xargs :: "cstring list \<Rightarrow> cstring option list \<Rightarrow> usys \<Rightarrow> (unit, usys) ures" where
  "xargs argv xs0 s =
    (if length argv < 2 then UExit 1 (uprintf (chars ''Usage: xargs <command> [args...]'' @ [10]) [] s)
     else
       let rt = (ustrcmp (argv ! 1) (chars ''-n'') = 0 \<and> 3 < length argv);
           cmd = drop (if rt then 3 else 1) argv; static = length cmd
       in ubind (xargs_copy 0 cmd xs0 s) (\<lambda>xs s.
          ubind (xargs_loop static rt xs static [] s) (\<lambda>(xs, cur, buf) s.
          ubind (xargs_last static xs cur buf s) (\<lambda>_ s.
          UExit 0 s))))"

section \<open>The batches\<close>

definition blank :: "u8 \<Rightarrow> bool" where
  "blank c \<longleftrightarrow> c = 10 \<or> c = 32 \<or> c = 9"

text \<open>The words of the input, as the command gets them, and their batches of \<open>k\<close>.\<close>

definition xwords :: "u8 list list \<Rightarrow> cstring list" where
  "xwords ps = map (\<lambda>w. takeWhile (\<lambda>c. c \<noteq> 0) (take 1023 w)) (filter (\<lambda>w. w \<noteq> []) ps)"

lemma xwords_simps [simp]:
  "xwords [] = []" "xwords ([] # ps) = xwords ps"
  "w \<noteq> [] \<Longrightarrow> xwords (w # ps) = takeWhile (\<lambda>c. c \<noteq> 0) (take 1023 w) # xwords ps"
  by (simp_all add: xwords_def)

fun batches :: "nat \<Rightarrow> 'a list \<Rightarrow> 'a list list" where
  "batches k xs = (if xs = [] \<or> k = 0 then [] else take k xs # batches k (drop k xs))"

declare batches.simps [simp del]

lemma batches_full: "length b = k \<Longrightarrow> 0 < k \<Longrightarrow> batches k (b @ xs) = b # batches k xs"
  by (subst batches.simps) auto

lemma batches_small: "length b \<le> k \<Longrightarrow> batches k b = (if b = [] then [] else [b])"
  by (subst batches.simps) (auto simp: batches.simps)

lemma batches_length: "b \<in> set (batches k xs) \<Longrightarrow> 0 < length b \<and> length b \<le> k"
  by (induction k xs rule: batches.induct) (subst (asm) batches.simps, auto split: if_splits)

lemma batches_concat: "0 < k \<Longrightarrow> concat (batches k xs) = xs"
  by (induction k xs rule: batches.induct) (subst batches.simps, auto)

text \<open>The array holds the command and the words of the batch so far.\<close>

definition xholds :: "cstring option list \<Rightarrow> nat \<Rightarrow> cstring list \<Rightarrow> bool" where
  "xholds xs cur args \<longleftrightarrow> length xs = XMAXARG \<and> cur = length args \<and> take cur xs = map Some args"

lemma xholds_set:
  assumes "xholds xs cur args" "cur < XMAXARG"
  shows "xholds (xs[cur := Some a]) (cur + 1) (args @ [a])" "xholds (xs[cur := None]) cur args"
proof -
  have "length xs = XMAXARG" "take (length args) xs = map Some args" "cur = length args"
    using assms(1) unfolding xholds_def by blast+
  then show "xholds (xs[cur := Some a]) (cur + 1) (args @ [a])" "xholds (xs[cur := None]) cur args"
    using assms(2) by (simp_all add: xholds_def take_Suc_conv_app_nth)
qed

lemma xholds_prefix: "xholds xs cur (args @ b) \<Longrightarrow> xholds xs (length args) args"
  by (auto simp: xholds_def dest: arg_cong [where f = "take (length args)"])

lemma xrun_batch:
  assumes "xholds xs cur args" "cur < XMAXARG" "u_fork s"
  shows "xrun (xs[cur := None]) s = URet () (s\<lparr>u_runs := u_runs s @ [args]\<rparr>)"
proof -
  have "length xs = XMAXARG" "take cur xs = map Some args" using assms(1) unfolding xholds_def by blast+
  then have "xs[cur := None] = map Some args @ None # drop (cur + 1) xs"
    using assms(2) by (simp add: upd_conv_take_nth_drop)
  moreover have "takeWhile (\<lambda>a. a \<noteq> None) (map Some args @ None # r) = map Some args" for r
    by (induction args) simp_all
  ultimately show ?thesis using assms(3) by (simp add: xrun_def u_run_def comp_def)
qed

lemma xargs_add_holds:
  assumes "xholds xs cur args" "cur < XMAXARG"
  shows "xargs_add xs cur buf s =
    URet (xs[cur := Some (takeWhile (\<lambda>c. c \<noteq> 0) buf)], cur + 1) s"
  using assms by (simp add: xargs_add_def xset_def xholds_def)

text \<open>One word: it joins the batch \<open>b\<close>, which is run when it is full.\<close>

lemma xargs_word_holds:
  assumes h: "xholds xs cur (cmd @ b)" and k: "length b < k" "length cmd + k < XMAXARG" "u_fork s"
    and rt: "k = (if rt then 1 else XMAXARG - 1 - length cmd)"
    and b': "b' = b @ [takeWhile (\<lambda>c. c \<noteq> 0) buf]"
  obtains xs' cur' where
    "xargs_word (length cmd) rt xs cur buf s =
      URet (xs', cur') (if length b' = k then s\<lparr>u_runs := u_runs s @ [cmd @ b']\<rparr> else s)"
    "xholds xs' cur' (cmd @ (if length b' = k then [] else b'))"
proof -
  define xs1 where "xs1 = xs[cur := Some (takeWhile (\<lambda>c. c \<noteq> 0) buf)]"
  have cur: "cur = length cmd + length b" using h by (simp add: xholds_def)
  then have lt: "cur < XMAXARG" "cur + 1 < XMAXARG" using k by auto
  have h1: "xholds xs1 (cur + 1) (cmd @ b')" using xholds_set(1) [OF h lt(1)] by (simp add: xs1_def b')
  then have set: "xset (cur + 1) None xs1 s = URet (xs1[cur + 1 := None]) s"
    using lt by (simp add: xset_def xholds_def)
  have full: "rt \<or> XMAXARG - 1 \<le> cur + 1 \<longleftrightarrow> length b' = k"
    using rt k(1) cur by (auto simp: b')
  note h2 = xholds_set(2) [OF h1 lt(2)]
  show thesis
  proof (cases "length b' = k")
    case True
    show thesis
      by (rule that [of "xs1[cur + 1 := None]" "length cmd"])
        (use True xholds_prefix [OF h2] in \<open>simp_all add: xargs_word_def xargs_add_holds [OF h lt(1)]
          xs1_def [symmetric] set full xrun_batch [OF h1 lt(2) k(3)] del: One_nat_def\<close>)
  next
    case False
    show thesis
      by (rule that [of "xs1[cur + 1 := None]" "cur + 1"])
        (use False h2 in \<open>simp_all add: xargs_word_def xargs_add_holds [OF h lt(1)]
          xs1_def [symmetric] set full del: One_nat_def\<close>)
  qed
qed

text \<open>
  The loop, where \<open>b\<close> is the batch and \<open>w\<close> the word so far: it runs the full batches, and what
  is left over at the end of the input is a batch that is not full and a last word.
\<close>

definition xleft :: "cstring list \<Rightarrow> nat \<Rightarrow> bool \<Rightarrow> cstring option list \<times> cstring list \<times> u8 list \<Rightarrow> usys \<Rightarrow> bool" where
  "xleft cmd k rt st s \<longleftrightarrow> (case st of (xs, b, w) \<Rightarrow>
    u_fork s \<and> xholds xs (length (cmd @ b)) (cmd @ b) \<and> length b < k \<longrightarrow>
    (\<exists>xs' b' w' dn t. xargs_loop (length cmd) rt xs (length (cmd @ b)) (take 1023 w) s =
        URet (xs', length (cmd @ b'), take 1023 w') t \<and>
      xholds xs' (length (cmd @ b')) (cmd @ b') \<and> length b' < k \<and> u_fork t \<and>
      u_runs t = u_runs s @ map ((@) cmd) dn \<and>
      batches k (b @ xwords (pieces_of blank w (pending (u_fd s 0)))) = dn @ batches k (b' @ xwords [w'])))"

lemma xleftI:
  assumes "xargs_loop (length cmd) rt xs (length (cmd @ b)) (take 1023 w) s =
      xargs_loop (length cmd) rt xs' (length (cmd @ b')) (take 1023 w') s'"
    and "u_fork s' = u_fork s" "u_runs s' = u_runs s @ map ((@) cmd) dn"
    and "xholds xs' (length (cmd @ b')) (cmd @ b')" "length b' < k"
    and "batches k (b @ xwords (pieces_of blank w (pending (u_fd s 0)))) =
      dn @ batches k (b' @ xwords (pieces_of blank w' (pending (u_fd s' 0))))"
    and "xleft cmd k rt (xs', b', w') s'"
  shows "xleft cmd k rt (xs, b, w) s"
  unfolding xleft_def prod.case
proof
  assume "u_fork s \<and> xholds xs (length (cmd @ b)) (cmd @ b) \<and> length b < k"
  then obtain xs'' b'' w'' dn' t where t:
    "xargs_loop (length cmd) rt xs' (length (cmd @ b')) (take 1023 w') s' =
        URet (xs'', length (cmd @ b''), take 1023 w'') t"
    "xholds xs'' (length (cmd @ b'')) (cmd @ b'')" "length b'' < k" "u_fork t"
    "u_runs t = u_runs s' @ map ((@) cmd) dn'"
    "batches k (b' @ xwords (pieces_of blank w' (pending (u_fd s' 0)))) = dn' @ batches k (b'' @ xwords [w''])"
    using assms(2,4,5,7) unfolding xleft_def prod.case by (elim impE exE conjE) blast+
  then show "\<exists>xs' b' w' dn t. xargs_loop (length cmd) rt xs (length (cmd @ b)) (take 1023 w) s =
        URet (xs', length (cmd @ b'), take 1023 w') t \<and>
      xholds xs' (length (cmd @ b')) (cmd @ b') \<and> length b' < k \<and> u_fork t \<and>
      u_runs t = u_runs s @ map ((@) cmd) dn \<and>
      batches k (b @ xwords (pieces_of blank w (pending (u_fd s 0)))) = dn @ batches k (b' @ xwords [w'])"
    using assms(1,3,6) by (intro exI [of _ xs''] exI [of _ b''] exI [of _ w''] exI [of _ "dn @ dn'"] exI [of _ t]) simp
qed

lemma xleft_vacuous:
  "\<not> (u_fork s \<and> xholds xs (length (cmd @ b)) (cmd @ b) \<and> length b < k) \<Longrightarrow> xleft cmd k rt (xs, b, w) s"
  unfolding xleft_def prod.case by blast

lemma xargs_loop_left:
  assumes "u_fd s 0 \<noteq> None" "length cmd + k < XMAXARG" "k = (if rt then 1 else XMAXARG - 1 - length cmd)"
  shows "xleft cmd k rt (xs, b, w) s"
  using assms(1)
proof (rule read_loop [where P = "xleft cmd k rt" and x = "(xs, b, w)" and k = 1])
  fix x :: "cstring option list \<times> cstring list \<times> u8 list" and s bs t
  assume "u_read (int 0) 1 s = (int (length bs), bs, t)" "bs \<noteq> []" "length bs \<le> 1" and env: "same_env s t" "u_runs t = u_runs s"
    and pend0: "pending (u_fd s 0) = bs @ pending (u_fd t 0)" and IH: "\<And>x s'. u_fd s' = u_fd t \<Longrightarrow> xleft cmd k rt x s'"
  then obtain c where c: "bs = [c]" and rd: "u_read 0 (Suc 0) s = (1, [c], t)" by (cases bs) auto
  note pend = pend0 [unfolded c, simplified]
  have fork: "u_fork t = u_fork s" using env(1) by (simp add: same_env_def)
  obtain xs b w where x: "x = (xs, b, w)" by (rule prod_cases3)
  have blk: "c = 10 \<or> c = 32 \<or> c = 9 \<longleftrightarrow> blank c" by (simp add: blank_def)
  show "xleft cmd k rt x s"
  proof (cases "u_fork s \<and> xholds xs (length (cmd @ b)) (cmd @ b) \<and> length b < k")
    case True
    consider "\<not> blank c" | "blank c" "w = []" | "blank c" "w \<noteq> []" by blast
    then show ?thesis
    proof cases
      case 1
      have "take 1023 (w @ [c]) = (if length (take 1023 w) < 1023 then take 1023 w @ [c] else take 1023 w)" by simp
      then have "xargs_loop (length cmd) rt xs (length (cmd @ b)) (take 1023 w) s =
          xargs_loop (length cmd) rt xs (length (cmd @ b)) (take 1023 (w @ [c])) t"
        using 1 by (subst xargs_loop.simps) (simp add: rd blk)
      then show ?thesis
        using 1 True fork env IH [of t] unfolding x
        by (rule_tac xleftI [where xs' = xs and b' = b and w' = "w @ [c]" and s' = t and dn = "[]"]) (simp_all add: pend)
    next
      case 2
      then have "xargs_loop (length cmd) rt xs (length (cmd @ b)) (take 1023 w) s =
          xargs_loop (length cmd) rt xs (length (cmd @ b)) (take 1023 []) t"
        by (subst xargs_loop.simps) (simp add: rd blk)
      then show ?thesis
        using 2 True fork env IH [of t] unfolding x
        by (rule_tac xleftI [where xs' = xs and b' = b and w' = "[]" and s' = t and dn = "[]"]) (simp_all add: pend)
    next
      case 3
      define b' where "b' = b @ [takeWhile (\<lambda>c. c \<noteq> 0) (take 1023 w)]"
      define t' where "t' = (if length b' = k then t\<lparr>u_runs := u_runs t @ [cmd @ b']\<rparr> else t)"
      obtain xs' cur' where w: "xargs_word (length cmd) rt xs (length (cmd @ b)) (take 1023 w) t = URet (xs', cur') t'"
          "xholds xs' cur' (cmd @ (if length b' = k then [] else b'))"
        using xargs_word_holds [of xs "length (cmd @ b)" cmd b k t rt b' "take 1023 w"] True fork assms(2,3)
        unfolding b'_def t'_def by metis
      then have cur': "cur' = length (cmd @ (if length b' = k then [] else b'))" unfolding xholds_def by blast
      have "xargs_loop (length cmd) rt xs (length (cmd @ b)) (take 1023 w) s =
          xargs_loop (length cmd) rt xs' cur' (take 1023 []) t'"
        using 3 w(1) by (subst xargs_loop.simps) (simp add: rd blk)
      moreover have "batches k (b @ xwords (pieces_of blank w (pending (u_fd s 0)))) =
          (if length b' = k then [b'] else []) @ batches k ((if length b' = k then [] else b') @ xwords (pieces_of blank [] (pending (u_fd t' 0))))"
      proof -
        have "b @ xwords (pieces_of blank w (pending (u_fd s 0))) = b' @ xwords (pieces_of blank [] (pending (u_fd t 0)))"
          using 3 by (simp add: pend b'_def)
        then show ?thesis using batches_full [of b' k] True by (simp add: t'_def)
      qed
      moreover have "length (if length b' = k then [] else b') < k" using True by (auto simp: b'_def)
      ultimately show ?thesis
        using fork env IH [of t'] w(2) unfolding x cur'
        by (rule_tac xleftI [where xs' = xs' and b' = "if length b' = k then [] else b'" and w' = "[]" and s' = t'
              and dn = "if length b' = k then [b'] else []"]) (simp_all add: t'_def)
    qed
  qed (simp add: x xleft_vacuous)
next
  fix x :: "cstring option list \<times> cstring list \<times> u8 list" and s t
  assume "u_read (int 0) 1 s = (0, [], t)" "pending (u_fd s 0) = []" "same_env s t" "u_runs t = u_runs s"
  moreover obtain xs b w where x: "x = (xs, b, w)" by (rule prod_cases3)
  ultimately show "xleft cmd k rt x s"
    unfolding x xleft_def prod.case
    by (intro impI exI [of _ xs] exI [of _ b] exI [of _ w] exI [of _ "[]"] exI [of _ t], subst xargs_loop.simps)
      (simp add: same_env_def)
qed simp

lemma xargs_copy_holds:
  "xholds xs (length done0) done0 \<Longrightarrow> length (done0 @ r) < XMAXARG \<Longrightarrow>
    \<exists>xs'. xargs_copy (length done0) r xs s = URet xs' s \<and> xholds xs' (length (done0 @ r)) (done0 @ r)"
proof (induction r arbitrary: done0 xs)
  case (Cons a r)
  have lt: "length done0 < XMAXARG" using Cons.prems(2) by simp
  obtain xs' where "xargs_copy (length (done0 @ [a])) r (xs[length done0 := Some a]) s = URet xs' s"
      "xholds xs' (length (done0 @ a # r)) (done0 @ a # r)"
    using Cons.IH [of "xs[length done0 := Some a]" "done0 @ [a]"] xholds_set(1) [OF Cons.prems(1) lt, of a] Cons.prems(2) by auto
  moreover have "xset (length done0) (Some a) xs s = URet (xs[length done0 := Some a]) s"
    using Cons.prems(1) lt by (simp add: xset_def xholds_def)
  ultimately show ?case by simp
qed simp

lemma xargs_last_holds:
  assumes h: "xholds xs (length (cmd @ b')) (cmd @ b')" and k: "length b' < k" "length cmd + k < XMAXARG" "u_fork s"
  shows "xargs_last (length cmd) xs (length (cmd @ b')) (take 1023 w) s =
    URet () (s\<lparr>u_runs := u_runs s @ map ((@) cmd) (batches k (b' @ xwords [w]))\<rparr>)"
proof -
  define b where "b = b' @ xwords [w]"
  have small: "length b \<le> k" using k(1) by (cases "w = []") (auto simp: b_def)
  have lt': "length (cmd @ b') < XMAXARG" using k by simp
  obtain ys where ys: "(if 0 < length (take 1023 w) then xargs_add xs (length (cmd @ b')) (take 1023 w) s
      else URet (xs, length (cmd @ b')) s) = URet (ys, length (cmd @ b)) s" "xholds ys (length (cmd @ b)) (cmd @ b)"
  proof (cases "w = []")
    case True
    then show ?thesis using that [of xs] h by (simp add: b_def)
  next
    case False
    then show ?thesis
      using that xholds_set(1) [OF h lt', of "takeWhile (\<lambda>c. c \<noteq> 0) (take 1023 w)"]
      unfolding xargs_add_holds [OF h lt'] by (simp add: b_def)
  qed
  have lt: "length (cmd @ b) < XMAXARG" using small k(2) by simp
  then have set: "xset (length (cmd @ b)) None ys s = URet (ys[length (cmd @ b) := None]) s"
    using ys(2) by (simp add: xset_def xholds_def)
  have "batches k b = (if b = [] then [] else [b])" using small by (rule batches_small)
  then show ?thesis
    using set xrun_batch [OF ys(2) lt k(3)]
    unfolding xargs_last_def ys(1) b_def [symmetric] by simp
qed

text \<open>
  C39: \<open>xargs\<close> never stores outside \<open>xargv\<close>, which has room for 32 entries, and returns. For an argument
  vector as \<open>exec\<close> admits it, it runs the command on batches of the words of the input. A word ends
  at a space, a tab or a newline, all the same: the words of several lines go into one batch, and
  those of one line may go into several. Every word is in a batch, in order and cut at 1023 bytes, or
  at a NUL before that; each batch but the last one is filled up to 31 arguments, the command
  included. After \<^verbatim>\<open>-n N\<close>, whatever \<open>N\<close> is, a batch is one word. The lab's manual asks for one command
  per line; \<^verbatim>\<open>grade-lab-util\<close> asks for one command for two short lines, as it is here.
\<close>

theorem xargs_batches:
  assumes "2 \<le> length argv" "length argv < 32" "0 \<notin> set (argv ! 1)" "length xs0 = 32"
    and "u_fork s" "u_fd s 0 \<noteq> None"
  shows "let rt = (argv ! 1 = chars ''-n'' \<and> 3 < length argv); cmd = drop (if rt then 3 else 1) argv;
      bs = batches (if rt then 1 else 31 - length cmd) (xwords (pieces_of blank [] (pending (u_fd s 0))))
    in \<exists>t. xargs argv xs0 s = UExit 0 t \<and> u_runs t = u_runs s @ map (\<lambda>b. cmd @ b) bs \<and>
      concat bs = xwords (pieces_of blank [] (pending (u_fd s 0))) \<and>
      (\<forall>b\<in>set bs. b \<noteq> [] \<and> length (cmd @ b) \<le> 31)"
proof -
  define rt where "rt = (argv ! 1 = chars ''-n'' \<and> 3 < length argv)"
  define cmd where "cmd = drop (if rt then 3 else 1) argv"
  define k where "k = (if rt then 1 else 31 - length cmd)"
  define ws where "ws = xwords (pieces_of blank [] (pending (u_fd s 0)))"
  have k: "0 < k" "length cmd + k < XMAXARG" "k = (if rt then 1 else XMAXARG - 1 - length cmd)"
    using assms(1,2) by (auto simp: k_def cmd_def XMAXARG_def)
  have rt: "ustrcmp (argv ! 1) (chars ''-n'') = 0 \<and> 3 < length argv \<longleftrightarrow> rt"
    using ustrcmp_zero [OF assms(3), of "chars ''-n''"] by (simp add: rt_def chars_def)
  obtain xs where xs: "xargs_copy 0 cmd xs0 s = URet xs s" "xholds xs (length cmd) cmd"
    using xargs_copy_holds [of xs0 "[]" cmd s] k(2) assms(4) by (auto simp: xholds_def XMAXARG_def)
  obtain xs' b' w' dn t where t: "xargs_loop (length cmd) rt xs (length cmd) [] s = URet (xs', length (cmd @ b'), take 1023 w') t"
    "xholds xs' (length (cmd @ b')) (cmd @ b')" "length b' < k" "u_fork t"
    "u_runs t = u_runs s @ map ((@) cmd) dn" "batches k ws = dn @ batches k (b' @ xwords [w'])"
    using xargs_loop_left [OF assms(6) k(2,3), of xs "[]" "[]"] xs(2) k(1) assms(5)
    by (auto simp: xleft_def ws_def)
  then have "xargs argv xs0 s = UExit 0 (t\<lparr>u_runs := u_runs s @ map ((@) cmd) (batches k ws)\<rparr>)"
    using assms(1) xs(1) xargs_last_holds [OF t(2,3) k(2) t(4), of w']
    unfolding xargs_def Let_def rt cmd_def [symmetric] by simp
  moreover have "\<forall>b\<in>set (batches k ws). b \<noteq> [] \<and> length (cmd @ b) \<le> 31"
    using batches_length [of _ k ws] k(2) by (fastforce simp: XMAXARG_def)
  ultimately show ?thesis
    unfolding Let_def rt_def [symmetric] cmd_def [symmetric] k_def [symmetric] ws_def [symmetric]
    using batches_concat [OF k(1), of ws] by auto
qed

text \<open>The two tests of \<^verbatim>\<open>grade-lab-util\<close> with an input of two lines.\<close>

lemma xargs_batches_witness:
  "(\<exists>t. xargs [chars ''xargs'', chars ''echo''] (replicate 32 None) (demo_usys [chars ''1'' @ [10], chars ''2'' @ [10]]) = UExit 0 t \<and>
    u_runs t = [[chars ''echo'', chars ''1'', chars ''2'']]) \<and>
   (\<exists>t. xargs [chars ''xargs'', chars ''-n'', chars ''1'', chars ''echo''] (replicate 32 None)
      (demo_usys [chars ''1'' @ [10], chars ''2'' @ [10]]) = UExit 0 t \<and>
    u_runs t = [[chars ''echo'', chars ''1''], [chars ''echo'', chars ''2'']])"
proof -
  define argv where "argv = [chars ''xargs'', chars ''echo'']"
  define argn where "argn = [chars ''xargs'', chars ''-n'', chars ''1'', chars ''echo'']"
  define s where "s = demo_usys [chars ''1'' @ [10], chars ''2'' @ [10]]"
  have p: "pending (u_fd s 0) = chars ''1'' @ 10 # chars ''2'' @ [10]" by (simp add: s_def demo_usys_def pending_def chars_def)
  have w: "xwords (pieces_of blank [] (chars ''1'' @ 10 # chars ''2'' @ [10])) = [chars ''1'', chars ''2'']"
    by (simp add: chars_def blank_def xwords_def)
  have b: "batches 1 [chars ''1'', chars ''2''] = [[chars ''1''], [chars ''2'']]"
    "batches 30 [chars ''1'', chars ''2''] = [[chars ''1'', chars ''2'']]" by (simp_all add: batches.simps)
  have v: "argv ! 1 = chars ''echo''" "length argv = 2" "drop 1 argv = [chars ''echo'']" by (simp_all add: argv_def)
  have a: "argn ! 1 = chars ''-n''" "length argn = 4" "drop 3 argn = [chars ''echo'']" by (simp_all add: argn_def)
  have T: "let rt = (x ! 1 = chars ''-n'' \<and> 3 < length x); cmd = drop (if rt then 3 else 1) x;
      bs = batches (if rt then 1 else 31 - length cmd) (xwords (pieces_of blank [] (pending (u_fd s 0))))
    in \<exists>t. xargs x (replicate 32 None) s = UExit 0 t \<and> u_runs t = u_runs s @ map (\<lambda>b. cmd @ b) bs \<and>
      concat bs = xwords (pieces_of blank [] (pending (u_fd s 0))) \<and>
      (\<forall>b\<in>set bs. b \<noteq> [] \<and> length (cmd @ b) \<le> 31)" if x: "x = argv \<or> x = argn" for x
  proof (rule xargs_batches)
    show "0 \<notin> set (x ! 1)" using x by (elim disjE) (simp_all only: v(1) a(1), simp_all add: chars_def)
  qed (use x in \<open>auto simp: a(2) v(2) s_def demo_usys_def\<close>)
  have r: "u_runs s = []" by (simp add: s_def demo_usys_def)
  have "\<exists>t. xargs argv (replicate 32 None) s = UExit 0 t \<and> u_runs t = [[chars ''echo'', chars ''1'', chars ''2'']]"
    using T [OF disjI1 [OF refl]] by (auto simp: v [unfolded One_nat_def] p w b r Let_def)
  moreover have "\<exists>t. xargs argn (replicate 32 None) s = UExit 0 t \<and> u_runs t = [[chars ''echo'', chars ''1''], [chars ''echo'', chars ''2'']]"
    using T [OF disjI2 [OF refl]] by (auto simp: a [unfolded One_nat_def] p w b [unfolded One_nat_def] r Let_def)
  ultimately show ?thesis unfolding argv_def [symmetric] argn_def [symmetric] s_def [symmetric] by blast
qed

end
