(* ===== verification/Mkfs.thy ===== *)
theory Mkfs
  imports Fsdata
begin

text \<open>
  \<^verbatim>\<open>mkfs/mkfs.c\<close>: the program of the host that builds the image of the first file system.

  The image is a sequence of sectors, of which the first \<open>mk_len\<close> exist; \<open>None\<close> is an exit of the
  program through \<open>die\<close> or a failed assertion. A \<open>struct dinode\<close> is its 64 bytes. The files of the
  host are given by what the reads from them deliver. Writing to the image is taken to succeed.
\<close>

record mkst =
  mk_img :: "nat \<Rightarrow> bytes"
  mk_len :: nat
  freeinode :: u32
  freeblock :: u32

definition NINODES :: nat where "NINODES = 200"
definition nbitmap :: nat where "nbitmap = FSSIZE div BPB + 1"
definition ninodeblocks :: nat where "ninodeblocks = NINODES div IPB + 1"
definition nlog :: nat where "nlog = LOGBLOCKS + 1"
definition nmeta :: nat where "nmeta = 2 + nlog + ninodeblocks + nbitmap"

text \<open>The bytes of the result are those of the argument, least significant first; the host is little-endian.\<close>

definition xshort :: "u16 \<Rightarrow> u16" where
  "xshort x = ucast (ucast x :: u8) OR push_bit 8 (ucast (ucast (drop_bit 8 x) :: u8))"

definition xint :: "u32 \<Rightarrow> u32" where
  "xint x = ucast (ucast x :: u8) OR push_bit 8 (ucast (ucast (drop_bit 8 x) :: u8)) OR
    push_bit 16 (ucast (ucast (drop_bit 16 x) :: u8)) OR push_bit 24 (ucast (ucast (drop_bit 24 x) :: u8))"

definition mk_sb :: superblock where
  "mk_sb = \<lparr>sb_magic = FSMAGIC, sb_size = xint (of_nat FSSIZE), sb_nblocks = xint (of_nat (FSSIZE - nmeta)),
    sb_ninodes = xint (of_nat NINODES), sb_nlog = xint (of_nat nlog), sb_logstart = xint 2,
    sb_inodestart = xint (of_nat (2 + nlog)), sb_bmapstart = xint (of_nat (2 + nlog + ninodeblocks))\<rparr>"

definition put_sb :: "bytes \<Rightarrow> superblock \<Rightarrow> bytes" where
  "put_sb b p =
    put32 (put32 (put32 (put32 (put32 (put32 (put32 (put32 b 0 (sb_magic p)) 4 (sb_size p)) 8 (sb_nblocks p))
      12 (sb_ninodes p)) 16 (sb_nlog p)) 20 (sb_logstart p)) 24 (sb_inodestart p)) 28 (sb_bmapstart p)"

section \<open>Sectors and inodes\<close>

text \<open>The offset \<open>sec * BSIZE\<close> is computed in 32 bits.\<close>

definition sector :: "u32 \<Rightarrow> nat" where
  "sector sec = unat (sec * of_nat BSIZE) div BSIZE"

definition wsect :: "u32 \<Rightarrow> bytes \<Rightarrow> mkst \<Rightarrow> mkst" where
  "wsect sec buf s = s\<lparr>mk_img := (mk_img s)(sector sec := buf), mk_len := max (mk_len s) (sector sec + 1)\<rparr>"

definition rsect :: "u32 \<Rightarrow> mkst \<Rightarrow> bytes option" where
  "rsect sec s = (if sector sec < mk_len s then Some (mk_img s (sector sec)) else None)"

definition winode :: "u32 \<Rightarrow> bytes \<Rightarrow> mkst \<Rightarrow> mkst option" where
  "winode inum ip s =
    (let bn = IBLOCK inum mk_sb in
     case rsect bn s of None \<Rightarrow> None
     | Some buf \<Rightarrow> Some (wsect bn (splice buf (dino_off inum) ip 64) s))"

definition rinode :: "u32 \<Rightarrow> mkst \<Rightarrow> bytes option" where
  "rinode inum s = map_option (\<lambda>buf. at buf (dino_off inum)) (rsect (IBLOCK inum mk_sb) s)"

definition mk_ialloc :: "u16 \<Rightarrow> mkst \<Rightarrow> (u32 \<times> mkst) option" where
  "mk_ialloc type s =
    (let inum = freeinode s;
         s = s\<lparr>freeinode := freeinode s + 1\<rparr>;
         din = put16 (\<lambda>_. 0) 0 (xshort type);
         din = put16 din 6 (xshort 1);
         din = put32 din 8 (xint 0)
     in map_option (\<lambda>s. (inum, s)) (winode inum din s))"

definition mk_balloc :: "int \<Rightarrow> mkst \<Rightarrow> mkst option" where
  "mk_balloc used s =
    (if used < int BPB then
       let buf = fold (\<lambda>i b. b(i div 8 := b (i div 8) OR push_bit (i mod 8) 1)) [0..<nat used] (\<lambda>_. 0)
       in Some (wsect (sb_bmapstart mk_sb) buf s)
     else None)"

section \<open>Appending to a file\<close>

definition new_block :: "mkst \<Rightarrow> u32 \<times> mkst" where
  "new_block s = (freeblock s, s\<lparr>freeblock := freeblock s + 1\<rparr>)"

text \<open>The entry at \<open>j\<close> of the indirect block \<open>ia\<close>.\<close>

definition mk_indirect :: "u32 \<Rightarrow> nat \<Rightarrow> bytes \<Rightarrow> mkst \<Rightarrow> (u32 \<times> bytes \<times> mkst) option" where
  "mk_indirect ia j din s =
    (case rsect ia s of None \<Rightarrow> None
     | Some indirect \<Rightarrow>
        if get32 indirect j = 0 then
          (case new_block s of (b, s) \<Rightarrow>
            let indirect = put32 indirect j (xint b);
                s = wsect ia indirect s
            in Some (xint (get32 indirect j), din, s))
        else Some (xint (get32 indirect j), din, s))"

text \<open>The block that holds block \<open>fbn\<close> of the file, allocated if it does not exist.\<close>

definition mk_bmap :: "u32 \<Rightarrow> bytes \<Rightarrow> mkst \<Rightarrow> (u32 \<times> bytes \<times> mkst) option" where
  "mk_bmap fbn din s =
    (if fbn < of_nat NDIRECT then
       let a = 12 + 4 * unat fbn;
           (din, s) = (if xint (get32 din a) = 0 then (case new_block s of (b, s) \<Rightarrow> (put32 din a (xint b), s)) else (din, s))
       in Some (xint (get32 din a), din, s)
     else
       let a = 12 + 4 * NDIRECT;
           (din, s) = (if xint (get32 din a) = 0 then (case new_block s of (b, s) \<Rightarrow> (put32 din a (xint b), s)) else (din, s));
           j = 4 * (unat fbn - NDIRECT)
       in mk_indirect (xint (get32 din a)) j din s)"

lemma block_of: "unat (off div of_nat BSIZE :: u32) = unat off div BSIZE"
  by (simp add: unat_div BSIZE_def)

lemma rest_of_block:
  fixes off :: u32
  assumes "unat off div BSIZE < MAXFILE"
  shows "unat ((off div of_nat BSIZE + 1) * of_nat BSIZE - off) = BSIZE - unat off mod BSIZE"
    and "unat (off - off div of_nat BSIZE * of_nat BSIZE) = unat off mod BSIZE"
proof -
  define q where "q = unat off div 1024"
  have q: "q < 268" using assms by (simp add: q_def MAXFILE_def NDIRECT_def NINDIRECT_def BSIZE_def)
  have off: "unat off = 1024 * q + unat off mod 1024" by (simp add: q_def)
  have d: "unat (off div 1024) = q" by (simp add: q_def unat_div)
  have u: "unat (of_nat k :: u32) = k" if "k < 2 ^ 32" for k using that by (simp add: unsigned_of_nat take_bit_nat_eq_self)
  have "off div 1024 = of_nat q" using d q u [of q] by (simp add: word_unat_eq_iff)
  then have e: "(off div 1024 + 1) * 1024 = of_nat ((q + 1) * 1024)" "off div 1024 * 1024 = of_nat (q * 1024)" by simp_all
  have m: "unat ((off div 1024 + 1) * 1024) = (q + 1) * 1024" "unat (off div 1024 * 1024) = q * 1024"
    unfolding e using q by (intro u; simp)+
  have "unat off mod 1024 < 1024" by simp
  then have "off \<le> (off div 1024 + 1) * 1024" "off div 1024 * 1024 \<le> off"
    using off unfolding word_le_nat_alt m by simp_all
  then show "unat ((off div of_nat BSIZE + 1) * of_nat BSIZE - off) = BSIZE - unat off mod BSIZE"
    "unat (off - off div of_nat BSIZE * of_nat BSIZE) = unat off mod BSIZE"
    using off by (simp_all add: BSIZE_def unat_sub m [simplified])
qed

lemma sint_pos: "0 < sint (n :: u32) \<Longrightarrow> n \<noteq> 0"
  by auto

lemma rest_less:
  fixes off n :: u32
  assumes "0 < sint n" "unat off div BSIZE < MAXFILE"
  shows "unat (n - min n ((off div of_nat BSIZE + 1) * of_nat BSIZE - off)) < unat n"
proof -
  have "n \<noteq> 0" "unat off mod BSIZE < BSIZE" using assms(1) by (auto simp: BSIZE_def)
  then have "0 < unat ((off div of_nat BSIZE + 1) * of_nat BSIZE - off)" "0 < unat n"
    using rest_of_block(1) [OF assms(2)] by (simp_all add: unat_gt_0)
  then have "0 < unat (min n ((off div of_nat BSIZE + 1) * of_nat BSIZE - off))" by (simp add: min_def)
  then show ?thesis using \<open>0 < unat n\<close> by (simp add: unat_sub)
qed

text \<open>\<open>n\<close> is an \<open>int\<close>; the smaller one of it and the rest of the block is taken as unsigned numbers.\<close>

function iappend_loop :: "bytes \<Rightarrow> u32 \<Rightarrow> bytes \<Rightarrow> u32 \<Rightarrow> mkst \<Rightarrow> (bytes \<times> u32 \<times> mkst) option" where
  "iappend_loop din off p n s =
    (if 0 < sint n then
       let fbn = off div of_nat BSIZE in
       if \<not> unat fbn < MAXFILE then None
       else
         case mk_bmap fbn din s of None \<Rightarrow> None
         | Some (x, din, s) \<Rightarrow>
            let n1 = min n ((fbn + 1) * of_nat BSIZE - off) in
            (case rsect x s of None \<Rightarrow> None
             | Some buf \<Rightarrow>
                let s = wsect x (splice buf (unat (off - fbn * of_nat BSIZE)) p (unat n1)) s
                in iappend_loop din (off + n1) (at p (unat n1)) (n - n1) s)
     else Some (din, off, s))"
  by pat_completeness auto
termination
  by (relation "measure (\<lambda>(din, off, p, n, s). unat n)") (auto simp: block_of intro!: rest_less)

declare iappend_loop.simps [simp del]

definition iappend :: "u32 \<Rightarrow> bytes \<Rightarrow> u32 \<Rightarrow> mkst \<Rightarrow> mkst option" where
  "iappend inum xp n s =
    (case rinode inum s of None \<Rightarrow> None
     | Some din \<Rightarrow>
        (case iappend_loop din (xint (get32 din 8)) xp n s of None \<Rightarrow> None
         | Some (din, off, s) \<Rightarrow> winode inum (put32 din 8 (xint off)) s))"

section \<open>The program\<close>

text \<open>
  What the host provides: whether the image can be opened, and the files, with what each read of
  up to \<open>BSIZE\<close> bytes delivers.
\<close>

record host =
  h_image :: bool
  h_files :: "u8 list \<Rightarrow> u8 list list option"

text \<open>The prefix \<^verbatim>\<open>user/\<close> and a leading underscore are dropped from the name of a file.\<close>

definition shortname :: "u8 list \<Rightarrow> u8 list" where
  "shortname path =
    (if strncmp (str path) (str [117, 115, 101, 114, 47]) 5 = 0 then drop 5 path else path)"

definition mk_name :: "u8 list \<Rightarrow> u8 list" where
  "mk_name short = (if short \<noteq> [] \<and> hd short = 95 then tl short else short)"

fun append_chunks :: "u32 \<Rightarrow> u8 list list \<Rightarrow> mkst \<Rightarrow> mkst option" where
  "append_chunks inum [] s = Some s"
| "append_chunks inum (c # cs) s =
    (if length c = 0 then Some s
     else case iappend inum (str c) (of_nat (length c)) s of None \<Rightarrow> None
          | Some s \<Rightarrow> append_chunks inum cs s)"

definition mk_dirent :: "u32 \<Rightarrow> u8 list \<Rightarrow> bytes" where
  "mk_dirent inum name =
    (let de = put16 (\<lambda>_. 0) 0 (xshort (ucast inum)) in splice de 2 (strncpy (at de 2) (str name) DIRSIZ) DIRSIZ)"

definition mk_file :: "host \<Rightarrow> u32 \<Rightarrow> u8 list \<Rightarrow> mkst \<Rightarrow> mkst option" where
  "mk_file h rootino path s =
    (let short = shortname path in
     if 47 \<in> set short then None
     else case h_files h path of None \<Rightarrow> None
     | Some chunks \<Rightarrow>
        let name = mk_name short in
        if \<not> length name \<le> DIRSIZ then None
        else case mk_ialloc T_FILE s of None \<Rightarrow> None
        | Some (inum, s) \<Rightarrow>
           (case iappend rootino (mk_dirent inum name) 16 s of None \<Rightarrow> None
            | Some s \<Rightarrow> append_chunks inum chunks s))"

fun mk_files :: "host \<Rightarrow> u32 \<Rightarrow> u8 list list \<Rightarrow> mkst \<Rightarrow> mkst option" where
  "mk_files h rootino [] s = Some s"
| "mk_files h rootino (p # ps) s = (case mk_file h rootino p s of None \<Rightarrow> None | Some s \<Rightarrow> mk_files h rootino ps s)"

text \<open>The size of the root directory is rounded up to the end of a block.\<close>

definition fix_root :: "u32 \<Rightarrow> mkst \<Rightarrow> mkst option" where
  "fix_root rootino s =
    (case rinode rootino s of None \<Rightarrow> None
     | Some din \<Rightarrow>
        let off = xint (get32 din 8);
            off = (off div of_nat BSIZE + 1) * of_nat BSIZE
        in winode rootino (put32 din 8 (xint off)) s)"

definition mk_start :: mkst where
  "mk_start = \<lparr>mk_img = (\<lambda>_ _. 0), mk_len = 0, freeinode = 1, freeblock = of_nat nmeta\<rparr>"

text \<open>Strings are copied into \<open>de.name\<close> by \<open>strcpy\<close> for the two first entries; they fit.\<close>

definition mkfs :: "host \<Rightarrow> u8 list list \<Rightarrow> mkst option" where
  "mkfs h argv =
    (if length argv < 2 \<or> \<not> h_image h then None
     else
       let s = fold (\<lambda>i. wsect (of_nat i) (\<lambda>_. 0)) [0..<FSSIZE] mk_start;
           s = wsect 1 (put_sb (\<lambda>_. 0) mk_sb) s
       in case mk_ialloc T_DIR s of None \<Rightarrow> None
       | Some (rootino, s) \<Rightarrow>
       if rootino \<noteq> ROOTINO then None
       else case iappend rootino (mk_dirent rootino [46]) 16 s of None \<Rightarrow> None
       | Some s \<Rightarrow>
       (case iappend rootino (mk_dirent rootino [46, 46]) 16 s of None \<Rightarrow> None
       | Some s \<Rightarrow>
       (case mk_files h rootino (drop 2 argv) s of None \<Rightarrow> None
       | Some s \<Rightarrow>
       (case fix_root rootino s of None \<Rightarrow> None
       | Some s \<Rightarrow> mk_balloc (sint (freeblock s)) s))))"

end
