(* ===== verification/Mkimage.thy ===== *)
theory Mkimage
  imports Mkfs
begin

text \<open>
  What the image of \<^verbatim>\<open>mkfs/mkfs.c\<close> holds, as the kernel's \<^verbatim>\<open>fs.c\<close> reads it: a file is the bytes of the blocks
  that its inode lists. The proof keeps, for every inode, the list \<open>bs\<close> of its blocks and the
  list \<open>ia\<close> of its indirect blocks (none or one).
\<close>

section \<open>Constants and sectors\<close>

lemmas mk_consts = BSIZE_def NDIRECT_def NINDIRECT_def MAXFILE_def FSSIZE_def

lemma xint_id [simp]: "xint x = x"
proof (rule bit_word_eqI)
  fix n assume "n < LENGTH(32)"
  then consider "n < 8" | "8 \<le> n" "n < 16" | "16 \<le> n" "n < 24" | "24 \<le> n" "n < 32" by auto linarith
  then show "bit (xint x) n = bit x n" by cases (simp_all add: xint_def bit_simps, auto)
qed

lemma xshort_id [simp]: "xshort x = x"
  by (rule bit_word_eqI) (auto simp: xshort_def bit_simps)

lemma unat_small: "k < 2 ^ 32 \<Longrightarrow> unat (of_nat k :: u32) = k"
  by (simp add: unsigned_of_nat take_bit_nat_eq_self)

lemma of_nat_inj32: "j < 2 ^ 32 \<Longrightarrow> k < 2 ^ 32 \<Longrightarrow> (of_nat j :: u32) = of_nat k \<longleftrightarrow> j = k"
  using unat_small by metis

lemma sector_nat: "k < 2 ^ 22 \<Longrightarrow> sector (of_nat k) = k"
proof -
  assume k: "k < 2 ^ 22"
  then have "unat (of_nat (k * 1024) :: u32) = k * 1024" by (intro unat_small) simp
  then show ?thesis by (simp add: sector_def BSIZE_def)
qed

lemma rsect_nat: "k < 2 ^ 22 \<Longrightarrow> rsect (of_nat k) s = (if k < mk_len s then Some (mk_img s k) else None)"
  by (simp add: rsect_def sector_nat)

lemma wsect_nat: "k < 2 ^ 22 \<Longrightarrow>
    wsect (of_nat k) buf s = s\<lparr>mk_img := (mk_img s)(k := buf), mk_len := max (mk_len s) (k + 1)\<rparr>"
  by (simp add: wsect_def sector_nat)

section \<open>The blocks of a file\<close>

definition blocks_at :: "(nat \<Rightarrow> bytes) \<Rightarrow> bytes \<Rightarrow> nat list \<Rightarrow> nat list \<Rightarrow> bool" where
  "blocks_at img din bs ia \<longleftrightarrow>
    (\<forall>k<12. get32 din (12 + 4 * k) = (if k < length bs then of_nat (bs ! k) else 0)) \<and>
    (if length bs \<le> 12 then ia = [] \<and> get32 din 60 = 0
     else length ia = 1 \<and> get32 din 60 = of_nat (hd ia) \<and>
       (\<forall>k<256. get32 (img (hd ia)) (4 * k) = (if k + 12 < length bs then of_nat (bs ! (k + 12)) else 0))) \<and>
    length bs \<le> 268 \<and> distinct (bs @ ia)"

definition holds_data :: "(nat \<Rightarrow> bytes) \<Rightarrow> nat list \<Rightarrow> u8 list \<Rightarrow> bool" where
  "holds_data img bs x \<longleftrightarrow> length x \<le> 1024 * length bs \<and>
    (\<forall>i<1024 * length bs. img (bs ! (i div 1024)) (i mod 1024) = (if i < length x then x ! i else 0))"

text \<open>The state, while blocks are added to a file; \<open>fb\<close> is the first free block, and all from there on are zero.\<close>

definition room_ok :: "mkst \<Rightarrow> nat \<Rightarrow> bool" where
  "room_ok s fb \<longleftrightarrow> mk_len s = 2000 \<and> freeblock s = of_nat fb \<and> 47 \<le> fb \<and> fb \<le> 2000 \<and>
    (\<forall>b i. fb \<le> b \<and> b < 2000 \<and> i < 1024 \<longrightarrow> mk_img s b i = 0)"

definition file_at :: "mkst \<Rightarrow> bytes \<Rightarrow> nat list \<Rightarrow> nat list \<Rightarrow> nat \<Rightarrow> u8 list \<Rightarrow> bool" where
  "file_at s din bs ia fb x \<longleftrightarrow> blocks_at (mk_img s) din bs ia \<and> holds_data (mk_img s) bs x \<and> room_ok s fb \<and>
    set (bs @ ia) \<subseteq> {47..<fb}"

definition same_blocks :: "mkst \<Rightarrow> mkst \<Rightarrow> nat set \<Rightarrow> nat \<Rightarrow> bool" where
  "same_blocks s t B fb \<longleftrightarrow> (\<forall>b. b \<notin> B \<and> (b < fb \<or> 2000 \<le> b) \<longrightarrow> mk_img t b = mk_img s b) \<and> freeinode t = freeinode s"

lemma same_blocks_refl [simp]: "same_blocks s s B fb"
  by (simp add: same_blocks_def)

lemma same_blocks_trans:
  assumes "same_blocks s t B fb" "same_blocks t u C fc" "fb \<le> fc" "C \<subseteq> B \<union> {fb..<2000}"
  shows "same_blocks s u B fb"
  unfolding same_blocks_def
proof (intro conjI allI impI)
  fix b assume b: "b \<notin> B \<and> (b < fb \<or> 2000 \<le> b)"
  then have "b \<notin> C \<and> (b < fc \<or> 2000 \<le> b)" using assms(3,4) by auto
  then show "mk_img u b = mk_img s b" using b assms(1,2) by (simp add: same_blocks_def)
qed (use assms in \<open>simp add: same_blocks_def\<close>)

lemma holds_data_snoc:
  assumes "holds_data img bs x" "\<forall>i<1024. img a i = 0"
  shows "holds_data img (bs @ [a]) x"
  unfolding holds_data_def
proof (intro conjI allI impI)
  show "length x \<le> 1024 * length (bs @ [a])" using assms(1) by (simp add: holds_data_def)
  fix i assume i: "i < 1024 * length (bs @ [a])"
  show "img ((bs @ [a]) ! (i div 1024)) (i mod 1024) = (if i < length x then x ! i else 0)"
  proof (cases "i < 1024 * length bs")
    case True
    then have "i div 1024 < length bs" by (simp add: less_mult_imp_div_less mult.commute)
    then show ?thesis using True assms(1) by (simp add: holds_data_def nth_append)
  next
    case False
    then have "i div 1024 = length bs" using i by (intro div_nat_eqI) auto
    then show ?thesis using False assms by (simp add: holds_data_def)
  qed
qed

lemma holds_data_cong: "(\<And>b. b \<in> set bs \<Longrightarrow> img' b = img b) \<Longrightarrow> holds_data img bs x \<Longrightarrow> holds_data img' bs x"
  by (auto simp: holds_data_def less_mult_imp_div_less mult.commute)

section \<open>Allocating a block\<close>

lemma room_less: "room_ok s fb \<Longrightarrow> b < 2000 \<Longrightarrow> rsect (of_nat b) s = Some (mk_img s b)"
  by (simp add: room_ok_def rsect_nat)

lemma room_wsect: "room_ok s fb \<Longrightarrow> b < 2000 \<Longrightarrow> wsect (of_nat b) buf s = s\<lparr>mk_img := (mk_img s)(b := buf)\<rparr>"
  by (simp add: room_ok_def wsect_nat max_def)

lemma nth_block:
  assumes "file_at s din bs ia fb x" "k < length bs"
  shows "47 \<le> bs ! k" "bs ! k < fb" "bs ! k < 2000" "(of_nat (bs ! k) :: u32) \<noteq> 0"
proof -
  have "bs ! k \<in> set (bs @ ia)" using assms(2) by simp
  moreover have "set (bs @ ia) \<subseteq> {47..<fb}" "fb \<le> 2000" using assms(1) by (auto simp: file_at_def room_ok_def)
  ultimately have "bs ! k \<in> {47..<fb}" "fb \<le> 2000" by blast+
  then show b: "47 \<le> bs ! k" "bs ! k < fb" "bs ! k < 2000" by auto
  then show "(of_nat (bs ! k) :: u32) \<noteq> 0" using of_nat_inj32 [of "bs ! k" 0] by simp
qed

lemma mk_bmap_direct:
  assumes f: "file_at s din bs ia fb x" and k: "length bs < 12" and fb: "fb < 2000"
  shows "mk_bmap (of_nat (length bs)) din s =
      Some (of_nat fb, put32 din (12 + 4 * length bs) (of_nat fb), s\<lparr>freeblock := of_nat (fb + 1)\<rparr>)"
    and "file_at (s\<lparr>freeblock := of_nat (fb + 1)\<rparr>) (put32 din (12 + 4 * length bs) (of_nat fb)) (bs @ [fb]) ia (fb + 1) x"
proof -
  have z: "get32 din (12 + 4 * length bs) = 0" using f k by (simp add: file_at_def blocks_at_def)
  have free: "freeblock s = of_nat fb" "\<forall>i<1024. mk_img s fb i = 0" using f fb by (auto simp: file_at_def room_ok_def)
  have lt: "(of_nat (length bs) :: u32) < of_nat NDIRECT"
    using k by (simp add: word_less_nat_alt unat_small NDIRECT_def)
  show "mk_bmap (of_nat (length bs)) din s =
      Some (of_nat fb, put32 din (12 + 4 * length bs) (of_nat fb), s\<lparr>freeblock := of_nat (fb + 1)\<rparr>)"
    using k lt by (simp add: mk_bmap_def Let_def new_block_def unat_small z free get32_put32)
  have "get32 (put32 din (12 + 4 * length bs) (of_nat fb)) (12 + 4 * j) =
      (if j < Suc (length bs) then of_nat ((bs @ [fb]) ! j) else 0)" if "j < 12" for j
  proof -
    consider "j < length bs" | "j = length bs" | "length bs < j" by linarith
    then show ?thesis
      by cases (use f that in \<open>simp_all add: get32_put32 put_other nth_append file_at_def blocks_at_def\<close>)
  qed
  moreover have "fb \<notin> set (bs @ ia)" using f by (auto simp: file_at_def)
  moreover have "ia = []" "get32 (put32 din (12 + 4 * length bs) (of_nat fb)) 60 = 0"
    using f k by (simp_all add: file_at_def blocks_at_def put_other)
  ultimately have "blocks_at (mk_img s) (put32 din (12 + 4 * length bs) (of_nat fb)) (bs @ [fb]) ia"
    using f k by (simp add: file_at_def blocks_at_def)
  moreover have "holds_data (mk_img s) (bs @ [fb]) x"
    using f free(2) by (intro holds_data_snoc) (auto simp: file_at_def)
  ultimately show "file_at (s\<lparr>freeblock := of_nat (fb + 1)\<rparr>) (put32 din (12 + 4 * length bs) (of_nat fb)) (bs @ [fb]) ia (fb + 1) x"
    using f fb by (auto simp: file_at_def room_ok_def)
qed

text \<open>
  From the thirteenth block on. The state with an indirect block \<open>c\<close> that lists the blocks after
  the twelfth; when there are twelve, the indirect block has just been allocated.
\<close>

definition indirect_at :: "mkst \<Rightarrow> bytes \<Rightarrow> nat list \<Rightarrow> nat \<Rightarrow> bool" where
  "indirect_at s din bs c \<longleftrightarrow> 12 \<le> length bs \<and> length bs < 268 \<and> distinct (bs @ [c]) \<and>
    (\<forall>k<12. get32 din (12 + 4 * k) = of_nat (bs ! k)) \<and> get32 din 60 = of_nat c \<and>
    (\<forall>k<256. get32 (mk_img s c) (4 * k) = (if k + 12 < length bs then of_nat (bs ! (k + 12)) else 0))"

lemma indirect_snoc:
  assumes i: "indirect_at s din bs c" and h: "holds_data (mk_img s) bs x" and r: "room_ok s fb" "fb < 2000"
    and sub: "set (bs @ [c]) \<subseteq> {47..<fb}"
  defines "t \<equiv> s\<lparr>freeblock := of_nat (fb + 1), mk_img := (mk_img s)(c := put32 (mk_img s c) (4 * (length bs - 12)) (of_nat fb))\<rparr>"
  shows "file_at t din (bs @ [fb]) [c] (fb + 1) x" "same_blocks s t {c} fb"
proof -
  have c: "c \<notin> set bs" "c < fb" "47 \<le> c" and fb: "fb \<notin> set (bs @ [c])" using i sub by (auto simp: indirect_at_def)
  have len: "12 \<le> length bs" "length bs < 268" using i by (simp_all add: indirect_at_def)
  have "get32 (mk_img t c) (4 * k) = (if k + 12 < Suc (length bs) then of_nat ((bs @ [fb]) ! (k + 12)) else 0)" if "k < 256" for k
  proof -
    consider "k + 12 < length bs" | "k + 12 = length bs" | "length bs < k + 12" by linarith
    then show ?thesis
    proof cases
      case 1
      then have "4 * k + 4 \<le> 4 * (length bs - 12)" by linarith
      then show ?thesis using 1 i that len by (simp add: t_def put_other nth_append indirect_at_def)
    next
      case 2
      then have "length bs - 12 = k" by simp
      then show ?thesis using 2 by (simp add: t_def get32_put32 nth_append)
    next
      case 3
      then have "4 * (length bs - 12) + 4 \<le> 4 * k" using len by linarith
      then show ?thesis using 3 i that len by (simp add: t_def put_other indirect_at_def)
    qed
  qed
  then have "blocks_at (mk_img t) din (bs @ [fb]) [c]"
    using i fb len c by (auto simp: blocks_at_def indirect_at_def nth_append)
  moreover have "holds_data (mk_img t) (bs @ [fb]) x"
  proof (rule holds_data_snoc)
    show "holds_data (mk_img t) bs x" by (rule holds_data_cong [OF _ h]) (use c in \<open>auto simp: t_def\<close>)
    show "\<forall>i<1024. mk_img t fb i = 0" using r c(2) by (auto simp: t_def room_ok_def)
  qed
  moreover have "room_ok t (fb + 1)" using r c(2) by (auto simp: t_def room_ok_def)
  ultimately show "file_at t din (bs @ [fb]) [c] (fb + 1) x" using sub by (auto simp: file_at_def)
  show "same_blocks s t {c} fb" by (auto simp: same_blocks_def t_def)
qed

lemma indirect_bmap:
  assumes i: "indirect_at s din bs c" and r: "room_ok s fb" "fb < 2000" and c: "c < fb"
  shows "mk_indirect (of_nat c) (4 * (length bs - 12)) din s =
    Some (of_nat fb, din, s\<lparr>freeblock := of_nat (fb + 1),
      mk_img := (mk_img s)(c := put32 (mk_img s c) (4 * (length bs - 12)) (of_nat fb))\<rparr>)"
proof -
  have "length bs - 12 < 256" "\<not> length bs - 12 + 12 < length bs" using i by (auto simp: indirect_at_def)
  then have "get32 (mk_img s c) (4 * (length bs - 12)) = 0" using i unfolding indirect_at_def by metis
  moreover have "c < 2000" "freeblock s = of_nat fb" "mk_len s = 2000" using r c by (simp_all add: room_ok_def)
  ultimately show ?thesis
    by (simp add: mk_indirect_def rsect_nat wsect_nat new_block_def Let_def get32_put32 max_def)
qed

lemma mk_bmap_indirect:
  assumes f: "file_at s din bs ia fb x" and k: "12 \<le> length bs" "length bs < 268"
    and fb: "(if length bs = 12 then fb + 1 else fb) < 2000"
  obtains din' c t where "mk_bmap (of_nat (length bs)) din s = Some (of_nat (if length bs = 12 then fb + 1 else fb), din', t)"
    "file_at t din' (bs @ [if length bs = 12 then fb + 1 else fb]) [c] ((if length bs = 12 then fb + 1 else fb) + 1) x"
    "same_blocks s t (set ia) fb" "\<forall>i<12. din' i = din i" "c \<in> set ia \<union> {fb}"
proof -
  have lt: "\<not> (of_nat (length bs) :: u32) < of_nat NDIRECT" "unat (of_nat (length bs) :: u32) = length bs"
    using k by (simp_all add: word_less_nat_alt unat_small NDIRECT_def)
  show thesis
  proof (cases "length bs = 12")
    case True
    define s1 where "s1 = s\<lparr>freeblock := of_nat (fb + 1)\<rparr>"
    define din' where "din' = put32 din 60 (of_nat fb)"
    have f': "ia = []" "get32 din 60 = 0" "holds_data (mk_img s) bs x" "room_ok s fb" "distinct bs" "set bs \<subseteq> {47..<fb}"
        "\<forall>k<12. get32 din (12 + 4 * k) = of_nat (bs ! k)"
      using f True by (simp_all add: file_at_def blocks_at_def)
    have z: "\<forall>i<1024. mk_img s fb i = 0" using f'(4) fb True by (simp add: room_ok_def)
    have ind: "indirect_at s1 din' bs fb"
      unfolding indirect_at_def s1_def din'_def
      using f' z True get32_zero by (auto simp: get32_put32 put_other)
    have room: "room_ok s1 (fb + 1)" "fb + 1 < 2000" using f'(4) fb True by (auto simp: s1_def room_ok_def)
    have hold: "holds_data (mk_img s1) bs x" using f'(3) by (simp add: s1_def)
    have sub: "set (bs @ [fb]) \<subseteq> {47..<fb + 1}" using f'(4,6) by (auto simp: room_ok_def)
    note snoc = indirect_snoc [OF ind hold room sub]
    have suc: "(of_nat fb :: u32) + 1 = of_nat (Suc fb)" by simp
    show thesis
    proof (rule that)
      show "mk_bmap (of_nat (length bs)) din s = Some (of_nat (if length bs = 12 then fb + 1 else fb), din',
          s1\<lparr>freeblock := of_nat (fb + 1 + 1), mk_img := (mk_img s1)(fb := put32 (mk_img s1 fb) (4 * (length bs - 12)) (of_nat (fb + 1)))\<rparr>)"
        using indirect_bmap [OF ind room] f'(2,4) lt True
        by (simp add: mk_bmap_def Let_def new_block_def NDIRECT_def s1_def din'_def get32_put32 room_ok_def suc
            del: of_nat_add of_nat_Suc)
      show "same_blocks s (s1\<lparr>freeblock := of_nat (fb + 1 + 1),
          mk_img := (mk_img s1)(fb := put32 (mk_img s1 fb) (4 * (length bs - 12)) (of_nat (fb + 1)))\<rparr>) (set ia) fb"
        using fb True by (auto simp: same_blocks_def s1_def)
      show "\<forall>i<12. din' i = din i" by (simp add: din'_def put_outside)
    qed (use snoc(1) True in auto)
  next
    case False
    then obtain c where f': "ia = [c]" "get32 din 60 = of_nat c" "holds_data (mk_img s) bs x" "room_ok s fb"
        "set (bs @ [c]) \<subseteq> {47..<fb}" "indirect_at s din bs c"
      using f k by (auto simp: file_at_def blocks_at_def indirect_at_def length_Suc_conv)
    then have c: "c < fb" "(of_nat c :: u32) \<noteq> 0" using of_nat_inj32 [of c 0] by (auto simp: room_ok_def)
    note snoc = indirect_snoc [OF f'(6,3,4) _ f'(5)]
    show thesis
    proof (rule that)
      show "mk_bmap (of_nat (length bs)) din s = Some (of_nat (if length bs = 12 then fb + 1 else fb), din,
          s\<lparr>freeblock := of_nat (fb + 1), mk_img := (mk_img s)(c := put32 (mk_img s c) (4 * (length bs - 12)) (of_nat fb))\<rparr>)"
        using indirect_bmap [OF f'(6,4) _ c(1)] f'(2) lt c(2) False fb
        by (simp add: mk_bmap_def Let_def NDIRECT_def)
    qed (use snoc False fb f'(1) in auto)
  qed
qed

text \<open>The number of blocks that a file with \<open>m\<close> blocks of data takes.\<close>

definition used :: "nat \<Rightarrow> nat" where
  "used m = (if m \<le> 12 then m else m + 1)"

lemma used_mono: "m \<le> n \<Longrightarrow> used m \<le> used n"
  by (simp add: used_def)

lemma mk_bmap_next:
  assumes f: "file_at s din bs ia fb x" and k: "length bs < 268" and fb: "fb + used (length bs + 1) \<le> 2000 + used (length bs)"
  obtains a din' ia' t where "mk_bmap (of_nat (length bs)) din s = Some (of_nat a, din', t)"
    "file_at t din' (bs @ [a]) ia' (fb + used (length bs + 1) - used (length bs)) x"
    "same_blocks s t (set (bs @ ia)) fb" "\<forall>i<12. din' i = din i" "set ((bs @ [a]) @ ia') \<subseteq> set (bs @ ia) \<union> {fb..<2000}"
proof (cases "length bs < 12")
  case True
  then have fb: "fb < 2000" "fb + used (length bs + 1) - used (length bs) = fb + 1" using fb by (simp_all add: used_def)
  show ?thesis
    by (rule that [OF mk_bmap_direct(1) [OF f True fb(1)]])
      (use mk_bmap_direct(2) [OF f True fb(1)] fb in \<open>auto simp: same_blocks_def put_outside\<close>)
next
  case False
  define a where "a = (if length bs = 12 then fb + 1 else fb)"
  have a: "a < 2000" "fb + used (length bs + 1) - used (length bs) = a + 1" using fb False by (auto simp: used_def a_def)
  then obtain din' c t where t: "mk_bmap (of_nat (length bs)) din s = Some (of_nat a, din', t)"
    "file_at t din' (bs @ [a]) [c] (a + 1) x"
    "same_blocks s t (set ia) fb" "\<forall>i<12. din' i = din i" "c \<in> set ia \<union> {fb}"
    using mk_bmap_indirect [OF f _ k] False unfolding a_def by (metis linorder_not_le)
  show ?thesis
  proof (rule that [OF t(1)])
    show "same_blocks s t (set (bs @ ia)) fb" using t(3) by (auto simp: same_blocks_def)
    have "fb < 2000" using a(1) by (auto simp: a_def split: if_splits)
    then show "set ((bs @ [a]) @ [c]) \<subseteq> set (bs @ ia) \<union> {fb..<2000}" using t(5) a by (auto simp: a_def)
  qed (use t a in auto)
qed

lemma mk_bmap_hit:
  assumes f: "file_at s din bs ia fb x" and k: "k < length bs"
  shows "mk_bmap (of_nat k) din s = Some (of_nat (bs ! k), din, s)"
proof -
  note b = nth_block [OF f k]
  have k': "k < 268" "unat (of_nat k :: u32) = k" using f k by (auto simp: file_at_def blocks_at_def unat_small)
  show ?thesis
  proof (cases "k < 12")
    case True
    then have "get32 din (12 + 4 * k) = of_nat (bs ! k)" "(of_nat k :: u32) < of_nat NDIRECT"
      using f k by (simp_all add: file_at_def blocks_at_def word_less_nat_alt unat_small NDIRECT_def)
    then show ?thesis using b(4) k' by (simp add: mk_bmap_def Let_def)
  next
    case False
    then obtain c where c: "ia = [c]" "get32 din 60 = of_nat c"
        "\<forall>j<256. get32 (mk_img s c) (4 * j) = (if j + 12 < length bs then of_nat (bs ! (j + 12)) else 0)"
      using f k by (auto simp: file_at_def blocks_at_def length_Suc_conv)
    have e: "get32 (mk_img s c) (4 * (k - 12)) = of_nat (bs ! k)"
      using c(3) [rule_format, of "k - 12"] False k k'(1) by simp
    have "c \<in> {47..<fb}" "room_ok s fb" using f c(1) by (auto simp: file_at_def)
    then have c': "rsect (of_nat c) s = Some (mk_img s c)" "(of_nat c :: u32) \<noteq> 0"
      using of_nat_inj32 [of c 0] by (auto simp: room_ok_def rsect_nat)
    have "\<not> (of_nat k :: u32) < of_nat NDIRECT" using False k' by (simp add: word_less_nat_alt unat_small NDIRECT_def)
    then show ?thesis
      using b(4) k' e c' c(2) by (simp add: mk_bmap_def mk_indirect_def Let_def NDIRECT_def)
  qed
qed

section \<open>Appending\<close>

lemma holds_data_write:
  assumes h: "holds_data img bs x" and k: "length x div 1024 < length bs" and d: "distinct bs"
    and n: "n \<le> 1024 - length x mod 1024"
  shows "holds_data (img(bs ! (length x div 1024) := splice (img (bs ! (length x div 1024))) (length x mod 1024) p n)) bs
      (x @ map p [0..<n])"
  unfolding holds_data_def
proof (intro conjI allI impI)
  define k r where "k = length x div 1024" and "r = length x mod 1024"
  have x: "length x = 1024 * k + r" "r < 1024" by (simp_all add: k_def r_def)
  show "length (x @ map p [0..<n]) \<le> 1024 * length bs" using k n x by (simp add: k_def [symmetric] r_def [symmetric])
  fix i assume i: "i < 1024 * length bs"
  define j q where "j = i div 1024" and "q = i mod 1024"
  have j: "i = 1024 * j + q" "q < 1024" "j < length bs"
    using i by (simp_all add: j_def q_def less_mult_imp_div_less mult.commute)
  have old: "img (bs ! j) q = (if i < length x then x ! i else 0)"
    using h i by (simp add: holds_data_def j_def q_def)
  show "(img(bs ! (length x div 1024) := splice (img (bs ! (length x div 1024))) (length x mod 1024) p n)) (bs ! (i div 1024)) (i mod 1024) =
      (if i < length (x @ map p [0..<n]) then (x @ map p [0..<n]) ! i else 0)"
  proof (cases "j = k")
    case True
    have s: "i < length x \<longleftrightarrow> q < r" "i - length x = q - r" "i < length x + n \<longleftrightarrow> q < r + n" using x j True by auto
    show ?thesis
      unfolding j_def [symmetric] q_def [symmetric] k_def [symmetric] r_def [symmetric]
      using True old s by (auto simp: splice_def nth_append)
  next
    case False
    have "bs ! j \<noteq> bs ! k" using False d j(3) k by (simp add: nth_eq_iff_index_eq k_def)
    moreover have "i < length x + n \<longleftrightarrow> i < length x"
    proof (cases "j < k")
      case True
      then have "1024 * j + 1024 \<le> 1024 * k" by linarith
      then show ?thesis using x j(1,2) by linarith
    next
      case F: False
      then have "1024 * k + 1024 \<le> 1024 * j" using False by linarith
      then show ?thesis using x j(1) n by (simp add: r_def [symmetric])
    qed
    ultimately show ?thesis
      unfolding j_def [symmetric] q_def [symmetric] k_def [symmetric] r_def [symmetric]
      using old by (auto simp: nth_append)
  qed
qed

lemma file_write:
  fixes p :: bytes
  assumes f: "file_at s din bs ia fb x" and k: "length x div 1024 < length bs" and n: "n \<le> 1024 - length x mod 1024"
  defines "a \<equiv> bs ! (length x div 1024)"
  defines "t \<equiv> wsect (of_nat a) (splice (mk_img s a) (length x mod 1024) p n) s"
  shows "file_at t din bs ia fb (x @ map p [0..<n])" "same_blocks s t (set (bs @ ia)) fb"
proof -
  have a: "a \<in> set bs" "a < fb" "a < 2000" using nth_block [OF f k] k by (simp_all add: a_def)
  have r: "room_ok s fb" "distinct (bs @ ia)" "holds_data (mk_img s) bs x" "blocks_at (mk_img s) din bs ia" "set (bs @ ia) \<subseteq> {47..<fb}"
    using f by (simp_all add: file_at_def blocks_at_def)
  have t: "t = s\<lparr>mk_img := (mk_img s)(a := splice (mk_img s a) (length x mod 1024) p n)\<rparr>"
    using room_wsect [OF r(1) a(3)] by (simp add: t_def)
  have "blocks_at (mk_img t) din bs ia"
  proof (cases "length bs \<le> 12")
    case True
    then show ?thesis using r(4) by (simp add: blocks_at_def)
  next
    case False
    then have "hd ia \<in> set ia" using r(4) by (cases ia) (auto simp: blocks_at_def)
    then have "hd ia \<noteq> a" using r(2) a(1) by auto
    then show ?thesis using r(4) by (simp add: blocks_at_def t)
  qed
  moreover have "holds_data (mk_img t) bs (x @ map p [0..<n])"
    using holds_data_write [OF r(3) k _ n, of p] r(2) by (simp add: t a_def)
  moreover have "room_ok t fb" using r(1) a(2) by (auto simp: room_ok_def t)
  ultimately show "file_at t din bs ia fb (x @ map p [0..<n])" using r(5) by (simp add: file_at_def)
  show "same_blocks s t (set (bs @ ia)) fb" using a(1) by (auto simp: same_blocks_def t)
qed

definition nblk :: "nat \<Rightarrow> nat" where
  "nblk m = (m + 1023) div 1024"

lemma nblk_cases: "nblk m = (if m mod 1024 = 0 then m div 1024 else m div 1024 + 1)"
proof -
  define q r where "q = m div 1024" and "r = m mod 1024"
  have m: "m = 1024 * q + r" "r < 1024" by (simp_all add: q_def r_def)
  have "(m + 1023) div 1024 = (if r = 0 then q else q + 1)"
    by (rule div_nat_eqI) (use m in auto)
  then show ?thesis by (simp add: nblk_def q_def r_def)
qed

text \<open>The block for the next bytes of the file: it exists, or is added.\<close>

lemma mk_bmap_step:
  assumes f: "file_at s din bs ia fb x" and b: "length bs = nblk (length x)" and len: "length x < 268 * 1024"
    and fb: "fb + used (length x div 1024 + 1) \<le> 2000 + used (length bs)"
  obtains bs' din' ia' t where "mk_bmap (of_nat (length x div 1024)) din s = Some (of_nat (bs' ! (length x div 1024)), din', t)"
    "file_at t din' bs' ia' (fb + used (length x div 1024 + 1) - used (length bs)) x" "length bs' = length x div 1024 + 1"
    "same_blocks s t (set (bs @ ia)) fb" "\<forall>i<12. din' i = din i" "set (bs' @ ia') \<subseteq> set (bs @ ia) \<union> {fb..<2000}"
proof (cases "length x mod 1024 = 0")
  case True
  then have k: "length bs = length x div 1024" using b by (simp add: nblk_cases)
  then have "length bs < 268" using len by (simp add: less_mult_imp_div_less)
  then obtain a din' ia' t where "mk_bmap (of_nat (length bs)) din s = Some (of_nat a, din', t)"
    "file_at t din' (bs @ [a]) ia' (fb + used (length bs + 1) - used (length bs)) x"
    "same_blocks s t (set (bs @ ia)) fb" "\<forall>i<12. din' i = din i" "set ((bs @ [a]) @ ia') \<subseteq> set (bs @ ia) \<union> {fb..<2000}"
    using mk_bmap_next [OF f] fb k by metis
  then show ?thesis using that [of "bs @ [a]" din' t ia'] by (simp add: k [symmetric])
next
  case False
  then have k: "length bs = length x div 1024 + 1" using b by (simp add: nblk_cases)
  then have "mk_bmap (of_nat (length x div 1024)) din s = Some (of_nat (bs ! (length x div 1024)), din, s)"
    by (intro mk_bmap_hit [OF f]) simp
  then show ?thesis using that [of bs din s ia] f by (simp add: k)
qed

lemma iappend_loop_ok:
  assumes "file_at s din bs ia fb x" "length bs = nblk (length x)" "length x + n \<le> 268 * 1024"
    and "fb + used (nblk (length x + n)) \<le> 2000 + used (nblk (length x))"
  shows "\<exists>din' bs' ia' t. iappend_loop din (of_nat (length x)) p (of_nat n) s = Some (din', of_nat (length x + n), t) \<and>
    file_at t din' bs' ia' (fb + used (nblk (length x + n)) - used (nblk (length x))) (x @ map p [0..<n]) \<and>
    length bs' = nblk (length x + n) \<and> same_blocks s t (set (bs @ ia)) fb \<and> (\<forall>i<12. din' i = din i) \<and>
    set (bs' @ ia') \<subseteq> set (bs @ ia) \<union> {fb..<2000}"
  using assms
proof (induction n arbitrary: s din bs ia fb x p rule: less_induct)
  case (less n)
  note f = less.prems(1)
  show ?case
  proof (cases "n = 0")
    case True
    then show ?thesis
      using less.prems by (intro exI [of _ din] exI [of _ bs] exI [of _ ia] exI [of _ s], subst iappend_loop.simps) simp
  next
    case False
    define k r n1 where "k = length x div 1024" and "r = length x mod 1024" and "n1 = min n (1024 - r)"
    have x: "length x = 1024 * k + r" "r < 1024" by (simp_all add: k_def r_def)
    have n1: "0 < n1" "n1 \<le> n" "n1 \<le> 1024 - r" using False x(2) by (simp_all add: n1_def)
    have k268: "k < 268" using less.prems(3) False x by simp
    have nb1: "nblk (length x + n1) = k + 1"
      unfolding nblk_def using x n1 by (intro div_nat_eqI) auto
    have mono: "nblk (length x) \<le> k + 1" "k + 1 \<le> nblk (length x + n)"
      using nb1 n1 div_le_mono [of "length x + n1 + 1023" "length x + n + 1023" 1024] div_le_mono [of "length x + 1023" "length x + n1 + 1023" 1024]
      by (simp_all add: nblk_def)
    then have u: "used (nblk (length x)) \<le> used (k + 1)" "used (k + 1) \<le> used (nblk (length x + n))" by (simp_all add: used_mono)
    have fb1: "fb + used (k + 1) \<le> 2000 + used (length bs)" using u less.prems(2,4) by simp
    have len: "length x < 268 * 1024" using less.prems(3) False by simp
    obtain bs1 din1 ia1 s1 where b1: "mk_bmap (of_nat k) din s = Some (of_nat (bs1 ! k), din1, s1)"
      "file_at s1 din1 bs1 ia1 (fb + used (k + 1) - used (length bs)) x" "length bs1 = k + 1"
      "same_blocks s s1 (set (bs @ ia)) fb" "\<forall>i<12. din1 i = din i" "set (bs1 @ ia1) \<subseteq> set (bs @ ia) \<union> {fb..<2000}"
      using mk_bmap_step [OF f less.prems(2) len] fb1 unfolding k_def by metis
    define fc where "fc = fb + used (k + 1) - used (length bs)"
    define s2 where "s2 = wsect (of_nat (bs1 ! k)) (splice (mk_img s1 (bs1 ! k)) r p n1) s1"
    have w: "file_at s2 din1 bs1 ia1 fc (x @ map p [0..<n1])" "same_blocks s1 s2 (set (bs1 @ ia1)) fc"
      using file_write [OF b1(2), of n1 p] b1(3) n1(3) by (simp_all add: s2_def k_def r_def fc_def)
    have fc: "fb \<le> fc" using u less.prems(2) by (simp add: fc_def)
    have lenx: "length x < 2 ^ 32" "n < 2 ^ 31" using less.prems(3) by simp_all
    have "\<exists>din' bs' ia' t. iappend_loop din1 (of_nat (length x + n1)) (at p n1) (of_nat (n - n1)) s2 =
          Some (din', of_nat (length x + n1 + (n - n1)), t) \<and>
        file_at t din' bs' ia' (fc + used (nblk (length x + n1 + (n - n1))) - used (nblk (length x + n1)))
          ((x @ map p [0..<n1]) @ map (at p n1) [0..<n - n1]) \<and>
        length bs' = nblk (length x + n1 + (n - n1)) \<and> same_blocks s2 t (set (bs1 @ ia1)) fc \<and> (\<forall>i<12. din' i = din1 i) \<and>
        set (bs' @ ia') \<subseteq> set (bs1 @ ia1) \<union> {fc..<2000}"
      using less.IH [OF _ w(1), of "n - n1" "at p n1"] n1 b1(3) nb1 less.prems(2-4) u fc_def by simp
    then obtain din' bs' ia' t where ih: "iappend_loop din1 (of_nat (length x + n1)) (at p n1) (of_nat (n - n1)) s2 =
          Some (din', of_nat (length x + n), t)"
        "file_at t din' bs' ia' (fc + used (nblk (length x + n)) - used (nblk (length x + n1)))
          ((x @ map p [0..<n1]) @ map (at p n1) [0..<n - n1])"
        "length bs' = nblk (length x + n)" "same_blocks s2 t (set (bs1 @ ia1)) fc" "\<forall>i<12. din' i = din1 i"
        "set (bs' @ ia') \<subseteq> set (bs1 @ ia1) \<union> {fc..<2000}"
      using n1(2) by auto
    have "map p [0..<n1] @ map (at p n1) [0..<n - n1] = map p [0..<n]"
    proof -
      have "map (at p n1) [0..<n - n1] = map p [n1..<n]"
        using n1(2) by (intro nth_equalityI) (simp_all add: at_def)
      moreover have "[0..<n1] @ [n1..<n] = [0..<n]" using n1(2) upt_add_eq_append [of 0 n1 "n - n1"] by simp
      ultimately show ?thesis by (metis map_append)
    qed
    then have "file_at t din' bs' ia' (fb + used (nblk (length x + n)) - used (nblk (length x))) (x @ map p [0..<n])"
      using ih(2) u less.prems(2) nb1 by (simp add: fc_def)
    moreover have "same_blocks s t (set (bs @ ia)) fb"
    proof (rule same_blocks_trans)
      show "same_blocks s s2 (set (bs @ ia)) fb" by (rule same_blocks_trans [OF b1(4) w(2) fc b1(6)])
    qed (use ih(4) fc b1(6) in auto)
    moreover have "iappend_loop din (of_nat (length x)) p (of_nat n) s = Some (din', of_nat (length x + n), t)"
    proof -
      have un: "unat (of_nat (length x) :: u32) = length x" "unat (of_nat n :: u32) = n" using lenx by (simp_all add: unat_small)
      have pos: "0 < sint (of_nat n :: u32)"
        using lenx(2) False by (simp add: signed_of_nat signed_take_bit_int_eq_self)
      have "unat (of_nat (length x) :: u32) div BSIZE < MAXFILE" using k268 by (simp add: un mk_consts k_def)
      note rest = rest_of_block [OF this]
      have kk: "of_nat (length x) div of_nat BSIZE = (of_nat k :: u32)"
        using block_of [of "of_nat (length x)"] k268 by (simp add: un word_unat_eq_iff unat_small k_def BSIZE_def)
      have m: "unat (min (of_nat n) ((of_nat (length x) div of_nat BSIZE + 1) * of_nat BSIZE - of_nat (length x) :: u32)) = n1"
        using rest(1) un by (simp add: min_def word_le_nat_alt n1_def r_def BSIZE_def)
      then have m': "min (of_nat n) ((of_nat (length x) div of_nat BSIZE + 1) * of_nat BSIZE - of_nat (length x) :: u32) = of_nat n1"
        using lenx(2) n1(2) by (simp add: word_unat_eq_iff unat_small)
      have "rsect (of_nat (bs1 ! k)) s1 = Some (mk_img s1 (bs1 ! k))"
        using nth_block(3) [OF b1(2)] b1(2,3) by (intro room_less) (auto simp: file_at_def)
      moreover have "(of_nat (length x) + of_nat n1 :: u32) = of_nat (length x + n1)" "(of_nat n - of_nat n1 :: u32) = of_nat (n - n1)"
        using n1(2) by (simp_all add: of_nat_diff)
      ultimately show ?thesis
        using pos rest(2) m m' kk b1(1) ih(1) k268 un
        by (subst iappend_loop.simps)
          (simp add: Let_def s2_def r_def MAXFILE_def NDIRECT_def NINDIRECT_def BSIZE_def unat_small del: of_nat_add of_nat_diff)
    qed
    moreover have "set (bs' @ ia') \<subseteq> set (bs @ ia) \<union> {fb..<2000}" using ih(6) b1(6) fc by auto
    ultimately show ?thesis using ih(3,5) b1(5) by auto
  qed
qed

section \<open>The files of an image\<close>

text \<open>The 64 bytes of inode \<open>n\<close>.\<close>

definition din_of :: "(nat \<Rightarrow> bytes) \<Rightarrow> nat \<Rightarrow> bytes" where
  "din_of img n = at (img (33 + n div 16)) (n mod 16 * 64)"

definition file_in :: "(nat \<Rightarrow> bytes) \<Rightarrow> nat \<Rightarrow> u16 \<times> u8 list \<Rightarrow> nat list \<times> nat list \<Rightarrow> bool" where
  "file_in img n f b \<longleftrightarrow>
    get16 (din_of img n) 0 = fst f \<and> get16 (din_of img n) 6 = 1 \<and> get32 (din_of img n) 8 = of_nat (length (snd f)) \<and>
    blocks_at img (din_of img n) (fst b) (snd b) \<and> holds_data img (fst b) (snd f) \<and> length (fst b) = nblk (length (snd f))"

abbreviation taken :: "nat list \<times> nat list \<Rightarrow> nat set" where
  "taken b \<equiv> set (fst b @ snd b)"

definition blocks_in :: "(u16 \<times> u8 list) list \<Rightarrow> nat" where
  "blocks_in X = sum_list (map (\<lambda>f. used (nblk (length (snd f)))) X)"

text \<open>The image holds the files \<open>X\<close>, the first of which has inode 1, in the blocks \<open>B\<close>.\<close>

definition fs_ok :: "mkst \<Rightarrow> (u16 \<times> u8 list) list \<Rightarrow> (nat list \<times> nat list) list \<Rightarrow> bool" where
  "fs_ok s X B \<longleftrightarrow> length B = length X \<and> length X \<le> 199 \<and>
    (\<forall>i<length X. file_in (mk_img s) (i + 1) (X ! i) (B ! i) \<and> taken (B ! i) \<subseteq> {47..<47 + blocks_in X}) \<and>
    (\<forall>i<length X. \<forall>j<length X. i \<noteq> j \<longrightarrow> taken (B ! i) \<inter> taken (B ! j) = {}) \<and>
    room_ok s (47 + blocks_in X) \<and> freeinode s = of_nat (length X + 1) \<and> get_sb (mk_img s 1) = mk_sb"

lemma mk_sb_fields: "sb_inodestart mk_sb = 33" "sb_bmapstart mk_sb = 46" "sb_size mk_sb = 2000" "sb_ninodes mk_sb = 200"
    "sb_magic mk_sb = FSMAGIC" "sb_nblocks mk_sb = 1953" "sb_nlog mk_sb = 31" "sb_logstart mk_sb = 2"
  by (simp_all add: mk_sb_def nlog_def ninodeblocks_def nmeta_def nbitmap_def NINODES_def IPB_def BPB_def mk_consts
      LOGBLOCKS_def MAXOPBLOCKS_def)

lemma inode_place: "n < 200 \<Longrightarrow> IBLOCK (of_nat n) mk_sb = of_nat (33 + n div 16)" "n < 200 \<Longrightarrow> dino_off (of_nat n) = n mod 16 * 64"
proof -
  assume n: "n < 200"
  have "(of_nat n :: u32) div 16 = of_nat (n div 16)"
    using n by (simp add: word_unat_eq_iff unat_div unat_small)
  then show "IBLOCK (of_nat n) mk_sb = of_nat (33 + n div 16)"
    by (simp add: IBLOCK_def IPB_def BSIZE_def mk_sb_fields)
  show "dino_off (of_nat n) = n mod 16 * 64" using n by (simp add: dino_off_def IPB_def BSIZE_def unat_small)
qed

lemma inode_block_lt: "n < 200 \<Longrightarrow> 33 + n div 16 < (47::nat)"
proof -
  assume "n < 200"
  then have "n div 16 \<le> 199 div 16" by (intro div_le_mono) simp
  then show ?thesis by simp
qed

lemma rinode_nat: "n < 200 \<Longrightarrow> mk_len s = 2000 \<Longrightarrow> rinode (of_nat n) s = Some (din_of (mk_img s) n)"
  using inode_block_lt [of n] rsect_nat [of "33 + n div 16" s] by (simp add: rinode_def inode_place din_of_def)

lemma winode_nat: "n < 200 \<Longrightarrow> mk_len s = 2000 \<Longrightarrow> winode (of_nat n) ip s =
    Some (s\<lparr>mk_img := (mk_img s)(33 + n div 16 := splice (mk_img s (33 + n div 16)) (n mod 16 * 64) ip 64)\<rparr>)"
  using inode_block_lt [of n] rsect_nat [of "33 + n div 16" s] wsect_nat [of "33 + n div 16" _ s]
  by (simp add: winode_def inode_place max_def)

lemma din_of_splice:
  "i < 64 \<Longrightarrow> din_of (img(33 + n div 16 := splice (img (33 + n div 16)) (n mod 16 * 64) ip 64)) m i =
    (if m = n then ip i else din_of img m i)"
proof (cases "m div 16 = n div 16")
  case True
  assume i: "i < 64"
  show ?thesis
  proof (cases "m = n")
    case False
    then have "m mod 16 \<noteq> n mod 16" using True by (metis div_mult_mod_eq)
    then have "m mod 16 < n mod 16 \<or> n mod 16 < m mod 16" by linarith
    then have "m mod 16 * 64 + i < n mod 16 * 64 \<or> n mod 16 * 64 + 64 \<le> m mod 16 * 64 + i" using i by auto
    then show ?thesis using False True by (auto simp: din_of_def at_def splice_def)
  qed (use i in \<open>simp add: din_of_def at_def splice_def\<close>)
qed (auto simp: din_of_def)

lemma blocks_at_cong:
  assumes "\<And>i. 12 \<le> i \<Longrightarrow> i < 64 \<Longrightarrow> d i = d' i" "\<And>b. b \<in> set ia \<Longrightarrow> img b = img' b"
  shows "blocks_at img d bs ia \<longleftrightarrow> blocks_at img' d' bs ia"
proof -
  have "get32 d (12 + 4 * k) = get32 d' (12 + 4 * k)" if "k < 13" for k
    using that by (intro get32_cong assms(1)) auto
  note g = this this [of 12, simplified]
  have "length ia = 1 \<Longrightarrow> img (hd ia) = img' (hd ia)" using assms(2) [of "hd ia"] by (cases ia) auto
  then show ?thesis using g by (auto simp: blocks_at_def)
qed

lemma file_in_cong:
  assumes "\<And>i. i < 64 \<Longrightarrow> din_of img' n i = din_of img n i" "\<And>b. b \<in> taken B \<Longrightarrow> img' b = img b" "file_in img n f B"
  shows "file_in img' n f B"
proof -
  have "get16 (din_of img' n) 0 = get16 (din_of img n) 0" "get16 (din_of img' n) 6 = get16 (din_of img n) 6"
    by (rule get16_cong; rule assms(1); simp)+
  moreover have "get32 (din_of img' n) 8 = get32 (din_of img n) 8" by (rule get32_cong; rule assms(1); simp)
  moreover have "blocks_at img' (din_of img' n) (fst B) (snd B)"
    using blocks_at_cong [of "din_of img' n" "din_of img n" "snd B" img' img "fst B"] assms by (auto simp: file_in_def)
  moreover have "holds_data img' (fst B) (snd f)"
    using holds_data_cong [of "fst B" img' img "snd f"] assms by (auto simp: file_in_def)
  ultimately show ?thesis using assms(3) by (simp add: file_in_def)
qed

lemma total_update:
  assumes "j < length X"
  shows "blocks_in (X[j := f]) + used (nblk (length (snd (X ! j)))) = blocks_in X + used (nblk (length (snd f)))"
proof -
  define u where "u = (\<lambda>f :: u16 \<times> u8 list. used (nblk (length (snd f))))"
  have "u (X ! j) \<le> sum_list (map u X)"
    using elem_le_sum_list [of j "map u X"] assms by simp
  moreover have "blocks_in Z = sum_list (map u Z)" for Z by (simp add: blocks_in_def u_def)
  moreover have "used (nblk (length (snd g))) = u g" for g by (simp add: u_def)
  ultimately show ?thesis using assms by (simp add: map_update sum_list_update)
qed

lemma total_append [simp]: "blocks_in (X @ Y) = blocks_in X + blocks_in Y" "blocks_in [] = 0" "blocks_in (f # X) = used (nblk (length (snd f))) + blocks_in X"
  by (simp_all add: blocks_in_def)

lemma used_nblk_0 [simp]: "used (nblk 0) = 0"
  by (simp add: used_def nblk_def)

lemma fs_okD:
  assumes "fs_ok s X B" "i < length X"
  shows "file_in (mk_img s) (i + 1) (X ! i) (B ! i)" "taken (B ! i) \<subseteq> {47..<47 + blocks_in X}"
    "j < length X \<Longrightarrow> i \<noteq> j \<Longrightarrow> taken (B ! i) \<inter> taken (B ! j) = {}" "i + 1 < 200"
  using assms unfolding fs_ok_def by auto

text \<open>The image after inode \<open>n\<close> has been written: the file of the inode, and another one.\<close>

lemma written_file:
  assumes f: "file_at t din bs ia fb x" and l: "length bs = nblk (length x)" and n: "n < 200"
    and g: "get16 din 0 = ty" "get16 din 6 = 1"
    and img: "img = (mk_img t)(33 + n div 16 := splice (mk_img t (33 + n div 16)) (n mod 16 * 64) (put32 din 8 (of_nat (length x))) 64)"
  shows "file_in img n (ty, x) (bs, ia)"
proof -
  have di: "din_of img n k = put32 din 8 (of_nat (length x)) k" if "k < 64" for k
    using din_of_splice [OF that, of "mk_img t" n _ n] by (simp add: img)
  have out: "img b = mk_img t b" if "b \<in> set (bs @ ia)" for b
    using that f inode_block_lt [OF n] by (auto simp: img file_at_def)
  have "get16 (din_of img n) 0 = get16 din 0" "get16 (din_of img n) 6 = get16 din 6"
    by (rule get16_cong; use di in \<open>simp add: put_outside\<close>)+
  moreover have "get32 (din_of img n) 8 = get32 (put32 din 8 (of_nat (length x))) 8" by (rule get32_cong, rule di) simp
  moreover have "blocks_at img (din_of img n) bs ia \<longleftrightarrow> blocks_at (mk_img t) din bs ia"
    by (rule blocks_at_cong) (use di out in \<open>simp_all add: put_outside\<close>)
  moreover have "holds_data img bs x"
    by (rule holds_data_cong [of _ _ "mk_img t"]) (use f out in \<open>simp_all add: file_at_def\<close>)
  ultimately show ?thesis using f g l by (simp add: file_in_def file_at_def get32_put32)
qed

lemma other_file:
  assumes f: "file_in (mk_img s) m g B" "taken B \<subseteq> {47..<fb}" "taken B \<inter> O' = {}" and O: "O' \<subseteq> {47..<fb}" "47 \<le> fb"
    and t: "same_blocks s t O' fb" and n: "n < 200" "m < 200" "m \<noteq> n"
    and img: "img = (mk_img t)(33 + n div 16 := splice (mk_img t (33 + n div 16)) (n mod 16 * 64) d 64)"
  shows "file_in img m g B"
proof (rule file_in_cong [OF _ _ f(1)])
  fix b assume b: "b \<in> taken B"
  then have "b \<notin> O'" "b \<in> {47..<fb}" using f(2,3) by blast+
  then show "img b = mk_img s b" using t inode_block_lt [OF n(1)] by (simp add: same_blocks_def img)
next
  fix k :: nat assume k: "k < 64"
  have "33 + m div 16 < 47" by (rule inode_block_lt [OF n(2)])
  moreover have "33 + m div 16 \<notin> O'" using calculation O(1) by auto
  ultimately have "mk_img t (33 + m div 16) = mk_img s (33 + m div 16)"
    using t O(2) by (simp add: same_blocks_def)
  then have "din_of (mk_img t) m k = din_of (mk_img s) m k" by (simp add: din_of_def)
  then show "din_of img m k = din_of (mk_img s) m k"
    using din_of_splice [OF k, of "mk_img t" n d m] n(3) by (simp add: img)
qed

lemma fs_ok_set:
  assumes ok: "fs_ok s X B" and j: "j < length X" and B: "B ! j = b"
    and f: "file_in img (j + 1) f b'" "taken b' \<subseteq> {47..<47 + blocks_in (X[j := f])}"
    and others: "\<And>i. i < length X \<Longrightarrow> i \<noteq> j \<Longrightarrow> file_in img (i + 1) (X ! i) (B ! i)"
    and sub: "taken b' \<subseteq> taken b \<union> {47 + blocks_in X..}" "blocks_in X \<le> blocks_in (X[j := f])"
    and t: "room_ok (t\<lparr>mk_img := img\<rparr>) (47 + blocks_in (X[j := f]))" "freeinode t = freeinode s" "img 1 = mk_img s 1"
  shows "fs_ok (t\<lparr>mk_img := img\<rparr>) (X[j := f]) (B[j := b'])"
  unfolding fs_ok_def
proof (intro conjI allI impI)
  have len: "length B = length X" using ok by (simp add: fs_ok_def)
  show "length (B[j := b']) = length (X[j := f])" "length (X[j := f]) \<le> 199"
    "freeinode (t\<lparr>mk_img := img\<rparr>) = of_nat (length (X[j := f]) + 1)"
    using ok t(2) by (simp_all add: fs_ok_def)
  show "get_sb (mk_img (t\<lparr>mk_img := img\<rparr>) 1) = mk_sb" using ok t(3) by (simp add: fs_ok_def)
  have new: "taken (B ! a) \<inter> taken b' = {}" if "a < length X" "a \<noteq> j" for a
  proof -
    have "taken (B ! a) \<inter> taken b = {}" using fs_okD(3) [OF ok that(1) j that(2)] B by simp
    moreover have "taken (B ! a) \<subseteq> {47..<47 + blocks_in X}" by (rule fs_okD(2) [OF ok that(1)])
    ultimately show ?thesis using sub(1) by fastforce
  qed
  fix i assume "i < length (X[j := f])"
  then have i: "i < length X" by simp
  show "file_in (mk_img (t\<lparr>mk_img := img\<rparr>)) (i + 1) (X[j := f] ! i) (B[j := b'] ! i)"
    using f(1) others [OF i] i j len by (cases "i = j") simp_all
  have "taken (B ! i) \<subseteq> {47..<47 + blocks_in (X[j := f])}" using fs_okD(2) [OF ok i] sub(2) by fastforce
  then show "taken (B[j := b'] ! i) \<subseteq> {47..<47 + blocks_in (X[j := f])}"
    using f(2) j len by (cases "i = j") simp_all
  fix k assume k: "k < length (X[j := f])" "i \<noteq> k"
  then have kX: "k < length X" by simp
  show "taken (B[j := b'] ! i) \<inter> taken (B[j := b'] ! k) = {}"
    using new [OF i] new [OF kX] fs_okD(3) [OF ok i kX k(2)] k(2) j len by (cases "i = j"; cases "k = j") auto
qed (use t in simp)

lemma iappend_ok:
  assumes ok: "fs_ok s X B" and j: "j < length X" and X: "X ! j = (ty, x)"
    and n: "length x + n \<le> 268 * 1024" and fit: "blocks_in (X[j := (ty, x @ map p [0..<n])]) \<le> 1953"
  shows "\<exists>t B'. iappend (of_nat (j + 1)) p (of_nat n) s = Some t \<and> fs_ok t (X[j := (ty, x @ map p [0..<n])]) B'"
proof -
  define x' where "x' = x @ map p [0..<n]"
  obtain bs ia where B: "B ! j = (bs, ia)" by fastforce
  define din where "din = din_of (mk_img s) (j + 1)"
  have room: "room_ok s (47 + blocks_in X)" and j200: "j + 1 < 200" using ok j by (simp_all add: fs_ok_def)
  have fin: "file_in (mk_img s) (j + 1) (ty, x) (bs, ia)" "set (bs @ ia) \<subseteq> {47..<47 + blocks_in X}"
    using fs_okD(1,2) [OF ok j] X B by simp_all
  have tot: "blocks_in (X[j := (ty, x')]) + used (nblk (length x)) = blocks_in X + used (nblk (length x + n))"
    using total_update [OF j, of "(ty, x')"] X by (simp add: x'_def)
  have mono: "used (nblk (length x)) \<le> used (nblk (length x + n))"
    by (intro used_mono) (simp add: nblk_def div_le_mono)
  have at0: "file_at s din bs ia (47 + blocks_in X) x" using fin room by (simp add: file_at_def file_in_def din_def)
  have size: "get32 din 8 = of_nat (length x)" and nb: "length bs = nblk (length x)" using fin by (simp_all add: file_in_def din_def)
  obtain din' bs' ia' t where t: "iappend_loop din (of_nat (length x)) p (of_nat n) s = Some (din', of_nat (length x + n), t)"
    "file_at t din' bs' ia' (47 + blocks_in X + used (nblk (length x + n)) - used (nblk (length x))) x'"
    "length bs' = nblk (length x')" "same_blocks s t (set (bs @ ia)) (47 + blocks_in X)" "\<forall>i<12. din' i = din i"
    "set (bs' @ ia') \<subseteq> set (bs @ ia) \<union> {47 + blocks_in X..<2000}"
    using iappend_loop_ok [OF at0 nb n, of p] fit tot by (auto simp: x'_def)
  have "47 + blocks_in X + used (nblk (length x + n)) - used (nblk (length x)) = 47 + blocks_in (X[j := (ty, x')])" using tot mono by simp
  note at1 = t(2) [unfolded this]
  define img where "img = (mk_img t)(33 + (j + 1) div 16 :=
    splice (mk_img t (33 + (j + 1) div 16)) ((j + 1) mod 16 * 64) (put32 din' 8 (of_nat (length x'))) 64)"
  have blk: "33 + (j + 1) div 16 < 47" by (rule inode_block_lt [OF j200])
  have len: "mk_len s = 2000" "mk_len t = 2000" using room at1 by (simp_all add: file_at_def room_ok_def)
  have "iappend (of_nat (j + 1)) p (of_nat n) s = Some (t\<lparr>mk_img := img\<rparr>)"
    using rinode_nat [OF j200 len(1)] winode_nat [OF j200 len(2)] t(1) size
    unfolding iappend_def img_def x'_def by (simp add: din_def [simplified, symmetric] del: of_nat_Suc of_nat_add)
  moreover have "fs_ok (t\<lparr>mk_img := img\<rparr>) (X[j := (ty, x')]) (B[j := (bs', ia')])"
  proof (rule fs_ok_set [OF ok j B])
    have "get16 din' 0 = get16 din 0" "get16 din' 6 = get16 din 6" by (rule get16_cong; use t(5) in simp)+
    then show "file_in img (j + 1) (ty, x') (bs', ia')"
      using fin(1) by (intro written_file [OF at1 t(3) j200 _ _ img_def]) (simp_all add: file_in_def din_def)
    show "file_in img (i + 1) (X ! i) (B ! i)" if "i < length X" "i \<noteq> j" for i
    proof (rule other_file [OF fs_okD(1,2) [OF ok that(1)] _ fin(2) _ t(4) j200 fs_okD(4) [OF ok that(1)] _ img_def])
      show "taken (B ! i) \<inter> set (bs @ ia) = {}" using fs_okD(3) [OF ok that(1) j that(2)] B by simp
    qed (use that in simp_all)
    show "taken (bs', ia') \<subseteq> {47..<47 + blocks_in (X[j := (ty, x')])}" using at1 by (simp add: file_at_def)
    show "taken (bs', ia') \<subseteq> taken (bs, ia) \<union> {47 + blocks_in X..}" using t(6) by auto
    show "blocks_in X \<le> blocks_in (X[j := (ty, x')])" using tot mono by simp
    show "room_ok (t\<lparr>mk_img := img\<rparr>) (47 + blocks_in (X[j := (ty, x')]))"
      using at1 blk by (auto simp: file_at_def room_ok_def img_def)
    show "freeinode t = freeinode s" using t(4) by (simp add: same_blocks_def)
    have "1 \<notin> set (bs @ ia)" using fin(2) by auto
    then show "img 1 = mk_img s 1" using t(4) by (simp add: same_blocks_def img_def)
  qed
  ultimately show ?thesis unfolding x'_def by blast
qed

end
