(* ===== verification/Mktree.thy ===== *)
theory Mktree
  imports Mkimage Transact
begin

text \<open>
  The whole run of \<^verbatim>\<open>mkfs/mkfs.c\<close>: the image it leaves is a file system with the given files, their names in
  the root directory, and a bitmap of the blocks in use.
\<close>

section \<open>Inodes and files\<close>

lemma map_str: "map (str c) [0..<length c] = c"
  by (rule nth_equalityI) (simp_all add: str_def)

lemma mk_ialloc_ok:
  assumes ok: "fs_ok s X B" and len: "length X < 199"
  shows "\<exists>t. mk_ialloc ty s = Some (of_nat (length X + 1), t) \<and> fs_ok t (X @ [(ty, [])]) (B @ [([], [])])"
proof -
  define n where "n = length X + 1"
  define s1 where "s1 = s\<lparr>freeinode := freeinode s + 1\<rparr>"
  define din :: bytes where "din = put16 (put16 (\<lambda>_. 0) 0 ty) 6 1"
  define img where "img = (mk_img s1)(33 + n div 16 := splice (mk_img s1 (33 + n div 16)) (n mod 16 * 64) (put32 din 8 (of_nat (length ([] :: u8 list)))) 64)"
  have n: "n < 200" using len by (simp add: n_def)
  have blk: "33 + n div 16 < 47" by (rule inode_block_lt [OF n])
  have room: "room_ok s1 (47 + blocks_in X)" "mk_len s1 = 2000" "freeinode s = of_nat n" "length B = length X" "get_sb (mk_img s1 1) = mk_sb"
    using ok by (simp_all add: fs_ok_def s1_def room_ok_def n_def)
  have "get32 din (12 + 4 * k) = 0" for k by (simp add: din_def put_other get32_zero)
  note z = this this [of 12, simplified]
  have "file_at s1 din [] [] (47 + blocks_in X) []"
    using room(1) z by (simp add: file_at_def blocks_at_def holds_data_def)
  then have new: "file_in img n (ty, []) ([], [])"
    by (rule written_file [OF _ _ n _ _ img_def]) (simp_all add: din_def nblk_def byte_simps)
  have old: "file_in img (i + 1) (X ! i) (B ! i)" if i: "i < length X" for i
  proof (rule other_file [of s1 _ _ _ "47 + blocks_in X" "{}", OF _ fs_okD(2) [OF ok i] _ _ _ _ n fs_okD(4) [OF ok i] _ img_def])
    show "file_in (mk_img s1) (i + 1) (X ! i) (B ! i)" using fs_okD(1) [OF ok i] by (simp add: s1_def)
  qed (use i in \<open>simp_all add: n_def\<close>)
  have s1: "s\<lparr>freeinode := of_nat n + 1\<rparr> = s1" using room(3) by (simp add: s1_def)
  have "mk_ialloc ty s = Some (of_nat n, s1\<lparr>mk_img := img\<rparr>)"
    using winode_nat [OF n room(2)] room(3) by (simp add: mk_ialloc_def Let_def s1 img_def din_def)
  moreover have "fs_ok (s1\<lparr>mk_img := img\<rparr>) (X @ [(ty, [])]) (B @ [([], [])])"
    unfolding fs_ok_def
  proof (intro conjI allI impI)
    show "room_ok (s1\<lparr>mk_img := img\<rparr>) (47 + blocks_in (X @ [(ty, [])]))"
      using room(1) blk by (auto simp: room_ok_def img_def)
    show "freeinode (s1\<lparr>mk_img := img\<rparr>) = of_nat (length (X @ [(ty, [])]) + 1)" using room(3) by (simp add: s1_def n_def)
    show "get_sb (mk_img (s1\<lparr>mk_img := img\<rparr>) 1) = mk_sb" using room(5) by (simp add: img_def)
    fix i assume i: "i < length (X @ [(ty, [])])"
    show "file_in (mk_img (s1\<lparr>mk_img := img\<rparr>)) (i + 1) ((X @ [(ty, [])]) ! i) ((B @ [([], [])]) ! i)"
      using old [of i] new i room(4) by (cases "i < length X") (simp_all add: nth_append n_def less_Suc_eq)
    show "taken ((B @ [([], [])]) ! i) \<subseteq> {47..<47 + blocks_in (X @ [(ty, [])])}"
      using fs_okD(2) [OF ok, of i] room(4) i by (cases "i < length X") (simp_all add: nth_append less_Suc_eq)
    fix j assume j: "j < length (X @ [(ty, [])])" "i \<noteq> j"
    show "taken ((B @ [([], [])]) ! i) \<inter> taken ((B @ [([], [])]) ! j) = {}"
      using fs_okD(3) [OF ok, of i j] room(4) i j by (cases "i < length X"; cases "j < length X") (simp_all add: nth_append less_Suc_eq)
  qed (use room(4) len in simp_all)
  ultimately show ?thesis unfolding n_def by blast
qed

lemma nblk_mono: "m \<le> n \<Longrightarrow> used (nblk m) \<le> used (nblk n)"
  by (intro used_mono) (simp add: nblk_def div_le_mono)

lemma total_mono: "j < length X \<Longrightarrow> length a \<le> length b \<Longrightarrow> blocks_in (X[j := (ty, a)]) \<le> blocks_in (X[j := (ty, b)])"
  using total_update [of j X "(ty, a)"] total_update [of j X "(ty, b)"] nblk_mono [of "length a" "length b"] by simp

lemma append_chunks_ok:
  assumes "fs_ok s X B" "j < length X" "X ! j = (ty, x)" "[] \<notin> set cs" "length (x @ concat cs) \<le> 268 * 1024"
    "blocks_in (X[j := (ty, x @ concat cs)]) \<le> 1953"
  shows "\<exists>t B'. append_chunks (of_nat (j + 1)) cs s = Some t \<and> fs_ok t (X[j := (ty, x @ concat cs)]) B'"
  using assms
proof (induction cs arbitrary: s X B x)
  case Nil
  then show ?case by (auto intro!: exI [of _ B] simp: list_update_id [of X j, simplified Nil(3)])
next
  case (Cons c cs)
  have "blocks_in (X[j := (ty, x @ c)]) \<le> 1953"
    using total_mono [OF Cons.prems(2), of "x @ c" "x @ concat (c # cs)" ty] Cons.prems(6) by simp
  then obtain t B' where t: "iappend (of_nat (j + 1)) (str c) (of_nat (length c)) s = Some t" "fs_ok t (X[j := (ty, x @ c)]) B'"
    using iappend_ok [OF Cons.prems(1-3), of "length c" "str c"] Cons.prems(5) by (auto simp: map_str)
  have "\<exists>u B'. append_chunks (of_nat (j + 1)) cs t = Some u \<and> fs_ok u ((X[j := (ty, x @ c)])[j := (ty, (x @ c) @ concat cs)]) B'"
    by (rule Cons.IH [OF t(2)]) (use Cons.prems in simp_all)
  then show ?case using t(1) Cons.prems(4) by auto
qed

section \<open>Directory entries\<close>

definition dirent_bytes :: "nat \<Rightarrow> u8 list \<Rightarrow> u8 list" where
  "dirent_bytes inum name = [of_nat inum, of_nat (inum div 256)] @ name @ replicate (DIRSIZ - length name) 0"

lemma mk_dirent_bytes:
  assumes "0 \<notin> set name" "length name \<le> 14" "inum < 65536"
  shows "map (mk_dirent (of_nat inum) name) [0..<16] = dirent_bytes inum name"
proof (rule nth_equalityI)
  show "length (map (mk_dirent (of_nat inum) name) [0..<16]) = length (dirent_bytes inum name)"
    using assms(2) by (simp add: dirent_bytes_def DIRSIZ_def)
  fix i assume "i < length (map (mk_dirent (of_nat inum) name) [0..<16])"
  then have i: "i < 16" by simp
  have u: "unat (ucast (of_nat inum :: u32) :: u16) = inum"
    using assms(3) by (simp add: unsigned_of_nat unsigned_ucast_eq take_bit_nat_eq_self)
  consider "i = 0" | "i = 1" | "2 \<le> i" by linarith
  then show "map (mk_dirent (of_nat inum) name) [0..<16] ! i = dirent_bytes inum name ! i"
  proof cases
    case 3
    then have "mk_dirent (of_nat inum) name i = str name (i - 2)"
      using i assms(1) by (auto simp: mk_dirent_def Let_def splice_def strncpy_eq DIRSIZ_def str_def in_set_conv_nth)
    then show ?thesis using 3 i by (simp add: dirent_bytes_def DIRSIZ_def nth_append str_def nth_Cons' numeral_2_eq_2)
  qed (use u i in \<open>simp_all add: mk_dirent_def Let_def splice_def dirent_bytes_def put16_def le_byte_def\<close>)
qed

section \<open>The files that are copied\<close>

definition content :: "host \<Rightarrow> u8 list \<Rightarrow> u8 list" where
  "content h p = concat (the (h_files h p))"

definition good_file :: "host \<Rightarrow> u8 list \<Rightarrow> bool" where
  "good_file h p \<longleftrightarrow> h_files h p \<noteq> None \<and> [] \<notin> set (the (h_files h p)) \<and> length (content h p) \<le> MAXFILE * BSIZE \<and>
    0 \<notin> set p \<and> 47 \<notin> set (shortname p) \<and> length (mk_name (shortname p)) \<le> DIRSIZ"

fun root_entries :: "nat \<Rightarrow> u8 list list \<Rightarrow> u8 list" where
  "root_entries n [] = []"
| "root_entries n (p # ps) = dirent_bytes n (mk_name (shortname p)) @ root_entries (n + 1) ps"

definition files_of :: "host \<Rightarrow> u8 list list \<Rightarrow> (u16 \<times> u8 list) list" where
  "files_of h ps = map (\<lambda>p. (T_FILE, content h p)) ps"

lemma mk_name_chars: "0 \<notin> set p \<Longrightarrow> 0 \<notin> set (mk_name (shortname p))"
proof -
  have "set (mk_name xs) \<subseteq> set xs" for xs by (cases xs) (auto simp: mk_name_def)
  moreover have "set (shortname p) \<subseteq> set p" by (simp add: shortname_def set_drop_subset)
  ultimately have "set (mk_name (shortname p)) \<subseteq> set p" by blast
  then show "0 \<notin> set p \<Longrightarrow> 0 \<notin> set (mk_name (shortname p))" by blast
qed

lemma root_entries_length: "\<forall>p\<in>set ps. good_file h p \<Longrightarrow> length (root_entries n ps) = 16 * length ps"
  by (induction n ps rule: root_entries.induct) (auto simp: dirent_bytes_def good_file_def DIRSIZ_def)

lemma mk_file_ok:
  assumes ok: "fs_ok s ((T_DIR, r) # F) B" and good: "good_file h p" and len: "length F < 198" "length r + 16 \<le> 268 * 1024"
    and fit: "blocks_in ((T_DIR, r @ dirent_bytes (length F + 2) (mk_name (shortname p))) # F @ [(T_FILE, content h p)]) \<le> 1953"
  shows "\<exists>t B'. mk_file h 1 p s = Some t \<and>
    fs_ok t ((T_DIR, r @ dirent_bytes (length F + 2) (mk_name (shortname p))) # F @ [(T_FILE, content h p)]) B'"
proof -
  define d where "d = dirent_bytes (length F + 2) (mk_name (shortname p))"
  define X where "X = (T_DIR, r @ d) # F @ [(T_FILE, [])]"
  obtain cs where cs: "h_files h p = Some cs" "[] \<notin> set cs" "content h p = concat cs"
    using good by (auto simp: good_file_def content_def)
  have name: "0 \<notin> set (mk_name (shortname p))" "length (mk_name (shortname p)) \<le> 14" "47 \<notin> set (shortname p)"
    using good mk_name_chars by (auto simp: good_file_def DIRSIZ_def)
  have d: "map (mk_dirent (of_nat (length F + 2)) (mk_name (shortname p))) [0..<16] = d"
    unfolding d_def by (rule mk_dirent_bytes [OF name(1,2)]) (use len in simp)
  have ld: "length d = 16" using arg_cong [OF d, of length] by simp
  have fit1: "blocks_in X \<le> 1953" using fit by (simp add: X_def d_def)
  obtain t1 where t1: "mk_ialloc T_FILE s = Some (of_nat (length F + 2), t1)"
      "fs_ok t1 ((T_DIR, r) # F @ [(T_FILE, [])]) (B @ [([], [])])"
    using mk_ialloc_ok [OF ok, of T_FILE] len(1) by auto
  have "\<exists>t B'. iappend (of_nat (0 + 1)) (mk_dirent (of_nat (length F + 2)) (mk_name (shortname p))) (of_nat 16) t1 = Some t \<and>
      fs_ok t (((T_DIR, r) # F @ [(T_FILE, [])])[0 := (T_DIR, r @ map (mk_dirent (of_nat (length F + 2)) (mk_name (shortname p))) [0..<16])]) B'"
    by (rule iappend_ok [OF t1(2)]) (use len(2) fit1 ld in \<open>simp_all add: X_def d del: upt_Suc of_nat_add\<close>)
  then obtain t2 B2 where t2: "iappend 1 (mk_dirent (of_nat (length F + 2)) (mk_name (shortname p))) 16 t1 = Some t2" "fs_ok t2 X B2"
    unfolding d by (auto simp: X_def)
  have X1: "length F + 1 < length X" "X ! (length F + 1) = (T_FILE, [])"
      "X[length F + 1 := (T_FILE, [] @ concat cs)] = (T_DIR, r @ d) # F @ [(T_FILE, content h p)]"
    by (simp_all add: X_def cs(3))
  have "length ([] @ concat cs) \<le> 268 * 1024"
    using good cs(3) by (simp add: good_file_def mk_consts)
  then have "\<exists>t B'. append_chunks (of_nat (length F + 1 + 1)) cs t2 = Some t \<and> fs_ok t (X[length F + 1 := (T_FILE, [] @ concat cs)]) B'"
    by (rule append_chunks_ok [OF t2(2) X1(1,2) cs(2)]) (unfold X1(3) d_def, rule fit)
  then obtain t B' where t: "append_chunks (of_nat (length F + 2)) cs t2 = Some t" "fs_ok t ((T_DIR, r @ d) # F @ [(T_FILE, content h p)]) B'"
    unfolding X1(3) by auto
  define m :: u32 where "m = of_nat (length F + 2)"
  note steps = t1(1) [folded m_def] t2(1) [folded m_def] t(1) [folded m_def]
  have "mk_file h 1 p s = Some t"
    using name(2,3) by (simp add: mk_file_def Let_def cs(1) steps DIRSIZ_def)
  then show ?thesis using t(2) unfolding d_def by blast
qed

lemma mk_files_ok:
  assumes "fs_ok s ((T_DIR, r) # F) B" "\<forall>p\<in>set ps. good_file h p" "length F + length ps \<le> 198" "length r + 16 * length ps \<le> 268 * 1024"
    "blocks_in ((T_DIR, r @ root_entries (length F + 2) ps) # F @ files_of h ps) \<le> 1953"
  shows "\<exists>t B'. mk_files h 1 ps s = Some t \<and> fs_ok t ((T_DIR, r @ root_entries (length F + 2) ps) # F @ files_of h ps) B'"
  using assms
proof (induction ps arbitrary: s r F B)
  case Nil
  then show ?case by (auto simp: files_of_def)
next
  case (Cons p ps)
  define d where "d = dirent_bytes (length F + 2) (mk_name (shortname p))"
  have good: "good_file h p" "\<forall>p\<in>set ps. good_file h p" using Cons.prems(2) by simp_all
  have d: "length d = 16" using good(1) by (simp add: d_def dirent_bytes_def good_file_def DIRSIZ_def)
  have "blocks_in ((T_DIR, r @ d) # F @ [(T_FILE, content h p)]) \<le> 1953"
    using Cons.prems(5) nblk_mono [of "length (r @ d)" "length (r @ root_entries (length F + 2) (p # ps))"]
    by (simp add: files_of_def d_def)
  then obtain t B' where t: "mk_file h 1 p s = Some t" "fs_ok t ((T_DIR, r @ d) # F @ [(T_FILE, content h p)]) B'"
    using mk_file_ok [OF Cons.prems(1) good(1)] Cons.prems(3,4) unfolding d_def by auto
  have e: "(T_DIR, (r @ d) @ root_entries (length (F @ [(T_FILE, content h p)]) + 2) ps) # (F @ [(T_FILE, content h p)]) @ files_of h ps =
      (T_DIR, r @ root_entries (length F + 2) (p # ps)) # F @ files_of h (p # ps)"
    by (simp add: files_of_def d_def)
  have "\<exists>u B'. mk_files h 1 ps t = Some u \<and> fs_ok u
      ((T_DIR, (r @ d) @ root_entries (length (F @ [(T_FILE, content h p)]) + 2) ps) # (F @ [(T_FILE, content h p)]) @ files_of h ps) B'"
    by (rule Cons.IH [OF t(2) good(2)]) (use Cons.prems(3,4) d in simp, use Cons.prems(3,4) d in simp, unfold e, rule Cons.prems(5))
  then show ?case unfolding e using t(1) by simp
qed

section \<open>The start of the image\<close>

lemma zeroed_image: "n \<le> 2000 \<Longrightarrow> fold (\<lambda>i. wsect (of_nat i) (\<lambda>_. 0)) [0..<n] mk_start = mk_start\<lparr>mk_len := n\<rparr>"
proof (induction n)
  case (Suc n)
  have "(mk_img mk_start)(n := \<lambda>_. 0) = mk_img mk_start" by (auto simp: mk_start_def)
  then show ?case using Suc wsect_nat [of n "\<lambda>_. 0" "mk_start\<lparr>mk_len := n\<rparr>"] by (simp add: mk_start_def)
qed (simp add: mk_start_def)

lemma get_put_sb: "get_sb (put_sb b p) = p"
  by (simp add: get_sb_def put_sb_def byte_simps)

lemma start_ok: "fs_ok (wsect 1 (put_sb (\<lambda>_. 0) mk_sb) (fold (\<lambda>i. wsect (of_nat i) (\<lambda>_. 0)) [0..<FSSIZE] mk_start)) [] []"
proof -
  have m: "nmeta = 47" by (simp add: nmeta_def nlog_def ninodeblocks_def nbitmap_def NINODES_def IPB_def BPB_def mk_consts
      LOGBLOCKS_def MAXOPBLOCKS_def)
  have z: "fold (\<lambda>i. wsect (of_nat i) (\<lambda>_. 0)) [0..<FSSIZE] mk_start = mk_start\<lparr>mk_len := 2000\<rparr>"
    unfolding FSSIZE_def by (rule zeroed_image) simp
  have "wsect 1 b (mk_start\<lparr>mk_len := 2000\<rparr>) = mk_start\<lparr>mk_img := (mk_img mk_start)(1 := b), mk_len := 2000\<rparr>" for b
    using sector_nat [of 1] by (simp add: wsect_def mk_start_def)
  moreover have "fs_ok (mk_start\<lparr>mk_img := (mk_img mk_start)(1 := b), mk_len := 2000\<rparr>) [] []" if "get_sb b = mk_sb" for b
    using that by (simp add: fs_ok_def room_ok_def mk_start_def m)
  ultimately show ?thesis unfolding z using get_put_sb [of "\<lambda>_. 0" mk_sb] by simp
qed

section \<open>The end of the image\<close>

lemma bitmap_bits:
  "bit_clear (fold (\<lambda>i b. b(i div 8 := b (i div 8) OR push_bit (i mod 8) 1)) [0..<n] (\<lambda>_. 0)) j \<longleftrightarrow> n \<le> j"
proof (induction n)
  case (Suc n)
  define B where "B = fold (\<lambda>i b :: bytes. b(i div 8 := b (i div 8) OR push_bit (i mod 8) 1)) [0..<n] (\<lambda>_. 0)"
  have "bit_clear (B(n div 8 := B (n div 8) OR push_bit (n mod 8) 1)) j \<longleftrightarrow> j \<noteq> n \<and> bit_clear B j"
    using bit_clear_set [of B n j] by (simp only: bit_mask_def)
  moreover have "fold (\<lambda>i b :: bytes. b(i div 8 := b (i div 8) OR push_bit (i mod 8) 1)) [0..<Suc n] (\<lambda>_. 0) =
      B(n div 8 := B (n div 8) OR push_bit (n mod 8) 1)" by (simp add: B_def)
  moreover have "bit_clear B j \<longleftrightarrow> n \<le> j" unfolding B_def by (rule Suc.IH)
  ultimately show ?case by (simp only:) linarith
qed (simp add: bit_clear_def)

text \<open>What \<^verbatim>\<open>fs.c\<close> reads: the inode \<open>n\<close>, the block at index \<open>k\<close> of its file, the blocks and the bytes of the file.\<close>

definition disk_inode :: "(nat \<Rightarrow> bytes) \<Rightarrow> nat \<Rightarrow> bytes" where
  "disk_inode img n = at (img (unat (IBLOCK (of_nat n) (get_sb (img 1))))) (dino_off (of_nat n))"

definition disk_size :: "(nat \<Rightarrow> bytes) \<Rightarrow> nat \<Rightarrow> nat" where
  "disk_size img n = unat (get32 (disk_inode img n) 8)"

definition disk_block :: "(nat \<Rightarrow> bytes) \<Rightarrow> nat \<Rightarrow> nat \<Rightarrow> nat" where
  "disk_block img n k =
    (let addr = (\<lambda>k. get32 (disk_inode img n) (12 + 4 * k)) in
     if k < NDIRECT then unat (addr k) else unat (get32 (img (unat (addr NDIRECT))) (4 * (k - NDIRECT))))"

definition disk_blocks :: "(nat \<Rightarrow> bytes) \<Rightarrow> nat \<Rightarrow> nat \<Rightarrow> nat list" where
  "disk_blocks img n m =
    map (disk_block img n) [0..<m] @ (if m \<le> NDIRECT then [] else [unat (get32 (disk_inode img n) (12 + 4 * NDIRECT))])"

definition disk_bytes :: "(nat \<Rightarrow> bytes) \<Rightarrow> nat \<Rightarrow> u8 list" where
  "disk_bytes img n = map (\<lambda>i. img (disk_block img n (i div BSIZE)) (i mod BSIZE)) [0..<disk_size img n]"

lemma disk_inode_eq: "get_sb (img 1) = mk_sb \<Longrightarrow> n < 200 \<Longrightarrow> disk_inode img n = din_of img n"
proof -
  assume a: "get_sb (img 1) = mk_sb" "n < 200"
  have "unat (of_nat (33 + n div 16) :: u32) = 33 + n div 16" using inode_block_lt [OF a(2)] by (intro unat_small) simp
  then show ?thesis unfolding disk_inode_def a(1) inode_place [OF a(2)] din_of_def by simp
qed

lemma disk_block_eq:
  assumes img: "get_sb (img 1) = mk_sb" "n < 200" and b: "blocks_at img (din_of img n) bs ia" "set (bs @ ia) \<subseteq> {47..<2000}"
  shows "k < length bs \<Longrightarrow> disk_block img n k = bs ! k" "disk_blocks img n (length bs) = bs @ ia"
    "length bs < 12 \<Longrightarrow> disk_block img n (length bs) = 0"
proof -
  note di = disk_inode_eq [of img n, OF img]
  have u: "unat (of_nat c :: u32) = c" if "c \<in> set (bs @ ia)" for c using that b(2) by (intro unat_small) auto
  have ind: "\<exists>c. ia = [c] \<and> get32 (din_of img n) 60 = of_nat c \<and>
      (\<forall>k<256. get32 (img c) (4 * k) = (if k + 12 < length bs then of_nat (bs ! (k + 12)) else 0))" if "12 < length bs"
    using b(1) that by (auto simp: blocks_at_def length_Suc_conv)
  show nth: "disk_block img n k = bs ! k" if k: "k < length bs" for k
  proof (cases "k < 12")
    case True
    then show ?thesis using b(1) k u [of "bs ! k"] by (simp add: disk_block_def di mk_consts blocks_at_def)
  next
    case False
    then obtain c where c: "ia = [c]" "get32 (din_of img n) 60 = of_nat c"
      "\<forall>k<256. get32 (img c) (4 * k) = (if k + 12 < length bs then of_nat (bs ! (k + 12)) else 0)" using ind k by auto
    have "k - 12 < 256" "k - 12 + 12 = k" using False k b(1) by (auto simp: blocks_at_def)
    then have "get32 (img c) (4 * (k - 12)) = of_nat (bs ! k)" using c(3) k by metis
    then show ?thesis using False c(1,2) k u [of "bs ! k"] u [of c] by (simp add: disk_block_def di mk_consts)
  qed
  have "map (disk_block img n) [0..<length bs] = bs" by (rule nth_equalityI) (simp_all add: nth)
  moreover have "length bs \<le> 12 \<Longrightarrow> ia = []" using b(1) by (simp add: blocks_at_def)
  ultimately show "disk_blocks img n (length bs) = bs @ ia"
    using ind u by (auto simp: disk_blocks_def mk_consts di not_le)
  show "disk_block img n (length bs) = 0" if "length bs < 12"
    using that b(1) by (simp add: disk_block_def di mk_consts blocks_at_def)
qed

lemma disk_bytes_eq:
  assumes img: "get_sb (img 1) = mk_sb" "n < 200" and b: "blocks_at img (din_of img n) bs ia" "set (bs @ ia) \<subseteq> {47..<2000}"
    and x: "holds_data img bs x" and m: "m \<le> disk_size img n" "m \<le> 1024 * length bs"
  shows "take m (disk_bytes img n) = map (\<lambda>i. if i < length x then x ! i else 0) [0..<m]"
proof -
  have "img (disk_block img n (i div 1024)) (i mod 1024) = (if i < length x then x ! i else 0)" if i: "i < m" for i
  proof -
    have "i div 1024 < length bs" "i < 1024 * length bs" using i m(2) by (auto simp: less_mult_imp_div_less mult.commute)
    then show ?thesis using disk_block_eq(1) [OF img b, of "i div 1024"] x by (simp add: holds_data_def)
  qed
  then show ?thesis using m(1) by (simp add: disk_bytes_def take_map BSIZE_def)
qed

lemma file_on_disk:
  assumes f: "file_in img n (ty, x) (bs, ia)" "set (bs @ ia) \<subseteq> {47..<2000}" "get_sb (img 1) = mk_sb" "n < 200"
  shows "get16 (disk_inode img n) 0 = ty" "get16 (disk_inode img n) 6 = 1" "disk_bytes img n = x"
    "disk_blocks img n (nblk (length x)) = bs @ ia"
proof -
  have i: "get32 (din_of img n) 8 = of_nat (length x)" "blocks_at img (din_of img n) bs ia" "holds_data img bs x"
      "length bs = nblk (length x)"
    using f(1) by (simp_all add: file_in_def)
  note di = disk_inode_eq [of img n, OF f(3,4)]
  have le: "length x \<le> 1024 * length bs" "length bs \<le> 268" using i(2,3) by (simp_all add: blocks_at_def holds_data_def)
  have size: "disk_size img n = length x" using le by (simp add: disk_size_def di i(1) unat_small)
  have len: "length (disk_bytes img n) = length x" by (simp add: disk_bytes_def size)
  have "take (length x) (disk_bytes img n) = map (\<lambda>i. if i < length x then x ! i else 0) [0..<length x]"
    by (rule disk_bytes_eq [OF f(3,4) i(2) f(2) i(3)]) (use size le in simp_all)
  also have "\<dots> = x" by (rule nth_equalityI) simp_all
  finally show "disk_bytes img n = x" using len by simp
  show "get16 (disk_inode img n) 0 = ty" "get16 (disk_inode img n) 6 = 1" using f(1) by (simp_all add: di file_in_def)
  show "disk_blocks img n (nblk (length x)) = bs @ ia" using disk_block_eq(2) [OF f(3,4) i(2) f(2)] i(4) by simp
qed

lemma bitmap_read:
  assumes b: "b < FSSIZE"
  shows "bit_clear ((img(46 := fold (\<lambda>i b. b(i div 8 := b (i div 8) OR push_bit (i mod 8) 1)) [0..<n] (\<lambda>_. 0)))
    (unat (BBLOCK (of_nat b) mk_sb))) (b mod BPB) \<longleftrightarrow> n \<le> b"
proof -
  have "(of_nat b :: u32) div of_nat BPB = 0" "b mod BPB = b"
    using b by (simp_all add: word_unat_eq_iff unat_div unat_small BPB_def BSIZE_def FSSIZE_def)
  then show ?thesis using bitmap_bits [of n b] by (simp add: BBLOCK_def mk_sb_fields)
qed

section \<open>The size of the root directory\<close>

definition rounded :: "nat \<Rightarrow> nat" where
  "rounded m = 1024 * (m div 1024 + 1)"

lemma fix_root_ok:
  assumes n: "n < 200" and s: "mk_len s = 2000" and size: "get32 (din_of (mk_img s) n) 8 = of_nat m" "m < 2 ^ 20"
  shows "fix_root (of_nat n) s = Some (s\<lparr>mk_img := (mk_img s)(33 + n div 16 :=
    splice (mk_img s (33 + n div 16)) (n mod 16 * 64) (put32 (din_of (mk_img s) n) 8 (of_nat (rounded m))) 64)\<rparr>)"
proof -
  define q where "q = m div 1024"
  have "(of_nat m :: u32) div 1024 = of_nat q"
    using size(2) by (simp add: word_unat_eq_iff unat_div unat_small q_def)
  then have "((of_nat m :: u32) div of_nat BSIZE + 1) * of_nat BSIZE = of_nat (rounded m)"
    by (simp add: BSIZE_def rounded_def q_def [symmetric] algebra_simps)
  then show ?thesis by (simp add: fix_root_def rinode_nat [OF n s] winode_nat [OF n s] size(1) Let_def)
qed

text \<open>A file whose size is rounded: what it holds, and whether its last block exists.\<close>

lemma rounded_file:
  assumes img: "get_sb (img 1) = mk_sb" "n < 200" and b: "blocks_at img (din_of img n) bs ia" "set (bs @ ia) \<subseteq> {47..<2000}"
    and x: "holds_data img bs x" "length bs = nblk (length x)" "disk_size img n = rounded (length x)" "length x < 12 * 1024"
  shows "take (length x) (disk_bytes img n) = x" "disk_block img n (length x div BSIZE) = 0 \<longleftrightarrow> length x mod BSIZE = 0"
proof -
  have "length x \<le> rounded (length x)" unfolding rounded_def by (simp add: dividend_less_times_div less_imp_le)
  then have "take (length x) (disk_bytes img n) = map (\<lambda>i. if i < length x then x ! i else 0) [0..<length x]"
    using x(1,3) by (intro disk_bytes_eq [OF img b x(1)]) (simp_all add: holds_data_def)
  also have "\<dots> = x" by (rule nth_equalityI) simp_all
  finally show "take (length x) (disk_bytes img n) = x" .
  show "disk_block img n (length x div BSIZE) = 0 \<longleftrightarrow> length x mod BSIZE = 0"
  proof (cases "length x mod 1024 = 0")
    case True
    then have "length x div 1024 = length bs" "length bs < 12" using x(2,4) by (auto simp: nblk_cases)
    then show ?thesis using True disk_block_eq(3) [OF img b] by (simp add: BSIZE_def)
  next
    case False
    then have k: "length x div 1024 < length bs" using x(2) by (simp add: nblk_cases)
    then have "bs ! (length x div 1024) \<in> set (bs @ ia)" by simp
    then have "47 \<le> bs ! (length x div 1024)" using b(2) by auto
    then show ?thesis using False k disk_block_eq(1) [OF img b k] by (simp add: BSIZE_def)
  qed
qed

text \<open>The image after the root directory's inode (\<open>n\<close> is 1) and the bitmap have been written.\<close>

lemma finished_image:
  assumes ok: "fs_ok s ((T_DIR, r) # F) B" and n: "n = 1" and r: "length r < 2 ^ 20"
    and img: "img = (mk_img s)(33 + n div 16 := splice (mk_img s (33 + n div 16)) (n mod 16 * 64)
      (put32 (din_of (mk_img s) n) 8 (of_nat (rounded (length r)))) 64, 46 := bm)"
  shows "get_sb (img 1) = mk_sb" "i < length F \<Longrightarrow> file_in img (i + 2) (F ! i) (B ! (i + 1))"
    "get16 (disk_inode img n) 0 = T_DIR" "get16 (disk_inode img n) 6 = 1" "disk_size img n = rounded (length r)"
    "blocks_at img (din_of img n) (fst (B ! 0)) (snd (B ! 0))" "holds_data img (fst (B ! 0)) r"
    "length (fst (B ! 0)) = nblk (length r)"
proof -
  define img0 where "img0 = (mk_img s)(33 + n div 16 := splice (mk_img s (33 + n div 16)) (n mod 16 * 64)
      (put32 (din_of (mk_img s) n) 8 (of_nat (rounded (length r)))) 64)"
  have X: "length ((T_DIR, r) # F) \<le> 199" "47 + blocks_in ((T_DIR, r) # F) \<le> 2000" using ok by (simp_all add: fs_ok_def room_ok_def)
  have img1: "img = img0(46 := bm)" by (simp add: img img0_def)
  show sb: "get_sb (img 1) = mk_sb" using ok n by (simp add: img fs_ok_def)
  have low: "33 + m div 16 < 46" if "m < 200" for m :: nat
  proof -
    have "m div 16 \<le> 199 div 16" using that by (intro div_le_mono) simp
    then show ?thesis by simp
  qed
  have di: "din_of img m k = (if m = n then put32 (din_of (mk_img s) n) 8 (of_nat (rounded (length r))) k else din_of (mk_img s) m k)"
    if "m < 200" "k < 64" for m k
  proof -
    have "din_of img m k = din_of img0 m k" using low [OF that(1)] by (simp add: din_of_def img1)
    then show ?thesis using din_of_splice [OF that(2), of "mk_img s" n _ m] by (simp add: img0_def)
  qed
  have out: "img b = mk_img s b" if "47 \<le> b" for b using that low [of n] n by (simp add: img)
  show "file_in img (i + 2) (F ! i) (B ! (i + 1))" if i: "i < length F"
  proof (rule file_in_cong)
    have j: "i + 1 < length ((T_DIR, r) # F)" using i by simp
    show "file_in (mk_img s) (i + 2) (F ! i) (B ! (i + 1))" using fs_okD(1) [OF ok j] by simp
    show "img b = mk_img s b" if "b \<in> taken (B ! (i + 1))" for b using that fs_okD(2) [OF ok j] by (intro out) auto
    show "din_of img (i + 2) k = din_of (mk_img s) (i + 2) k" if "k < 64" for k
      using di [OF _ that, of "i + 2"] i X(1) n by simp
  qed
  have f: "file_in (mk_img s) n (T_DIR, r) (B ! 0)" "taken (B ! 0) \<subseteq> {47..<47 + blocks_in ((T_DIR, r) # F)}"
    using fs_okD(1,2) [OF ok, of 0] n by simp_all
  have o: "img b = mk_img s b" if "b \<in> taken (B ! 0)" for b using that f(2) by (intro out) auto
  have dd: "din_of img n k = put32 (din_of (mk_img s) n) 8 (of_nat (rounded (length r))) k" if "k < 64" for k
    using di [of n k] that n by simp
  have e: "disk_inode img n = din_of img n" by (rule disk_inode_eq [of img n, OF sb]) (simp add: n)
  have "get16 (din_of img n) 0 = get16 (din_of (mk_img s) n) 0" "get16 (din_of img n) 6 = get16 (din_of (mk_img s) n) 6"
    by (rule get16_cong; simp add: dd put_outside)+
  then show "get16 (disk_inode img n) 0 = T_DIR" "get16 (disk_inode img n) 6 = 1" using f(1) by (simp_all add: e file_in_def)
  have "get32 (din_of img n) 8 = get32 (put32 (din_of (mk_img s) n) 8 (of_nat (rounded (length r)))) 8"
    by (rule get32_cong, rule dd) simp
  moreover have "rounded (length r) < 2 ^ 32"
  proof -
    have "length r div 1024 \<le> 2 ^ 20 div 1024" using r by (intro div_le_mono) simp
    then show ?thesis by (simp add: rounded_def)
  qed
  ultimately show "disk_size img n = rounded (length r)" by (simp add: disk_size_def e get32_put32 unat_small)
  have "blocks_at img (din_of img n) (fst (B ! 0)) (snd (B ! 0)) \<longleftrightarrow>
      blocks_at (mk_img s) (din_of (mk_img s) n) (fst (B ! 0)) (snd (B ! 0))"
    by (rule blocks_at_cong) (use dd o in \<open>simp_all add: put_outside\<close>)
  then show "blocks_at img (din_of img n) (fst (B ! 0)) (snd (B ! 0))" using f(1) by (simp add: file_in_def)
  show "holds_data img (fst (B ! 0)) r"
    by (rule holds_data_cong [of _ _ "mk_img s"]) (use f(1) o in \<open>simp_all add: file_in_def\<close>)
  show "length (fst (B ! 0)) = nblk (length r)" using f(1) by (simp add: file_in_def)
qed

section \<open>The program\<close>

definition root_dir :: "u8 list list \<Rightarrow> u8 list" where
  "root_dir ps = dirent_bytes 1 [46] @ dirent_bytes 1 [46, 46] @ root_entries 2 ps"

definition image_files :: "host \<Rightarrow> u8 list list \<Rightarrow> (u16 \<times> u8 list) list" where
  "image_files h ps = (T_DIR, root_dir ps) # files_of h ps"

lemma root_dir_length: "\<forall>p\<in>set ps. good_file h p \<Longrightarrow> length (root_dir ps) = 16 * length ps + 32"
  using root_entries_length [of ps h 2] by (simp add: root_dir_def dirent_bytes_def DIRSIZ_def)

lemma dots_ok:
  obtains t1 t2 t3 B where
    "mk_ialloc T_DIR (wsect 1 (put_sb (\<lambda>_. 0) mk_sb) (fold (\<lambda>i. wsect (of_nat i) (\<lambda>_. 0)) [0..<FSSIZE] mk_start)) = Some (1, t1)"
    "iappend 1 (mk_dirent 1 [46]) 16 t1 = Some t2" "iappend 1 (mk_dirent 1 [46, 46]) 16 t2 = Some t3"
    "fs_ok t3 [(T_DIR, dirent_bytes 1 [46] @ dirent_bytes 1 [46, 46])] B"
proof -
  obtain t1 where t1: "mk_ialloc T_DIR (wsect 1 (put_sb (\<lambda>_. 0) mk_sb) (fold (\<lambda>i. wsect (of_nat i) (\<lambda>_. 0)) [0..<FSSIZE] mk_start)) = Some (1, t1)"
      "fs_ok t1 [(T_DIR, [])] [([], [])]"
    using mk_ialloc_ok [OF start_ok, of T_DIR] by auto
  have d: "map (mk_dirent (of_nat 1) [46]) [0..<16] = dirent_bytes 1 [46]"
      "map (mk_dirent (of_nat 1) [46, 46]) [0..<16] = dirent_bytes 1 [46, 46]"
    by (rule mk_dirent_bytes; simp)+
  have l: "length (dirent_bytes 1 [46]) = 16" "length (dirent_bytes 1 [46, 46]) = 16" by (simp_all add: dirent_bytes_def DIRSIZ_def)
  have fit: "blocks_in [(T_DIR, dirent_bytes 1 [46])] \<le> 1953"
      "blocks_in [(T_DIR, dirent_bytes 1 [46] @ dirent_bytes 1 [46, 46])] \<le> 1953" using l by (simp_all add: used_def nblk_def)
  have "\<exists>t B'. iappend (of_nat (0 + 1)) (mk_dirent (of_nat 1) [46]) (of_nat 16) t1 = Some t \<and>
      fs_ok t ([(T_DIR, [])][0 := (T_DIR, [] @ map (mk_dirent (of_nat 1) [46]) [0..<16])]) B'"
    by (rule iappend_ok [OF t1(2)]) (unfold d, use fit in simp_all)
  then obtain t2 B2 where t2: "iappend 1 (mk_dirent 1 [46]) 16 t1 = Some t2" "fs_ok t2 [(T_DIR, dirent_bytes 1 [46])] B2"
    unfolding d by auto
  have "\<exists>t B'. iappend (of_nat (0 + 1)) (mk_dirent (of_nat 1) [46, 46]) (of_nat 16) t2 = Some t \<and>
      fs_ok t ([(T_DIR, dirent_bytes 1 [46])][0 := (T_DIR, dirent_bytes 1 [46] @ map (mk_dirent (of_nat 1) [46, 46]) [0..<16])]) B'"
    by (rule iappend_ok [OF t2(2)]) (unfold d, use l in \<open>simp_all add: fit used_def nblk_def del: One_nat_def\<close>)
  then obtain t3 B3 where "iappend 1 (mk_dirent 1 [46, 46]) 16 t2 = Some t3"
      "fs_ok t3 [(T_DIR, dirent_bytes 1 [46] @ dirent_bytes 1 [46, 46])] B3"
    unfolding d by auto
  then show thesis using that t1(1) t2(1) by blast
qed

lemma mkfs_run:
  assumes im: "h_image h" and good: "\<forall>p\<in>set ps. good_file h p" and len: "length ps \<le> 198"
    and fit: "blocks_in (image_files h ps) \<le> 1953"
  shows "\<exists>s B. fs_ok s (image_files h ps) B \<and> mkfs h (prog # fsimg # ps) =
    Some (s\<lparr>mk_img := (mk_img s)(33 + 1 div 16 := splice (mk_img s (33 + 1 div 16)) (1 mod 16 * 64)
        (put32 (din_of (mk_img s) 1) 8 (of_nat (rounded (length (root_dir ps))))) 64,
      46 := fold (\<lambda>i b. b(i div 8 := b (i div 8) OR push_bit (i mod 8) 1)) [0..<47 + blocks_in (image_files h ps)] (\<lambda>_. 0))\<rparr>)"
proof -
  define fb where "fb = 47 + blocks_in (image_files h ps)"
  define bm :: bytes where "bm = fold (\<lambda>i b. b(i div 8 := b (i div 8) OR push_bit (i mod 8) 1)) [0..<fb] (\<lambda>_. 0)"
  have rl: "length (root_dir ps) = 16 * length ps + 32" by (rule root_dir_length [OF good])
  obtain t1 t2 t3 B3 where dots:
    "mk_ialloc T_DIR (wsect 1 (put_sb (\<lambda>_. 0) mk_sb) (fold (\<lambda>i. wsect (of_nat i) (\<lambda>_. 0)) [0..<FSSIZE] mk_start)) = Some (1, t1)"
    "iappend 1 (mk_dirent 1 [46]) 16 t1 = Some t2" "iappend 1 (mk_dirent 1 [46, 46]) 16 t2 = Some t3"
    "fs_ok t3 [(T_DIR, dirent_bytes 1 [46] @ dirent_bytes 1 [46, 46])] B3"
    by (rule dots_ok)
  have X: "(T_DIR, (dirent_bytes 1 [46] @ dirent_bytes 1 [46, 46]) @ root_entries (length ([] :: (u16 \<times> u8 list) list) + 2) ps) #
      [] @ files_of h ps = image_files h ps" by (simp add: image_files_def root_dir_def numeral_2_eq_2)
  have "\<exists>t B'. mk_files h 1 ps t3 = Some t \<and> fs_ok t ((T_DIR, (dirent_bytes 1 [46] @ dirent_bytes 1 [46, 46]) @
      root_entries (length ([] :: (u16 \<times> u8 list) list) + 2) ps) # [] @ files_of h ps) B'"
    by (rule mk_files_ok [OF dots(4) good]) (use len fit rl in \<open>simp_all only: X, simp_all add: root_dir_def dirent_bytes_def DIRSIZ_def\<close>)
  then obtain s B where s: "mk_files h 1 ps t3 = Some s" "fs_ok s (image_files h ps) B" unfolding X by blast
  have room: "mk_len s = 2000" "freeblock s = of_nat fb" "fb \<le> 2000" using s(2) by (simp_all add: fs_ok_def room_ok_def fb_def)
  have "0 < length (image_files h ps)" "image_files h ps ! 0 = (T_DIR, root_dir ps)" by (simp_all add: image_files_def)
  then have size: "get32 (din_of (mk_img s) 1) 8 = of_nat (length (root_dir ps))"
    using fs_okD(1) [OF s(2), of 0] by (simp add: file_in_def)
  have "length (root_dir ps) < 2 ^ 20" using rl len by simp
  note root = fix_root_ok [OF _ room(1) size this]
  have bal: "mk_balloc (sint (freeblock t)) t = Some (t\<lparr>mk_img := (mk_img t)(46 := bm)\<rparr>)"
    if "mk_len t = 2000" "freeblock t = of_nat fb" for t
  proof -
    have "sint (freeblock t) = int fb" using that(2) room(3) by (simp add: signed_of_nat signed_take_bit_int_eq_self)
    then show ?thesis using that(1) room(3) wsect_nat [of 46 _ t]
      by (simp add: mk_balloc_def mk_sb_fields bm_def BPB_def BSIZE_def max_def)
  qed
  have "mkfs h (prog # fsimg # ps) = Some (s\<lparr>mk_img := (mk_img s)(33 + 1 div 16 := splice (mk_img s (33 + 1 div 16)) (1 mod 16 * 64)
        (put32 (din_of (mk_img s) 1) 8 (of_nat (rounded (length (root_dir ps))))) 64, 46 := bm)\<rparr>)"
    using im dots(1-3) s(1) root bal room(1,2) unfolding mkfs_def by (simp add: ROOTINO_def)
  then show ?thesis using s(2) unfolding bm_def fb_def by blast
qed

text \<open>
  C20: \<open>mkfs\<close> succeeds whenever the host's files can be read, their names fit and they fit into the
  inodes and blocks of the image, and the image is then what the kernel expects: its super
  block is the one of the layout; inode \<open>i + 2\<close> is the \<open>i\<close>-th file with one link and, through its direct
  and indirect block addresses, its bytes; inode 1 is the root directory with the entries of all
  files in order, its size rounded up to a whole block, and the block at the end is missing
  exactly when the entries had filled a block; the blocks of the files and their indirect
  blocks are all different, and the bitmap marks them and the blocks before them as used and
  the others as free.
\<close>

theorem mkfs_image:
  assumes "h_image h" "\<forall>p\<in>set ps. good_file h p" "length ps \<le> 198"
    and "blocks_in (image_files h ps) \<le> FSSIZE - nmeta"
  shows "\<exists>s img. mkfs h (prog # fsimg # ps) = Some s \<and> mk_img s = img \<and> get_sb (img 1) = mk_sb \<and>
    (\<forall>i<length ps. get16 (disk_inode img (i + 2)) 0 = T_FILE \<and> get16 (disk_inode img (i + 2)) 6 = 1 \<and>
      disk_bytes img (i + 2) = content h (ps ! i)) \<and>
    get16 (disk_inode img 1) 0 = T_DIR \<and> get16 (disk_inode img 1) 6 = 1 \<and>
    disk_size img 1 = rounded (length (root_dir ps)) \<and> take (length (root_dir ps)) (disk_bytes img 1) = root_dir ps \<and>
    (disk_block img 1 (length (root_dir ps) div BSIZE) = 0 \<longleftrightarrow> length (root_dir ps) mod BSIZE = 0) \<and>
    (\<forall>i\<le>length ps. distinct (disk_blocks img (i + 1) (nblk (length (snd (image_files h ps ! i))))) \<and>
      set (disk_blocks img (i + 1) (nblk (length (snd (image_files h ps ! i))))) \<subseteq> {nmeta..<nmeta + blocks_in (image_files h ps)} \<and>
      (\<forall>j\<le>length ps. i \<noteq> j \<longrightarrow> set (disk_blocks img (i + 1) (nblk (length (snd (image_files h ps ! i))))) \<inter>
        set (disk_blocks img (j + 1) (nblk (length (snd (image_files h ps ! j))))) = {})) \<and>
    (\<forall>b<FSSIZE. bit_clear (img (unat (BBLOCK (of_nat b) (get_sb (img 1))))) (b mod BPB) \<longleftrightarrow> nmeta + blocks_in (image_files h ps) \<le> b)"
proof -
  define X where "X = image_files h ps"
  define r where "r = root_dir ps"
  have m: "nmeta = 47" by (simp add: nmeta_def nlog_def ninodeblocks_def nbitmap_def NINODES_def IPB_def BPB_def mk_consts
      LOGBLOCKS_def MAXOPBLOCKS_def)
  have fit: "blocks_in (image_files h ps) \<le> 1953" using assms(4) m by (simp add: FSSIZE_def)
  have X: "X = (T_DIR, r) # files_of h ps" "length (files_of h ps) = length ps" by (simp_all add: X_def r_def image_files_def files_of_def)
  define n where "n = (1 :: nat)"
  define bm :: bytes where "bm = fold (\<lambda>i b. b(i div 8 := b (i div 8) OR push_bit (i mod 8) 1)) [0..<47 + blocks_in X] (\<lambda>_. 0)"
  obtain s B where ok: "fs_ok s X B" and run: "mkfs h (prog # fsimg # ps) =
    Some (s\<lparr>mk_img := (mk_img s)(33 + n div 16 := splice (mk_img s (33 + n div 16)) (n mod 16 * 64)
        (put32 (din_of (mk_img s) n) 8 (of_nat (rounded (length r)))) 64, 46 := bm)\<rparr>)"
    using mkfs_run [OF assms(1-3) fit, of prog fsimg] unfolding X_def n_def r_def bm_def by blast
  define img where "img = (mk_img s)(33 + n div 16 := splice (mk_img s (33 + n div 16)) (n mod 16 * 64)
        (put32 (din_of (mk_img s) n) 8 (of_nat (rounded (length r)))) 64, 46 := bm)"
  have rl: "length r = 16 * length ps + 32" unfolding r_def by (rule root_dir_length [OF assms(2)])
  have r20: "length r < 2 ^ 20" using rl assms(3) by simp
  note fin = finished_image [OF ok [unfolded X(1)] n_def r20 img_def, unfolded X(2) n_def]
  have len: "length X = length ps + 1" by (simp add: X)
  have sub: "taken (B ! i) \<subseteq> {47..<47 + blocks_in X}" "taken (B ! i) \<subseteq> {47..<2000}" if i: "i \<le> length ps" for i
  proof -
    show t: "taken (B ! i) \<subseteq> {47..<47 + blocks_in X}" by (rule fs_okD(2) [OF ok]) (use i len in simp)
    have "47 + blocks_in X \<le> 2000" using fit by (simp add: X_def)
    then show "taken (B ! i) \<subseteq> {47..<2000}" by (intro subset_trans [OF t]) simp
  qed
  have files: "get16 (disk_inode img (i + 2)) 0 = T_FILE" "get16 (disk_inode img (i + 2)) 6 = 1"
      "disk_bytes img (i + 2) = content h (ps ! i)"
      "disk_blocks img (i + 2) (nblk (length (content h (ps ! i)))) = fst (B ! (i + 1)) @ snd (B ! (i + 1))" if i: "i < length ps" for i
    using file_on_disk [of img "i + 2" T_FILE "content h (ps ! i)" "fst (B ! (i + 1))" "snd (B ! (i + 1))"] fin(1) fin(2) [of i] sub(2) [of "i + 1"] i assms(3)
    by (simp_all add: files_of_def)
  have blocks: "disk_blocks img (i + 1) (nblk (length (snd (X ! i)))) = fst (B ! i) @ snd (B ! i)" if i: "i \<le> length ps" for i
  proof (cases i)
    case 0
    then show ?thesis using disk_block_eq(2) [OF fin(1) _ fin(6) sub(2) [of 0]] fin(8) by (simp add: X)
  next
    case (Suc k)
    then show ?thesis using files(4) [of k] i by (simp add: X files_of_def)
  qed
  have "length r < 12 * 1024" using rl assms(3) by simp
  note root = rounded_file [OF fin(1) _ fin(6) sub(2) fin(7,8,5) this]
  have dist: "distinct (fst (B ! i) @ snd (B ! i))" if "i \<le> length ps" for i
    using fs_okD(1) [OF ok, of i] that len by (simp add: file_in_def blocks_at_def)
  have disj: "taken (B ! i) \<inter> taken (B ! j) = {}" if "i \<le> length ps" "j \<le> length ps" "i \<noteq> j" for i j
    by (rule fs_okD(3) [OF ok]) (use that len in simp_all)
  show ?thesis
    unfolding X_def [symmetric] r_def [symmetric]
  proof (intro exI [of _ "s\<lparr>mk_img := img\<rparr>"] exI [of _ img] conjI allI impI)
    show "mkfs h (prog # fsimg # ps) = Some (s\<lparr>mk_img := img\<rparr>)" unfolding run img_def ..
    show "mk_img (s\<lparr>mk_img := img\<rparr>) = img" by simp
    show "bit_clear (img (unat (BBLOCK (of_nat b) (get_sb (img 1))))) (b mod BPB) \<longleftrightarrow> nmeta + blocks_in X \<le> b" if "b < FSSIZE" for b
      unfolding fin(1) unfolding img_def bm_def m by (rule bitmap_read [OF that])
    fix i assume i: "i \<le> length ps"
    note b = blocks [OF i]
    show "distinct (disk_blocks img (i + 1) (nblk (length (snd (X ! i)))))" unfolding b by (rule dist [OF i])
    show "set (disk_blocks img (i + 1) (nblk (length (snd (X ! i))))) \<subseteq> {nmeta..<nmeta + blocks_in X}"
      unfolding b m by (rule sub(1) [OF i])
    fix j assume j: "j \<le> length ps" "i \<noteq> j"
    show "set (disk_blocks img (i + 1) (nblk (length (snd (X ! i))))) \<inter> set (disk_blocks img (j + 1) (nblk (length (snd (X ! j))))) = {}"
      unfolding b blocks [OF j(1)] by (rule disj [OF i j])
  qed (simp_all only: fin files root)
qed

lemma mkfs_image_witness:
  "\<exists>s. mkfs \<lparr>h_image = True, h_files = (\<lambda>p. if p = [97] then Some [[7], [9]] else None)\<rparr> [[], [], [97]] = Some s \<and>
    disk_bytes (mk_img s) 2 = [7, 9] \<and>
    take 48 (disk_bytes (mk_img s) 1) = dirent_bytes 1 [46] @ dirent_bytes 1 [46, 46] @ dirent_bytes 2 [97]"
proof -
  define h where "h = \<lparr>h_image = True, h_files = (\<lambda>p. if p = [97] then Some [[7], [9]] else None)\<rparr>"
  have five: "(5 :: nat) = Suc 4" by simp
  have "strncmp (str [97]) (str [117, 115, 101, 114, 47]) 5 \<noteq> 0" unfolding five strncmp.simps by (simp add: str_def)
  then have "shortname [97] = [97]" by (simp add: shortname_def)
  then have n: "mk_name (shortname [97]) = [97]" "shortname [97] = [97]" by (simp_all add: mk_name_def)
  note n = n(2) n(1) [unfolded n(2)]
  have l: "length (root_dir [[97]]) = 48" by (simp add: root_dir_def dirent_bytes_def n DIRSIZ_def)
  have c: "content h [97] = [7, 9]" by (simp add: content_def h_def)
  have "\<forall>p\<in>set [[97]]. good_file h p" by (simp add: good_file_def n c DIRSIZ_def mk_consts) (simp add: h_def)
  moreover have "blocks_in (image_files h [[97]]) \<le> FSSIZE - nmeta"
    by (simp add: image_files_def files_of_def l c used_def nblk_def FSSIZE_def nmeta_def nlog_def ninodeblocks_def nbitmap_def
        NINODES_def IPB_def BPB_def BSIZE_def LOGBLOCKS_def MAXOPBLOCKS_def)
  moreover have "h_image h" by (simp add: h_def)
  ultimately obtain s where s: "mkfs h [[], [], [97]] = Some s" "\<forall>i<length [[97 :: u8]]. disk_bytes (mk_img s) (i + 2) = content h ([[97]] ! i)"
      "take (length (root_dir [[97]])) (disk_bytes (mk_img s) 1) = root_dir [[97]]"
    using mkfs_image [of h "[[97]]" "[]" "[]"] by fastforce
  have "disk_bytes (mk_img s) 2 = [7, 9]" using s(2) c by (simp add: numeral_2_eq_2)
  moreover have "take 48 (disk_bytes (mk_img s) 1) = dirent_bytes 1 [46] @ dirent_bytes 1 [46, 46] @ dirent_bytes 2 [97]"
    using s(3) unfolding l by (simp add: root_dir_def n)
  ultimately show ?thesis using s(1) unfolding h_def by blast
qed

end
