(* ===== verification/Spec2Isabelle.thy ===== *)
theory Spec2Isabelle
  imports Prelude Cstring Ringbuf Spinlock Kalloc Procdata Vm Ptable Walk Uvm Sched Bio Bcache Blockdata Log Commit Copy Fs Uart Console Pipe Pipeflow Tty Numfmt Fsdata Logadm Transact Filedata Fileio Fileread Inodeio File Proc Procflow Wakeup Exec Sysargs Sysfile Syscall Tables Itable Sysedge Virtio Trap Boot Usys Ulib Grep Uprint Shparse Shtype Shround Shrun Umalloc Uprogs Sixfive Xargs Mkfs Mkimage Mktree
begin

text \<open>
  A verification library for the xv6 operating system of this repository, as it is in
  \<^verbatim>\<open>quiz/lab2\<close>: the kernel (\<^verbatim>\<open>kernel/\<close>), the user programs with logic of their own (\<^verbatim>\<open>user/\<close>) and
  the builder of the first file system (\<^verbatim>\<open>mkfs/\<close>). All file names below are relative to \<^verbatim>\<open>src/quiz/lab2\<close>, except \<^verbatim>\<open>user/sleep.c\<close>, which only \<^verbatim>\<open>quiz/lab1\<close> has.

  \<^bold>\<open>How the code is modelled.\<close> Every C function is a HOL function with the name of the C function
  (a prefix \<open>u\<close> marks the routines of the user library that the kernel has too), in the order of
  its file. C integers are words of their width; memory is a map from 64-bit addresses to
  bytes (\<open>mem\<close> of Cstring), and the page tables, the free list and the trapframes live in it as
  bytes. Kernel code returns a \<open>kres\<close> of Prelude: \<open>Ok\<close> with a value and the new state, \<open>Panic\<close> with
  the message, or \<open>Block\<close>, when it has called \<open>sched\<close>: the state is the one in which the scheduler
  gets control, with the locks that are held then. User code returns a \<open>ures\<close> of Usys: \<open>URet\<close>,
  \<open>UExit\<close> or \<open>UFault\<close>. The states are records that extend each other in the order of the layers,
  \<open>kmach\<close> (memory, free list, locks), \<open>kprocs\<close> (process table), \<open>kbio\<close> (buffers), \<open>klog\<close>, \<open>kfs\<close>
  (inodes), \<open>kdev\<close> (console), \<open>kfile\<close> (pipes and open files), \<open>ksys\<close>, \<open>kvirtio\<close>, \<open>ktrap\<close>; an operation is
  polymorphic in the fields of the layers above it.

  Spinlock models \<open>acquire\<close> and \<open>release\<close> at the level of atomic memory operations and proves mutual
  exclusion over all interleavings of the harts; by \<open>spin_refines_spec\<close> they implement the abstract
  \<open>acquire\<close> and \<open>release\<close> of Prelude (a set of held locks, a panic on misuse), over which everything
  else is written. An operation is then one run of one process between two points where it holds
  no lock or sleeps. \<open>sleep\<close> and \<open>wakeup\<close> release and take locks in the middle, and it matters in which
  order: their bodies are lists of steps (\<open>sleep_code\<close>, \<open>sleep_return_code\<close> and \<open>wakeup_code\<close> of Sched), which the
  operations run one after the other and Wakeup interleaves with those of other processes.

  \<^bold>\<open>Theories.\<close>
  \<^item> Prelude: results, sequencing, weakest preconditions (\<open>wp\<close> total, \<open>pwp\<close> partial), counted loops,
    searches, the interface \<open>allocator\<close>. Cstring: \<^verbatim>\<open>kernel/string.c\<close>. Ringbuf: the interface \<open>fifo\<close> of
    bounded queues, and circular arrays.
  \<^item> Spinlock: \<^verbatim>\<open>spinlock.c\<close>. Kalloc: \<^verbatim>\<open>kalloc.c\<close>, an interpretation of the allocator interface.
  \<^item> Procdata: \<^verbatim>\<open>proc.h\<close> and constants. Vm, Uvm: \<^verbatim>\<open>vm.c\<close>; Ptable and Walk prove them against trees of page
    tables and the translation of the hardware.
  \<^item> Sched: \<open>sleep\<close>, \<open>wakeup\<close>, \<^verbatim>\<open>sleeplock.c\<close>. Proc: the rest of \<^verbatim>\<open>proc.c\<close>. Procflow: wakeups, \<open>kill\<close>, \<open>wait\<close>.
    Wakeup: \<open>sleep\<close> and \<open>wakeup\<close> interleaved step by step.
  \<^item> Bio: \<^verbatim>\<open>bio.c\<close>; Bcache: the invariant of the cache and a specification of every operation.
    Log: \<^verbatim>\<open>log.c\<close>; Commit: commit, crash and recovery; Logadm: admission of operations; Transact:
    the blocks that one operation changes, with \<open>balloc\<close> and \<open>bfree\<close>.
  \<^item> Blockdata: fields of blocks. Copy: \<open>either_copyin\<close> and \<open>either_copyout\<close>. Fs: \<^verbatim>\<open>fs.c\<close>; Fsdata: on-disk
    inodes and paths; Itable: the inode table; Inodeio: \<open>iupdate\<close> and \<open>ilock\<close>; Filedata, Fileio, Fileread: the bytes of a file under
    \<open>bmap\<close>, \<open>writei\<close> and \<open>readi\<close>, with the interfaces \<open>copy_source\<close> and \<open>copy_target\<close> for kernel and user memory.
  \<^item> Uart: \<^verbatim>\<open>uart.c\<close>, \<^verbatim>\<open>printf.c\<close>; Numfmt: numerals. Console: \<^verbatim>\<open>console.c\<close>; Tty: the line editor it refines.
  \<^item> Pipe: \<^verbatim>\<open>pipe.c\<close>; Pipeflow: queues and closed ends. File: \<^verbatim>\<open>file.c\<close>; Tables: files and descriptors.
  \<^item> Exec: \<^verbatim>\<open>exec.c\<close>. Sysargs, Sysfile, Syscall: \<^verbatim>\<open>syscall.c\<close>, \<^verbatim>\<open>sysfile.c\<close>, \<^verbatim>\<open>sysproc.c\<close>; Sysedge: edge cases.
  \<^item> Virtio: \<^verbatim>\<open>virtio_disk.c\<close>. Trap: \<^verbatim>\<open>trap.c\<close>, \<^verbatim>\<open>plic.c\<close>. Boot: \<^verbatim>\<open>start.c\<close>, \<^verbatim>\<open>main.c\<close>.
  \<^item> Usys: the kernel as user programs see it. Ulib, Uprint, Umalloc: \<^verbatim>\<open>user/ulib.c\<close>, \<^verbatim>\<open>printf.c\<close>, \<^verbatim>\<open>umalloc.c\<close>.
  \<^item> Shparse, Shrun: \<^verbatim>\<open>user/sh.c\<close>; Shtype and Shround prove the parser. Grep: \<^verbatim>\<open>grep.c\<close>. Uprogs: \<^verbatim>\<open>cat.c\<close>, \<^verbatim>\<open>wc.c\<close>,
    \<^verbatim>\<open>echo.c\<close>, \<^verbatim>\<open>sleep.c\<close>. Sixfive: \<^verbatim>\<open>sixfive.c\<close>. Xargs: \<^verbatim>\<open>xargs.c\<close>.
  \<^item> Mkfs: \<^verbatim>\<open>mkfs/mkfs.c\<close>; Mkimage: the blocks of a file and appending to it; Mktree: the whole image.

  \<^bold>\<open>What is shown.\<close> Mutual exclusion and the lock protocol; the page allocator as a set of free
  pages; \<open>walk\<close>, \<open>mappages\<close> and the copies between kernel and user memory against the translation; the
  atomicity of transactions under a crash at any write, and that admitted operations fit the log;
  the first-fit allocation of blocks; the contents of files under \<open>writei\<close> and \<open>readi\<close>; that \<open>ilock\<close> loads
  what \<open>iupdate\<close> stored; inodes and paths against their formats; pipes and the
  console as queues and as a line editor; the tables of files, descriptors and inodes; that no
  wakeup is lost in any interleaving; numerals. For user programs: \<open>malloc\<close> and \<open>free\<close> keep a heap of disjoint
  blocks and the contents of those in use; the parser of the shell ends, builds well-typed commands and inverts a printer, and
  pipelines are wired as they are written, and no process of the shell keeps another end of a pipe; \<open>grep\<close> matches the language of its pattern and prints
  whole lines; \<open>xargs\<close> stays in bounds and loses no word; \<open>sixfive\<close> prints the right numbers, as far as they are \<open>int\<close>s. \<open>mkfs\<close>
  leaves an image that the definitions of Fs read as the given files, with a bitmap that agrees.

  \<^bold>\<open>Bounds and fuel.\<close> Loops over tables are \<open>foreach\<close>, \<open>scan\<close> or \<open>kscan\<close> over the indices of the table.
  \<open>ring_find\<close> follows the list of buffers for \<open>NBUF\<close> steps, the number of buffers, so it visits all
  of them (\<open>ring_find_next\<close>); \<open>mappages_loop\<close> runs for the number of pages, \<open>freewalk\<close> for the three
  levels of a table; \<open>free_chain_loop\<close> for \<open>NUM + 1\<close> descriptors, after which a cycle has been
  met and freeing again panics; \<open>virtio_intr_loop\<close> for the distance of the two indices and
  \<open>uartintr_loop\<close> for the bytes that have arrived. The parser of the shell and all loops of user
  programs are defined without fuel, by measures. Loops that wait for another process
  (\<open>kwait_round\<close>, \<open>sys_pause_round\<close>, \<open>begin_op\<close>, \<open>piperead\<close>) are modelled up to the call of \<open>sleep\<close>, which is a
  \<open>Block\<close>; the woken process starts the loop again.

  \<^bold>\<open>Not modelled.\<close> Assembly (\<^verbatim>\<open>entry.S\<close>, \<^verbatim>\<open>kernelvec.S\<close>, \<^verbatim>\<open>swtch.S\<close>, \<^verbatim>\<open>trampoline.S\<close>, \<^verbatim>\<open>usys.pl\<close>): the model starts above the
  saving of registers, and what a process does between two switches is a parameter of the
  scheduler. The devices: the disk behind \<open>virtio_disk_rw\<close> is the contract of the driver, and the
  registers are fields of the states. Of \<^verbatim>\<open>quiz/lab1\<close>, whose kernel differs in few lines, only
  \<^verbatim>\<open>sleep.c\<close>. The test programs (\<^verbatim>\<open>usertests.c\<close>, \<^verbatim>\<open>grind.c\<close> and others) and the programs that only pass their
  arguments to a system call.
\<close>

end
